(* ===== verification/Prelude.thy ===== *)
theory Prelude
  imports Main "HOL-Library.Word" "HOL-Library.Monad_Syntax"
begin

text \<open>
  Shared vocabulary of the development.

  \<^item> The kernel's integer types of \<^verbatim>\<open>core/include/ostype.h\<close> are words of the same width;
    \<open>+\<close>, \<open>-\<close>, \<open>*\<close> and comparison on them are those of unsigned C arithmetic.
  \<^item> A computation that may not return has type \<open>'a option\<close>: \<open>None\<close> stands for "control
    never comes back to the caller". \<^verbatim>\<open>panic_print\<close> (\<^verbatim>\<open>core/lib/debug.c\<close>) disables
    interrupts and halts for ever, so a failing \<^verbatim>\<open>ASSERT\<close>, a \<^verbatim>\<open>PANIC\<close> and a loop
    that runs for ever are all \<open>None\<close>. Every theorem that says a routine returns is stated with
    \<open>Some\<close>.
  \<^item> The collections \<open>frog_defs\<close> (definitions that unfold in proofs about their own theory) and
    \<open>frog_words\<close> (facts that move word goals to \<open>nat\<close>).
\<close>

unbundle bit_operations_syntax

type_synonym u8 = "8 word"
type_synonym u16 = "16 word"
type_synonym u32 = "32 word"
type_synonym addr = "32 word"

named_theorems frog_defs "definitions unfolded by the proofs of their component"
named_theorems frog_words "transfer of word facts to natural numbers"

section \<open>Assertions\<close>

definition ASSERT :: "bool \<Rightarrow> unit option" where
  "ASSERT c = (if c then Some () else None)"

abbreviation (input) PANIC :: "'a option" where
  "PANIC \<equiv> None"

lemma ASSERT_True [simp]: "ASSERT True = Some ()"
  and ASSERT_False [simp]: "ASSERT False = None"
  by (simp_all add: ASSERT_def)

lemma ASSERT_eq_Some [simp]: "ASSERT c = Some u \<longleftrightarrow> c"
  by (simp add: ASSERT_def)

lemma ASSERT_bind: "ASSERT c \<bind> f = (if c then f () else None)"
  by (simp add: ASSERT_def)

lemma ASSERT_bindI: "c \<Longrightarrow> f () = r \<Longrightarrow> ASSERT c \<bind> f = r"
  by simp

section \<open>Arithmetic macros of core/include/math.h\<close>

definition DIV_ROUND_UP :: "u32 \<Rightarrow> u32 \<Rightarrow> u32" where
  "DIV_ROUND_UP n d = (n + d - 1) div d"

definition MAX_u32 :: "u32 \<Rightarrow> u32 \<Rightarrow> u32" where
  "MAX_u32 a b = (if a > b then a else b)"

definition MIN_u32 :: "u32 \<Rightarrow> u32 \<Rightarrow> u32" where
  "MIN_u32 a b = (if a < b then a else b)"

section \<open>Words\<close>

lemma unat_div_word: "unat (x div y :: u32) = unat x div unat y"
  by (simp add: unat_div)

lemma unat_mod_word: "unat (x mod y :: u32) = unat x mod unat y"
  by (simp add: unat_mod)

lemma unat_add_less:
  fixes a b :: u32
  assumes "unat a + unat b < 2 ^ 32"
  shows "unat (a + b) = unat a + unat b"
  using assms by (simp add: unat_add_lem [THEN iffD1])

lemma unat_Suc_word:
  fixes a :: u32
  assumes "unat a + 1 < 2 ^ 32"
  shows "unat (a + 1) = Suc (unat a)"
  using unat_add_less [of a 1] assms by simp

lemma unat_sub_word:
  fixes a b :: u32
  assumes "unat b \<le> unat a"
  shows "unat (a - b) = unat a - unat b"
  using assms by (simp add: unat_sub_if_size word_le_nat_alt)

lemma unat_mult_less:
  fixes a b :: u32
  assumes "unat a * unat b < 2 ^ 32"
  shows "unat (a * b) = unat a * unat b"
  using assms by (simp add: unat_mult_lem [THEN iffD1])

lemma unat_of_nat_32:
  assumes "n < 2 ^ 32"
  shows "unat (of_nat n :: u32) = n"
  using assms by (simp add: unat_of_nat take_bit_nat_eq_self)

lemma unat_less_32: "unat (x :: u32) < 4294967296"
  using unsigned_less [of x] by simp

lemma unat_minus_one_32: "unat (-1 :: u32) = 4294967295"
proof -
  have "(-1 :: u32) = 4294967295" by simp
  then show ?thesis by (simp only: unat_numeral take_bit_numeral_numeral) simp
qed

lemmas unat_word32 [frog_words] =
  unat_div_word unat_mod_word unat_less_32

lemma word_eq_unat32: "(a :: u32) = b \<longleftrightarrow> unat a = unat b"
  by (simp add: word_unat_eq_iff)

text \<open>Signed comparison of values below the sign bit.\<close>

lemma sless_small:
  fixes a b :: u32
  assumes "unat a < 2 ^ 31" and "unat b < 2 ^ 31"
  shows "a <s b \<longleftrightarrow> unat a < unat b"
proof -
  have e: "sint x = int (unat x)" if "unat x < 2 ^ 31" for x :: u32
  proof -
    define n where "n = unat x"
    have "uint x = int n" by (simp add: n_def)
    moreover have "n < 2 ^ 31" using that by (simp add: n_def)
    ultimately have "uint x < 2 ^ 31" "- (2 ^ 31) \<le> uint x" by simp_all
    then have "sint x = uint x" unfolding sint_uint by (intro signed_take_bit_int_eq_self) simp_all
    then show ?thesis by simp
  qed
  show ?thesis unfolding word_sless_alt e [OF assms(1)] e [OF assms(2)] by (simp only: of_nat_less_iff)
qed

section \<open>Masks and shifts\<close>

lemma mask_page_dir: "(0xffc00000 :: u32) = NOT (mask 22)"
  and mask_page: "(0xfffff000 :: u32) = NOT (mask 12)"
  and mask_offset: "(0xfff :: u32) = mask 12"
  by (simp_all add: mask_eq_exp_minus_1)

lemma mask_page_table: "(0x003ff000 :: u32) = push_bit 12 (mask 10)"
  by (simp add: mask_eq_exp_minus_1 push_bit_eq_mult)

lemma unat_drop_bit_32: "unat (drop_bit n (v :: u32)) = unat v div 2 ^ n"
  by (simp only: unat_drop_bit_eq drop_bit_eq_div [where 'a = nat])

lemma unat_take_bit_32: "unat (take_bit n (v :: u32)) = unat v mod 2 ^ n"
  by (simp only: unsigned_take_bit_eq take_bit_eq_mod [where 'a = nat])

lemma unat_push_bit_32:
  "unat v * 2 ^ n < 2 ^ 32 \<Longrightarrow> unat (push_bit n (v :: u32)) = unat v * 2 ^ n"
  by (simp add: unsigned_push_bit_eq take_bit_eq_mod [where 'a = nat] push_bit_eq_mult [where 'a = nat])

text \<open>The frame address and the offset of a 32-bit address.\<close>

lemma unat_frame: "unat (v AND 0xfffff000 :: u32) = unat v div 4096 * 4096"
proof -
  have shift: "v AND 0xfffff000 = push_bit 12 (drop_bit 12 v)"
    unfolding mask_page by (rule bit_word_eqI) (auto simp: bit_simps)
  have "unat v div 2 ^ 12 * 2 ^ 12 < 2 ^ 32" using unat_less_32 [of v] by simp
  then show ?thesis
    using unat_push_bit_32 [of "drop_bit 12 v" 12] by (simp only: shift unat_drop_bit_32) simp
qed

lemma unat_offset: "unat (v AND 0xfff :: u32) = unat v mod 4096"
  by (simp only: mask_offset take_bit_eq_mask [symmetric] unat_take_bit_32) simp

section \<open>Least indices\<close>

text \<open>A linear search that has passed every index below \<open>n\<close> and stops at \<open>n\<close> has found the least.\<close>

lemma Least_nat_eqI:
  fixes n :: nat
  assumes "P n" and "\<And>m. m < n \<Longrightarrow> \<not> P m"
  shows "(LEAST m. P m) = n"
  using assms by (metis Least_equality not_le_imp_less)

section \<open>Ends of distinct lists\<close>

lemma butlast_distinctD:
  "distinct xs \<Longrightarrow> x \<in> set (butlast xs) \<Longrightarrow> x \<in> set xs \<and> x \<noteq> last xs"
  by (induction xs) (auto split: if_splits)

lemma tl_distinctD:
  "distinct xs \<Longrightarrow> x \<in> set (tl xs) \<Longrightarrow> x \<in> set xs \<and> x \<noteq> hd xs"
  by (cases xs) auto

end
