(* ===== verification/Bitmap.thy ===== *)
theory Bitmap
  imports Prelude
begin

text \<open>
  The bit allocator of \<^verbatim>\<open>core/lib/bitmap.c\<close>. A bitmap is a base pointer and a length in
  bytes; \<open>bits\<close> gives the byte at each offset from the base pointer. The byte map is total:
  offsets from \<open>map_bytes_length\<close> on are the memory behind the map, which
  \<open>find_block_bitmap\<close> reads once (its first loop loads the byte before it tests the bound).
\<close>

record bitmap =
  bits :: "nat \<Rightarrow> u8"
  map_bytes_length :: u32

section \<open>The operations\<close>

primrec clear_bytes :: "nat \<Rightarrow> nat \<Rightarrow> (nat \<Rightarrow> u8) \<Rightarrow> (nat \<Rightarrow> u8)" where
  "clear_bytes 0 p m = m"
| "clear_bytes (Suc n) p m = clear_bytes n (Suc p) (m(p := 0))"

definition init_bitmap :: "bitmap \<Rightarrow> bitmap" where
  "init_bitmap b = b\<lparr>bits := clear_bytes (unat (map_bytes_length b)) 0 (bits b)\<rparr>"

definition set_value_bitmap :: "bitmap \<Rightarrow> u32 \<Rightarrow> u8 \<Rightarrow> bitmap option" where
  "set_value_bitmap b bit_pos value = do {
     ASSERT (map_bytes_length b * 8 > bit_pos);
     ASSERT (value = 0 \<or> value = 1);
     let byte_id = unat (bit_pos div 8);
     let bit_in_byte_id = unat (bit_pos mod 8);
     let old = bits b byte_id;
     if value \<noteq> 0
     then Some (b\<lparr>bits := (bits b)(byte_id := old OR push_bit bit_in_byte_id 1)\<rparr>)
     else Some (b\<lparr>bits := (bits b)(byte_id := old AND NOT (push_bit bit_in_byte_id 1))\<rparr>)
   }"

definition get_value_bitmap :: "bitmap \<Rightarrow> u32 \<Rightarrow> u32 option" where
  "get_value_bitmap b bit_pos = do {
     ASSERT (map_bytes_length b * 8 > bit_pos);
     let byte_id = unat (bit_pos div 8);
     let bit_in_byte_id = unat (bit_pos mod 8);
     Some (ucast (bits b byte_id) AND push_bit bit_in_byte_id 1)
   }"

text \<open>The first loop of \<open>find_block_bitmap\<close>: skip the bytes that are full.\<close>

function skip_full :: "bitmap \<Rightarrow> nat \<Rightarrow> nat" where
  "skip_full b i = (if bits b i = 0xff \<and> i < unat (map_bytes_length b)
                    then skip_full b (Suc i) else i)"
  by pat_completeness auto
termination
  by (relation "measure (\<lambda>(b, i). unat (map_bytes_length b) - i)") auto

declare skip_full.simps [simp del]

text \<open>Its second loop: the lowest clear bit of the byte it stopped at.\<close>

lemma and_exp_eq_0 [frog_words]: "(w :: 'a :: len word) AND 2 ^ k = 0 \<longleftrightarrow> \<not> bit w k"
  by (simp add: and_exp_eq_0_iff_not_bit)

lemma exp_and_eq_0 [frog_words]: "2 ^ k AND (w :: 'a :: len word) = 0 \<longleftrightarrow> \<not> bit w k"
  by (simp add: and_exp_eq_0 and.commute [of "2 ^ k"])

lemma bit_ucast_u8 [simp]: "bit (ucast (x :: u8) :: u32) k \<longleftrightarrow> bit x k"
  using bit_imp_le_length [of x k] by (auto simp: bit_simps)

function first_clear :: "u8 \<Rightarrow> nat \<Rightarrow> nat" where
  "first_clear x bit_idx = (if push_bit bit_idx 1 AND (ucast x :: u32) \<noteq> 0
                            then first_clear x (Suc bit_idx) else bit_idx)"
  by pat_completeness auto
termination
  by (relation "measure (\<lambda>(x, k). 8 - k)")
    (auto simp: exp_and_eq_0 dest!: bit_imp_le_length)

declare first_clear.simps [simp del]

text \<open>Its third loop: count free bits from \<open>next_bit\<close> on until \<open>cnt\<close> of them are adjacent.\<close>

fun scan_run :: "bitmap \<Rightarrow> u32 \<Rightarrow> nat \<Rightarrow> u32 \<Rightarrow> u32 \<Rightarrow> u32 option" where
  "scan_run b cnt 0 next_bit count = Some (-1)"
| "scan_run b cnt (Suc other_bits) next_bit count =
     (if next_bit \<ge> map_bytes_length b * 8 then Some (-1)
      else do {
        v \<leftarrow> get_value_bitmap b next_bit;
        let count' = (if v = 0 then count + 1 else 0);
        if count' = cnt then Some (next_bit - cnt + 1)
        else scan_run b cnt other_bits (next_bit + 1) count'
      })"

definition find_block_bitmap :: "bitmap \<Rightarrow> u32 \<Rightarrow> u32 option" where
  "find_block_bitmap b cnt =
     (if cnt = 0 then Some (-1)
      else let pass = skip_full b 0; pass_count = of_nat pass :: u32 in
      if pass_count = map_bytes_length b then Some (-1)
      else do {
        ASSERT (pass_count < map_bytes_length b);
        let bit_idx = first_clear (bits b pass) 0;
        let start_idx = 8 * pass_count + of_nat bit_idx;
        if cnt = 1 then Some start_idx
        else (let other_bits = map_bytes_length b * 8 - start_idx;
                  next_bit = start_idx + 1
              in if next_bit \<ge> map_bytes_length b * 8 then Some (-1)
                 else scan_run b cnt (unat other_bits) next_bit 1)
      })"

text \<open>
  The loop \<^verbatim>\<open>for (i = 0; i < n; i++) set_value_bitmap(map, pos + i, v)\<close> with which the page
  allocator marks and releases a run of pages (\<^verbatim>\<open>core/mm/memory.c\<close>).
\<close>

primrec set_run :: "bitmap \<Rightarrow> u32 \<Rightarrow> nat \<Rightarrow> u8 \<Rightarrow> bitmap option" where
  "set_run b pos 0 v = Some b"
| "set_run b pos (Suc n) v = do { b' \<leftarrow> set_value_bitmap b pos v; set_run b' (pos + 1) n v }"

section \<open>What a bitmap means\<close>

definition nbits :: "bitmap \<Rightarrow> nat" where
  "nbits b = 8 * unat (map_bytes_length b)"

definition is_set :: "bitmap \<Rightarrow> nat \<Rightarrow> bool" where
  "is_set b i \<longleftrightarrow> bit (bits b (i div 8)) (i mod 8)"

text \<open>
  A bitmap is well formed when its bit count is a 32-bit number: \<^verbatim>\<open>map_bytes_length * 8\<close> is
  computed in 32 bits and would wrap otherwise.
\<close>

definition wf_bitmap :: "bitmap \<Rightarrow> bool" where
  "wf_bitmap b \<longleftrightarrow> nbits b < 2 ^ 32"

text \<open>The first \<open>n\<close> bits of a run starting at \<open>i\<close> are free.\<close>

definition free_run :: "bitmap \<Rightarrow> nat \<Rightarrow> nat \<Rightarrow> bool" where
  "free_run b i n \<longleftrightarrow> i + n \<le> nbits b \<and> (\<forall>j < n. \<not> is_set b (i + j))"

lemma unat_len8: "wf_bitmap b \<Longrightarrow> unat (map_bytes_length b * 8) = nbits b"
  by (simp add: wf_bitmap_def nbits_def unat_mult_less mult.commute)

lemma pos_less_len8: "wf_bitmap b \<Longrightarrow> p < map_bytes_length b * 8 \<longleftrightarrow> unat p < nbits b"
  by (simp add: word_less_nat_alt unat_len8)

section \<open>Single bits\<close>

lemma clear_bytes_apply:
  "clear_bytes n p m i = (if p \<le> i \<and> i < p + n then 0 else m i)"
  by (induction n arbitrary: p m) auto

lemma init_bitmap_all_clear: "i < nbits b \<Longrightarrow> \<not> is_set (init_bitmap b) i"
  by (auto simp: is_set_def init_bitmap_def clear_bytes_apply nbits_def)

lemma init_bitmap_length [simp]: "map_bytes_length (init_bitmap b) = map_bytes_length b"
  by (simp add: init_bitmap_def)

lemma get_value_bitmap_spec:
  assumes "wf_bitmap b" and "unat p < nbits b"
  shows "\<exists>v. get_value_bitmap b p = Some v \<and> (v = 0 \<longleftrightarrow> \<not> is_set b (unat p))"
  using assms
  by (auto simp: get_value_bitmap_def pos_less_len8 is_set_def frog_words)

lemma bit_set_u8: "k < 8 \<Longrightarrow> bit ((x :: u8) OR 2 ^ k) j \<longleftrightarrow> bit x j \<or> j = k"
  by (auto simp: bit_or_iff bit_exp_iff)

lemma bit_clear_u8: "bit ((x :: u8) AND NOT (2 ^ k)) j \<longleftrightarrow> bit x j \<and> j \<noteq> k"
  using bit_imp_le_length [of x j] by (auto simp: bit_and_iff bit_not_iff bit_exp_iff)

lemma div_mod_8_eq: "i div 8 = j div 8 \<and> i mod 8 = j mod 8 \<longleftrightarrow> i = (j :: nat)"
  by (metis div_mult_mod_eq)

text \<open>Writing one bit changes that bit and no other, wherever it lies.\<close>

lemma set_value_bitmap_spec:
  assumes "wf_bitmap b" and "unat p < nbits b" and "v = 0 \<or> v = 1"
  shows "\<exists>b'. set_value_bitmap b p v = Some b' \<and> map_bytes_length b' = map_bytes_length b \<and>
           (\<forall>i. is_set b' i = (if i = unat p then v = 1 else is_set b i))"
proof -
  have "i div 8 \<noteq> unat p div 8 \<or> i mod 8 \<noteq> unat p mod 8" if "i \<noteq> unat p" for i
    using that div_mod_8_eq by blast
  with assms show ?thesis
    by (auto simp: set_value_bitmap_def pos_less_len8 is_set_def bit_set_u8 bit_clear_u8 frog_words
        Let_def)
qed

lemma set_value_bitmap_wf:
  "set_value_bitmap b p v = Some b' \<Longrightarrow> nbits b' = nbits b"
  by (auto simp: set_value_bitmap_def ASSERT_bind nbits_def Let_def split: if_splits)

lemma set_value_bitmap_panics:
  assumes "wf_bitmap b" and "nbits b \<le> unat p"
  shows "set_value_bitmap b p v = None"
  using assms by (simp add: set_value_bitmap_def ASSERT_bind pos_less_len8)

section \<open>The search\<close>

lemma u8_full: "n < 8 \<Longrightarrow> bit (0xff :: u8) n"
proof -
  have "(0xff :: u8) = -1" by simp
  then show "n < 8 \<Longrightarrow> bit (0xff :: u8) n" by (simp only: bit_minus_1_iff) simp
qed

lemma first_clear_spec:
  assumes "x \<noteq> 0xff" and "\<forall>j < k. bit x j"
  shows "first_clear x k < 8 \<and> \<not> bit x (first_clear x k) \<and> (\<forall>j < first_clear x k. bit x j)"
  using assms
proof (induction x k rule: first_clear.induct)
  case (1 x k)
  show ?case
  proof (cases "bit x k")
    case True
    with 1 show ?thesis
      by (simp add: first_clear.simps [of x k] frog_words less_Suc_eq)
  next
    case False
    have "k < 8"
    proof (rule ccontr)
      assume "\<not> k < 8"
      with 1 have "\<forall>j < 8. bit x j" by simp
      then have "x = -1"
        by (intro bit_word_eqI) simp
      with 1 show False by simp
    qed
    with False 1 show ?thesis
      by (simp add: first_clear.simps [of x k] frog_words)
  qed
qed

lemma skip_full_spec:
  assumes "i \<le> unat (map_bytes_length b)" and "\<forall>j < i. bits b j = 0xff"
  shows "skip_full b i \<le> unat (map_bytes_length b) \<and> (\<forall>j < skip_full b i. bits b j = 0xff) \<and>
         (skip_full b i < unat (map_bytes_length b) \<longrightarrow> bits b (skip_full b i) \<noteq> 0xff)"
  using assms
proof (induction b i rule: skip_full.induct)
  case (1 b i)
  show ?case
  proof (cases "bits b i = 0xff \<and> i < unat (map_bytes_length b)")
    case True
    with 1 show ?thesis by (simp add: skip_full.simps [of b i] less_Suc_eq)
  next
    case False
    with 1 show ?thesis by (auto simp: skip_full.simps [of b i])
  qed
qed

lemma byte_full_is_set: "bits b (i div 8) = 0xff \<Longrightarrow> is_set b i"
  unfolding is_set_def by (simp only:) (rule u8_full, simp)

lemma lex_div_mod_8:
  fixes q k j :: nat
  assumes "j < 8 * q + k" and "k < 8"
  shows "j div 8 < q \<or> j div 8 = q \<and> j mod 8 < k"
proof (cases "j div 8 < q")
  case False
  then have "8 * q \<le> j" by linarith
  with assms have "j - 8 * q < k" "j div 8 = q" by linarith+
  then show ?thesis by (metis minus_mult_div_eq_mod)
qed simp

text \<open>The two first loops stop at the first free bit of the map, if there is one.\<close>

lemma first_free_bit:
  assumes "skip_full b 0 < unat (map_bytes_length b)"
  defines "f \<equiv> 8 * skip_full b 0 + first_clear (bits b (skip_full b 0)) 0"
  shows "f < nbits b" and "\<not> is_set b f" and "\<forall>j < f. is_set b j"
proof -
  let ?q = "skip_full b 0" and ?k = "first_clear (bits b (skip_full b 0)) 0"
  have q: "\<forall>j < ?q. bits b j = 0xff" "bits b ?q \<noteq> 0xff"
    using skip_full_spec [of 0 b] assms(1) by auto
  have k: "?k < 8" "\<not> bit (bits b ?q) ?k" "\<forall>j < ?k. bit (bits b ?q) j"
    using first_clear_spec [OF q(2), of 0] by auto
  have f: "f div 8 = ?q" "f mod 8 = ?k"
    using k(1) by (auto simp: f_def)
  show "f < nbits b" using assms(1) k(1) by (simp add: f_def nbits_def)
  show "\<not> is_set b f" using k(2) by (simp add: is_set_def f)
  show "\<forall>j < f. is_set b j"
  proof (intro allI impI)
    fix j assume "j < f"
    then have "j < 8 * ?q + ?k" by (simp add: f_def)
    then have "j div 8 < ?q \<or> j div 8 = ?q \<and> j mod 8 < ?k"
      using k(1) by (rule lex_div_mod_8)
    then show "is_set b j"
      using q(1) k(3) byte_full_is_set by (auto simp: is_set_def)
  qed
qed

lemma skip_full_all_set:
  assumes "skip_full b 0 = unat (map_bytes_length b)" and "i < nbits b"
  shows "is_set b i"
  using skip_full_spec [of 0 b] assms by (auto simp: nbits_def intro!: byte_full_is_set)

text \<open>The specification of the search: the lowest start of a free run, if any.\<close>

definition first_fit :: "bitmap \<Rightarrow> nat \<Rightarrow> nat option" where
  "first_fit b n = (if \<exists>i. free_run b i n then Some (LEAST i. free_run b i n) else None)"

definition u32_of_index :: "nat option \<Rightarrow> u32" where
  "u32_of_index r = (case r of None \<Rightarrow> -1 | Some i \<Rightarrow> of_nat i)"

lemma first_fit_eq_Some:
  assumes "free_run b i n" and "\<And>j. free_run b j n \<Longrightarrow> i \<le> j"
  shows "first_fit b n = Some i"
  using assms by (auto simp: first_fit_def intro!: Least_equality)

lemma first_fit_SomeD:
  assumes "first_fit b n = Some i"
  shows "free_run b i n" and "free_run b j n \<Longrightarrow> i \<le> j"
  using assms by (auto simp: first_fit_def intro: LeastI Least_le split: if_splits)

text \<open>
  Loop invariant of the third loop before it tests bit \<open>nb\<close> with \<open>k\<close> free bits counted: the
  \<open>k\<close> bits below \<open>nb\<close> are free and cannot be extended downwards, and no run of \<open>n\<close> free bits
  ends at or below \<open>nb\<close>.
\<close>

definition scan_inv :: "bitmap \<Rightarrow> nat \<Rightarrow> nat \<Rightarrow> nat \<Rightarrow> bool" where
  "scan_inv b n nb k \<longleftrightarrow> k < n \<and> k \<le> nb \<and> nb \<le> nbits b \<and>
     (\<forall>j. nb - k \<le> j \<and> j < nb \<longrightarrow> \<not> is_set b j) \<and>
     (k < nb \<longrightarrow> is_set b (nb - k - 1)) \<and> (\<forall>i. free_run b i n \<longrightarrow> nb < i + n)"

lemma free_run_nth: "free_run b i n \<Longrightarrow> i \<le> j \<Longrightarrow> j < i + n \<Longrightarrow> \<not> is_set b j"
  by (auto simp: free_run_def dest!: spec [of _ "j - i"])

lemma scan_inv_set:
  assumes "scan_inv b n nb k" and "nb < nbits b" and "is_set b nb"
  shows "scan_inv b n (Suc nb) 0"
proof -
  have "Suc nb < i + n" if "free_run b i n" for i
  proof (rule ccontr)
    assume "\<not> Suc nb < i + n"
    moreover have "nb < i + n" using assms(1) that by (auto simp: scan_inv_def)
    ultimately have "\<not> is_set b nb"
      using that assms(1) by (intro free_run_nth [OF that]) (auto simp: scan_inv_def)
    with assms(3) show False by simp
  qed
  with assms show ?thesis by (auto simp: scan_inv_def)
qed

lemma scan_inv_clear:
  assumes "scan_inv b n nb k" and "nb < nbits b" and "\<not> is_set b nb" and "Suc k < n"
  shows "scan_inv b n (Suc nb) (Suc k)"
proof -
  have "Suc nb < i + n" if "free_run b i n" for i
  proof (rule ccontr)
    assume "\<not> Suc nb < i + n"
    moreover have "nb < i + n" using assms(1) that by (auto simp: scan_inv_def)
    ultimately have "i + n = Suc nb" by simp
    with assms have "k < nb" "i \<le> nb - k - 1" "nb - k - 1 < i + n" by auto
    then show False
      using free_run_nth [OF that, of "nb - k - 1"] assms(1) by (auto simp: scan_inv_def)
  qed
  with assms show ?thesis by (auto simp: scan_inv_def less_Suc_eq)
qed

lemma scan_inv_found:
  assumes "scan_inv b n nb k" and "nb < nbits b" and "\<not> is_set b nb" and "Suc k = n"
  shows "first_fit b n = Some (Suc nb - n)"
proof (rule first_fit_eq_Some)
  have "\<not> is_set b (Suc nb - n + j)" if "j < n" for j
  proof (cases "Suc nb - n + j = nb")
    case False
    moreover have "nb - k \<le> Suc nb - n + j" "Suc nb - n + j \<le> nb"
      using assms(1,4) that by (auto simp: scan_inv_def)
    ultimately show ?thesis using assms(1) by (simp add: scan_inv_def)
  qed (use assms(3) in simp)
  then show "free_run b (Suc nb - n) n"
    using assms by (auto simp: free_run_def scan_inv_def)
  show "Suc nb - n \<le> j" if "free_run b j n" for j
    using that assms(1) by (auto simp: scan_inv_def)
qed

lemma scan_inv_end:
  assumes "scan_inv b n nb k" and "nb = nbits b"
  shows "first_fit b n = None"
  using assms by (auto simp: first_fit_def scan_inv_def free_run_def not_less)

lemma run_start:
  fixes nb cnt :: u32
  assumes "unat nb + 1 < 2 ^ 32" and "unat cnt \<le> Suc (unat nb)"
  shows "nb - cnt + 1 = of_nat (Suc (unat nb) - unat cnt)"
proof -
  have "unat (nb + 1 - cnt) = Suc (unat nb) - unat cnt"
    using assms by (simp add: unat_sub_word unat_Suc_word)
  then have "nb + 1 - cnt = of_nat (Suc (unat nb) - unat cnt)"
    using assms(1) by (simp add: word_eq_unat32 unat_of_nat_32)
  then show ?thesis by (simp add: algebra_simps)
qed

lemma scan_run_spec:
  assumes "wf_bitmap b" and "scan_inv b (unat cnt) (unat nb) (unat k)"
    and "nbits b - unat nb \<le> fuel"
  shows "scan_run b cnt fuel nb k = Some (u32_of_index (first_fit b (unat cnt)))"
  using assms(2,3)
proof (induction fuel arbitrary: nb k)
  case 0
  then have "unat nb = nbits b" by (simp add: scan_inv_def)
  with 0 show ?case by (simp add: scan_inv_end u32_of_index_def)
next
  case (Suc fuel)
  show ?case
  proof (cases "unat nb < nbits b")
    case False
    with Suc.prems have "unat nb = nbits b" by (simp add: scan_inv_def)
    with Suc.prems show ?thesis
      using assms(1) by (simp add: scan_inv_end u32_of_index_def word_le_nat_alt unat_len8)
  next
    case True
    have lim: "unat nb + 1 < 2 ^ 32" "unat k + 1 < 2 ^ 32"
      using assms(1) True Suc.prems(1) unat_less_32 [of cnt]
      by (auto simp: wf_bitmap_def scan_inv_def)
    note step = unat_Suc_word [OF lim(1)] unat_Suc_word [OF lim(2)]
    obtain v where v: "get_value_bitmap b nb = Some v" "v = 0 \<longleftrightarrow> \<not> is_set b (unat nb)"
      using get_value_bitmap_spec [OF assms(1) True] by blast
    have guard: "\<not> map_bytes_length b * 8 \<le> nb"
      using True assms(1) by (simp add: word_le_nat_alt unat_len8)
    consider (set) "is_set b (unat nb)"
      | (found) "\<not> is_set b (unat nb)" "Suc (unat k) = unat cnt"
      | (clear) "\<not> is_set b (unat nb)" "Suc (unat k) < unat cnt"
      using Suc.prems(1) unfolding scan_inv_def by linarith
    then show ?thesis
    proof cases
      case set
      with Suc.prems have inv: "scan_inv b (unat cnt) (Suc (unat nb)) 0"
        using True by (blast intro: scan_inv_set)
      have "cnt \<noteq> 0" using Suc.prems(1) by (auto simp: scan_inv_def)
      with set v guard inv Suc.IH [of "nb + 1" 0] Suc.prems(2) show ?thesis
        by (simp add: step)
    next
      case found
      from scan_inv_found [OF Suc.prems(1) True found]
      have ff: "first_fit b (unat cnt) = Some (Suc (unat nb) - unat cnt)" .
      have "nb - cnt + 1 = of_nat (Suc (unat nb) - unat cnt)"
        using found(2) Suc.prems(1) lim(1) by (intro run_start) (simp_all add: scan_inv_def)
      moreover have "k + 1 = cnt" using found(2) step(2) by (simp add: word_eq_unat32)
      ultimately show ?thesis using found(1) v guard ff by (simp add: u32_of_index_def)
    next
      case clear
      with Suc.prems have inv: "scan_inv b (unat cnt) (Suc (unat nb)) (Suc (unat k))"
        using True by (blast intro: scan_inv_clear)
      moreover have "k + 1 \<noteq> cnt" using clear(2) step(2) by (auto simp: word_eq_unat32)
      ultimately show ?thesis
        using clear v guard Suc.IH [of "nb + 1" "k + 1"] Suc.prems(2) by (simp add: step)
    qed
  qed
qed

lemma first_fit_one:
  assumes "\<not> is_set b f" and "f < nbits b" and "\<forall>j < f. is_set b j"
  shows "first_fit b 1 = Some f"
proof (rule first_fit_eq_Some)
  show "free_run b f 1" using assms(1,2) by (simp add: free_run_def)
  show "f \<le> j" if "free_run b j 1" for j
    using free_run_nth [OF that, of j] assms(3) by (cases "j < f") auto
qed

lemma scan_inv_start:
  assumes "\<not> is_set b f" and "f < nbits b" and "\<forall>j < f. is_set b j" and "1 < n"
  shows "scan_inv b n (Suc f) 1"
proof -
  have "Suc f < i + n" if "free_run b i n" for i
    using free_run_nth [OF that, of i] assms(3,4) by (cases "i < f") auto
  moreover have "\<forall>j. Suc f - 1 \<le> j \<and> j < Suc f \<longrightarrow> \<not> is_set b j"
    using assms(1) by (metis diff_Suc_1 le_antisym less_Suc_eq_le)
  ultimately show ?thesis using assms by (simp add: scan_inv_def)
qed

lemma find_from_first_free:
  assumes wf: "wf_bitmap b" and cnt: "cnt \<noteq> 0" and s: "unat s < nbits b" "\<not> is_set b (unat s)"
    "\<forall>j < unat s. is_set b j"
  shows "(if cnt = 1 then Some s else if s + 1 \<ge> map_bytes_length b * 8 then Some (-1)
          else scan_run b cnt (unat (map_bytes_length b * 8 - s)) (s + 1) 1)
       = Some (u32_of_index (first_fit b (unat cnt)))"
proof (cases "cnt = 1")
  case True
  with first_fit_one [OF s(2,1,3)] show ?thesis by (simp add: u32_of_index_def)
next
  case False
  have s1: "unat (s + 1) = Suc (unat s)"
    using s(1) wf by (intro unat_Suc_word) (simp add: wf_bitmap_def)
  have "1 < unat cnt" using False cnt by (simp add: word_eq_unat32)
  then have inv: "scan_inv b (unat cnt) (unat (s + 1)) (unat (1 :: u32))"
    using scan_inv_start [OF s(2,1,3), of "unat cnt"] by (simp add: s1)
  show ?thesis
  proof (cases "map_bytes_length b * 8 \<le> s + 1")
    case True
    with s(1) have "unat (s + 1) = nbits b"
      by (simp add: word_le_nat_alt unat_len8 [OF wf] s1)
    with scan_inv_end [OF inv] True False show ?thesis
      by (simp add: u32_of_index_def)
  next
    case nle: False
    with scan_run_spec [OF wf inv] s(1) False show ?thesis
      by (simp add: s1 unat_sub_word unat_len8 [OF wf])
  qed
qed

text \<open>
  \<open>find_block_bitmap\<close> returns the lowest run of \<open>cnt\<close> free bits, and \<open>-1\<close> exactly when there is
  none.
\<close>

lemma find_block_bitmap_spec:
  assumes wf: "wf_bitmap b" and cnt: "cnt \<noteq> 0"
  shows "find_block_bitmap b cnt = Some (u32_of_index (first_fit b (unat cnt)))"
proof -
  let ?q = "skip_full b 0"
  have q: "?q \<le> unat (map_bytes_length b)" using skip_full_spec [of 0 b] by simp
  have qw: "unat (of_nat ?q :: u32) = ?q"
    using q unat_less_32 [of "map_bytes_length b"] by (intro unat_of_nat_32) simp
  show ?thesis
  proof (cases "?q = unat (map_bytes_length b)")
    case True
    have "0 < unat cnt" using cnt by (simp add: word_eq_unat32)
    then have "\<not> free_run b i (unat cnt)" for i
      using skip_full_all_set [OF True, of i] by (auto simp: free_run_def)
    with True cnt show ?thesis
      by (simp add: find_block_bitmap_def word_eq_unat32 qw first_fit_def u32_of_index_def)
  next
    case False
    with q have lt: "?q < unat (map_bytes_length b)" by simp
    note f = first_free_bit [OF lt]
    define s :: u32 where "s = 8 * of_nat ?q + of_nat (first_clear (bits b ?q) 0)"
    have s: "unat s = 8 * ?q + first_clear (bits b ?q) 0"
      using f(1) wf unat_of_nat_32 [of "8 * ?q + first_clear (bits b ?q) 0"]
      by (simp add: s_def wf_bitmap_def)
    have "of_nat ?q \<noteq> map_bytes_length b" "of_nat ?q < map_bytes_length b"
      using lt by (auto simp: word_eq_unat32 word_less_nat_alt qw)
    then show ?thesis
      using find_from_first_free [OF wf cnt, of s] f cnt s
      by (auto simp: find_block_bitmap_def Let_def s_def [symmetric] split: if_splits)
  qed
qed

section \<open>The allocator interface\<close>

text \<open>
  What the page pools, the pid pool and the inode and zone maps rely on: a pool of \<open>capacity\<close>
  units, a search for the lowest run of unused ones and a write of one unit.
\<close>

locale bit_pool =
  fixes find :: "'b \<Rightarrow> u32 \<Rightarrow> u32 option"
    and put :: "'b \<Rightarrow> u32 \<Rightarrow> u8 \<Rightarrow> 'b option"
    and put_run :: "'b \<Rightarrow> u32 \<Rightarrow> nat \<Rightarrow> u8 \<Rightarrow> 'b option"
    and used :: "'b \<Rightarrow> nat \<Rightarrow> bool"
    and capacity :: "'b \<Rightarrow> nat"
    and invar :: "'b \<Rightarrow> bool"
  assumes capacity_bound: "invar b \<Longrightarrow> capacity b < 2 ^ 32"
    and find_returns: "invar b \<Longrightarrow> \<exists>i. find b n = Some i"
    and find_fails: "invar b \<Longrightarrow> n \<noteq> 0 \<Longrightarrow> find b n = Some (-1) \<Longrightarrow>
      k + unat n \<le> capacity b \<Longrightarrow> \<exists>j < unat n. used b (k + j)"
    and find_finds: "invar b \<Longrightarrow> n \<noteq> 0 \<Longrightarrow> find b n = Some i \<Longrightarrow> i \<noteq> -1 \<Longrightarrow>
      unat i + unat n \<le> capacity b \<and> (\<forall>j < unat n. \<not> used b (unat i + j))"
    and find_lowest: "invar b \<Longrightarrow> n \<noteq> 0 \<Longrightarrow> find b n = Some i \<Longrightarrow> i \<noteq> -1 \<Longrightarrow>
      k < unat i \<Longrightarrow> \<exists>j < unat n. used b (k + j)"
    and put_one: "invar b \<Longrightarrow> unat p < capacity b \<Longrightarrow> v = 0 \<or> v = 1 \<Longrightarrow>
      \<exists>b'. put b p v = Some b' \<and> invar b' \<and> capacity b' = capacity b \<and>
           used b' = (used b)(unat p := (v = 1))"
    and put_run_0: "put_run b p 0 v = Some b"
    and put_run_Suc: "put_run b p (Suc m) v = put b p v \<bind> (\<lambda>b'. put_run b' (p + 1) m v)"
begin

lemma put_run_spec:
  assumes "invar b" and "unat p + n \<le> capacity b" and "v = 0 \<or> v = 1"
  shows "\<exists>b'. put_run b p n v = Some b' \<and> invar b' \<and> capacity b' = capacity b \<and>
    used b' = (\<lambda>i. if unat p \<le> i \<and> i < unat p + n then v = 1 else used b i)"
  using assms
proof (induction n arbitrary: b p)
  case 0
  then show ?case by (auto simp: put_run_0)
next
  case (Suc n)
  from Suc.prems obtain b1 where b1: "put b p v = Some b1" "invar b1" "capacity b1 = capacity b"
      "used b1 = (used b)(unat p := (v = 1))"
    using put_one [of b p v] by auto
  show ?case
  proof (cases n)
    case 0
    with b1 show ?thesis by (auto simp: put_run_Suc put_run_0 fun_eq_iff)
  next
    case (Suc m)
    have p1: "unat (p + 1) = Suc (unat p)"
      using Suc.prems capacity_bound [of b] Suc by (intro unat_Suc_word) simp
    from Suc.IH [of b1 "p + 1"] b1 Suc.prems obtain b2 where
      "put_run b1 (p + 1) n v = Some b2" "invar b2" "capacity b2 = capacity b"
      "used b2 = (\<lambda>i. if Suc (unat p) \<le> i \<and> i < Suc (unat p) + n then v = 1 else used b1 i)"
      by (auto simp: p1)
    with b1 show ?thesis by (auto simp: put_run_Suc fun_eq_iff)
  qed
qed

text \<open>Allocation: the run was unused, it is marked, nothing else changes.\<close>

lemma alloc_run:
  assumes "invar b" and "n \<noteq> 0" and "find b n = Some i" and "i \<noteq> -1"
  shows "\<exists>b'. put_run b i (unat n) 1 = Some b' \<and> invar b' \<and> capacity b' = capacity b \<and>
    (\<forall>j. used b' j \<longleftrightarrow> used b j \<or> unat i \<le> j \<and> j < unat i + unat n)"
  using put_run_spec [of b i "unat n" 1] find_finds [OF assms] assms(1) by fastforce

lemma alloc_one:
  assumes "invar b" and "find b 1 = Some i" and "i \<noteq> -1"
  shows "unat i < capacity b \<and> \<not> used b (unat i) \<and>
    (\<exists>b'. put b i 1 = Some b' \<and> invar b' \<and> capacity b' = capacity b \<and>
          used b' = (used b)(unat i := True))"
  using find_finds [of b 1 i] put_one [of b i 1] assms by auto

text \<open>Releasing the run that was just allocated gives the pool back as it was.\<close>

lemma alloc_free_run:
  assumes "invar b" and "n \<noteq> 0" and "find b n = Some i" and "i \<noteq> -1"
    and "put_run b i (unat n) 1 = Some b1"
  shows "\<exists>b2. put_run b1 i (unat n) 0 = Some b2 \<and> invar b2 \<and> used b2 = used b"
proof -
  note ok = find_finds [OF assms(1-4)]
  obtain b1' where b1: "invar b1" "capacity b1 = capacity b"
      "used b1 = (\<lambda>k. if unat i \<le> k \<and> k < unat i + unat n then True else used b k)"
    using put_run_spec [of b i "unat n" 1] ok assms(1,5) by auto
  have "\<not> used b k" if "unat i \<le> k" "k < unat i + unat n" for k
    using ok that by (metis less_diff_conv2 add.commute le_add_diff_inverse)
  then show ?thesis
    using put_run_spec [of b1 i "unat n" 0] b1 ok by (fastforce simp: fun_eq_iff)
qed

end

lemma u32_of_index_neq:
  assumes "i < 2 ^ 32 - 1"
  shows "(of_nat i :: u32) \<noteq> -1"
proof -
  from assms have "unat (of_nat i :: u32) = i" by (intro unat_of_nat_32) simp
  with assms show ?thesis using unat_minus_one_32 by auto
qed

lemma find_block_cases:
  assumes "wf_bitmap b" and "n \<noteq> 0" and "find_block_bitmap b n = Some i"
  shows "if i = -1 then first_fit b (unat n) = None else first_fit b (unat n) = Some (unat i)"
proof (cases "first_fit b (unat n)")
  case None
  with assms show ?thesis by (simp add: find_block_bitmap_spec u32_of_index_def)
next
  case (Some k)
  have "0 < unat n" using assms(2) by (simp add: word_eq_unat32)
  then have "k < 2 ^ 32 - 1"
    using first_fit_SomeD(1) [OF Some] assms(1) by (simp add: free_run_def wf_bitmap_def)
  with Some assms u32_of_index_neq [of k] show ?thesis
    by (auto simp: find_block_bitmap_spec u32_of_index_def unat_of_nat_32)
qed

interpretation bm: bit_pool find_block_bitmap set_value_bitmap set_run is_set nbits wf_bitmap
proof unfold_locales
  fix b :: bitmap and n i p :: u32 and v :: u8 and j k :: nat
  show "wf_bitmap b \<Longrightarrow> nbits b < 2 ^ 32" by (simp add: wf_bitmap_def)
  show "wf_bitmap b \<Longrightarrow> \<exists>i. find_block_bitmap b n = Some i"
    by (cases "n = 0") (simp_all add: find_block_bitmap_spec, simp add: find_block_bitmap_def)
  show "wf_bitmap b \<Longrightarrow> n \<noteq> 0 \<Longrightarrow> find_block_bitmap b n = Some (-1) \<Longrightarrow>
    k + unat n \<le> nbits b \<Longrightarrow> \<exists>j < unat n. is_set b (k + j)"
    using find_block_cases [of b n "-1"] by (auto simp: first_fit_def free_run_def split: if_splits)
  show "wf_bitmap b \<Longrightarrow> n \<noteq> 0 \<Longrightarrow> find_block_bitmap b n = Some i \<Longrightarrow> i \<noteq> -1 \<Longrightarrow>
    unat i + unat n \<le> nbits b \<and> (\<forall>j < unat n. \<not> is_set b (unat i + j))"
    using find_block_cases [of b n i] first_fit_SomeD(1) [of b "unat n" "unat i"]
    by (auto simp: free_run_def)
  show "wf_bitmap b \<Longrightarrow> n \<noteq> 0 \<Longrightarrow> find_block_bitmap b n = Some i \<Longrightarrow> i \<noteq> -1 \<Longrightarrow>
    k < unat i \<Longrightarrow> \<exists>j < unat n. is_set b (k + j)"
  proof (rule ccontr)
    assume *: "wf_bitmap b" "n \<noteq> 0" "find_block_bitmap b n = Some i" "i \<noteq> -1" "k < unat i"
      and "\<not> (\<exists>j < unat n. is_set b (k + j))"
    note ff = find_block_cases [OF *(1-3)]
    with * have "free_run b (unat i) (unat n)" by (auto dest: first_fit_SomeD(1))
    with * \<open>\<not> (\<exists>j < unat n. is_set b (k + j))\<close> have "free_run b k (unat n)"
      by (auto simp: free_run_def)
    with first_fit_SomeD(2) [of b "unat n" "unat i" k] ff * show False by auto
  qed
  show "wf_bitmap b \<Longrightarrow> unat p < nbits b \<Longrightarrow> v = 0 \<or> v = 1 \<Longrightarrow>
    \<exists>b'. set_value_bitmap b p v = Some b' \<and> wf_bitmap b' \<and> nbits b' = nbits b \<and>
         is_set b' = (is_set b)(unat p := (v = 1))"
    using set_value_bitmap_spec [of b p v] by (auto simp: wf_bitmap_def nbits_def fun_eq_iff)
qed simp_all

section \<open>Properties\<close>

text \<open>C7. \<open>find_block_bitmap\<close> is a first-fit search: on every bitmap whose bit count is a 32-bit
  number and for every positive count it returns (no assertion fails, every loop ends) the start of
  the lowest run of \<open>cnt\<close> clear bits, and \<open>-1\<close> exactly when no such run exists. The byte it
  reads behind the end of a full map does not influence the result.\<close>

theorem find_block_first_fit:
  assumes "wf_bitmap b" and "cnt \<noteq> 0"
  shows "find_block_bitmap b cnt =
    Some (if \<exists>i. free_run b i (unat cnt) then of_nat (LEAST i. free_run b i (unat cnt)) else -1)"
  using find_block_bitmap_spec [OF assms] by (simp add: first_fit_def u32_of_index_def)

definition sample_map :: bitmap where
  "sample_map = \<lparr>bits = (\<lambda>_. 0)(0 := 0xff, 1 := 0x15), map_bytes_length = 3\<rparr>"

theorem find_block_first_fit_witness:
  "wf_bitmap sample_map \<and> find_block_bitmap sample_map 2 = Some 13 \<and>
   (\<exists>i. free_run sample_map i 2) \<and> (LEAST i. free_run sample_map i 2) = 13"
proof -
  have wf: "wf_bitmap sample_map" by (simp add: wf_bitmap_def nbits_def sample_map_def)
  have run: "find_block_bitmap sample_map 2 = Some 13" by code_simp
  have free: "free_run sample_map 13 2"
    by (auto simp: free_run_def nbits_def is_set_def sample_map_def less_2_cases_iff)
  then have ex: "\<exists>i. free_run sample_map i 2" by blast
  have le: "(LEAST i. free_run sample_map i 2) \<le> 13" using free by (rule Least_le)
  from find_block_first_fit [OF wf, of 2] run ex
  have "(of_nat (LEAST i. free_run sample_map i 2) :: u32) = 13" by simp
  then have "(LEAST i. free_run sample_map i 2) = 13"
    using le unat_of_nat_32 [of "LEAST i. free_run sample_map i 2"] by simp
  with wf run ex show ?thesis by simp
qed

text \<open>Marking the run found by \<open>find_block_bitmap\<close> and releasing it again with the same
  loop restores every bit of the map.\<close>

theorem bitmap_alloc_free_roundtrip:
  assumes "wf_bitmap b" and "n \<noteq> 0" and "find_block_bitmap b n = Some i" and "i \<noteq> -1"
    and "set_run b i (unat n) 1 = Some b1"
  shows "\<exists>b2. set_run b1 i (unat n) 0 = Some b2 \<and> wf_bitmap b2 \<and> is_set b2 = is_set b"
  using assms by (rule bm.alloc_free_run)

theorem bitmap_alloc_free_roundtrip_witness:
  "\<exists>b1 b2. set_run sample_map 13 2 1 = Some b1 \<and> set_run b1 13 2 0 = Some b2 \<and>
     is_set b2 = is_set sample_map"
proof -
  have wf: "wf_bitmap sample_map" by (simp add: wf_bitmap_def nbits_def sample_map_def)
  have find: "find_block_bitmap sample_map 2 = Some 13" by code_simp
  obtain b1 where "set_run sample_map 13 2 1 = Some b1"
    using bm.alloc_run [OF wf _ find] by auto
  with bitmap_alloc_free_roundtrip [OF wf _ find, of b1] show ?thesis by auto
qed

end
