(* ===== verification/LinkedList.thy ===== *)
theory LinkedList
  imports Prelude
begin

text \<open>
  The intrusive circular doubly linked lists of \<^verbatim>\<open>core/lib/list.c\<close> and
  \<^verbatim>\<open>core/include/list.h\<close>. The memory of all \<^verbatim>\<open>struct list_head\<close> objects is one state,
  the two fields of the struct as functions of the node's address; address 0 is \<^verbatim>\<open>NULL\<close>. The
  functions are total because the kernel's flat memory is: dereferencing a wild or null pointer
  reads or writes some word.

  \<open>dlist m h xs\<close> relates the memory to the list \<open>xs\<close> of nodes linked behind the head \<open>h\<close>;
  every operation is shown to implement an operation on \<open>xs\<close>. The loops that follow pointers need
  not end on corrupted links, so they are partial functions whose \<open>None\<close> is "never returns".
\<close>

record lheap =
  nxt :: "addr \<Rightarrow> addr"
  prv :: "addr \<Rightarrow> addr"

definition set_nxt :: "addr \<Rightarrow> addr \<Rightarrow> lheap \<Rightarrow> lheap" where
  "set_nxt a v m = m\<lparr>nxt := (nxt m)(a := v)\<rparr>"

definition set_prv :: "addr \<Rightarrow> addr \<Rightarrow> lheap \<Rightarrow> lheap" where
  "set_prv a v m = m\<lparr>prv := (prv m)(a := v)\<rparr>"

lemmas heap_upd [frog_defs] = set_nxt_def set_prv_def

section \<open>The operations of list.c\<close>

definition INIT_LIST_HEAD :: "addr \<Rightarrow> lheap \<Rightarrow> lheap" where
  "INIT_LIST_HEAD p m = set_prv p p (set_nxt p p m)"

partial_function (option) find_element_loop :: "lheap \<Rightarrow> addr \<Rightarrow> addr \<Rightarrow> addr \<Rightarrow> addr option" where
  "find_element_loop m node head n =
     (if n \<noteq> node \<and> n \<noteq> prv m head then find_element_loop m node head (nxt m n) else Some n)"

definition list_find_element :: "addr \<Rightarrow> addr \<Rightarrow> lheap \<Rightarrow> bool option" where
  "list_find_element node head m = do {
     n \<leftarrow> find_element_loop m node head (nxt m head);
     Some (n \<noteq> prv m head)
   }"

definition list_is_empty :: "addr \<Rightarrow> lheap \<Rightarrow> bool" where
  "list_is_empty head m \<longleftrightarrow> nxt m head = head"

definition list_add :: "addr \<Rightarrow> addr \<Rightarrow> lheap \<Rightarrow> lheap" where
  "list_add node head m =
     (let first_node = nxt m head;
          m = set_prv first_node node m;
          m = set_nxt node first_node m;
          m = set_prv node head m
      in set_nxt head node m)"

definition list_add_tail :: "addr \<Rightarrow> addr \<Rightarrow> lheap \<Rightarrow> lheap" where
  "list_add_tail node head m =
     (let last_node = prv m head;
          m = set_nxt last_node node m;
          m = set_nxt node head m;
          m = set_prv node last_node m
      in set_prv head node m)"

definition list_del :: "addr \<Rightarrow> lheap \<Rightarrow> lheap" where
  "list_del node m =
     (let next = nxt m node;
          prev = prv m node;
          m = set_prv next prev m;
          m = set_nxt prev next m;
          m = set_nxt node 0 m
      in set_prv node 0 m)"

definition list_del_init :: "addr \<Rightarrow> lheap \<Rightarrow> lheap" where
  "list_del_init node m = INIT_LIST_HEAD node (list_del node m)"

definition list_pop :: "addr \<Rightarrow> lheap \<Rightarrow> addr \<times> lheap" where
  "list_pop head m = (let target = nxt m head in (target, list_del_init target m))"

partial_function (option) length_loop :: "lheap \<Rightarrow> addr \<Rightarrow> addr \<Rightarrow> u32 \<Rightarrow> u32 option" where
  "length_loop m head iter len =
     (if iter \<noteq> prv m head then length_loop m head (nxt m iter) (len + 1) else Some len)"

definition list_length :: "addr \<Rightarrow> lheap \<Rightarrow> u32 option" where
  "list_length head m =
     (if nxt m head = prv m head \<and> nxt m head = head then Some 0
      else do {
        ASSERT (nxt m head \<noteq> 0 \<and> prv m head \<noteq> 0);
        length_loop m head (nxt m head) 1
      })"

definition list_is_singular :: "addr \<Rightarrow> lheap \<Rightarrow> bool option" where
  "list_is_singular head m = map_option (\<lambda>n. n = 1) (list_length head m)"

text \<open>
  \<open>list_walker\<close>, \<open>list_walkerv2\<close> and \<open>list_walkerv2_prev\<close>: the callback is a test of the node
  and the extra argument. The first two differ in the type of that argument only.
\<close>

partial_function (option) walk_next ::
  "lheap \<Rightarrow> addr \<Rightarrow> (addr \<Rightarrow> 'v \<Rightarrow> bool) \<Rightarrow> 'v \<Rightarrow> addr \<Rightarrow> addr option" where
  "walk_next m head func value n =
     (if n \<noteq> head
      then (if func n value then Some n else walk_next m head func value (nxt m n))
      else Some 0)"

partial_function (option) walk_prev ::
  "lheap \<Rightarrow> addr \<Rightarrow> (addr \<Rightarrow> 'v \<Rightarrow> bool) \<Rightarrow> 'v \<Rightarrow> addr \<Rightarrow> addr option" where
  "walk_prev m head func value n =
     (if n \<noteq> head
      then (if func n value then Some n else walk_prev m head func value (prv m n))
      else Some 0)"

definition list_walker :: "addr \<Rightarrow> (addr \<Rightarrow> 'v \<Rightarrow> bool) \<Rightarrow> 'v \<Rightarrow> lheap \<Rightarrow> addr option" where
  "list_walker head func value m =
     (if list_is_empty head m then Some 0 else walk_next m head func value (nxt m head))"

definition list_walkerv2 :: "addr \<Rightarrow> (addr \<Rightarrow> 'v \<Rightarrow> bool) \<Rightarrow> 'v \<Rightarrow> lheap \<Rightarrow> addr option" where
  "list_walkerv2 head func value m =
     (if list_is_empty head m then Some 0 else walk_next m head func value (nxt m head))"

definition list_walkerv2_prev :: "addr \<Rightarrow> (addr \<Rightarrow> 'v \<Rightarrow> bool) \<Rightarrow> 'v \<Rightarrow> lheap \<Rightarrow> addr option" where
  "list_walkerv2_prev head func value m =
     (if list_is_empty head m then Some 0 else walk_prev m head func value (prv m head))"

text \<open>\<open>list_map\<close>: the callback may rewrite the links and returns a node or \<^verbatim>\<open>NULL\<close>.\<close>

partial_function (option) map_loop ::
  "addr \<Rightarrow> addr \<Rightarrow> (addr \<Rightarrow> lheap \<Rightarrow> addr \<times> lheap) \<Rightarrow> addr \<Rightarrow> lheap \<Rightarrow> lheap option" where
  "map_loop head res func n m =
     (if n \<noteq> prv m head
      then let (r, m1) = func n m;
               m2 = (if r \<noteq> 0 then list_add_tail r res m1 else m1)
           in map_loop head res func (nxt m2 n) m2
      else Some m)"

definition list_map :: "addr \<Rightarrow> addr \<Rightarrow> (addr \<Rightarrow> lheap \<Rightarrow> addr \<times> lheap) \<Rightarrow> lheap \<Rightarrow>
    (bool \<times> lheap) option" where
  "list_map head res func m =
     (if list_is_empty head m then Some (False, m)
      else if \<not> list_is_empty res m then Some (False, m)
      else do { m' \<leftarrow> map_loop head res func (nxt m head) m; Some (True, m') })"

partial_function (option) destory_loop :: "addr \<Rightarrow> addr \<Rightarrow> lheap \<Rightarrow> lheap option" where
  "destory_loop head iter m =
     (if iter \<noteq> prv m head
      then let iter' = nxt m iter in destory_loop head iter' (list_del iter' m)
      else Some m)"

definition list_destory :: "addr \<Rightarrow> lheap \<Rightarrow> (u32 \<times> lheap) option" where
  "list_destory head m =
     (if list_is_empty head m then Some (-1, m)
      else do {
        m' \<leftarrow> destory_loop head (nxt m head) m;
        Some (-1, INIT_LIST_HEAD head m')
      })"

definition list_append :: "addr \<Rightarrow> addr \<Rightarrow> lheap \<Rightarrow> lheap" where
  "list_append list head m =
     (if list_is_empty list m then m
      else let h_next = nxt m head;
               l_next = nxt m list;
               l_prev = prv m list;
               m = set_nxt head l_next m;
               m = set_prv h_next l_prev m;
               m = set_prv l_next head m
           in set_nxt l_prev h_next m)"

definition list_append_tail :: "addr \<Rightarrow> addr \<Rightarrow> lheap \<Rightarrow> lheap" where
  "list_append_tail list head m =
     (if list_is_empty list m then m
      else let h_prev = prv m head;
               l_next = nxt m list;
               l_prev = prv m list;
               m = set_prv head l_prev m;
               m = set_nxt h_prev l_next m;
               m = set_prv l_next h_prev m
           in set_nxt l_prev head m)"

definition list_append_init :: "addr \<Rightarrow> addr \<Rightarrow> lheap \<Rightarrow> lheap" where
  "list_append_init list head m = INIT_LIST_HEAD list (list_append list head m)"

definition list_append_tail_init :: "addr \<Rightarrow> addr \<Rightarrow> lheap \<Rightarrow> lheap" where
  "list_append_tail_init list head m = INIT_LIST_HEAD list (list_append_tail list head m)"

definition list_cut_position :: "addr \<Rightarrow> addr \<Rightarrow> addr \<Rightarrow> lheap \<Rightarrow> lheap" where
  "list_cut_position head_to head_from node m = m"

definition list_move :: "addr \<Rightarrow> addr \<Rightarrow> lheap \<Rightarrow> lheap" where
  "list_move node head m = list_add node head (list_del node m)"

definition list_move_tail :: "addr \<Rightarrow> addr \<Rightarrow> lheap \<Rightarrow> lheap" where
  "list_move_tail node head m = list_add_tail node head (list_del node m)"

section \<open>Well-linked lists\<close>

fun linked :: "lheap \<Rightarrow> addr list \<Rightarrow> bool" where
  "linked m (x # y # zs) \<longleftrightarrow> nxt m x = y \<and> prv m y = x \<and> linked m (y # zs)"
| "linked m xs \<longleftrightarrow> True"

definition dlist :: "lheap \<Rightarrow> addr \<Rightarrow> addr list \<Rightarrow> bool" where
  "dlist m h xs \<longleftrightarrow> distinct (h # xs) \<and> linked m (h # xs @ [h])"

lemma linked_append:
  "xs \<noteq> [] \<Longrightarrow> ys \<noteq> [] \<Longrightarrow> linked m (xs @ ys) \<longleftrightarrow>
     linked m xs \<and> linked m ys \<and> nxt m (last xs) = hd ys \<and> prv m (hd ys) = last xs"
proof (induction xs rule: list_nonempty_induct)
  case (single x)
  then show ?case by (cases ys) auto
next
  case (cons x xs)
  then show ?case by (cases xs) auto
qed

lemma linked_cong:
  assumes "\<And>x. x \<in> set (butlast xs) \<Longrightarrow> nxt m' x = nxt m x"
    and "\<And>x. x \<in> set (tl xs) \<Longrightarrow> prv m' x = prv m x"
  shows "linked m' xs = linked m xs"
  using assms by (induction m xs rule: linked.induct) auto

lemma linked_cong_ends:
  assumes "distinct xs" and "\<And>x. x \<in> set xs \<Longrightarrow> x \<noteq> last xs \<Longrightarrow> nxt m' x = nxt m x"
    and "\<And>x. x \<in> set xs \<Longrightarrow> x \<noteq> hd xs \<Longrightarrow> prv m' x = prv m x"
  shows "linked m' xs = linked m xs"
proof (rule linked_cong)
  show "nxt m' x = nxt m x" if "x \<in> set (butlast xs)" for x
    using butlast_distinctD [OF assms(1) that] assms(2) by blast
  show "prv m' x = prv m x" if "x \<in> set (tl xs)" for x
    using tl_distinctD [OF assms(1) that] assms(3) by blast
qed

text \<open>Only the links of the head and of the nodes of a list matter to it.\<close>

lemma dlist_cong:
  assumes "\<And>x. x \<in> set (h # xs) \<Longrightarrow> nxt m' x = nxt m x"
    and "\<And>x. x \<in> set (h # xs) \<Longrightarrow> prv m' x = prv m x"
  shows "dlist m' h xs = dlist m h xs"
proof -
  have "linked m' (h # xs @ [h]) = linked m (h # xs @ [h])"
    using assms by (intro linked_cong) (auto simp: butlast_append split: if_splits)
  then show ?thesis by (simp add: dlist_def)
qed

lemma dlist_distinct: "dlist m h xs \<Longrightarrow> distinct (h # xs)"
  by (simp add: dlist_def)

lemma dlist_Nil: "dlist m h [] \<longleftrightarrow> nxt m h = h \<and> prv m h = h"
  by (auto simp: dlist_def)

lemma dlist_hd: "dlist m h xs \<Longrightarrow> nxt m h = hd (xs @ [h])"
  by (cases xs) (auto simp: dlist_def)

lemma dlist_last: "dlist m h xs \<Longrightarrow> prv m h = last (h # xs)"
proof -
  assume "dlist m h xs"
  then have "linked m ((h # xs) @ [h])" by (simp add: dlist_def)
  then show ?thesis by (subst (asm) linked_append) auto
qed

lemma dlist_split:
  "dlist m h (xs @ ys) \<longleftrightarrow> distinct (h # xs @ ys) \<and> linked m (h # xs) \<and> linked m (ys @ [h]) \<and>
     nxt m (last (h # xs)) = hd (ys @ [h]) \<and> prv m (hd (ys @ [h])) = last (h # xs)"
  using linked_append [of "h # xs" "ys @ [h]" m] by (auto simp: dlist_def)

lemma dlist_inverse:
  assumes "dlist m h xs" and "x \<in> set (h # xs)"
  shows "nxt m (prv m x) = x" and "prv m (nxt m x) = x"
    and "nxt m x \<in> set (h # xs)" and "prv m x \<in> set (h # xs)"
proof -
  consider (h) "x = h" | (n) ys zs where "xs = ys @ x # zs"
    using assms(2) by (auto dest: split_list)
  then have "nxt m (prv m x) = x \<and> prv m (nxt m x) = x \<and> nxt m x \<in> set (h # xs) \<and> prv m x \<in> set (h # xs)"
  proof cases
    case h
    have "xs @ [] = xs" by simp
    with assms(1) h dlist_split [of m h xs "[]"] dlist_split [of m h "[]" xs] dlist_hd [OF assms(1)]
      dlist_last [OF assms(1)] show ?thesis
      by (cases xs) auto
  next
    case n
    with assms(1) dlist_split [of m h ys "x # zs"] dlist_split [of m h "ys @ [x]" zs] show ?thesis
      by (cases zs; cases ys rule: rev_cases) auto
  qed
  then show "nxt m (prv m x) = x" and "prv m (nxt m x) = x"
    and "nxt m x \<in> set (h # xs)" and "prv m x \<in> set (h # xs)" by auto
qed

lemma dlist_functional:
  assumes "dlist m h xs" and "dlist m h ys"
  shows "xs = ys"
proof -
  have "xs = ys" if "linked m (p # xs @ [h])" "linked m (p # ys @ [h])" "h \<notin> set xs" "h \<notin> set ys"
    for p xs ys
    using that
  proof (induction xs arbitrary: p ys)
    case Nil
    then show ?case by (cases ys) auto
  next
    case (Cons x xs)
    then show ?case by (cases ys) auto
  qed
  from this [of h xs ys] assms show ?thesis by (simp add: dlist_def)
qed

text \<open>Linking a fresh node between two neighbours, and unlinking a node.\<close>

lemma dlist_link_between:
  assumes "dlist m h (xs @ ys)" and "n \<notin> set (h # xs @ ys)"
    and p: "p = last (h # xs)" and s: "s = hd (ys @ [h])"
    and new: "nxt m' p = n" "prv m' n = p" "nxt m' n = s" "prv m' s = n"
    and old: "\<And>x. x \<noteq> p \<Longrightarrow> x \<noteq> n \<Longrightarrow> nxt m' x = nxt m x"
      "\<And>x. x \<noteq> s \<Longrightarrow> x \<noteq> n \<Longrightarrow> prv m' x = prv m x"
  shows "dlist m' h (xs @ n # ys)"
proof -
  have d: "distinct (h # xs @ ys)" using assms(1) by (simp add: dlist_def)
  have "s \<in> set (ys @ [h])" unfolding s by (rule hd_in_set) simp
  moreover have "p \<in> set (h # xs)" unfolding p by (rule last_in_set) simp
  ultimately have sep: "s \<notin> set xs" "p \<notin> set ys" using d by auto
  have "linked m' (h # xs) = linked m (h # xs)"
  proof (rule linked_cong_ends)
    show "distinct (h # xs)" using d by auto
    show "nxt m' x = nxt m x" if "x \<in> set (h # xs)" "x \<noteq> last (h # xs)" for x
      using that d assms(2) sep by (intro old(1)) (auto simp: p)
    show "prv m' x = prv m x" if "x \<in> set (h # xs)" "x \<noteq> hd (h # xs)" for x
      using that d assms(2) sep by (intro old(2)) (auto simp: s)
  qed
  moreover have "linked m' (ys @ [h]) = linked m (ys @ [h])"
  proof (rule linked_cong_ends)
    show "distinct (ys @ [h])" using d by auto
    show "nxt m' x = nxt m x" if "x \<in> set (ys @ [h])" "x \<noteq> last (ys @ [h])" for x
      using that d assms(2) sep by (intro old(1)) (auto simp: p)
    show "prv m' x = prv m x" if "x \<in> set (ys @ [h])" "x \<noteq> hd (ys @ [h])" for x
      using that d assms(2) sep by (intro old(2)) (auto simp: s)
  qed
  moreover obtain bs where "ys @ [h] = s # bs"
    using s by (cases "ys @ [h]") auto
  moreover have "h \<noteq> n" using assms(2) by auto
  ultimately show ?thesis
    using assms(1,2) new p dlist_split [of m h xs ys] dlist_split [of m' h xs "n # ys"] by simp
qed

lemma dlist_unlink:
  assumes "dlist m h (xs @ n # ys)"
    and p: "p = last (h # xs)" and s: "s = hd (ys @ [h])"
    and new: "nxt m' p = s" "prv m' s = p"
    and old: "\<And>x. x \<noteq> p \<Longrightarrow> x \<noteq> n \<Longrightarrow> nxt m' x = nxt m x"
      "\<And>x. x \<noteq> s \<Longrightarrow> x \<noteq> n \<Longrightarrow> prv m' x = prv m x"
  shows "dlist m' h (xs @ ys)"
proof -
  have d: "distinct (h # xs @ n # ys)" using assms(1) by (simp add: dlist_def)
  have "s \<in> set (ys @ [h])" unfolding s by (rule hd_in_set) simp
  moreover have "p \<in> set (h # xs)" unfolding p by (rule last_in_set) simp
  ultimately have sep: "s \<notin> set xs" "p \<notin> set ys" using d by auto
  have "linked m' (h # xs) = linked m (h # xs)"
  proof (rule linked_cong_ends)
    show "distinct (h # xs)" using d by auto
    show "nxt m' x = nxt m x" if "x \<in> set (h # xs)" "x \<noteq> last (h # xs)" for x
      using that d sep by (intro old(1)) (auto simp: p)
    show "prv m' x = prv m x" if "x \<in> set (h # xs)" "x \<noteq> hd (h # xs)" for x
      using that d sep by (intro old(2)) (auto simp: s)
  qed
  moreover have "linked m' (ys @ [h]) = linked m (ys @ [h])"
  proof (rule linked_cong_ends)
    show "distinct (ys @ [h])" using d by auto
    show "nxt m' x = nxt m x" if "x \<in> set (ys @ [h])" "x \<noteq> last (ys @ [h])" for x
      using that d sep by (intro old(1)) (auto simp: p)
    show "prv m' x = prv m x" if "x \<in> set (ys @ [h])" "x \<noteq> hd (ys @ [h])" for x
      using that d sep by (intro old(2)) (auto simp: s)
  qed
  ultimately show ?thesis
    using assms(1) new p s dlist_split [of m h "xs @ [n]" ys] dlist_split [of m h xs "n # ys"]
      dlist_split [of m' h xs ys] by simp
qed

section \<open>What the operations do to a list\<close>

lemma INIT_LIST_HEAD_dlist [simp]: "dlist (INIT_LIST_HEAD h m) h []"
  by (simp add: dlist_Nil INIT_LIST_HEAD_def heap_upd)

lemma list_is_empty_dlist: "dlist m h xs \<Longrightarrow> list_is_empty h m \<longleftrightarrow> xs = []"
  by (cases xs) (auto simp: list_is_empty_def dlist_def)

lemma list_add_dlist:
  assumes "dlist m h xs" and "n \<notin> set (h # xs)"
  shows "dlist (list_add n h m) h (n # xs)"
proof -
  let ?s = "hd (xs @ [h])"
  have "?s \<in> set (xs @ [h])" by (rule hd_in_set) simp
  then have "?s \<noteq> n" using assms(2) by auto
  then show ?thesis
    using dlist_link_between [of m h "[]" xs n h ?s "list_add n h m"] assms dlist_hd [OF assms(1)]
    by (auto simp: list_add_def heap_upd Let_def)
qed

lemma list_add_tail_dlist:
  assumes "dlist m h xs" and "n \<notin> set (h # xs)"
  shows "dlist (list_add_tail n h m) h (xs @ [n])"
proof -
  let ?p = "last (h # xs)"
  have "?p \<in> set (h # xs)" by (rule last_in_set) simp
  then have "?p \<noteq> n" using assms(2) by auto
  then show ?thesis
    using dlist_link_between [of m h xs "[]" n ?p h "list_add_tail n h m"] assms dlist_last [OF assms(1)]
    by (auto simp: list_add_tail_def heap_upd Let_def simp del: last.simps)
qed

lemma list_del_dlist_split:
  assumes "dlist m h (xs @ n # ys)"
  shows "dlist (list_del n m) h (xs @ ys)"
proof -
  let ?p = "last (h # xs)" and ?s = "hd (ys @ [h])"
  have d: "distinct (h # xs @ n # ys)" using assms by (simp add: dlist_def)
  have "?s \<in> set (ys @ [h])" by (rule hd_in_set) simp
  moreover have "?p \<in> set (h # xs)" by (rule last_in_set) simp
  ultimately have "?p \<noteq> n" "?s \<noteq> n" using d by auto
  moreover have "prv m n = ?p" "nxt m n = ?s"
    using assms dlist_split [of m h xs "n # ys"] dlist_split [of m h "xs @ [n]" ys] by auto
  ultimately show ?thesis
    by (intro dlist_unlink [OF assms refl refl])
      (auto simp: list_del_def heap_upd Let_def simp del: last.simps)
qed

lemma list_del_dlist:
  assumes "dlist m h xs" and "n \<in> set xs"
  shows "dlist (list_del n m) h (remove1 n xs)"
proof -
  obtain ys zs where "xs = ys @ n # zs" "n \<notin> set ys" using split_list_first [OF assms(2)] by blast
  with assms(1) list_del_dlist_split show ?thesis by (simp add: remove1_append)
qed

text \<open>A list is untouched by an operation on nodes that are not its own.\<close>

lemma INIT_LIST_HEAD_frame:
  "p \<notin> set (h # xs) \<Longrightarrow> dlist (INIT_LIST_HEAD p m) h xs = dlist m h xs"
  by (rule dlist_cong) (auto simp: INIT_LIST_HEAD_def heap_upd)

lemma list_add_frame:
  assumes "dlist m h xs" and "set (k # n # ys) \<inter> set (h # xs) = {}" and "dlist m k ys"
  shows "dlist (list_add n k m) h xs"
proof -
  have "nxt m k \<in> set (k # ys)" using dlist_inverse(3) [OF assms(3), of k] by simp
  then have "dlist (list_add n k m) h xs = dlist m h xs"
    using assms(2) by (intro dlist_cong) (auto simp: list_add_def heap_upd Let_def)
  with assms(1) show ?thesis by simp
qed

lemma list_add_tail_frame:
  assumes "dlist m h xs" and "set (k # n # ys) \<inter> set (h # xs) = {}" and "dlist m k ys"
  shows "dlist (list_add_tail n k m) h xs"
proof -
  have "prv m k \<in> set (k # ys)" using dlist_inverse(4) [OF assms(3), of k] by simp
  then have "dlist (list_add_tail n k m) h xs = dlist m h xs"
    using assms(2) by (intro dlist_cong) (auto simp: list_add_tail_def heap_upd Let_def)
  with assms(1) show ?thesis by simp
qed

lemma list_del_frame:
  assumes "dlist m h xs" and "set (k # ys) \<inter> set (h # xs) = {}" and "dlist m k ys" and "n \<in> set ys"
  shows "dlist (list_del n m) h xs"
proof -
  have "prv m n \<in> set (k # ys)" "nxt m n \<in> set (k # ys)"
    using dlist_inverse(3,4) [OF assms(3), of n] assms(4) by simp_all
  then have "dlist (list_del n m) h xs = dlist m h xs"
    using assms(2,4) by (intro dlist_cong) (auto simp: list_del_def heap_upd Let_def)
  with assms(1) show ?thesis by simp
qed

lemma list_del_init_dlist:
  assumes "dlist m h xs" and "n \<in> set xs"
  shows "dlist (list_del_init n m) h (remove1 n xs)" and "dlist (list_del_init n m) n []"
proof -
  have "n \<notin> set (h # remove1 n xs)" using dlist_distinct [OF assms(1)] assms(2) by auto
  then show "dlist (list_del_init n m) h (remove1 n xs)"
    using list_del_dlist [OF assms] by (simp add: list_del_init_def INIT_LIST_HEAD_frame)
qed (simp add: list_del_init_def)

lemma list_del_init_frame:
  assumes "dlist m h xs" and "set (k # ys) \<inter> set (h # xs) = {}" and "dlist m k ys" and "n \<in> set ys"
  shows "dlist (list_del_init n m) h xs"
proof -
  have "n \<notin> set (h # xs)" using assms(2,4) by auto
  then show ?thesis
    using list_del_frame [OF assms] by (simp add: list_del_init_def INIT_LIST_HEAD_frame)
qed

lemma list_pop_dlist:
  assumes "dlist m h (x # xs)"
  shows "list_pop h m = (x, list_del_init x m)" and "dlist (list_del_init x m) h xs"
  using dlist_hd [OF assms] list_del_init_dlist(1) [OF assms, of x] by (auto simp: list_pop_def)

lemma list_move_tail_dlist:
  assumes "dlist m h xs" and "n \<in> set xs"
  shows "dlist (list_move_tail n h m) h (remove1 n xs @ [n])"
  unfolding list_move_tail_def
  using assms list_del_dlist [OF assms] dlist_distinct [OF assms(1)]
  by (intro list_add_tail_dlist) auto

lemma list_move_dlist:
  assumes "dlist m h xs" and "n \<in> set xs"
  shows "dlist (list_move n h m) h (n # remove1 n xs)"
  unfolding list_move_def
  using assms list_del_dlist [OF assms] dlist_distinct [OF assms(1)]
  by (intro list_add_dlist) auto

section \<open>The traversals\<close>

text \<open>
  On a well-linked list every traversal returns. \<open>list_find_element\<close> stops at the last node before
  it compares it, so what it answers is membership among the nodes before the last one.
\<close>

lemma find_element_loop_dlist:
  assumes "dlist m h (ys @ x # zs)" and "node \<notin> set ys"
  shows "find_element_loop m node h x =
    Some (if node \<in> set (butlast (x # zs)) then node else last (x # zs))"
  using assms
proof (induction zs arbitrary: ys x)
  case Nil
  then have "prv m h = x" using dlist_last by fastforce
  then show ?case by (simp add: find_element_loop.simps)
next
  case (Cons z zs)
  have d: "distinct (h # ys @ x # z # zs)" using Cons.prems(1) by (simp add: dlist_def)
  have "prv m h = last (z # zs)" using dlist_last [OF Cons.prems(1)] by simp
  moreover have "last (z # zs) \<in> set (z # zs)" by (rule last_in_set) simp
  ultimately have ne: "x \<noteq> prv m h" using d by auto
  have "nxt m x = z" using Cons.prems(1) dlist_split [of m h "ys @ [x]" "z # zs"] by auto
  with Cons.IH [of "ys @ [x]" z] Cons.prems ne show ?case
    by (subst find_element_loop.simps) auto
qed

lemma list_find_element_dlist:
  assumes "dlist m h xs"
  shows "list_find_element node h m = Some (node \<in> set (butlast xs))"
proof (cases xs)
  case Nil
  with assms show ?thesis
    by (simp add: list_find_element_def dlist_Nil find_element_loop.simps)
next
  case (Cons x zs)
  have "distinct xs" using dlist_distinct [OF assms] by simp
  then have "node \<noteq> last xs" if "node \<in> set (butlast xs)"
    using butlast_distinctD [OF _ that] by simp
  moreover have "nxt m h = x" "prv m h = last xs"
    using dlist_hd [OF assms] dlist_last [OF assms] Cons by auto
  ultimately show ?thesis
    using find_element_loop_dlist [of m h "[]" x zs node] assms Cons
    by (simp add: list_find_element_def del: butlast.simps last.simps)
qed

lemma length_loop_dlist:
  assumes "dlist m h (ys @ x # zs)"
  shows "length_loop m h x n = Some (n + of_nat (length zs))"
  using assms
proof (induction zs arbitrary: ys x n)
  case Nil
  then have "prv m h = x" using dlist_last by fastforce
  then show ?case by (simp add: length_loop.simps)
next
  case (Cons z zs)
  have d: "distinct (h # ys @ x # z # zs)" using Cons.prems(1) by (simp add: dlist_def)
  have "prv m h = last (z # zs)" using dlist_last [OF Cons.prems(1)] by simp
  moreover have "last (z # zs) \<in> set (z # zs)" by (rule last_in_set) simp
  ultimately have "x \<noteq> prv m h" using d by auto
  moreover have "nxt m x = z" using Cons.prems(1) dlist_split [of m h "ys @ [x]" "z # zs"] by auto
  moreover have "length_loop m h z (n + 1) = Some (n + 1 + of_nat (length zs))"
    using Cons.IH [of "ys @ [x]" z "n + 1"] Cons.prems by simp
  ultimately show ?case
    by (simp add: length_loop.simps [of m h x n] add.assoc)
qed

lemma list_length_dlist:
  assumes "dlist m h xs" and "0 \<notin> set (h # xs)"
  shows "list_length h m = Some (of_nat (length xs))"
proof (cases xs)
  case Nil
  with assms show ?thesis by (simp add: list_length_def dlist_Nil)
next
  case (Cons x zs)
  have "nxt m h = x" using dlist_hd [OF assms(1)] Cons by simp
  moreover have "nxt m h \<noteq> h" using assms(1) Cons by (auto simp: dlist_def)
  moreover have "prv m h \<in> set (h # xs)" "nxt m h \<in> set (h # xs)"
    using dlist_inverse(3,4) [OF assms(1), of h] by simp_all
  then have "prv m h \<noteq> 0" "nxt m h \<noteq> 0" using assms(2) by auto
  ultimately show ?thesis
    using length_loop_dlist [of m h "[]" x zs 1] assms(1) Cons by (simp add: list_length_def)
qed

lemma walk_next_dlist:
  assumes "dlist m h (ys @ zs)"
  shows "walk_next m h f v (hd (zs @ [h])) =
    Some (case List.find (\<lambda>x. f x v) zs of None \<Rightarrow> 0 | Some x \<Rightarrow> x)"
  using assms
proof (induction zs arbitrary: ys)
  case Nil
  then show ?case by (simp add: walk_next.simps)
next
  case (Cons z zs)
  have "z \<noteq> h" using dlist_distinct [OF Cons.prems] by auto
  moreover have "nxt m z = hd (zs @ [h])"
    using Cons.prems dlist_split [of m h "ys @ [z]" zs] by auto
  ultimately show ?case
    using Cons.IH [of "ys @ [z]"] Cons.prems by (subst walk_next.simps) auto
qed

lemma list_walker_dlist:
  assumes "dlist m h xs"
  shows "list_walker h f v m = Some (case List.find (\<lambda>x. f x v) xs of None \<Rightarrow> 0 | Some x \<Rightarrow> x)"
  using walk_next_dlist [of m h "[]" xs f v] assms dlist_hd [OF assms]
  by (auto simp: list_walker_def list_is_empty_dlist)

lemma list_walkerv2_eq: "list_walkerv2 h f v m = list_walker h f v m"
  by (simp add: list_walkerv2_def list_walker_def)

lemma walk_prev_dlist:
  assumes "dlist m h (zs @ ys)"
  shows "walk_prev m h f v (last (h # zs)) =
    Some (case List.find (\<lambda>x. f x v) (rev zs) of None \<Rightarrow> 0 | Some x \<Rightarrow> x)"
  using assms
proof (induction zs arbitrary: ys rule: rev_induct)
  case Nil
  then show ?case by (simp add: walk_prev.simps)
next
  case (snoc z zs)
  have "z \<noteq> h" using dlist_distinct [OF snoc.prems] by auto
  moreover have "prv m z = last (h # zs)"
    using snoc.prems dlist_split [of m h zs "z # ys"] by auto
  ultimately show ?case
    using snoc.IH [of "z # ys"] snoc.prems by (subst walk_prev.simps) auto
qed

lemma list_walkerv2_prev_dlist:
  assumes "dlist m h xs"
  shows "list_walkerv2_prev h f v m =
    Some (case List.find (\<lambda>x. f x v) (rev xs) of None \<Rightarrow> 0 | Some x \<Rightarrow> x)"
  using walk_prev_dlist [of m h xs "[]" f v] assms dlist_last [OF assms]
  by (auto simp: list_walkerv2_prev_def list_is_empty_dlist)

section \<open>Splicing two lists\<close>

lemma list_append_dlist:
  assumes h: "dlist m h xs" and l: "dlist m l ys" and sep: "set (h # xs) \<inter> set (l # ys) = {}"
  shows "dlist (list_append l h m) h (ys @ xs)"
proof (cases "ys = []")
  case True
  with h l show ?thesis by (simp add: list_append_def list_is_empty_dlist)
next
  case False
  let ?m = "list_append l h m" and ?f = "hd (xs @ [h])"
  have d: "distinct (h # xs)" "distinct (l # ys)" using h l by (auto dest: dlist_distinct)
  have f: "?f \<in> set (h # xs)" using hd_in_set [of "xs @ [h]"] by auto
  have ends: "hd ys \<in> set ys" "last ys \<in> set ys" using False by auto
  have ptr: "nxt m h = ?f" "nxt m l = hd ys" "prv m l = last ys"
    using dlist_hd [OF h] dlist_hd [OF l] dlist_last [OF l] False by auto
  have nx: "nxt ?m = (nxt m)(h := hd ys, last ys := ?f)"
    and pv: "prv ?m = (prv m)(?f := last ys, hd ys := h)"
    using False l ptr by (simp_all add: list_append_def list_is_empty_dlist heap_upd Let_def)
  have "linked ?m (xs @ [h]) = linked m (xs @ [h])"
    using d(1) sep ends by (intro linked_cong_ends) (auto simp: nx pv)
  moreover have "linked ?m ys = linked m ys"
    using d(2) sep f by (intro linked_cong_ends) (auto simp: nx pv)
  moreover have "linked m (xs @ [h])" "linked m ys"
    using h l linked_append [of "[h]" "xs @ [h]" m] linked_append [of "[l]" "ys @ [l]" m]
      linked_append [of ys "[l]" m] False by (auto simp: dlist_def)
  moreover have "hd ys \<noteq> ?f" "last ys \<noteq> h" using sep f ends by auto
  ultimately have "linked ?m ([h] @ ys @ (xs @ [h]))"
    using False by (simp add: linked_append nx pv del: append_Cons)
  then show ?thesis using d sep by (auto simp: dlist_def)
qed

lemma list_append_tail_dlist:
  assumes h: "dlist m h xs" and l: "dlist m l ys" and sep: "set (h # xs) \<inter> set (l # ys) = {}"
  shows "dlist (list_append_tail l h m) h (xs @ ys)"
proof (cases "ys = []")
  case True
  with h l show ?thesis by (simp add: list_append_tail_def list_is_empty_dlist)
next
  case False
  let ?m = "list_append_tail l h m" and ?e = "last (h # xs)"
  have d: "distinct (h # xs)" "distinct (l # ys)" using h l by (auto dest: dlist_distinct)
  have e: "?e \<in> set (h # xs)" by (rule last_in_set) simp
  have ends: "hd ys \<in> set ys" "last ys \<in> set ys" using False by auto
  have ptr: "prv m h = ?e" "nxt m l = hd ys" "prv m l = last ys"
    using dlist_last [OF h] dlist_hd [OF l] dlist_last [OF l] False by auto
  have nx: "nxt ?m = (nxt m)(?e := hd ys, last ys := h)"
    and pv: "prv ?m = (prv m)(h := last ys, hd ys := ?e)"
    using False l ptr
    by (simp_all add: list_append_tail_def list_is_empty_dlist heap_upd Let_def del: last.simps)
  have "linked ?m (h # xs) = linked m (h # xs)"
    using d(1) sep ends by (intro linked_cong_ends) (auto simp: nx pv)
  moreover have "linked ?m ys = linked m ys"
    using d(2) sep e by (intro linked_cong_ends) (auto simp: nx pv simp del: last.simps)
  moreover have "linked m (h # xs)" "linked m ys"
    using h l linked_append [of "h # xs" "[h]" m] linked_append [of "[l]" "ys @ [l]" m]
      linked_append [of ys "[l]" m] False by (auto simp: dlist_def)
  moreover have "hd ys \<noteq> h" "last ys \<noteq> ?e" using sep e ends by auto
  ultimately have "linked ?m ((h # xs) @ ys @ [h])"
    using False by (simp add: linked_append nx pv del: append_Cons last.simps)
  then show ?thesis using d sep by (auto simp: dlist_def)
qed

lemma splice_init_source:
  "dlist (list_append_init l h m) l []" "dlist (list_append_tail_init l h m) l []"
  by (simp_all add: list_append_init_def list_append_tail_init_def)

section \<open>The queue interface\<close>

text \<open>
  What the scheduler, the semaphores and the block allocator rely on: nodes queued behind a head,
  in an order, with every queue untouched by an operation on another one.
\<close>

primrec dequeue_many :: "(addr \<Rightarrow> 'm \<Rightarrow> addr \<times> 'm) \<Rightarrow> addr \<Rightarrow> nat \<Rightarrow> 'm \<Rightarrow> addr list \<times> 'm" where
  "dequeue_many deq h 0 m = ([], m)"
| "dequeue_many deq h (Suc n) m =
     (let (x, m1) = deq h m; (xs, m2) = dequeue_many deq h n m1 in (x # xs, m2))"

locale node_fifo =
  fixes lists :: "'m \<Rightarrow> addr \<Rightarrow> addr list \<Rightarrow> bool"
    and push :: "addr \<Rightarrow> addr \<Rightarrow> 'm \<Rightarrow> 'm"
    and enqueue :: "addr \<Rightarrow> addr \<Rightarrow> 'm \<Rightarrow> 'm"
    and dequeue :: "addr \<Rightarrow> 'm \<Rightarrow> addr \<times> 'm"
    and empty :: "addr \<Rightarrow> 'm \<Rightarrow> bool"
  assumes lists_distinct: "lists m h xs \<Longrightarrow> distinct (h # xs)"
    and lists_unique: "lists m h xs \<Longrightarrow> lists m h ys \<Longrightarrow> xs = ys"
    and empty_iff: "lists m h xs \<Longrightarrow> empty h m \<longleftrightarrow> xs = []"
    and push_lists: "lists m h xs \<Longrightarrow> n \<notin> set (h # xs) \<Longrightarrow> lists (push n h m) h (n # xs)"
    and enqueue_lists: "lists m h xs \<Longrightarrow> n \<notin> set (h # xs) \<Longrightarrow> lists (enqueue n h m) h (xs @ [n])"
    and dequeue_fst: "lists m h (n # xs) \<Longrightarrow> fst (dequeue h m) = n"
    and dequeue_lists: "lists m h (n # xs) \<Longrightarrow> lists (snd (dequeue h m)) h xs"
    and push_other: "lists m h xs \<Longrightarrow> lists m k ys \<Longrightarrow> set (k # n # ys) \<inter> set (h # xs) = {} \<Longrightarrow>
      lists (push n k m) h xs"
    and enqueue_other: "lists m h xs \<Longrightarrow> lists m k ys \<Longrightarrow> set (k # n # ys) \<inter> set (h # xs) = {} \<Longrightarrow>
      lists (enqueue n k m) h xs"
    and dequeue_other: "lists m h xs \<Longrightarrow> lists m k (n # ys) \<Longrightarrow> set (k # n # ys) \<inter> set (h # xs) = {} \<Longrightarrow>
      lists (snd (dequeue k m)) h xs"
begin

lemma enqueue_all:
  assumes "lists m h xs" and "distinct ns" and "set ns \<inter> set (h # xs) = {}"
  shows "lists (fold (\<lambda>n. enqueue n h) ns m) h (xs @ ns)"
  using assms
proof (induction ns arbitrary: m xs)
  case (Cons n ns)
  then have "lists (enqueue n h m) h (xs @ [n])" by (intro enqueue_lists) auto
  with Cons.IH [of "enqueue n h m" "xs @ [n]"] Cons.prems show ?case by auto
qed simp

text \<open>First in, first out: the nodes leave in the order of the list.\<close>

lemma dequeue_many_fifo:
  assumes "lists m h (xs @ ys)"
  shows "fst (dequeue_many dequeue h (length xs) m) = xs"
    and "lists (snd (dequeue_many dequeue h (length xs) m)) h ys"
  using assms
proof (induction xs arbitrary: m)
  case (Cons x xs)
  {
    case 1
    then have l: "lists m h (x # (xs @ ys))" by simp
    with Cons.IH(1) [OF dequeue_lists [OF l]] dequeue_fst [OF l]
    show ?case by (simp add: case_prod_unfold Let_def)
  next
    case 2
    then have l: "lists m h (x # (xs @ ys))" by simp
    with Cons.IH(2) [OF dequeue_lists [OF l]] dequeue_fst [OF l]
    show ?case by (simp add: case_prod_unfold Let_def)
  }
qed simp_all

text \<open>Taking the first node and queueing it again rotates the queue: round robin.\<close>

lemma rotate:
  assumes "lists m h (n # xs)"
  shows "lists (enqueue n h (snd (dequeue h m))) h (xs @ [n])"
  using dequeue_lists [OF assms] lists_distinct [OF assms] by (intro enqueue_lists) auto

end

text \<open>Queues from which any node may be removed.\<close>

locale node_queue = node_fifo +
  fixes remove :: "addr \<Rightarrow> 'a \<Rightarrow> 'a"
  assumes remove_lists: "lists m h xs \<Longrightarrow> n \<in> set xs \<Longrightarrow> lists (remove n m) h (remove1 n xs)"
    and dequeue_remove: "lists m h (n # xs) \<Longrightarrow> dequeue h m = (n, remove n m)"
    and remove_other: "lists m h xs \<Longrightarrow> lists m k ys \<Longrightarrow> set (k # ys) \<inter> set (h # xs) = {} \<Longrightarrow>
      n \<in> set ys \<Longrightarrow> lists (remove n m) h xs"
begin

lemma remove_all:
  assumes "lists m h xs" and "distinct ns" and "set ns \<subseteq> set xs"
  shows "lists (fold remove ns m) h (filter (\<lambda>x. x \<notin> set ns) xs)"
  using assms
proof (induction ns arbitrary: m xs)
  case (Cons n ns)
  have d: "distinct xs" using lists_distinct [OF Cons.prems(1)] by simp
  have "lists (remove n m) h (remove1 n xs)" using Cons.prems by (intro remove_lists) auto
  moreover have "set ns \<subseteq> set (remove1 n xs)" using Cons.prems d by auto
  ultimately have "lists (fold remove ns (remove n m)) h (filter (\<lambda>x. x \<notin> set ns) (remove1 n xs))"
    using Cons.IH Cons.prems by simp
  moreover have "filter (\<lambda>x. x \<notin> set ns) (remove1 n xs) = filter (\<lambda>x. x \<notin> set (n # ns)) xs"
    using d by (simp add: distinct_remove1_removeAll removeAll_filter_not_eq)
      (rule filter_cong [OF refl], auto)
  ultimately show ?case by simp
qed simp

end

interpretation dll: node_queue dlist list_add list_add_tail list_pop list_is_empty list_del_init
proof unfold_locales
  fix m h xs ys k n
  show "dlist m h xs \<Longrightarrow> distinct (h # xs)" by (rule dlist_distinct)
  show "dlist m h xs \<Longrightarrow> dlist m h ys \<Longrightarrow> xs = ys" by (rule dlist_functional)
  show "dlist m h xs \<Longrightarrow> list_is_empty h m \<longleftrightarrow> xs = []" by (rule list_is_empty_dlist)
  show "dlist m h xs \<Longrightarrow> n \<notin> set (h # xs) \<Longrightarrow> dlist (list_add n h m) h (n # xs)"
    by (rule list_add_dlist)
  show "dlist m h xs \<Longrightarrow> n \<notin> set (h # xs) \<Longrightarrow> dlist (list_add_tail n h m) h (xs @ [n])"
    by (rule list_add_tail_dlist)
  show "dlist m h (n # xs) \<Longrightarrow> fst (list_pop h m) = n"
    by (simp add: list_pop_dlist)
  show "dlist m h (n # xs) \<Longrightarrow> dlist (snd (list_pop h m)) h xs"
    by (simp add: list_pop_dlist)
  show "dlist m h xs \<Longrightarrow> n \<in> set xs \<Longrightarrow> dlist (list_del_init n m) h (remove1 n xs)"
    by (rule list_del_init_dlist(1))
  show "dlist m h (n # xs) \<Longrightarrow> list_pop h m = (n, list_del_init n m)"
    by (rule list_pop_dlist(1))
  show "dlist m h xs \<Longrightarrow> dlist m k ys \<Longrightarrow> set (k # n # ys) \<inter> set (h # xs) = {} \<Longrightarrow>
    dlist (list_add n k m) h xs" by (rule list_add_frame)
  show "dlist m h xs \<Longrightarrow> dlist m k ys \<Longrightarrow> set (k # n # ys) \<inter> set (h # xs) = {} \<Longrightarrow>
    dlist (list_add_tail n k m) h xs" by (rule list_add_tail_frame)
  show "dlist m h xs \<Longrightarrow> dlist m k (n # ys) \<Longrightarrow> set (k # n # ys) \<inter> set (h # xs) = {} \<Longrightarrow>
    dlist (snd (list_pop k m)) h xs"
    using list_del_init_frame [of m h xs k "n # ys" n] by (simp add: list_pop_dlist)
  show "dlist m h xs \<Longrightarrow> dlist m k ys \<Longrightarrow> set (k # ys) \<inter> set (h # xs) = {} \<Longrightarrow> n \<in> set ys \<Longrightarrow>
    dlist (list_del_init n m) h xs" by (rule list_del_init_frame)
qed

section \<open>Queues linked forwards\<close>

text \<open>
  \<open>qlist\<close> asks for less than \<open>dlist\<close>: every forward link, but of the back links only those of the
  head and of the first node. Adding at either end and taking the first node keep it, and so does
  adding the last node a second time, which the scheduler does (\<open>list_find_element\<close> does not see
  the last node).
\<close>

fun fwd :: "lheap \<Rightarrow> addr list \<Rightarrow> bool" where
  "fwd m (x # y # zs) \<longleftrightarrow> nxt m x = y \<and> fwd m (y # zs)"
| "fwd m xs \<longleftrightarrow> True"

definition qlist :: "lheap \<Rightarrow> addr \<Rightarrow> addr list \<Rightarrow> bool" where
  "qlist m h xs \<longleftrightarrow> distinct (h # xs) \<and> fwd m (h # xs @ [h]) \<and> prv m h = last (h # xs) \<and>
     prv m (hd (xs @ [h])) = h"

lemma linked_fwd: "linked m xs \<Longrightarrow> fwd m xs"
  by (induction m xs rule: linked.induct) auto

lemma dlist_qlist: "dlist m h xs \<Longrightarrow> qlist m h xs"
  using dlist_last [of m h xs] dlist_inverse(2) [of m h xs h] dlist_hd [of m h xs]
  by (auto simp: qlist_def dlist_def linked_fwd)

lemma fwd_append:
  "xs \<noteq> [] \<Longrightarrow> ys \<noteq> [] \<Longrightarrow> fwd m (xs @ ys) \<longleftrightarrow> fwd m xs \<and> fwd m ys \<and> nxt m (last xs) = hd ys"
proof (induction xs rule: list_nonempty_induct)
  case (single x)
  then show ?case by (cases ys) auto
next
  case (cons x xs)
  then show ?case by (cases xs) auto
qed

lemma fwd_Cons: "ys \<noteq> [] \<Longrightarrow> fwd m (x # ys) \<longleftrightarrow> nxt m x = hd ys \<and> fwd m ys"
  by (cases ys) auto

lemma fwd_cong: "(\<And>x. x \<in> set (butlast xs) \<Longrightarrow> nxt m' x = nxt m x) \<Longrightarrow> fwd m' xs = fwd m xs"
  by (induction m xs rule: fwd.induct) auto

lemma qlist_distinct: "qlist m h xs \<Longrightarrow> distinct (h # xs)"
  by (simp add: qlist_def)

lemma qlist_hd: "qlist m h xs \<Longrightarrow> nxt m h = hd (xs @ [h])"
  by (cases xs) (auto simp: qlist_def)

lemma qlist_last: "qlist m h xs \<Longrightarrow> prv m h = last (h # xs)"
  by (simp add: qlist_def)

lemma list_is_empty_qlist: "qlist m h xs \<Longrightarrow> list_is_empty h m \<longleftrightarrow> xs = []"
  by (cases xs) (auto simp: list_is_empty_def qlist_def)

lemma qlist_Nil: "qlist m h [] \<longleftrightarrow> nxt m h = h \<and> prv m h = h"
  by (auto simp: qlist_def)

lemma qlist_functional:
  assumes "qlist m h xs" and "qlist m h ys"
  shows "xs = ys"
proof -
  have "xs = ys" if "fwd m (p # xs @ [h])" "fwd m (p # ys @ [h])" "h \<notin> set xs" "h \<notin> set ys"
    for p xs ys
    using that
  proof (induction xs arbitrary: p ys)
    case Nil
    then show ?case by (cases ys) auto
  next
    case (Cons x xs)
    then show ?case by (cases ys) auto
  qed
  from this [of h xs ys] assms show ?thesis by (simp add: qlist_def)
qed

lemma qlist_cong:
  assumes "\<And>x. x \<in> set (h # xs) \<Longrightarrow> nxt m' x = nxt m x"
    and "\<And>x. x \<in> set (h # xs) \<Longrightarrow> prv m' x = prv m x"
  shows "qlist m' h xs = qlist m h xs"
proof -
  have "fwd m' (h # xs @ [h]) = fwd m (h # xs @ [h])"
    using assms(1) by (intro fwd_cong) (auto simp: butlast_append split: if_splits)
  moreover have "hd (xs @ [h]) \<in> set (h # xs)" by (cases xs) auto
  ultimately show ?thesis using assms(2) by (simp add: qlist_def)
qed

lemma list_add_qlist:
  assumes q: "qlist m h xs" and n: "n \<notin> set (h # xs)"
  shows "qlist (list_add n h m) h (n # xs)"
proof -
  let ?m = "list_add n h m" and ?f = "hd (xs @ [h])"
  have d: "distinct (h # xs)" and f: "?f \<in> set (h # xs)"
    using q by (auto simp: qlist_def) (cases xs; simp)
  have nx: "nxt ?m = (nxt m)(n := ?f, h := n)" and pv: "prv ?m = (prv m)(?f := n, n := h)"
    using qlist_hd [OF q] by (simp_all add: list_add_def heap_upd Let_def)
  have "fwd m (xs @ [h])" using q fwd_append [of "[h]" "xs @ [h]" m] by (simp add: qlist_def)
  moreover have "fwd ?m (xs @ [h]) = fwd m (xs @ [h])"
    using d n by (intro fwd_cong) (auto simp: nx butlast_append)
  ultimately have "fwd ?m (h # n # xs @ [h])"
    using n f by (simp add: fwd_Cons nx)
  moreover have "prv ?m h = last (h # n # xs)"
    using q n d f by (cases xs) (auto simp: pv qlist_def)
  ultimately show ?thesis using d n by (auto simp: qlist_def pv)
qed

lemma list_add_tail_qlist:
  assumes q: "qlist m h xs" and n: "n \<notin> set (h # xs)"
  shows "qlist (list_add_tail n h m) h (xs @ [n])"
proof -
  let ?m = "list_add_tail n h m" and ?l = "last (h # xs)"
  have d: "distinct (h # xs)" using q by (simp add: qlist_def)
  have l: "?l \<in> set (h # xs)" by (rule last_in_set) simp
  have nx: "nxt ?m = (nxt m)(?l := n, n := h)" and pv: "prv ?m = (prv m)(n := ?l, h := n)"
    using qlist_last [OF q] by (simp_all add: list_add_tail_def heap_upd Let_def del: last.simps)
  have "fwd m (h # xs)" using q fwd_append [of "h # xs" "[h]" m] by (simp add: qlist_def del: last.simps)
  moreover have "fwd ?m (h # xs) = fwd m (h # xs)"
    using d n by (intro fwd_cong) (auto simp: nx simp del: last.simps butlast.simps dest!: butlast_distinctD [OF d])
  moreover have "?l \<noteq> n" using l n by metis
  ultimately have "fwd ?m ((h # xs) @ [n, h])"
    by (subst fwd_append) (simp_all add: nx del: last.simps)
  moreover have "prv ?m (hd (xs @ [n, h])) = h"
    using q n d by (cases xs) (auto simp: pv qlist_def)
  ultimately show ?thesis using d n by (auto simp: qlist_def pv)
qed

lemma list_add_tail_again_qlist:
  assumes q: "qlist m h (xs @ [n])" and ne: "xs \<noteq> []"
  shows "qlist (list_add_tail n h m) h (xs @ [n])"
proof -
  let ?m = "list_add_tail n h m"
  have d: "distinct (h # xs @ [n])" using q by (simp add: qlist_def)
  have l: "prv m h = n" using q by (simp add: qlist_def)
  have nx: "nxt ?m = (nxt m)(n := h)" and pv: "prv ?m = (prv m)(n := n, h := n)"
    using l by (simp_all add: list_add_tail_def heap_upd Let_def)
  have "nxt m n = h" using q fwd_append [of "h # xs @ [n]" "[h]" m] by (simp add: qlist_def)
  then have "nxt ?m = nxt m" by (auto simp: nx)
  then have "fwd ?m (h # xs @ [n, h]) = fwd m (h # xs @ [n, h])" by (intro fwd_cong) simp
  moreover have "prv ?m (hd (xs @ [n, h])) = prv m (hd (xs @ [n, h]))"
    using d ne by (cases xs) (auto simp: pv)
  ultimately show ?thesis using q by (simp add: qlist_def pv)
qed

lemma list_pop_qlist:
  assumes q: "qlist m h (x # xs)"
  shows "fst (list_pop h m) = x" and "qlist (snd (list_pop h m)) h xs"
proof -
  let ?m = "list_del_init x m" and ?s = "hd (xs @ [h])"
  have d: "distinct (h # x # xs)" using q by (simp add: qlist_def)
  have x: "nxt m h = x" "nxt m x = ?s" "prv m x = h" using q by (cases xs; auto simp: qlist_def)+
  then show "fst (list_pop h m) = x" by (simp add: list_pop_def Let_def)
  have s: "?s \<noteq> x" "h \<noteq> x" using d by (cases xs; auto)+
  have nx: "nxt ?m = (nxt m)(h := ?s, x := x)" and pv: "prv ?m = (prv m)(?s := h, x := x)"
    using x s by (simp_all add: list_del_init_def list_del_def INIT_LIST_HEAD_def heap_upd Let_def)
  have "fwd m (xs @ [h])" using q fwd_append [of "[h, x]" "xs @ [h]" m] by (simp add: qlist_def)
  moreover have "fwd ?m (xs @ [h]) = fwd m (xs @ [h])"
    using d by (intro fwd_cong) (auto simp: nx butlast_append)
  ultimately have "fwd ?m (h # xs @ [h])" using s by (simp add: fwd_Cons nx)
  moreover have "prv ?m h = last (h # xs)"
    using q d s by (cases xs) (auto simp: pv qlist_def)
  ultimately have "qlist ?m h xs" using d s by (auto simp: qlist_def pv)
  then show "qlist (snd (list_pop h m)) h xs" using x by (simp add: list_pop_def Let_def)
qed

lemma list_add_frame_q:
  assumes "qlist m h xs" and "qlist m k ys" and "set (k # n # ys) \<inter> set (h # xs) = {}"
  shows "qlist (list_add n k m) h xs"
proof -
  have "nxt m k \<in> set (k # ys)" using qlist_hd [OF assms(2)] by (cases ys) auto
  then have "qlist (list_add n k m) h xs = qlist m h xs"
    using assms(3) by (intro qlist_cong) (auto simp: list_add_def heap_upd Let_def)
  with assms(1) show ?thesis by simp
qed

lemma list_add_tail_frame_q:
  assumes "qlist m h xs" and "qlist m k ys" and "set (k # n # ys) \<inter> set (h # xs) = {}"
  shows "qlist (list_add_tail n k m) h xs"
proof -
  have "prv m k \<in> set (k # ys)" using qlist_last [OF assms(2)] by (metis last_in_set list.distinct(1))
  then have "qlist (list_add_tail n k m) h xs = qlist m h xs"
    using assms(3) by (intro qlist_cong) (auto simp: list_add_tail_def heap_upd Let_def)
  with assms(1) show ?thesis by simp
qed

lemma list_pop_frame_q:
  assumes "qlist m h xs" and "qlist m k (n # ys)" and "set (k # n # ys) \<inter> set (h # xs) = {}"
  shows "qlist (snd (list_pop k m)) h xs"
proof -
  have "nxt m k = n" "prv m n = k" "nxt m n \<in> set (k # n # ys)"
    using assms(2) by (cases ys; auto simp: qlist_def)+
  then have "qlist (snd (list_pop k m)) h xs = qlist m h xs"
    using assms(3) by (intro qlist_cong)
      (auto simp: list_pop_def list_del_init_def list_del_def INIT_LIST_HEAD_def heap_upd Let_def)
  with assms(1) show ?thesis by simp
qed

interpretation ql: node_fifo qlist list_add list_add_tail list_pop list_is_empty
proof unfold_locales
  fix m h xs ys k n
  show "qlist m h xs \<Longrightarrow> distinct (h # xs)" by (rule qlist_distinct)
  show "qlist m h xs \<Longrightarrow> qlist m h ys \<Longrightarrow> xs = ys" by (rule qlist_functional)
  show "qlist m h xs \<Longrightarrow> list_is_empty h m \<longleftrightarrow> xs = []" by (rule list_is_empty_qlist)
  show "qlist m h xs \<Longrightarrow> n \<notin> set (h # xs) \<Longrightarrow> qlist (list_add n h m) h (n # xs)"
    by (rule list_add_qlist)
  show "qlist m h xs \<Longrightarrow> n \<notin> set (h # xs) \<Longrightarrow> qlist (list_add_tail n h m) h (xs @ [n])"
    by (rule list_add_tail_qlist)
  show "qlist m h (n # xs) \<Longrightarrow> fst (list_pop h m) = n" by (rule list_pop_qlist)
  show "qlist m h (n # xs) \<Longrightarrow> qlist (snd (list_pop h m)) h xs" by (rule list_pop_qlist)
  show "qlist m h xs \<Longrightarrow> qlist m k ys \<Longrightarrow> set (k # n # ys) \<inter> set (h # xs) = {} \<Longrightarrow>
    qlist (list_add n k m) h xs" by (rule list_add_frame_q)
  show "qlist m h xs \<Longrightarrow> qlist m k ys \<Longrightarrow> set (k # n # ys) \<inter> set (h # xs) = {} \<Longrightarrow>
    qlist (list_add_tail n k m) h xs" by (rule list_add_tail_frame_q)
  show "qlist m h xs \<Longrightarrow> qlist m k (n # ys) \<Longrightarrow> set (k # n # ys) \<inter> set (h # xs) = {} \<Longrightarrow>
    qlist (snd (list_pop k m)) h xs" by (rule list_pop_frame_q)
qed

lemma find_element_loop_fwd:
  assumes "fwd m (x # zs @ [h])" and "prv m h = last (x # zs)" and "distinct (x # zs)"
  shows "find_element_loop m node h x =
    Some (if node \<in> set (butlast (x # zs)) then node else last (x # zs))"
  using assms
proof (induction zs arbitrary: x)
  case Nil
  then show ?case by (simp add: find_element_loop.simps)
next
  case (Cons z zs)
  have "x \<noteq> prv m h" using Cons.prems by auto
  moreover have "nxt m x = z" using Cons.prems by simp
  moreover have "find_element_loop m node h z =
      Some (if node \<in> set (butlast (z # zs)) then node else last (z # zs))"
    using Cons by simp
  ultimately show ?case
    using Cons.prems(3) by (subst find_element_loop.simps) auto
qed

lemma list_find_element_qlist:
  assumes "qlist m h xs"
  shows "list_find_element node h m = Some (node \<in> set (butlast xs))"
proof (cases xs)
  case Nil
  with assms show ?thesis
    by (simp add: list_find_element_def qlist_Nil find_element_loop.simps)
next
  case (Cons x zs)
  have d: "distinct (x # zs)" and f: "fwd m (x # zs @ [h])" and p: "prv m h = last (x # zs)"
    and n: "nxt m h = x"
    using assms Cons by (auto simp: qlist_def)
  have "last (x # zs) \<notin> set (butlast (x # zs))"
    using d butlast_distinctD [OF d] by blast
  then show ?thesis
    using find_element_loop_fwd [OF f p d, of node] n p Cons
    by (auto simp: list_find_element_def simp del: last.simps butlast.simps)
qed

section \<open>Properties\<close>

definition sample_heap :: lheap where
  "sample_heap = fold (\<lambda>n. list_add_tail n 100) [101, 102, 103]
     (INIT_LIST_HEAD 100 \<lparr>nxt = (\<lambda>_. 0), prv = (\<lambda>_. 0)\<rparr>)"

lemma sample_heap_dlist: "dlist sample_heap 100 [101, 102, 103]"
  unfolding sample_heap_def
  using dll.enqueue_all [OF INIT_LIST_HEAD_dlist, of "[101, 102, 103]" 100] by simp

text \<open>C8. The pointer operations of \<^verbatim>\<open>list.c\<close> implement list operations: on a well-linked list,
  \<open>list_add\<close> prepends a fresh node, \<open>list_add_tail\<close> appends it, \<open>list_del_init\<close> removes a node
  and leaves it linked to itself, \<open>list_pop\<close> returns and removes the first node.\<close>

theorem list_operations_refine:
  assumes "dlist m h xs"
  shows "(n \<notin> set (h # xs) \<longrightarrow> dlist (list_add n h m) h (n # xs) \<and> dlist (list_add_tail n h m) h (xs @ [n])) \<and>
    (x \<in> set xs \<longrightarrow> dlist (list_del_init x m) h (remove1 x xs) \<and> dlist (list_del_init x m) x []) \<and>
    (xs \<noteq> [] \<longrightarrow> fst (list_pop h m) = hd xs \<and> dlist (snd (list_pop h m)) h (tl xs))"
  using assms list_add_dlist [OF assms] list_add_tail_dlist [OF assms] list_del_init_dlist [OF assms]
    dll.dequeue_lists [of m h "hd xs" "tl xs"] list_pop_dlist [of m h "hd xs" "tl xs"]
  by auto

theorem list_operations_refine_witness:
  "dlist (list_add 104 100 sample_heap) 100 [104, 101, 102, 103] \<and>
   dlist (list_del_init 102 sample_heap) 100 [101, 103] \<and>
   fst (list_pop 100 sample_heap) = 101"
  using list_operations_refine [OF sample_heap_dlist, of 104 102] by simp

text \<open>\<open>list_find_element\<close> returns on every well-linked list, and it answers whether the node
  is among the nodes before the last one: the last node is never found.\<close>

theorem list_find_element_result:
  assumes "dlist m h xs"
  shows "list_find_element node h m = Some (node \<in> set (butlast xs))"
  using assms by (rule list_find_element_dlist)

theorem list_find_element_result_witness:
  "list_find_element 102 100 sample_heap = Some True \<and>
   list_find_element 103 100 sample_heap = Some False \<and> (103 :: addr) \<in> set [101, 102, 103]"
  using list_find_element_result [OF sample_heap_dlist, of 102]
    list_find_element_result [OF sample_heap_dlist, of 103] by auto

text \<open>Splicing: \<open>list_append_init\<close> moves all nodes of one list, in order, to the front of
  another one and leaves the first list empty; \<open>list_append_tail_init\<close> moves them to its end.\<close>

theorem list_splice_moves:
  assumes "dlist m h xs" and "dlist m l ys" and "set (h # xs) \<inter> set (l # ys) = {}"
  shows "dlist (list_append_init l h m) h (ys @ xs) \<and> dlist (list_append_init l h m) l [] \<and>
    dlist (list_append_tail_init l h m) h (xs @ ys) \<and> dlist (list_append_tail_init l h m) l []"
proof -
  have "l \<notin> set (h # ys @ xs)" using assms(3) dlist_distinct [OF assms(2)] by auto
  then show ?thesis
    using list_append_dlist [OF assms] list_append_tail_dlist [OF assms] splice_init_source
    by (simp add: list_append_init_def list_append_tail_init_def INIT_LIST_HEAD_frame)
qed

theorem list_splice_moves_witness:
  "dlist (list_append_init 200 100 (list_add 201 200 (INIT_LIST_HEAD 200 sample_heap)))
     100 [201, 101, 102, 103]"
proof -
  have l: "dlist (INIT_LIST_HEAD 200 sample_heap) 200 []" by simp
  have h: "dlist (INIT_LIST_HEAD 200 sample_heap) 100 [101, 102, 103]"
    using sample_heap_dlist by (simp add: INIT_LIST_HEAD_frame)
  have "dlist (list_add 201 200 (INIT_LIST_HEAD 200 sample_heap)) 200 [201]"
    using list_add_dlist [OF l, of 201] by simp
  moreover have "dlist (list_add 201 200 (INIT_LIST_HEAD 200 sample_heap)) 100 [101, 102, 103]"
    by (rule list_add_frame [OF h _ l]) simp
  ultimately show ?thesis
    using list_splice_moves [of _ 100 "[101, 102, 103]" 200 "[201]"] by simp
qed

text \<open>C40. On a well-linked list without a null node \<open>list_length\<close> returns the number of nodes, and
  the walkers return the first (\<open>list_walker\<close>, \<open>list_walkerv2\<close>) or the last
  (\<open>list_walkerv2_prev\<close>) node that passes the test, \<^verbatim>\<open>NULL\<close> when none does.\<close>

theorem list_traversals:
  assumes "dlist m h xs" and "0 \<notin> set (h # xs)"
  shows "list_length h m = Some (of_nat (length xs)) \<and>
    list_walker h f v m = Some (case List.find (\<lambda>x. f x v) xs of None \<Rightarrow> 0 | Some x \<Rightarrow> x) \<and>
    list_walkerv2 h f v m = Some (case List.find (\<lambda>x. f x v) xs of None \<Rightarrow> 0 | Some x \<Rightarrow> x) \<and>
    list_walkerv2_prev h f v m = Some (case List.find (\<lambda>x. f x v) (rev xs) of None \<Rightarrow> 0 | Some x \<Rightarrow> x)"
  using list_length_dlist [OF assms] list_walker_dlist [OF assms(1), of f v]
    list_walkerv2_prev_dlist [OF assms(1), of f v] list_walkerv2_eq [of h f v m]
  by simp

theorem list_traversals_witness:
  "list_length 100 sample_heap = Some 3 \<and>
   list_walker 100 (\<lambda>x v. x > v) 101 sample_heap = Some 102 \<and>
   list_walkerv2_prev 100 (\<lambda>x v. x > v) 101 sample_heap = Some 103"
  using list_traversals [OF sample_heap_dlist, of "\<lambda>x v. x > v" 101] by simp

end
