(* ===== verification/KState.thy ===== *)
theory KState
  imports Bitmap LinkedList
begin

text \<open>
  The state of the kernel: the structures of \<^verbatim>\<open>core/include/sys/threads.h\<close>,
  \<^verbatim>\<open>core/include/sys/memory.h\<close>, \<^verbatim>\<open>core/include/sys/semaphore.h\<close> and the global variables
  of \<^verbatim>\<open>core/mm/memory.c\<close>, \<^verbatim>\<open>core/thread/threads.c\<close> and \<^verbatim>\<open>core/thread/sched.c\<close>, gathered
  in one record. Objects that the code reaches by address (thread control blocks, arenas, block
  descriptors, locks) are maps from their address; the list nodes embedded in them live in
  \<open>lh\<close> at the address of the field. A C array inside a struct is a function of the index.

  The interrupt flag is part of the state; \<open>intr_disable\<close> and \<open>intr_set_status\<close> are the functions
  of \<^verbatim>\<open>core/interrupt/int.c\<close>.
\<close>

datatype task_status =
  THREAD_TASK_RUNNING | THREAD_TASK_READY | THREAD_TASK_WAITING
| THREAD_TASK_HANGING | THREAD_TASK_BLOCKED | THREAD_TASK_DIED

fun status_code :: "task_status \<Rightarrow> u32" where
  "status_code THREAD_TASK_RUNNING = 0"
| "status_code THREAD_TASK_READY = 1"
| "status_code THREAD_TASK_WAITING = 2"
| "status_code THREAD_TASK_HANGING = 4"
| "status_code THREAD_TASK_BLOCKED = 8"
| "status_code THREAD_TASK_DIED = 16"

record virtual_addr =
  vaddr_bitmap :: bitmap
  vaddr_start :: u32

record message =
  m_source :: u32
  m_type :: u32
  m_payload :: "nat \<Rightarrow> u8"

record tcb =
  self_kstack :: addr
  parent_pid :: u32
  pid :: u32
  tid :: u16
  exit_status :: u32
  status :: task_status
  priority :: u32
  tname :: "u8 list"
  tticks :: u32
  elapsed_ticks :: u32
  pgdir :: addr
  progress_vaddr :: virtual_addr
  fd_table :: "nat \<Rightarrow> u32"
  cwd_inode_nr :: u32
  p_message :: message
  p_recvfrom :: u32
  p_sendto :: u32
  p_flags :: u8
  p_intr_present :: u8
  p_sending_queue :: addr
  p_next_sending :: addr
  stack_magic :: u32

text \<open>
  Offsets of the embedded list nodes and of the block descriptors in \<^verbatim>\<open>TCB_t\<close> (i386 layout:
  every field before them is 4-byte aligned, the name takes 16 bytes, a list node 8, the address
  space descriptor 12).
\<close>

definition general_tag :: "addr \<Rightarrow> addr" where
  "general_tag thread = thread + 52"

definition all_list_tag :: "addr \<Rightarrow> addr" where
  "all_list_tag thread = thread + 60"

definition u_block_descs :: "addr \<Rightarrow> addr" where
  "u_block_descs thread = thread + 92"

definition thread_of_general_tag :: "addr \<Rightarrow> addr" where
  "thread_of_general_tag tag = tag - 52"

definition thread_of_all_list_tag :: "addr \<Rightarrow> addr" where
  "thread_of_all_list_tag tag = tag - 60"

lemma thread_of_tag [simp]:
  "thread_of_general_tag (general_tag p) = p" "thread_of_all_list_tag (all_list_tag p) = p"
  by (simp_all add: thread_of_general_tag_def general_tag_def thread_of_all_list_tag_def
      all_list_tag_def)

lemma general_tag_inject [simp]: "general_tag p = general_tag q \<longleftrightarrow> p = q"
  by (simp add: general_tag_def)

lemma general_tag_image [simp]: "general_tag p \<in> general_tag ` S \<longleftrightarrow> p \<in> S"
  by auto

lemma all_list_tag_inject [simp]: "all_list_tag p = all_list_tag q \<longleftrightarrow> p = q"
  by (simp add: all_list_tag_def)

text \<open>
  Locks and semaphores are objects at an address: \<^verbatim>\<open>struct lock\<close> is the holder, a semaphore at
  offset 4 and the repeat count; \<^verbatim>\<open>struct semaphore\<close> is the value and, at offset 4, the head of
  the waiting queue.
\<close>

record lock =
  holder :: addr
  holder_repeat_nr :: u32

definition lock_semaphore :: "addr \<Rightarrow> addr" where
  "lock_semaphore l = l + 4"

definition waiting_queue :: "addr \<Rightarrow> addr" where
  "waiting_queue sema = sema + 4"

record pool =
  pool_bitmap :: bitmap
  pool_lock :: addr
  phy_addr_start :: u32
  pool_size :: u32

record thread_stack =
  ts_ebp :: u32
  ts_ebx :: u32
  ts_edi :: u32
  ts_esi :: u32
  ts_eip :: u32
  ts_function :: u32
  ts_func_arg :: u32

record arena =
  desc :: addr
  cnt :: u32
  large :: bool

record mem_block_desc =
  block_size :: u32
  blocks_per_arena :: u32

text \<open>
  Timers (\<^verbatim>\<open>core/include/frog/timer.h\<close>; the node \<^verbatim>\<open>list\<close> is the first field) and wait
  queue entries (\<^verbatim>\<open>core/include/sys/wait.h\<close>; the node \<^verbatim>\<open>task_list\<close> is at offset 8). The
  only function that a timer of this kernel calls is \<^verbatim>\<open>process_timeout\<close>.
\<close>

datatype timer_fn = process_timeout_fn

record timer_list =
  expires :: u32
  tdata :: u32
  tfunction :: timer_fn

record wait_queue =
  wq_flags :: u32
  wq_task :: addr
  wq_magic :: u32

definition task_list :: "addr \<Rightarrow> addr" where
  "task_list wait = wait + 8"

definition wait_of_task_list :: "addr \<Rightarrow> addr" where
  "wait_of_task_list node = node - 8"

text \<open>In the head of a wait queue the list comes after the 4-byte lock, then the magic field.\<close>

definition wqh_task_list :: "addr \<Rightarrow> addr" where
  "wqh_task_list q = q + 4"

text \<open>The ring of a \<^verbatim>\<open>CircleQueue\<close> (\<^verbatim>\<open>core/include/ioqueue.h\<close>); its lock and its two waiting
  lists are at fixed offsets of its address.\<close>

record cqueue =
  producer_p :: u32
  consumor_p :: u32
  qsize :: u32
  qbuf :: "u32 \<Rightarrow> u8"

definition queue_lock :: "addr \<Rightarrow> addr" where
  "queue_lock q = q"

definition producer_waiting_list :: "addr \<Rightarrow> addr" where
  "producer_waiting_list q = q + 20"

definition consumor_waiting_list :: "addr \<Rightarrow> addr" where
  "consumor_waiting_list q = q + 28"

record kstate =
  lh :: lheap
  tcbs :: "addr \<Rightarrow> tcb"
  running :: addr
  thread_ready_list :: addr
  thread_all_list :: addr
  idle_thread :: addr
  main_thread :: addr
  intr :: bool
  pid_bm :: bitmap
  pid_start :: u32
  pid_lock :: addr
  semas :: "addr \<Rightarrow> u32"
  locks :: "addr \<Rightarrow> lock"
  kstacks :: "addr \<Rightarrow> thread_stack"
  pmem :: "u32 \<Rightarrow> u32"
  cr3 :: u32
  tss_esp0 :: u32
  kernel_pool :: pool
  user_pool :: pool
  kernel_viraddr :: virtual_addr
  arenas :: "addr \<Rightarrow> arena"
  descs :: "addr \<Rightarrow> mem_block_desc"
  k_block_descs :: addr
  ticks :: u32
  timers :: "addr \<Rightarrow> timer_list"
  tvec_addr :: "nat \<Rightarrow> addr"
  tv_index :: "nat \<Rightarrow> u32"
  timer_jiffies :: u32
  run_timer_list_running :: addr
  g_softirq_pending :: u32
  waits :: "addr \<Rightarrow> wait_queue"
  wqh_magic :: "addr \<Rightarrow> u32"
  queues :: "addr \<Rightarrow> cqueue"

definition upd_tcb :: "addr \<Rightarrow> (tcb \<Rightarrow> tcb) \<Rightarrow> kstate \<Rightarrow> kstate" where
  "upd_tcb p f s = s\<lparr>tcbs := (tcbs s)(p := f (tcbs s p))\<rparr>"

definition upd_lock :: "addr \<Rightarrow> (lock \<Rightarrow> lock) \<Rightarrow> kstate \<Rightarrow> kstate" where
  "upd_lock l f s = s\<lparr>locks := (locks s)(l := f (locks s l))\<rparr>"

definition upd_lh :: "(lheap \<Rightarrow> lheap) \<Rightarrow> kstate \<Rightarrow> kstate" where
  "upd_lh f s = s\<lparr>lh := f (lh s)\<rparr>"

definition running_thread :: "kstate \<Rightarrow> addr" where
  "running_thread s = running s"

section \<open>Interrupt flag\<close>

definition intr_get_status :: "kstate \<Rightarrow> bool" where
  "intr_get_status s = intr s"

definition intr_enable :: "kstate \<Rightarrow> bool \<times> kstate" where
  "intr_enable s = (if intr_get_status s then (True, s) else (False, s\<lparr>intr := True\<rparr>))"

definition intr_disable :: "kstate \<Rightarrow> bool \<times> kstate" where
  "intr_disable s = (if \<not> intr_get_status s then (False, s) else (True, s\<lparr>intr := False\<rparr>))"

definition intr_set_status :: "bool \<Rightarrow> kstate \<Rightarrow> kstate" where
  "intr_set_status st s = (if st then snd (intr_enable s) else snd (intr_disable s))"

lemma intr_disable_eq: "intr_disable s = (intr s, s\<lparr>intr := False\<rparr>)"
  by (simp add: intr_disable_def intr_get_status_def)

lemma intr_set_status_eq: "intr_set_status b s = s\<lparr>intr := b\<rparr>"
  by (simp add: intr_set_status_def intr_enable_def intr_disable_def intr_get_status_def)

lemma intr_nested [simp]: "intr_set_status (intr s) (s\<lparr>intr := False\<rparr>) = s"
  by (simp add: intr_set_status_eq)

section \<open>A concrete state\<close>

text \<open>
  The machine as the boot loader leaves it (\<^verbatim>\<open>booter/loader.s\<close>, \<^verbatim>\<open>setup_page\<close>): the page
  directory at \<open>0x100000\<close>, one table for the first megabyte behind the entries 0 and 768, empty
  tables behind the entries 769 to 1022, the directory itself behind the last entry. The pools, the
  list heads and the main thread have sample addresses and sizes. The witnesses evaluate the model
  on states built from this one.
\<close>

definition boot_pmem :: "u32 \<Rightarrow> u32" where
  "boot_pmem a =
     (if 0x100000 \<le> a \<and> a < 0x101000 then
        let i = (a - 0x100000) div 4 in
        if i = 0 \<or> i = 768 then 0x101007
        else if i = 1023 then 0x100007
        else if i > 768 then 0x102007 + (i - 769) * 0x1000 else 0
      else if 0x101000 \<le> a \<and> a < 0x101400 then (a - 0x101000) * 1024 OR 7 else 0)"

definition zero_tcb :: tcb where
  "zero_tcb = \<lparr>self_kstack = 0, parent_pid = 0, pid = 0, tid = 0, exit_status = 0,
     status = THREAD_TASK_RUNNING, priority = 0, tname = [], tticks = 0, elapsed_ticks = 0, pgdir = 0,
     progress_vaddr = \<lparr>vaddr_bitmap = \<lparr>bits = (\<lambda>_. 0), map_bytes_length = 0\<rparr>, vaddr_start = 0\<rparr>,
     fd_table = (\<lambda>_. 0), cwd_inode_nr = 0,
     p_message = \<lparr>m_source = 0, m_type = 0, m_payload = (\<lambda>_. 0)\<rparr>, p_recvfrom = 0, p_sendto = 0,
     p_flags = 0, p_intr_present = 0, p_sending_queue = 0, p_next_sending = 0, stack_magic = 0\<rparr>"

definition boot_kstate :: kstate where
  "boot_kstate = \<lparr>lh = \<lparr>nxt = (\<lambda>a. a), prv = (\<lambda>a. a)\<rparr>,
     tcbs = (\<lambda>_. zero_tcb\<lparr>priority := 10, stack_magic := 0x19900921\<rparr>),
     running = 0xc009e000, thread_ready_list = 0xc0008000, thread_all_list = 0xc0008010,
     idle_thread = 0xc0105000, main_thread = 0xc009e000, intr = True,
     pid_bm = \<lparr>bits = (\<lambda>_. 0), map_bytes_length = 4\<rparr>, pid_start = 1, pid_lock = 0xc0008020,
     semas = (\<lambda>_. 1), locks = (\<lambda>_. \<lparr>holder = 0, holder_repeat_nr = 0\<rparr>),
     kstacks = (\<lambda>_. \<lparr>ts_ebp = 0, ts_ebx = 0, ts_edi = 0, ts_esi = 0, ts_eip = 0, ts_function = 0,
                    ts_func_arg = 0\<rparr>),
     pmem = boot_pmem, cr3 = 0x100000, tss_esp0 = 0xc009f000,
     kernel_pool = \<lparr>pool_bitmap = \<lparr>bits = (\<lambda>_. 0), map_bytes_length = 2\<rparr>, pool_lock = 0xc0008040,
                    phy_addr_start = 0x201000, pool_size = 0x10000\<rparr>,
     user_pool = \<lparr>pool_bitmap = \<lparr>bits = (\<lambda>_. 0), map_bytes_length = 2\<rparr>, pool_lock = 0xc0008060,
                  phy_addr_start = 0x211000, pool_size = 0x10000\<rparr>,
     kernel_viraddr = \<lparr>vaddr_bitmap = \<lparr>bits = (\<lambda>_. 0), map_bytes_length = 2\<rparr>, vaddr_start = 0xc0100000\<rparr>,
     arenas = (\<lambda>_. \<lparr>desc = 0, cnt = 0, large = False\<rparr>),
     descs = (\<lambda>_. \<lparr>block_size = 0, blocks_per_arena = 0\<rparr>), k_block_descs = 0xc0008080,
     ticks = 0, timers = (\<lambda>_. \<lparr>expires = 0, tdata = 0, tfunction = process_timeout_fn\<rparr>),
     tvec_addr = (\<lambda>n. 0xc000a000 + of_nat n * 0x1000), tv_index = (\<lambda>_. 0), timer_jiffies = 0,
     run_timer_list_running = 0, g_softirq_pending = 0,
     waits = (\<lambda>_. \<lparr>wq_flags = 0, wq_task = 0, wq_magic = 0\<rparr>), wqh_magic = (\<lambda>_. 0),
     queues = (\<lambda>_. \<lparr>producer_p = 0, consumor_p = 0, qsize = 0, qbuf = (\<lambda>_. 0)\<rparr>)\<rparr>"

end
