(* ===== verification/Ring.thy ===== *)
theory Ring
  imports KState
begin

text \<open>
  The two ring buffers of the kernel without their callers: the byte FIFO of \<^verbatim>\<open>core/lib/fifo.c\<close>
  and the ring inside a \<^verbatim>\<open>CircleQueue\<close> (\<^verbatim>\<open>core/lib/ioqueue.c\<close>). Both implement the interface
  \<open>byte_queue\<close>, a bounded first-in first-out queue of bytes.
\<close>

section \<open>The interface\<close>

locale byte_queue =
  fixes holds :: "'q \<Rightarrow> u8 list \<Rightarrow> bool"
    and cap :: "'q \<Rightarrow> nat"
    and enq :: "u8 \<Rightarrow> 'q \<Rightarrow> 'q"
    and deq :: "'q \<Rightarrow> u8 \<times> 'q"
  assumes holds_cap: "holds q xs \<Longrightarrow> length xs \<le> cap q"
    and enq_holds: "holds q xs \<Longrightarrow> length xs < cap q \<Longrightarrow> holds (enq b q) (xs @ [b])"
    and enq_cap: "holds q xs \<Longrightarrow> length xs < cap q \<Longrightarrow> cap (enq b q) = cap q"
    and deq_holds: "holds q (b # xs) \<Longrightarrow> fst (deq q) = b \<and> holds (snd (deq q)) xs"
    and deq_cap: "holds q (b # xs) \<Longrightarrow> cap (snd (deq q)) = cap q"
begin

primrec deq_many :: "nat \<Rightarrow> 'q \<Rightarrow> u8 list \<times> 'q" where
  "deq_many 0 q = ([], q)"
| "deq_many (Suc n) q = (let (b, q) = deq q; (bs, q) = deq_many n q in (b # bs, q))"

lemma enq_many: "holds q xs \<Longrightarrow> length xs + length bs \<le> cap q \<Longrightarrow>
    holds (fold enq bs q) (xs @ bs) \<and> cap (fold enq bs q) = cap q"
proof (induction bs arbitrary: q xs)
  case (Cons b bs)
  then have "holds (enq b q) (xs @ [b])" "cap (enq b q) = cap q" using enq_holds enq_cap by auto
  then show ?case using Cons.IH [of "enq b q" "xs @ [b]"] Cons.prems by simp
qed simp

lemma deq_many_holds: "holds q (xs @ ys) \<Longrightarrow>
    fst (deq_many (length xs) q) = xs \<and> holds (snd (deq_many (length xs) q)) ys \<and>
    cap (snd (deq_many (length xs) q)) = cap q"
proof (induction xs arbitrary: q)
  case (Cons x xs)
  then have "fst (deq q) = x" "holds (snd (deq q)) (xs @ ys)" "cap (snd (deq q)) = cap q"
    using deq_holds [of q x "xs @ ys"] deq_cap [of q x "xs @ ys"] by auto
  then show ?case using Cons.IH [of "snd (deq q)"] by (simp add: case_prod_unfold Let_def)
qed simp

text \<open>Bytes come out in the order in which they went in, behind those already queued.\<close>

lemma first_in_first_out:
  assumes "holds q xs" and "length xs + length bs \<le> cap q"
  shows "fst (deq_many (length xs + length bs) (fold enq bs q)) = xs @ bs"
  using enq_many [OF assms] deq_many_holds [of _ "xs @ bs" "[]"] by auto

end

section \<open>fifo.c\<close>

record FIFO =
  put_p :: u32
  get_p :: u32
  fbuf :: "u32 \<Rightarrow> u8"
  fsize :: u32
  ffree :: u32

definition init_fifo :: "u32 \<Rightarrow> (u32 \<Rightarrow> u8) \<Rightarrow> FIFO" where
  "init_fifo sz buf = \<lparr>put_p = 0, get_p = 0, fbuf = buf, fsize = sz, ffree = sz\<rparr>"

definition next_pos :: "u32 \<Rightarrow> u32" where
  "next_pos pos = (pos + 1) mod 1024"

text \<open>
  The buffer is a map without end: positions wrap at 1024 whatever size was given to \<open>init_fifo\<close>, so
  with a smaller buffer the code writes past its end.
\<close>

definition fifo_put_data :: "u8 \<Rightarrow> FIFO \<Rightarrow> u32 \<times> FIFO" where
  "fifo_put_data data queue =
     (if ffree queue = 0 then (-1, queue)
      else (0, queue\<lparr>fbuf := (fbuf queue)(put_p queue := data), put_p := next_pos (put_p queue),
                     ffree := ffree queue - 1\<rparr>))"

definition fifo_get_data :: "FIFO \<Rightarrow> u8 \<times> FIFO" where
  "fifo_get_data queue =
     (let ret = fbuf queue (get_p queue) in
      if ffree queue = fsize queue then (-1, queue)
      else (ret, queue\<lparr>get_p := next_pos (get_p queue), ffree := ffree queue + 1\<rparr>))"

definition fifo_rest :: "FIFO \<Rightarrow> u32" where
  "fifo_rest queue = fsize queue - ffree queue"

definition fifo_length :: "FIFO \<Rightarrow> u32" where
  "fifo_length queue =
     (if put_p queue \<le>s get_p queue then 1024 - (get_p queue - put_p queue)
      else put_p queue - get_p queue)"

section \<open>The ring of a CircleQueue\<close>

definition ioqueue_avaliable :: "cqueue \<Rightarrow> u32" where
  "ioqueue_avaliable queue =
     (if consumor_p queue = producer_p queue then qsize queue - 1
      else if producer_p queue <s consumor_p queue then consumor_p queue - producer_p queue - 1
      else (qsize queue - producer_p queue) + consumor_p queue - 1)"

definition ioqueue_unread :: "cqueue \<Rightarrow> u32" where
  "ioqueue_unread queue =
     (if consumor_p queue = producer_p queue then 0
      else if producer_p queue <s consumor_p queue then (qsize queue - consumor_p queue) + producer_p queue
      else producer_p queue - consumor_p queue)"

definition ioqueue_check :: "cqueue \<Rightarrow> u32" where
  "ioqueue_check queue = (if ioqueue_unread queue > 0 then 0 else -1)"

definition ioqueue_is_full :: "cqueue \<Rightarrow> bool" where
  "ioqueue_is_full queue \<longleftrightarrow> producer_p queue = 4000"

definition ioqueue_is_empty :: "cqueue \<Rightarrow> bool" where
  "ioqueue_is_empty queue \<longleftrightarrow> producer_p queue = consumor_p queue"

definition next_index :: "cqueue \<Rightarrow> u32 \<Rightarrow> u32" where
  "next_index q current_index = (current_index + 1) mod qsize q"

text \<open>One round of the writing and of the reading loop.\<close>

definition put_byte :: "u8 \<Rightarrow> cqueue \<Rightarrow> cqueue" where
  "put_byte b q = q\<lparr>qbuf := (qbuf q)(producer_p q := b), producer_p := next_index q (producer_p q)\<rparr>"

definition get_byte :: "cqueue \<Rightarrow> u8 \<times> cqueue" where
  "get_byte q = (qbuf q (consumor_p q), q\<lparr>consumor_p := next_index q (consumor_p q)\<rparr>)"

text \<open>The loops: \<open>w_data\<close> is the rest of the data, \<open>written\<close> and \<open>read_size\<close> count up to \<open>count\<close>.\<close>

fun fill :: "u8 list \<Rightarrow> u32 \<Rightarrow> u32 \<Rightarrow> cqueue \<Rightarrow> u32 \<times> cqueue" where
  "fill [] written count q = (written, q)"
| "fill (b # w_data) written count q =
     (if ioqueue_avaliable q > 0 \<and> written < count
      then fill w_data (written + 1) count (put_byte b q) else (written, q))"

primrec drain :: "nat \<Rightarrow> u8 list \<Rightarrow> u32 \<Rightarrow> u32 \<Rightarrow> cqueue \<Rightarrow> u8 list \<times> u32 \<times> cqueue" where
  "drain 0 data read_size count q = (data, read_size, q)"
| "drain (Suc n) data read_size count q =
     (if ioqueue_unread q > 0 \<and> read_size < count
      then let (b, q) = get_byte q in drain n (data @ [b]) (read_size + 1) count q
      else (data, read_size, q))"

section \<open>Contents of a ring\<close>

definition ring :: "(u32 \<Rightarrow> u8) \<Rightarrow> nat \<Rightarrow> nat \<Rightarrow> u8 list \<Rightarrow> bool" where
  "ring f g n xs \<longleftrightarrow> (\<forall>i < length xs. f (of_nat ((g + i) mod n)) = xs ! i)"

lemma mod_shift_inject:
  fixes g i j n :: nat
  assumes "i < n" and "j < n"
  shows "(g + i) mod n = (g + j) mod n \<longleftrightarrow> i = j"
proof
  assume "(g + i) mod n = (g + j) mod n"
  then have "int (g + i) mod int n = int (g + j) mod int n" by (metis zmod_int)
  then have "(int i - int j) mod int n = 0" by (simp add: mod_eq_dvd_iff mod_0_imp_dvd)
  then have "int n dvd int i - int j" by (simp add: dvd_eq_mod_eq_0)
  then show "i = j" using assms zdvd_imp_le [of "int n" "\<bar>int i - int j\<bar>"] by (cases "i = j") auto
qed simp

lemma of_nat_32_inject: "a < 2 ^ 32 \<Longrightarrow> b < 2 ^ 32 \<Longrightarrow> (of_nat a :: u32) = of_nat b \<longleftrightarrow> a = b"
  by (metis unat_of_nat_32)

lemma ring_put:
  assumes "ring f g n xs" and "length xs < n" and "n \<le> 2 ^ 32"
  shows "ring (f(of_nat ((g + length xs) mod n) := b)) g n (xs @ [b])"
  unfolding ring_def
proof (intro allI impI)
  fix i assume i: "i < length (xs @ [b])"
  let ?p = "of_nat ((g + length xs) mod n) :: u32"
  have lt: "(g + j) mod n < 2 ^ 32" for j using assms by (intro less_le_trans [OF mod_less_divisor]) auto
  show "(f(?p := b)) (of_nat ((g + i) mod n)) = (xs @ [b]) ! i"
  proof (cases "i = length xs")
    case False
    then have "i < length xs" using i by simp
    then have "(g + i) mod n \<noteq> (g + length xs) mod n" using mod_shift_inject [of i n "length xs" g] assms(2) by simp
    then have "of_nat ((g + i) mod n) \<noteq> ?p" using of_nat_32_inject [OF lt lt] by simp
    then show ?thesis using \<open>i < length xs\<close> assms(1) by (simp add: ring_def nth_append)
  qed simp
qed

lemma ring_get:
  assumes "ring f g n (b # xs)"
  shows "f (of_nat (g mod n)) = b" and "ring f ((g + 1) mod n) n xs"
proof -
  show "f (of_nat (g mod n)) = b" using assms by (auto simp: ring_def dest: spec [of _ 0])
  show "ring f ((g + 1) mod n) n xs" unfolding ring_def
  proof (intro allI impI)
    fix i assume "i < length xs"
    then have "f (of_nat ((g + Suc i) mod n)) = xs ! i" using assms by (auto simp: ring_def dest: spec [of _ "Suc i"])
    then show "f (of_nat (((g + 1) mod n + i) mod n)) = xs ! i" by (simp add: mod_simps)
  qed
qed

lemma unat_next:
  fixes p :: u32
  assumes "unat p < n" and "n < 2 ^ 32" and "unat m = n"
  shows "unat ((p + 1) mod m) = (unat p + 1) mod n"
  using assms unat_Suc_word [of p] by (simp add: unat_mod_word)

lemma of_nat_unat_32: "of_nat (unat (x :: u32)) = x"
  by (metis of_nat_unat ucast_id)

definition fifo_holds :: "FIFO \<Rightarrow> u8 list \<Rightarrow> bool" where
  "fifo_holds q xs \<longleftrightarrow> unat (fsize q) \<le> 1024 \<and> length xs \<le> unat (fsize q) \<and>
     unat (ffree q) = unat (fsize q) - length xs \<and> unat (get_p q) < 1024 \<and>
     unat (put_p q) = (unat (get_p q) + length xs) mod 1024 \<and> ring (fbuf q) (unat (get_p q)) 1024 xs"

definition fifo_cap :: "FIFO \<Rightarrow> nat" where
  "fifo_cap q = unat (fsize q)"

lemma fifo_put_holds:
  assumes h: "fifo_holds q xs" and l: "length xs < fifo_cap q"
  shows "fst (fifo_put_data b q) = 0" and "fifo_holds (snd (fifo_put_data b q)) (xs @ [b])"
    and "fifo_cap (snd (fifo_put_data b q)) = fifo_cap q"
proof -
  note d = h [unfolded fifo_holds_def] and l' = l [unfolded fifo_cap_def]
  have f: "unat (ffree q) \<noteq> 0" using d l' by simp
  then have nz: "ffree q \<noteq> 0" by auto
  then show "fst (fifo_put_data b q) = 0" "fifo_cap (snd (fifo_put_data b q)) = fifo_cap q"
    by (simp_all add: fifo_put_data_def fifo_cap_def)
  have "unat (ffree q - 1) = unat (fsize q) - Suc (length xs)"
    using d f unat_sub_word [of 1 "ffree q"] by simp
  moreover have "unat (next_pos (put_p q)) = (unat (get_p q) + Suc (length xs)) mod 1024"
    using d unat_next [of "put_p q" 1024 1024] by (simp add: next_pos_def mod_simps)
  moreover have "ring ((fbuf q)(put_p q := b)) (unat (get_p q)) 1024 (xs @ [b])"
    using d l' ring_put [of "fbuf q" "unat (get_p q)" 1024 xs b] of_nat_unat_32 [of "put_p q"] by simp
  ultimately show "fifo_holds (snd (fifo_put_data b q)) (xs @ [b])"
    using d l' nz by (simp add: fifo_put_data_def fifo_holds_def)
qed

lemma fifo_get_holds:
  assumes h: "fifo_holds q (b # xs)"
  shows "fst (fifo_get_data q) = b" and "fifo_holds (snd (fifo_get_data q)) xs"
    and "fifo_cap (snd (fifo_get_data q)) = fifo_cap q"
proof -
  note d = h [unfolded fifo_holds_def]
  have "unat (ffree q) \<noteq> unat (fsize q)" using d by auto
  then have nz: "ffree q \<noteq> fsize q" by auto
  have r: "fbuf q (get_p q) = b" "ring (fbuf q) ((unat (get_p q) + 1) mod 1024) 1024 xs"
    using ring_get [of "fbuf q" "unat (get_p q)" 1024 b xs] d of_nat_unat_32 [of "get_p q"] by simp_all
  show "fst (fifo_get_data q) = b" "fifo_cap (snd (fifo_get_data q)) = fifo_cap q"
    using nz r(1) by (simp_all add: fifo_get_data_def fifo_cap_def)
  have g: "unat (next_pos (get_p q)) = (unat (get_p q) + 1) mod 1024"
    using d unat_next [of "get_p q" 1024 1024] by (simp add: next_pos_def)
  have "unat (ffree q + 1) = unat (fsize q) - length xs"
  proof -
    have "unat (ffree q) + 1 < 2 ^ 32" using d by auto
    then show ?thesis using d unat_Suc_word [of "ffree q"] by (auto simp: Suc_diff_Suc)
  qed
  then show "fifo_holds (snd (fifo_get_data q)) xs"
    using d nz r g by (simp add: fifo_get_data_def fifo_holds_def mod_simps)
qed

interpretation fifo: byte_queue fifo_holds fifo_cap "\<lambda>b q. snd (fifo_put_data b q)" fifo_get_data
  by unfold_locales (simp_all add: fifo_put_holds fifo_get_holds, simp add: fifo_holds_def fifo_cap_def)

definition cq_holds :: "cqueue \<Rightarrow> u8 list \<Rightarrow> bool" where
  "cq_holds q xs \<longleftrightarrow> 1 < unat (qsize q) \<and> unat (qsize q) < 2 ^ 31 \<and> unat (consumor_p q) < unat (qsize q) \<and>
     length xs < unat (qsize q) \<and> unat (producer_p q) = (unat (consumor_p q) + length xs) mod unat (qsize q) \<and>
     ring (qbuf q) (unat (consumor_p q)) (unat (qsize q)) xs"

definition cq_cap :: "cqueue \<Rightarrow> nat" where
  "cq_cap q = unat (qsize q) - 1"

lemma put_byte_holds:
  assumes h: "cq_holds q xs" and l: "length xs < cq_cap q"
  shows "cq_holds (put_byte b q) (xs @ [b])" and "cq_cap (put_byte b q) = cq_cap q"
proof -
  note d = h [unfolded cq_holds_def] and l' = l [unfolded cq_cap_def]
  let ?n = "unat (qsize q)"
  show "cq_cap (put_byte b q) = cq_cap q" by (simp add: put_byte_def cq_cap_def)
  have "unat (producer_p q) < ?n" using d by simp
  then have "unat (next_index q (producer_p q)) = (unat (consumor_p q) + Suc (length xs)) mod ?n"
    using d unat_next [of "producer_p q" ?n "qsize q"] by (simp add: next_index_def mod_simps)
  moreover have "ring ((qbuf q)(producer_p q := b)) (unat (consumor_p q)) ?n (xs @ [b])"
    using d ring_put [of "qbuf q" "unat (consumor_p q)" ?n xs b] of_nat_unat_32 [of "producer_p q"] by simp
  moreover have "Suc (length xs) < ?n" using l' by simp
  ultimately show "cq_holds (put_byte b q) (xs @ [b])" using d by (simp add: put_byte_def cq_holds_def)
qed

lemma get_byte_holds:
  assumes h: "cq_holds q (b # xs)"
  shows "fst (get_byte q) = b" and "cq_holds (snd (get_byte q)) xs" and "cq_cap (snd (get_byte q)) = cq_cap q"
proof -
  note d = h [unfolded cq_holds_def]
  let ?n = "unat (qsize q)"
  have r: "qbuf q (consumor_p q) = b" "ring (qbuf q) ((unat (consumor_p q) + 1) mod ?n) ?n xs"
    using ring_get [of "qbuf q" "unat (consumor_p q)" ?n b xs] d of_nat_unat_32 [of "consumor_p q"] by simp_all
  have g: "unat (next_index q (consumor_p q)) = (unat (consumor_p q) + 1) mod ?n"
    using d unat_next [of "consumor_p q" ?n "qsize q"] by (simp add: next_index_def)
  show "fst (get_byte q) = b" "cq_cap (snd (get_byte q)) = cq_cap q" "cq_holds (snd (get_byte q)) xs"
    using d r g by (simp_all add: get_byte_def cq_cap_def cq_holds_def mod_simps)
qed

interpretation cq: byte_queue cq_holds cq_cap put_byte get_byte
  by unfold_locales (simp_all add: put_byte_holds get_byte_holds, auto simp: cq_holds_def cq_cap_def)

lemma ring_counts:
  assumes h: "cq_holds q xs"
  shows "unat (ioqueue_unread q) = length xs" and "unat (ioqueue_avaliable q) = cq_cap q - length xs"
proof -
  note d = h [unfolded cq_holds_def]
  let ?n = "unat (qsize q)" and ?c = "unat (consumor_p q)" and ?p = "unat (producer_p q)"
  have lt: "?p < ?n" "?c < ?n" and n31: "?n < 2 ^ 31" using d by simp_all
  have s: "producer_p q <s consumor_p q \<longleftrightarrow> ?p < ?c" using lt d by (intro sless_small) linarith+
  have e: "consumor_p q = producer_p q \<longleftrightarrow> ?c = ?p" by (simp add: word_eq_unat32)
  have len: "?p = (if ?c + length xs < ?n then ?c + length xs else ?c + length xs - ?n)"
    using d le_mod_geq [of ?n "?c + length xs"] by auto
  consider "?c = ?p" | "?p < ?c" | "?c < ?p" by linarith
  then have "unat (ioqueue_unread q) = length xs \<and> unat (ioqueue_avaliable q) = cq_cap q - length xs"
  proof cases
    case 1
    then have "length xs = 0" using len d by (auto split: if_splits)
    then show ?thesis using 1 e d unat_sub_word [of 1 "qsize q"]
      by (simp add: ioqueue_unread_def ioqueue_avaliable_def cq_cap_def)
  next
    case 2
    then have l: "length xs = ?n - ?c + ?p" using len d by (auto split: if_splits)
    have "unat (qsize q - consumor_p q) = ?n - ?c" using lt by (intro unat_sub_word) simp
    then have u: "unat (qsize q - consumor_p q + producer_p q) = ?n - ?c + ?p"
      using lt n31 2 by (subst unat_add_less) simp_all
    have "unat (consumor_p q - producer_p q) = ?c - ?p" using 2 by (intro unat_sub_word) simp
    then have "unat (consumor_p q - producer_p q - 1) = ?c - ?p - 1"
      using 2 by (subst unat_sub_word) simp_all
    then show ?thesis using 2 s e u l lt by (simp add: ioqueue_unread_def ioqueue_avaliable_def cq_cap_def)
  next
    case 3
    then have l: "length xs = ?p - ?c" using len d by (auto split: if_splits)
    have u: "unat (producer_p q - consumor_p q) = ?p - ?c" using 3 by (intro unat_sub_word) simp
    have "unat (qsize q - producer_p q) = ?n - ?p" using lt by (intro unat_sub_word) simp
    then have "unat (qsize q - producer_p q + consumor_p q) = ?n - ?p + ?c"
      using lt n31 3 by (subst unat_add_less) simp_all
    then have "unat (qsize q - producer_p q + consumor_p q - 1) = ?n - ?p + ?c - 1"
      using lt by (subst unat_sub_word) simp_all
    then show ?thesis using 3 s e u l lt by (simp add: ioqueue_unread_def ioqueue_avaliable_def cq_cap_def)
  qed
  then show "unat (ioqueue_unread q) = length xs" "unat (ioqueue_avaliable q) = cq_cap q - length xs" by simp_all
qed

lemma fill_holds:
  assumes "cq_holds q xs" and "length xs + length data \<le> cq_cap q" and "unat written + length data = unat count"
  shows "fill data written count q = (count, fold put_byte data q)"
  using assms
proof (induction data arbitrary: q xs written)
  case Nil
  then show ?case by (simp add: word_eq_unat32)
next
  case (Cons b data)
  have "0 < unat (ioqueue_avaliable q)" using ring_counts(2) [OF Cons.prems(1)] Cons.prems(2) by simp
  then have a: "ioqueue_avaliable q > 0" by (simp add: word_less_nat_alt)
  have w: "written < count" using Cons.prems(3) by (simp add: word_less_nat_alt)
  then have "unat (written + 1) + length data = unat count"
    using Cons.prems(3) unat_less_32 [of count] unat_Suc_word [of written] by simp
  moreover have "length xs < cq_cap q" using Cons.prems(2) by simp
  ultimately show ?case
    using Cons.IH [of "put_byte b q" "xs @ [b]" "written + 1"] put_byte_holds [OF Cons.prems(1)] Cons.prems(2) a w
    by simp
qed

lemma drain_holds:
  assumes "cq_holds q (xs @ ys)" and "unat r + length xs = unat count"
  shows "drain (length xs) data r count q = (data @ xs, count, snd (cq.deq_many (length xs) q))"
  using assms
proof (induction xs arbitrary: q r data)
  case Nil
  then show ?case by (simp add: word_eq_unat32)
next
  case (Cons x xs)
  have h: "cq_holds q (x # xs @ ys)" using Cons.prems(1) by simp
  have "0 < unat (ioqueue_unread q)" using ring_counts(1) [OF h] by simp
  then have a: "ioqueue_unread q > 0" by (simp add: word_less_nat_alt)
  have w: "r < count" using Cons.prems(2) by (simp add: word_less_nat_alt)
  then have "unat (r + 1) + length xs = unat count"
    using Cons.prems(2) unat_less_32 [of count] unat_Suc_word [of r] by simp
  then show ?case
    using Cons.IH [of "snd (get_byte q)" "r + 1" "data @ [x]"] get_byte_holds [OF h] a w
    by (simp add: case_prod_unfold Let_def)
qed

section \<open>Theorems\<close>

lemma fifo_length_holds:
  assumes h: "fifo_holds q xs"
  shows "unat (fifo_length q) = (if xs = [] then 1024 else length xs)"
proof -
  note d = h [unfolded fifo_holds_def]
  let ?g = "unat (get_p q)" and ?p = "unat (put_p q)"
  have lt: "?g < 1024" "?p < 1024" using d by simp_all
  have s: "put_p q \<le>s get_p q \<longleftrightarrow> \<not> ?g < ?p"
    unfolding signed.not_less [symmetric] using sless_small [of "get_p q" "put_p q"] lt by simp
  have len: "?p = (if ?g + length xs < 1024 then ?g + length xs else ?g + length xs - 1024)" "length xs \<le> 1024"
    using d le_mod_geq [of 1024 "?g + length xs"] by auto
  show ?thesis
  proof (cases "?g < ?p")
    case True
    then have "length xs = ?p - ?g" using len by (auto split: if_splits)
    then show ?thesis using True s unat_sub_word [of "get_p q" "put_p q"] by (auto simp: fifo_length_def)
  next
    case False
    then have "unat (get_p q - put_p q) = ?g - ?p" by (intro unat_sub_word) simp
    then have "unat (1024 - (get_p q - put_p q)) = 1024 - (?g - ?p)" using lt by (subst unat_sub_word) simp_all
    then show ?thesis using False s len lt by (auto simp: fifo_length_def split: if_splits)
  qed
qed

text \<open>The byte FIFO of at most 1024 bytes is a bounded first-in first-out queue: a put appends and
  returns 0, or returns -1 and changes nothing when the queue is full; a get takes the oldest byte, or
  returns -1 on an empty queue; \<open>fifo_rest\<close> counts the bytes. \<open>fifo_length\<close> counts them too, except
  that it reports 1024 for an empty queue.\<close>

theorem fifo_bounded_queue:
  assumes "fifo_holds q xs"
  shows "(if length xs < unat (fsize q)
      then fst (fifo_put_data b q) = 0 \<and> fifo_holds (snd (fifo_put_data b q)) (xs @ [b])
      else fifo_put_data b q = (-1, q)) \<and>
    (case xs of [] \<Rightarrow> fifo_get_data q = (-1, q)
     | x # ys \<Rightarrow> fst (fifo_get_data q) = x \<and> fifo_holds (snd (fifo_get_data q)) ys) \<and>
    unat (fifo_rest q) = length xs \<and> unat (fifo_length q) = (if xs = [] then 1024 else length xs)"
proof -
  note d = assms [unfolded fifo_holds_def]
  have 1: "fifo_put_data b q = (-1, q)" if "\<not> length xs < unat (fsize q)"
  proof -
    have "unat (ffree q) = 0" using d that by simp
    then show ?thesis by (simp add: fifo_put_data_def unat_eq_0)
  qed
  have 2: "fifo_get_data q = (-1, q)" if "xs = []"
    using d that by (simp add: fifo_get_data_def Let_def word_eq_unat32)
  have 3: "unat (fifo_rest q) = length xs" using d unat_sub_word [of "ffree q" "fsize q"] by (simp add: fifo_rest_def)
  show ?thesis
    using fifo_put_holds [OF assms, of b] fifo_get_holds [of q] assms 1 2 3 fifo_length_holds [OF assms]
    by (auto simp: fifo_cap_def split: list.splits)
qed

theorem fifo_bounded_queue_witness:
  "fifo_holds (snd (fifo_put_data 65 (init_fifo 16 (\<lambda>_. 0)))) [65] \<and> unat (fifo_length (init_fifo 16 (\<lambda>_. 0))) = 1024"
proof -
  have "fifo_holds (init_fifo 16 (\<lambda>_. 0)) []" by (simp add: fifo_holds_def init_fifo_def ring_def)
  from fifo_bounded_queue [OF this, of 65] show ?thesis by (simp add: init_fifo_def)
qed

end
