(* ===== verification/Paging.thy ===== *)
theory Paging
  imports KState
begin

text \<open>
  Page tables (\<^verbatim>\<open>core/mm/memory.c\<close>: \<^verbatim>\<open>PDE_IDX\<close>, \<^verbatim>\<open>PTE_IDX\<close>, \<^verbatim>\<open>pte_ptr\<close>, \<^verbatim>\<open>pde_ptr\<close>,
  \<^verbatim>\<open>get_free_page\<close>, \<^verbatim>\<open>put_page\<close>, \<^verbatim>\<open>put_page_and_flush\<close>, \<^verbatim>\<open>remove_page\<close>,
  \<^verbatim>\<open>addr_v2p\<close>, \<^verbatim>\<open>virtual_addr_to_physical_addr\<close>, \<^verbatim>\<open>flush_cr3\<close>, \<^verbatim>\<open>invalidate\<close>, and
  \<^verbatim>\<open>page_dir_activate\<close> of \<^verbatim>\<open>core/thread/process.c\<close>).

  The kernel edits the page tables through virtual addresses in the window that the last directory
  entry maps back onto the tables themselves. So the model has physical memory as 32-bit words, the
  register \<open>cr3\<close> and the two-level walk of the i386 (\<open>translate\<close>); a dereference in the code is a
  read or write through that walk, and a page fault is \<open>None\<close> (no handler maps a page in this
  kernel). The translation cache is not part of the model.
\<close>

section \<open>The processor's page walk\<close>

definition PDE_IDX :: "u32 \<Rightarrow> u32" where
  "PDE_IDX a = drop_bit 22 (a AND 0xffc00000)"

definition PTE_IDX :: "u32 \<Rightarrow> u32" where
  "PTE_IDX a = drop_bit 12 (a AND 0x003ff000)"

definition frame :: "u32 \<Rightarrow> u32" where
  "frame e = e AND 0xfffff000"

definition offset :: "u32 \<Rightarrow> u32" where
  "offset a = a AND 0xfff"

definition present :: "u32 \<Rightarrow> bool" where
  "present e \<longleftrightarrow> e AND 1 \<noteq> 0"

definition pde_at :: "kstate \<Rightarrow> u32 \<Rightarrow> u32" where
  "pde_at s v = pmem s (frame (cr3 s) + PDE_IDX v * 4)"

definition pte_phys :: "kstate \<Rightarrow> u32 \<Rightarrow> u32" where
  "pte_phys s v = frame (pde_at s v) + PTE_IDX v * 4"

definition translate :: "kstate \<Rightarrow> u32 \<Rightarrow> u32 option" where
  "translate s v =
     (if present (pde_at s v) \<and> present (pmem s (pte_phys s v))
      then Some (frame (pmem s (pte_phys s v)) + offset v) else None)"

definition vread :: "u32 \<Rightarrow> kstate \<Rightarrow> u32 option" where
  "vread v s = map_option (pmem s) (translate s v)"

definition vwrite :: "u32 \<Rightarrow> u32 \<Rightarrow> kstate \<Rightarrow> kstate option" where
  "vwrite v x s = map_option (\<lambda>p. s\<lparr>pmem := (pmem s)(p := x)\<rparr>) (translate s v)"

text \<open>\<^verbatim>\<open>memset (v, 0, 4 * n)\<close> on aligned memory, word by word.\<close>

primrec vzero :: "nat \<Rightarrow> u32 \<Rightarrow> kstate \<Rightarrow> kstate option" where
  "vzero 0 v s = Some s"
| "vzero (Suc n) v s = do { s \<leftarrow> vwrite v 0 s; vzero n (v + 4) s }"

section \<open>Operations of memory.c\<close>

definition pte_ptr :: "u32 \<Rightarrow> u32" where
  "pte_ptr vaddr = 0xffc00000 + drop_bit 10 (vaddr AND 0xffc00000) + PTE_IDX vaddr * 4"

definition pde_ptr :: "u32 \<Rightarrow> u32" where
  "pde_ptr vaddr = 0xfffff000 + PDE_IDX vaddr * 4"

definition addr_v2p :: "u32 \<Rightarrow> kstate \<Rightarrow> u32 option" where
  "addr_v2p vaddr s = do {
     pte \<leftarrow> vread (pte_ptr vaddr) s;
     Some ((pte AND 0xfffff000) + (vaddr AND 0xfff))
   }"

definition flush_cr3 :: "addr \<Rightarrow> kstate \<Rightarrow> kstate option" where
  "flush_cr3 dir s = do {
     pa \<leftarrow> (if dir \<noteq> 0 then addr_v2p dir s else Some 0x100000);
     Some (s\<lparr>cr3 := pa\<rparr>)
   }"

definition invalidate :: "kstate \<Rightarrow> kstate option" where
  "invalidate s = do {
     let thread = running_thread s;
     pa \<leftarrow> (if pgdir (tcbs s thread) \<noteq> 0 then addr_v2p (pgdir (tcbs s thread)) s else Some 0x100000);
     Some (s\<lparr>cr3 := pa\<rparr>)
   }"

definition page_dir_activate :: "addr \<Rightarrow> kstate \<Rightarrow> kstate option" where
  "page_dir_activate thread s = do {
     pa \<leftarrow> (if pgdir (tcbs s thread) \<noteq> 0 then addr_v2p (pgdir (tcbs s thread)) s else Some 0x100000);
     Some (s\<lparr>cr3 := pa\<rparr>)
   }"

definition get_free_page :: "pool \<Rightarrow> (u32 \<times> pool) option" where
  "get_free_page mpool = do {
     start_pos \<leftarrow> find_block_bitmap (pool_bitmap mpool) 1;
     if start_pos = -1 then Some (0, mpool)
     else do {
       b \<leftarrow> set_value_bitmap (pool_bitmap mpool) start_pos 1;
       Some (start_pos * 4096 + phy_addr_start mpool, mpool\<lparr>pool_bitmap := b\<rparr>)
     }
   }"

definition virtual_addr_to_physical_addr :: "u32 \<Rightarrow> kstate \<Rightarrow> u32 option" where
  "virtual_addr_to_physical_addr v s = do {
     pde \<leftarrow> vread (pde_ptr v) s;
     if pde AND 1 \<noteq> 0 then do {
       pte \<leftarrow> vread (pte_ptr v) s;
       if pte AND 1 \<noteq> 0 then Some (pte AND 0xfffff000) else PANIC
     } else PANIC
   }"

text \<open>
  The branch of \<^verbatim>\<open>put_page\<close> and \<^verbatim>\<open>put_page_and_flush\<close> for a missing directory entry: a
  frame of the kernel pool becomes the page table. \<^verbatim>\<open>get_free_page\<close> may return \<^verbatim>\<open>NULL\<close>; the
  code uses the result without a test.
\<close>

definition create_pde :: "u32 \<Rightarrow> u32 \<Rightarrow> kstate \<Rightarrow> kstate option" where
  "create_pde vaddress phyaddress s = do {
     (pde_phyaddr, kp) \<leftarrow> get_free_page (kernel_pool s);
     s \<leftarrow> vwrite (pde_ptr vaddress) (pde_phyaddr OR 4 OR 2 OR 1) (s\<lparr>kernel_pool := kp\<rparr>);
     s \<leftarrow> vzero 1024 (pte_ptr vaddress AND 0xfffff000) s;
     e \<leftarrow> vread (pte_ptr vaddress) s;
     ASSERT (e AND 1 = 0);
     vwrite (pte_ptr vaddress) (phyaddress OR 4 OR 2 OR 1) s
   }"

definition put_page :: "u32 \<Rightarrow> u32 \<Rightarrow> kstate \<Rightarrow> kstate option" where
  "put_page vaddress phyaddress s = do {
     pde \<leftarrow> vread (pde_ptr vaddress) s;
     if pde AND 1 \<noteq> 0 then do {
       _ \<leftarrow> vread (pte_ptr vaddress) s;
       s \<leftarrow> vwrite (pte_ptr vaddress) (phyaddress OR 4 OR 2 OR 1) s;
       invalidate s
     } else create_pde vaddress phyaddress s
   }"

definition put_page_and_flush :: "u32 \<Rightarrow> u32 \<Rightarrow> addr \<Rightarrow> kstate \<Rightarrow> kstate option" where
  "put_page_and_flush vaddress phyaddress dir s = do {
     pde \<leftarrow> vread (pde_ptr vaddress) s;
     if pde AND 1 \<noteq> 0 then do {
       _ \<leftarrow> vread (pte_ptr vaddress) s;
       s \<leftarrow> vwrite (pte_ptr vaddress) (phyaddress OR 4 OR 2 OR 1) s;
       flush_cr3 dir s
     } else create_pde vaddress phyaddress s
   }"

definition remove_page :: "u32 \<Rightarrow> kstate \<Rightarrow> kstate option" where
  "remove_page vaddress s = do {
     pte \<leftarrow> vread (pte_ptr vaddress) s;
     vwrite (pte_ptr vaddress) (pte AND NOT 1) s
   }"

section \<open>Address arithmetic\<close>

lemma unat_PDE_IDX: "unat (PDE_IDX v) = unat v div 2 ^ 22"
proof -
  have "drop_bit 22 (v AND 0xffc00000) = drop_bit 22 v"
    unfolding mask_page_dir by (rule bit_word_eqI) (auto simp: bit_simps dest: bit_imp_le_length)
  then show ?thesis by (simp only: PDE_IDX_def unat_drop_bit_32)
qed

lemma unat_PTE_IDX: "unat (PTE_IDX v) = unat v div 2 ^ 12 mod 2 ^ 10"
proof -
  have "drop_bit 12 (v AND 0x003ff000) = take_bit 10 (drop_bit 12 v)"
    unfolding mask_page_table by (rule bit_word_eqI) (auto simp: bit_simps dest: bit_imp_le_length)
  then show ?thesis by (simp only: PTE_IDX_def unat_drop_bit_32 unat_take_bit_32)
qed

lemma unat_table_base: "unat (drop_bit 10 ((v :: u32) AND 0xffc00000)) = unat v div 2 ^ 22 * 2 ^ 12"
proof -
  have 1: "drop_bit 10 (v AND 0xffc00000) = push_bit 12 (drop_bit 22 v)"
    unfolding mask_page_dir by (rule bit_word_eqI) (auto simp: bit_simps dest: bit_imp_le_length)
  have "unat v div 2 ^ 22 * 2 ^ 12 < 2 ^ 32" using unat_less_32 [of v] by simp
  then show ?thesis using unat_push_bit_32 [of "drop_bit 22 v" 12] by (simp only: 1 unat_drop_bit_32)
qed

lemma idx_less: "unat (PDE_IDX v) < 1024" "unat (PTE_IDX v) < 1024"
  using unat_less_32 [of v] by (simp_all add: unat_PDE_IDX unat_PTE_IDX div_less_dividend)

lemma unat_idx4:
  "unat (PDE_IDX v * 4) = 4 * unat (PDE_IDX v)" "unat (PTE_IDX v * 4) = 4 * unat (PTE_IDX v)"
  using idx_less [of v] by (simp_all add: unat_mult_less)

lemma unat_pde_ptr: "unat (pde_ptr v) = 4294963200 + 4 * unat (PDE_IDX v)"
  unfolding pde_ptr_def using idx_less(1) [of v] by (subst unat_add_less) (simp_all add: unat_idx4)

lemma unat_pte_ptr:
  "unat (pte_ptr v) = 4290772992 + 4096 * unat (PDE_IDX v) + 4 * unat (PTE_IDX v)"
proof -
  have "unat (0xffc00000 + drop_bit 10 (v AND 0xffc00000)) = 4290772992 + 4096 * unat (PDE_IDX v)"
    using idx_less(1) [of v] unat_table_base [of v] by (subst unat_add_less) (simp_all add: unat_PDE_IDX)
  then show ?thesis
    unfolding pte_ptr_def using idx_less [of v] by (subst unat_add_less) (simp_all add: unat_idx4)
qed

lemma unat_page_offset: "unat (offset v) = unat v mod 4096" "unat (frame v) = unat v div 4096 * 4096"
  by (simp_all only: offset_def frame_def unat_offset unat_frame)

lemma page_eqI: "unat a = unat b \<Longrightarrow> (a :: u32) = b"
  by (simp add: word_eq_unat32)

lemma div_mod_page:
  fixes q r :: nat
  assumes "r < 4096"
  shows "(4096 * q + r) div 4096 = q" and "(4096 * q + r) mod 4096 = r"
  using assms by simp_all

text \<open>The window: the last directory entry maps the directory and the page tables.\<close>

lemma window_fields:
  assumes u: "unat a = 4096 * (1047552 + q) + r" and q: "q < 1024" and r: "r < 4096"
  shows "PDE_IDX a = 1023" and "unat (PTE_IDX a) = q" and "unat (offset a) = r"
proof -
  have d: "unat a div 4096 = 1047552 + q" "unat a mod 4096 = r"
    unfolding u by (rule div_mod_page [OF r])+
  have "unat a div 4194304 = unat a div 4096 div 1024"
    using div_mult2_eq [of "unat a" 4096 1024] by simp
  also have "\<dots> = 1023" unfolding d using q by simp
  finally show "PDE_IDX a = 1023" by (intro page_eqI) (simp add: unat_PDE_IDX)
  have "(1047552 + q) mod 1024 = q"
    using mod_mult_self1 [of q 1023 1024] q by (simp add: add.commute)
  then show "unat (PTE_IDX a) = q" by (simp add: unat_PTE_IDX d)
  show "unat (offset a) = r" by (simp add: unat_page_offset d)
qed

lemma pde_ptr_fields:
  "PDE_IDX (pde_ptr v) = 1023" "PTE_IDX (pde_ptr v) = 1023" "offset (pde_ptr v) = PDE_IDX v * 4"
proof -
  have "unat (pde_ptr v) = 4096 * (1047552 + 1023) + 4 * unat (PDE_IDX v)" by (simp add: unat_pde_ptr)
  note f = window_fields [OF this] idx_less [of v]
  show "PDE_IDX (pde_ptr v) = 1023" "PTE_IDX (pde_ptr v) = 1023" "offset (pde_ptr v) = PDE_IDX v * 4"
    using f by (auto intro!: page_eqI simp: unat_idx4)
qed

lemma pte_ptr_fields:
  "PDE_IDX (pte_ptr v) = 1023" "PTE_IDX (pte_ptr v) = PDE_IDX v" "offset (pte_ptr v) = PTE_IDX v * 4"
proof -
  have "unat (pte_ptr v) = 4096 * (1047552 + unat (PDE_IDX v)) + 4 * unat (PTE_IDX v)"
    by (simp add: unat_pte_ptr)
  note f = window_fields [OF this] idx_less [of v]
  show "PDE_IDX (pte_ptr v) = 1023" "PTE_IDX (pte_ptr v) = PDE_IDX v" "offset (pte_ptr v) = PTE_IDX v * 4"
    using f by (auto intro!: page_eqI simp: unat_idx4)
qed

lemma unat_table_window:
  assumes "k < 1024"
  shows "unat ((pte_ptr v AND 0xfffff000) + of_nat (4 * k)) = 4096 * (1047552 + unat (PDE_IDX v)) + 4 * k"
proof -
  have "unat (pte_ptr v) = 4096 * (1047552 + unat (PDE_IDX v)) + 4 * unat (PTE_IDX v)"
    by (simp add: unat_pte_ptr)
  then have "unat (pte_ptr v) div 4096 = 1047552 + unat (PDE_IDX v)"
    using div_mod_page(1) [of "4 * unat (PTE_IDX v)"] idx_less [of v] by simp
  then have "unat (pte_ptr v AND 0xfffff000) = 4096 * (1047552 + unat (PDE_IDX v))"
    by (simp add: unat_frame)
  moreover have "unat (of_nat (4 * k) :: u32) = 4 * k" using assms by (intro unat_of_nat_32) simp
  ultimately show ?thesis using assms idx_less [of v] by (subst unat_add_less) simp_all
qed

text \<open>A frame and an offset determine an address.\<close>

lemma unat_frame_add:
  assumes "unat x < 4096"
  shows "unat (frame a + x) = unat a div 4096 * 4096 + unat x"
proof -
  have "unat a div 4096 < 1048576" using unat_less_32 [of a] by (simp add: div_less_iff_less_mult)
  with assms have "unat a div 4096 * 4096 + unat x < 2 ^ 32" by simp
  then show ?thesis by (subst unat_add_less) (simp_all add: unat_page_offset)
qed

lemma frame_add [simp]:
  assumes "unat x < 4096"
  shows "frame (frame a + x) = frame a" and "offset (frame a + x) = x"
  using unat_frame_add [OF assms, of a] assms
  by (auto intro!: page_eqI simp: unat_page_offset)

lemma frame_add_eq:
  assumes "unat x < 4096" and "unat y < 4096"
  shows "frame a + x = frame b + y \<longleftrightarrow> frame a = frame b \<and> x = y"
  using frame_add [OF assms(1), of a] frame_add [OF assms(2), of b] by metis

lemma offset_less [simp]: "unat (offset v) < 4096"
  by (simp add: unat_page_offset)

lemma idx4_less [simp]: "unat (PDE_IDX v * 4) < 4096" "unat (PTE_IDX v * 4) < 4096"
  using idx_less [of v] by (simp_all add: unat_idx4)

lemma idx4_eq [simp]:
  "PDE_IDX v * 4 = PDE_IDX w * 4 \<longleftrightarrow> PDE_IDX v = PDE_IDX w"
  "PTE_IDX v * 4 = PTE_IDX w * 4 \<longleftrightarrow> PTE_IDX v = PTE_IDX w"
  "PTE_IDX v * 4 = PDE_IDX w * 4 \<longleftrightarrow> PTE_IDX v = PDE_IDX w"
  "PDE_IDX v * 4 = 4092 \<longleftrightarrow> PDE_IDX v = 1023"
  by (simp_all add: word_eq_unat32 unat_idx4)

lemma frame_frame [simp]: "frame (frame e) = frame e"
  using frame_add(1) [of 0 e] by simp

lemma entry_flags [simp]:
  "frame (p OR 7) = frame p" "present (p OR 7)" "\<not> present 0"
proof -
  have "(7 :: u32) AND 0xfffff000 = 0" by simp
  then show "frame (p OR 7) = frame p"
    unfolding frame_def by (simp add: bit.conj_disj_distrib2)
  have "(7 :: u32) AND 1 = 1" by simp
  then have "(p OR 7) AND 1 = (p AND 1) OR 1" by (simp add: bit.conj_disj_distrib2)
  moreover have "bit ((p AND 1) OR 1) 0" by (simp add: bit_simps)
  ultimately have "(p OR 7) AND 1 \<noteq> 0" by (metis bit_0_eq bot_apply bot_bool_def)
  then show "present (p OR 7)" by (simp add: present_def)
qed (simp add: present_def)

lemma present_clear [simp]: "\<not> present (e AND NOT 1)"
proof -
  have "(e AND NOT 1) AND 1 = 0" by (rule bit_word_eqI) (auto simp: bit_simps)
  then show ?thesis by (simp add: present_def)
qed

section \<open>Reading the tables through the window\<close>

definition self_map :: "kstate \<Rightarrow> bool" where
  "self_map s \<longleftrightarrow> present (pmem s (frame (cr3 s) + 4092)) \<and>
     frame (pmem s (frame (cr3 s) + 4092)) = frame (cr3 s)"

lemma translate_window:
  assumes "self_map s" and "PDE_IDX a = 1023"
  shows "translate s a = (let e = pmem s (frame (cr3 s) + PTE_IDX a * 4) in
    if present e then Some (frame e + offset a) else None)"
  using assms by (simp add: translate_def self_map_def pte_phys_def pde_at_def Let_def)

lemma translate_pde_ptr:
  "self_map s \<Longrightarrow> translate s (pde_ptr v) = Some (frame (cr3 s) + PDE_IDX v * 4)"
  by (simp add: translate_window pde_ptr_fields Let_def) (simp add: self_map_def)

lemma translate_pte_ptr:
  "self_map s \<Longrightarrow> translate s (pte_ptr v) = (if present (pde_at s v) then Some (pte_phys s v) else None)"
  by (simp add: translate_window pte_ptr_fields Let_def pde_at_def pte_phys_def)

lemma vread_pde_ptr [simp]: "self_map s \<Longrightarrow> vread (pde_ptr v) s = Some (pde_at s v)"
  by (simp add: vread_def translate_pde_ptr pde_at_def)

lemma vread_pte_ptr [simp]:
  "self_map s \<Longrightarrow> vread (pte_ptr v) s =
     (if present (pde_at s v) then Some (pmem s (pte_phys s v)) else None)"
  by (simp add: vread_def translate_pte_ptr)

lemma vwrite_pte_ptr [simp]:
  "self_map s \<Longrightarrow> vwrite (pte_ptr v) x s =
     (if present (pde_at s v) then Some (s\<lparr>pmem := (pmem s)(pte_phys s v := x)\<rparr>) else None)"
  by (simp add: vwrite_def translate_pte_ptr)

lemma vwrite_pde_ptr [simp]:
  "self_map s \<Longrightarrow> vwrite (pde_ptr v) x s =
     Some (s\<lparr>pmem := (pmem s)(frame (cr3 s) + PDE_IDX v * 4 := x)\<rparr>)"
  by (simp add: vwrite_def translate_pde_ptr)

text \<open>The kernel's translation agrees with the processor's on every mapped address.\<close>

lemma addr_v2p_translate:
  "self_map s \<Longrightarrow> translate s v = Some p \<Longrightarrow> addr_v2p v s = Some p"
  by (auto simp: addr_v2p_def translate_def frame_def offset_def split: if_splits)

lemma virtual_addr_to_physical_addr_eq:
  "self_map s \<Longrightarrow> virtual_addr_to_physical_addr v s = map_option frame (translate s v)"
  by (auto simp: virtual_addr_to_physical_addr_def translate_def present_def [symmetric]
      frame_def [symmetric])

section \<open>Frames of a pool\<close>

definition page_addr :: "pool \<Rightarrow> nat \<Rightarrow> u32" where
  "page_addr p i = phy_addr_start p + of_nat i * 4096"

definition pool_wf :: "pool \<Rightarrow> bool" where
  "pool_wf p \<longleftrightarrow> wf_bitmap (pool_bitmap p) \<and> frame (phy_addr_start p) = phy_addr_start p \<and>
     unat (phy_addr_start p) + 4096 * nbits (pool_bitmap p) \<le> 2 ^ 32"

abbreviation page_used :: "pool \<Rightarrow> nat \<Rightarrow> bool" where
  "page_used p \<equiv> is_set (pool_bitmap p)"

abbreviation pages :: "pool \<Rightarrow> nat" where
  "pages p \<equiv> nbits (pool_bitmap p)"

text \<open>Two states of a pool that differ in the marks only.\<close>

definition same_pool :: "pool \<Rightarrow> pool \<Rightarrow> bool" where
  "same_pool p q \<longleftrightarrow> pages q = pages p \<and> phy_addr_start q = phy_addr_start p \<and>
     pool_lock q = pool_lock p \<and> pool_size q = pool_size p"

lemma unat_page_addr:
  assumes "pool_wf p" and "i < pages p"
  shows "unat (page_addr p i) = unat (phy_addr_start p) + 4096 * i"
proof -
  have "4096 * i < 2 ^ 32" "unat (phy_addr_start p) + 4096 * i < 2 ^ 32"
    using assms by (auto simp: pool_wf_def)
  moreover have "unat (of_nat i * 4096 :: u32) = 4096 * i"
    using \<open>4096 * i < 2 ^ 32\<close> unat_of_nat_32 [of "4096 * i"] by (simp add: mult.commute)
  ultimately show ?thesis unfolding page_addr_def by (subst unat_add_less) simp_all
qed

lemma frame_page_addr:
  assumes "pool_wf p" and "i < pages p"
  shows "frame (page_addr p i) = page_addr p i"
proof -
  have "unat (frame (phy_addr_start p)) = unat (phy_addr_start p)" using assms by (simp add: pool_wf_def)
  then have "unat (phy_addr_start p) = 4096 * (unat (phy_addr_start p) div 4096)"
    by (simp add: unat_page_offset)
  then have "unat (page_addr p i) = 4096 * (unat (phy_addr_start p) div 4096 + i)"
    by (simp add: unat_page_addr [OF assms])
  then show ?thesis by (intro page_eqI) (simp add: unat_page_offset)
qed

lemma page_addr_inject:
  "pool_wf p \<Longrightarrow> i < pages p \<Longrightarrow> j < pages p \<Longrightarrow> page_addr p i = page_addr p j \<longleftrightarrow> i = j"
  by (simp add: word_eq_unat32 unat_page_addr)

lemma get_free_page_full:
  assumes "pool_wf p" and "\<forall>i < pages p. page_used p i"
  shows "get_free_page p = Some (0, p)"
proof -
  have "first_fit (pool_bitmap p) 1 = None"
    using assms(2) by (auto simp: first_fit_def free_run_def)
  then show ?thesis
    using find_block_bitmap_spec [of "pool_bitmap p" 1] assms(1)
    by (simp add: get_free_page_def pool_wf_def u32_of_index_def)
qed

lemma get_free_page_found:
  assumes wf: "pool_wf p" and "i < pages p" and "\<not> page_used p i"
  shows "\<exists>j q. get_free_page p = Some (page_addr p j, q) \<and> j < pages p \<and> \<not> page_used p j \<and>
    pool_wf q \<and> same_pool p q \<and> page_used q = (page_used p)(j := True)"
proof -
  let ?b = "pool_bitmap p"
  have wfb: "wf_bitmap ?b" using wf by (simp add: pool_wf_def)
  have "free_run ?b i 1" using assms by (simp add: free_run_def)
  then obtain j where j: "first_fit ?b 1 = Some j" unfolding first_fit_def by (metis (full_types))
  then have fr: "free_run ?b j 1" by (rule first_fit_SomeD)
  then have lt: "j < nbits ?b" and nu: "\<not> is_set ?b j" by (auto simp: free_run_def)
  have "nbits ?b < 2 ^ 32" "4096 * nbits ?b \<le> 2 ^ 32" using wf by (auto simp: pool_wf_def wf_bitmap_def)
  with lt have jb: "j < 2 ^ 32 - 1" by linarith
  then have ne: "(of_nat j :: u32) \<noteq> -1" and un: "unat (of_nat j :: u32) = j"
    by (simp_all add: u32_of_index_neq unat_of_nat_32)
  have find: "find_block_bitmap ?b 1 = Some (of_nat j)"
    using find_block_bitmap_spec [OF wfb, of 1] j by (simp add: u32_of_index_def)
  from set_value_bitmap_spec [OF wfb, of "of_nat j" 1] un lt obtain b' where
    b': "set_value_bitmap ?b (of_nat j) 1 = Some b'" "map_bytes_length b' = map_bytes_length ?b"
    "\<forall>k. is_set b' k = (if k = j then True else is_set ?b k)" by auto
  then have "nbits b' = nbits ?b" "is_set b' = (is_set ?b)(j := True)" by (auto simp: nbits_def)
  then show ?thesis
    using find b'(1) ne lt nu wf
    by (auto simp: get_free_page_def page_addr_def add.commute pool_wf_def same_pool_def wf_bitmap_def
        intro!: exI [of _ j])
qed

section \<open>Mapping and unmapping a page\<close>

definition pt_wf :: "kstate \<Rightarrow> bool" where
  "pt_wf s \<longleftrightarrow> self_map s \<and>
     (\<forall>v. PDE_IDX v \<noteq> 1023 \<and> present (pde_at s v) \<longrightarrow> frame (pde_at s v) \<noteq> frame (cr3 s))"

text \<open>
  Two addresses share a page table entry when they lie in the same page, or when their directory
  entries name the same page table (the boot loader installs one table for the first 4 MB at 0 and
  at \<open>0xc0000000\<close>).
\<close>

definition same_pte :: "kstate \<Rightarrow> u32 \<Rightarrow> u32 \<Rightarrow> bool" where
  "same_pte s v w \<longleftrightarrow> PDE_IDX v = PDE_IDX w \<and> PTE_IDX v = PTE_IDX w \<or>
     present (pde_at s v) \<and> present (pde_at s w) \<and> pte_phys s v = pte_phys s w"

lemma pt_wfD: "pt_wf s \<Longrightarrow> self_map s"
  by (simp add: pt_wf_def)

lemma pte_slot_not_in_dir:
  assumes "pt_wf s" and "PDE_IDX v \<noteq> 1023" and "present (pde_at s v)" and "unat x < 4096"
  shows "pte_phys s v \<noteq> frame (cr3 s) + x"
  using assms frame_add_eq [of "PTE_IDX v * 4" x "pde_at s v" "cr3 s"]
  by (auto simp: pt_wf_def pte_phys_def)

text \<open>Writing one page table entry: only the addresses behind that entry are affected.\<close>

lemma write_pte:
  assumes wf: "pt_wf s" and v: "PDE_IDX v \<noteq> 1023" "present (pde_at s v)"
    and s': "s' = s\<lparr>pmem := (pmem s)(pte_phys s v := e)\<rparr>"
  shows "pde_at s' w = pde_at s w" and "pte_phys s' w = pte_phys s w" and "pt_wf s'"
    and "translate s' v = (if present e then Some (frame e + offset v) else None)"
    and "\<not> same_pte s v w \<Longrightarrow> translate s' w = translate s w"
proof -
  have pde: "pde_at s' u = pde_at s u" for u
    using pte_slot_not_in_dir [OF wf v, of "PDE_IDX u * 4"] by (simp add: s' pde_at_def)
  then have pte: "pte_phys s' u = pte_phys s u" for u by (simp add: pte_phys_def)
  have "pmem s' (frame (cr3 s) + 4092) = pmem s (frame (cr3 s) + 4092)"
    using pte_slot_not_in_dir [OF wf v, of 4092] by (simp add: s')
  with wf show "pt_wf s'" using pde by (auto simp: pt_wf_def self_map_def s')
  show "pde_at s' w = pde_at s w" "pte_phys s' w = pte_phys s w" by (rule pde pte)+
  show "translate s' v = (if present e then Some (frame e + offset v) else None)"
    using v(2) by (simp add: translate_def pde pte) (simp add: s')
  show "translate s' w = translate s w" if "\<not> same_pte s v w"
  proof (cases "present (pde_at s w)")
    case True
    with that v have "pte_phys s w \<noteq> pte_phys s v" by (auto simp: same_pte_def)
    then show ?thesis unfolding translate_def pde pte by (simp add: s')
  next
    case False
    then show ?thesis by (simp add: translate_def pde)
  qed
qed

definition zero_words :: "u32 \<Rightarrow> nat \<Rightarrow> nat \<Rightarrow> (u32 \<Rightarrow> u32) \<Rightarrow> u32 \<Rightarrow> u32" where
  "zero_words F k n m = (\<lambda>a. if a \<in> (\<lambda>j. F + of_nat (4 * j)) ` {k..<k + n} then 0 else m a)"

lemma zero_words_0: "zero_words F k 0 m = m"
  by (simp add: zero_words_def)

lemma zero_words_Suc:
  "zero_words F k (Suc n) m = zero_words F (Suc k) n (m(F + of_nat (4 * k) := 0))"
proof -
  have "{k..<k + Suc n} = insert k {Suc k..<Suc k + n}" by auto
  then show ?thesis unfolding zero_words_def by (simp only: image_insert) (auto simp: fun_eq_iff)
qed

lemma vzero_table:
  assumes "self_map s" and "present (pde_at s v)" and "frame (pde_at s v) \<noteq> frame (cr3 s)"
    and "k + n \<le> 1024"
  shows "vzero n ((pte_ptr v AND 0xfffff000) + of_nat (4 * k)) s =
    Some (s\<lparr>pmem := zero_words (frame (pde_at s v)) k n (pmem s)\<rparr>)"
  using assms
proof (induction n arbitrary: k s)
  case 0
  then show ?case by (simp add: zero_words_0)
next
  case (Suc n)
  let ?a = "(pte_ptr v AND 0xfffff000) + of_nat (4 * k)" and ?F = "frame (pde_at s v)"
  have k: "k < 1024" using Suc.prems by simp
  note f = window_fields [OF unat_table_window [OF k, of v], OF idx_less(1)]
  have "PTE_IDX ?a = PDE_IDX v" using f(2) k by (intro page_eqI) simp
  moreover have off: "offset ?a = of_nat (4 * k)" using f(3) k
    by (intro page_eqI) (simp add: unat_of_nat_32 [of "4 * k"] del: of_nat_mult)
  moreover have "PDE_IDX ?a = 1023" using f(1) k by simp
  ultimately have tr: "translate s ?a = Some (?F + of_nat (4 * k))"
    using Suc.prems by (simp add: translate_window Let_def pde_at_def del: of_nat_mult)
  let ?s = "s\<lparr>pmem := (pmem s)(?F + of_nat (4 * k) := 0)\<rparr>"
  have un: "unat (of_nat (4 * k) :: u32) < 4096" using k unat_of_nat_32 [of "4 * k"] by simp
  have dir: "?F + of_nat (4 * k) \<noteq> frame (cr3 s) + x" if "unat x < 4096" for x
    using frame_add_eq [OF un that, of "pde_at s v" "cr3 s"] Suc.prems(3) by simp
  have pde: "pde_at ?s v = pde_at s v" using dir [of "PDE_IDX v * 4"] by (simp add: pde_at_def)
  have "self_map ?s" using dir [of 4092] Suc.prems(1) by (simp add: self_map_def)
  then have "vzero n ((pte_ptr v AND 0xfffff000) + of_nat (4 * Suc k)) ?s =
      Some (?s\<lparr>pmem := zero_words ?F (Suc k) n (pmem ?s)\<rparr>)"
    using Suc.IH [of ?s "Suc k"] Suc.prems pde by (simp add: fun_upd_def del: of_nat_mult)
  moreover have "?a + 4 = (pte_ptr v AND 0xfffff000) + of_nat (4 * Suc k)" by simp
  ultimately show ?case using tr by (simp add: vwrite_def zero_words_Suc ac_simps del: of_nat_mult)
qed

text \<open>
  The state behind \<^verbatim>\<open>invalidate\<close>: the directory in use is the one of the running thread, and
  reading its address again gives the same value.
\<close>

definition dir_current :: "kstate \<Rightarrow> bool" where
  "dir_current s \<longleftrightarrow> (let d = pgdir (tcbs s (running s)) in
     if d = 0 then cr3 s = 0x100000 else translate s d = Some (cr3 s))"

text \<open>The frames that the kernel pool may hand out are not page tables.\<close>

definition table_frame :: "kstate \<Rightarrow> u32 \<Rightarrow> bool" where
  "table_frame s f \<longleftrightarrow> f = frame (cr3 s) \<or>
     (\<exists>v. PDE_IDX v \<noteq> 1023 \<and> present (pde_at s v) \<and> frame (pde_at s v) = f)"

definition tables_reserved :: "kstate \<Rightarrow> bool" where
  "tables_reserved s \<longleftrightarrow> pool_wf (kernel_pool s) \<and>
     (\<forall>i < pages (kernel_pool s). \<not> page_used (kernel_pool s) i \<longrightarrow>
        \<not> table_frame s (page_addr (kernel_pool s) i))"

lemma invalidate_current:
  assumes "pt_wf s" and "dir_current s"
  shows "invalidate s = Some s"
proof (cases "pgdir (tcbs s (running s)) = 0")
  case True
  then show ?thesis using assms(2) by (simp add: invalidate_def dir_current_def running_thread_def)
next
  case False
  then have "translate s (pgdir (tcbs s (running s))) = Some (cr3 s)"
    using assms(2) by (simp add: dir_current_def)
  then show ?thesis using False addr_v2p_translate [OF pt_wfD [OF assms(1)]]
    by (simp add: invalidate_def running_thread_def)
qed

lemma put_page_present:
  assumes wf: "pt_wf s" and cur: "dir_current s" and v: "PDE_IDX v \<noteq> 1023" "present (pde_at s v)"
    and d: "pgdir (tcbs s (running s)) \<noteq> 0 \<longrightarrow> \<not> same_pte s v (pgdir (tcbs s (running s)))"
  shows "put_page v p s = Some (s\<lparr>pmem := (pmem s)(pte_phys s v := p OR 4 OR 2 OR 1)\<rparr>)"
proof -
  let ?s = "s\<lparr>pmem := (pmem s)(pte_phys s v := p OR 4 OR 2 OR 1)\<rparr>"
  note w = write_pte [OF wf v, of ?s "p OR 4 OR 2 OR 1", OF refl]
  have "dir_current ?s" using cur d w(5) by (auto simp: dir_current_def Let_def)
  with w(3) have "invalidate ?s = Some ?s" by (rule invalidate_current)
  then show ?thesis
    using v pt_wfD [OF wf] by (simp add: put_page_def present_def [symmetric])
qed

text \<open>Installing a new page table.\<close>

lemma install_table:
  assumes wf: "pt_wf s" and v: "PDE_IDX v \<noteq> 1023" "\<not> present (pde_at s v)"
    and f: "\<not> table_frame s f" "frame f = f"
    and s': "s' = s\<lparr>pmem := zero_words f 0 1024
      ((pmem s)(frame (cr3 s) + PDE_IDX v * 4 := f OR 4 OR 2 OR 1))\<rparr>"
  shows "pt_wf s'" and "present (pde_at s' v)" and "frame (pde_at s' v) = f" and "translate s' v = None"
    and "PDE_IDX w \<noteq> PDE_IDX v \<Longrightarrow> pde_at s' w = pde_at s w"
    and "PDE_IDX w \<noteq> 1023 \<Longrightarrow> translate s' w = translate s w"
proof -
  let ?D = "frame (cr3 s)"
  have nf: "f \<noteq> ?D" using f(1) by (auto simp: table_frame_def)
  have word: "unat (of_nat (4 * j) :: u32) < 4096" if "j < 1024" for j
    using that unat_of_nat_32 [of "4 * j"] by (simp del: of_nat_mult)
  have keep: "pmem s' (frame e + x) = ((pmem s)(?D + PDE_IDX v * 4 := f OR 4 OR 2 OR 1)) (frame e + x)"
    if "unat x < 4096" "frame e \<noteq> f" for e x
  proof -
    have "frame e + x \<noteq> f + of_nat (4 * j)" if "j < 1024" for j
      using frame_add_eq [OF \<open>unat x < 4096\<close> word [OF that], of e f] \<open>frame e \<noteq> f\<close> f(2)
      by (simp del: of_nat_mult)
    then have "frame e + x \<notin> (\<lambda>j. f + of_nat (4 * j)) ` {0..<0 + 1024}"
      by (metis (no_types, lifting) add_0 atLeastLessThan_iff imageE)
    then show ?thesis unfolding s' zero_words_def by (simp del: of_nat_mult)
  qed
  have pde: "pde_at s' w = (if PDE_IDX w = PDE_IDX v then f OR 4 OR 2 OR 1 else pde_at s w)" for w
    using keep [of "PDE_IDX w * 4" "cr3 s"] nf by (auto simp: pde_at_def s')
  then show "present (pde_at s' v)" "frame (pde_at s' v) = f"
    and "PDE_IDX w \<noteq> PDE_IDX v \<Longrightarrow> pde_at s' w = pde_at s w" using f(2) by simp_all
  have last: "pmem s' (?D + 4092) = pmem s (?D + 4092)"
    using keep [of 4092 "cr3 s"] nf v(1) frame_add_eq [of "PDE_IDX v * 4" 4092 "cr3 s" "cr3 s"]
    by simp
  have cr: "cr3 s' = cr3 s" by (simp add: s')
  show "pt_wf s'"
    using wf last nf f(2) by (auto simp: pt_wf_def self_map_def cr pde)
  have zero: "pmem s' (f + PTE_IDX w * 4) = 0" for w
  proof -
    have "PTE_IDX w * 4 = of_nat (4 * unat (PTE_IDX w))"
      by (intro page_eqI) (use idx_less [of w] in \<open>simp add: unat_idx4 unat_of_nat_32 del: of_nat_mult\<close>)
    then show ?thesis using idx_less(2) [of w] by (auto simp: s' zero_words_def simp del: of_nat_mult)
  qed
  have new: "translate s' w = None" if "PDE_IDX w = PDE_IDX v" for w
    using zero [of w] that f(2) by (simp add: translate_def pte_phys_def pde)
  then show "translate s' v = None" by simp
  show "translate s' w = translate s w" if w: "PDE_IDX w \<noteq> 1023"
  proof (cases "PDE_IDX w = PDE_IDX v \<or> \<not> present (pde_at s w)")
    case True
    have "pde_at s w = pde_at s v" if "PDE_IDX w = PDE_IDX v" using that by (simp add: pde_at_def)
    with True v(2) have "translate s w = None" by (auto simp: translate_def)
    moreover have "translate s' w = None"
      using True new [of w] pde [of w] by (cases "PDE_IDX w = PDE_IDX v") (auto simp: translate_def)
    ultimately show ?thesis by simp
  next
    case False
    have nd: "frame (pde_at s w) \<noteq> ?D" using wf w False by (auto simp: pt_wf_def)
    have "frame (pde_at s w) \<noteq> f" using f(1) w False by (auto simp: table_frame_def)
    then have "pmem s' (pte_phys s w) = pmem s (pte_phys s w)"
      using keep [of "PTE_IDX w * 4" "pde_at s w"] nd
        frame_add_eq [of "PTE_IDX w * 4" "PDE_IDX v * 4" "pde_at s w" "cr3 s"]
      by (simp add: pte_phys_def)
    then show ?thesis using False pde [of w] by (simp add: translate_def pte_phys_def)
  qed
qed

definition maps_page :: "kstate \<Rightarrow> u32 \<Rightarrow> u32 \<Rightarrow> kstate \<Rightarrow> bool" where
  "maps_page s v p s' \<longleftrightarrow> pt_wf s' \<and> translate s' v = Some (frame p + offset v) \<and>
     (\<forall>w. PDE_IDX w \<noteq> 1023 \<and> \<not> same_pte s v w \<longrightarrow> translate s' w = translate s w)"

text \<open>The page of \<open>v\<close> is not the one that holds the directory of the running thread.\<close>

definition dir_apart :: "u32 \<Rightarrow> kstate \<Rightarrow> bool" where
  "dir_apart v s \<longleftrightarrow> (let d = pgdir (tcbs s (running s)) in
     d \<noteq> 0 \<longrightarrow> PDE_IDX d \<noteq> 1023 \<and> \<not> same_pte s v d)"

lemma dir_current_upd:
  assumes "dir_current s" and "dir_apart v s" and "maps_page s v p (s\<lparr>pmem := m, kernel_pool := kp\<rparr>)"
  shows "dir_current (s\<lparr>pmem := m, kernel_pool := kp\<rparr>)"
  using assms by (auto simp: dir_current_def dir_apart_def maps_page_def Let_def)

lemma table_frame_write_pte:
  assumes "pt_wf s" and "PDE_IDX v \<noteq> 1023" and "present (pde_at s v)"
    and "s' = s\<lparr>pmem := (pmem s)(pte_phys s v := e)\<rparr>"
  shows "table_frame s' f = table_frame s f"
  using write_pte(1) [OF assms] by (simp add: table_frame_def) (simp add: assms(4))

lemma same_pte_new_table:
  assumes nt: "\<not> table_frame s f" and f: "frame (pde_at s3 v) = f"
    and pd: "\<And>w. PDE_IDX w \<noteq> PDE_IDX v \<Longrightarrow> pde_at s3 w = pde_at s w"
    and w: "PDE_IDX w \<noteq> 1023" "\<not> same_pte s v w"
  shows "\<not> same_pte s3 v w"
proof (cases "PDE_IDX w = PDE_IDX v")
  case True
  then have "pte_phys s3 v \<noteq> pte_phys s3 w"
    using w(2) by (auto simp: same_pte_def pte_phys_def pde_at_def)
  with True w(2) show ?thesis by (auto simp: same_pte_def)
next
  case False
  then have "pde_at s3 w = pde_at s w" by (rule pd)
  moreover have "frame (pde_at s w) \<noteq> f" if "present (pde_at s w)"
    using nt that w(1) by (auto simp: table_frame_def)
  ultimately show ?thesis
    using False f frame_add_eq [of "PTE_IDX v * 4" "PTE_IDX w * 4" "pde_at s3 v" "pde_at s3 w"]
    by (auto simp: same_pte_def pte_phys_def)
qed

lemma table_frame_new:
  assumes f: "frame (pde_at s3 v) = f"
    and pd: "\<And>w. PDE_IDX w \<noteq> PDE_IDX v \<Longrightarrow> pde_at s3 w = pde_at s w"
    and cr: "cr3 s3 = cr3 s" and a: "table_frame s3 a"
  shows "table_frame s a \<or> a = f"
proof -
  have "pde_at s3 w = pde_at s3 v" if "PDE_IDX w = PDE_IDX v" for w using that by (simp add: pde_at_def)
  then show ?thesis using a f pd cr unfolding table_frame_def by metis
qed

lemma create_pde_ok:
  assumes wf: "pt_wf s" and v: "PDE_IDX v \<noteq> 1023" "\<not> present (pde_at s v)"
    and res: "tables_reserved s" and free: "i < pages (kernel_pool s)" "\<not> page_used (kernel_pool s) i"
  shows "\<exists>m kp. create_pde v p s = Some (s\<lparr>pmem := m, kernel_pool := kp\<rparr>) \<and>
    maps_page s v p (s\<lparr>pmem := m, kernel_pool := kp\<rparr>) \<and>
    tables_reserved (s\<lparr>pmem := m, kernel_pool := kp\<rparr>) \<and> same_pool (kernel_pool s) kp \<and>
    (\<forall>i. page_used (kernel_pool s) i \<longrightarrow> page_used kp i)"
proof -
  have pw: "pool_wf (kernel_pool s)" using res by (simp add: tables_reserved_def)
  from get_free_page_found [OF pw free] obtain j kp where
    g: "get_free_page (kernel_pool s) = Some (page_addr (kernel_pool s) j, kp)"
    and j: "j < pages (kernel_pool s)" "\<not> page_used (kernel_pool s) j"
    and kp: "pool_wf kp" "same_pool (kernel_pool s) kp"
      "page_used kp = (page_used (kernel_pool s))(j := True)" by blast
  let ?f = "page_addr (kernel_pool s) j"
  let ?s1 = "s\<lparr>kernel_pool := kp\<rparr>"
  let ?s2 = "?s1\<lparr>pmem := (pmem s)(frame (cr3 s) + PDE_IDX v * 4 := ?f OR 7)\<rparr>"
  let ?s3 = "?s1\<lparr>pmem := zero_words ?f 0 1024 ((pmem s)(frame (cr3 s) + PDE_IDX v * 4 := ?f OR 7))\<rparr>"
  have f: "frame ?f = ?f" using frame_page_addr [OF pw j(1)] .
  have nt: "\<not> table_frame s ?f" using res j by (simp add: tables_reserved_def)
  then have nD: "?f \<noteq> frame (cr3 s)" by (simp add: table_frame_def)
  have tr: "translate ?s1 w = translate s w" "pde_at ?s1 w = pde_at s w" "pte_phys ?s1 w = pte_phys s w"
    "table_frame ?s1 a = table_frame s a" for w a
    by (simp_all add: translate_def pde_at_def pte_phys_def table_frame_def)
  have wf1: "pt_wf ?s1" using wf by (simp add: pt_wf_def self_map_def pde_at_def)
  have sm2: "self_map ?s2" using wf v(1) frame_add_eq [of "PDE_IDX v * 4" 4092 "cr3 s" "cr3 s"]
    by (simp add: pt_wf_def self_map_def)
  have pde2: "pde_at ?s2 v = ?f OR 7" by (simp add: pde_at_def)
  have z: "vzero 1024 (pte_ptr v AND 0xfffff000) ?s2 = Some ?s3"
    using vzero_table [OF sm2, of v 0 1024] pde2 f nD by simp
  note i3 = install_table [OF wf1, of v ?f ?s3, unfolded tr, OF v nt f]
  have w3: "pt_wf ?s3" "present (pde_at ?s3 v)" "frame (pde_at ?s3 v) = ?f" "translate ?s3 v = None"
    using i3(1-4) by simp_all
  have old: "PDE_IDX w \<noteq> 1023 \<Longrightarrow> translate ?s3 w = translate s w" for w using i3(6) by simp
  have pd3: "PDE_IDX w \<noteq> PDE_IDX v \<Longrightarrow> pde_at ?s3 w = pde_at s w" for w using i3(5) by simp
  have np: "\<not> present (pmem ?s3 (pte_phys ?s3 v))"
    using w3(2,4) by (auto simp: translate_def split: if_splits)
  let ?m = "(pmem ?s3)(pte_phys ?s3 v := p OR 7)"
  let ?s4 = "s\<lparr>pmem := ?m, kernel_pool := kp\<rparr>"
  have s4: "?s4 = ?s3\<lparr>pmem := (pmem ?s3)(pte_phys ?s3 v := p OR 7)\<rparr>" by simp
  note w4 = write_pte [OF w3(1) v(1) w3(2) s4]
  have c: "create_pde v p s = Some ?s4"
    using g z np w3 pt_wfD [OF wf1] pt_wfD [OF w3(1)]
    by (simp add: create_pde_def present_def [symmetric] ASSERT_bind)
  have "\<not> same_pte ?s3 v w" if "PDE_IDX w \<noteq> 1023" "\<not> same_pte s v w" for w
    by (rule same_pte_new_table [OF nt w3(3) pd3 that])
  with old w4 have "maps_page s v p ?s4" by (simp add: maps_page_def)
  moreover have "tables_reserved ?s4"
  proof -
    have "table_frame ?s4 a \<Longrightarrow> table_frame s a \<or> a = ?f" for a
      using table_frame_write_pte [OF w3(1) v(1) w3(2) s4, of a] table_frame_new [OF w3(3) pd3] by simp
    moreover have "page_addr kp k = page_addr (kernel_pool s) k" for k
      using kp(2) by (simp add: page_addr_def same_pool_def)
    ultimately show ?thesis
      using res kp j page_addr_inject [OF pw] by (fastforce simp: tables_reserved_def same_pool_def)
  qed
  ultimately show ?thesis using c kp(2,3) by (intro exI [of _ ?m] exI [of _ kp]) simp
qed

section \<open>Properties\<close>

lemma put_page_ok:
  assumes wf: "pt_wf s" and cur: "dir_current s" and d: "dir_apart v s" and res: "tables_reserved s"
    and v: "PDE_IDX v \<noteq> 1023"
    and free: "present (pde_at s v) \<or> (\<exists>i < pages (kernel_pool s). \<not> page_used (kernel_pool s) i)"
  shows "\<exists>m kp. put_page v p s = Some (s\<lparr>pmem := m, kernel_pool := kp\<rparr>) \<and>
    maps_page s v p (s\<lparr>pmem := m, kernel_pool := kp\<rparr>) \<and>
    dir_current (s\<lparr>pmem := m, kernel_pool := kp\<rparr>) \<and>
    tables_reserved (s\<lparr>pmem := m, kernel_pool := kp\<rparr>) \<and> same_pool (kernel_pool s) kp \<and>
    (\<forall>i. page_used (kernel_pool s) i \<longrightarrow> page_used kp i)"
proof (cases "present (pde_at s v)")
  case True
  let ?m = "(pmem s)(pte_phys s v := p OR 7)" and ?kp = "kernel_pool s"
  let ?s = "s\<lparr>pmem := ?m, kernel_pool := ?kp\<rparr>"
  have s: "?s = s\<lparr>pmem := (pmem s)(pte_phys s v := p OR 7)\<rparr>" by simp
  note w = write_pte [OF wf v True s]
  have put: "put_page v p s = Some ?s"
    using put_page_present [OF wf cur v True, of p] d by (simp add: dir_apart_def Let_def)
  have m: "maps_page s v p ?s" using w by (simp add: maps_page_def)
  moreover have "tables_reserved ?s"
    using res table_frame_write_pte [OF wf v True s] by (simp add: tables_reserved_def)
  moreover have "same_pool ?kp ?kp" by (simp add: same_pool_def)
  ultimately show ?thesis using put dir_current_upd [OF cur d m] by blast
next
  case False
  with free obtain i where "i < pages (kernel_pool s)" "\<not> page_used (kernel_pool s) i" by auto
  from create_pde_ok [OF wf v False res this, of p] obtain m kp where
    c: "create_pde v p s = Some (s\<lparr>pmem := m, kernel_pool := kp\<rparr>)"
    "maps_page s v p (s\<lparr>pmem := m, kernel_pool := kp\<rparr>)"
    "tables_reserved (s\<lparr>pmem := m, kernel_pool := kp\<rparr>)" "same_pool (kernel_pool s) kp"
    "\<forall>i. page_used (kernel_pool s) i \<longrightarrow> page_used kp i" by blast
  moreover have "put_page v p s = create_pde v p s"
    using False pt_wfD [OF wf] by (simp add: put_page_def present_def)
  ultimately show ?thesis using dir_current_upd [OF cur d c(2)] by auto
qed

lemma remove_page_ok:
  assumes wf: "pt_wf s" and v: "PDE_IDX v \<noteq> 1023" and m: "translate s v \<noteq> None"
  shows "\<exists>m. remove_page v s = Some (s\<lparr>pmem := m\<rparr>) \<and> pt_wf (s\<lparr>pmem := m\<rparr>) \<and>
    translate (s\<lparr>pmem := m\<rparr>) v = None \<and> (\<forall>a. table_frame (s\<lparr>pmem := m\<rparr>) a = table_frame s a) \<and>
    (\<forall>w. \<not> same_pte s v w \<longrightarrow> translate (s\<lparr>pmem := m\<rparr>) w = translate s w)"
proof -
  have p: "present (pde_at s v)" using m by (auto simp: translate_def split: if_splits)
  let ?e = "pmem s (pte_phys s v) AND NOT 1"
  let ?m = "(pmem s)(pte_phys s v := ?e)"
  note w = write_pte [OF wf v p refl, where e = ?e]
  have "remove_page v s = Some (s\<lparr>pmem := ?m\<rparr>)"
    using p pt_wfD [OF wf] by (simp add: remove_page_def)
  moreover have "\<not> present ?e" by (rule present_clear)
  ultimately show ?thesis
    using w table_frame_write_pte [OF wf v p refl] by (intro exI [of _ ?m]) auto
qed

text \<open>The state left by the boot loader satisfies the assumptions.\<close>

lemma boot_pde:
  "pde_at boot_kstate v = (if PDE_IDX v = 0 \<or> PDE_IDX v = 768 then 0x101007
     else if PDE_IDX v = 1023 then 0x100007
     else if PDE_IDX v > 768 then 0x102007 + (PDE_IDX v - 769) * 0x1000 else 0)"
proof -
  have f: "frame 0x100000 = 0x100000" by (simp add: frame_def)
  have u: "unat (0x100000 + PDE_IDX v * 4) = 0x100000 + 4 * unat (PDE_IDX v)"
    using unat_frame_add [of "PDE_IDX v * 4" "0x100000"] idx_less(1) [of v] by (simp add: f unat_idx4)
  then have "0x100000 \<le> 0x100000 + PDE_IDX v * 4" "0x100000 + PDE_IDX v * 4 < 0x101000"
    using idx_less(1) [of v] by (simp_all add: word_le_nat_alt word_less_nat_alt)
  moreover have "(0x100000 + PDE_IDX v * 4 - 0x100000) div 4 = PDE_IDX v"
    by (intro page_eqI) (simp add: unat_div unat_idx4)
  ultimately show ?thesis
    by (simp add: pde_at_def boot_kstate_def boot_pmem_def f Let_def)
qed

lemma boot_table_frame: "table_frame boot_kstate f \<Longrightarrow> unat f < 0x201000"
proof -
  have "unat (pde_at boot_kstate v) < 0x201000" for v
  proof (cases "PDE_IDX v > 768")
    case True
    then have "unat (PDE_IDX v - 769) = unat (PDE_IDX v) - 769"
      using unat_sub_word [of 769 "PDE_IDX v"] by (simp add: word_less_nat_alt)
    moreover have "unat (PDE_IDX v) < 1024" by (rule idx_less)
    ultimately have "unat ((PDE_IDX v - 769) * 0x1000) = (unat (PDE_IDX v) - 769) * 0x1000"
      by (subst unat_mult_less) simp_all
    then have "unat (0x102007 + (PDE_IDX v - 769) * 0x1000) = 0x102007 + (unat (PDE_IDX v) - 769) * 0x1000"
      using \<open>unat (PDE_IDX v) < 1024\<close> by (subst unat_add_less) simp_all
    then show ?thesis
      using \<open>unat (PDE_IDX v) < 1024\<close> True by (auto simp: boot_pde word_less_nat_alt word_eq_unat32)
  qed (auto simp: boot_pde)
  moreover have "unat (frame e) \<le> unat e" for e by (simp add: unat_page_offset)
  ultimately show "table_frame boot_kstate f \<Longrightarrow> unat f < 0x201000"
    by (auto simp: table_frame_def boot_kstate_def frame_def intro: le_less_trans)
qed

lemma boot_self_map: "self_map boot_kstate"
proof -
  have "unat (0x00100000 + 4092 :: u32) = 0x100ffc" by simp
  then show ?thesis
    by (simp add: self_map_def boot_kstate_def frame_def boot_pmem_def present_def)
qed

lemma boot_wf: "pt_wf boot_kstate"
proof -
  have "frame (pde_at boot_kstate v) \<noteq> 0x100000"
    if v: "PDE_IDX v \<noteq> 1023" "present (pde_at boot_kstate v)" for v
  proof (cases "PDE_IDX v > 768")
    case True
    have i: "unat (PDE_IDX v - 769) = unat (PDE_IDX v) - 769" "unat (PDE_IDX v) < 1024"
      using unat_sub_word [of 769 "PDE_IDX v"] True idx_less by (simp_all add: word_less_nat_alt)
    then have "unat ((PDE_IDX v - 769) * 0x1000) = (unat (PDE_IDX v) - 769) * 0x1000"
      by (subst unat_mult_less) simp_all
    then have "unat (0x102007 + (PDE_IDX v - 769) * 0x1000) = 0x102007 + (unat (PDE_IDX v) - 769) * 0x1000"
      using i(2) by (subst unat_add_less) simp_all
    then have "unat (pde_at boot_kstate v) \<ge> 0x102000"
      using True v(1) by (auto simp: boot_pde word_eq_unat32 word_less_nat_alt)
    then have "unat (frame (pde_at boot_kstate v)) \<ge> 0x102000"
      by (simp add: unat_page_offset)
    then show ?thesis by auto
  qed (use v in \<open>auto simp: boot_pde frame_def\<close>)
  then show ?thesis
    using boot_self_map by (auto simp: pt_wf_def boot_kstate_def frame_def)
qed

lemma boot_dir_current: "dir_current boot_kstate"
  by (simp add: dir_current_def boot_kstate_def zero_tcb_def)

lemma boot_dir_apart: "dir_apart v boot_kstate"
  by (simp add: dir_apart_def boot_kstate_def zero_tcb_def)

lemma boot_pool_wf: "pool_wf (kernel_pool boot_kstate)" "pool_wf (user_pool boot_kstate)"
  by (simp_all add: boot_kstate_def pool_wf_def wf_bitmap_def nbits_def frame_def)

lemma boot_tables_reserved: "tables_reserved boot_kstate"
proof -
  have "\<not> table_frame boot_kstate (page_addr (kernel_pool boot_kstate) i)"
    if "i < pages (kernel_pool boot_kstate)" for i
    using boot_table_frame unat_page_addr [OF boot_pool_wf(1) that]
    by (fastforce simp: boot_kstate_def)
  then show ?thesis using boot_pool_wf(1) by (simp add: tables_reserved_def)
qed

text \<open>C37. The self-map window: through the last directory entry, \<open>pde_ptr\<close> and \<open>pte_ptr\<close> read the
  directory entry and the page table entry that the processor uses for the address, so
  \<open>addr_v2p\<close> and \<open>virtual_addr_to_physical_addr\<close> agree with the processor's translation; the
  latter panics exactly on unmapped addresses.\<close>

theorem self_map_reads_tables:
  assumes "self_map s"
  shows "vread (pde_ptr v) s = Some (pde_at s v) \<and>
    vread (pte_ptr v) s = (if present (pde_at s v) then Some (pmem s (pte_phys s v)) else None) \<and>
    (\<forall>p. translate s v = Some p \<longrightarrow> addr_v2p v s = Some p) \<and>
    virtual_addr_to_physical_addr v s = map_option frame (translate s v)"
  using assms addr_v2p_translate [OF assms] virtual_addr_to_physical_addr_eq [OF assms] by simp

theorem self_map_reads_tables_witness:
  "vread (pde_ptr 0xc0105123) boot_kstate = Some 0x101007 \<and>
   vread (pte_ptr 0xc0012345) boot_kstate = Some 0x12007"
proof -
  have 1: "pde_at boot_kstate 0xc0105123 = 0x101007" "pde_at boot_kstate 0xc0012345 = 0x101007"
    by (simp_all add: boot_pde PDE_IDX_def)
  moreover have "pmem boot_kstate (pte_phys boot_kstate 0xc0012345) = 0x12007"
    unfolding pte_phys_def 1 by (simp add: PTE_IDX_def frame_def boot_kstate_def boot_pmem_def)
  ultimately show ?thesis
    using self_map_reads_tables [OF boot_self_map, of "0xc0105123"]
      self_map_reads_tables [OF boot_self_map, of "0xc0012345"] by (simp add: present_def)
qed

text \<open>C4. \<open>put_page\<close> returns and maps the page: afterwards the processor translates the address to
  the given frame, with a new page table taken from the kernel pool if the directory had none.
  Every address that does not share the page table entry is translated as before, the directory in
  use is the same, and free frames of the kernel pool still hold no page table.\<close>

theorem put_page_maps:
  assumes "pt_wf s" and "dir_current s" and "dir_apart v s" and "tables_reserved s"
    and "PDE_IDX v \<noteq> 1023"
    and "present (pde_at s v) \<or> (\<exists>i < pages (kernel_pool s). \<not> page_used (kernel_pool s) i)"
  shows "\<exists>s'. put_page v p s = Some s' \<and> pt_wf s' \<and> dir_current s' \<and> tables_reserved s' \<and>
    cr3 s' = cr3 s \<and> user_pool s' = user_pool s \<and> translate s' v = Some (frame p + offset v) \<and>
    (\<forall>w. PDE_IDX w \<noteq> 1023 \<and> \<not> same_pte s v w \<longrightarrow> translate s' w = translate s w)"
  using put_page_ok [OF assms, of p] by (auto simp: maps_page_def)

theorem put_page_maps_witness:
  "\<exists>s'. put_page 0x8048123 0x5000 boot_kstate = Some s' \<and> translate s' 0x8048123 = Some 0x5123 \<and>
     translate s' 0xc0012345 = Some 0x12345"
proof -
  have v: "PDE_IDX 0x8048123 \<noteq> 1023" "PDE_IDX 0xc0012345 \<noteq> 1023" by (simp_all add: PDE_IDX_def)
  have free: "0 < pages (kernel_pool boot_kstate)" "\<not> page_used (kernel_pool boot_kstate) 0"
    by (simp_all add: boot_kstate_def nbits_def is_set_def)
  have p: "pde_at boot_kstate 0x8048123 = 0" "pde_at boot_kstate 0xc0012345 = 0x101007"
    by (simp_all add: boot_pde PDE_IDX_def)
  have ns: "\<not> same_pte boot_kstate 0x8048123 0xc0012345"
    by (simp add: same_pte_def p) (simp add: PDE_IDX_def)
  have "pmem boot_kstate (pte_phys boot_kstate 0xc0012345) = 0x12007"
    unfolding pte_phys_def p by (simp add: PTE_IDX_def frame_def boot_kstate_def boot_pmem_def)
  then have "translate boot_kstate 0xc0012345 = Some 0x12345"
    by (simp add: translate_def p present_def frame_def offset_def)
  with put_page_maps [OF boot_wf boot_dir_current boot_dir_apart boot_tables_reserved v(1), of "0x5000"]
    free ns v(2) show ?thesis by (fastforce simp: frame_def offset_def)
qed

text \<open>\<open>remove_page\<close> unmaps: on a mapped page it returns, the page faults afterwards, and every
  address that does not share the page table entry is translated as before.\<close>

theorem remove_page_unmaps:
  assumes "pt_wf s" and "PDE_IDX v \<noteq> 1023" and "translate s v \<noteq> None"
  shows "\<exists>s'. remove_page v s = Some s' \<and> pt_wf s' \<and> translate s' v = None \<and>
    (\<forall>w. \<not> same_pte s v w \<longrightarrow> translate s' w = translate s w)"
  using remove_page_ok [OF assms] by auto

theorem remove_page_unmaps_witness:
  "\<exists>s'. remove_page 0xc0012345 boot_kstate = Some s' \<and> translate s' 0xc0012345 = None"
proof -
  have p: "pde_at boot_kstate 0xc0012345 = 0x101007" by (simp add: boot_pde PDE_IDX_def)
  have "pmem boot_kstate (pte_phys boot_kstate 0xc0012345) = 0x12007"
    unfolding pte_phys_def p by (simp add: PTE_IDX_def frame_def boot_kstate_def boot_pmem_def)
  then have "translate boot_kstate 0xc0012345 \<noteq> None" by (simp add: translate_def p present_def)
  moreover have "PDE_IDX 0xc0012345 \<noteq> 1023" by (simp add: PDE_IDX_def)
  ultimately show ?thesis using remove_page_unmaps [OF boot_wf] by blast
qed

end
