(* ===== verification/Sched.thy ===== *)
theory Sched
  imports Paging
begin

text \<open>
  The scheduler: \<^verbatim>\<open>schedule\<close>, \<^verbatim>\<open>thread_block\<close>, \<^verbatim>\<open>thread_auth_block\<close>,
  \<^verbatim>\<open>thread_unblock\<close>, \<^verbatim>\<open>thread_yield\<close>, \<^verbatim>\<open>pid2thread\<close> of \<^verbatim>\<open>core/thread/threads.c\<close>,
  the wake-up functions of \<^verbatim>\<open>core/thread/sched.c\<close>, \<^verbatim>\<open>process_activate\<close> of
  \<^verbatim>\<open>core/thread/process.c\<close> and \<^verbatim>\<open>update_tss_esp0\<close> of \<^verbatim>\<open>core/destab/tss.c\<close>.

  A context switch leaves the caller in the middle of \<^verbatim>\<open>schedule\<close>. \<open>schedule_select\<close> is the
  code up to and including \<^verbatim>\<open>switch_to\<close>: its result is the state in which the chosen thread
  goes on. From the caller's side the call returns when some thread switches back, so
  \<open>schedule\<close> and everything that may block takes a parameter \<open>W\<close>: the run of the other threads
  from the switch until this thread is resumed, \<open>None\<close> if it never is. \<open>W\<close> is not consulted when
  the thread chosen is the caller.
\<close>

section \<open>Operations\<close>

definition update_tss_esp0 :: "addr \<Rightarrow> kstate \<Rightarrow> kstate" where
  "update_tss_esp0 thread s = s\<lparr>tss_esp0 := thread + 4096\<rparr>"

definition process_activate :: "addr \<Rightarrow> kstate \<Rightarrow> kstate option" where
  "process_activate thread s = do {
     ASSERT (thread \<noteq> 0);
     s \<leftarrow> page_dir_activate thread s;
     Some (if pgdir (tcbs s thread) \<noteq> 0 then update_tss_esp0 thread s else s)
   }"

definition blocking :: "task_status \<Rightarrow> bool" where
  "blocking st \<longleftrightarrow> st = THREAD_TASK_HANGING \<or> st = THREAD_TASK_WAITING \<or> st = THREAD_TASK_BLOCKED"

definition on_ready_list :: "addr \<Rightarrow> kstate \<Rightarrow> bool option" where
  "on_ready_list thread s = list_find_element (general_tag thread) (thread_ready_list s) (lh s)"

definition thread_unblock :: "addr \<Rightarrow> kstate \<Rightarrow> kstate option" where
  "thread_unblock thread s = do {
     ASSERT (blocking (status (tcbs s thread)));
     let (old_int_status, s) = intr_disable s;
     s \<leftarrow> (if status (tcbs s thread) \<noteq> THREAD_TASK_READY then do {
            b \<leftarrow> on_ready_list thread s;
            ASSERT (\<not> b);
            b \<leftarrow> on_ready_list thread s;
            if b then PANIC
            else Some (upd_tcb thread (\<lambda>t. t\<lparr>status := THREAD_TASK_READY\<rparr>)
              (upd_lh (list_add (general_tag thread) (thread_ready_list s)) s))
          } else Some s);
     Some (intr_set_status old_int_status s)
   }"

text \<open>\<^verbatim>\<open>schedule\<close> in two parts: the current thread goes back to the queue, the next one is chosen.\<close>

definition requeue_current :: "kstate \<Rightarrow> kstate option" where
  "requeue_current s = (let cur = running_thread s in
     if status (tcbs s cur) = THREAD_TASK_RUNNING then do {
       b \<leftarrow> on_ready_list cur s;
       ASSERT (\<not> b);
       Some (upd_tcb cur (\<lambda>t. t\<lparr>tticks := priority t, status := THREAD_TASK_READY\<rparr>)
         (upd_lh (list_add_tail (general_tag cur) (thread_ready_list s)) s))
     } else if status (tcbs s cur) = THREAD_TASK_READY then do {
       b \<leftarrow> on_ready_list cur s;
       if \<not> b then do {
         b \<leftarrow> on_ready_list cur s;
         ASSERT (\<not> b);
         Some (upd_lh (list_add_tail (general_tag cur) (thread_ready_list s)) s)
       } else Some s
     } else Some s)"

definition pick_next :: "kstate \<Rightarrow> kstate option" where
  "pick_next s = do {
     s \<leftarrow> (if list_is_empty (thread_ready_list s) (lh s) then thread_unblock (idle_thread s) s
           else Some s);
     let (thread_tag, m) = list_pop (thread_ready_list s) (lh s);
     let next = thread_of_general_tag thread_tag;
     s \<leftarrow> process_activate next
       (upd_tcb next (\<lambda>t. t\<lparr>status := THREAD_TASK_RUNNING\<rparr>) (s\<lparr>lh := m\<rparr>));
     Some (s\<lparr>running := next\<rparr>)
   }"

definition schedule_select :: "kstate \<Rightarrow> kstate option" where
  "schedule_select s = do { s \<leftarrow> requeue_current s; pick_next s }"

definition schedule :: "(kstate \<Rightarrow> kstate option) \<Rightarrow> kstate \<Rightarrow> kstate option" where
  "schedule W s = do {
     s' \<leftarrow> schedule_select s;
     if running s' = running s then Some s' else W s'
   }"

definition thread_auth_block ::
    "(kstate \<Rightarrow> kstate option) \<Rightarrow> addr \<Rightarrow> task_status \<Rightarrow> kstate \<Rightarrow> kstate option" where
  "thread_auth_block W task st s = do {
     ASSERT (blocking st);
     ASSERT (task \<noteq> 0);
     let (old_int_status, s) = intr_disable s;
     s \<leftarrow> schedule W (upd_tcb task (\<lambda>t. t\<lparr>status := st\<rparr>) s);
     Some (intr_set_status old_int_status s)
   }"

definition thread_block ::
    "(kstate \<Rightarrow> kstate option) \<Rightarrow> task_status \<Rightarrow> kstate \<Rightarrow> kstate option" where
  "thread_block W st s = do {
     ASSERT (blocking st);
     let (old_int_status, s) = intr_disable s;
     let cur = running_thread s;
     s \<leftarrow> schedule W (upd_tcb cur (\<lambda>t. t\<lparr>status := st\<rparr>) s);
     Some (intr_set_status old_int_status s)
   }"

definition thread_yield :: "(kstate \<Rightarrow> kstate option) \<Rightarrow> kstate \<Rightarrow> kstate option" where
  "thread_yield W s = do {
     let cur = running_thread s;
     let (old_status, s) = intr_disable s;
     b \<leftarrow> on_ready_list cur s;
     ASSERT (\<not> b);
     s \<leftarrow> schedule W (upd_tcb cur (\<lambda>t. t\<lparr>status := THREAD_TASK_READY\<rparr>)
       (upd_lh (list_add_tail (general_tag cur) (thread_ready_list s)) s));
     Some (intr_set_status old_status s)
   }"

definition find_pid :: "kstate \<Rightarrow> addr \<Rightarrow> u32 \<Rightarrow> bool" where
  "find_pid s ele p \<longleftrightarrow> pid (tcbs s (thread_of_all_list_tag ele)) = p"

definition pid2thread :: "u32 \<Rightarrow> kstate \<Rightarrow> addr option" where
  "pid2thread p s = do {
     node \<leftarrow> list_walker (thread_all_list s) (find_pid s) p (lh s);
     Some (if node = 0 then 0 else thread_of_all_list_tag node)
   }"

section \<open>Waking up\<close>

definition task_on_readylist :: "addr \<Rightarrow> kstate \<Rightarrow> bool" where
  "task_on_readylist p s \<longleftrightarrow> nxt (lh s) (general_tag p) \<noteq> general_tag p"

definition add_to_readylist :: "addr \<Rightarrow> kstate \<Rightarrow> kstate" where
  "add_to_readylist p s = upd_lh (list_add_tail (general_tag p) (thread_ready_list s)) s"

definition move_last_readylist :: "addr \<Rightarrow> kstate \<Rightarrow> kstate" where
  "move_last_readylist p s =
     upd_lh (\<lambda>m. list_add_tail (general_tag p) (thread_ready_list s) (list_del (general_tag p) m)) s"

definition try_to_wake_up :: "addr \<Rightarrow> kstate \<Rightarrow> bool \<times> kstate" where
  "try_to_wake_up p s =
     (let (old_int_status, s) = intr_disable s;
          s = upd_tcb p (\<lambda>t. t\<lparr>status := THREAD_TASK_READY\<rparr>) s;
          (success, s) = (if task_on_readylist p s then (False, s) else (True, add_to_readylist p s))
      in (success, intr_set_status old_int_status s))"

definition wake_up_process :: "addr \<Rightarrow> kstate \<Rightarrow> bool \<times> kstate" where
  "wake_up_process p s = try_to_wake_up p s"

definition process_timeout :: "u32 \<Rightarrow> kstate \<Rightarrow> kstate" where
  "process_timeout d s = snd (wake_up_process d s)"

text \<open>
  The loop of \<^verbatim>\<open>__wake_up_common\<close> stops at the first thread that is put on the ready list. The
  debug checks are compiled in (\<^verbatim>\<open>CONFIG_DEBUG_WAITQ\<close>); \<^verbatim>\<open>BUG\<close> executes an undefined
  instruction, whose handler never returns.
\<close>

partial_function (option) wake_up_loop :: "addr \<Rightarrow> u32 \<Rightarrow> addr \<Rightarrow> kstate \<Rightarrow> kstate option" where
  "wake_up_loop head mode tmp s =
     (if tmp \<noteq> head then
        let curr = wait_of_task_list tmp in
        if wq_magic (waits s curr) \<noteq> curr + 16 then None
        else
          let p = wq_task (waits s curr) in
          if status_code (status (tcbs s p)) AND mode \<noteq> 0 then
            let (woken, s) = try_to_wake_up p s in
            if woken then Some s else wake_up_loop head mode (nxt (lh s) tmp) s
          else wake_up_loop head mode (nxt (lh s) tmp) s
      else Some s)"

definition wake_up_common :: "addr \<Rightarrow> u32 \<Rightarrow> kstate \<Rightarrow> kstate option" where
  "wake_up_common q mode s = do {
     ASSERT (wqh_magic s q = q + 12);
     ASSERT (nxt (lh s) (wqh_task_list q) \<noteq> 0 \<and> prv (lh s) (wqh_task_list q) \<noteq> 0);
     wake_up_loop (wqh_task_list q) mode (nxt (lh s) (wqh_task_list q)) s
   }"

definition wake_up_q :: "addr \<Rightarrow> u32 \<Rightarrow> kstate \<Rightarrow> kstate option" where
  "wake_up_q q mode s = (if q \<noteq> 0 then wake_up_common q mode s else Some s)"

definition wake_up :: "addr \<Rightarrow> kstate \<Rightarrow> kstate option" where
  "wake_up q s = wake_up_q q (status_code THREAD_TASK_WAITING OR status_code THREAD_TASK_BLOCKED) s"

definition wake_up_interruptible :: "addr \<Rightarrow> kstate \<Rightarrow> kstate option" where
  "wake_up_interruptible q s = wake_up_q q (status_code THREAD_TASK_WAITING) s"

section \<open>The ready queue\<close>

abbreviation ready_queue :: "kstate \<Rightarrow> addr list \<Rightarrow> bool" where
  "ready_queue s rs \<equiv> qlist (lh s) (thread_ready_list s) (map general_tag rs)"

lemma on_ready_list_eq:
  assumes "ready_queue s rs"
  shows "on_ready_list t s = Some (t \<in> set (butlast rs))"
  using list_find_element_qlist [OF assms, of "general_tag t"]
  by (auto simp: on_ready_list_def map_butlast [symmetric] simp del: map_butlast)

lemma butlast_notin: "x \<notin> set xs \<Longrightarrow> x \<notin> set (butlast xs)"
  by (auto dest: in_set_butlastD)

lemma thread_unblock_ok:
  assumes "ready_queue s rs" and "blocking (status (tcbs s t))" and "t \<notin> set rs"
  shows "thread_unblock t s = Some (s\<lparr>lh := list_add (general_tag t) (thread_ready_list s) (lh s),
    tcbs := (tcbs s)(t := (tcbs s t)\<lparr>status := THREAD_TASK_READY\<rparr>)\<rparr>)"
proof -
  have "on_ready_list t (s\<lparr>intr := False\<rparr>) = Some False"
    using on_ready_list_eq [of "s\<lparr>intr := False\<rparr>" rs t] assms butlast_notin [OF assms(3)] by simp
  moreover have "status (tcbs s t) \<noteq> THREAD_TASK_READY" using assms(2) by (auto simp: blocking_def)
  ultimately show ?thesis
    using assms(2) by (simp add: thread_unblock_def intr_disable_eq intr_set_status_eq upd_tcb_def upd_lh_def)
qed

lemma addr_v2p_cong: "pmem s' = pmem s \<Longrightarrow> cr3 s' = cr3 s \<Longrightarrow> addr_v2p v s' = addr_v2p v s"
  by (simp add: addr_v2p_def vread_def translate_def pde_at_def pte_phys_def)

text \<open>The directory that activating a thread loads.\<close>

definition dir_of :: "kstate \<Rightarrow> addr \<Rightarrow> u32 option" where
  "dir_of s t = (if pgdir (tcbs s t) = 0 then Some 0x100000 else addr_v2p (pgdir (tcbs s t)) s)"

definition run_thread :: "addr \<Rightarrow> u32 \<Rightarrow> lheap \<Rightarrow> kstate \<Rightarrow> kstate" where
  "run_thread n p m s = s\<lparr>lh := m, tcbs := (tcbs s)(n := (tcbs s n)\<lparr>status := THREAD_TASK_RUNNING\<rparr>),
     cr3 := p, tss_esp0 := (if pgdir (tcbs s n) = 0 then tss_esp0 s else n + 4096), running := n\<rparr>"

lemma run_thread_sel [simp]:
  "lh (run_thread n p m s) = m" "running (run_thread n p m s) = n" "cr3 (run_thread n p m s) = p"
  "thread_ready_list (run_thread n p m s) = thread_ready_list s"
  "idle_thread (run_thread n p m s) = idle_thread s" "pmem (run_thread n p m s) = pmem s"
  "intr (run_thread n p m s) = intr s" "semas (run_thread n p m s) = semas s"
  "locks (run_thread n p m s) = locks s"
  "tcbs (run_thread n p m s) = (tcbs s)(n := (tcbs s n)\<lparr>status := THREAD_TASK_RUNNING\<rparr>)"
  by (simp_all add: run_thread_def)

lemma pick_first_node:
  assumes ne: "nxt (lh s) (thread_ready_list s) = general_tag n" "general_tag n \<noteq> thread_ready_list s"
    and n: "n \<noteq> 0" and d: "dir_of s n = Some p"
  shows "pick_next s = Some (run_thread n p (list_del_init (general_tag n) (lh s)) s)"
proof -
  let ?s = "upd_tcb n (\<lambda>t. t\<lparr>status := THREAD_TASK_RUNNING\<rparr>)
    (s\<lparr>lh := list_del_init (general_tag n) (lh s)\<rparr>)"
  have "page_dir_activate n ?s = Some (?s\<lparr>cr3 := p\<rparr>)"
    using d addr_v2p_cong [of ?s s "pgdir (tcbs s n)"]
    by (simp add: page_dir_activate_def dir_of_def upd_tcb_def split: if_splits)
  then have "process_activate n ?s = Some (if pgdir (tcbs s n) \<noteq> 0 then update_tss_esp0 n (?s\<lparr>cr3 := p\<rparr>)
      else ?s\<lparr>cr3 := p\<rparr>)"
    using n by (simp add: process_activate_def upd_tcb_def)
  then show ?thesis
    using ne by (auto simp: pick_next_def list_is_empty_def list_pop_def Let_def update_tss_esp0_def
        upd_tcb_def run_thread_def)
qed

lemma pick_first:
  assumes q: "ready_queue s (n # rs)" and n: "n \<noteq> 0" and d: "dir_of s n = Some p"
  shows "pick_next s = Some (run_thread n p (snd (list_pop (thread_ready_list s) (lh s))) s)"
    and "qlist (snd (list_pop (thread_ready_list s) (lh s))) (thread_ready_list s) (map general_tag rs)"
proof -
  have q': "qlist (lh s) (thread_ready_list s) (general_tag n # map general_tag rs)" using q by simp
  then show "qlist (snd (list_pop (thread_ready_list s) (lh s))) (thread_ready_list s) (map general_tag rs)"
    by (rule ql.dequeue_lists)
  have "nxt (lh s) (thread_ready_list s) = general_tag n" "general_tag n \<noteq> thread_ready_list s"
    using qlist_hd [OF q'] qlist_distinct [OF q'] by auto
  from pick_first_node [OF this n d] this
  show "pick_next s = Some (run_thread n p (snd (list_pop (thread_ready_list s) (lh s))) s)"
    by (simp add: list_pop_def Let_def)
qed

lemma pick_idle:
  assumes q: "ready_queue s []" and i: "blocking (status (tcbs s (idle_thread s)))"
    and tag: "general_tag (idle_thread s) \<noteq> thread_ready_list s"
    and n: "idle_thread s \<noteq> 0" and d: "dir_of s (idle_thread s) = Some p"
  shows "\<exists>m. pick_next s = Some (run_thread (idle_thread s) p m s) \<and>
    qlist m (thread_ready_list s) [] \<and>
    (\<forall>k ys. qlist (lh s) k ys \<and> thread_ready_list s \<notin> set (k # ys) \<and>
       general_tag (idle_thread s) \<notin> set (k # ys) \<longrightarrow> qlist m k ys)"
proof -
  let ?i = "idle_thread s" and ?h = "thread_ready_list s"
  let ?s = "s\<lparr>lh := list_add (general_tag ?i) ?h (lh s),
    tcbs := (tcbs s)(?i := (tcbs s ?i)\<lparr>status := THREAD_TASK_READY\<rparr>)\<rparr>"
  have u: "thread_unblock ?i s = Some ?s" using thread_unblock_ok [OF q i] by simp
  have q0: "qlist (lh s) ?h []" using q by simp
  have q1: "ready_queue ?s [?i]" using ql.push_lists [OF q0, of "general_tag ?i"] tag by simp
  have d1: "dir_of ?s ?i = Some p" using d addr_v2p_cong [of ?s s] by (simp add: dir_of_def split: if_splits)
  note pf = pick_first [OF q1 n d1]
  let ?m = "snd (list_pop ?h (lh ?s))"
  have "pick_next s = pick_next ?s"
    using u ql.empty_iff [OF q0] ql.empty_iff [of "lh ?s" ?h "[general_tag ?i]"] q1
    by (simp add: pick_next_def)
  moreover have "run_thread ?i p ?m ?s = run_thread ?i p ?m s" by (simp add: run_thread_def)
  ultimately have "pick_next s = Some (run_thread ?i p ?m s)" using pf(1) by simp
  moreover have "qlist ?m k ys"
    if "qlist (lh s) k ys" "?h \<notin> set (k # ys)" "general_tag ?i \<notin> set (k # ys)" for k ys
  proof -
    have "qlist (lh ?s) k ys" using ql.push_other [OF that(1) q0, of "general_tag ?i"] that by auto
    moreover have "qlist (lh ?s) ?h [general_tag ?i]" using q1 by simp
    ultimately show ?thesis using ql.dequeue_other [of "lh ?s" k ys ?h "general_tag ?i" "[]"] that by auto
  qed
  ultimately show ?thesis using pf(2) by (intro exI [of _ ?m]) simp
qed

section \<open>The invariant of the scheduler\<close>

text \<open>
  \<open>T\<close> is the set of threads, \<open>rs\<close> the ready queue, \<open>ph t\<close> the physical address of the page
  directory of \<open>t\<close>. The page directories are mapped in the kernel half of every address space, so
  activating \<open>t\<close> reads the same address whichever thread runs.
\<close>

definition dirs_ok :: "addr set \<Rightarrow> (addr \<Rightarrow> u32) \<Rightarrow> kstate \<Rightarrow> bool" where
  "dirs_ok T ph s \<longleftrightarrow> cr3 s \<in> ph ` T \<and> (\<forall>t \<in> T. (pgdir (tcbs s t) = 0 \<longrightarrow> ph t = 0x100000) \<and>
     (pgdir (tcbs s t) \<noteq> 0 \<longrightarrow> (\<forall>c \<in> ph ` T. addr_v2p (pgdir (tcbs s t)) (s\<lparr>cr3 := c\<rparr>) = Some (ph t))))"

definition threads_ok :: "addr set \<Rightarrow> kstate \<Rightarrow> bool" where
  "threads_ok T s \<longleftrightarrow> running s \<in> T \<and> idle_thread s \<in> T \<and>
     status (tcbs s (idle_thread s)) \<noteq> THREAD_TASK_DIED \<and>
     (\<forall>t \<in> T. t \<noteq> 0 \<and> general_tag t \<noteq> thread_ready_list s)"

definition sched_ok :: "addr set \<Rightarrow> (addr \<Rightarrow> u32) \<Rightarrow> addr list \<Rightarrow> kstate \<Rightarrow> bool" where
  "sched_ok T ph rs s \<longleftrightarrow> ready_queue s rs \<and> set rs \<subseteq> T \<and> threads_ok T s \<and> dirs_ok T ph s \<and>
     (\<forall>t \<in> T. status (tcbs s t) = THREAD_TASK_READY \<longleftrightarrow> t \<in> set rs) \<and>
     (\<forall>t \<in> T. status (tcbs s t) = THREAD_TASK_RUNNING \<longleftrightarrow> t = running s) \<and> cr3 s = ph (running s)"

lemma dirs_ok_dir_of: "dirs_ok T ph s \<Longrightarrow> t \<in> T \<Longrightarrow> dir_of s t = Some (ph t)"
  unfolding dirs_ok_def dir_of_def
  by (elim conjE, drule bspec, assumption, cases "pgdir (tcbs s t) = 0")
    (simp, drule conjunct2, drule mp, assumption, drule bspec [of _ _ "cr3 s"], simp_all)

lemma dirs_ok_cong:
  assumes "dirs_ok T ph s" and "pmem s' = pmem s" and "cr3 s' \<in> ph ` T"
    and "\<forall>t \<in> T. pgdir (tcbs s' t) = pgdir (tcbs s t)"
  shows "dirs_ok T ph s'"
  using assms addr_v2p_cong [of "s'\<lparr>cr3 := c\<rparr>" "s\<lparr>cr3 := c\<rparr>" for c]
  by (simp add: dirs_ok_def)

lemma sched_okD:
  assumes "sched_ok T ph rs s"
  shows "ready_queue s rs" "set rs \<subseteq> T" "threads_ok T s" "dirs_ok T ph s" "running s \<in> T"
    "distinct rs" "running s \<notin> set rs" "general_tag (running s) \<notin> set (thread_ready_list s # map general_tag rs)"
proof -
  show q: "ready_queue s rs" and "set rs \<subseteq> T" "threads_ok T s" "dirs_ok T ph s"
    using assms by (simp_all add: sched_ok_def)
  then show "running s \<in> T" by (simp add: threads_ok_def)
  have "distinct (map general_tag rs)" using qlist_distinct [OF q] by simp
  then show "distinct rs" by (simp add: distinct_map)
  show n: "running s \<notin> set rs"
  proof
    assume "running s \<in> set rs"
    then have "status (tcbs s (running s)) = THREAD_TASK_READY"
      using assms \<open>running s \<in> T\<close> by (auto simp: sched_ok_def)
    moreover have "status (tcbs s (running s)) = THREAD_TASK_RUNNING"
      using assms \<open>running s \<in> T\<close> by (auto simp: sched_ok_def)
    ultimately show False by simp
  qed
  show "general_tag (running s) \<notin> set (thread_ready_list s # map general_tag rs)"
    using n \<open>threads_ok T s\<close> \<open>running s \<in> T\<close> by (auto simp: threads_ok_def)
qed

text \<open>Switching to \<open>n\<close> restores the invariant when every other thread is queued or not runnable.\<close>

lemma run_thread_ok:
  assumes n: "n \<in> T" "n \<notin> set rs" and q: "qlist m (thread_ready_list s) (map general_tag rs)"
    and rs: "set rs \<subseteq> T" and t: "threads_ok T s" and d: "dirs_ok T ph s"
    and st: "\<forall>t \<in> T. t \<noteq> n \<longrightarrow> (status (tcbs s t) = THREAD_TASK_READY \<longleftrightarrow> t \<in> set rs) \<and>
      status (tcbs s t) \<noteq> THREAD_TASK_RUNNING"
  shows "sched_ok T ph rs (run_thread n (ph n) m s)"
proof -
  have "dirs_ok T ph (run_thread n (ph n) m s)"
    using d n(1) by (elim dirs_ok_cong) auto
  moreover have "threads_ok T (run_thread n (ph n) m s)" using t n(1) by (auto simp: threads_ok_def)
  ultimately show ?thesis using assms by (auto simp: sched_ok_def)
qed

text \<open>
  What a scheduling operation leaves alone: every queue that shares no node with the ready queue and
  the threads \<open>N\<close> it links or unlinks, the control blocks of threads outside \<open>C\<close>, locks and
  semaphores.
\<close>

definition sched_frame :: "addr set \<Rightarrow> addr set \<Rightarrow> kstate \<Rightarrow> kstate \<Rightarrow> bool" where
  "sched_frame N C s s' \<longleftrightarrow> semas s' = semas s \<and> locks s' = locks s \<and> idle_thread s' = idle_thread s \<and>
     thread_ready_list s' = thread_ready_list s \<and> pmem s' = pmem s \<and>
     (\<forall>k ys. qlist (lh s) k ys \<and> insert (thread_ready_list s) (general_tag ` N) \<inter> set (k # ys) = {} \<longrightarrow>
        qlist (lh s') k ys) \<and> (\<forall>t. t \<notin> C \<longrightarrow> tcbs s' t = tcbs s t)"

lemma sched_frameD:
  "sched_frame N C s s' \<Longrightarrow> qlist (lh s) k ys \<Longrightarrow>
     insert (thread_ready_list s) (general_tag ` N) \<inter> set (k # ys) = {} \<Longrightarrow> qlist (lh s') k ys"
  unfolding sched_frame_def by (metis (no_types, lifting))

lemma sched_frame_same:
  assumes "sched_frame N C s s'"
  shows "semas s' = semas s" "locks s' = locks s" "idle_thread s' = idle_thread s"
    "thread_ready_list s' = thread_ready_list s" "pmem s' = pmem s" "t \<notin> C \<Longrightarrow> tcbs s' t = tcbs s t"
  using assms by (simp_all add: sched_frame_def)

lemma sched_frame_mono:
  assumes f: "sched_frame N C s s'" and sub: "N \<subseteq> M" "C \<subseteq> E"
  shows "sched_frame M E s s'"
proof -
  have "qlist (lh s') k ys"
    if "qlist (lh s) k ys" "insert (thread_ready_list s) (general_tag ` M) \<inter> set (k # ys) = {}" for k ys
  proof (rule sched_frameD [OF f that(1)])
    show "insert (thread_ready_list s) (general_tag ` N) \<inter> set (k # ys) = {}"
      using that(2) sub by blast
  qed
  then show ?thesis
    using sched_frame_same [OF f] sub unfolding sched_frame_def by blast
qed

lemma sched_frame_trans:
  assumes "sched_frame N C s s'" and "sched_frame M D s' s''" and "N \<union> M \<subseteq> K" and "C \<union> D \<subseteq> E"
  shows "sched_frame K E s s''"
proof -
  have f: "sched_frame K E s s'" "sched_frame K E s' s''"
    using assms by (auto intro: sched_frame_mono)
  have "qlist (lh s'') k ys"
    if "qlist (lh s) k ys" "insert (thread_ready_list s) (general_tag ` K) \<inter> set (k # ys) = {}" for k ys
    using sched_frameD [OF f(2) sched_frameD [OF f(1) that]] that(2) sched_frame_same(4) [OF f(1)] by simp
  then show ?thesis
    using sched_frame_same [OF f(1)] sched_frame_same [OF f(2)] unfolding sched_frame_def by auto
qed

lemma sched_frame_upd: "sched_frame {} {c} s (upd_tcb c f (s\<lparr>intr := b\<rparr>))"
  "sched_frame {} {c} s (upd_tcb c f s)"
  by (simp_all add: sched_frame_def upd_tcb_def)

lemma sched_frame_add:
  assumes "ready_queue s rs"
  shows "sched_frame (insert c (set rs)) {c} s
      (upd_tcb c f (upd_lh (list_add_tail (general_tag c) (thread_ready_list s)) s))"
    and "sched_frame (insert c (set rs)) {c} s
      (upd_tcb c f (upd_lh (list_add (general_tag c) (thread_ready_list s)) s))"
  using ql.enqueue_other [OF _ assms, of _ _ "general_tag c"] ql.push_other [OF _ assms, of _ _ "general_tag c"]
  by (auto simp: sched_frame_def upd_tcb_def upd_lh_def)

text \<open>Leaving the processor: the thread is queued (\<open>qs\<close> is the queue with it) or not runnable.\<close>

lemma pick_next_ok:
  assumes q: "ready_queue s qs" and qs: "set qs \<subseteq> T" and t: "threads_ok T s" and d: "dirs_ok T ph s"
    and st: "\<forall>t \<in> T. (status (tcbs s t) = THREAD_TASK_READY \<longleftrightarrow> t \<in> set qs) \<and>
      status (tcbs s t) \<noteq> THREAD_TASK_RUNNING"
  shows "\<exists>s'. pick_next s = Some s' \<and> sched_ok T ph (tl qs) s' \<and> intr s' = intr s \<and>
    running s' = (if qs = [] then idle_thread s else hd qs) \<and>
    sched_frame (insert (idle_thread s) (set qs)) (insert (idle_thread s) (set qs)) s s'"
proof (cases qs)
  case Nil
  have i: "idle_thread s \<in> T" "idle_thread s \<noteq> 0" "general_tag (idle_thread s) \<noteq> thread_ready_list s"
    using t by (auto simp: threads_ok_def)
  then have "blocking (status (tcbs s (idle_thread s)))"
    using st t Nil by (cases "status (tcbs s (idle_thread s))") (auto simp: threads_ok_def blocking_def)
  then obtain m where m: "pick_next s = Some (run_thread (idle_thread s) (ph (idle_thread s)) m s)"
    "qlist m (thread_ready_list s) []"
    "\<forall>k ys. qlist (lh s) k ys \<and> thread_ready_list s \<notin> set (k # ys) \<and>
       general_tag (idle_thread s) \<notin> set (k # ys) \<longrightarrow> qlist m k ys"
    using pick_idle [OF _ _ i(3,2) dirs_ok_dir_of [OF d i(1)]] q Nil by blast
  have "sched_ok T ph [] (run_thread (idle_thread s) (ph (idle_thread s)) m s)"
    using st Nil by (intro run_thread_ok [OF i(1) _ _ _ t d]) (auto simp: m(2))
  moreover have "sched_frame {idle_thread s} {idle_thread s} s (run_thread (idle_thread s) (ph (idle_thread s)) m s)"
    using m(3) by (auto simp: sched_frame_def)
  ultimately show ?thesis using m Nil by simp
next
  case (Cons n rs)
  have n: "n \<in> T" "n \<noteq> 0" "n \<notin> set rs"
    using qs t Cons qlist_distinct [OF q] by (auto simp: threads_ok_def)
  note pf = pick_first [OF _ n(2) dirs_ok_dir_of [OF d n(1)], of rs]
  let ?m = "snd (list_pop (thread_ready_list s) (lh s))"
  have "sched_ok T ph rs (run_thread n (ph n) ?m s)"
    using st Cons qs q by (intro run_thread_ok [OF n(1,3) _ _ t d]) (auto intro: pf(2))
  moreover have "sched_frame (insert (idle_thread s) (set qs)) (insert (idle_thread s) (set qs)) s
      (run_thread n (ph n) ?m s)"
    using ql.dequeue_other [of "lh s" _ _ "thread_ready_list s" "general_tag n" "map general_tag rs"] q Cons
    by (auto simp: sched_frame_def)
  ultimately show ?thesis using pf(1) q Cons by simp
qed

section \<open>Scheduling steps\<close>

lemma schedule_select_running:
  assumes ok: "sched_ok T ph rs s"
  shows "\<exists>s'. schedule_select s = Some s' \<and> sched_ok T ph (tl (rs @ [running s])) s' \<and>
    intr s' = intr s \<and> running s' = hd (rs @ [running s]) \<and>
    sched_frame ({idle_thread s, running s} \<union> set rs) ({idle_thread s, running s} \<union> set rs) s s'"
proof -
  let ?c = "running s"
  let ?s = "upd_tcb ?c (\<lambda>t. t\<lparr>tticks := priority t, status := THREAD_TASK_READY\<rparr>)
    (upd_lh (list_add_tail (general_tag ?c) (thread_ready_list s)) s)"
  note d = sched_okD [OF ok]
  have "status (tcbs s ?c) = THREAD_TASK_RUNNING" using ok d(5) by (simp add: sched_ok_def)
  then have r: "requeue_current s = Some ?s"
    using on_ready_list_eq [OF d(1), of ?c] butlast_notin [OF d(7)]
    by (simp add: requeue_current_def running_thread_def Let_def)
  have q: "ready_queue ?s (rs @ [?c])"
    using ql.enqueue_lists [OF d(1,8)] by (simp add: upd_tcb_def upd_lh_def)
  have th: "threads_ok T ?s" using d(3) by (auto simp: threads_ok_def upd_tcb_def upd_lh_def)
  have di: "dirs_ok T ph ?s"
    using d(4) by (rule dirs_ok_cong) (use d(4) in \<open>auto simp: upd_tcb_def upd_lh_def dirs_ok_def\<close>)
  have "(status (tcbs ?s t) = THREAD_TASK_READY \<longleftrightarrow> t \<in> set (rs @ [?c])) \<and>
      status (tcbs ?s t) \<noteq> THREAD_TASK_RUNNING" if "t \<in> T" for t
    using ok that d(7) by (auto simp: sched_ok_def upd_tcb_def upd_lh_def)
  with pick_next_ok [OF q _ th di] d(2,5) obtain s' where
    s': "pick_next ?s = Some s'" "sched_ok T ph (tl (rs @ [?c])) s'" "intr s' = intr s"
    "running s' = hd (rs @ [?c])" "sched_frame (insert (idle_thread s) (set (rs @ [?c]))) (insert (idle_thread s) (set (rs @ [?c]))) ?s s'"
    by (auto simp: upd_tcb_def upd_lh_def)
  have "sched_frame ({idle_thread s, running s} \<union> set rs) ({idle_thread s, running s} \<union> set rs) s s'"
    by (rule sched_frame_trans [OF sched_frame_add(1) [OF d(1)] s'(5)]) auto
  then show ?thesis using s' by (simp add: schedule_select_def r)
qed

text \<open>The code of \<open>thread_block\<close> and \<open>thread_yield\<close> up to the switch.\<close>

definition thread_block_out :: "task_status \<Rightarrow> kstate \<Rightarrow> kstate option" where
  "thread_block_out st s = do {
     ASSERT (blocking st);
     schedule_select (upd_tcb (running_thread s) (\<lambda>t. t\<lparr>status := st\<rparr>) (s\<lparr>intr := False\<rparr>))
   }"

definition thread_yield_out :: "kstate \<Rightarrow> kstate option" where
  "thread_yield_out s = do {
     b \<leftarrow> on_ready_list (running_thread s) s;
     ASSERT (\<not> b);
     schedule_select (upd_tcb (running_thread s) (\<lambda>t. t\<lparr>status := THREAD_TASK_READY\<rparr>)
       (upd_lh (list_add_tail (general_tag (running_thread s)) (thread_ready_list s)) (s\<lparr>intr := False\<rparr>)))
   }"

lemma thread_block_split:
  "thread_block W st s = do {
     s' \<leftarrow> thread_block_out st s;
     s' \<leftarrow> (if running s' = running s then Some s' else W s');
     Some (intr_set_status (intr s) s')
   }"
  by (simp add: thread_block_def thread_block_out_def schedule_def intr_disable_eq running_thread_def
      upd_tcb_def ASSERT_bind bind_assoc Let_def)

lemma thread_yield_split:
  "thread_yield W s = do {
     s' \<leftarrow> thread_yield_out s;
     s' \<leftarrow> (if running s' = running s then Some s' else W s');
     Some (intr_set_status (intr s) s')
   }"
  by (cases "list_find_element (general_tag (running s)) (thread_ready_list s) (lh s)")
    (auto simp: thread_yield_def thread_yield_out_def schedule_def intr_disable_eq running_thread_def
      upd_tcb_def upd_lh_def ASSERT_bind bind_assoc on_ready_list_def Let_def)

text \<open>A thread that stops being runnable (it blocks, or it exits) hands the processor on.\<close>

lemma leave_processor_ok:
  assumes ok: "sched_ok T ph rs s" and st: "st \<noteq> THREAD_TASK_READY" "st \<noteq> THREAD_TASK_RUNNING"
    and di: "st = THREAD_TASK_DIED \<Longrightarrow> running s \<noteq> idle_thread s"
  shows "\<exists>s'. schedule_select (upd_tcb (running s) (\<lambda>t. t\<lparr>status := st\<rparr>) (s\<lparr>intr := False\<rparr>)) = Some s' \<and>
    sched_ok T ph (tl rs) s' \<and> \<not> intr s' \<and>
    running s' = (if rs = [] then idle_thread s else hd rs) \<and>
    sched_frame ({idle_thread s} \<union> set rs) ({idle_thread s, running s} \<union> set rs) s s' \<and>
    (running s \<noteq> idle_thread s \<longrightarrow> status (tcbs s' (running s)) = st)"
proof -
  let ?s = "upd_tcb (running s) (\<lambda>t. t\<lparr>status := st\<rparr>) (s\<lparr>intr := False\<rparr>)"
  note d = sched_okD [OF ok]
  have r: "requeue_current ?s = Some ?s"
    using st by (auto simp: requeue_current_def running_thread_def upd_tcb_def Let_def)
  have q: "ready_queue ?s rs" using d(1) by (simp add: upd_tcb_def)
  have th: "threads_ok T ?s" using d(3) di by (auto simp: threads_ok_def upd_tcb_def)
  have di: "dirs_ok T ph ?s"
    using d(4) by (rule dirs_ok_cong) (use d(4) in \<open>auto simp: upd_tcb_def dirs_ok_def\<close>)
  have "(status (tcbs ?s t) = THREAD_TASK_READY \<longleftrightarrow> t \<in> set rs) \<and> status (tcbs ?s t) \<noteq> THREAD_TASK_RUNNING"
    if "t \<in> T" for t
    using ok that st d(7) by (auto simp: sched_ok_def upd_tcb_def)
  with pick_next_ok [OF q d(2) th di] obtain s' where s': "pick_next ?s = Some s'"
    "sched_ok T ph (tl rs) s'" "\<not> intr s'" "running s' = (if rs = [] then idle_thread s else hd rs)"
    "sched_frame (insert (idle_thread s) (set rs)) (insert (idle_thread s) (set rs)) ?s s'"
    by (auto simp: upd_tcb_def)
  have "sched_frame ({idle_thread s} \<union> set rs) ({idle_thread s, running s} \<union> set rs) s s'"
    by (rule sched_frame_trans [OF sched_frame_upd(1) s'(5)]) auto
  moreover have "status (tcbs s' (running s)) = st" if "running s \<noteq> idle_thread s"
    using sched_frame_same(6) [OF s'(5), of "running s"] that d(7) by (simp add: upd_tcb_def)
  ultimately show ?thesis
    using s' by (simp add: schedule_select_def r)
qed

lemma thread_block_out_ok:
  assumes ok: "sched_ok T ph rs s" and st: "blocking st"
  shows "\<exists>s'. thread_block_out st s = Some s' \<and> sched_ok T ph (tl rs) s' \<and> \<not> intr s' \<and>
    running s' = (if rs = [] then idle_thread s else hd rs) \<and>
    sched_frame ({idle_thread s} \<union> set rs) ({idle_thread s, running s} \<union> set rs) s s' \<and>
    (running s \<noteq> idle_thread s \<longrightarrow> status (tcbs s' (running s)) = st)"
proof -
  have "st \<noteq> THREAD_TASK_READY" "st \<noteq> THREAD_TASK_RUNNING" "st \<noteq> THREAD_TASK_DIED"
    using st by (auto simp: blocking_def)
  with leave_processor_ok [OF ok, of st] st show ?thesis
    by (simp add: thread_block_out_def running_thread_def)
qed

lemma thread_yield_out_ok:
  assumes ok: "sched_ok T ph rs s" and ne: "rs \<noteq> []"
  shows "\<exists>s'. thread_yield_out s = Some s' \<and> sched_ok T ph (tl rs @ [running s]) s' \<and> \<not> intr s' \<and>
    running s' = hd rs"
proof -
  let ?c = "running s" and ?h = "thread_ready_list s"
  let ?s = "upd_tcb ?c (\<lambda>t. t\<lparr>status := THREAD_TASK_READY\<rparr>)
    (upd_lh (list_add_tail (general_tag ?c) ?h) (s\<lparr>intr := False\<rparr>))"
  let ?s2 = "upd_lh (list_add_tail (general_tag ?c) ?h) ?s"
  note d = sched_okD [OF ok]
  have q: "ready_queue ?s (rs @ [?c])"
    using ql.enqueue_lists [OF d(1,8)] by (simp add: upd_tcb_def upd_lh_def)
  then have q2: "ready_queue ?s2 (rs @ [?c])"
    using list_add_tail_again_qlist [of "lh ?s" ?h "map general_tag rs" "general_tag ?c"] ne
    by (simp add: upd_tcb_def upd_lh_def)
  have r: "requeue_current ?s = Some ?s2"
    using on_ready_list_eq [OF q, of ?c] d(7)
    by (auto simp: requeue_current_def running_thread_def Let_def upd_tcb_def upd_lh_def)
  have th: "threads_ok T ?s2" using d(3) by (auto simp: threads_ok_def upd_tcb_def upd_lh_def)
  have di: "dirs_ok T ph ?s2"
    using d(4) by (rule dirs_ok_cong) (use d(4) in \<open>auto simp: upd_tcb_def upd_lh_def dirs_ok_def\<close>)
  have "(status (tcbs ?s2 t) = THREAD_TASK_READY \<longleftrightarrow> t \<in> set (rs @ [?c])) \<and>
      status (tcbs ?s2 t) \<noteq> THREAD_TASK_RUNNING" if "t \<in> T" for t
    using ok that d(7) by (auto simp: sched_ok_def upd_tcb_def upd_lh_def)
  with pick_next_ok [OF q2 _ th di] d(2,5) ne
  have "\<exists>s'. pick_next ?s2 = Some s' \<and> sched_ok T ph (tl rs @ [?c]) s' \<and> \<not> intr s' \<and> running s' = hd rs"
    by (auto simp: upd_tcb_def upd_lh_def)
  moreover have "on_ready_list ?c s = Some False"
    using on_ready_list_eq [OF d(1), of ?c] butlast_notin [OF d(7)] by simp
  ultimately show ?thesis
    by (simp add: thread_yield_out_def running_thread_def schedule_select_def r)
qed

lemma thread_unblock_sched_ok:
  assumes ok: "sched_ok T ph rs s" and t: "t \<in> T" "blocking (status (tcbs s t))"
  shows "\<exists>s'. thread_unblock t s = Some s' \<and> sched_ok T ph (t # rs) s' \<and> running s' = running s \<and> intr s' = intr s \<and>
    sched_frame (insert t (set rs)) {t} s s'"
proof -
  note d = sched_okD [OF ok]
  have n: "t \<notin> set rs" "t \<noteq> running s" using ok t by (auto simp: sched_ok_def blocking_def)
  let ?s = "s\<lparr>lh := list_add (general_tag t) (thread_ready_list s) (lh s),
    tcbs := (tcbs s)(t := (tcbs s t)\<lparr>status := THREAD_TASK_READY\<rparr>)\<rparr>"
  have u: "thread_unblock t s = Some ?s" by (rule thread_unblock_ok [OF d(1) t(2) n(1)])
  have "general_tag t \<notin> set (thread_ready_list s # map general_tag rs)"
    using n d(3) t(1) by (auto simp: threads_ok_def)
  then have q: "ready_queue ?s (t # rs)" using ql.push_lists [OF d(1)] by simp
  have th: "threads_ok T ?s" using d(3) by (auto simp: threads_ok_def)
  have di: "dirs_ok T ph ?s"
    using d(4) by (rule dirs_ok_cong) (use d(4) in \<open>auto simp: dirs_ok_def\<close>)
  have "sched_ok T ph (t # rs) ?s" using q th di ok t n by (auto simp: sched_ok_def)
  moreover have "sched_frame (insert t (set rs)) {t} s ?s"
    using sched_frame_add(2) [OF d(1), of t "\<lambda>t. t\<lparr>status := THREAD_TASK_READY\<rparr>"]
    by (simp add: upd_tcb_def upd_lh_def)
  ultimately show ?thesis using u by simp
qed

text \<open>A thread that is neither running nor queued is added at the end of the ready queue.\<close>

lemma enlist_ok:
  assumes ok: "sched_ok T ph rs s" and t: "t \<in> T" "t \<noteq> running s" "status (tcbs s t) \<noteq> THREAD_TASK_READY"
    and b: "status b = THREAD_TASK_READY" "pgdir b = pgdir (tcbs s t)"
  shows "sched_ok T ph (rs @ [t]) (s\<lparr>lh := list_add_tail (general_tag t) (thread_ready_list s) (lh s),
    tcbs := (tcbs s)(t := b)\<rparr>)" (is "sched_ok T ph _ ?s")
proof -
  note d = sched_okD [OF ok]
  have n: "t \<notin> set rs" using ok t by (auto simp: sched_ok_def)
  have "general_tag t \<notin> set (thread_ready_list s # map general_tag rs)"
    using n d(3) t(1) by (auto simp: threads_ok_def)
  then have q: "ready_queue ?s (rs @ [t])" using ql.enqueue_lists [OF d(1)] by simp
  have th: "threads_ok T ?s" using d(3) b(1) by (auto simp: threads_ok_def)
  have di: "dirs_ok T ph ?s"
    using d(4) by (rule dirs_ok_cong) (use d(4) b(2) in \<open>auto simp: dirs_ok_def\<close>)
  show ?thesis using q th di ok t n b(1) by (auto simp: sched_ok_def)
qed

lemma try_to_wake_up_sched_ok:
  assumes ok: "sched_ok T ph rs s" and t: "t \<in> T" "t \<noteq> running s" "status (tcbs s t) \<noteq> THREAD_TASK_READY"
    and tag: "\<not> task_on_readylist t s"
  shows "\<exists>s'. try_to_wake_up t s = (True, s') \<and> sched_ok T ph (rs @ [t]) s' \<and> running s' = running s"
proof -
  have "try_to_wake_up t s = (True, s\<lparr>lh := list_add_tail (general_tag t) (thread_ready_list s) (lh s),
      tcbs := (tcbs s)(t := (tcbs s t)\<lparr>status := THREAD_TASK_READY\<rparr>)\<rparr>)"
    using tag by (simp add: try_to_wake_up_def intr_disable_eq intr_set_status_eq task_on_readylist_def
        add_to_readylist_def upd_tcb_def upd_lh_def Let_def)
  then show ?thesis using enlist_ok [OF ok t] by simp
qed

text \<open>Waking a thread that is ready changes nothing: its list node is not linked to itself.\<close>

lemma qlist_next_neq:
  assumes "qlist m h xs" and "x \<in> set xs"
  shows "nxt m x \<noteq> x"
proof -
  obtain ys zs where s: "xs = ys @ x # zs" using assms(2) by (meson split_list)
  have "fwd m ((h # ys) @ (x # zs @ [h]))" using assms(1) s by (simp add: qlist_def)
  then have "fwd m (x # (zs @ [h]))" by (subst (asm) fwd_append) simp_all
  then have "nxt m x = hd (zs @ [h])" by (subst (asm) fwd_Cons) simp_all
  then show ?thesis using assms(1) s by (cases zs) (auto simp: qlist_def)
qed

lemma try_to_wake_up_ready:
  assumes ok: "sched_ok T ph rs s" and t: "t \<in> T" "status (tcbs s t) = THREAD_TASK_READY"
  shows "try_to_wake_up t s = (False, s)"
proof -
  have "t \<in> set rs" using ok t by (auto simp: sched_ok_def)
  then have "task_on_readylist t s"
    using qlist_next_neq [OF sched_okD(1) [OF ok], of "general_tag t"] by (simp add: task_on_readylist_def)
  moreover have "(tcbs s)(t := (tcbs s t)\<lparr>status := THREAD_TASK_READY\<rparr>) = tcbs s"
    using t(2) by (intro ext) simp
  ultimately show ?thesis
    by (simp add: try_to_wake_up_def intr_disable_eq intr_set_status_eq task_on_readylist_def
        upd_tcb_def Let_def)
qed

text \<open>
  Nothing in \<open>try_to_wake_up\<close> looks at the running thread: waking it up, as a timer can do, marks
  it READY while it runs, and the invariant is lost.
\<close>

lemma wake_running_breaks:
  assumes "sched_ok T ph rs s"
  shows "\<not> sched_ok T ph' rs' (snd (try_to_wake_up (running s) s))"
proof -
  have "running (snd (try_to_wake_up (running s) s)) = running s"
    "status (tcbs (snd (try_to_wake_up (running s) s)) (running s)) = THREAD_TASK_READY"
    by (simp_all add: try_to_wake_up_def intr_disable_eq intr_set_status_eq add_to_readylist_def
        upd_tcb_def upd_lh_def Let_def)
  moreover have "running s \<in> T" by (rule sched_okD(5) [OF assms])
  ultimately show ?thesis unfolding sched_ok_def by (metis task_status.distinct(1))
qed

text \<open>
  A sleeping thread whose node is linked in some list other than the ready list becomes READY
  without being queued: \<open>task_on_readylist\<close> takes any linked node for one of the ready list.
\<close>

lemma wake_linked_breaks:
  assumes ok: "sched_ok T ph rs s" and t: "t \<in> T" "status (tcbs s t) \<noteq> THREAD_TASK_READY"
    and tag: "task_on_readylist t s"
  shows "\<not> sched_ok T ph' rs' (snd (try_to_wake_up t s))"
proof
  assume w: "sched_ok T ph' rs' (snd (try_to_wake_up t s))"
  have s: "lh (snd (try_to_wake_up t s)) = lh s"
    "thread_ready_list (snd (try_to_wake_up t s)) = thread_ready_list s"
    "status (tcbs (snd (try_to_wake_up t s)) t) = THREAD_TASK_READY"
    using tag by (simp_all add: try_to_wake_up_def intr_disable_eq intr_set_status_eq
        task_on_readylist_def upd_tcb_def upd_lh_def Let_def)
  then have "map general_tag rs' = map general_tag rs"
    using qlist_functional sched_okD(1) [OF w] sched_okD(1) [OF ok] by simp
  then have "rs' = rs" by (rule map_injective) (simp add: inj_def)
  then show False using w s(3) ok t by (auto simp: sched_ok_def)
qed

lemma sched_ok_cong:
  assumes "lh s' = lh s" "thread_ready_list s' = thread_ready_list s" "tcbs s' = tcbs s"
    "running s' = running s" "idle_thread s' = idle_thread s" "pmem s' = pmem s" "cr3 s' = cr3 s"
  shows "sched_ok T ph rs s' = sched_ok T ph rs s"
proof -
  have "addr_v2p v (s'\<lparr>cr3 := c\<rparr>) = addr_v2p v (s\<lparr>cr3 := c\<rparr>)" for v c
    using assms by (intro addr_v2p_cong) simp_all
  then show ?thesis using assms by (simp add: sched_ok_def threads_ok_def dirs_ok_def)
qed

text \<open>Other lists may change as long as the ready queue stays well linked.\<close>

lemma sched_ok_lh:
  assumes "sched_ok T ph rs s" and "qlist m (thread_ready_list s) (map general_tag rs)"
  shows "sched_ok T ph rs (s\<lparr>lh := m\<rparr>)"
proof -
  have "addr_v2p v (s\<lparr>lh := m, cr3 := c\<rparr>) = addr_v2p v (s\<lparr>cr3 := c\<rparr>)" for v c
    by (rule addr_v2p_cong) simp_all
  then show ?thesis using assms by (simp add: sched_ok_def threads_ok_def dirs_ok_def)
qed

lemma sched_ok_intr: "sched_ok T ph rs (intr_set_status b s) = sched_ok T ph rs s"
  by (rule sched_ok_cong) (simp_all add: intr_set_status_eq)

text \<open>
  Code that leaves the data of the scheduler alone: the ready list, the running and the idle thread,
  the state and page directory of every thread and where the directories are mapped.
\<close>

definition sched_same :: "addr set \<Rightarrow> kstate \<Rightarrow> kstate \<Rightarrow> bool" where
  "sched_same T s s' \<longleftrightarrow> thread_ready_list s' = thread_ready_list s \<and> idle_thread s' = idle_thread s \<and>
     running s' = running s \<and> cr3 s' = cr3 s \<and>
     (\<forall>xs. qlist (lh s) (thread_ready_list s) xs \<longrightarrow> qlist (lh s') (thread_ready_list s) xs) \<and>
     (\<forall>t \<in> T. status (tcbs s' t) = status (tcbs s t) \<and> pgdir (tcbs s' t) = pgdir (tcbs s t) \<and>
        (\<forall>c. addr_v2p (pgdir (tcbs s t)) (s'\<lparr>cr3 := c\<rparr>) = addr_v2p (pgdir (tcbs s t)) (s\<lparr>cr3 := c\<rparr>)))"

lemma sched_same_ok:
  assumes "sched_same T s s'" and "sched_ok T ph rs s"
  shows "sched_ok T ph rs s'"
proof -
  have "threads_ok T s'" "dirs_ok T ph s'"
    using assms by (auto simp: sched_same_def sched_ok_def threads_ok_def dirs_ok_def)
  then show ?thesis using assms by (simp add: sched_same_def sched_ok_def)
qed

text \<open>
  One scheduling action of the kernel, by the running thread or by an interrupt. \<open>Exit\<close> is the
  scheduling of \<open>thread_exit\<close> for the running thread (not the idle thread), \<open>Create\<close> the
  initialisation of a control block \<open>b\<close> by \<open>thread_start\<close> and its entry in the ready list;
  \<open>T\<close> contains the threads that are still to be created. \<open>Resume\<close> is the flag that a resumed
  thread restores, \<open>Other\<close> any code outside the scheduler. Three actions are not steps because
  they break the invariant: yielding while no other thread is ready (the property on the empty ready
  list below), waking the running thread (\<open>wake_running_breaks\<close>) and waking a thread whose node is
  linked in another list (\<open>wake_linked_breaks\<close>).
\<close>

inductive sched_step :: "addr set \<Rightarrow> kstate \<Rightarrow> kstate \<Rightarrow> bool" for T where
  Preempt: "schedule_select s = Some s' \<Longrightarrow> sched_step T s s'"
| Block: "thread_block_out st s = Some s' \<Longrightarrow> sched_step T s s'"
| Yield: "\<not> list_is_empty (thread_ready_list s) (lh s) \<Longrightarrow> thread_yield_out s = Some s' \<Longrightarrow>
    sched_step T s s'"
| Unblock: "t \<in> T \<Longrightarrow> thread_unblock t s = Some s' \<Longrightarrow> sched_step T s s'"
| Wake: "t \<in> T \<Longrightarrow> t \<noteq> running s \<Longrightarrow>
    status (tcbs s t) = THREAD_TASK_READY \<or> \<not> task_on_readylist t s \<Longrightarrow>
    sched_step T s (snd (try_to_wake_up t s))"
| Create: "t \<in> T \<Longrightarrow> t \<noteq> running s \<Longrightarrow> status (tcbs s t) \<noteq> THREAD_TASK_READY \<Longrightarrow>
    status b = THREAD_TASK_READY \<Longrightarrow> pgdir b = pgdir (tcbs s t) \<Longrightarrow>
    sched_step T s (s\<lparr>lh := list_add_tail (general_tag t) (thread_ready_list s) (lh s),
      tcbs := (tcbs s)(t := b)\<rparr>)"
| Exit: "running s \<noteq> idle_thread s \<Longrightarrow>
    schedule_select (upd_tcb (running s) (\<lambda>t. t\<lparr>status := THREAD_TASK_DIED\<rparr>) (s\<lparr>intr := False\<rparr>)) =
      Some s' \<Longrightarrow> sched_step T s s'"
| Resume: "sched_step T s (intr_set_status b s)"
| Other: "sched_same T s s' \<Longrightarrow> sched_step T s s'"

inductive sched_reach :: "addr set \<Rightarrow> kstate \<Rightarrow> kstate \<Rightarrow> bool" for T where
  Start: "sched_reach T s s"
| Step: "sched_reach T s s' \<Longrightarrow> sched_step T s' s'' \<Longrightarrow> sched_reach T s s''"

inductive_cases sched_stepE: "sched_step T s s'"

lemma sched_step_ok:
  assumes "sched_step T s s'" and ok: "sched_ok T ph rs s"
  shows "\<exists>rs'. sched_ok T ph rs' s'"
  using assms(1)
proof (cases rule: sched_step.cases)
  case Preempt
  then show ?thesis using schedule_select_running [OF ok] by auto
next
  case (Block st)
  then have "blocking st" by (auto simp: thread_block_out_def ASSERT_bind split: if_splits)
  then obtain s1 where "thread_block_out st s = Some s1" "sched_ok T ph (tl rs) s1"
    using thread_block_out_ok [OF ok, of st] by blast
  then show ?thesis using Block by auto
next
  case Yield
  then have "rs \<noteq> []" using ql.empty_iff [OF sched_okD(1) [OF ok]] by auto
  then show ?thesis using Yield thread_yield_out_ok [OF ok] by auto
next
  case (Unblock t)
  then have "blocking (status (tcbs s t))" by (auto simp: thread_unblock_def ASSERT_bind split: if_splits)
  then obtain s1 where "thread_unblock t s = Some s1" "sched_ok T ph (t # rs) s1"
    using thread_unblock_sched_ok [OF ok Unblock(1)] by blast
  then show ?thesis using Unblock by auto
next
  case (Wake t)
  show ?thesis
  proof (cases "status (tcbs s t) = THREAD_TASK_READY")
    case True
    with Wake ok show ?thesis using try_to_wake_up_ready [OF ok Wake(2)] by auto
  next
    case False
    with Wake show ?thesis using try_to_wake_up_sched_ok [OF ok Wake(2,3)] by auto
  qed
next
  case (Create t b)
  then show ?thesis using enlist_ok [OF ok Create(2-6)] by auto
next
  case Exit
  then show ?thesis using leave_processor_ok [OF ok, of THREAD_TASK_DIED] by auto
next
  case (Resume b)
  then show ?thesis using ok sched_ok_intr by auto
next
  case Other
  then show ?thesis using sched_same_ok [OF _ ok] by blast
qed

section \<open>Properties\<close>

text \<open>A small system: the main thread runs, two kernel threads are ready, the idle thread is blocked.\<close>

definition sample_threads :: "addr set" where
  "sample_threads = {0xc009e000, 0xc0101000, 0xc0102000, 0xc0105000}"

definition sample_sched :: kstate where
  "sample_sched = boot_kstate\<lparr>
     lh := list_add_tail (general_tag 0xc0102000) 0xc0008000
       (list_add_tail (general_tag 0xc0101000) 0xc0008000 (lh boot_kstate)),
     tcbs := (tcbs boot_kstate)(0xc0101000 := zero_tcb\<lparr>status := THREAD_TASK_READY, pid := 2\<rparr>,
       0xc0102000 := zero_tcb\<lparr>status := THREAD_TASK_READY, pid := 3\<rparr>,
       0xc0105000 := zero_tcb\<lparr>status := THREAD_TASK_BLOCKED\<rparr>)\<rparr>"

lemma sample_sched_ok: "sched_ok sample_threads (\<lambda>_. 0x100000) [0xc0101000, 0xc0102000] sample_sched"
proof -
  have "qlist (lh boot_kstate) 0xc0008000 []" by (simp add: qlist_Nil boot_kstate_def)
  then have "qlist (list_add_tail (general_tag 0xc0101000) 0xc0008000 (lh boot_kstate)) 0xc0008000
      [general_tag 0xc0101000]"
    using ql.enqueue_lists [of "lh boot_kstate" "0xc0008000" "[]" "general_tag 0xc0101000"]
    by (simp add: general_tag_def)
  from ql.enqueue_lists [OF this, of "general_tag 0xc0102000"]
  have "ready_queue sample_sched [0xc0101000, 0xc0102000]"
    by (simp add: sample_sched_def general_tag_def boot_kstate_def)
  then show ?thesis
    by (auto simp: sched_ok_def threads_ok_def dirs_ok_def sample_threads_def sample_sched_def
        boot_kstate_def zero_tcb_def general_tag_def)
qed



text \<open>C6. Round robin: when the running thread is preempted \<open>k\<close> times in a row, \<open>schedule\<close>
  succeeds every time and the running thread followed by the ready queue is rotated by \<open>k\<close>; so
  every ready thread runs after at most as many preemptions as there are ready threads.\<close>

theorem schedule_round_robin:
  assumes "sched_ok T ph rs s"
  shows "\<exists>s' rs'. ((\<lambda>r. r \<bind> schedule_select) ^^ k) (Some s) = Some s' \<and> sched_ok T ph rs' s' \<and>
    running s' # rs' = rotate k (running s # rs)"
proof (induction k)
  case 0
  then show ?case using assms by auto
next
  case (Suc k)
  then obtain s1 rs1 where s1: "((\<lambda>r. r \<bind> schedule_select) ^^ k) (Some s) = Some s1"
    "sched_ok T ph rs1 s1" "running s1 # rs1 = rotate k (running s # rs)" by blast
  from schedule_select_running [OF s1(2)] obtain s2 where s2: "schedule_select s1 = Some s2"
    "sched_ok T ph (tl (rs1 @ [running s1])) s2" "running s2 = hd (rs1 @ [running s1])" by blast
  have "running s2 # tl (rs1 @ [running s1]) = rotate1 (running s1 # rs1)"
    using s2(3) by (cases rs1) auto
  then have "running s2 # tl (rs1 @ [running s1]) = rotate (Suc k) (running s # rs)"
    unfolding s1(3) by simp
  moreover have "((\<lambda>r. r \<bind> schedule_select) ^^ Suc k) (Some s) = Some s2" using s1(1) s2(1) by simp
  ultimately show ?case using s2(2) by blast
qed

theorem schedule_round_robin_witness:
  "\<exists>s'. ((\<lambda>r. r \<bind> schedule_select) ^^ 2) (Some sample_sched) = Some s' \<and> running s' = 0xc0102000"
proof -
  have "running sample_sched = 0xc009e000" by (simp add: sample_sched_def boot_kstate_def)
  with schedule_round_robin [OF sample_sched_ok, of 2] show ?thesis
    by (auto simp: rotate_def numeral_2_eq_2)
qed

text \<open>C36. Blocking and unblocking: a thread that blocks leaves the processor to the first ready
  thread, or to the idle thread when none is ready, whatever the other threads do until it runs
  again; unblocking puts a thread at the front of the ready queue, so it runs next.\<close>

theorem block_unblock:
  assumes "sched_ok T ph rs s" and "blocking st" and "t \<in> T" and "blocking (status (tcbs s t))"
  shows "(\<exists>s'. sched_ok T ph (tl rs) s' \<and> running s' = (if rs = [] then idle_thread s else hd rs) \<and>
      (\<forall>W. thread_block W st s = map_option (intr_set_status (intr s))
         (if running s' = running s then Some s' else W s'))) \<and>
    (\<exists>s' s''. thread_unblock t s = Some s' \<and> sched_ok T ph (t # rs) s' \<and> running s' = running s \<and>
      schedule_select s' = Some s'' \<and> running s'' = t)"
proof -
  obtain s' where "thread_block_out st s = Some s'" "sched_ok T ph (tl rs) s'"
    "running s' = (if rs = [] then idle_thread s else hd rs)"
    using thread_block_out_ok [OF assms(1,2)] by blast
  then have 1: "\<exists>s'. sched_ok T ph (tl rs) s' \<and> running s' = (if rs = [] then idle_thread s else hd rs) \<and>
      (\<forall>W. thread_block W st s = map_option (intr_set_status (intr s))
         (if running s' = running s then Some s' else W s'))"
    by (intro exI [of _ s']) (auto simp: thread_block_split map_conv_bind_option comp_def)
  obtain s1 where s1: "thread_unblock t s = Some s1" "sched_ok T ph (t # rs) s1" "running s1 = running s"
    using thread_unblock_sched_ok [OF assms(1,3,4)] by blast
  with schedule_select_running [OF s1(2)] 1 show ?thesis by auto
qed

theorem block_unblock_witness:
  "\<exists>s' s''. thread_unblock 0xc0105000 sample_sched = Some s' \<and> schedule_select s' = Some s'' \<and>
     running s'' = 0xc0105000"
  using block_unblock [OF sample_sched_ok, of THREAD_TASK_BLOCKED "0xc0105000"]
  by (auto simp: blocking_def sample_threads_def sample_sched_def)

text \<open>Yielding with an empty ready list corrupts the list: \<open>schedule\<close> does not see the thread
  that \<open>thread_yield\<close> has just queued as the last node and links it a second time. The thread goes
  on running, but the ready list still points to it, and its own link points to itself, so the
  list no longer ends.\<close>

theorem yield_alone_corrupts:
  assumes "sched_ok T ph [] s"
  shows "\<exists>s'. thread_yield W s = Some s' \<and> running s' = running s \<and>
    thread_ready_list s' = thread_ready_list s \<and>
    status (tcbs s' (running s)) = THREAD_TASK_RUNNING \<and>
    nxt (lh s') (thread_ready_list s') = general_tag (running s) \<and>
    nxt (lh s') (general_tag (running s)) = general_tag (running s) \<and> \<not> (\<exists>xs. qlist (lh s') (thread_ready_list s') xs)"
proof -
  let ?c = "running s" and ?h = "thread_ready_list s" and ?n = "general_tag (running s)"
  note d = sched_okD [OF assms]
  have h: "nxt (lh s) ?h = ?h" "prv (lh s) ?h = ?h" "?n \<noteq> ?h" using d(1,8) by (auto simp: qlist_Nil)
  let ?s = "upd_tcb ?c (\<lambda>t. t\<lparr>status := THREAD_TASK_READY\<rparr>)
    (upd_lh (list_add_tail ?n ?h) (s\<lparr>intr := False\<rparr>))"
  let ?s2 = "upd_lh (list_add_tail ?n ?h) ?s"
  have q: "ready_queue ?s [?c]"
    using ql.enqueue_lists [OF d(1,8)] by (simp add: upd_tcb_def upd_lh_def)
  have r: "requeue_current ?s = Some ?s2"
    using on_ready_list_eq [OF q, of ?c]
    by (simp add: requeue_current_def running_thread_def Let_def upd_tcb_def upd_lh_def)
  have m: "nxt (lh ?s2) ?h = ?n" "nxt (lh ?s2) ?n = ?h" "prv (lh ?s2) ?n = ?n"
    using h by (simp_all add: upd_tcb_def upd_lh_def list_add_tail_def heap_upd Let_def)
  have "?c \<noteq> 0" using d(3,5) by (auto simp: threads_ok_def)
  moreover have "dir_of ?s2 ?c = Some (ph ?c)"
    using dirs_ok_dir_of [OF d(4,5)] addr_v2p_cong [of ?s2 s]
    by (simp add: dir_of_def upd_tcb_def upd_lh_def split: if_splits)
  ultimately have p: "pick_next ?s2 = Some (run_thread ?c (ph ?c) (list_del_init ?n (lh ?s2)) ?s2)"
    using pick_first_node [of ?s2 ?c] m(1) h(3) by (simp add: upd_tcb_def upd_lh_def)
  let ?s3 = "run_thread ?c (ph ?c) (list_del_init ?n (lh ?s2)) ?s2"
  have l: "nxt (lh ?s3) ?h = ?n" "nxt (lh ?s3) ?n = ?n"
    using m h by (simp_all add: list_del_init_def list_del_def INIT_LIST_HEAD_def heap_upd Let_def)
  have "on_ready_list ?c s = Some False" using on_ready_list_eq [OF d(1), of ?c] by simp
  then have "thread_yield_out s = Some ?s3"
    using r p by (simp add: thread_yield_out_def running_thread_def schedule_select_def)
  then have y: "thread_yield W s = Some (intr_set_status (intr s) ?s3)" by (simp add: thread_yield_split)
  have "\<not> qlist (lh ?s3) ?h xs" for xs
  proof
    assume ql: "qlist (lh ?s3) ?h xs"
    then have "hd (xs @ [?h]) = ?n" using qlist_hd [OF ql] l(1) by simp
    then obtain ys where "xs = ?n # ys" using h(3) by (cases xs) auto
    then show False using ql l(2) h(3) by (cases ys) (auto simp: qlist_def)
  qed
  then show ?thesis using y l by (auto simp: intr_set_status_eq upd_tcb_def upd_lh_def)
qed

definition sample_alone :: kstate where
  "sample_alone = boot_kstate\<lparr>tcbs := (tcbs boot_kstate)(0xc0105000 :=
     zero_tcb\<lparr>status := THREAD_TASK_BLOCKED\<rparr>)\<rparr>"

theorem yield_alone_corrupts_witness:
  "\<exists>s'. thread_yield (\<lambda>_. None) sample_alone = Some s' \<and> running s' = 0xc009e000 \<and>
     nxt (lh s') 0xc0008000 = general_tag 0xc009e000"
proof -
  have "sched_ok {0xc009e000, 0xc0105000} (\<lambda>_. 0x100000) [] sample_alone"
    by (auto simp: sample_alone_def sched_ok_def threads_ok_def dirs_ok_def boot_kstate_def zero_tcb_def
        general_tag_def qlist_Nil)
  from yield_alone_corrupts [OF this, of "\<lambda>_. None"] show ?thesis
    by (auto simp: sample_alone_def boot_kstate_def)
qed

end
