(* ===== verification/Semaphore.thy ===== *)
theory Semaphore
  imports Sched
begin

text \<open>
  Semaphores and locks (\<^verbatim>\<open>core/thread/semaphore.c\<close>). \<open>semaphore_down\<close> and \<open>lock_fetch\<close> may
  block, so they take the parameter \<open>W\<close> of the scheduler (the run of the other threads until the
  blocked thread is resumed); the loop of \<open>semaphore_down\<close> is a partial function because a thread
  may be woken and find the semaphore taken again for ever.

  Two views of the same code: the sequential one (what a call returns), and the interleaving of the
  sections between two switch points for any number of threads that use one lock.
\<close>

section \<open>Operations\<close>

definition set_sema :: "addr \<Rightarrow> u32 \<Rightarrow> kstate \<Rightarrow> kstate" where
  "set_sema sema v s = s\<lparr>semas := (semas s)(sema := v)\<rparr>"

definition semaphore_init :: "addr \<Rightarrow> u32 \<Rightarrow> kstate \<Rightarrow> kstate" where
  "semaphore_init sema value s = upd_lh (INIT_LIST_HEAD (waiting_queue sema)) (set_sema sema value s)"

definition lock_init :: "addr \<Rightarrow> kstate \<Rightarrow> kstate" where
  "lock_init l s = semaphore_init (lock_semaphore l) 1
     (upd_lock l (\<lambda>k. k\<lparr>holder := 0, holder_repeat_nr := 0\<rparr>) s)"

partial_function (option) down_loop ::
    "(kstate \<Rightarrow> kstate option) \<Rightarrow> addr \<Rightarrow> kstate \<Rightarrow> kstate option" where
  "down_loop W sema s =
     (if semas s sema = 0 then do {
        ASSERT (semas s sema = 0);
        b \<leftarrow> list_find_element (general_tag (running_thread s)) (waiting_queue sema) (lh s);
        if b then PANIC
        else do {
          s \<leftarrow> thread_block W THREAD_TASK_BLOCKED
            (upd_lh (list_add_tail (general_tag (running_thread s)) (waiting_queue sema)) s);
          down_loop W sema s
        }
      } else Some s)"

definition semaphore_down :: "(kstate \<Rightarrow> kstate option) \<Rightarrow> addr \<Rightarrow> kstate \<Rightarrow> kstate option" where
  "semaphore_down W sema s = do {
     let (old_status, s) = intr_disable s;
     s \<leftarrow> down_loop W sema s;
     let s = set_sema sema (semas s sema - 1) s;
     ASSERT (semas s sema = 0);
     Some (intr_set_status old_status s)
   }"

definition semaphore_up :: "addr \<Rightarrow> kstate \<Rightarrow> kstate option" where
  "semaphore_up sema s = do {
     let (old_status, s) = intr_disable s;
     s \<leftarrow> (if \<not> list_is_empty (waiting_queue sema) (lh s)
           then let (tag, m) = list_pop (waiting_queue sema) (lh s)
                in thread_unblock (thread_of_general_tag tag) (s\<lparr>lh := m\<rparr>)
           else Some s);
     let s = set_sema sema (semas s sema + 1) s;
     ASSERT (semas s sema = 1);
     Some (intr_set_status old_status s)
   }"

definition lock_fetch :: "(kstate \<Rightarrow> kstate option) \<Rightarrow> addr \<Rightarrow> kstate \<Rightarrow> kstate option" where
  "lock_fetch W l s =
     (if holder (locks s l) \<noteq> running_thread s then do {
        s \<leftarrow> semaphore_down W (lock_semaphore l) s;
        let s = upd_lock l (\<lambda>k. k\<lparr>holder := running_thread s\<rparr>) s;
        ASSERT (holder_repeat_nr (locks s l) = 0);
        Some (upd_lock l (\<lambda>k. k\<lparr>holder_repeat_nr := 1\<rparr>) s)
      } else Some (upd_lock l (\<lambda>k. k\<lparr>holder_repeat_nr := holder_repeat_nr k + 1\<rparr>) s))"

definition lock_release :: "addr \<Rightarrow> kstate \<Rightarrow> kstate option" where
  "lock_release l s =
     (if holder_repeat_nr (locks s l) > 1
      then Some (upd_lock l (\<lambda>k. k\<lparr>holder_repeat_nr := holder_repeat_nr k - 1\<rparr>) s)
      else do {
        ASSERT (holder_repeat_nr (locks s l) = 1);
        semaphore_up (lock_semaphore l) (upd_lock l (\<lambda>k. k\<lparr>holder := 0, holder_repeat_nr := 0\<rparr>) s)
      })"

section \<open>A lock without contention\<close>

definition lock_free :: "addr \<Rightarrow> kstate \<Rightarrow> bool" where
  "lock_free l s \<longleftrightarrow> semas s (lock_semaphore l) = 1 \<and> locks s l = \<lparr>holder = 0, holder_repeat_nr = 0\<rparr> \<and>
     list_is_empty (waiting_queue (lock_semaphore l)) (lh s)"

definition lock_held :: "addr \<Rightarrow> u32 \<Rightarrow> kstate \<Rightarrow> kstate" where
  "lock_held l n s = s\<lparr>semas := (semas s)(lock_semaphore l := 0),
     locks := (locks s)(l := \<lparr>holder = running s, holder_repeat_nr = n\<rparr>)\<rparr>"

lemma lock_init_free: "lock_free l (lock_init l s)"
  by (simp add: lock_free_def lock_init_def semaphore_init_def set_sema_def upd_lock_def upd_lh_def
      INIT_LIST_HEAD_def heap_upd list_is_empty_def)

lemma semaphore_down_free:
  assumes "semas s sema = 1"
  shows "semaphore_down W sema s = Some (set_sema sema 0 s)"
  using assms
  by (simp add: semaphore_down_def intr_disable_eq intr_set_status_eq down_loop.simps set_sema_def)

lemma lock_fetch_free:
  assumes "lock_free l s" and "running s \<noteq> 0"
  shows "lock_fetch W l s = Some (lock_held l 1 s)"
  using assms semaphore_down_free [of s "lock_semaphore l" W]
  by (auto simp: lock_fetch_def lock_free_def running_thread_def set_sema_def upd_lock_def lock_held_def)

lemma lock_fetch_again:
  "lock_fetch W l (lock_held l n s) = Some (lock_held l (n + 1) s)"
  by (simp add: lock_fetch_def lock_held_def running_thread_def upd_lock_def)

lemma lock_release_nested:
  "n > 1 \<Longrightarrow> lock_release l (lock_held l n s) = Some (lock_held l (n - 1) s)"
  by (simp add: lock_release_def lock_held_def upd_lock_def)

lemma lock_release_last:
  assumes "lock_free l s"
  shows "lock_release l (lock_held l 1 s) = Some s"
proof -
  have "s\<lparr>locks := (locks s)(l := \<lparr>holder = 0, holder_repeat_nr = 0\<rparr>), semas := (semas s)(lock_semaphore l := 1)\<rparr> = s"
    using assms by (simp add: lock_free_def fun_upd_idem)
  then show ?thesis
    using assms by (simp add: lock_release_def lock_held_def upd_lock_def semaphore_up_def intr_disable_eq
        intr_set_status_eq lock_free_def set_sema_def)
qed

lemma lock_held_frame:
  assumes "lock_free l s" and "lh s' = lh s" and "semas s' = semas s" and "locks s' = locks s"
  shows "lock_free l s'"
  using assms by (simp add: lock_free_def)

primrec fetch_many :: "(kstate \<Rightarrow> kstate option) \<Rightarrow> addr \<Rightarrow> nat \<Rightarrow> kstate \<Rightarrow> kstate option" where
  "fetch_many W l 0 s = Some s"
| "fetch_many W l (Suc n) s = do { s \<leftarrow> fetch_many W l n s; lock_fetch W l s }"

primrec release_many :: "addr \<Rightarrow> nat \<Rightarrow> kstate \<Rightarrow> kstate option" where
  "release_many l 0 s = Some s"
| "release_many l (Suc n) s = do { s \<leftarrow> lock_release l s; release_many l n s }"

lemma fetch_many_held:
  assumes "lock_free l s" and "running s \<noteq> 0"
  shows "fetch_many W l (Suc n) s = Some (lock_held l (of_nat (Suc n)) s)"
proof (induction n)
  case 0
  then show ?case using lock_fetch_free [OF assms] by simp
next
  case (Suc n)
  then show ?case using lock_fetch_again [of W l "of_nat (Suc n)" s] by (simp add: ac_simps)
qed

lemma release_many_held:
  assumes "lock_free l s" and "Suc n < 2 ^ 32"
  shows "release_many l (Suc n) (lock_held l (of_nat (Suc n)) s) = Some s"
  using assms(2)
proof (induction n)
  case 0
  then show ?case using lock_release_last [OF assms(1)] by simp
next
  case (Suc n)
  have "(of_nat (Suc (Suc n)) :: u32) > 1"
    using Suc.prems unat_of_nat_32 [of "Suc (Suc n)"] by (simp add: word_less_nat_alt del: of_nat_Suc)
  then have "lock_release l (lock_held l (of_nat (Suc (Suc n))) s) = Some (lock_held l (of_nat (Suc n)) s)"
    by (subst lock_release_nested) simp_all
  then show ?case using Suc by simp
qed

section \<open>Sections of the lock operations\<close>

text \<open>
  Interrupts are off inside \<open>semaphore_down\<close> and \<open>semaphore_up\<close>, so the code between two points
  where another thread may run is one section: queueing and blocking, taking the semaphore,
  becoming the holder (interrupts may be on between these two), dropping the ownership, and
  \<open>semaphore_up\<close>.
\<close>

definition wait_section :: "addr \<Rightarrow> kstate \<Rightarrow> kstate option" where
  "wait_section sema s = do {
     b \<leftarrow> list_find_element (general_tag (running s)) (waiting_queue sema) (lh s);
     if b then PANIC
     else thread_block_out THREAD_TASK_BLOCKED
       (upd_lh (list_add_tail (general_tag (running s)) (waiting_queue sema)) s)
   }"

definition take_section :: "addr \<Rightarrow> kstate \<Rightarrow> kstate option" where
  "take_section sema s = do {
     let s = set_sema sema (semas s sema - 1) s;
     ASSERT (semas s sema = 0);
     Some s
   }"

definition own_section :: "addr \<Rightarrow> kstate \<Rightarrow> kstate option" where
  "own_section l s = do {
     let s = upd_lock l (\<lambda>k. k\<lparr>holder := running_thread s\<rparr>) s;
     ASSERT (holder_repeat_nr (locks s l) = 0);
     Some (upd_lock l (\<lambda>k. k\<lparr>holder_repeat_nr := 1\<rparr>) s)
   }"

definition drop_section :: "addr \<Rightarrow> kstate \<Rightarrow> kstate option" where
  "drop_section l s = do {
     ASSERT (holder_repeat_nr (locks s l) = 1);
     Some (upd_lock l (\<lambda>k. k\<lparr>holder := 0, holder_repeat_nr := 0\<rparr>) s)
   }"

text \<open>The operations are these sections, with the other threads in between.\<close>

lemma down_loop_sections:
  "down_loop W sema s =
     (if semas s sema = 0 then do {
        s' \<leftarrow> wait_section sema s;
        s' \<leftarrow> (if running s' = running s then Some s' else W s');
        down_loop W sema (intr_set_status (intr s) s')
      } else Some s)"
proof -
  have u: "thread_block W THREAD_TASK_BLOCKED (upd_lh f s) = do {
      s' \<leftarrow> thread_block_out THREAD_TASK_BLOCKED (upd_lh f s);
      s' \<leftarrow> (if running s' = running s then Some s' else W s');
      Some (intr_set_status (intr s) s') }" for f
    by (simp add: thread_block_split upd_lh_def)
  show ?thesis
    by (subst down_loop.simps, cases "list_find_element (general_tag (running s)) (waiting_queue sema) (lh s)")
      (simp_all add: wait_section_def running_thread_def u bind_assoc)
qed

lemma lock_fetch_sections:
  assumes "holder (locks s l) \<noteq> running s"
  shows "lock_fetch W l s = do {
     s' \<leftarrow> down_loop W (lock_semaphore l) (s\<lparr>intr := False\<rparr>);
     s' \<leftarrow> take_section (lock_semaphore l) s';
     own_section l (intr_set_status (intr s) s')
   }"
  using assms
  by (simp add: lock_fetch_def semaphore_down_def take_section_def own_section_def running_thread_def
      intr_disable_eq bind_assoc Let_def)

lemma lock_release_sections:
  assumes "holder_repeat_nr (locks s l) \<le> 1"
  shows "lock_release l s = do { s' \<leftarrow> drop_section l s; semaphore_up (lock_semaphore l) s' }"
  using assms by (auto simp: lock_release_def drop_section_def ASSERT_bind)

section \<open>Threads competing for a lock\<close>

datatype lock_pc = Out | Waiting | Got | In | Leaving

text \<open>
  \<open>pc\<close> says where each thread is: outside, in the loop of \<open>semaphore_down\<close>, past it, between
  \<open>lock_fetch\<close> and \<open>lock_release\<close>, or before \<open>semaphore_up\<close>. The idle thread takes no locks.
\<close>

inductive lock_step :: "addr set \<Rightarrow> addr \<Rightarrow> kstate \<times> (addr \<Rightarrow> lock_pc) \<Rightarrow> kstate \<times> (addr \<Rightarrow> lock_pc) \<Rightarrow> bool"
  for T l where
  Wait: "running s \<noteq> idle_thread s \<Longrightarrow> pc (running s) \<in> {Out, Waiting} \<Longrightarrow> semas s (lock_semaphore l) = 0 \<Longrightarrow>
    wait_section (lock_semaphore l) s = Some s' \<Longrightarrow> lock_step T l (s, pc) (s', pc(running s := Waiting))"
| Take: "running s \<noteq> idle_thread s \<Longrightarrow> pc (running s) \<in> {Out, Waiting} \<Longrightarrow> semas s (lock_semaphore l) \<noteq> 0 \<Longrightarrow>
    take_section (lock_semaphore l) s = Some s' \<Longrightarrow> lock_step T l (s, pc) (s', pc(running s := Got))"
| Own: "pc (running s) = Got \<Longrightarrow> own_section l s = Some s' \<Longrightarrow> lock_step T l (s, pc) (s', pc(running s := In))"
| Drop: "pc (running s) = In \<Longrightarrow> drop_section l s = Some s' \<Longrightarrow>
    lock_step T l (s, pc) (s', pc(running s := Leaving))"
| Up: "pc (running s) = Leaving \<Longrightarrow> semaphore_up (lock_semaphore l) s = Some s' \<Longrightarrow>
    lock_step T l (s, pc) (s', pc(running s := Out))"
| Preempt: "schedule_select s = Some s' \<Longrightarrow> lock_step T l (s, pc) (s', pc)"
| Sleep: "pc (running s) \<noteq> Waiting \<Longrightarrow> thread_block_out st s = Some s' \<Longrightarrow> lock_step T l (s, pc) (s', pc)"
| Wake: "t \<in> T \<Longrightarrow> pc t \<noteq> Waiting \<Longrightarrow> thread_unblock t s = Some s' \<Longrightarrow> lock_step T l (s, pc) (s', pc)"

inductive lock_reach :: "addr set \<Rightarrow> addr \<Rightarrow> kstate \<times> (addr \<Rightarrow> lock_pc) \<Rightarrow> kstate \<times> (addr \<Rightarrow> lock_pc) \<Rightarrow> bool"
  for T l where
  Start: "lock_reach T l c c"
| Step: "lock_reach T l c c' \<Longrightarrow> lock_step T l c' c'' \<Longrightarrow> lock_reach T l c c''"

definition owners :: "addr set \<Rightarrow> (addr \<Rightarrow> lock_pc) \<Rightarrow> addr set" where
  "owners T pc = {t \<in> T. pc t \<in> {Got, In, Leaving}}"

definition wait_ok :: "addr set \<Rightarrow> addr \<Rightarrow> addr list \<Rightarrow> addr list \<Rightarrow> kstate \<Rightarrow> (addr \<Rightarrow> lock_pc) \<Rightarrow> bool" where
  "wait_ok T wq ws rs s pc \<longleftrightarrow> qlist (lh s) wq (map general_tag ws) \<and> wq \<noteq> thread_ready_list s \<and>
     (\<forall>t \<in> T. general_tag t \<noteq> wq) \<and> thread_ready_list s \<notin> general_tag ` T \<and> set ws \<subseteq> T \<and>
     (\<forall>t \<in> set ws. status (tcbs s t) = THREAD_TASK_BLOCKED \<and> pc t = Waiting) \<and>
     (\<forall>t \<in> T. pc t = Waiting \<and> t \<notin> set ws \<longrightarrow> t \<in> set rs \<or> t = running s) \<and> pc (idle_thread s) = Out"

definition own_ok :: "addr set \<Rightarrow> addr \<Rightarrow> kstate \<Rightarrow> (addr \<Rightarrow> lock_pc) \<Rightarrow> bool" where
  "own_ok T l s pc \<longleftrightarrow>
     (semas s (lock_semaphore l) = 1 \<and> owners T pc = {} \<or>
      semas s (lock_semaphore l) = 0 \<and> (\<exists>o'. owners T pc = {o'})) \<and>
     ((\<exists>t \<in> T. pc t = In \<and> locks s l = \<lparr>holder = t, holder_repeat_nr = 1\<rparr>) \<or>
      (\<forall>t \<in> T. pc t \<noteq> In) \<and> locks s l = \<lparr>holder = 0, holder_repeat_nr = 0\<rparr>)"

definition lock_inv :: "addr set \<Rightarrow> (addr \<Rightarrow> u32) \<Rightarrow> addr \<Rightarrow> kstate \<times> (addr \<Rightarrow> lock_pc) \<Rightarrow> bool" where
  "lock_inv T ph l = (\<lambda>(s, pc). \<exists>rs ws. sched_ok T ph rs s \<and>
     wait_ok T (waiting_queue (lock_semaphore l)) ws rs s pc \<and> own_ok T l s pc \<and>
     (semas s (lock_semaphore l) = 1 \<and> ws \<noteq> [] \<longrightarrow> (\<exists>t \<in> T. pc t = Waiting \<and> t \<notin> set ws)))"

lemma wait_apart:
  assumes ok: "sched_ok T ph rs s" and w: "wait_ok T wq ws rs s pc"
  shows "set rs \<inter> set ws = {}" and "running s \<notin> set ws" and "idle_thread s \<notin> set ws"
proof -
  have b: "status (tcbs s t) = THREAD_TASK_BLOCKED" if "t \<in> set ws" for t
    using w that by (simp add: wait_ok_def)
  have "status (tcbs s t) = THREAD_TASK_READY" if "t \<in> set rs" for t
    using ok that sched_okD(2) [OF ok] by (auto simp: sched_ok_def)
  with b show "set rs \<inter> set ws = {}" by force
  have "status (tcbs s (running s)) = THREAD_TASK_RUNNING"
    using ok sched_okD(5) [OF ok] by (simp add: sched_ok_def)
  with b show "running s \<notin> set ws" by force
  show "idle_thread s \<notin> set ws" using w by (auto simp: wait_ok_def)
qed

lemma wait_tags_apart:
  assumes "wait_ok T wq ws rs s pc" and "N \<subseteq> T" and "N \<inter> set ws = {}"
  shows "insert (thread_ready_list s) (general_tag ` N) \<inter> set (wq # map general_tag ws) = {}"
  using assms by (auto simp: wait_ok_def)

text \<open>A scheduling operation that touches no waiting thread keeps the lock's invariant.\<close>

lemma wait_ok_frame:
  assumes w: "wait_ok T wq ws rs s pc" and f: "sched_frame N C s s'"
    and N: "N \<subseteq> T" "N \<inter> set ws = {}" and C: "C \<inter> set ws = {}"
    and run: "\<forall>t \<in> T. pc t = Waiting \<and> (t \<in> set rs \<or> t = running s) \<longrightarrow> t \<in> set rs' \<or> t = running s'"
  shows "wait_ok T wq ws rs' s' pc"
proof -
  have "qlist (lh s') wq (map general_tag ws)"
    using sched_frameD [OF f _ wait_tags_apart [OF w N]] w by (simp add: wait_ok_def)
  moreover have "tcbs s' t = tcbs s t" if "t \<in> set ws" for t
    using sched_frame_same(6) [OF f] C that by auto
  ultimately show ?thesis
    using w run sched_frame_same [OF f] by (auto simp: wait_ok_def)
qed

lemma own_ok_frame: "own_ok T l s pc \<Longrightarrow> sched_frame N C s s' \<Longrightarrow> own_ok T l s' pc"
  by (simp add: own_ok_def sched_frame_def)

lemma lock_inv_frame:
  assumes ok: "sched_ok T ph rs s" and w: "wait_ok T (waiting_queue (lock_semaphore l)) ws rs s pc"
    and o: "own_ok T l s pc"
    and p: "semas s (lock_semaphore l) = 1 \<and> ws \<noteq> [] \<longrightarrow> (\<exists>t \<in> T. pc t = Waiting \<and> t \<notin> set ws)"
    and ok': "sched_ok T ph rs' s'" and f: "sched_frame N C s s'"
    and N: "N \<subseteq> T" "N \<inter> set ws = {}" and C: "C \<inter> set ws = {}"
    and run: "\<forall>t \<in> T. pc t = Waiting \<and> (t \<in> set rs \<or> t = running s) \<longrightarrow> t \<in> set rs' \<or> t = running s'"
  shows "lock_inv T ph l (s', pc)"
  using ok' wait_ok_frame [OF w f N C run] own_ok_frame [OF o f] p sched_frame_same(1) [OF f]
  by (auto simp: lock_inv_def)

lemma lock_inv_preempt:
  assumes "lock_inv T ph l (s, pc)" and "schedule_select s = Some s'"
  shows "lock_inv T ph l (s', pc)"
proof -
  from assms(1) obtain rs ws where i: "sched_ok T ph rs s"
    "wait_ok T (waiting_queue (lock_semaphore l)) ws rs s pc" "own_ok T l s pc"
    "semas s (lock_semaphore l) = 1 \<and> ws \<noteq> [] \<longrightarrow> (\<exists>t \<in> T. pc t = Waiting \<and> t \<notin> set ws)"
    by (auto simp: lock_inv_def)
  let ?N = "{idle_thread s, running s} \<union> set rs"
  have s': "sched_ok T ph (tl (rs @ [running s])) s'" "running s' = hd (rs @ [running s])"
    "sched_frame ?N ?N s s'"
    using schedule_select_running [OF i(1)] assms(2) by auto
  have N: "?N \<subseteq> T" "?N \<inter> set ws = {}"
    using sched_okD [OF i(1)] wait_apart [OF i(1,2)] by (auto simp: threads_ok_def)
  show ?thesis
  proof (rule lock_inv_frame [OF i s'(1,3) N N(2)])
    show "\<forall>t \<in> T. pc t = Waiting \<and> (t \<in> set rs \<or> t = running s) \<longrightarrow>
        t \<in> set (tl (rs @ [running s])) \<or> t = running s'"
      using s'(2) by (cases rs) auto
  qed
qed

lemma lock_inv_sleep:
  assumes "lock_inv T ph l (s, pc)" and "pc (running s) \<noteq> Waiting" and "thread_block_out st s = Some s'"
  shows "lock_inv T ph l (s', pc)"
proof -
  from assms(1) obtain rs ws where i: "sched_ok T ph rs s"
    "wait_ok T (waiting_queue (lock_semaphore l)) ws rs s pc" "own_ok T l s pc"
    "semas s (lock_semaphore l) = 1 \<and> ws \<noteq> [] \<longrightarrow> (\<exists>t \<in> T. pc t = Waiting \<and> t \<notin> set ws)"
    by (auto simp: lock_inv_def)
  have "blocking st" using assms(3) by (auto simp: thread_block_out_def ASSERT_bind split: if_splits)
  then have s': "sched_ok T ph (tl rs) s'" "running s' = (if rs = [] then idle_thread s else hd rs)"
    "sched_frame ({idle_thread s} \<union> set rs) ({idle_thread s, running s} \<union> set rs) s s'"
    using thread_block_out_ok [OF i(1), of st] assms(3) by auto
  have N: "{idle_thread s} \<union> set rs \<subseteq> T" "({idle_thread s} \<union> set rs) \<inter> set ws = {}"
    "({idle_thread s, running s} \<union> set rs) \<inter> set ws = {}"
    using sched_okD [OF i(1)] wait_apart [OF i(1,2)] by (auto simp: threads_ok_def)
  show ?thesis
  proof (rule lock_inv_frame [OF i s'(1,3) N])
    show "\<forall>t \<in> T. pc t = Waiting \<and> (t \<in> set rs \<or> t = running s) \<longrightarrow> t \<in> set (tl rs) \<or> t = running s'"
      using s'(2) assms(2) by (cases rs) auto
  qed
qed

lemma lock_inv_wake:
  assumes "lock_inv T ph l (s, pc)" and "t \<in> T" "pc t \<noteq> Waiting" and "thread_unblock t s = Some s'"
  shows "lock_inv T ph l (s', pc)"
proof -
  from assms(1) obtain rs ws where i: "sched_ok T ph rs s"
    "wait_ok T (waiting_queue (lock_semaphore l)) ws rs s pc" "own_ok T l s pc"
    "semas s (lock_semaphore l) = 1 \<and> ws \<noteq> [] \<longrightarrow> (\<exists>t \<in> T. pc t = Waiting \<and> t \<notin> set ws)"
    by (auto simp: lock_inv_def)
  have "blocking (status (tcbs s t))"
    using assms(4) by (auto simp: thread_unblock_def ASSERT_bind split: if_splits)
  then have s': "sched_ok T ph (t # rs) s'" "running s' = running s" "sched_frame (insert t (set rs)) {t} s s'"
    using thread_unblock_sched_ok [OF i(1) assms(2)] assms(4) by auto
  have "t \<notin> set ws" using i(2) assms(3) by (auto simp: wait_ok_def)
  then have N: "insert t (set rs) \<subseteq> T" "insert t (set rs) \<inter> set ws = {}" "{t} \<inter> set ws = {}"
    using sched_okD [OF i(1)] wait_apart [OF i(1,2)] assms(2) by auto
  show ?thesis by (rule lock_inv_frame [OF i s'(1,3) N]) (use s'(2) in auto)
qed

lemma wait_ok_pc:
  assumes w: "wait_ok T wq ws rs s pc" and c: "c \<notin> set ws" "c \<noteq> idle_thread s \<or> x = Out" "x \<noteq> Waiting"
    and same: "lh s' = lh s" "thread_ready_list s' = thread_ready_list s" "tcbs s' = tcbs s"
      "running s' = running s" "idle_thread s' = idle_thread s"
  shows "wait_ok T wq ws rs s' (pc(c := x))"
proof -
  have 1: "\<forall>t \<in> set ws. (pc(c := x)) t = pc t" using c(1) by auto
  have 2: "(pc(c := x)) t = Waiting \<longrightarrow> pc t = Waiting" for t using c(3) by simp
  have 3: "pc (idle_thread s) = Out \<longrightarrow> (pc(c := x)) (idle_thread s) = Out" using c(2) by auto
  show ?thesis using w 1 2 3 unfolding wait_ok_def same by metis
qed

lemma lock_upd_all [simp]: "k\<lparr>holder := a, holder_repeat_nr := b\<rparr> = \<lparr>holder = a, holder_repeat_nr = b\<rparr>"
  by (cases k) simp

lemma owners_upd:
  "c \<in> T \<Longrightarrow> owners T (pc(c := x)) = (if x \<in> {Got, In, Leaving} then insert c (owners T pc) else owners T pc - {c})"
  by (auto simp: owners_def)

lemma lock_inv_take:
  assumes "lock_inv T ph l (s, pc)" and c: "running s \<noteq> idle_thread s" "pc (running s) \<in> {Out, Waiting}"
    and "semas s (lock_semaphore l) \<noteq> 0" and "take_section (lock_semaphore l) s = Some s'"
  shows "lock_inv T ph l (s', pc(running s := Got))"
proof -
  from assms(1) obtain rs ws where i: "sched_ok T ph rs s"
    "wait_ok T (waiting_queue (lock_semaphore l)) ws rs s pc" "own_ok T l s pc" by (auto simp: lock_inv_def)
  have s': "s' = set_sema (lock_semaphore l) 0 s" and v: "semas s (lock_semaphore l) = 1" "owners T pc = {}"
    using assms(4,5) i(3) by (auto simp: take_section_def own_ok_def set_sema_def)
  have T: "running s \<in> T" by (rule sched_okD(5) [OF i(1)])
  have "sched_ok T ph rs s'" by (rule sched_ok_cong [THEN iffD2, OF _ _ _ _ _ _ _ i(1)]) (simp_all add: s' set_sema_def)
  moreover have "wait_ok T (waiting_queue (lock_semaphore l)) ws rs s' (pc(running s := Got))"
    using c(1) wait_apart(2) [OF i(1,2)] by (intro wait_ok_pc [OF i(2)]) (simp_all add: s' set_sema_def)
  moreover have "own_ok T l s' (pc(running s := Got))"
  proof -
    have "\<forall>t \<in> T. pc t \<noteq> In" using v(2) by (auto simp: owners_def)
    moreover from this have "locks s l = \<lparr>holder = 0, holder_repeat_nr = 0\<rparr>"
      using i(3) by (auto simp: own_ok_def)
    ultimately show ?thesis using T v(2) by (simp add: own_ok_def owners_upd s' set_sema_def)
  qed
  ultimately show ?thesis by (auto simp: lock_inv_def s' set_sema_def)
qed

lemma lock_inv_own:
  assumes "lock_inv T ph l (s, pc)" and c: "pc (running s) = Got" and "own_section l s = Some s'"
  shows "lock_inv T ph l (s', pc(running s := In))"
proof -
  from assms(1) obtain rs ws where i: "sched_ok T ph rs s"
    "wait_ok T (waiting_queue (lock_semaphore l)) ws rs s pc" "own_ok T l s pc" by (auto simp: lock_inv_def)
  have T: "running s \<in> T" by (rule sched_okD(5) [OF i(1)])
  then have "running s \<in> owners T pc" using c by (simp add: owners_def)
  moreover have idle: "running s \<noteq> idle_thread s" using i(2) c by (auto simp: wait_ok_def)
  ultimately have v: "semas s (lock_semaphore l) = 0" "owners T pc = {running s}"
    using i(3) by (auto simp: own_ok_def)
  have s': "s' = s\<lparr>locks := (locks s)(l := \<lparr>holder = running s, holder_repeat_nr = 1\<rparr>)\<rparr>"
    using assms(3) by (auto simp: own_section_def running_thread_def upd_lock_def ASSERT_bind Let_def split: if_splits)
  have "sched_ok T ph rs s'" by (rule sched_ok_cong [THEN iffD2, OF _ _ _ _ _ _ _ i(1)]) (simp_all add: s')
  moreover have "wait_ok T (waiting_queue (lock_semaphore l)) ws rs s' (pc(running s := In))"
    using idle wait_apart(2) [OF i(1,2)] by (intro wait_ok_pc [OF i(2)]) (simp_all add: s')
  moreover have "own_ok T l s' (pc(running s := In))"
    using T v by (auto simp: own_ok_def owners_upd s')
  ultimately show ?thesis using v by (auto simp: lock_inv_def s')
qed

lemma lock_inv_drop:
  assumes "lock_inv T ph l (s, pc)" and c: "pc (running s) = In" and "drop_section l s = Some s'"
  shows "lock_inv T ph l (s', pc(running s := Leaving))"
proof -
  from assms(1) obtain rs ws where i: "sched_ok T ph rs s"
    "wait_ok T (waiting_queue (lock_semaphore l)) ws rs s pc" "own_ok T l s pc" by (auto simp: lock_inv_def)
  have T: "running s \<in> T" by (rule sched_okD(5) [OF i(1)])
  then have "running s \<in> owners T pc" using c by (simp add: owners_def)
  moreover have idle: "running s \<noteq> idle_thread s" using i(2) c by (auto simp: wait_ok_def)
  ultimately have v: "semas s (lock_semaphore l) = 0" "owners T pc = {running s}"
    using i(3) by (auto simp: own_ok_def)
  then have "pc t \<noteq> In" if "t \<in> T" "t \<noteq> running s" for t using that by (auto simp: owners_def)
  moreover have s': "s' = s\<lparr>locks := (locks s)(l := \<lparr>holder = 0, holder_repeat_nr = 0\<rparr>)\<rparr>"
    using assms(3) by (auto simp: drop_section_def upd_lock_def ASSERT_bind split: if_splits)
  ultimately have "own_ok T l s' (pc(running s := Leaving))"
    using T v by (auto simp: own_ok_def owners_upd)
  moreover have "sched_ok T ph rs s'" by (rule sched_ok_cong [THEN iffD2, OF _ _ _ _ _ _ _ i(1)]) (simp_all add: s')
  moreover have "wait_ok T (waiting_queue (lock_semaphore l)) ws rs s' (pc(running s := Leaving))"
    using idle wait_apart(2) [OF i(1,2)] by (intro wait_ok_pc [OF i(2)]) (simp_all add: s')
  ultimately show ?thesis using v by (auto simp: lock_inv_def s')
qed

lemma lock_inv_wait:
  assumes "lock_inv T ph l (s, pc)" and c: "running s \<noteq> idle_thread s"
    and v: "semas s (lock_semaphore l) = 0" "pc (running s) \<in> {Out, Waiting}"
    and w: "wait_section (lock_semaphore l) s = Some s'"
  shows "lock_inv T ph l (s', pc(running s := Waiting))"
proof -
  let ?wq = "waiting_queue (lock_semaphore l)" and ?c = "running s"
  let ?s0 = "upd_lh (list_add_tail (general_tag ?c) ?wq) s"
  from assms(1) obtain rs ws where i: "sched_ok T ph rs s" "wait_ok T ?wq ws rs s pc" "own_ok T l s pc"
    by (auto simp: lock_inv_def)
  note d = sched_okD [OF i(1)] and a = wait_apart [OF i(1,2)]
  have q: "qlist (lh s) ?wq (map general_tag ws)" and h: "?wq \<noteq> thread_ready_list s" "\<forall>t \<in> T. general_tag t \<noteq> ?wq"
    and wT: "set ws \<subseteq> T" and wst: "\<forall>t \<in> set ws. status (tcbs s t) = THREAD_TASK_BLOCKED \<and> pc t = Waiting"
    and wr: "\<forall>t \<in> T. pc t = Waiting \<and> t \<notin> set ws \<longrightarrow> t \<in> set rs \<or> t = running s"
    and wi: "pc (idle_thread s) = Out" and hT: "thread_ready_list s \<notin> general_tag ` T"
    using i(2) by (simp_all add: wait_ok_def)
  have b: "thread_block_out THREAD_TASK_BLOCKED ?s0 = Some s'"
    using w by (auto simp: wait_section_def bind_eq_Some_conv split: if_splits)
  have q0: "qlist (lh ?s0) ?wq (map general_tag (ws @ [?c]))"
    using ql.enqueue_lists [OF q, of "general_tag ?c"] a(2) h d(5) by (auto simp: upd_lh_def)
  have "qlist (lh ?s0) (thread_ready_list s) (map general_tag rs)"
    using ql.enqueue_other [OF d(1) q, of "general_tag ?c"] h a(1) d(2,8) wT hT by (fastforce simp: upd_lh_def)
  then have ok0: "sched_ok T ph rs ?s0" using sched_ok_lh [OF i(1)] by (simp add: upd_lh_def)
  have s': "sched_ok T ph (tl rs) s'" "running s' = (if rs = [] then idle_thread s else hd rs)"
    "sched_frame ({idle_thread s} \<union> set rs) ({idle_thread s, ?c} \<union> set rs) ?s0 s'"
    "status (tcbs s' ?c) = THREAD_TASK_BLOCKED"
    using thread_block_out_ok [OF ok0, of THREAD_TASK_BLOCKED] b c by (auto simp: blocking_def upd_lh_def)
  have fr: "insert (thread_ready_list ?s0) (general_tag ` ({idle_thread s} \<union> set rs)) \<inter>
      set (?wq # map general_tag (ws @ [?c])) = {}"
    using h hT a c d(2,3,5,7) wT by (auto simp: threads_ok_def upd_lh_def)
  have qs: "qlist (lh s') ?wq (map general_tag (ws @ [?c]))" by (rule sched_frameD [OF s'(3) q0 fr])
  have st: "status (tcbs s' t) = THREAD_TASK_BLOCKED" if "t \<in> set (ws @ [?c])" for t
  proof (cases "t = ?c")
    case False
    then have "t \<in> set ws" "t \<notin> {idle_thread s, ?c} \<union> set rs" using that a by auto
    then show ?thesis using sched_frame_same(6) [OF s'(3), of t] wst by (simp add: upd_lh_def)
  qed (simp add: s'(4))
  have "wait_ok T ?wq (ws @ [?c]) (tl rs) s' (pc(?c := Waiting))"
  proof -
    have "t \<in> set (tl rs) \<or> t = running s'" if "t \<in> T" "pc t = Waiting" "t \<notin> set (ws @ [?c])" for t
      using wr that s'(2) by (cases rs) auto
    moreover have "set (ws @ [?c]) \<subseteq> T" using wT d(5) by auto
    ultimately show ?thesis
      using qs st h hT wst wi c sched_frame_same(3,4) [OF s'(3)] by (auto simp: wait_ok_def upd_lh_def)
  qed
  moreover have "own_ok T l s' (pc(?c := Waiting))"
  proof -
    have "owners T (pc(?c := Waiting)) = owners T pc" using v(2) by (auto simp: owners_def)
    moreover have "(pc(?c := Waiting)) t = In \<longleftrightarrow> pc t = In" for t using v(2) by auto
    ultimately show ?thesis
      using i(3) sched_frame_same(1,2) [OF s'(3)] by (simp add: own_ok_def upd_lh_def)
  qed
  moreover have "semas s' (lock_semaphore l) = 0"
    using v(1) sched_frame_same(1) [OF s'(3)] by (simp add: upd_lh_def)
  ultimately show ?thesis using s'(1) by (auto simp: lock_inv_def)
qed

lemma lock_inv_up:
  assumes "lock_inv T ph l (s, pc)" and c: "pc (running s) = Leaving"
    and u: "semaphore_up (lock_semaphore l) s = Some s'"
  shows "lock_inv T ph l (s', pc(running s := Out))"
proof -
  let ?wq = "waiting_queue (lock_semaphore l)" and ?c = "running s" and ?pc = "pc(running s := Out)"
  let ?sm = "lock_semaphore l"
  from assms(1) obtain rs ws where i: "sched_ok T ph rs s" "wait_ok T ?wq ws rs s pc" "own_ok T l s pc"
    by (auto simp: lock_inv_def)
  note d = sched_okD [OF i(1)] and a = wait_apart [OF i(1,2)]
  have q: "qlist (lh s) ?wq (map general_tag ws)" and h: "?wq \<noteq> thread_ready_list s" "\<forall>t \<in> T. general_tag t \<noteq> ?wq"
    and wT: "set ws \<subseteq> T" and wst: "\<forall>t \<in> set ws. status (tcbs s t) = THREAD_TASK_BLOCKED \<and> pc t = Waiting"
    and hT: "thread_ready_list s \<notin> general_tag ` T"
    using i(2) by (simp_all add: wait_ok_def)
  have "?c \<in> owners T pc" using c d(5) by (simp add: owners_def)
  then have v: "semas s ?sm = 0" "owners T pc = {?c}" using i(3) by (auto simp: own_ok_def)
  have "t = ?c" if "t \<in> T" "pc t = In" for t
    using v(2) that by (auto simp: owners_def set_eq_iff)
  then have "\<forall>t \<in> T. pc t \<noteq> In" using c by fastforce
  then have lk: "locks s l = \<lparr>holder = 0, holder_repeat_nr = 0\<rparr>" "\<forall>t \<in> T. ?pc t \<noteq> In"
    using i(3) by (auto simp: own_ok_def)
  have ow: "owners T ?pc = {}" using v(2) d(5) by (simp add: owners_upd)
  have own: "own_ok T l s1 ?pc" if "semas s1 ?sm = 1" "locks s1 = locks s" for s1
    using that ow lk by (simp add: own_ok_def)
  have em: "list_is_empty ?wq (lh s) \<longleftrightarrow> ws = []" using ql.empty_iff [OF q] by simp
  show ?thesis
  proof (cases ws)
    case Nil
    then have s': "s' = set_sema ?sm 1 s"
      using u em v by (auto simp: semaphore_up_def intr_disable_eq intr_set_status_eq set_sema_def)
    have "sched_ok T ph rs s'"
      by (rule sched_ok_cong [THEN iffD2, OF _ _ _ _ _ _ _ i(1)]) (simp_all add: s' set_sema_def)
    moreover have "wait_ok T ?wq ws rs s' ?pc"
      using a(2) by (intro wait_ok_pc [OF i(2)]) (simp_all add: s' set_sema_def)
    ultimately show ?thesis using own [of s'] Nil by (auto simp: lock_inv_def s' set_sema_def)
  next
    case (Cons w ws')
    let ?m = "snd (list_pop ?wq (lh s))"
    let ?s0 = "s\<lparr>intr := False, lh := ?m\<rparr>"
    have qc: "qlist (lh s) ?wq (general_tag w # map general_tag ws')" using q Cons by simp
    have w: "w \<in> T" "w \<notin> set ws'" "w \<notin> set rs" "w \<noteq> ?c" "status (tcbs s w) = THREAD_TASK_BLOCKED" "pc w = Waiting"
      using wT wst a Cons qlist_distinct [OF qc] by auto
    have "qlist ?m (thread_ready_list s) (map general_tag rs)"
      using ql.dequeue_other [OF d(1) qc] h a(1) d(2) wT hT Cons by fastforce
    then have "sched_ok T ph rs (s\<lparr>lh := ?m\<rparr>)" by (rule sched_ok_lh [OF i(1)])
    then have ok0: "sched_ok T ph rs ?s0"
      by (rule sched_ok_cong [THEN iffD2, rotated -1]) simp_all
    have q0: "qlist ?m ?wq (map general_tag ws')" by (rule ql.dequeue_lists [OF qc])
    from thread_unblock_sched_ok [OF ok0 w(1)] w(5) obtain s1 where
      s1: "thread_unblock w ?s0 = Some s1" "sched_ok T ph (w # rs) s1" "running s1 = ?c" "intr s1 = False"
      "sched_frame (insert w (set rs)) {w} ?s0 s1" by (auto simp: blocking_def)
    have s': "s' = intr_set_status (intr s) (set_sema ?sm 1 s1)"
      using u em v Cons s1(1) ql.dequeue_fst [OF qc] sched_frame_same(1) [OF s1(5)]
      by (auto simp: semaphore_up_def intr_disable_eq case_prod_unfold ASSERT_bind set_sema_def)
    have "wait_ok T ?wq ws' (w # rs) s1 pc"
    proof (rule wait_ok_frame [OF _ s1(5), of _ _ _ "w # rs"])
      show "wait_ok T ?wq ws' (w # rs) ?s0 pc" using i(2) q0 Cons by (auto simp: wait_ok_def)
      show "insert w (set rs) \<subseteq> T" "insert w (set rs) \<inter> set ws' = {}" "{w} \<inter> set ws' = {}"
        using w a(1) d(2) Cons by auto
    qed (use s1(3) in auto)
    then have "wait_ok T ?wq ws' (w # rs) s' ?pc"
      using a(2) Cons by (rule_tac wait_ok_pc) (simp_all add: s' intr_set_status_eq set_sema_def)
    moreover have "sched_ok T ph (w # rs) s'"
      by (rule sched_ok_cong [THEN iffD2, OF _ _ _ _ _ _ _ s1(2)]) (simp_all add: s' intr_set_status_eq set_sema_def)
    moreover have "own_ok T l s' ?pc"
      using own [of s'] sched_frame_same(2) [OF s1(5)] by (simp add: s' intr_set_status_eq set_sema_def)
    ultimately show ?thesis using w by (auto simp: lock_inv_def)
  qed
qed

lemma lock_step_inv:
  assumes "lock_step T l c c'" and "lock_inv T ph l c"
  shows "lock_inv T ph l c'"
  using assms
proof (cases rule: lock_step.cases)
  case (Wait s pc s')
  then show ?thesis using assms(2) lock_inv_wait by blast
next
  case (Take s pc s')
  then show ?thesis using assms(2) lock_inv_take by blast
next
  case (Own pc s s')
  then show ?thesis using assms(2) lock_inv_own by blast
next
  case (Drop pc s s')
  then show ?thesis using assms(2) lock_inv_drop by blast
next
  case (Up pc s s')
  then show ?thesis using assms(2) lock_inv_up by blast
next
  case (Preempt s s' pc)
  then show ?thesis using assms(2) lock_inv_preempt by blast
next
  case (Sleep pc s st s')
  then show ?thesis using assms(2) lock_inv_sleep by blast
next
  case (Wake t pc s s')
  then show ?thesis using assms(2) lock_inv_wake by blast
qed

lemma lock_reach_inv: "lock_reach T l c c' \<Longrightarrow> lock_inv T ph l c \<Longrightarrow> lock_inv T ph l c'"
  by (induction rule: lock_reach.induct) (auto intro: lock_step_inv)

section \<open>Properties\<close>

lemma lock_inv_runnable_waiter:
  assumes "lock_inv T ph l (s, pc)" and "semas s (lock_semaphore l) = 1" and "t \<in> T" and "pc t = Waiting"
  shows "\<exists>u \<in> T. pc u = Waiting \<and> status (tcbs s u) \<in> {THREAD_TASK_READY, THREAD_TASK_RUNNING}"
proof -
  from assms(1) obtain rs ws where i: "sched_ok T ph rs s"
    "wait_ok T (waiting_queue (lock_semaphore l)) ws rs s pc"
    "ws \<noteq> [] \<longrightarrow> (\<exists>t \<in> T. pc t = Waiting \<and> t \<notin> set ws)"
    using assms(2) by (auto simp: lock_inv_def)
  then obtain u where "u \<in> T" "pc u = Waiting" "u \<notin> set ws" using assms(3,4) by (cases ws) auto
  with i(2) have "u \<in> set rs \<or> u = running s" by (auto simp: wait_ok_def)
  with i(1) \<open>u \<in> T\<close> have "status (tcbs s u) \<in> {THREAD_TASK_READY, THREAD_TASK_RUNNING}"
    by (auto simp: sched_ok_def)
  with \<open>u \<in> T\<close> \<open>pc u = Waiting\<close> show ?thesis by blast
qed

lemma lock_inv_init:
  assumes "sched_ok T ph rs s" and "lock_free l s" and "qlist (lh s) (waiting_queue (lock_semaphore l)) []"
    and "waiting_queue (lock_semaphore l) \<notin> insert (thread_ready_list s) (general_tag ` T)"
  shows "lock_inv T ph l (s, \<lambda>_. Out)"
proof -
  have "thread_ready_list s \<notin> general_tag ` T"
    using sched_okD(3) [OF assms(1)] by (auto simp: threads_ok_def)
  then have "wait_ok T (waiting_queue (lock_semaphore l)) [] rs s (\<lambda>_. Out)"
    using assms(3,4) imageI [of _ T general_tag] by (simp add: wait_ok_def) (metis imageI)
  then show ?thesis using assms(1,2) by (auto simp: lock_inv_def own_ok_def owners_def lock_free_def)
qed

text \<open>C1. Mutual exclusion and no lost wake-up: starting from a free lock, under every interleaving
  of threads that fetch and release it, are preempted, sleep and are woken, at most one thread is
  between \<open>lock_fetch\<close> and \<open>lock_release\<close>, the holder field names it, the semaphore is 0 or 1, and
  whenever the semaphore is 1 while threads wait, one of the waiting threads is runnable.\<close>

theorem lock_mutual_exclusion:
  assumes "sched_ok T ph rs s" and "lock_free l s" and "qlist (lh s) (waiting_queue (lock_semaphore l)) []"
    and "waiting_queue (lock_semaphore l) \<notin> insert (thread_ready_list s) (general_tag ` T)"
    and "lock_reach T l (s, \<lambda>_. Out) (s', pc)"
  shows "(\<forall>t \<in> T. \<forall>u \<in> T. pc t \<in> {Got, In, Leaving} \<and> pc u \<in> {Got, In, Leaving} \<longrightarrow> t = u) \<and>
    (\<forall>t \<in> T. pc t = In \<longrightarrow> holder (locks s' l) = t) \<and> semas s' (lock_semaphore l) \<in> {0, 1} \<and>
    (semas s' (lock_semaphore l) = 1 \<and> (\<exists>t \<in> T. pc t = Waiting) \<longrightarrow>
      (\<exists>t \<in> T. pc t = Waiting \<and> status (tcbs s' t) \<in> {THREAD_TASK_READY, THREAD_TASK_RUNNING}))"
proof -
  have inv: "lock_inv T ph l (s', pc)" by (rule lock_reach_inv [OF assms(5) lock_inv_init [OF assms(1-4)]])
  then have o: "own_ok T l s' pc" by (auto simp: lock_inv_def)
  then obtain o' where sub: "owners T pc \<subseteq> {o'}" by (auto simp: own_ok_def)
  have "t = u" if "t \<in> T" "u \<in> T" "pc t \<in> {Got, In, Leaving}" "pc u \<in> {Got, In, Leaving}" for t u
  proof -
    have "t \<in> owners T pc" "u \<in> owners T pc" using that by (simp_all add: owners_def)
    with sub show ?thesis by blast
  qed
  moreover from this have "holder (locks s' l) = t" if "t \<in> T" "pc t = In" for t
    using o that by (auto simp: own_ok_def)
  moreover have "semas s' (lock_semaphore l) \<in> {0, 1}" using o by (auto simp: own_ok_def)
  ultimately show ?thesis using lock_inv_runnable_waiter [OF inv] by blast
qed

theorem lock_mutual_exclusion_witness:
  "\<exists>s1 s2 s3. take_section (lock_semaphore 0xc0008040) sample_sched = Some s1 \<and>
     own_section 0xc0008040 s1 = Some s2 \<and> schedule_select s2 = Some s3 \<and>
     holder (locks s3 0xc0008040) = 0xc009e000"
proof -
  let ?l = "0xc0008040 :: addr" and ?c = "0xc009e000 :: addr"
  have run: "running sample_sched = ?c" by (simp add: sample_sched_def boot_kstate_def)
  have f: "lock_free ?l sample_sched" "qlist (lh sample_sched) (waiting_queue (lock_semaphore ?l)) []"
    "waiting_queue (lock_semaphore ?l) \<notin> insert (thread_ready_list sample_sched) (general_tag ` sample_threads)"
    by (auto simp: lock_free_def sample_sched_def boot_kstate_def lock_semaphore_def waiting_queue_def
        list_is_empty_def qlist_Nil list_add_tail_def heap_upd Let_def general_tag_def sample_threads_def)
  have ne: "running sample_sched \<noteq> idle_thread sample_sched" "semas sample_sched (lock_semaphore ?l) \<noteq> 0"
    by (simp_all add: sample_sched_def boot_kstate_def)
  obtain s1 s2 where s1: "take_section (lock_semaphore ?l) sample_sched = Some s1"
    and s2: "own_section ?l s1 = Some s2" and r: "running s1 = ?c" "running s2 = ?c"
    by (auto simp: take_section_def own_section_def sample_sched_def boot_kstate_def set_sema_def
        running_thread_def upd_lock_def)
  let ?pc = "((\<lambda>_. Out)(?c := Got))(?c := In)"
  have st1: "lock_step sample_threads ?l (sample_sched, \<lambda>_. Out) (s1, (\<lambda>_. Out)(?c := Got))"
    using lock_step.Take [of sample_sched "\<lambda>_. Out" ?l s1 sample_threads] ne s1 run by simp
  have st2: "lock_step sample_threads ?l (s1, (\<lambda>_. Out)(?c := Got)) (s2, ?pc)"
    using lock_step.Own [of "(\<lambda>_. Out)(?c := Got)" s1 ?l s2 sample_threads] s2 r by simp
  have reach: "lock_reach sample_threads ?l (sample_sched, \<lambda>_. Out) (s2, ?pc)"
    by (rule lock_reach.Step [OF lock_reach.Step [OF lock_reach.Start st1] st2])
  from lock_reach_inv [OF reach lock_inv_init [OF sample_sched_ok f]]
  obtain rs where "sched_ok sample_threads (\<lambda>_. 0x100000) rs s2" by (auto simp: lock_inv_def)
  from schedule_select_running [OF this] obtain s3 where s3: "schedule_select s2 = Some s3" by blast
  have "lock_reach sample_threads ?l (sample_sched, \<lambda>_. Out) (s3, ?pc)"
    by (rule lock_reach.Step [OF reach lock_step.Preempt [OF s3]])
  from lock_mutual_exclusion [OF sample_sched_ok f this] s1 s2 s3 show ?thesis
    by (auto simp: sample_threads_def)
qed

text \<open>Nesting: fetching a free lock \<open>n\<close> times succeeds without blocking and makes the running
  thread its holder with count \<open>n\<close>; releasing it \<open>n\<close> times gives back the state before.\<close>

theorem lock_nesting:
  assumes "lock_free l s" and "running s \<noteq> 0" and "0 < n" and "n < 2 ^ 32"
  shows "fetch_many W l n s = Some (lock_held l (of_nat n) s) \<and>
    do { s' \<leftarrow> fetch_many W l n s; release_many l n s' } = Some s"
proof -
  obtain k where n: "n = Suc k" using assms(3) by (cases n) auto
  show ?thesis
    using fetch_many_held [OF assms(1,2), of W k] release_many_held [OF assms(1), of k] assms(4)
    unfolding n by (simp del: fetch_many.simps release_many.simps)
qed

theorem lock_nesting_witness:
  "lock_free 0xc0008040 boot_kstate \<and>
   do { s' \<leftarrow> fetch_many (\<lambda>_. None) 0xc0008040 3 boot_kstate; release_many 0xc0008040 3 s' } = Some boot_kstate"
proof -
  have f: "lock_free 0xc0008040 boot_kstate" "running boot_kstate \<noteq> 0"
    by (simp_all add: lock_free_def boot_kstate_def list_is_empty_def)
  have "(0 :: nat) < 3" "(3 :: nat) < 2 ^ 32" by simp_all
  from lock_nesting [OF f this, of "\<lambda>_. None"] f(1) show ?thesis by blast
qed

end
