(* ===== verification/Memory.thy ===== *)
theory Memory
  imports Semaphore
begin

text \<open>
  The memory manager of \<^verbatim>\<open>core/mm/memory.c\<close> above the page tables: virtual address ranges and
  physical pools (\<^verbatim>\<open>malloc_page\<close>, \<^verbatim>\<open>mfree_page\<close>, \<^verbatim>\<open>get_kernel_page\<close> and
  relatives), the block allocator (\<^verbatim>\<open>sys_malloc\<close>, \<^verbatim>\<open>sys_free\<close>) and the initialisation.

  Objects stored in allocated memory are kept in typed maps of the state (list nodes, arenas, control
  blocks and stacks of threads, locks and semaphores, timers, wait queues, byte queues), the rest of
  memory is \<open>pmem\<close>; \<open>memset0\<close> clears all of them in an address range.
  \<open>W\<close> is the parameter of the blocking operations (theory \<open>Sched\<close>).
\<close>

section \<open>Operations\<close>

datatype pool_type = MP_KERNEL | MP_USER

definition mem_pool :: "pool_type \<Rightarrow> kstate \<Rightarrow> pool" where
  "mem_pool poolt s = (case poolt of MP_KERNEL \<Rightarrow> kernel_pool s | MP_USER \<Rightarrow> user_pool s)"

definition set_mem_pool :: "pool_type \<Rightarrow> pool \<Rightarrow> kstate \<Rightarrow> kstate" where
  "set_mem_pool poolt p s = (case poolt of MP_KERNEL \<Rightarrow> s\<lparr>kernel_pool := p\<rparr> | MP_USER \<Rightarrow> s\<lparr>user_pool := p\<rparr>)"

text \<open>The address space descriptor that a pool type selects: the kernel's or the running thread's.\<close>

definition vspace :: "pool_type \<Rightarrow> kstate \<Rightarrow> virtual_addr" where
  "vspace poolt s = (case poolt of MP_KERNEL \<Rightarrow> kernel_viraddr s
     | MP_USER \<Rightarrow> progress_vaddr (tcbs s (running_thread s)))"

definition set_vspace :: "pool_type \<Rightarrow> bitmap \<Rightarrow> kstate \<Rightarrow> kstate" where
  "set_vspace poolt b s = (case poolt of MP_KERNEL \<Rightarrow> s\<lparr>kernel_viraddr := (kernel_viraddr s)\<lparr>vaddr_bitmap := b\<rparr>\<rparr>
     | MP_USER \<Rightarrow> upd_tcb (running_thread s)
         (\<lambda>t. t\<lparr>progress_vaddr := (progress_vaddr t)\<lparr>vaddr_bitmap := b\<rparr>\<rparr>) s)"

definition get_free_vaddress :: "pool_type \<Rightarrow> u32 \<Rightarrow> kstate \<Rightarrow> (u32 \<times> kstate) option" where
  "get_free_vaddress poolt pg_cnt s = do {
     start_pos \<leftarrow> find_block_bitmap (vaddr_bitmap (vspace poolt s)) pg_cnt;
     if start_pos = -1 then Some (0, s)
     else do {
       b \<leftarrow> set_run (vaddr_bitmap (vspace poolt s)) start_pos (unat pg_cnt) 1;
       Some (start_pos * 4096 + vaddr_start (vspace poolt s), set_vspace poolt b s)
     }
   }"

text \<open>The loop of \<^verbatim>\<open>malloc_page\<close>; the flag is false when a frame is missing.\<close>

primrec map_pages :: "pool_type \<Rightarrow> nat \<Rightarrow> u32 \<Rightarrow> kstate \<Rightarrow> (bool \<times> kstate) option" where
  "map_pages poolt 0 vaddr s = Some (True, s)"
| "map_pages poolt (Suc n) vaddr s = do {
     (phyaddrs, p) \<leftarrow> get_free_page (mem_pool poolt s);
     let s = set_mem_pool poolt p s;
     if phyaddrs = 0 then Some (False, s)
     else do {
       s \<leftarrow> put_page vaddr phyaddrs s;
       map_pages poolt n (vaddr + 4096) s
     }
   }"

definition malloc_page :: "pool_type \<Rightarrow> u32 \<Rightarrow> kstate \<Rightarrow> (u32 \<times> kstate) option" where
  "malloc_page poolt pg_cnt s = do {
     ASSERT (pg_cnt > 0);
     (vaddr_start, s) \<leftarrow> get_free_vaddress poolt pg_cnt s;
     if vaddr_start = 0 then Some (0, s)
     else do {
       (ok, s) \<leftarrow> map_pages poolt (unat pg_cnt) vaddr_start s;
       Some (if ok then vaddr_start else 0, s)
     }
   }"

definition desc_addr :: "addr \<Rightarrow> nat \<Rightarrow> addr" where
  "desc_addr desc_array i = desc_array + of_nat (16 * i)"

definition free_list :: "addr \<Rightarrow> addr" where
  "free_list d = d + 8"

definition DESC_CNT :: nat where
  "DESC_CNT = 7"

primrec block_desc_loop :: "nat \<Rightarrow> nat \<Rightarrow> u16 \<Rightarrow> addr \<Rightarrow> kstate \<Rightarrow> kstate" where
  "block_desc_loop 0 desc_idx bsize desc_array s = s"
| "block_desc_loop (Suc n) desc_idx bsize desc_array s =
     (let d = desc_addr desc_array desc_idx;
          s = s\<lparr>descs := (descs s)(d := \<lparr>block_size = ucast bsize, blocks_per_arena = (4096 - 12) div ucast bsize\<rparr>)\<rparr>;
          s = upd_lh (INIT_LIST_HEAD (free_list d)) s
      in block_desc_loop n (Suc desc_idx) (bsize * 2) desc_array s)"

definition block_desc_init :: "addr \<Rightarrow> kstate \<Rightarrow> kstate" where
  "block_desc_init desc_array s = block_desc_loop DESC_CNT 0 16 desc_array s"

definition arena2block :: "kstate \<Rightarrow> addr \<Rightarrow> u32 \<Rightarrow> addr" where
  "arena2block s a idx = a + 12 + idx * block_size (descs s (desc (arenas s a)))"

definition block2arena :: "addr \<Rightarrow> addr" where
  "block2arena b = b AND 0xfffff000"

definition free_addr_bitmap :: "bitmap \<Rightarrow> u32 \<Rightarrow> u32 \<Rightarrow> u32 \<Rightarrow> u32 \<Rightarrow> bitmap option" where
  "free_addr_bitmap bmap addr_start adr pos pg_cnt =
     (if adr < addr_start then PANIC
      else if pos > map_bytes_length bmap * 8 then PANIC
      else set_run bmap pos (unat pg_cnt) 0)"

definition free_vaddress :: "pool_type \<Rightarrow> u32 \<Rightarrow> u32 \<Rightarrow> kstate \<Rightarrow> kstate option" where
  "free_vaddress poolt vaddress pg_cnt s = do {
     let pos = (vaddress - vaddr_start (vspace poolt s)) div 4096;
     b \<leftarrow> free_addr_bitmap (vaddr_bitmap (vspace poolt s)) (vaddr_start (vspace poolt s)) vaddress pos pg_cnt;
     Some (set_vspace poolt b s)
   }"

definition free_page :: "pool \<Rightarrow> u32 \<Rightarrow> pool option" where
  "free_page mpool phy_addr_page =
     (if phy_addr_page < phy_addr_start mpool then PANIC
      else let pos = (phy_addr_page - phy_addr_start mpool) div 4096 in
        if pos > map_bytes_length (pool_bitmap mpool) * 8 then PANIC
        else do { b \<leftarrow> set_value_bitmap (pool_bitmap mpool) pos 0; Some (mpool\<lparr>pool_bitmap := b\<rparr>) })"

definition free_phy_page :: "u32 \<Rightarrow> kstate \<Rightarrow> kstate option" where
  "free_phy_page phy_addr_page s =
     (if phy_addr_page \<ge> phy_addr_start (user_pool s)
      then do { p \<leftarrow> free_page (user_pool s) phy_addr_page; Some (s\<lparr>user_pool := p\<rparr>) }
      else do { p \<leftarrow> free_page (kernel_pool s) phy_addr_page; Some (s\<lparr>kernel_pool := p\<rparr>) })"

definition malloc_page_with_vaddr :: "pool_type \<Rightarrow> u32 \<Rightarrow> kstate \<Rightarrow> (u32 \<times> kstate) option" where
  "malloc_page_with_vaddr poolt vaddr_start' s = do {
     let cur = running_thread s;
     s \<leftarrow> (if pgdir (tcbs s cur) = 0 \<and> poolt = MP_KERNEL \<or> pgdir (tcbs s cur) \<noteq> 0 \<and> poolt = MP_USER
           then do {
             let bit_idx = (vaddr_start' - vaddr_start (vspace poolt s)) div 4096;
             ASSERT (0 \<le>s bit_idx);
             b \<leftarrow> set_value_bitmap (vaddr_bitmap (vspace poolt s)) bit_idx 1;
             Some (set_vspace poolt b s)
           } else PANIC);
     (phyaddrs, p) \<leftarrow> get_free_page (mem_pool poolt s);
     let s = set_mem_pool poolt p s;
     if phyaddrs = 0 then Some (0, s)
     else do { s \<leftarrow> put_page vaddr_start' phyaddrs s; Some (vaddr_start', s) }
   }"

definition get_phy_free_page_with_vaddr ::
    "(kstate \<Rightarrow> kstate option) \<Rightarrow> pool_type \<Rightarrow> u32 \<Rightarrow> addr \<Rightarrow> kstate \<Rightarrow> (u32 \<times> kstate) option" where
  "get_phy_free_page_with_vaddr W poolt vaddr child_pgdir s = do {
     s \<leftarrow> lock_fetch W (pool_lock (mem_pool poolt s)) s;
     (page_phyaddr, p) \<leftarrow> get_free_page (mem_pool poolt s);
     let s = set_mem_pool poolt p s;
     if page_phyaddr = 0
     then do { s \<leftarrow> lock_fetch W (pool_lock (mem_pool poolt s)) s; Some (0, s) }
     else do {
       s \<leftarrow> put_page_and_flush vaddr page_phyaddr child_pgdir s;
       s \<leftarrow> lock_release (pool_lock (mem_pool poolt s)) s;
       Some (vaddr, s)
     }
   }"

text \<open>\<^verbatim>\<open>memset (a, 0, n)\<close> on word-aligned memory.\<close>

definition in_range :: "addr \<Rightarrow> u32 \<Rightarrow> addr \<Rightarrow> bool" where
  "in_range a n x \<longleftrightarrow> x - a < n"

definition clear_objects :: "addr \<Rightarrow> u32 \<Rightarrow> kstate \<Rightarrow> kstate" where
  "clear_objects a n s = s\<lparr>
     lh := \<lparr>nxt = (\<lambda>x. if in_range a n x then 0 else nxt (lh s) x),
            prv = (\<lambda>x. if in_range a n x then 0 else prv (lh s) x)\<rparr>,
     arenas := (\<lambda>x. if in_range a n x then \<lparr>desc = 0, cnt = 0, large = False\<rparr> else arenas s x),
     tcbs := (\<lambda>x. if in_range a n x then zero_tcb else tcbs s x),
     kstacks := (\<lambda>x. if in_range a n x then \<lparr>ts_ebp = 0, ts_ebx = 0, ts_edi = 0, ts_esi = 0, ts_eip = 0,
       ts_function = 0, ts_func_arg = 0\<rparr> else kstacks s x),
     locks := (\<lambda>x. if in_range a n x then \<lparr>holder = 0, holder_repeat_nr = 0\<rparr> else locks s x),
     semas := (\<lambda>x. if in_range a n x then 0 else semas s x),
     timers := (\<lambda>x. if in_range a n x then \<lparr>expires = 0, tdata = 0, tfunction = process_timeout_fn\<rparr> else timers s x),
     waits := (\<lambda>x. if in_range a n x then \<lparr>wq_flags = 0, wq_task = 0, wq_magic = 0\<rparr> else waits s x),
     wqh_magic := (\<lambda>x. if in_range a n x then 0 else wqh_magic s x),
     queues := (\<lambda>x. let q = (if in_range a n x then (queues s x)\<lparr>producer_p := 0, consumor_p := 0, qsize := 0\<rparr> else queues s x)
       in q\<lparr>qbuf := (\<lambda>i. if in_range a n (x + 48 + i) then 0 else qbuf q i)\<rparr>)\<rparr>"

definition memset0 :: "addr \<Rightarrow> u32 \<Rightarrow> kstate \<Rightarrow> kstate option" where
  "memset0 a n s = do { s \<leftarrow> vzero (unat n div 4) a s; Some (clear_objects a n s) }"

definition get_kernel_page :: "(kstate \<Rightarrow> kstate option) \<Rightarrow> u32 \<Rightarrow> kstate \<Rightarrow> (u32 \<times> kstate) option" where
  "get_kernel_page W pg_cnt s = do {
     s \<leftarrow> lock_fetch W (pool_lock (kernel_pool s)) s;
     (vaddr, s) \<leftarrow> malloc_page MP_KERNEL pg_cnt s;
     s \<leftarrow> (if vaddr \<noteq> 0 then memset0 vaddr (pg_cnt * 4096) s else Some s);
     s \<leftarrow> lock_release (pool_lock (kernel_pool s)) s;
     Some (vaddr, s)
   }"

definition get_user_page :: "(kstate \<Rightarrow> kstate option) \<Rightarrow> u32 \<Rightarrow> kstate \<Rightarrow> (u32 \<times> kstate) option" where
  "get_user_page W pg_cnt s = do {
     s \<leftarrow> lock_fetch W (pool_lock (user_pool s)) s;
     (vaddr, s) \<leftarrow> malloc_page MP_USER pg_cnt s;
     s \<leftarrow> (if vaddr \<noteq> 0 then memset0 vaddr (pg_cnt * 4096) s else Some s);
     s \<leftarrow> lock_release (pool_lock (user_pool s)) s;
     Some (vaddr, s)
   }"

primrec unmap_pages :: "pool_type \<Rightarrow> nat \<Rightarrow> u32 \<Rightarrow> kstate \<Rightarrow> kstate option" where
  "unmap_pages poolt 0 vaddr s = Some s"
| "unmap_pages poolt (Suc n) vaddr s = do {
     phy_addr \<leftarrow> virtual_addr_to_physical_addr vaddr s;
     p \<leftarrow> free_page (mem_pool poolt s) phy_addr;
     s \<leftarrow> remove_page vaddr (set_mem_pool poolt p s);
     unmap_pages poolt n (vaddr + 4096) s
   }"

definition mfree_page :: "pool_type \<Rightarrow> u32 \<Rightarrow> u32 \<Rightarrow> kstate \<Rightarrow> kstate option" where
  "mfree_page poolt vaddr pg_cnt s = do {
     s \<leftarrow> free_vaddress poolt vaddr pg_cnt s;
     unmap_pages poolt (unat pg_cnt) vaddr s
   }"

section \<open>The block allocator\<close>

function find_desc :: "kstate \<Rightarrow> addr \<Rightarrow> u32 \<Rightarrow> nat \<Rightarrow> nat" where
  "find_desc s ds sz desc_idx =
     (if desc_idx < DESC_CNT \<and> \<not> sz \<le> block_size (descs s (desc_addr ds desc_idx))
      then find_desc s ds sz (Suc desc_idx) else desc_idx)"
  by pat_completeness auto
termination
  by (relation "measure (\<lambda>(s, ds, sz, i). DESC_CNT - i)") auto

declare find_desc.simps [simp del]

primrec link_blocks :: "nat \<Rightarrow> u32 \<Rightarrow> addr \<Rightarrow> kstate \<Rightarrow> kstate" where
  "link_blocks 0 block_idx area s = s"
| "link_blocks (Suc n) block_idx area s =
     link_blocks n (block_idx + 1) area
       (upd_lh (list_add_tail (arena2block s area block_idx) (free_list (desc (arenas s area)))) s)"

primrec unlink_blocks :: "nat \<Rightarrow> u32 \<Rightarrow> addr \<Rightarrow> kstate \<Rightarrow> kstate" where
  "unlink_blocks 0 block_idx area s = s"
| "unlink_blocks (Suc n) block_idx area s =
     unlink_blocks n (block_idx + 1) area (upd_lh (list_del_init (arena2block s area block_idx)) s)"

definition upd_arena :: "addr \<Rightarrow> (arena \<Rightarrow> arena) \<Rightarrow> kstate \<Rightarrow> kstate" where
  "upd_arena a f s = s\<lparr>arenas := (arenas s)(a := f (arenas s a))\<rparr>"

text \<open>The pool type and the descriptors of the running thread.\<close>

definition cur_pool :: "kstate \<Rightarrow> pool_type" where
  "cur_pool s = (if pgdir (tcbs s (running_thread s)) = 0 then MP_KERNEL else MP_USER)"

definition cur_descs :: "kstate \<Rightarrow> addr" where
  "cur_descs s = (if pgdir (tcbs s (running_thread s)) = 0 then k_block_descs s
     else u_block_descs (running_thread s))"

text \<open>The part of \<open>sys_malloc\<close> for more than 1024 bytes.\<close>

definition malloc_large :: "pool_type \<Rightarrow> u32 \<Rightarrow> kstate \<Rightarrow> (addr \<times> kstate) option" where
  "malloc_large pool_t sz s = do {
     let page_cnt = DIV_ROUND_UP (sz + 12) 4096;
     (area, s) \<leftarrow> malloc_page pool_t page_cnt s;
     if area \<noteq> 0 then do {
       s \<leftarrow> memset0 area (4096 * page_cnt) s;
       let s = upd_arena area (\<lambda>a. a\<lparr>desc := 0, cnt := page_cnt, large := True\<rparr>) s;
       s \<leftarrow> lock_release (pool_lock (mem_pool pool_t s)) s;
       Some (area + 12, s)
     } else do {
       s \<leftarrow> lock_release (pool_lock (mem_pool pool_t s)) s;
       Some (0, s)
     }
   }"

text \<open>A new arena for an empty free list; the address 0 when no page is left.\<close>

definition new_arena :: "pool_type \<Rightarrow> addr \<Rightarrow> kstate \<Rightarrow> (addr \<times> kstate) option" where
  "new_arena pool_t d s = do {
     (area, s) \<leftarrow> malloc_page pool_t 1 s;
     if area = 0 then Some (0, s)
     else do {
       s \<leftarrow> memset0 area 4096 s;
       let s = upd_arena area (\<lambda>a. a\<lparr>desc := d, large := False, cnt := blocks_per_arena (descs s d)\<rparr>) s;
       let (old_status, s) = intr_disable s;
       let s = link_blocks (unat (blocks_per_arena (descs s d))) 0 area s;
       Some (area, intr_set_status old_status s)
     }
   }"

definition take_block :: "pool_type \<Rightarrow> addr \<Rightarrow> kstate \<Rightarrow> (addr \<times> kstate) option" where
  "take_block pool_t d s = do {
     let (block, m) = list_pop (free_list d) (lh s);
     s \<leftarrow> memset0 block (block_size (descs s d)) (s\<lparr>lh := m\<rparr>);
     let s = upd_arena (block2arena block) (\<lambda>a. a\<lparr>cnt := cnt a - 1\<rparr>) s;
     s \<leftarrow> lock_release (pool_lock (mem_pool pool_t s)) s;
     Some (block, s)
   }"

definition malloc_small :: "pool_type \<Rightarrow> addr \<Rightarrow> u32 \<Rightarrow> kstate \<Rightarrow> (addr \<times> kstate) option" where
  "malloc_small pool_t ds sz s = do {
     let d = desc_addr ds (find_desc s ds sz 0);
     if list_is_empty (free_list d) (lh s) then do {
       (area, s) \<leftarrow> new_arena pool_t d s;
       if area = 0 then do { s \<leftarrow> lock_release (pool_lock (mem_pool pool_t s)) s; Some (0, s) }
       else take_block pool_t d s
     } else take_block pool_t d s
   }"

definition sys_malloc :: "(kstate \<Rightarrow> kstate option) \<Rightarrow> u32 \<Rightarrow> kstate \<Rightarrow> (addr \<times> kstate) option" where
  "sys_malloc W sz s = do {
     let pool_t = cur_pool s;
     let ds = cur_descs s;
     if \<not> (sz > 0 \<and> sz < pool_size (mem_pool pool_t s)) then Some (0, s)
     else do {
       s \<leftarrow> lock_fetch W (pool_lock (mem_pool pool_t s)) s;
       if sz > 1024 then malloc_large pool_t sz s else malloc_small pool_t ds sz s
     }
   }"

definition sys_free :: "(kstate \<Rightarrow> kstate option) \<Rightarrow> addr \<Rightarrow> kstate \<Rightarrow> kstate option" where
  "sys_free W ptr s = do {
     ASSERT (ptr \<noteq> 0);
     let pool_t = cur_pool s;
     ASSERT (pool_t = MP_KERNEL \<longrightarrow> ptr \<ge> 0xc0100000);
     s \<leftarrow> lock_fetch W (pool_lock (mem_pool pool_t s)) s;
     let a = block2arena ptr;
     s \<leftarrow> (if desc (arenas s a) = 0 \<and> large (arenas s a) then mfree_page pool_t a (cnt (arenas s a)) s
           else do {
             let s = upd_lh (list_add_tail ptr (free_list (desc (arenas s a)))) s;
             let s = upd_arena a (\<lambda>x. x\<lparr>cnt := cnt x + 1\<rparr>) s;
             let n = blocks_per_arena (descs s (desc (arenas s a)));
             if cnt (arenas s a) = n then mfree_page pool_t a 1 (unlink_blocks (unat n) 0 a s)
             else Some s
           });
     lock_release (pool_lock (mem_pool pool_t s)) s
   }"

section \<open>Initialisation\<close>

definition mem_pool_init :: "u32 \<Rightarrow> kstate \<Rightarrow> kstate" where
  "mem_pool_init all_mem s =
     (let page_table_size = 4096 * (1 + 254 + 1 + 1);
          used_mem = page_table_size + 0x100000;
          free_mem = all_mem - used_mem;
          all_free_pages = (ucast (free_mem div 4096) :: u16);
          kernel_free_page = all_free_pages div 2;
          user_free_page = all_free_pages - kernel_free_page;
          kbm_length = (ucast kernel_free_page :: u32) div 8;
          ubm_length = (ucast user_free_page :: u32) div 8;
          kp_start = used_mem;
          up_start = kp_start + ucast kernel_free_page * 4096;
          kp = (kernel_pool s)\<lparr>phy_addr_start := kp_start, pool_size := ucast kernel_free_page * 4096,
            pool_bitmap := init_bitmap ((pool_bitmap (kernel_pool s))\<lparr>map_bytes_length := kbm_length\<rparr>)\<rparr>;
          up = (user_pool s)\<lparr>phy_addr_start := up_start, pool_size := ucast user_free_page * 4096,
            pool_bitmap := init_bitmap ((pool_bitmap (user_pool s))\<lparr>map_bytes_length := ubm_length\<rparr>)\<rparr>;
          s = lock_init (pool_lock up) (lock_init (pool_lock kp) (s\<lparr>kernel_pool := kp, user_pool := up\<rparr>))
      in s\<lparr>kernel_viraddr := \<lparr>vaddr_bitmap = init_bitmap ((vaddr_bitmap (kernel_viraddr s))
            \<lparr>map_bytes_length := kbm_length\<rparr>), vaddr_start = 0xc0100000\<rparr>\<rparr>)"

text \<open>The BIOS memory map as a list of (low length, type); \<open>None\<close> when the loader left no map.\<close>

definition mem_total :: "(u32 \<times> u32) list option \<Rightarrow> u32" where
  "mem_total mmap = (case mmap of None \<Rightarrow> 0
     | Some ds \<Rightarrow> fold (\<lambda>(length_low, t) total. if t = 1 then total + length_low else total) ds 0)"

definition mem_init :: "(u32 \<times> u32) list option \<Rightarrow> kstate \<Rightarrow> kstate" where
  "mem_init mmap s = (let s = mem_pool_init (mem_total mmap) s in block_desc_init (k_block_descs s) s)"

section \<open>Mapping a range of pages\<close>

lemma mem_pool_set [simp]: "mem_pool t (set_mem_pool t p s) = p"
  "mem_pool t (s\<lparr>pmem := m\<rparr>) = mem_pool t s"
  "set_mem_pool t p (s\<lparr>pmem := m\<rparr>) = (set_mem_pool t p s)\<lparr>pmem := m\<rparr>"
  by (cases t; simp add: mem_pool_def set_mem_pool_def)+

lemma set_mem_pool_tables [simp]:
  "pmem (set_mem_pool t p s) = pmem s" "cr3 (set_mem_pool t p s) = cr3 s"
  "tcbs (set_mem_pool t p s) = tcbs s" "running (set_mem_pool t p s) = running s"
  "pde_at (set_mem_pool t p s) v = pde_at s v" "pte_phys (set_mem_pool t p s) v = pte_phys s v"
  "translate (set_mem_pool t p s) v = translate s v" "self_map (set_mem_pool t p s) = self_map s"
  "pt_wf (set_mem_pool t p s) = pt_wf s" "dir_current (set_mem_pool t p s) = dir_current s"
  "dir_apart v (set_mem_pool t p s) = dir_apart v s" "same_pte (set_mem_pool t p s) v w = same_pte s v w"
  "table_frame (set_mem_pool t p s) f = table_frame s f"
  by (cases t; simp add: set_mem_pool_def pde_at_def pte_phys_def translate_def self_map_def pt_wf_def
      dir_current_def dir_apart_def same_pte_def table_frame_def)+

text \<open>
  The pages from \<open>v\<close> on have page tables (as the whole kernel half has), no two of them share an
  entry, and none is the page of the running thread's directory.
\<close>

primrec pages_ok :: "kstate \<Rightarrow> nat \<Rightarrow> u32 \<Rightarrow> bool" where
  "pages_ok s 0 v \<longleftrightarrow> True"
| "pages_ok s (Suc n) v \<longleftrightarrow> PDE_IDX v \<noteq> 1023 \<and> present (pde_at s v) \<and> dir_apart v s \<and>
     (\<forall>k < n. \<not> same_pte s v (v + 4096 + of_nat k * 4096)) \<and> pages_ok s n (v + 4096)"

lemma same_pte_cong:
  "(\<And>w. pde_at s' w = pde_at s w) \<Longrightarrow> same_pte s' a b = same_pte s a b"
  by (simp add: same_pte_def pte_phys_def)

lemma same_pte_sym: "same_pte s a b = same_pte s b a"
  by (auto simp: same_pte_def)

lemma pages_ok_cong:
  assumes "\<And>w. pde_at s' w = pde_at s w" and "tcbs s' = tcbs s" and "running s' = running s"
  shows "pages_ok s' n v = pages_ok s n v"
proof -
  have "same_pte s' a b = same_pte s a b" for a b by (simp add: same_pte_def pte_phys_def assms)
  then show ?thesis
    by (induction n arbitrary: v) (simp_all add: assms dir_apart_def)
qed

lemma put_page_write:
  assumes wf: "pt_wf s" "dir_current s" and v: "PDE_IDX v \<noteq> 1023" "present (pde_at s v)" "dir_apart v s"
    and s': "s' = s\<lparr>pmem := (pmem s)(pte_phys s v := p OR 7)\<rparr>"
  shows "put_page v p s = Some s'" and "pt_wf s'" and "dir_current s'" and "pde_at s' w = pde_at s w"
    and "translate s' v = Some (frame p + offset v)"
    and "\<not> same_pte s v w \<Longrightarrow> translate s' w = translate s w" and "table_frame s' f = table_frame s f"
proof -
  note w = write_pte [OF wf(1) v(1,2) s']
  show "put_page v p s = Some s'"
    using put_page_present [OF wf v(1,2), of p] v(3) by (simp add: s' dir_apart_def Let_def)
  show "pt_wf s'" "pde_at s' w = pde_at s w" "translate s' v = Some (frame p + offset v)"
    "\<not> same_pte s v w \<Longrightarrow> translate s' w = translate s w"
    using w by simp_all
  show "dir_current s'" using wf(2) v(3) w(5) by (auto simp: s' dir_current_def dir_apart_def Let_def)
  show "table_frame s' f = table_frame s f"
    using table_frame_write_pte [OF wf(1) v(1,2)] by (simp add: s')
qed

definition free_pages :: "pool \<Rightarrow> nat set" where
  "free_pages p = {i. i < pages p \<and> \<not> page_used p i}"

lemma finite_free_pages [simp]: "finite (free_pages p)"
  by (rule finite_subset [of _ "{..<pages p}"]) (auto simp: free_pages_def)

text \<open>What \<open>map_pages\<close> has done when it succeeds with the frames \<open>fs\<close>.\<close>

definition mapped_range :: "pool_type \<Rightarrow> nat \<Rightarrow> u32 \<Rightarrow> nat list \<Rightarrow> kstate \<Rightarrow> kstate \<Rightarrow> bool" where
  "mapped_range t n v fs s s' \<longleftrightarrow> (\<exists>m p. s' = (set_mem_pool t p s)\<lparr>pmem := m\<rparr> \<and> pt_wf s' \<and> dir_current s' \<and>
     pool_wf p \<and> same_pool (mem_pool t s) p \<and> length fs = n \<and> distinct fs \<and>
     set fs \<subseteq> free_pages (mem_pool t s) \<and> free_pages p = free_pages (mem_pool t s) - set fs \<and>
     (\<forall>w. pde_at s' w = pde_at s w) \<and> (\<forall>f. table_frame s' f = table_frame s f) \<and>
     (\<forall>k < n. translate s' (v + of_nat k * 4096) =
        Some (page_addr (mem_pool t s) (fs ! k) + offset (v + of_nat k * 4096))) \<and>
     (\<forall>w. (\<forall>k < n. \<not> same_pte s (v + of_nat k * 4096) w) \<longrightarrow> translate s' w = translate s w))"

lemma page_addr_same_pool: "same_pool p q \<Longrightarrow> page_addr q i = page_addr p i"
  by (simp add: page_addr_def same_pool_def)

lemma page_addr_nonzero:
  "pool_wf p \<Longrightarrow> phy_addr_start p \<noteq> 0 \<Longrightarrow> i < pages p \<Longrightarrow> page_addr p i \<noteq> 0"
  using unat_page_addr [of p i] by (metis add_is_0 unat_eq_zero)

lemma map_pages_ok:
  assumes "pt_wf s" and "dir_current s" and "pool_wf (mem_pool t s)" and "phy_addr_start (mem_pool t s) \<noteq> 0"
    and "n \<le> card (free_pages (mem_pool t s))" and "pages_ok s n v"
  shows "\<exists>s' fs. map_pages t n v s = Some (True, s') \<and> mapped_range t n v fs s s'"
  using assms
proof (induction n arbitrary: v s)
  case 0
  have "s = (set_mem_pool t (mem_pool t s) s)\<lparr>pmem := pmem s\<rparr>"
    by (cases t) (simp_all add: set_mem_pool_def mem_pool_def)
  then have "mapped_range t 0 v [] s s"
    using 0 unfolding mapped_range_def
    by (intro exI [of _ "pmem s"] exI [of _ "mem_pool t s"]) (simp add: same_pool_def)
  then show ?case by auto
next
  case (Suc n)
  let ?P = "mem_pool t s"
  have "free_pages ?P \<noteq> {}" using Suc.prems(5) by (metis card.empty not_less_eq_eq zero_le)
  then obtain i where "i < pages ?P" "\<not> page_used ?P i" by (auto simp: free_pages_def)
  from get_free_page_found [OF Suc.prems(3) this] obtain j q where
    g: "get_free_page ?P = Some (page_addr ?P j, q)" and j: "j < pages ?P" "\<not> page_used ?P j"
    and q: "pool_wf q" "same_pool ?P q" "page_used q = (page_used ?P)(j := True)" by blast
  have fq: "free_pages q = free_pages ?P - {j}" "j \<in> free_pages ?P"
    using q(2,3) j by (auto simp: free_pages_def same_pool_def)
  let ?s1 = "set_mem_pool t q s"
  define s2 where "s2 = ?s1\<lparr>pmem := (pmem ?s1)(pte_phys ?s1 v := page_addr ?P j OR 7)\<rparr>"
  have pk: "PDE_IDX v \<noteq> 1023" "present (pde_at s v)" "dir_apart v s" "pages_ok s n (v + 4096)"
    and ap: "\<forall>k < n. \<not> same_pte s v (v + 4096 + of_nat k * 4096)"
    using Suc.prems(6) by simp_all
  have s1: "pt_wf ?s1" "dir_current ?s1" "present (pde_at ?s1 v)" "dir_apart v ?s1"
    using Suc.prems(1,2) pk by simp_all
  note pw = put_page_write [OF s1(1,2) pk(1) s1(3,4) s2_def]
  have pde: "pde_at s2 w = pde_at s w" for w using pw(4) by simp
  have sp: "same_pte s2 a b = same_pte s a b" for a b by (rule same_pte_cong [OF pde])
  have s2: "mem_pool t s2 = q" "tcbs s2 = tcbs s" "running s2 = running s"
    "(set_mem_pool t p s2)\<lparr>pmem := m\<rparr> = (set_mem_pool t p s)\<lparr>pmem := m\<rparr>" for p m
    by (cases t; simp add: s2_def mem_pool_def set_mem_pool_def)+
  have po: "pages_ok s2 n (v + 4096)"
    using pk(4) pages_ok_cong [of s2 s n "v + 4096"] pde s2 by simp
  have "n \<le> card (free_pages (mem_pool t s2))" using Suc.prems(5) fq s2(1) by simp
  moreover have "phy_addr_start (mem_pool t s2) \<noteq> 0" using Suc.prems(4) q(2) s2(1) by (simp add: same_pool_def)
  ultimately obtain s' fs where s': "map_pages t n (v + 4096) s2 = Some (True, s')"
    and mr: "mapped_range t n (v + 4096) fs s2 s'"
    using Suc.IH [of s2 "v + 4096"] po pw(2,3) q(1) s2(1) by auto
  have nz: "page_addr ?P j \<noteq> 0" using page_addr_nonzero [OF Suc.prems(3,4) j(1)] .
  have 1: "map_pages t (Suc n) v s = Some (True, s')"
    using g nz pw(1) s' by simp
  have v0: "translate s' v = Some (page_addr ?P j + offset v)"
  proof -
    have "\<forall>k < n. \<not> same_pte s2 (v + 4096 + of_nat k * 4096) v"
      using ap sp same_pte_sym by blast
    then have "translate s' v = translate s2 v" using mr unfolding mapped_range_def by blast
    then show ?thesis using pw(5) frame_page_addr [OF Suc.prems(3) j(1)] by simp
  qed
  have "mapped_range t (Suc n) v (j # fs) s s'"
  proof -
    have "translate s' (v + of_nat k * 4096) = Some (page_addr ?P ((j # fs) ! k) + offset (v + of_nat k * 4096))"
      if "k < Suc n" for k
    proof (cases k)
      case (Suc k')
      have e: "v + of_nat k * 4096 = v + 4096 + of_nat k' * 4096" by (simp add: Suc algebra_simps)
      have "translate s' (v + 4096 + of_nat k' * 4096) =
          Some (page_addr q (fs ! k') + offset (v + 4096 + of_nat k' * 4096))"
        using mr that Suc s2(1) unfolding mapped_range_def by (metis Suc_less_eq)
      then show ?thesis unfolding e using Suc page_addr_same_pool [OF q(2)] by simp
    qed (use v0 in simp)
    moreover have "translate s' w = translate s w" if a: "\<forall>k < Suc n. \<not> same_pte s (v + of_nat k * 4096) w" for w
    proof -
      have "\<not> same_pte s v w" using a by force
      then have "translate s2 w = translate s w" using pw(6) by simp
      moreover have "\<not> same_pte s2 (v + 4096 + of_nat k * 4096) w" if "k < n" for k
      proof -
        have "v + of_nat (Suc k) * 4096 = v + 4096 + of_nat k * 4096" by (simp add: algebra_simps)
        with a \<open>k < n\<close> sp show ?thesis by (metis Suc_less_eq)
      qed
      ultimately show ?thesis using mr by (auto simp: mapped_range_def)
    qed
    moreover obtain m p where "s' = (set_mem_pool t p s2)\<lparr>pmem := m\<rparr>" "pt_wf s'" "dir_current s'" "pool_wf p"
      "same_pool q p" "length fs = n" "distinct fs" "set fs \<subseteq> free_pages q" "free_pages p = free_pages q - set fs"
      "\<forall>w. pde_at s' w = pde_at s2 w" "\<forall>f. table_frame s' f = table_frame s2 f"
      using mr s2(1) by (auto simp: mapped_range_def)
    ultimately show ?thesis
      using fq q(2) pde pw(7) s2(4)
      by (auto simp: mapped_range_def same_pool_def intro!: exI [of _ m] exI [of _ p])
  qed
  with 1 show ?case by blast
qed

section \<open>Allocating and freeing a range\<close>

lemma vspace_set [simp]:
  "vspace t (set_vspace t b s) = (vspace t s)\<lparr>vaddr_bitmap := b\<rparr>"
  "mem_pool u (set_vspace t b s) = mem_pool u s" "running (set_vspace t b s) = running s"
  "pmem (set_vspace t b s) = pmem s" "cr3 (set_vspace t b s) = cr3 s"
  "pgdir (tcbs (set_vspace t b s) x) = pgdir (tcbs s x)"
  by (cases t; cases u; simp add: vspace_def set_vspace_def upd_tcb_def running_thread_def mem_pool_def)+

lemma vspace_pool [simp]:
  "vspace t (set_mem_pool u p s) = vspace t s" "vspace t (s\<lparr>pmem := m\<rparr>) = vspace t s"
  by (cases t; cases u; simp add: vspace_def set_mem_pool_def running_thread_def)+

lemma set_vspace_tables [simp]:
  "pde_at (set_vspace t p s) v = pde_at s v" "pte_phys (set_vspace t p s) v = pte_phys s v"
  "translate (set_vspace t p s) v = translate s v" "self_map (set_vspace t p s) = self_map s"
  "pt_wf (set_vspace t p s) = pt_wf s" "dir_current (set_vspace t p s) = dir_current s"
  "dir_apart v (set_vspace t p s) = dir_apart v s" "same_pte (set_vspace t p s) v w = same_pte s v w"
  "table_frame (set_vspace t p s) f = table_frame s f"
  by (simp_all add: pde_at_def pte_phys_def translate_def self_map_def pt_wf_def
      dir_current_def dir_apart_def same_pte_def table_frame_def)

lemma pages_ok_vspace [simp]: "pages_ok (set_vspace t b s) n v = pages_ok s n v"
  by (induction n arbitrary: v) simp_all

definition vspace_wf :: "virtual_addr \<Rightarrow> bool" where
  "vspace_wf va \<longleftrightarrow> wf_bitmap (vaddr_bitmap va) \<and> vaddr_start va \<noteq> 0 \<and>
     unat (vaddr_start va) + 4096 * nbits (vaddr_bitmap va) \<le> 2 ^ 32"

definition vpage :: "virtual_addr \<Rightarrow> nat \<Rightarrow> u32" where
  "vpage va i = vaddr_start va + of_nat i * 4096"

lemma unat_vpage:
  assumes "vspace_wf va" and "i < nbits (vaddr_bitmap va)"
  shows "unat (vpage va i) = unat (vaddr_start va) + 4096 * i"
proof -
  have b: "4096 * i < 2 ^ 32" "unat (vaddr_start va) + 4096 * i < 2 ^ 32"
    using assms by (auto simp: vspace_wf_def)
  then have "unat (of_nat i * 4096 :: u32) = 4096 * i"
    using unat_of_nat_32 [of "4096 * i"] by (simp add: mult.commute)
  with b show ?thesis unfolding vpage_def by (subst unat_add_less) simp_all
qed

lemma get_free_vaddress_ok:
  assumes wf: "vspace_wf (vspace t s)" and pgc: "pgc \<noteq> 0"
    and fit: "first_fit (vaddr_bitmap (vspace t s)) (unat pgc) = Some i"
  shows "\<exists>b. get_free_vaddress t pgc s = Some (vpage (vspace t s) i, set_vspace t b s) \<and>
    vpage (vspace t s) i \<noteq> 0 \<and> wf_bitmap b \<and> nbits b = nbits (vaddr_bitmap (vspace t s)) \<and>
    is_set b = (\<lambda>j. i \<le> j \<and> j < i + unat pgc \<or> is_set (vaddr_bitmap (vspace t s)) j)"
proof -
  let ?b = "vaddr_bitmap (vspace t s)"
  have wfb: "wf_bitmap ?b" using wf by (simp add: vspace_wf_def)
  have fr: "free_run ?b i (unat pgc)" using first_fit_SomeD(1) [OF fit] .
  then have lt: "i + unat pgc \<le> nbits ?b" by (simp add: free_run_def)
  have c0: "unat pgc \<noteq> 0" using pgc by (simp add: unat_eq_0)
  have "4096 * nbits ?b \<le> 2 ^ 32" using wf by (simp add: vspace_wf_def)
  then have ib: "i < 2 ^ 32 - 1" using lt c0 by linarith
  then have u: "unat (of_nat i :: u32) = i" "(of_nat i :: u32) \<noteq> -1"
    by (simp_all add: unat_of_nat_32 u32_of_index_neq)
  have f: "find_block_bitmap ?b pgc = Some (of_nat i)"
    using find_block_bitmap_spec [OF wfb pgc] fit by (simp add: u32_of_index_def)
  from bm.put_run_spec [OF wfb, of "of_nat i" "unat pgc" 1] u(1) lt obtain b where
    b: "set_run ?b (of_nat i) (unat pgc) 1 = Some b" "wf_bitmap b" "nbits b = nbits ?b"
    "is_set b = (\<lambda>j. if i \<le> j \<and> j < i + unat pgc then 1 = (1 :: u8) else is_set ?b j)" by auto
  have "unat (vpage (vspace t s) i) = unat (vaddr_start (vspace t s)) + 4096 * i"
    using lt c0 by (intro unat_vpage [OF wf]) linarith
  then have "vpage (vspace t s) i \<noteq> 0"
    using wf by (metis add_is_0 unat_eq_zero vspace_wf_def)
  moreover have "get_free_vaddress t pgc s = Some (vpage (vspace t s) i, set_vspace t b s)"
    using f b(1) u(2) by (simp add: get_free_vaddress_def vpage_def add.commute)
  moreover have "is_set b = (\<lambda>j. i \<le> j \<and> j < i + unat pgc \<or> is_set ?b j)" unfolding b(4) by auto
  ultimately show ?thesis using b(2,3) by blast
qed

lemma malloc_page_ok:
  assumes "pt_wf s" and "dir_current s" and "pool_wf (mem_pool t s)" and "phy_addr_start (mem_pool t s) \<noteq> 0"
    and wf: "vspace_wf (vspace t s)" and pgc: "pgc \<noteq> 0"
    and fit: "first_fit (vaddr_bitmap (vspace t s)) (unat pgc) = Some i"
    and fr: "unat pgc \<le> card (free_pages (mem_pool t s))"
    and pg: "pages_ok s (unat pgc) (vpage (vspace t s) i)"
  shows "\<exists>b s' fs. malloc_page t pgc s = Some (vpage (vspace t s) i, s') \<and>
    mapped_range t (unat pgc) (vpage (vspace t s) i) fs (set_vspace t b s) s' \<and>
    vpage (vspace t s) i \<noteq> 0 \<and> wf_bitmap b \<and> nbits b = nbits (vaddr_bitmap (vspace t s)) \<and>
    is_set b = (\<lambda>j. i \<le> j \<and> j < i + unat pgc \<or> is_set (vaddr_bitmap (vspace t s)) j)"
proof -
  from get_free_vaddress_ok [OF wf pgc fit] obtain b where b:
    "get_free_vaddress t pgc s = Some (vpage (vspace t s) i, set_vspace t b s)"
    "vpage (vspace t s) i \<noteq> 0" "wf_bitmap b" "nbits b = nbits (vaddr_bitmap (vspace t s))"
    "is_set b = (\<lambda>j. i \<le> j \<and> j < i + unat pgc \<or> is_set (vaddr_bitmap (vspace t s)) j)" by blast
  from map_pages_ok [of "set_vspace t b s" t "unat pgc" "vpage (vspace t s) i"] assms(1-4) fr pg
  obtain s' fs where "map_pages t (unat pgc) (vpage (vspace t s) i) (set_vspace t b s) = Some (True, s')"
    "mapped_range t (unat pgc) (vpage (vspace t s) i) fs (set_vspace t b s) s'" by auto
  moreover have "pgc > 0" using pgc by (simp add: word_gt_0)
  ultimately show ?thesis using b by (auto simp: malloc_page_def)
qed

lemma free_page_ok:
  assumes wf: "pool_wf p" and i: "i < pages p"
  shows "\<exists>q. free_page p (page_addr p i) = Some q \<and> pool_wf q \<and> same_pool p q \<and>
    page_used q = (page_used p)(i := False)"
proof -
  let ?b = "pool_bitmap p"
  have wfb: "wf_bitmap ?b" using wf by (simp add: pool_wf_def)
  have u: "unat (page_addr p i) = unat (phy_addr_start p) + 4096 * i" by (rule unat_page_addr [OF wf i])
  then have "\<not> page_addr p i < phy_addr_start p" by (simp add: word_less_nat_alt)
  moreover have "unat (page_addr p i - phy_addr_start p) = 4096 * i"
    using u unat_sub_word [of "phy_addr_start p" "page_addr p i"] by simp
  then have pos: "unat ((page_addr p i - phy_addr_start p) div 4096) = i" by (simp add: unat_div)
  moreover have "\<not> (page_addr p i - phy_addr_start p) div 4096 > map_bytes_length ?b * 8"
    using pos i unat_len8 [OF wfb] by (simp add: word_less_nat_alt)
  moreover obtain b' where b': "set_value_bitmap ?b ((page_addr p i - phy_addr_start p) div 4096) 0 = Some b'"
    "map_bytes_length b' = map_bytes_length ?b" "\<forall>k. is_set b' k = (if k = i then (0 :: u8) = 1 else is_set ?b k)"
    using set_value_bitmap_spec [OF wfb, of "(page_addr p i - phy_addr_start p) div 4096" 0] pos i by auto
  moreover have "nbits b' = nbits ?b" "is_set b' = (is_set ?b)(i := False)"
    using b' by (auto simp: nbits_def fun_eq_iff)
  ultimately show ?thesis
    using wf by (auto simp: free_page_def Let_def pool_wf_def same_pool_def wf_bitmap_def)
qed

lemma remove_page_write:
  assumes wf: "pt_wf s" and v: "PDE_IDX v \<noteq> 1023" and m: "translate s v \<noteq> None"
  shows "\<exists>m. remove_page v s = Some (s\<lparr>pmem := m\<rparr>) \<and> pt_wf (s\<lparr>pmem := m\<rparr>) \<and>
    (\<forall>w. pde_at (s\<lparr>pmem := m\<rparr>) w = pde_at s w) \<and> translate (s\<lparr>pmem := m\<rparr>) v = None \<and>
    (\<forall>w. \<not> same_pte s v w \<longrightarrow> translate (s\<lparr>pmem := m\<rparr>) w = translate s w)"
proof -
  have p: "present (pde_at s v)" using m by (auto simp: translate_def split: if_splits)
  let ?e = "pmem s (pte_phys s v) AND NOT 1"
  let ?m = "(pmem s)(pte_phys s v := ?e)"
  note w = write_pte [OF wf v p refl, where e = ?e]
  have "remove_page v s = Some (s\<lparr>pmem := ?m\<rparr>)"
    using p pt_wfD [OF wf] by (simp add: remove_page_def)
  moreover have "\<not> present ?e" by (rule present_clear)
  ultimately show ?thesis using w by (intro exI [of _ ?m]) auto
qed

lemma unmap_pages_ok:
  assumes "pt_wf s" and "pool_wf (mem_pool t s)" and "pages_ok s n v" and "length fs = n"
    and "\<forall>k < n. fs ! k < pages (mem_pool t s) \<and>
      translate s (v + of_nat k * 4096) = Some (page_addr (mem_pool t s) (fs ! k) + offset (v + of_nat k * 4096))"
  shows "\<exists>m p. unmap_pages t n v s = Some ((set_mem_pool t p s)\<lparr>pmem := m\<rparr>) \<and> pool_wf p \<and>
    same_pool (mem_pool t s) p \<and> free_pages p = free_pages (mem_pool t s) \<union> set fs \<and>
    pt_wf ((set_mem_pool t p s)\<lparr>pmem := m\<rparr>) \<and>
    (\<forall>k < n. translate ((set_mem_pool t p s)\<lparr>pmem := m\<rparr>) (v + of_nat k * 4096) = None) \<and>
    (\<forall>w. (\<forall>k < n. \<not> same_pte s (v + of_nat k * 4096) w) \<longrightarrow>
      translate ((set_mem_pool t p s)\<lparr>pmem := m\<rparr>) w = translate s w)"
  using assms
proof (induction n arbitrary: v s fs)
  case 0
  have "set_mem_pool t (mem_pool t s) s = s" by (cases t) (simp_all add: set_mem_pool_def mem_pool_def)
  then show ?case using 0 by (intro exI [of _ "pmem s"] exI [of _ "mem_pool t s"]) (simp add: same_pool_def)
next
  case (Suc n)
  let ?P = "mem_pool t s"
  obtain j fs' where fs: "fs = j # fs'" "length fs' = n" using Suc.prems(4) by (cases fs) auto
  have pk: "PDE_IDX v \<noteq> 1023" "pages_ok s n (v + 4096)"
    and ap: "\<forall>k < n. \<not> same_pte s v (v + 4096 + of_nat k * 4096)" using Suc.prems(3) by simp_all
  have j: "j < pages ?P" "translate s v = Some (page_addr ?P j + offset v)"
    using Suc.prems(5) [rule_format, of 0] fs by simp_all
  have phys: "virtual_addr_to_physical_addr v s = Some (page_addr ?P j)"
    using virtual_addr_to_physical_addr_eq [OF pt_wfD [OF Suc.prems(1)], of v] j
      frame_add(1) [of "offset v" "page_addr ?P j"] frame_page_addr [OF Suc.prems(2) j(1)] by simp
  obtain q where q: "free_page ?P (page_addr ?P j) = Some q" "pool_wf q" "same_pool ?P q"
    "page_used q = (page_used ?P)(j := False)" using free_page_ok [OF Suc.prems(2) j(1)] by blast
  let ?s1 = "set_mem_pool t q s"
  have "pt_wf ?s1" "translate ?s1 v \<noteq> None" using Suc.prems(1) j(2) by simp_all
  from remove_page_write [OF this(1) pk(1) this(2)] obtain m1 where
    r: "remove_page v ?s1 = Some (?s1\<lparr>pmem := m1\<rparr>)" "pt_wf (?s1\<lparr>pmem := m1\<rparr>)"
    "\<forall>w. pde_at (?s1\<lparr>pmem := m1\<rparr>) w = pde_at s w" "translate (?s1\<lparr>pmem := m1\<rparr>) v = None"
    "\<forall>w. \<not> same_pte s v w \<longrightarrow> translate (?s1\<lparr>pmem := m1\<rparr>) w = translate s w" by auto
  define s2 where "s2 = ?s1\<lparr>pmem := m1\<rparr>"
  have s2: "mem_pool t s2 = q" "(set_mem_pool t p s2)\<lparr>pmem := m\<rparr> = (set_mem_pool t p s)\<lparr>pmem := m\<rparr>"
    "tcbs s2 = tcbs s" "running s2 = running s" for p m
    by (cases t; simp add: s2_def mem_pool_def set_mem_pool_def)+
  have pde: "pde_at s2 w = pde_at s w" for w using r(3) by (simp add: s2_def)
  have sp: "same_pte s2 a b = same_pte s a b" for a b by (rule same_pte_cong [OF pde])
  have po: "pages_ok s2 n (v + 4096)" using pk(2) pages_ok_cong [OF pde s2(3,4)] by simp
  have cond: "fs' ! k < pages q \<and> translate s2 (v + 4096 + of_nat k * 4096) =
      Some (page_addr q (fs' ! k) + offset (v + 4096 + of_nat k * 4096))" if "k < n" for k
  proof -
    have e: "v + of_nat (Suc k) * 4096 = v + 4096 + of_nat k * 4096" by (simp add: algebra_simps)
    have "translate s2 (v + 4096 + of_nat k * 4096) = translate s (v + 4096 + of_nat k * 4096)"
      using r(5) ap that by (simp add: s2_def)
    then show ?thesis
      using Suc.prems(5) [rule_format, of "Suc k", unfolded e] that fs page_addr_same_pool [OF q(3)] q(3)
      by (simp add: same_pool_def)
  qed
  have wf2: "pt_wf s2" using r(2) by (simp add: s2_def)
  note ih = Suc.IH [of s2 "v + 4096" fs', unfolded s2(1) s2(2) sp, OF wf2 q(2) po fs(2)]
  from ih cond obtain m p where
    u: "unmap_pages t n (v + 4096) s2 = Some ((set_mem_pool t p s)\<lparr>pmem := m\<rparr>)" "pool_wf p" "same_pool q p"
    "free_pages p = free_pages q \<union> set fs'" "pt_wf ((set_mem_pool t p s)\<lparr>pmem := m\<rparr>)"
    "\<forall>k < n. translate ((set_mem_pool t p s)\<lparr>pmem := m\<rparr>) (v + 4096 + of_nat k * 4096) = None"
    "\<forall>w. (\<forall>k < n. \<not> same_pte s (v + 4096 + of_nat k * 4096) w) \<longrightarrow>
      translate ((set_mem_pool t p s)\<lparr>pmem := m\<rparr>) w = translate s2 w"
    by blast
  let ?s' = "(set_mem_pool t p s)\<lparr>pmem := m\<rparr>"
  have "unmap_pages t (Suc n) v s = Some ?s'" using phys q(1) r(1) u(1) by (simp add: s2_def)
  moreover have "translate ?s' v = None"
  proof -
    have "\<forall>k < n. \<not> same_pte s (v + 4096 + of_nat k * 4096) v" using ap same_pte_sym by blast
    then show ?thesis using u(7) r(4) by (simp add: s2_def)
  qed
  then have "translate ?s' (v + of_nat k * 4096) = None" if "k < Suc n" for k
    using u(6) that by (cases k) (simp_all add: algebra_simps)
  moreover have "translate ?s' w = translate s w" if a: "\<forall>k < Suc n. \<not> same_pte s (v + of_nat k * 4096) w" for w
  proof -
    have "\<not> same_pte s (v + 4096 + of_nat k * 4096) w" if "k < n" for k
      using a [rule_format, of "Suc k"] that by (simp add: algebra_simps)
    moreover have "\<not> same_pte s v w" using a [rule_format, of 0] by simp
    ultimately show ?thesis using u(7) r(5) by (simp add: s2_def)
  qed
  moreover have "same_pool ?P p" using q(3) u(3) by (simp add: same_pool_def)
  moreover have "free_pages p = free_pages ?P \<union> set fs"
    using u(4) q(3,4) j(1) fs by (auto simp: free_pages_def same_pool_def)
  ultimately show ?case using u(2,5) by blast
qed

lemma free_vaddress_ok:
  assumes wf: "vspace_wf (vspace t s)" and n: "i + unat pgc \<le> nbits (vaddr_bitmap (vspace t s))" "pgc \<noteq> 0"
  shows "\<exists>b. free_vaddress t (vpage (vspace t s) i) pgc s = Some (set_vspace t b s) \<and> wf_bitmap b \<and>
    nbits b = nbits (vaddr_bitmap (vspace t s)) \<and>
    is_set b = (\<lambda>j. \<not> (i \<le> j \<and> j < i + unat pgc) \<and> is_set (vaddr_bitmap (vspace t s)) j)"
proof -
  let ?va = "vspace t s" and ?b = "vaddr_bitmap (vspace t s)"
  have wfb: "wf_bitmap ?b" using wf by (simp add: vspace_wf_def)
  have "unat pgc \<noteq> 0" using n(2) by (simp add: unat_eq_0)
  then have u: "unat (vpage ?va i) = unat (vaddr_start ?va) + 4096 * i"
    using n(1) by (intro unat_vpage [OF wf]) linarith
  then have ge: "\<not> vpage ?va i < vaddr_start ?va" by (simp add: word_less_nat_alt)
  have "unat (vpage ?va i - vaddr_start ?va) = 4096 * i"
    using u unat_sub_word [of "vaddr_start ?va" "vpage ?va i"] by simp
  then have pos: "unat ((vpage ?va i - vaddr_start ?va) div 4096) = i" by (simp add: unat_div)
  then have le: "\<not> (vpage ?va i - vaddr_start ?va) div 4096 > map_bytes_length ?b * 8"
    using n(1) unat_len8 [OF wfb] by (simp add: word_less_nat_alt)
  from bm.put_run_spec [OF wfb, of "(vpage ?va i - vaddr_start ?va) div 4096" "unat pgc" 0] pos n(1)
  obtain b where b: "set_run ?b ((vpage ?va i - vaddr_start ?va) div 4096) (unat pgc) 0 = Some b" "wf_bitmap b"
    "nbits b = nbits ?b" "is_set b = (\<lambda>j. if i \<le> j \<and> j < i + unat pgc then (0 :: u8) = 1 else is_set ?b j)"
    by auto
  have "is_set b = (\<lambda>j. \<not> (i \<le> j \<and> j < i + unat pgc) \<and> is_set ?b j)" unfolding b(4) by auto
  with b ge le show ?thesis by (auto simp: free_vaddress_def free_addr_bitmap_def Let_def)
qed

section \<open>Sizes and geometry of blocks\<close>

definition bsize :: "nat \<Rightarrow> nat" where
  "bsize i = 16 * 2 ^ i"

lemma bsize_values: "i < DESC_CNT \<Longrightarrow> bsize i \<in> {16, 32, 64, 128, 256, 512, 1024}"
  by (auto simp: bsize_def DESC_CNT_def numeral_eq_Suc less_Suc_eq)

text \<open>The table of descriptors at \<open>ds\<close> as \<open>block_desc_init\<close> leaves it (\<open>descs_ok\<close> below).\<close>

lemma desc_addr_inject:
  assumes "i < DESC_CNT" and "j < DESC_CNT"
  shows "desc_addr ds i = desc_addr ds j \<longleftrightarrow> i = j"
proof -
  have "unat (of_nat (16 * i) :: u32) = 16 * i" "unat (of_nat (16 * j) :: u32) = 16 * j"
    using assms unat_of_nat_32 [of "16 * i"] unat_of_nat_32 [of "16 * j"]
    by (simp_all add: DESC_CNT_def del: of_nat_mult)
  then have "(of_nat (16 * i) :: u32) = of_nat (16 * j) \<longleftrightarrow> i = j" by (metis mult_cancel1 zero_neq_numeral)
  then show ?thesis by (simp add: desc_addr_def)
qed

definition desc_spec :: "nat \<Rightarrow> mem_block_desc" where
  "desc_spec i = \<lparr>block_size = of_nat (bsize i), blocks_per_arena = of_nat (4084 div bsize i)\<rparr>"

definition descs_ok :: "addr \<Rightarrow> kstate \<Rightarrow> bool" where
  "descs_ok ds s \<longleftrightarrow> (\<forall>i < DESC_CNT. descs s (desc_addr ds i) = desc_spec i)"

lemma desc_spec_ucast:
  assumes "k < DESC_CNT"
  shows "\<lparr>block_size = ucast (of_nat (bsize k) :: u16),
    blocks_per_arena = 4084 div ucast (of_nat (bsize k) :: u16)\<rparr> = desc_spec k"
  using bsize_values [OF assms] by (auto simp: desc_spec_def)

lemma block_desc_loop_descs:
  assumes "k + n \<le> DESC_CNT" and "i < DESC_CNT"
  shows "descs (block_desc_loop n k (of_nat (bsize k)) ds s) (desc_addr ds i) =
    (if k \<le> i \<and> i < k + n then desc_spec i else descs s (desc_addr ds i))"
  using assms
proof (induction n arbitrary: k s)
  case (Suc n)
  have k: "k < DESC_CNT" using Suc.prems by simp
  have "(of_nat (bsize k) * 2 :: u16) = of_nat (bsize (Suc k))" by (simp add: bsize_def)
  then show ?case
    using Suc.IH [of "Suc k"] Suc.prems desc_addr_inject [OF k Suc.prems(2), of ds]
    by (auto simp: Let_def desc_spec_ucast upd_lh_def)
qed auto

lemma block_desc_loop_lists:
  assumes "k + n \<le> DESC_CNT" and "i < DESC_CNT" and "k \<le> i \<and> i < k + n \<or> dlist (lh s) (free_list (desc_addr ds i)) []"
  shows "dlist (lh (block_desc_loop n k b ds s)) (free_list (desc_addr ds i)) []"
  using assms
proof (induction n arbitrary: k s b)
  case (Suc n)
  have k: "k < DESC_CNT" using Suc.prems by simp
  let ?s = "upd_lh (INIT_LIST_HEAD (free_list (desc_addr ds k))) (s\<lparr>descs := (descs s)(desc_addr ds k :=
    \<lparr>block_size = ucast b, blocks_per_arena = (4096 - 12) div ucast b\<rparr>)\<rparr>)"
  have "Suc k \<le> i \<and> i < Suc k + n \<or> dlist (lh ?s) (free_list (desc_addr ds i)) []"
  proof (cases "i = k")
    case False
    then have "free_list (desc_addr ds k) \<noteq> free_list (desc_addr ds i)"
      using desc_addr_inject [OF k Suc.prems(2), of ds] by (auto simp: free_list_def)
    then show ?thesis using Suc.prems(3) False by (auto simp: upd_lh_def INIT_LIST_HEAD_frame)
  qed (simp add: upd_lh_def)
  then show ?case using Suc.IH [of "Suc k" ?s "b * 2"] Suc.prems by (simp add: Let_def)
qed auto

lemma block_desc_init_ok:
  "descs_ok ds (block_desc_init ds s)"
  "i < DESC_CNT \<Longrightarrow> dlist (lh (block_desc_init ds s)) (free_list (desc_addr ds i)) []"
  using block_desc_loop_descs [of 0 DESC_CNT _ ds s] block_desc_loop_lists [of 0 DESC_CNT i s ds 16]
  by (auto simp: descs_ok_def block_desc_init_def bsize_def)

text \<open>The search finds the smallest block that is large enough.\<close>

lemma find_desc_result:
  assumes ok: "descs_ok ds s" and sz: "sz \<le> 1024"
  shows "find_desc s ds sz 0 < DESC_CNT \<and> unat sz \<le> bsize (find_desc s ds sz 0) \<and>
    (\<forall>i < find_desc s ds sz 0. bsize i < unat sz)"
proof -
  have fits: "sz \<le> block_size (descs s (desc_addr ds i)) \<longleftrightarrow> unat sz \<le> bsize i" if "i < DESC_CNT" for i
    using ok that bsize_values [OF that]
    by (auto simp: descs_ok_def desc_spec_def word_le_nat_alt unat_of_nat_32)
  have "find_desc s ds sz k < DESC_CNT \<and> unat sz \<le> bsize (find_desc s ds sz k) \<and>
      (\<forall>i < find_desc s ds sz k. bsize i < unat sz)" if "k < DESC_CNT" "\<forall>i < k. bsize i < unat sz" for k
    using that
  proof (induction "DESC_CNT - k" arbitrary: k)
    case (Suc n)
    show ?case
    proof (cases "unat sz \<le> bsize k")
      case False
      have "bsize 6 = 1024" by (simp add: bsize_def)
      then have "k \<noteq> 6" using False sz by (auto simp: word_le_nat_alt)
      then have "Suc k < DESC_CNT" using Suc.prems(1) by (simp add: DESC_CNT_def)
      moreover have "\<forall>i < Suc k. bsize i < unat sz" using Suc.prems(2) False by (simp add: less_Suc_eq)
      moreover have "find_desc s ds sz k = find_desc s ds sz (Suc k)"
        using fits [OF Suc.prems(1)] False Suc.prems(1) by (subst find_desc.simps) simp
      ultimately show ?thesis using Suc.hyps(1) [of "Suc k"] Suc.hyps(2) by simp
    next
      case True
      then have "find_desc s ds sz k = k"
        using fits [OF Suc.prems(1)] by (subst find_desc.simps) simp
      then show ?thesis using True Suc.prems by simp
    qed
  qed simp
  from this [of 0] show ?thesis by (simp add: DESC_CNT_def)
qed

end
