(* ===== verification/Alloc.thy ===== *)
theory Alloc
  imports Memory
begin

text \<open>
  The theorems on the memory manager: allocating and freeing a range of pages is a round trip, the
  geometry of arenas and blocks, and the layout that \<^verbatim>\<open>mem_pool_init\<close> gives the pools.
\<close>

section \<open>Round trip of page ranges\<close>

lemma mfree_page_ok:
  assumes wf: "vspace_wf (vspace t s)" "pt_wf s" "pool_wf (mem_pool t s)"
    and n: "i + unat pgc \<le> nbits (vaddr_bitmap (vspace t s))" "pgc \<noteq> 0"
    and pg: "pages_ok s (unat pgc) (vpage (vspace t s) i)" and fs: "length fs = unat pgc"
    and mp: "\<forall>k < unat pgc. fs ! k < pages (mem_pool t s) \<and>
      translate s (vpage (vspace t s) i + of_nat k * 4096) =
        Some (page_addr (mem_pool t s) (fs ! k) + offset (vpage (vspace t s) i + of_nat k * 4096))"
  shows "\<exists>s'. mfree_page t (vpage (vspace t s) i) pgc s = Some s' \<and> pt_wf s' \<and>
    pool_wf (mem_pool t s') \<and> free_pages (mem_pool t s') = free_pages (mem_pool t s) \<union> set fs \<and>
    is_set (vaddr_bitmap (vspace t s')) =
      (\<lambda>j. \<not> (i \<le> j \<and> j < i + unat pgc) \<and> is_set (vaddr_bitmap (vspace t s)) j) \<and>
    (\<forall>k < unat pgc. translate s' (vpage (vspace t s) i + of_nat k * 4096) = None) \<and>
    (\<forall>w. (\<forall>k < unat pgc. \<not> same_pte s (vpage (vspace t s) i + of_nat k * 4096) w) \<longrightarrow>
      translate s' w = translate s w)"
proof -
  let ?v = "vpage (vspace t s) i"
  from free_vaddress_ok [OF wf(1) n] obtain b where b: "free_vaddress t ?v pgc s = Some (set_vspace t b s)"
    "is_set b = (\<lambda>j. \<not> (i \<le> j \<and> j < i + unat pgc) \<and> is_set (vaddr_bitmap (vspace t s)) j)" by blast
  from unmap_pages_ok [of "set_vspace t b s" t "unat pgc" ?v fs] wf(2,3) pg fs mp
  obtain m p where u: "unmap_pages t (unat pgc) ?v (set_vspace t b s) =
      Some ((set_mem_pool t p (set_vspace t b s))\<lparr>pmem := m\<rparr>)" "pool_wf p"
    "free_pages p = free_pages (mem_pool t s) \<union> set fs"
    "pt_wf ((set_mem_pool t p (set_vspace t b s))\<lparr>pmem := m\<rparr>)"
    "\<forall>k < unat pgc. translate ((set_mem_pool t p (set_vspace t b s))\<lparr>pmem := m\<rparr>) (?v + of_nat k * 4096) = None"
    "\<forall>w. (\<forall>k < unat pgc. \<not> same_pte s (?v + of_nat k * 4096) w) \<longrightarrow>
      translate ((set_mem_pool t p (set_vspace t b s))\<lparr>pmem := m\<rparr>) w = translate s w"
    by auto
  let ?s' = "(set_mem_pool t p (set_vspace t b s))\<lparr>pmem := m\<rparr>"
  have "mfree_page t ?v pgc s = Some ?s'" using b(1) u(1) by (simp add: mfree_page_def)
  moreover have "mem_pool t ?s' = p" "vaddr_bitmap (vspace t ?s') = b" by simp_all
  ultimately show ?thesis using b(2) u(2-6) by (intro exI [of _ ?s']) simp
qed

text \<open>The conditions under which \<open>malloc_page\<close> succeeds with the range that starts at bit \<open>i\<close>.\<close>

definition can_malloc :: "pool_type \<Rightarrow> u32 \<Rightarrow> nat \<Rightarrow> kstate \<Rightarrow> bool" where
  "can_malloc t pgc i s \<longleftrightarrow> pt_wf s \<and> dir_current s \<and> pool_wf (mem_pool t s) \<and>
     phy_addr_start (mem_pool t s) \<noteq> 0 \<and> vspace_wf (vspace t s) \<and> pgc \<noteq> 0 \<and>
     first_fit (vaddr_bitmap (vspace t s)) (unat pgc) = Some i \<and>
     unat pgc \<le> card (free_pages (mem_pool t s)) \<and> pages_ok s (unat pgc) (vpage (vspace t s) i)"

text \<open>C3. Round trip of page ranges: whenever the address bitmap has a run of \<open>pgc\<close> free pages, the
  pool has as many free frames and the page tables of the range exist, \<open>malloc_page\<close> returns the
  first such range mapped to distinct frames that were free, and \<open>mfree_page\<close> on it returns: the
  pool and the address bitmap are what they were, the range faults, and every address whose entry is
  not in the range is translated as before, in between and afterwards.\<close>

theorem malloc_mfree_roundtrip:
  assumes "can_malloc t pgc i s"
  shows "\<exists>s1 s2 fs. malloc_page t pgc s = Some (vpage (vspace t s) i, s1) \<and>
    length fs = unat pgc \<and> distinct fs \<and> set fs \<subseteq> free_pages (mem_pool t s) \<and>
    free_pages (mem_pool t s1) = free_pages (mem_pool t s) - set fs \<and>
    (\<forall>k < unat pgc. translate s1 (vpage (vspace t s) i + of_nat k * 4096) =
       Some (page_addr (mem_pool t s) (fs ! k) + offset (vpage (vspace t s) i + of_nat k * 4096))) \<and>
    mfree_page t (vpage (vspace t s) i) pgc s1 = Some s2 \<and> pt_wf s2 \<and>
    free_pages (mem_pool t s2) = free_pages (mem_pool t s) \<and>
    is_set (vaddr_bitmap (vspace t s2)) = is_set (vaddr_bitmap (vspace t s)) \<and>
    (\<forall>k < unat pgc. translate s2 (vpage (vspace t s) i + of_nat k * 4096) = None) \<and>
    (\<forall>w. (\<forall>k < unat pgc. \<not> same_pte s (vpage (vspace t s) i + of_nat k * 4096) w) \<longrightarrow>
       translate s1 w = translate s w \<and> translate s2 w = translate s w)"
proof -
  note c = assms [unfolded can_malloc_def]
  let ?v = "vpage (vspace t s) i" and ?n = "unat pgc"
  from malloc_page_ok [of s t pgc i] c obtain b s1 fs where
    m: "malloc_page t pgc s = Some (?v, s1)" and mr: "mapped_range t ?n ?v fs (set_vspace t b s) s1"
    and b: "wf_bitmap b" "nbits b = nbits (vaddr_bitmap (vspace t s))"
    "is_set b = (\<lambda>j. i \<le> j \<and> j < i + ?n \<or> is_set (vaddr_bitmap (vspace t s)) j)" by blast
  from mr obtain m' p where r: "s1 = (set_mem_pool t p (set_vspace t b s))\<lparr>pmem := m'\<rparr>" "pt_wf s1"
    "pool_wf p" "same_pool (mem_pool t s) p" "length fs = ?n" "distinct fs"
    "set fs \<subseteq> free_pages (mem_pool t s)" "free_pages p = free_pages (mem_pool t s) - set fs"
    "\<forall>w. pde_at s1 w = pde_at s w"
    "\<forall>k < ?n. translate s1 (?v + of_nat k * 4096) =
       Some (page_addr (mem_pool t s) (fs ! k) + offset (?v + of_nat k * 4096))"
    "\<forall>w. (\<forall>k < ?n. \<not> same_pte s (?v + of_nat k * 4096) w) \<longrightarrow> translate s1 w = translate s w"
    unfolding mapped_range_def by auto
  have s1: "mem_pool t s1 = p" "vspace t s1 = (vspace t s)\<lparr>vaddr_bitmap := b\<rparr>" by (simp_all add: r(1))
  have v: "vpage (vspace t s1) i = ?v" by (simp add: s1 vpage_def)
  have sp: "same_pte s1 x y = same_pte s x y" for x y using r(9) by (intro same_pte_cong) simp
  have "vspace_wf (vspace t s1)" using c b(1,2) by (simp add: s1 vspace_wf_def)
  moreover have "i + ?n \<le> nbits (vaddr_bitmap (vspace t s1))"
    using c b(2) first_fit_SomeD(1) [of _ ?n i] by (auto simp: s1 free_run_def)
  moreover have "pages_ok s1 ?n (vpage (vspace t s1) i)"
  proof -
    have "pages_ok s1 ?n ?v = pages_ok (set_vspace t b s) ?n ?v"
      using r(9) by (intro pages_ok_cong) (simp_all add: r(1))
    then show ?thesis using c by (simp add: v)
  qed
  moreover have "\<forall>k < ?n. fs ! k < pages p \<and> translate s1 (?v + of_nat k * 4096) =
      Some (page_addr p (fs ! k) + offset (?v + of_nat k * 4096))"
  proof (intro allI impI conjI)
    fix k assume "k < ?n"
    then have "fs ! k \<in> free_pages (mem_pool t s)" using r(5,7) by (metis nth_mem subsetD)
    then show "fs ! k < pages p" using r(4) by (simp add: free_pages_def same_pool_def)
    show "translate s1 (?v + of_nat k * 4096) = Some (page_addr p (fs ! k) + offset (?v + of_nat k * 4096))"
      using r(10) \<open>k < ?n\<close> page_addr_same_pool [OF r(4)] by simp
  qed
  ultimately obtain s2 where f: "mfree_page t ?v pgc s1 = Some s2" "pt_wf s2"
    "free_pages (mem_pool t s2) = free_pages p \<union> set fs"
    "is_set (vaddr_bitmap (vspace t s2)) = (\<lambda>j. \<not> (i \<le> j \<and> j < i + ?n) \<and> is_set b j)"
    "\<forall>k < ?n. translate s2 (?v + of_nat k * 4096) = None"
    "\<forall>w. (\<forall>k < ?n. \<not> same_pte s (?v + of_nat k * 4096) w) \<longrightarrow> translate s2 w = translate s1 w"
    using mfree_page_ok [of t s1 i pgc fs] c r(2,3,5) by (auto simp: s1 v sp vpage_def)
  have "is_set (vaddr_bitmap (vspace t s2)) = is_set (vaddr_bitmap (vspace t s))"
  proof -
    have "\<not> is_set (vaddr_bitmap (vspace t s)) j" if "i \<le> j" "j < i + ?n" for j
      using c first_fit_SomeD(1) [of _ ?n i] free_run_nth that by blast
    then show ?thesis unfolding f(4) b(3) by (auto simp: fun_eq_iff)
  qed
  moreover have "free_pages (mem_pool t s2) = free_pages (mem_pool t s)" using f(3) r(7,8) by auto
  ultimately show ?thesis
    using m r f by (intro exI [of _ s1] exI [of _ s2] exI [of _ fs]) (simp add: s1)
qed

lemma boot_vspace: "vspace MP_KERNEL boot_kstate = \<lparr>vaddr_bitmap = \<lparr>bits = (\<lambda>_. 0), map_bytes_length = 2\<rparr>,
    vaddr_start = 0xc0100000\<rparr>"
  by (simp add: vspace_def boot_kstate_def)

lemma boot_can_malloc: "can_malloc MP_KERNEL 2 0 boot_kstate"
proof -
  have p: "mem_pool MP_KERNEL boot_kstate = kernel_pool boot_kstate" by (simp add: mem_pool_def)
  have "nbits (pool_bitmap (kernel_pool boot_kstate)) = 16" "\<And>j. \<not> page_used (kernel_pool boot_kstate) j"
    by (simp_all add: boot_kstate_def nbits_def is_set_def)
  then have "free_pages (kernel_pool boot_kstate) = {..<16}" by (auto simp: free_pages_def)
  then have 1: "2 \<le> card (free_pages (mem_pool MP_KERNEL boot_kstate))" by (simp add: p)
  have 2: "phy_addr_start (mem_pool MP_KERNEL boot_kstate) \<noteq> 0" "pool_wf (mem_pool MP_KERNEL boot_kstate)"
    by (simp_all add: p) (simp_all add: boot_kstate_def pool_wf_def wf_bitmap_def nbits_def frame_def)
  have 3: "vspace_wf (vspace MP_KERNEL boot_kstate)"
    by (simp add: boot_vspace vspace_wf_def wf_bitmap_def nbits_def)
  have 4: "first_fit (vaddr_bitmap (vspace MP_KERNEL boot_kstate)) 2 = Some 0"
    by (auto simp: boot_vspace first_fit_def free_run_def nbits_def is_set_def Least_eq_0 intro: exI [of _ 0])
  have "pages_ok boot_kstate (Suc (Suc 0)) (vpage (vspace MP_KERNEL boot_kstate) 0)"
    by (simp add: boot_vspace vpage_def boot_dir_apart boot_pde PDE_IDX_def present_def
        same_pte_def pte_phys_def PTE_IDX_def)
  then have 5: "pages_ok boot_kstate 2 (vpage (vspace MP_KERNEL boot_kstate) 0)"
    by (simp only: numeral_2_eq_2)
  show ?thesis using 1 2 3 4 5 boot_wf boot_dir_current by (simp add: can_malloc_def)
qed

theorem malloc_mfree_roundtrip_witness:
  "\<exists>s1 s2. malloc_page MP_KERNEL 2 boot_kstate = Some (0xc0100000, s1) \<and>
     card (free_pages (kernel_pool s1)) + 2 = card (free_pages (kernel_pool boot_kstate)) \<and>
     mfree_page MP_KERNEL 0xc0100000 2 s1 = Some s2 \<and>
     free_pages (kernel_pool s2) = free_pages (kernel_pool boot_kstate) \<and> translate s2 0xc0101000 = None"
proof -
  have v: "vpage (vspace MP_KERNEL boot_kstate) 0 = 0xc0100000" by (simp add: boot_vspace vpage_def)
  from malloc_mfree_roundtrip [OF boot_can_malloc, unfolded v] obtain s1 s2 fs where
    r: "malloc_page MP_KERNEL 2 boot_kstate = Some (0xc0100000, s1)" "length fs = 2" "distinct fs"
    "set fs \<subseteq> free_pages (mem_pool MP_KERNEL boot_kstate)"
    "free_pages (mem_pool MP_KERNEL s1) = free_pages (mem_pool MP_KERNEL boot_kstate) - set fs"
    "mfree_page MP_KERNEL 0xc0100000 2 s1 = Some s2"
    "free_pages (mem_pool MP_KERNEL s2) = free_pages (mem_pool MP_KERNEL boot_kstate)"
    "\<forall>k < unat (2 :: u32). translate s2 (0xc0100000 + of_nat k * 4096) = None" by auto
  have "translate s2 0xc0101000 = None" using r(8) [rule_format, of 1] by simp
  moreover have "card (free_pages (kernel_pool s1)) + 2 = card (free_pages (kernel_pool boot_kstate))"
    using r(2-5) card_Diff_subset [of "set fs" "free_pages (kernel_pool boot_kstate)"]
      card_mono [of "free_pages (kernel_pool boot_kstate)" "set fs"]
    by (simp add: mem_pool_def distinct_card)
  ultimately show ?thesis using r by (simp add: mem_pool_def)
qed

section \<open>Arenas and blocks\<close>

text \<open>Smallest fit: on descriptors that \<open>block_desc_init\<close> wrote at any address, the search of
  \<open>sys_malloc\<close> ends inside the table for every request of at most 1024 bytes, at a descriptor whose
  blocks are large enough while those of all earlier ones are too small; its free list is empty.\<close>

theorem find_desc_smallest:
  assumes "sz \<le> 1024"
  shows "\<exists>i < DESC_CNT. find_desc (block_desc_init ds s) ds sz 0 = i \<and>
    sz \<le> block_size (descs (block_desc_init ds s) (desc_addr ds i)) \<and>
    (\<forall>j < i. block_size (descs (block_desc_init ds s) (desc_addr ds j)) < sz) \<and>
    list_is_empty (free_list (desc_addr ds i)) (lh (block_desc_init ds s))"
proof -
  let ?s = "block_desc_init ds s" and ?i = "find_desc (block_desc_init ds s) ds sz 0"
  have f: "?i < DESC_CNT" "unat sz \<le> bsize ?i" "\<forall>j < ?i. bsize j < unat sz"
    using find_desc_result [OF block_desc_init_ok(1) assms] by auto
  have bs: "unat (block_size (descs ?s (desc_addr ds j))) = bsize j" if "j < DESC_CNT" for j
    using block_desc_init_ok(1) [of ds s] bsize_values [OF that] that
    by (auto simp: descs_ok_def desc_spec_def unat_of_nat_32)
  have "sz \<le> block_size (descs ?s (desc_addr ds ?i))"
    using f bs by (simp add: word_le_nat_alt)
  moreover have "\<forall>j < ?i. block_size (descs ?s (desc_addr ds j)) < sz"
    using f bs by (simp add: word_less_nat_alt)
  moreover have "list_is_empty (free_list (desc_addr ds ?i)) (lh ?s)"
    using block_desc_init_ok(2) [OF f(1)] dll.empty_iff by blast
  ultimately show ?thesis using f(1) by blast
qed

theorem find_desc_smallest_witness:
  "\<exists>i < DESC_CNT. find_desc (block_desc_init 0x8000 boot_kstate) 0x8000 100 0 = i \<and>
    100 \<le> block_size (descs (block_desc_init 0x8000 boot_kstate) (desc_addr 0x8000 i))"
  using find_desc_smallest [of 100 "0x8000" boot_kstate] by auto

lemma bsize_fits: "i < DESC_CNT \<Longrightarrow> k < 4084 div bsize i \<Longrightarrow> 12 + Suc k * bsize i \<le> 4096"
  using div_times_less_eq_dividend [of 4084 "bsize i"] mult_le_mono1 [of "Suc k" "4084 div bsize i" "bsize i"]
  by linarith

lemma unat_add_small:
  assumes "frame a = a" and "n < 4096"
  shows "unat (a + of_nat n) = unat a + n" and "frame (a + of_nat n) = a"
proof -
  have a: "unat a = 4096 * (unat a div 4096)" using unat_page_offset(2) [of a] assms(1) by simp
  have "unat a div 4096 < 1048576" using unsigned_less [of a, where ?'a = nat] by simp
  then have lt: "unat a + n < 2 ^ 32" using a assms(2) by simp
  then show u: "unat (a + of_nat n) = unat a + n"
    using assms(2) unat_of_nat_32 [of n] by (subst unat_add_less) simp_all
  show "frame (a + of_nat n) = a"
    using a u assms(2) div_mod_page(1) [OF assms(2), of "unat a div 4096"]
    by (intro page_eqI) (simp add: unat_page_offset)
qed

lemma arena_blocks:
  assumes "descs_ok ds s" and "i < DESC_CNT" and "desc (arenas s a) = desc_addr ds i" and "frame a = a"
    and "j < unat (blocks_per_arena (descs s (desc_addr ds i)))" and "off < bsize i"
  shows "unat (arena2block s a (of_nat j)) = unat a + 12 + j * bsize i"
    and "unat (arena2block s a (of_nat j)) + bsize i \<le> unat a + 4096"
    and "block2arena (arena2block s a (of_nat j) + of_nat off) = a"
    and "k < j \<Longrightarrow> unat (arena2block s a (of_nat k)) + bsize i \<le> unat (arena2block s a (of_nat j))"
proof -
  have ds: "descs s (desc_addr ds i) = desc_spec i" using assms(1,2) by (simp add: descs_ok_def)
  have "4084 div bsize i < 2 ^ 32" by (rule le_less_trans [OF div_le_dividend]) simp
  then have j: "j < 4084 div bsize i" using assms(5) by (simp add: ds desc_spec_def unat_of_nat_32)
  have blk: "arena2block s a (of_nat m) = a + of_nat (12 + m * bsize i)" for m
    by (simp add: arena2block_def assms(3) ds desc_spec_def)
  have u: "unat (arena2block s a (of_nat m)) = unat a + 12 + m * bsize i" if "m \<le> j" for m
    using unat_add_small(1) [OF assms(4), of "12 + m * bsize i"] bsize_fits [OF assms(2), of m] that j
      bsize_values [OF assms(2)] by (auto simp: blk)
  show "unat (arena2block s a (of_nat j)) = unat a + 12 + j * bsize i" using u by simp
  show "unat (arena2block s a (of_nat j)) + bsize i \<le> unat a + 4096"
    using u [of j] bsize_fits [OF assms(2) j] by simp
  have "arena2block s a (of_nat j) + of_nat off = a + of_nat (12 + j * bsize i + off)" by (simp add: blk)
  moreover have "12 + j * bsize i + off < 4096" using bsize_fits [OF assms(2) j] assms(6) by simp
  ultimately show "block2arena (arena2block s a (of_nat j) + of_nat off) = a"
    using unat_add_small(2) [OF assms(4)] by (simp only: block2arena_def frame_def)
  show "unat (arena2block s a (of_nat k)) + bsize i \<le> unat (arena2block s a (of_nat j))" if "k < j"
    using u [of k] u [of j] that mult_le_mono1 [of "Suc k" j "bsize i"] by simp
qed

text \<open>C38. Geometry of an arena: in a page-aligned arena of any descriptor of the table, every one of
  its \<open>blocks_per_arena\<close> blocks lies after the 12-byte header and inside the page, different
  blocks do not overlap, and \<open>block2arena\<close> finds the arena of every address inside a block.\<close>

theorem arena_geometry:
  assumes "descs_ok ds s" and "i < DESC_CNT" and "desc (arenas s a) = desc_addr ds i" and "frame a = a"
  shows "\<forall>j < unat (blocks_per_arena (descs s (desc_addr ds i))).
    unat a + 12 \<le> unat (arena2block s a (of_nat j)) \<and>
    unat (arena2block s a (of_nat j)) + bsize i \<le> unat a + 4096 \<and>
    (\<forall>off < bsize i. block2arena (arena2block s a (of_nat j) + of_nat off) = a) \<and>
    (\<forall>k < j. unat (arena2block s a (of_nat k)) + bsize i \<le> unat (arena2block s a (of_nat j)))"
proof -
  have "0 < bsize i" by (simp add: bsize_def)
  then show ?thesis using arena_blocks [OF assms] by (metis le_add1)
qed

theorem arena_geometry_witness:
  "let s = upd_arena 0xc0100000 (\<lambda>a. a\<lparr>desc := desc_addr 0x8000 6\<rparr>) (block_desc_init 0x8000 boot_kstate) in
     unat (blocks_per_arena (descs s (desc_addr 0x8000 6))) = 3 \<and>
     unat (arena2block s 0xc0100000 (of_nat 2)) + 1024 \<le> unat (0xc0101000 :: u32) \<and>
     block2arena (arena2block s 0xc0100000 (of_nat 2) + of_nat 1023) = 0xc0100000"
proof -
  let ?s = "upd_arena 0xc0100000 (\<lambda>a. a\<lparr>desc := desc_addr 0x8000 6\<rparr>) (block_desc_init 0x8000 boot_kstate)"
  have ok: "descs_ok 0x8000 ?s" using block_desc_init_ok(1) [of "0x8000" boot_kstate]
    by (simp add: descs_ok_def upd_arena_def)
  have d: "desc (arenas ?s 0xc0100000) = desc_addr 0x8000 6" by (simp add: upd_arena_def)
  have "bsize 6 = 1024" by (simp add: bsize_def)
  moreover from this have n: "unat (blocks_per_arena (descs ?s (desc_addr 0x8000 6))) = 3"
    using ok by (simp add: descs_ok_def desc_spec_def DESC_CNT_def)
  moreover have "frame 0xc0100000 = 0xc0100000" by (simp add: frame_def)
  ultimately have "unat (arena2block ?s 0xc0100000 (of_nat 2)) + 1024 \<le> unat (0xc0100000 :: u32) + 4096 \<and>
     (\<forall>off < 1024. block2arena (arena2block ?s 0xc0100000 (of_nat 2) + of_nat off) = 0xc0100000)"
    using arena_geometry [OF ok _ d, rule_format, of 2] by (simp add: DESC_CNT_def n)
  then show ?thesis using n by (simp add: Let_def del: of_nat_numeral)
qed

section \<open>The pools after initialisation\<close>

definition pool_pages :: "nat \<Rightarrow> nat" where
  "pool_pages m = (m - 0x201000) div 4096 mod 65536"

lemma lock_init_pools [simp]:
  "kernel_pool (lock_init l s) = kernel_pool s" "user_pool (lock_init l s) = user_pool s"
  by (simp_all add: lock_init_def semaphore_init_def upd_lh_def set_sema_def upd_lock_def)

lemma unat_ucast_16_32: "unat (ucast (x :: u16) :: u32) = unat x"
  using unsigned_less [of x, where ?'a = nat] by (simp add: unsigned_ucast_eq unsigned_take_bit_eq take_bit_nat_eq_self)

lemma pool_page_words:
  fixes all_mem :: u32
  assumes "0x201000 \<le> unat all_mem"
  defines "n \<equiv> (ucast ((all_mem - 0x201000) div 4096) :: u16)"
  shows "unat n = pool_pages (unat all_mem)" and "unat (n div 2) = pool_pages (unat all_mem) div 2"
    and "unat (n - n div 2) = pool_pages (unat all_mem) - pool_pages (unat all_mem) div 2"
proof -
  have "unat ((all_mem - 0x201000) div 4096) = (unat all_mem - 0x201000) div 4096"
    using assms(1) unat_sub_word [of "0x201000" all_mem] by (simp add: unat_div)
  then show u: "unat n = pool_pages (unat all_mem)"
    by (simp add: n_def pool_pages_def unsigned_ucast_eq unsigned_take_bit_eq take_bit_eq_mod)
  show d: "unat (n div 2) = pool_pages (unat all_mem) div 2" by (simp add: unat_div u)
  have "unat (n div 2) \<le> unat n" by (simp add: u d)
  then show "unat (n - n div 2) = pool_pages (unat all_mem) - pool_pages (unat all_mem) div 2"
    using u d by (simp add: unat_sub_if_size word_le_nat_alt)
qed

text \<open>A pool of \<open>m\<close> frames from \<open>st\<close> on, as initialisation sets it up.\<close>

definition fresh_pool :: "u32 \<Rightarrow> nat \<Rightarrow> pool \<Rightarrow> bool" where
  "fresh_pool st m p \<longleftrightarrow> pool_wf p \<and> phy_addr_start p = st \<and> unat (pool_size p) = 4096 * m \<and>
     pages p = m div 8 * 8 \<and> (\<forall>i < pages p. \<not> page_used p i)"

lemma fresh_poolI:
  fixes n :: u16
  assumes "frame st = st" and "unat st + 4096 * unat n \<le> 2 ^ 32"
    and "p = q\<lparr>phy_addr_start := st, pool_size := ucast n * 4096,
      pool_bitmap := init_bitmap (b\<lparr>map_bytes_length := (ucast n :: u32) div 8\<rparr>)\<rparr>"
  shows "fresh_pool st (unat n) p"
proof -
  have n: "unat n < 65536" using unsigned_less [of n, where ?'a = nat] by simp
  then have "unat (ucast n * 4096 :: u32) = 4096 * unat n"
    by (subst unat_mult_less) (simp_all add: unat_ucast_16_32)
  moreover have l: "unat (map_bytes_length (pool_bitmap p)) = unat n div 8"
    by (simp add: assms(3) unat_div unat_ucast_16_32)
  moreover have "\<forall>i < pages p. \<not> page_used p i"
    using init_bitmap_all_clear by (simp add: assms(3) nbits_def)
  moreover have "8 * (unat n div 8) \<le> unat n" by simp
  then have "unat n div 8 < 536870912" "unat st + unat n div 8 * 32768 \<le> 4294967296"
    using n assms(2) by simp_all
  ultimately show ?thesis
    using assms(1,2) n by (simp add: fresh_pool_def pool_wf_def wf_bitmap_def nbits_def mult.commute)
      (simp add: assms(3))
qed

text \<open>Layout of memory: for every memory size of at least the 2 MB + 4 KB that the kernel and its
  tables occupy, \<open>mem_pool_init\<close> gives two well-formed pools with no frame in use. The kernel's
  begins right after the occupied memory, the user's at the end of the kernel's, and the user's ends
  inside the memory. Both locks are free unless they overlap. The number of frames is the number that
  fits modulo 65536 (it is kept in 16 bits): with 258 MB or more, frames are lost.\<close>

theorem mem_pool_init_layout:
  fixes all_mem :: u32 and s :: kstate
  assumes "0x201000 \<le> unat all_mem"
  defines "n \<equiv> pool_pages (unat all_mem)" and "s' \<equiv> mem_pool_init all_mem s"
  shows "fresh_pool 0x201000 (n div 2) (kernel_pool s') \<and>
    fresh_pool (phy_addr_start (user_pool s')) (n - n div 2) (user_pool s') \<and>
    unat (phy_addr_start (user_pool s')) = 0x201000 + 4096 * (n div 2) \<and>
    unat (phy_addr_start (user_pool s')) + unat (pool_size (user_pool s')) \<le> unat all_mem \<and>
    vaddr_start (kernel_viraddr s') = 0xc0100000 \<and>
    nbits (vaddr_bitmap (kernel_viraddr s')) = pages (kernel_pool s') \<and>
    lock_free (pool_lock (user_pool s')) s'"
proof -
  let ?w = "ucast ((all_mem - 0x201000) div 4096) :: u16"
  let ?up = "0x201000 + ucast (?w div 2) * 4096 :: u32"
  note w = pool_page_words [OF assms(1), folded n_def]
  have "n \<le> (unat all_mem - 0x201000) div 4096" by (simp add: n_def pool_pages_def)
  then have fit: "0x201000 + 4096 * n \<le> unat all_mem" using assms(1) by linarith
  have am: "unat all_mem < 2 ^ 32" using unat_less_32 [of all_mem] by simp
  have "unat (ucast (?w div 2) * 4096 :: u32) = 4096 * (n div 2)"
    using fit am by (subst unat_mult_less) (simp_all add: unat_ucast_16_32 w)
  then have up: "unat ?up = 0x201000 + 4096 * (n div 2)" using fit am by (subst unat_add_less) simp_all
  have k: "fresh_pool 0x201000 (unat (?w div 2)) (kernel_pool s')"
    by (rule fresh_poolI) (use fit am in \<open>simp_all add: w s'_def mem_pool_init_def Let_def frame_def\<close>)
  have "frame ?up = ?up" by (intro page_eqI) (simp add: unat_page_offset up)
  then have u: "fresh_pool ?up (unat (?w - ?w div 2)) (user_pool s')"
    by (rule fresh_poolI) (use fit am in \<open>simp_all add: w up s'_def mem_pool_init_def Let_def\<close>)
  have ps: "phy_addr_start (user_pool s') = ?up" using u by (simp add: fresh_pool_def)
  have "unat (pool_size (user_pool s')) = 4096 * (n - n div 2)" using u w by (simp add: fresh_pool_def)
  then have "unat ?up + unat (pool_size (user_pool s')) \<le> unat all_mem" using up fit by simp
  moreover have "lock_free (pool_lock (user_pool s')) s'"
    using lock_init_free by (simp add: s'_def mem_pool_init_def Let_def lock_free_def)
  moreover have "vaddr_start (kernel_viraddr s') = 0xc0100000"
    "nbits (vaddr_bitmap (kernel_viraddr s')) = pages (kernel_pool s')"
    by (simp_all add: s'_def mem_pool_init_def Let_def nbits_def)
  ultimately show ?thesis using k u up w ps by simp
qed

text \<open>The witness has 32 MB of memory.\<close>

theorem mem_pool_init_layout_witness:
  "let s' = mem_pool_init 0x2000000 boot_kstate in
     fresh_pool 0x201000 3839 (kernel_pool s') \<and> phy_addr_start (user_pool s') = 0x1100000 \<and>
     fresh_pool 0x1100000 3840 (user_pool s')"
proof -
  have "pool_pages (unat (0x2000000 :: u32)) = 7679" by (simp add: pool_pages_def)
  note m = mem_pool_init_layout [of "0x2000000" boot_kstate, unfolded this]
  then have "phy_addr_start (user_pool (mem_pool_init 0x2000000 boot_kstate)) = 0x1100000"
    by (simp add: word_eq_unat32)
  with m show ?thesis by (simp add: Let_def)
qed

section \<open>The error path of get_phy_free_page_with_vaddr\<close>

text \<open>When the pool is exhausted, \<open>get_phy_free_page_with_vaddr\<close> takes the pool's lock a second
  time where it should release it: it returns 0 with the running thread holding the lock twice. One
  \<open>lock_release\<close> does not free it; every other thread that asks for memory then blocks.\<close>

theorem exhausted_pool_keeps_lock:
  assumes "lock_free (pool_lock (mem_pool t s)) s" and "running s \<noteq> 0" and "pool_wf (mem_pool t s)"
    and "free_pages (mem_pool t s) = {}"
  shows "get_phy_free_page_with_vaddr W t v dir s = Some (0, lock_held (pool_lock (mem_pool t s)) 2 s)"
proof -
  have g: "get_free_page (mem_pool t s) = Some (0, mem_pool t s)"
    using get_free_page_full [OF assms(3)] assms(4) by (auto simp: free_pages_def)
  have p: "mem_pool t (lock_held l n s) = mem_pool t s"
    "set_mem_pool t (mem_pool t s) (lock_held l n s) = lock_held l n s" for l n
    by (cases t; simp add: mem_pool_def set_mem_pool_def lock_held_def)+
  show ?thesis
    using lock_fetch_free [OF assms(1,2), of W] lock_fetch_again [of W "pool_lock (mem_pool t s)" 1 s]
    by (simp add: get_phy_free_page_with_vaddr_def p g)
qed

theorem exhausted_pool_keeps_lock_witness:
  "let s = boot_kstate\<lparr>kernel_pool := (kernel_pool boot_kstate)\<lparr>pool_bitmap := \<lparr>bits = (\<lambda>_. 255), map_bytes_length = 2\<rparr>\<rparr>\<rparr>
   in get_phy_free_page_with_vaddr (\<lambda>_. None) MP_KERNEL 0x8048000 0x5000 s = Some (0, lock_held 0xc0008040 2 s)"
proof -
  let ?s = "boot_kstate\<lparr>kernel_pool := (kernel_pool boot_kstate)\<lparr>pool_bitmap := \<lparr>bits = (\<lambda>_. 255), map_bytes_length = 2\<rparr>\<rparr>\<rparr>"
  have "lock_free (pool_lock (mem_pool MP_KERNEL ?s)) ?s" "running ?s \<noteq> 0" "pool_wf (mem_pool MP_KERNEL ?s)"
    by (simp_all add: boot_kstate_def lock_free_def mem_pool_def list_is_empty_def pool_wf_def frame_def
        wf_bitmap_def nbits_def)
  moreover have "free_pages (mem_pool MP_KERNEL ?s) = {}"
  proof -
    have "(255 :: u8) = mask 8" by (simp add: mask_eq_exp_minus_1)
    then have "bit (255 :: u8) (i mod 8)" for i :: nat by (simp only: bit_mask_iff) simp
    then show ?thesis by (auto simp: free_pages_def mem_pool_def is_set_def nbits_def)
  qed
  ultimately show ?thesis
    using exhausted_pool_keeps_lock [of MP_KERNEL ?s "\<lambda>_. None" "0x8048000" "0x5000"]
    by (simp add: Let_def mem_pool_def boot_kstate_def)
qed

end
