(* ===== verification/IOQueue.thy ===== *)
theory IOQueue
  imports Ring Alloc
begin

text \<open>
  The blocking byte queue of \<^verbatim>\<open>core/lib/ioqueue.c\<close>: rings at addresses of the kernel state, with a
  lock, a list of waiting producers and a list of waiting consumers. The bytes that a caller passes
  by pointer are lists; \<open>W\<close> is what other threads do while the caller is blocked (theory \<open>Sched\<close>).
\<close>

section \<open>Operations\<close>

definition upd_queue :: "addr \<Rightarrow> (cqueue \<Rightarrow> cqueue) \<Rightarrow> kstate \<Rightarrow> kstate" where
  "upd_queue q f s = s\<lparr>queues := (queues s)(q := f (queues s q))\<rparr>"

definition ioqueue_size :: "(kstate \<Rightarrow> kstate option) \<Rightarrow> addr \<Rightarrow> kstate \<Rightarrow> (u32 \<times> kstate) option" where
  "ioqueue_size W q s = do {
     s \<leftarrow> lock_fetch W (queue_lock q) s;
     let out = ioqueue_unread (queues s q);
     s \<leftarrow> lock_release (queue_lock q) s;
     Some (out, s)
   }"

text \<open>The waiter is a pointer variable: its value is an argument and a result.\<close>

definition ioqueue_wait :: "(kstate \<Rightarrow> kstate option) \<Rightarrow> addr \<Rightarrow> kstate \<Rightarrow> (addr \<times> kstate) option" where
  "ioqueue_wait W waiter s = do {
     ASSERT (waiter = 0);
     let waiter = running_thread s;
     s \<leftarrow> thread_block W THREAD_TASK_BLOCKED s;
     Some (waiter, s)
   }"

definition wakeup :: "addr \<Rightarrow> kstate \<Rightarrow> (addr \<times> kstate) option" where
  "wakeup proc s = do { ASSERT (proc \<noteq> 0); s \<leftarrow> thread_unblock proc s; Some (0, s) }"

partial_function (option) wake_up_all :: "addr \<Rightarrow> kstate \<Rightarrow> kstate option" where
  "wake_up_all waiting_list s = do {
     n \<leftarrow> list_length waiting_list (lh s);
     if n > 0 then
       let (pos, m) = list_pop waiting_list (lh s) in do {
         s \<leftarrow> thread_unblock (thread_of_general_tag pos) (s\<lparr>lh := m\<rparr>);
         wake_up_all waiting_list s
       }
     else Some s
   }"

definition wake_up_list :: "addr \<Rightarrow> kstate \<Rightarrow> kstate option" where
  "wake_up_list waiting_list s =
     (let (old_status, s) = intr_disable s in do {
        s \<leftarrow> wake_up_all waiting_list s;
        Some (intr_set_status old_status s)
      })"

definition wake_up_consumors :: "addr \<Rightarrow> kstate \<Rightarrow> kstate option" where
  "wake_up_consumors q s =
     (if \<not> list_is_empty (consumor_waiting_list q) (lh s) then wake_up_list (consumor_waiting_list q) s else Some s)"

definition wake_up_producers :: "addr \<Rightarrow> kstate \<Rightarrow> kstate option" where
  "wake_up_producers q s =
     (if \<not> list_is_empty (producer_waiting_list q) (lh s) then wake_up_list (producer_waiting_list q) s else Some s)"

definition add_to_waiting_list :: "addr \<Rightarrow> addr \<Rightarrow> kstate \<Rightarrow> kstate option" where
  "add_to_waiting_list cur waiting_list s = do {
     b \<leftarrow> list_find_element (general_tag cur) waiting_list (lh s);
     if b then PANIC else Some (upd_lh (list_add_tail (general_tag cur) waiting_list) s)
   }"

text \<open>The end of a round of both loops: wait, or release the lock.\<close>

definition queue_wait :: "(kstate \<Rightarrow> kstate option) \<Rightarrow> addr \<Rightarrow> addr \<Rightarrow> bool \<Rightarrow> kstate \<Rightarrow> kstate option" where
  "queue_wait W q waiting_list incomplete s =
     (if incomplete then do {
        s \<leftarrow> add_to_waiting_list (running_thread s) waiting_list s;
        let (old_status, s) = intr_disable s;
        s \<leftarrow> lock_release (queue_lock q) s;
        s \<leftarrow> thread_block W THREAD_TASK_WAITING s;
        Some (intr_set_status old_status s)
      } else lock_release (queue_lock q) s)"

partial_function (option) put_data_loop ::
    "(kstate \<Rightarrow> kstate option) \<Rightarrow> addr \<Rightarrow> u8 list \<Rightarrow> u32 \<Rightarrow> u32 \<Rightarrow> kstate \<Rightarrow> (u32 \<times> kstate) option" where
  "put_data_loop W q data count written s =
     (if written < count then do {
        s \<leftarrow> lock_fetch W (queue_lock q) s;
        let (written, ring) = (if ioqueue_avaliable (queues s q) > count
          then fill data written count (queues s q) else (written, queues s q));
        let s = upd_queue q (\<lambda>_. ring) s;
        s \<leftarrow> wake_up_consumors q s;
        s \<leftarrow> queue_wait W q (producer_waiting_list q) (written < count) s;
        put_data_loop W q data count written s
      } else Some (written, s))"

definition ioqueue_put_data ::
    "(kstate \<Rightarrow> kstate option) \<Rightarrow> addr \<Rightarrow> u8 list \<Rightarrow> u32 \<Rightarrow> kstate \<Rightarrow> (u32 \<times> kstate) option" where
  "ioqueue_put_data W q data count s = put_data_loop W q data count 0 s"

partial_function (option) get_data_loop ::
    "(kstate \<Rightarrow> kstate option) \<Rightarrow> addr \<Rightarrow> u32 \<Rightarrow> u32 \<Rightarrow> u8 list \<Rightarrow> kstate \<Rightarrow> (u8 list \<times> u32 \<times> kstate) option" where
  "get_data_loop W q count read_size rd s =
     (if read_size < count then do {
        s \<leftarrow> lock_fetch W (queue_lock q) s;
        let (rd, read_size, ring) = (if ioqueue_unread (queues s q) \<ge> count
          then drain (unat (count - read_size)) rd read_size count (queues s q) else (rd, read_size, queues s q));
        let s = upd_queue q (\<lambda>_. ring) s;
        s \<leftarrow> wake_up_producers q s;
        s \<leftarrow> queue_wait W q (consumor_waiting_list q) (read_size < count) s;
        get_data_loop W q count read_size rd s
      } else Some (rd, read_size, s))"

text \<open>The bytes stored at \<open>data\<close>, and the returned size.\<close>

definition ioqueue_get_data ::
    "(kstate \<Rightarrow> kstate option) \<Rightarrow> addr \<Rightarrow> u32 \<Rightarrow> kstate \<Rightarrow> (u8 list \<times> u32 \<times> kstate) option" where
  "ioqueue_get_data W q count s = get_data_loop W q count 0 [] s"

text \<open>The size of the structure in front of the buffer is 48 bytes.\<close>

definition queue_pages :: "u32 \<Rightarrow> u32" where
  "queue_pages sz = (if sz > 4096 + 48 then DIV_ROUND_UP sz (4096 + 48) else 1)"

definition init_ioqueue :: "(kstate \<Rightarrow> kstate option) \<Rightarrow> u32 \<Rightarrow> kstate \<Rightarrow> (addr \<times> kstate) option" where
  "init_ioqueue W sz s = do {
     (q, s) \<leftarrow> get_kernel_page W (queue_pages sz) s;
     if q = 0 then Some (0, s)
     else do {
       let s = lock_init (queue_lock q) s;
       let s = upd_queue q (\<lambda>r. r\<lparr>producer_p := 0, consumor_p := 0, qsize := sz\<rparr>) s;
       let s = upd_lh (INIT_LIST_HEAD (consumor_waiting_list q)) s;
       let s = upd_lh (INIT_LIST_HEAD (producer_waiting_list q)) s;
       Some (q, s)
     }
   }"

definition destory_ioqueue :: "addr \<Rightarrow> kstate \<Rightarrow> kstate option" where
  "destory_ioqueue q s = mfree_page MP_KERNEL q 1 s"

section \<open>A queue without contention\<close>

text \<open>The lock is free and nobody waits.\<close>

definition queue_idle :: "addr \<Rightarrow> kstate \<Rightarrow> bool" where
  "queue_idle q s \<longleftrightarrow> lock_free (queue_lock q) s \<and> running s \<noteq> 0 \<and>
     list_is_empty (consumor_waiting_list q) (lh s) \<and> list_is_empty (producer_waiting_list q) (lh s)"

lemma queue_held [simp]:
  "queues (lock_held l n s) = queues s" "lh (lock_held l n s) = lh s"
  "upd_queue q f (lock_held l n s) = lock_held l n (upd_queue q f s)"
  "lh (upd_queue q f s) = lh s" "lock_free l (upd_queue q f s) = lock_free l s"
  "queues (upd_queue q f s) q = f (queues s q)" "running (upd_queue q f s) = running s"
  by (simp_all add: lock_held_def upd_queue_def lock_free_def)

lemma upd_queue_sel [simp]:
  "semas (upd_queue q f s) = semas s" "locks (upd_queue q f s) = locks s"
  by (simp_all add: upd_queue_def)

lemma queue_idle_upd [simp]: "queue_idle q (upd_queue r f s) = queue_idle q s"
  by (simp add: queue_idle_def)

lemma put_data_idle:
  assumes idle: "queue_idle q s" and h: "cq_holds (queues s q) xs" and n: "length data = unat count"
    and fit: "length xs + length data < cq_cap (queues s q)"
  shows "ioqueue_put_data W q data count s =
    Some (count, if count = 0 then s else upd_queue q (\<lambda>_. fold put_byte data (queues s q)) s)"
proof (cases "count = 0")
  case True
  then show ?thesis by (simp add: ioqueue_put_data_def put_data_loop.simps)
next
  case False
  let ?s = "upd_queue q (\<lambda>_. fold put_byte data (queues s q)) s"
  have l: "lock_fetch W (queue_lock q) s = Some (lock_held (queue_lock q) 1 s)"
    "lock_release (queue_lock q) (lock_held (queue_lock q) 1 ?s) = Some ?s"
    using idle lock_fetch_free lock_release_last by (simp_all add: queue_idle_def)
  have av: "ioqueue_avaliable (queues s q) > count"
    using ring_counts(2) [OF h] fit n by (simp add: word_less_nat_alt)
  have f: "fill data 0 count (queues s q) = (count, fold put_byte data (queues s q))"
    using fill_holds [OF h, of data 0 count] fit n by simp
  have "put_data_loop W q data count 0 s = put_data_loop W q data count count ?s"
    using l av f idle False
    by (subst put_data_loop.simps)
      (simp add: queue_idle_def wake_up_consumors_def queue_wait_def word_gt_0)
  also have "... = Some (count, ?s)" by (subst put_data_loop.simps) simp
  finally show ?thesis using False by (simp add: ioqueue_put_data_def)
qed

lemma get_data_idle:
  assumes idle: "queue_idle q s" and h: "cq_holds (queues s q) (ys @ zs)" and n: "length ys = unat count"
  shows "ioqueue_get_data W q count s =
    Some (ys, count, if count = 0 then s else upd_queue q (\<lambda>_. snd (cq.deq_many (length ys) (queues s q))) s)"
proof (cases "count = 0")
  case True
  then show ?thesis using n by (simp add: ioqueue_get_data_def get_data_loop.simps)
next
  case False
  let ?s = "upd_queue q (\<lambda>_. snd (cq.deq_many (length ys) (queues s q))) s"
  have l: "lock_fetch W (queue_lock q) s = Some (lock_held (queue_lock q) 1 s)"
    "lock_release (queue_lock q) (lock_held (queue_lock q) 1 ?s) = Some ?s"
    using idle lock_fetch_free lock_release_last by (simp_all add: queue_idle_def)
  have un: "count \<le> ioqueue_unread (queues s q)"
    using ring_counts(1) [OF h] n by (simp add: word_le_nat_alt)
  have f: "drain (unat (count - 0)) [] 0 count (queues s q) = (ys, count, snd (cq.deq_many (length ys) (queues s q)))"
    using drain_holds [OF h, of 0 count "[]"] n by simp
  have "get_data_loop W q count 0 [] s = get_data_loop W q count count ys ?s"
    using l un f idle False
    by (subst get_data_loop.simps)
      (simp add: queue_idle_def wake_up_producers_def queue_wait_def word_gt_0)
  also have "... = Some (ys, count, ?s)" by (subst get_data_loop.simps) simp
  finally show ?thesis using False by (simp add: ioqueue_get_data_def)
qed

text \<open>C26. Round trip of a queue nobody else uses: putting bytes that leave more than one byte of the
  ring free returns without blocking, and getting as many bytes as are queued then returns exactly
  the bytes that were queued, followed by those that were put, in order.\<close>

theorem ioqueue_roundtrip:
  assumes "queue_idle q s" and "cq_holds (queues s q) xs" and "length data = unat count"
    and "length xs + length data < cq_cap (queues s q)" and "unat amount = length xs + length data"
  shows "\<exists>s1 s2. ioqueue_put_data W q data count s = Some (count, s1) \<and> cq_holds (queues s1 q) (xs @ data) \<and>
    ioqueue_get_data W q amount s1 = Some (xs @ data, amount, s2) \<and> cq_holds (queues s2 q) [] \<and> queue_idle q s2"
proof -
  let ?r = "fold put_byte data (queues s q)"
  let ?s1 = "if count = 0 then s else upd_queue q (\<lambda>_. ?r) s"
  have p: "ioqueue_put_data W q data count s = Some (count, ?s1)"
    by (rule put_data_idle [OF assms(1-4)])
  have "cq_holds ?r (xs @ data)" using cq.enq_many [OF assms(2), of data] assms(4) by simp
  moreover have "data = []" if "count = 0" using that assms(3) by simp
  ultimately have h1: "cq_holds (queues ?s1 q) (xs @ data)" using assms(2) by auto
  have i1: "queue_idle q ?s1" using assms(1) by simp
  let ?s2 = "if amount = 0 then ?s1 else upd_queue q (\<lambda>_. snd (cq.deq_many (length (xs @ data)) (queues ?s1 q))) ?s1"
  have g: "ioqueue_get_data W q amount ?s1 = Some (xs @ data, amount, ?s2)"
    using get_data_idle [OF i1, of "xs @ data" "[]" amount W] h1 assms(5) by simp
  have "cq_holds (snd (cq.deq_many (length (xs @ data)) (queues ?s1 q))) []"
    using cq.deq_many_holds [of "queues ?s1 q" "xs @ data" "[]"] h1 by simp
  moreover have "xs @ data = []" if "amount = 0" using that assms(5) by simp
  ultimately have "cq_holds (queues ?s2 q) []" using h1 by (cases "amount = 0") simp_all
  moreover have "queue_idle q ?s2" using i1 by simp
  ultimately show ?thesis using p g h1 by blast
qed

theorem ioqueue_roundtrip_witness:
  "let s = upd_queue 0xc0300000 (\<lambda>r. r\<lparr>qsize := 64\<rparr>) boot_kstate in
   \<exists>s1 s2. ioqueue_put_data (\<lambda>_. None) 0xc0300000 [1, 2, 3] 3 s = Some (3, s1) \<and>
     ioqueue_get_data (\<lambda>_. None) 0xc0300000 3 s1 = Some ([1, 2, 3], 3, s2)"
proof -
  let ?s = "upd_queue 0xc0300000 (\<lambda>r. r\<lparr>qsize := 64\<rparr>) boot_kstate"
  have "queue_idle 0xc0300000 ?s"
    by (simp add: queue_idle_def lock_free_def list_is_empty_def) (simp add: boot_kstate_def)
  moreover have "cq_holds (queues ?s 0xc0300000) []"
    by (simp add: cq_holds_def boot_kstate_def ring_def)
  moreover have "cq_cap (queues ?s 0xc0300000) = 63" by (simp add: cq_cap_def)
  ultimately have "\<exists>s1 s2. ioqueue_put_data (\<lambda>_. None) 0xc0300000 [1, 2, 3] 3 ?s = Some (3, s1) \<and>
     cq_holds (queues s1 0xc0300000) ([] @ [1, 2, 3]) \<and>
     ioqueue_get_data (\<lambda>_. None) 0xc0300000 3 s1 = Some ([] @ [1, 2, 3], 3, s2) \<and>
     cq_holds (queues s2 0xc0300000) [] \<and> queue_idle 0xc0300000 s2"
    by (intro ioqueue_roundtrip) simp_all
  then show ?thesis by (auto simp: Let_def)
qed

section \<open>Requests that are never served\<close>

text \<open>The kernel operations below a queue change no ring.\<close>

lemma bind_SomeE: "do { x \<leftarrow> m; f x } = Some y \<Longrightarrow> (\<And>x. m = Some x \<Longrightarrow> f x = Some y \<Longrightarrow> P) \<Longrightarrow> P"
  by (cases m) auto

lemma queues_simps [simp]:
  "queues (upd_lh f s) = queues s" "queues (upd_tcb t g s) = queues s" "queues (upd_lock l h s) = queues s"
  "queues (set_sema a v s) = queues s" "queues (intr_set_status b s) = queues s"
  "queues (snd (intr_disable s)) = queues s"
  by (simp_all add: upd_lh_def upd_tcb_def upd_lock_def set_sema_def intr_set_status_eq intr_disable_eq)

lemma queues_unblock: "thread_unblock t s = Some s' \<Longrightarrow> queues s' = queues s"
  unfolding thread_unblock_def intr_disable_eq
  by (auto elim!: bind_SomeE split: if_splits simp: Let_def)

lemma queues_activate: "process_activate t s = Some s' \<Longrightarrow> queues s' = queues s"
  unfolding process_activate_def page_dir_activate_def
  by (auto elim!: bind_SomeE split: if_splits simp: Let_def update_tss_esp0_def)

lemma queues_requeue: "requeue_current s = Some s' \<Longrightarrow> queues s' = queues s"
  unfolding requeue_current_def by (auto elim!: bind_SomeE split: if_splits simp: Let_def)

lemma queues_pick: "pick_next s = Some s' \<Longrightarrow> queues s' = queues s"
  unfolding pick_next_def
  by (auto elim!: bind_SomeE split: if_splits simp: Let_def case_prod_unfold dest!: queues_unblock queues_activate)

lemma queues_select: "schedule_select s = Some s' \<Longrightarrow> queues s' = queues s"
  unfolding schedule_select_def by (auto elim!: bind_SomeE dest!: queues_requeue queues_pick)

text \<open>The other threads keep a property of the rings.\<close>

definition keeps :: "((addr \<Rightarrow> cqueue) \<Rightarrow> bool) \<Rightarrow> (kstate \<Rightarrow> kstate option) \<Rightarrow> bool" where
  "keeps P W \<longleftrightarrow> (\<forall>s s'. W s = Some s' \<longrightarrow> P (queues s) \<longrightarrow> P (queues s'))"

lemma keepsD: "keeps P W \<Longrightarrow> W s = Some s' \<Longrightarrow> P (queues s) \<Longrightarrow> P (queues s')"
  by (simp add: keeps_def)

lemma keeps_schedule: "keeps P W \<Longrightarrow> keeps P (schedule W)"
  unfolding keeps_def schedule_def
  by (auto elim!: bind_SomeE split: if_splits dest!: queues_select)

lemma keeps_block: "keeps P W \<Longrightarrow> keeps P (thread_block W st)"
  unfolding keeps_def [of P "thread_block W st"] thread_block_def intr_disable_eq
  by (auto elim!: bind_SomeE simp: Let_def dest!: keepsD [OF keeps_schedule])

lemma keeps_down_loop:
  assumes "keeps P W" and "down_loop W sema s = Some s'" and "P (queues s)"
  shows "P (queues s')"
  using assms(2,1,3)
proof (induction rule: down_loop.raw_induct [rotated 1, consumes 1])
  case (1 loop W sema s s')
  then show ?case
    by (auto elim!: bind_SomeE split: if_splits) (metis keepsD keeps_block queues_simps(1))
qed

lemma keeps_lock_fetch: "keeps P W \<Longrightarrow> keeps P (lock_fetch W l)"
  unfolding keeps_def [of P "lock_fetch W l"] lock_fetch_def semaphore_down_def intr_disable_eq
  by (auto elim!: bind_SomeE split: if_splits simp: Let_def dest!: keeps_down_loop)

lemma queues_release: "lock_release l s = Some s' \<Longrightarrow> queues s' = queues s"
  unfolding lock_release_def semaphore_up_def intr_disable_eq
  by (auto elim!: bind_SomeE split: if_splits simp: Let_def case_prod_unfold dest!: queues_unblock)

lemma queues_wake_up_all: "wake_up_all l s = Some s' \<Longrightarrow> queues s' = queues s"
proof (induction rule: wake_up_all.raw_induct [rotated 1, consumes 1])
  case (1 wake_up_all l s s')
  then show ?case
    by (auto elim!: bind_SomeE split: if_splits simp: Let_def case_prod_unfold dest!: queues_unblock)
qed

lemma queues_wake_up_consumors: "wake_up_consumors q s = Some s' \<Longrightarrow> queues s' = queues s"
  unfolding wake_up_consumors_def wake_up_list_def intr_disable_eq
  by (auto elim!: bind_SomeE split: if_splits dest!: queues_wake_up_all)

lemma keeps_queue_wait: "keeps P W \<Longrightarrow> keeps P (queue_wait W q l b)"
  unfolding keeps_def [of P "queue_wait W q l b"] queue_wait_def add_to_waiting_list_def intr_disable_eq
  by (auto elim!: bind_SomeE split: if_splits simp: Let_def dest!: queues_release keepsD [OF keeps_block])

definition ring_sized :: "addr \<Rightarrow> nat \<Rightarrow> (addr \<Rightarrow> cqueue) \<Rightarrow> bool" where
  "ring_sized q n qs \<longleftrightarrow> unat (qsize (qs q)) = n \<and> (\<exists>xs. cq_holds (qs q) xs)"

lemma avaliable_bound:
  assumes "ring_sized q n qs" and "n \<le> unat count + 1"
  shows "\<not> ioqueue_avaliable (qs q) > count"
proof -
  obtain xs where "cq_holds (qs q) xs" using assms(1) by (auto simp: ring_sized_def)
  from ring_counts(2) [OF this] show ?thesis
    using assms by (simp add: ring_sized_def cq_cap_def word_less_nat_alt)
qed

lemma put_data_loop_stuck:
  assumes "put_data_loop W q data count written s = Some y" and "keeps (ring_sized q n) W"
    and "ring_sized q n (queues s)" and "n \<le> unat count + 1" and "written < count"
  shows False
  using assms
proof (induction rule: put_data_loop.raw_induct [rotated 1, consumes 1])
  case (1 loop W q data count written s y)
  from 1(2,6) obtain s1 s2 s3 where
    s: "lock_fetch W (queue_lock q) s = Some s1"
    and w: "wake_up_consumors q (upd_queue q (\<lambda>_. queues s1 q) s1) = Some s2"
    and qw: "queue_wait W q (producer_waiting_list q) (written < count) s2 = Some s3"
    and l: "loop W q data count written s3 = Some y"
    using avaliable_bound [OF keepsD [OF keeps_lock_fetch [OF 1(3)] _ 1(4)] 1(5)]
    by (auto elim!: bind_SomeE simp: Let_def split: if_splits)
  have "ring_sized q n (queues s1)" by (rule keepsD [OF keeps_lock_fetch [OF 1(3)] s 1(4)])
  then have "ring_sized q n (queues s2)"
    using queues_wake_up_consumors [OF w] by (simp add: upd_queue_def)
  then have "ring_sized q n (queues s3)" by (rule keepsD [OF keeps_queue_wait [OF 1(3)] qw])
  then show False using 1(1) [OF l 1(3)] 1(5,6) by blast
qed

text \<open>A request of at least the ring's capacity is never served: \<open>ioqueue_put_data\<close> writes only when
  more than \<open>count\<close> bytes are free, so with \<open>count\<close> at least the size less one it never returns,
  whatever the other threads do to the ring, as long as they keep it well-formed and of its size.\<close>

theorem put_data_never_returns:
  assumes "keeps (ring_sized q n) W" and "ring_sized q n (queues s)" and "n \<le> unat count + 1"
  shows "ioqueue_put_data W q data count s = None"
proof -
  have "1 < n" using assms(2) by (auto simp: ring_sized_def cq_holds_def)
  then have "0 < count" using assms(3) by (simp add: word_less_nat_alt)
  then show ?thesis
    using put_data_loop_stuck [OF _ assms] unfolding ioqueue_put_data_def
    by (cases "put_data_loop W q data count 0 s") blast+
qed

text \<open>Even if the other threads empty the ring.\<close>

theorem put_data_never_returns_witness:
  "ioqueue_put_data (\<lambda>s. Some (upd_queue 0xc0300000 (\<lambda>r. r\<lparr>producer_p := 0, consumor_p := 0\<rparr>) s)) 0xc0300000 [1, 2, 3] 3
     (upd_queue 0xc0300000 (\<lambda>r. r\<lparr>qsize := 4\<rparr>) boot_kstate) = None"
proof -
  let ?W = "\<lambda>s. Some (upd_queue 0xc0300000 (\<lambda>r. r\<lparr>producer_p := 0, consumor_p := 0\<rparr>) s)"
  have empty: "\<exists>xs. cq_holds r xs" if "unat (qsize r) = 4" "producer_p r = 0" "consumor_p r = 0" for r
    using that by (intro exI [of _ "[]"]) (simp add: cq_holds_def ring_def)
  then have k: "keeps (ring_sized 0xc0300000 4) ?W"
    by (auto simp: keeps_def ring_sized_def upd_queue_def)
  have r: "ring_sized 0xc0300000 4 (queues (upd_queue 0xc0300000 (\<lambda>r. r\<lparr>qsize := 4\<rparr>) boot_kstate))"
    using empty by (simp add: ring_sized_def) (simp add: boot_kstate_def)
  show ?thesis by (rule put_data_never_returns [OF k r]) simp
qed

text \<open>A queue of 4096 bytes, as pipes use it, is given one page: its buffer reaches past the page.\<close>

lemma queue_buffer_past_page:
  "4048 < unat sz \<Longrightarrow> unat sz \<le> 4144 \<Longrightarrow> queue_pages sz = 1 \<and> 4096 < 48 + unat sz"
  by (simp add: queue_pages_def word_less_nat_alt)

end
