(* ===== verification/Strings.thy ===== *)
theory Strings
  imports Prelude
begin

text \<open>
  The string and memory functions of \<^verbatim>\<open>core/libc/string.c\<close>. They are inline assembly over the x86
  string instructions, and are modelled at that level: memory is a function from addresses to bytes,
  the registers are the arguments of the loops, and the flags that a conditional jump reads are
  results of the instruction that sets them. \<open>scasb\<close> and \<open>cmpsb\<close> set the zero flag on equality and
  the condition of \<^verbatim>\<open>jl\<close> on a signed comparison of the bytes. A loop with no counter is a partial
  function: \<open>None\<close> when it runs for ever.
\<close>

section \<open>String instructions\<close>

type_synonym mem = "u32 \<Rightarrow> u8"

text \<open>\<open>repne scasb\<close>: the results are \<open>edi\<close>, \<open>ecx\<close> and the zero flag.\<close>

lemma unat_pred: "ecx \<noteq> 0 \<Longrightarrow> unat (ecx - 1 :: u32) < unat ecx"
  by (metis gr0I unat_eq_0 unat_minus_one diff_less zero_less_one)

function repne_scasb :: "mem \<Rightarrow> u8 \<Rightarrow> u32 \<Rightarrow> u32 \<Rightarrow> bool \<Rightarrow> u32 \<times> u32 \<times> bool" where
  "repne_scasb m al edi ecx zf =
     (if ecx = 0 then (edi, ecx, zf)
      else if m edi = al then (edi + 1, ecx - 1, True)
      else repne_scasb m al (edi + 1) (ecx - 1) False)"
  by pat_completeness auto
termination
  by (relation "measure (\<lambda>(m, al, edi, ecx, zf). unat ecx)") (auto simp: unat_pred)

text \<open>\<open>repe cmpsb\<close>: the results are \<open>esi\<close>, \<open>edi\<close>, \<open>ecx\<close>, the zero flag and the condition "less".\<close>

function repe_cmpsb :: "mem \<Rightarrow> u32 \<Rightarrow> u32 \<Rightarrow> u32 \<Rightarrow> bool \<Rightarrow> bool \<Rightarrow> u32 \<times> u32 \<times> u32 \<times> bool \<times> bool" where
  "repe_cmpsb m esi edi ecx zf lf =
     (if ecx = 0 then (esi, edi, ecx, zf, lf)
      else if m esi \<noteq> m edi then (esi + 1, edi + 1, ecx - 1, False, m esi <s m edi)
      else repe_cmpsb m (esi + 1) (edi + 1) (ecx - 1) True False)"
  by pat_completeness auto
termination
  by (relation "measure (\<lambda>(m, esi, edi, ecx, zf, lf). unat ecx)") (auto simp: unat_pred)

text \<open>\<open>rep movsb\<close> and \<open>rep stosb\<close>; the step is 1 after \<open>cld\<close> and -1 after \<open>std\<close>.\<close>

function rep_movsb :: "u32 \<Rightarrow> u32 \<Rightarrow> u32 \<Rightarrow> u32 \<Rightarrow> mem \<Rightarrow> mem" where
  "rep_movsb d esi edi ecx m =
     (if ecx = 0 then m else rep_movsb d (esi + d) (edi + d) (ecx - 1) (m(edi := m esi)))"
  by pat_completeness auto
termination
  by (relation "measure (\<lambda>(d, esi, edi, ecx, m). unat ecx)") (auto simp: unat_pred)

function rep_stosb :: "u8 \<Rightarrow> u32 \<Rightarrow> u32 \<Rightarrow> mem \<Rightarrow> mem" where
  "rep_stosb al edi ecx m = (if ecx = 0 then m else rep_stosb al (edi + 1) (ecx - 1) (m(edi := al)))"
  by pat_completeness auto
termination
  by (relation "measure (\<lambda>(al, edi, ecx, m). unat ecx)") (auto simp: unat_pred)

declare repne_scasb.simps [simp del] repe_cmpsb.simps [simp del] rep_movsb.simps [simp del]
  rep_stosb.simps [simp del]

section \<open>Copying and concatenating\<close>

text \<open>The loop \<open>lodsb; stosb; testb; jne\<close>; the result is the memory and \<open>edi\<close>.\<close>

partial_function (option) copy_loop :: "u32 \<Rightarrow> u32 \<Rightarrow> mem \<Rightarrow> (mem \<times> u32) option" where
  "copy_loop esi edi m =
     (let al = m esi; m' = m(edi := al) in
      if al \<noteq> 0 then copy_loop (esi + 1) (edi + 1) m' else Some (m', edi + 1))"

definition strcpy :: "u32 \<Rightarrow> u32 \<Rightarrow> mem \<Rightarrow> mem option" where
  "strcpy dest src m = map_option fst (copy_loop src dest m)"

text \<open>The same loop with a counter: \<open>decl ecx; js 2f\<close> in front. The flag tells whether the loop
  ended at a terminator; the counter is what is left in \<open>ecx\<close>.\<close>

function ncopy_loop :: "u32 \<Rightarrow> u32 \<Rightarrow> u32 \<Rightarrow> mem \<Rightarrow> mem \<times> u32 \<times> u32 \<times> bool" where
  "ncopy_loop esi edi ecx m =
     (if ecx - 1 <s 0 then (m, edi, ecx - 1, False)
      else let al = m esi; m' = m(edi := al) in
        if al \<noteq> 0 then ncopy_loop (esi + 1) (edi + 1) (ecx - 1) m' else (m', edi + 1, ecx - 1, True))"
  by pat_completeness auto
termination
proof (relation "measure (\<lambda>(esi, edi, ecx, m). unat ecx)")
  fix ecx :: u32 assume "\<not> ecx - 1 <s 0"
  then have "ecx \<noteq> 0" by (auto simp: word_sless_alt)
  then show "((esi + 1, edi + 1, ecx - 1, m'), esi, edi, ecx, m) \<in> measure (\<lambda>(esi, edi, ecx, m). unat ecx)"
    for esi edi :: u32 and m m' :: mem by (simp add: unat_pred)
qed simp

declare ncopy_loop.simps [simp del]

definition strncpy :: "u32 \<Rightarrow> u32 \<Rightarrow> u32 \<Rightarrow> mem \<Rightarrow> mem" where
  "strncpy dest src count m =
     (let (m, edi, ecx, ended) = ncopy_loop src dest count m in
      if ended then rep_stosb 0 edi ecx m else m)"

definition strcat :: "u32 \<Rightarrow> u32 \<Rightarrow> mem \<Rightarrow> mem option" where
  "strcat dest src m =
     (let (edi, ecx, zf) = repne_scasb m 0 dest 0xffffffff False in
      map_option fst (copy_loop src (edi - 1) m))"

definition strncat :: "u32 \<Rightarrow> u32 \<Rightarrow> u32 \<Rightarrow> mem \<Rightarrow> mem" where
  "strncat dest src count m =
     (let (edi, ecx, zf) = repne_scasb m 0 dest 0xffffffff False;
          (m, edi, ecx, ended) = ncopy_loop src (edi - 1) count m
      in m(edi := 0))"

section \<open>Comparing and searching\<close>

partial_function (option) strcmp_loop :: "u32 \<Rightarrow> u32 \<Rightarrow> mem \<Rightarrow> u32 option" where
  "strcmp_loop esi edi m =
     (let al = m esi in
      if al \<noteq> m edi then Some (if al <s m edi then 1 else -1)
      else if al \<noteq> 0 then strcmp_loop (esi + 1) (edi + 1) m else Some 0)"

definition strcmp :: "u32 \<Rightarrow> u32 \<Rightarrow> mem \<Rightarrow> u32 option" where
  "strcmp cs ct m = strcmp_loop ct cs m"

function strncmp_loop :: "u32 \<Rightarrow> u32 \<Rightarrow> u32 \<Rightarrow> mem \<Rightarrow> u32" where
  "strncmp_loop esi edi ecx m =
     (if ecx - 1 <s 0 then 0
      else let al = m esi in
        if al \<noteq> m edi then (if al <s m edi then 1 else -1)
        else if al \<noteq> 0 then strncmp_loop (esi + 1) (edi + 1) (ecx - 1) m else 0)"
  by pat_completeness auto
termination
proof (relation "measure (\<lambda>(esi, edi, ecx, m). unat ecx)")
  fix ecx :: u32 assume "\<not> ecx - 1 <s 0"
  then have "ecx \<noteq> 0" by (auto simp: word_sless_alt)
  then show "((esi + 1, edi + 1, ecx - 1, m), esi, edi, ecx, m) \<in> measure (\<lambda>(esi, edi, ecx, m). unat ecx)"
    for esi edi :: u32 and m :: mem by (simp add: unat_pred)
qed simp

declare strncmp_loop.simps [simp del]

definition strncmp :: "u32 \<Rightarrow> u32 \<Rightarrow> u32 \<Rightarrow> mem \<Rightarrow> u32" where
  "strncmp cs ct count m = strncmp_loop ct cs count m"

partial_function (option) strchr_loop :: "u8 \<Rightarrow> u32 \<Rightarrow> mem \<Rightarrow> u32 option" where
  "strchr_loop ah esi m =
     (let al = m esi; esi = esi + 1 in
      if al = ah then Some (esi - 1)
      else if al \<noteq> 0 then strchr_loop ah esi m else Some (1 - 1))"

definition strchr :: "u32 \<Rightarrow> u8 \<Rightarrow> mem \<Rightarrow> u32 option" where
  "strchr s c m = strchr_loop c s m"

partial_function (option) strrchr_loop :: "u8 \<Rightarrow> u32 \<Rightarrow> u32 \<Rightarrow> mem \<Rightarrow> u32 option" where
  "strrchr_loop ah res esi m =
     (let al = m esi; esi = esi + 1; res = (if al \<noteq> ah then res else esi - 1) in
      if al \<noteq> 0 then strrchr_loop ah res esi m else Some res)"

definition strrchr :: "u32 \<Rightarrow> u8 \<Rightarrow> mem \<Rightarrow> u32 option" where
  "strrchr s c m = strrchr_loop c 0 s m"

text \<open>The first instructions of \<open>strspn\<close> and its relatives: \<open>ecx\<close> becomes the length of \<open>ct\<close>.\<close>

definition scan_len :: "u32 \<Rightarrow> mem \<Rightarrow> u32" where
  "scan_len s m = (let (edi, ecx, zf) = repne_scasb m 0 s 0xffffffff False in NOT ecx - 1)"

definition strlen :: "u32 \<Rightarrow> mem \<Rightarrow> u32" where
  "strlen s m = scan_len s m"

text \<open>
  One step of the loops over \<open>cs\<close>: is the byte in the \<open>edx\<close> bytes at \<open>ct\<close>? With \<open>edx = 0\<close> no
  comparison is made and the zero flag is still clear from \<open>testb\<close> of a byte other than 0.
\<close>

definition in_set :: "u32 \<Rightarrow> u32 \<Rightarrow> u8 \<Rightarrow> mem \<Rightarrow> bool" where
  "in_set ct edx al m = (let (edi, ecx, zf) = repne_scasb m al ct edx False in zf)"

partial_function (option) strspn_loop :: "u32 \<Rightarrow> u32 \<Rightarrow> u32 \<Rightarrow> mem \<Rightarrow> u32 option" where
  "strspn_loop ct edx esi m =
     (let al = m esi; esi = esi + 1 in
      if al = 0 then Some (esi - 1)
      else if in_set ct edx al m then strspn_loop ct edx esi m else Some (esi - 1))"

definition strspn :: "u32 \<Rightarrow> u32 \<Rightarrow> mem \<Rightarrow> u32 option" where
  "strspn cs ct m = map_option (\<lambda>res. res - cs) (strspn_loop ct (scan_len ct m) cs m)"

partial_function (option) strcspn_loop :: "u32 \<Rightarrow> u32 \<Rightarrow> u32 \<Rightarrow> mem \<Rightarrow> u32 option" where
  "strcspn_loop ct edx esi m =
     (let al = m esi; esi = esi + 1 in
      if al = 0 then Some (esi - 1)
      else if \<not> in_set ct edx al m then strcspn_loop ct edx esi m else Some (esi - 1))"

definition strcspn :: "u32 \<Rightarrow> u32 \<Rightarrow> mem \<Rightarrow> u32 option" where
  "strcspn cs ct m = map_option (\<lambda>res. res - cs) (strcspn_loop ct (scan_len ct m) cs m)"

partial_function (option) strpbrk_loop :: "u32 \<Rightarrow> u32 \<Rightarrow> u32 \<Rightarrow> mem \<Rightarrow> u32 option" where
  "strpbrk_loop ct edx esi m =
     (let al = m esi; esi = esi + 1 in
      if al = 0 then Some 0
      else if \<not> in_set ct edx al m then strpbrk_loop ct edx esi m else Some (esi - 1))"

definition strpbrk :: "u32 \<Rightarrow> u32 \<Rightarrow> mem \<Rightarrow> u32 option" where
  "strpbrk cs ct m = strpbrk_loop ct (scan_len ct m) cs m"

partial_function (option) strstr_loop :: "u32 \<Rightarrow> u32 \<Rightarrow> bool \<Rightarrow> u32 \<Rightarrow> mem \<Rightarrow> u32 option" where
  "strstr_loop ct edx zf esi m =
     (let eax = esi; (esi, edi, ecx, zf, lf) = repe_cmpsb m esi ct edx zf False in
      if zf then Some eax
      else if m (esi - 1) \<noteq> 0 then strstr_loop ct edx False (eax + 1) m else Some 0)"

definition strstr :: "u32 \<Rightarrow> u32 \<Rightarrow> mem \<Rightarrow> u32 option" where
  "strstr cs ct m = (let edx = scan_len ct m in strstr_loop ct edx (edx = 0) cs m)"

section \<open>strtok\<close>

text \<open>The loops at the labels 2 (skip delimiters) and 3 (to the next delimiter); \<open>None\<close> inside is
  the jump taken when the string ends.\<close>

partial_function (option) strtok_skip :: "u32 \<Rightarrow> u32 \<Rightarrow> u32 \<Rightarrow> mem \<Rightarrow> u32 option option" where
  "strtok_skip ct edx esi m =
     (let al = m esi; esi = esi + 1 in
      if al = 0 then Some None
      else if in_set ct edx al m then strtok_skip ct edx esi m else Some (Some (esi - 1)))"

partial_function (option) strtok_word :: "u32 \<Rightarrow> u32 \<Rightarrow> u32 \<Rightarrow> mem \<Rightarrow> u32 option option" where
  "strtok_word ct edx esi m =
     (let al = m esi; esi = esi + 1 in
      if al = 0 then Some None
      else if \<not> in_set ct edx al m then strtok_word ct edx esi m else Some (Some (esi - 1)))"

text \<open>The results are the returned pointer, the new \<open>___strtok\<close> and the memory.\<close>

definition strtok :: "u32 \<Rightarrow> u32 \<Rightarrow> u32 \<Rightarrow> mem \<Rightarrow> (u32 \<times> u32 \<times> mem) option" where
  "strtok s ct saved m =
     (if s = 0 \<and> saved = 0 then Some (saved, s, m)
      else let s = (if s \<noteq> 0 then s else saved); edx = scan_len ct m in
        if edx = 0 then Some (0, 0, m)
        else do {
          w \<leftarrow> strtok_skip ct edx s m;
          case w of None \<Rightarrow> Some (0, 0, m)
          | Some esi \<Rightarrow>
            if m esi = 0 then Some (0, 0, m)
            else do {
              let ebx = esi;
              e \<leftarrow> strtok_word ct edx esi m;
              let (esi, m) = (case e of None \<Rightarrow> (0, m)
                | Some esi \<Rightarrow> if m esi = 0 then (0, m) else (esi + 1, m(esi := 0)));
              let ebx = (if m ebx \<noteq> 0 then ebx else 0);
              if ebx \<noteq> 0 then Some (ebx, esi, m) else Some (ebx, ebx, m)
            }
        })"

section \<open>Memory blocks\<close>

definition memcpy :: "u32 \<Rightarrow> u32 \<Rightarrow> u32 \<Rightarrow> mem \<Rightarrow> mem" where
  "memcpy dest src n m = rep_movsb 1 src dest n m"

text \<open>The second result is the direction flag on return: \<open>std\<close> is not undone.\<close>

definition memmove :: "u32 \<Rightarrow> u32 \<Rightarrow> u32 \<Rightarrow> mem \<Rightarrow> mem \<times> bool" where
  "memmove dest src n m =
     (if dest < src then (rep_movsb 1 src dest n m, False)
      else (rep_movsb (-1) (src + n - 1) (dest + n - 1) n m, True))"

text \<open>With \<open>count = 0\<close> no byte is compared and the jumps read the flags \<open>zf\<close>, \<open>lf\<close> of the caller.\<close>

definition memcmp :: "bool \<Rightarrow> bool \<Rightarrow> u32 \<Rightarrow> u32 \<Rightarrow> u32 \<Rightarrow> mem \<Rightarrow> u32" where
  "memcmp zf lf cs ct count m =
     (let (esi, edi, ecx, zf, lf) = repe_cmpsb m ct cs count zf lf in
      if zf then 0 else if lf then 1 else -1)"

definition memchr :: "u32 \<Rightarrow> u8 \<Rightarrow> u32 \<Rightarrow> mem \<Rightarrow> u32" where
  "memchr cs c count m =
     (if count = 0 then 0
      else let (edi, ecx, zf) = repne_scasb m c cs count False in (if zf then edi else 1) - 1)"

definition memset :: "u32 \<Rightarrow> u8 \<Rightarrow> u32 \<Rightarrow> mem \<Rightarrow> mem" where
  "memset s c count m = rep_stosb c s count m"

section \<open>Loading and storing bytes\<close>

primrec store :: "u8 list \<Rightarrow> u32 \<Rightarrow> mem \<Rightarrow> mem" where
  "store [] a m = m"
| "store (x # xs) a m = store xs (a + 1) (m(a := x))"

primrec load :: "mem \<Rightarrow> u32 \<Rightarrow> nat \<Rightarrow> u8 list" where
  "load m a 0 = []"
| "load m a (Suc n) = m a # load m (a + 1) n"

primrec bytes_at :: "mem \<Rightarrow> u32 \<Rightarrow> u8 list \<Rightarrow> bool" where
  "bytes_at m a [] \<longleftrightarrow> True"
| "bytes_at m a (x # xs) \<longleftrightarrow> m a = x \<and> bytes_at m (a + 1) xs"

text \<open>The C string at \<open>a\<close>; it is shorter than the address space.\<close>

definition cstr :: "mem \<Rightarrow> u32 \<Rightarrow> u8 list \<Rightarrow> bool" where
  "cstr m a xs \<longleftrightarrow> bytes_at m a (xs @ [0]) \<and> 0 \<notin> set xs \<and> length xs < 2 ^ 32 - 1"

lemma unat_off_Suc: "unat (b - (a + 1) :: u32) = (if b = a then 2 ^ 32 - 1 else unat (b - a) - 1)"
proof (cases "b = a")
  case True
  then show ?thesis using unat_minus_one_32 by simp
next
  case False
  then have "unat (b - a - 1) = unat (b - a) - 1" by (intro unat_minus_one) simp
  then show ?thesis using False by (simp add: diff_diff_eq)
qed

lemma off_pos: "0 < unat (b - a :: u32) \<longleftrightarrow> b \<noteq> a"
  by (simp add: unat_gt_0)

lemma off_step: "Suc n \<le> unat (b - a :: u32) \<Longrightarrow> b \<noteq> a \<and> n \<le> unat (b - (a + 1))"
  by (auto simp: unat_off_Suc)

lemma length_load [simp]: "length (load m a n) = n"
  by (induction n arbitrary: a) simp_all

lemma bytes_at_load: "bytes_at m a xs \<longleftrightarrow> load m a (length xs) = xs"
  by (induction xs arbitrary: a) simp_all

lemma load_upd: "n \<le> unat (b - a) \<Longrightarrow> load (m(b := v)) a n = load m a n"
proof (induction n arbitrary: a)
  case (Suc n)
  then have "b \<noteq> a" "n \<le> unat (b - (a + 1))" using off_step [of n b a] by simp_all
  then show ?case using Suc.IH by (auto simp del: fun_upd_apply simp: fun_upd_other)
qed simp

lemma bytes_at_upd: "length xs \<le> unat (b - a) \<Longrightarrow> bytes_at (m(b := v)) a xs = bytes_at m a xs"
  by (simp add: bytes_at_load load_upd)

lemma bytes_at_append: "bytes_at m a (xs @ ys) \<longleftrightarrow> bytes_at m a xs \<and> bytes_at m (a + of_nat (length xs)) ys"
  by (induction xs arbitrary: a) (auto simp: ac_simps)

lemma store_other: "length xs \<le> unat (b - a) \<Longrightarrow> store xs a m b = m b"
proof (induction xs arbitrary: a m)
  case (Cons x xs)
  then show ?case using off_step [of "length xs" b a] by simp
qed simp

lemma store_upd: "length xs \<le> unat (b - a) \<Longrightarrow> store xs a (m(b := v)) = (store xs a m)(b := v)"
proof (induction xs arbitrary: a m)
  case (Cons x xs)
  then have "b \<noteq> a" "length xs \<le> unat (b - (a + 1))" using off_step [of "length xs" b a] by simp_all
  then show ?case
    using Cons.IH [of "a + 1" "m(a := x)"] fun_upd_twist [of a b m x v] by (simp del: fun_upd_apply)
qed simp

lemma store_append: "store (xs @ ys) a m = store ys (a + of_nat (length xs)) (store xs a m)"
  by (induction xs arbitrary: a m) (simp_all add: ac_simps)

lemma load_store: "length xs \<le> 2 ^ 32 \<Longrightarrow> load (store xs a m) a (length xs) = xs"
proof (induction xs arbitrary: a m)
  case (Cons x xs)
  then have "length xs \<le> unat (a - (a + 1))" unfolding unat_off_Suc by simp
  then show ?case using Cons store_other [of xs a "a + 1" "m(a := x)"] by simp
qed simp

lemma load_store_apart:
  "\<forall>i < n. length xs \<le> unat (b + of_nat i - a) \<Longrightarrow> load (store xs a m) b n = load m b n"
proof (induction n arbitrary: b)
  case (Suc n)
  have "\<forall>i < n. length xs \<le> unat (b + 1 + of_nat i - a)"
  proof (intro allI impI)
    fix i assume "i < n"
    then show "length xs \<le> unat (b + 1 + of_nat i - a)"
      using Suc.prems [rule_format, of "Suc i"] by (simp add: algebra_simps)
  qed
  moreover have "length xs \<le> unat (b - a)" using Suc.prems [rule_format, of 0] by simp
  ultimately show ?case using Suc.IH by (simp add: store_other)
qed simp

lemma load_Suc_end: "load m a (Suc n) = load m a n @ [m (a + of_nat n)]"
proof (induction n arbitrary: a)
  case (Suc n)
  have "load m a (Suc (Suc n)) = m a # load m (a + 1) (Suc n)" by simp
  also have "... = m a # load m (a + 1) n @ [m (a + of_nat (Suc n))]"
    unfolding Suc by (simp add: ac_simps)
  finally show ?case by simp
qed simp

lemma word_Suc_cases: "Suc n = unat c \<Longrightarrow> c \<noteq> 0 \<and> unat (c - 1 :: u32) = n"
  using unat_minus_one [of c] by (metis Suc_neq_Zero diff_Suc_1 unat_0)

section \<open>The instructions\<close>

lemma scasb_found:
  "bytes_at m a (xs @ [c]) \<Longrightarrow> c \<notin> set xs \<Longrightarrow> length xs < unat ecx \<Longrightarrow>
   repne_scasb m c a ecx zf = (a + of_nat (Suc (length xs)), ecx - of_nat (Suc (length xs)), True)"
proof (induction xs arbitrary: a ecx zf)
  case Nil
  then show ?case by (subst repne_scasb.simps) auto
next
  case (Cons x xs)
  then have "ecx \<noteq> 0" "m a \<noteq> c" by auto
  moreover have "length xs < unat (ecx - 1)" using Cons.prems(3) unat_minus_one [of ecx] \<open>ecx \<noteq> 0\<close> by simp
  ultimately show ?case
    using Cons.IH [of "a + 1" "ecx - 1"] Cons.prems by (subst repne_scasb.simps) (simp add: algebra_simps)
qed

lemma scasb_missing:
  "bytes_at m a xs \<Longrightarrow> c \<notin> set xs \<Longrightarrow> unat ecx = length xs \<Longrightarrow>
   repne_scasb m c a ecx zf = (a + ecx, 0, zf \<and> xs = [])"
proof (induction xs arbitrary: a ecx zf)
  case Nil
  then have "ecx = 0" by (simp add: unat_eq_0)
  then show ?case by (subst repne_scasb.simps) simp
next
  case (Cons x xs)
  then have "ecx \<noteq> 0" "m a \<noteq> c" by auto
  moreover have "unat (ecx - 1) = length xs" using Cons.prems(3) unat_minus_one [of ecx] \<open>ecx \<noteq> 0\<close> by simp
  ultimately show ?case
    using Cons.IH [of "a + 1" "ecx - 1"] Cons.prems by (subst repne_scasb.simps) simp
qed

lemma scan_len_cstr: "cstr m a xs \<Longrightarrow> scan_len a m = of_nat (length xs)"
proof -
  assume c: "cstr m a xs"
  have "unat (0xffffffff :: u32) = 2 ^ 32 - 1" by simp
  then have "repne_scasb m 0 a 0xffffffff False =
      (a + of_nat (Suc (length xs)), 0xffffffff - of_nat (Suc (length xs)), True)"
    using c by (intro scasb_found) (auto simp: cstr_def)
  moreover have "NOT (0xffffffff - of_nat (Suc (length xs))) - 1 = (of_nat (length xs) :: u32)"
    by (simp add: not_eq_complement)
  ultimately show ?thesis by (simp add: scan_len_def del: of_nat_Suc)
qed

lemma in_set_bytes:
  assumes "bytes_at m ct ds" and "unat edx = length ds"
  shows "in_set ct edx c m \<longleftrightarrow> c \<in> set ds"
proof (cases "c \<in> set ds")
  case True
  then obtain xs ys where ds: "ds = xs @ c # ys" "c \<notin> set xs" by (meson split_list_first)
  then have "bytes_at m ct (xs @ [c])" using assms(1) bytes_at_append [of m ct "xs @ [c]" ys] by simp
  then show ?thesis using scasb_found [of m ct xs c edx False] ds assms(2) by (simp add: in_set_def)
next
  case False
  then show ?thesis using scasb_missing [OF assms(1) False assms(2), of False] by (simp add: in_set_def)
qed

lemma movsb_forward:
  "d = s \<or> unat c \<le> unat (d - s) \<Longrightarrow> rep_movsb 1 s d c m = store (load m s (unat c)) d m"
proof (induction "unat c" arbitrary: s d c m)
  case 0
  then show ?case by (subst rep_movsb.simps) (simp add: unat_eq_0)
next
  case (Suc n)
  then have c: "c \<noteq> 0" "unat (c - 1) = n" using word_Suc_cases by auto
  have "n \<le> unat (d - (s + 1))"
    using Suc.prems Suc.hyps(2) unat_less_32 [of c] by (auto simp: unat_off_Suc)
  then have "load (m(d := m s)) (s + 1) n = load m (s + 1) n" by (rule load_upd)
  moreover have "d + 1 = s + 1 \<or> unat (c - 1) \<le> unat (d + 1 - (s + 1))" using Suc.prems Suc.hyps(2) c by auto
  ultimately show ?case
    using Suc.hyps(1) [OF c(2) [symmetric], of "d + 1" "s + 1" "m(d := m s)"] c Suc.hyps(2) [symmetric]
    by (subst rep_movsb.simps) simp
qed

lemma movsb_backward:
  "s = d \<or> unat c \<le> unat (s - d) \<Longrightarrow>
   rep_movsb (-1) (s + c - 1) (d + c - 1) c m = store (load m s (unat c)) d m"
proof (induction "unat c" arbitrary: c m)
  case 0
  then show ?case by (subst rep_movsb.simps) (simp add: unat_eq_0)
next
  case (Suc n)
  then have c: "c \<noteq> 0" "unat (c - 1) = n" using word_Suc_cases by auto
  let ?b = "d + c - 1" let ?m = "m(?b := m (s + c - 1))"
  have "n \<le> unat (?b - s)"
  proof (cases "s = d")
    case True
    then show ?thesis using c(2) by simp
  next
    case False
    then have le: "Suc n \<le> unat (s - d)" using Suc by simp
    have e: "?b - s = (c - 1) - (s - d)" by simp
    have "unat ((c - 1) - (s - d)) = 2 ^ 32 + n - unat (s - d)"
      using le c(2) unat_sub_if_size [of "c - 1" "s - d"] by (simp only: word_size) auto
    then show ?thesis using unat_less_32 [of "s - d"] by (simp only: e) simp
  qed
  then have l: "load ?m s n = load m s n" by (rule load_upd)
  have "s = d \<or> unat (c - 1) \<le> unat (s - d)" using Suc.prems Suc.hyps(2) c by auto
  from Suc.hyps(1) [OF c(2) [symmetric] this, of ?m]
  have "rep_movsb (-1) (s + c - 1) ?b c m = store (load m s n) d ?m"
    using c l by (subst rep_movsb.simps) (simp add: algebra_simps)
  also have "... = (store (load m s n) d m)(?b := m (s + c - 1))"
    using c(2) by (intro store_upd) (simp add: diff_add_eq)
  also have "... = store (load m s (Suc n)) d m"
  proof -
    have "of_nat n = c - 1" using c(2) by (metis of_nat_unat ucast_id)
    then show ?thesis by (simp add: load_Suc_end store_append add_diff_eq del: load.simps)
  qed
  finally show ?case by (simp add: Suc.hyps(2))
qed

lemma nonneg_pred: "0 < unat ecx \<Longrightarrow> unat ecx < 2 ^ 31 \<Longrightarrow> \<not> (ecx :: u32) - 1 <s 0 \<and> unat (ecx - 1) = unat ecx - 1"
proof -
  assume h: "0 < unat ecx" "unat ecx < 2 ^ 31"
  then have u: "unat (ecx - 1) = unat ecx - 1" using word_Suc_cases [of "unat ecx - 1" ecx] by simp
  define n where "n = unat ecx - 1"
  have "uint (ecx - 1) = int n" unfolding n_def using u uint_nat by metis
  moreover have "n < 2 ^ 31" using h by (simp add: n_def)
  ultimately have "uint (ecx - 1) < 2 ^ 31" "- (2 ^ 31) \<le> uint (ecx - 1)" by simp_all
  then have "sint (ecx - 1) = uint (ecx - 1)" unfolding sint_uint
    by (intro signed_take_bit_int_eq_self) simp_all
  then show ?thesis using u by (simp add: word_sless_alt)
qed

lemma copy_loop_cstr:
  assumes "bytes_at m src (xs @ [0])" and "0 \<notin> set xs" and "length xs < 2 ^ 32 - 1"
    and "dest = src \<or> length xs < unat (dest - src)"
  shows "copy_loop src dest m = Some (store (xs @ [0]) dest m, dest + of_nat (Suc (length xs)))"
  using assms
proof (induction xs arbitrary: src dest m)
  case Nil
  then show ?case by (subst copy_loop.simps) simp
next
  case (Cons x xs)
  let ?m = "m(dest := x)"
  have "Suc (length xs) \<le> unat (dest - (src + 1))"
    using Cons.prems(3,4) by (auto simp: unat_off_Suc)
  then have "bytes_at ?m (src + 1) (xs @ [0])" using Cons.prems(1) bytes_at_upd [of "xs @ [0]"] by simp
  moreover have "dest + 1 = src + 1 \<or> length xs < unat (dest + 1 - (src + 1))" using Cons.prems(4) by auto
  ultimately have "copy_loop (src + 1) (dest + 1) ?m =
      Some (store (xs @ [0]) (dest + 1) ?m, dest + 1 + of_nat (Suc (length xs)))"
    using Cons.prems by (intro Cons.IH) (auto simp del: fun_upd_apply)
  moreover have "m src = x" "x \<noteq> 0" using Cons.prems(1,2) by auto
  ultimately show ?case by (subst copy_loop.simps) (simp add: algebra_simps)
qed

lemma cstr_store: "0 \<notin> set xs \<Longrightarrow> length xs < 2 ^ 32 - 1 \<Longrightarrow> cstr (store (xs @ [0]) a m) a xs"
  using load_store [of "xs @ [0]" a m] by (simp add: cstr_def bytes_at_load)

section \<open>Theorems\<close>

text \<open>\<open>strcpy\<close> returns whenever no byte of the source is overwritten before it is read, writes
  exactly the string and its terminator, and \<open>strlen\<close> of the copy is the length of the string.\<close>

theorem strcpy_strlen:
  assumes "cstr m src xs" and "dest = src \<or> length xs < unat (dest - src)"
  shows "\<exists>m'. strcpy dest src m = Some m' \<and> cstr m' dest xs \<and> unat (strlen dest m') = length xs \<and>
    (\<forall>x. length xs < unat (x - dest) \<longrightarrow> m' x = m x)"
proof -
  let ?m = "store (xs @ [0]) dest m"
  note c = assms(1) [unfolded cstr_def]
  have "strcpy dest src m = Some ?m" using copy_loop_cstr [of m src xs dest] c assms(2) by (simp add: strcpy_def)
  moreover have d: "cstr ?m dest xs" using c by (simp add: cstr_store del: store.simps)
  moreover have "unat (strlen dest ?m) = length xs"
    using scan_len_cstr [OF d] c unat_of_nat_32 by (simp add: strlen_def)
  moreover have "\<forall>x. length xs < unat (x - dest) \<longrightarrow> ?m x = m x" using store_other [of "xs @ [0]"] by simp
  ultimately show ?thesis by blast
qed

theorem strcpy_strlen_witness:
  "\<exists>m'. strcpy 200 100 (store ([72, 105] @ [0]) 100 (\<lambda>_. 7)) = Some m' \<and> unat (strlen 200 m') = 2 \<and> m' 203 = 7"
proof -
  let ?m = "store ([72, 105] @ [0]) 100 (\<lambda>_. 7) :: mem"
  have "cstr ?m 100 [72, 105]" by (rule cstr_store) simp_all
  from strcpy_strlen [OF this, of 200] obtain m' where "strcpy 200 100 ?m = Some m'" "unat (strlen 200 m') = 2"
    "\<forall>x. 2 < unat (x - 200) \<longrightarrow> m' x = ?m x" by auto
  then show ?thesis using store_other [of "[72, 105, 0]" 203 100 "\<lambda>_. 7"] by auto
qed

text \<open>The comparison of two byte lists that end with 0, as the sign of the first difference.\<close>

fun first_diff :: "u8 list \<Rightarrow> u8 list \<Rightarrow> (u8 \<times> u8) option" where
  "first_diff (x # xs) (y # ys) = (if x \<noteq> y then Some (x, y) else first_diff xs ys)"
| "first_diff xs ys = None"

definition compare_result :: "(u8 \<times> u8) option \<Rightarrow> u32" where
  "compare_result d = (case d of None \<Rightarrow> 0 | Some (x, y) \<Rightarrow> if y <s x then 1 else -1)"

lemma strcmp_loop_cstr:
  assumes "bytes_at m a (xs @ [0])" and "bytes_at m b (ys @ [0])" and "0 \<notin> set xs" and "0 \<notin> set ys"
  shows "strcmp_loop b a m = Some (compare_result (first_diff (xs @ [0]) (ys @ [0])))"
  using assms
proof (induction xs arbitrary: ys a b)
  case Nil
  then show ?case by (cases ys) (subst strcmp_loop.simps, simp add: compare_result_def)+
next
  case (Cons x xs)
  show ?case
  proof (cases ys)
    case Nil
    then show ?thesis using Cons.prems by (subst strcmp_loop.simps) (simp add: compare_result_def)
  next
    case ys: (Cons y zs)
    then have "m a = x" "m b = y" "x \<noteq> 0" using Cons.prems by auto
    moreover have "strcmp_loop (b + 1) (a + 1) m = Some (compare_result (first_diff (xs @ [0]) (zs @ [0])))"
      using Cons.prems ys by (intro Cons.IH) auto
    ultimately show ?thesis using ys by (subst strcmp_loop.simps) (simp add: compare_result_def)
  qed
qed

lemma first_diff_None: "0 \<notin> set xs \<Longrightarrow> 0 \<notin> set ys \<Longrightarrow> first_diff (xs @ [0]) (ys @ [0]) = None \<longleftrightarrow> xs = ys"
proof (induction xs arbitrary: ys)
  case Nil
  then show ?case by (cases ys) auto
next
  case (Cons x xs)
  then show ?case by (cases ys) auto
qed

lemma first_diff_swap: "first_diff ys xs = map_option (\<lambda>(x, y). (y, x)) (first_diff xs ys)"
  by (induction xs ys rule: first_diff.induct) auto

lemma first_diff_neq: "first_diff xs ys = Some (x, y) \<Longrightarrow> x \<noteq> y"
  by (induction xs ys rule: first_diff.induct) (auto split: if_splits)

text \<open>On two strings \<open>strcmp\<close> returns: 0 exactly when they are equal, otherwise the sign of the
  first difference, where the bytes are compared as signed characters; exchanging the arguments
  negates the result.\<close>

theorem strcmp_sign:
  assumes "cstr m cs xs" and "cstr m ct ys"
  shows "\<exists>r. strcmp cs ct m = Some r \<and> (r = 0 \<longleftrightarrow> xs = ys) \<and>
    r = compare_result (first_diff (xs @ [0]) (ys @ [0])) \<and> strcmp ct cs m = Some (- r)"
proof -
  note c = assms [unfolded cstr_def]
  let ?d = "first_diff (xs @ [0]) (ys @ [0])"
  have "strcmp cs ct m = Some (compare_result ?d)"
    using c by (simp add: strcmp_def strcmp_loop_cstr)
  moreover have "strcmp ct cs m = Some (compare_result (first_diff (ys @ [0]) (xs @ [0])))"
    using c by (simp add: strcmp_def strcmp_loop_cstr)
  moreover have "compare_result (first_diff (ys @ [0]) (xs @ [0])) = - compare_result ?d"
    using first_diff_neq [of "xs @ [0]" "ys @ [0]"] first_diff_swap [of "ys @ [0]" "xs @ [0]"]
    by (auto simp: compare_result_def word_sless_alt dest: signed_word_eqI split: option.splits)
  moreover have "compare_result ?d = 0 \<longleftrightarrow> xs = ys"
    using c first_diff_None [of xs ys] by (auto simp: compare_result_def split: option.splits)
  ultimately show ?thesis by simp
qed

text \<open>The byte 200 is negative as a signed character, so it sorts before the letter.\<close>

theorem strcmp_sign_witness:
  "strcmp 100 102 (store ([65] @ [0]) 100 (store ([200] @ [0]) 102 (\<lambda>_. 0))) = Some 1"
proof -
  let ?m = "store ([65] @ [0]) 100 (store ([200] @ [0]) 102 (\<lambda>_. 0)) :: mem"
  have "cstr ?m 100 [65]" by (rule cstr_store) simp_all
  moreover have "cstr ?m 102 [200]" by (simp add: cstr_def)
  ultimately show ?thesis
    using strcmp_sign [of ?m 100 "[65]" 102 "[200]"] by (simp add: compare_result_def word_sless_alt)
qed

text \<open>\<open>memmove\<close> copies correctly however the two blocks overlap: the destination holds the bytes
  the source held before, and no other byte changes. It returns with the direction flag set exactly
  when it copied backwards.\<close>

theorem memmove_correct:
  assumes "unat src + unat n \<le> 2 ^ 32" and "unat dest + unat n \<le> 2 ^ 32"
  shows "\<exists>m'. memmove dest src n m = (m', src \<le> dest) \<and> load m' dest (unat n) = load m src (unat n) \<and>
    (\<forall>x. unat n \<le> unat (x - dest) \<longrightarrow> m' x = m x)"
proof -
  let ?m = "store (load m src (unat n)) dest m"
  have "memmove dest src n m = (?m, src \<le> dest)"
  proof (cases "dest < src")
    case True
    then have "unat (dest - src) = unat dest + 2 ^ 32 - unat src"
      using unat_sub_if_size [of dest src] by (simp add: word_size word_le_nat_alt word_less_nat_alt)
    then have "unat n \<le> unat (dest - src)" using assms(1) by linarith
    then show ?thesis using True movsb_forward [of dest src n m] by (simp add: memmove_def not_le [symmetric])
  next
    case False
    then have "src = dest \<or> unat (src - dest) = unat src + 2 ^ 32 - unat dest"
      using unat_sub_if_size [of src dest] by (auto simp: word_size word_le_nat_alt word_less_nat_alt word_eq_unat32)
    then have "src = dest \<or> unat n \<le> unat (src - dest)" using assms(2) by linarith
    then show ?thesis using False movsb_backward [of src dest n m] by (auto simp: memmove_def not_less)
  qed
  moreover have "load ?m dest (unat n) = load m src (unat n)"
    using load_store [of "load m src (unat n)" dest m] unat_less_32 [of n] by simp
  moreover have "\<forall>x. unat n \<le> unat (x - dest) \<longrightarrow> ?m x = m x" by (simp add: store_other)
  ultimately show ?thesis by blast
qed

text \<open>The blocks \<open>[100, 103)\<close> and \<open>[101, 104)\<close> overlap.\<close>

theorem memmove_correct_witness:
  "\<exists>m'. memmove 101 100 3 (store [1, 2, 3] 100 (\<lambda>_. 0)) = (m', True) \<and> load m' 101 3 = [1, 2, 3]"
proof -
  have "unat (3 :: u32) = length [1, 2, 3 :: u8]" by simp
  then have "load (store [1, 2, 3] 100 (\<lambda>_. 0)) 100 (unat (3 :: u32)) = [1, 2, 3]"
    using load_store [of "[1, 2, 3]" 100 "\<lambda>_. 0"] by (simp only:) simp
  then show ?thesis
    using memmove_correct [of 100 3 101 "store [1, 2, 3] 100 (\<lambda>_. 0)"] by auto
qed

section \<open>Concatenation with a limit\<close>

lemma ncopy_loop_cstr:
  assumes "bytes_at m src (xs @ [0])" and "0 \<notin> set xs" and "length xs < unat ecx" and "unat ecx < 2 ^ 31"
    and "length xs < unat (dest - src)"
  shows "ncopy_loop src dest ecx m = (store (xs @ [0]) dest m, dest + of_nat (Suc (length xs)),
    ecx - of_nat (Suc (length xs)), True)"
  using assms
proof (induction xs arbitrary: src dest ecx m)
  case Nil
  then have "\<not> ecx - 1 <s 0" using nonneg_pred by simp
  then show ?case using Nil by (subst ncopy_loop.simps) simp
next
  case (Cons x xs)
  let ?m = "m(dest := x)"
  have ns: "\<not> ecx - 1 <s 0" "unat (ecx - 1) = unat ecx - 1" using Cons.prems(3,4) nonneg_pred by simp_all
  have "Suc (length xs) \<le> unat (dest - (src + 1))" using Cons.prems(5) by (auto simp: unat_off_Suc)
  then have "bytes_at ?m (src + 1) (xs @ [0])" using Cons.prems(1) bytes_at_upd [of "xs @ [0]"] by simp
  then have "ncopy_loop (src + 1) (dest + 1) (ecx - 1) ?m =
      (store (xs @ [0]) (dest + 1) ?m, dest + 1 + of_nat (Suc (length xs)), ecx - 1 - of_nat (Suc (length xs)), True)"
    using Cons.prems ns by (intro Cons.IH) (auto simp del: fun_upd_apply)
  moreover have "m src = x" "x \<noteq> 0" using Cons.prems(1,2) by auto
  ultimately show ?case using ns(1) by (subst ncopy_loop.simps) (simp add: algebra_simps)
qed

text \<open>When the source ends within the limit, \<open>strncat\<close> appends it and two zero bytes: the byte
  after the terminator is overwritten as well, one byte more than the resulting string occupies.\<close>

theorem strncat_extra_nul:
  assumes "cstr m dest xs" and "cstr m src ys" and "length ys < unat count" and "unat count < 2 ^ 31"
    and "length ys < unat (dest + of_nat (length xs) - src)"
  shows "strncat dest src count m = store (ys @ [0, 0]) (dest + of_nat (length xs)) m"
proof -
  note c = assms(1,2) [unfolded cstr_def]
  let ?e = "dest + of_nat (length xs)"
  have "repne_scasb m 0 dest 0xffffffff False =
      (dest + of_nat (Suc (length xs)), 0xffffffff - of_nat (Suc (length xs)), True)"
    using c by (intro scasb_found) auto
  moreover have "ncopy_loop src ?e count m = (store (ys @ [0]) ?e m, ?e + of_nat (Suc (length ys)),
      count - of_nat (Suc (length ys)), True)"
    using c assms(3-5) by (intro ncopy_loop_cstr) auto
  moreover have "ys @ [0, 0] = (ys @ [0]) @ [0]" by simp
  ultimately show ?thesis
    unfolding strncat_def by (simp only: store_append [of "ys @ [0]" "[0]"]) (simp add: algebra_simps Let_def)
qed

theorem strncat_extra_nul_witness:
  "strncat 200 100 8 (store ([72] @ [0]) 100 (store ([73] @ [0]) 200 (\<lambda>_. 7))) 203 = 0 \<and>
   store ([72] @ [0]) 100 (store ([73] @ [0]) 200 (\<lambda>_. 7)) 203 = 7"
proof -
  let ?m = "store ([72] @ [0]) 100 (store ([73] @ [0]) 200 (\<lambda>_. 7)) :: mem"
  have "cstr ?m 100 [72]" by (rule cstr_store) simp_all
  moreover have "cstr ?m 200 [73]" by (simp add: cstr_def)
  ultimately show ?thesis using strncat_extra_nul [of ?m 200 "[73]" 100 "[72]" 8] by simp
qed

section \<open>Spans and tokens\<close>

lemma strspn_loop_bytes:
  assumes "bytes_at m a (xs @ [0])" and "0 \<notin> set xs" and "bytes_at m ct ds" and "unat edx = length ds"
  shows "strspn_loop ct edx a m = Some (a + of_nat (length (takeWhile (\<lambda>c. c \<in> set ds) xs)))"
  using assms(1,2) in_set_bytes [OF assms(3,4)]
  by (induction xs arbitrary: a) (subst strspn_loop.simps, simp add: algebra_simps)+

lemma strcspn_loop_bytes:
  assumes "bytes_at m a (xs @ [0])" and "0 \<notin> set xs" and "bytes_at m ct ds" and "unat edx = length ds"
  shows "strcspn_loop ct edx a m = Some (a + of_nat (length (takeWhile (\<lambda>c. c \<notin> set ds) xs)))"
  using assms(1,2) in_set_bytes [OF assms(3,4)]
  by (induction xs arbitrary: a) (subst strcspn_loop.simps, simp add: algebra_simps)+

lemma strpbrk_loop_bytes:
  assumes "bytes_at m a (xs @ [0])" and "0 \<notin> set xs" and "bytes_at m ct ds" and "unat edx = length ds"
  shows "strpbrk_loop ct edx a m = Some (if set xs \<inter> set ds = {} then 0
    else a + of_nat (length (takeWhile (\<lambda>c. c \<notin> set ds) xs)))"
  using assms(1,2) in_set_bytes [OF assms(3,4)]
  by (induction xs arbitrary: a) (subst strpbrk_loop.simps, simp add: algebra_simps)+

lemma scan_len_bytes:
  assumes "cstr m ct ds"
  shows "bytes_at m ct ds" and "unat (scan_len ct m) = length ds"
  using assms scan_len_cstr [OF assms] unat_of_nat_32 [of "length ds"] by (auto simp: cstr_def bytes_at_append)

text \<open>\<open>strspn\<close>, \<open>strcspn\<close> and \<open>strpbrk\<close> return on all strings, with the length of the longest prefix
  inside, outside the set of bytes, and with the first byte of the set or the null pointer; an empty
  set of bytes included.\<close>

theorem span_functions:
  assumes "cstr m cs xs" and "cstr m ct ds"
  shows "strspn cs ct m = Some (of_nat (length (takeWhile (\<lambda>c. c \<in> set ds) xs))) \<and>
    strcspn cs ct m = Some (of_nat (length (takeWhile (\<lambda>c. c \<notin> set ds) xs))) \<and>
    strpbrk cs ct m = Some (if set xs \<inter> set ds = {} then 0
      else cs + of_nat (length (takeWhile (\<lambda>c. c \<notin> set ds) xs)))"
proof -
  have x: "bytes_at m cs (xs @ [0])" "0 \<notin> set xs" using assms(1) by (auto simp: cstr_def)
  note l = x scan_len_bytes [OF assms(2)]
  show ?thesis
    using strspn_loop_bytes [OF l] strcspn_loop_bytes [OF l] strpbrk_loop_bytes [OF l]
    by (simp add: strspn_def strcspn_def strpbrk_def)
qed

theorem span_functions_witness:
  "strspn 100 200 (store ([97, 98, 99] @ [0]) 100 (store ([98, 97] @ [0]) 200 (\<lambda>_. 0))) = Some 2 \<and>
   strpbrk 100 200 (store ([97, 98, 99] @ [0]) 100 (store ([98, 97] @ [0]) 200 (\<lambda>_. 0))) = Some 100"
proof -
  let ?m = "store ([97, 98, 99] @ [0]) 100 (store ([98, 97] @ [0]) 200 (\<lambda>_. 0)) :: mem"
  have "cstr ?m 100 [97, 98, 99]" by (rule cstr_store) simp_all
  moreover have "cstr ?m 200 [98, 97]" by (simp add: cstr_def)
  ultimately show ?thesis using span_functions [of ?m 100 "[97, 98, 99]" 200 "[98, 97]"] by simp
qed

lemma strtok_skip_bytes:
  assumes "bytes_at m a (xs @ [0])" and "0 \<notin> set xs" and "bytes_at m ct ds" and "unat edx = length ds"
  shows "strtok_skip ct edx a m = Some (if set xs \<subseteq> set ds then None
    else Some (a + of_nat (length (takeWhile (\<lambda>c. c \<in> set ds) xs))))"
  using assms(1,2) in_set_bytes [OF assms(3,4)]
  by (induction xs arbitrary: a) (subst strtok_skip.simps, simp add: algebra_simps)+

lemma strtok_word_bytes:
  assumes "bytes_at m a (xs @ [0])" and "0 \<notin> set xs" and "bytes_at m ct ds" and "unat edx = length ds"
  shows "strtok_word ct edx a m = Some (if set xs \<inter> set ds = {} then None
    else Some (a + of_nat (length (takeWhile (\<lambda>c. c \<notin> set ds) xs))))"
  using assms(1,2) in_set_bytes [OF assms(3,4)]
  by (induction xs arbitrary: a) (subst strtok_word.simps, simp add: algebra_simps)+

lemma bytes_at_suffix:
  assumes "bytes_at m a (xs @ [0])" and "xs = us @ vs"
  shows "bytes_at m (a + of_nat (length us)) (vs @ [0])" and "bytes_at m a us"
  using assms bytes_at_append [of m a us "vs @ [0]"] by simp_all

text \<open>A call of \<open>strtok\<close> on a string, with a delimiter string that is not empty: if only
  delimiters are left the result is the null pointer and memory is unchanged. Otherwise the result
  points at the first byte that is no delimiter, the string there is the longest word without a
  delimiter, and the saved pointer is the rest after the delimiter, which the call overwrote with 0;
  the saved pointer is null when the word ends the string.\<close>

theorem strtok_token:
  fixes ds :: "u8 list"
  assumes "cstr m s xs" and "cstr m ct ds" and "ds \<noteq> []" and "s \<noteq> 0" and "unat s + length xs < 2 ^ 32"
  defines "D \<equiv> \<lambda>c. c \<in> set ds"
  defines "ts \<equiv> dropWhile D xs" and "p \<equiv> s + of_nat (length (takeWhile D xs))"
  defines "w \<equiv> takeWhile (Not \<circ> D) ts"
  shows "\<exists>r saved' m'. strtok s ct saved m = Some (r, saved', m') \<and>
    (if ts = [] then r = 0 \<and> saved' = 0 \<and> m' = m
     else r = p \<and> w \<noteq> [] \<and> cstr m' p w \<and>
       (if w = ts then saved' = 0 \<and> m' = m
        else saved' = p + of_nat (Suc (length w)) \<and> m' = m(p + of_nat (length w) := 0) \<and>
          cstr m' saved' (drop (Suc (length w)) ts)))"
proof -
  have x: "bytes_at m s (xs @ [0])" "0 \<notin> set xs" "length xs < 2 ^ 32 - 1" using assms(1) by (auto simp: cstr_def)
  note l = scan_len_bytes [OF assms(2)]
  have dnz: "scan_len ct m \<noteq> 0" using l(2) assms(3) by auto
  have sk: "strtok_skip ct (scan_len ct m) s m = Some (if set xs \<subseteq> set ds then None else Some p)"
    using strtok_skip_bytes [OF x(1,2) l] by (simp add: p_def D_def)
  have sub: "set xs \<subseteq> set ds \<longleftrightarrow> ts = []" by (auto simp: ts_def D_def dropWhile_eq_Nil_conv)
  show ?thesis
  proof (cases "ts = []")
    case True
    then show ?thesis using sk sub dnz assms(4) by (simp add: strtok_def)
  next
    case False
    have xs: "xs = takeWhile D xs @ ts" by (simp add: ts_def)
    have t: "bytes_at m p (ts @ [0])" using bytes_at_suffix(1) [OF x(1) xs] by (simp add: p_def)
    have t0: "0 \<notin> set ts" "length ts < 2 ^ 32 - 1"
      using x(2,3) set_dropWhileD length_dropWhile_le [of D xs] unfolding ts_def by fastforce+
    have hd: "\<not> D (hd ts)" using False hd_dropWhile unfolding ts_def by blast
    have "m p = hd ts" using t False by (cases ts) auto
    then have mp: "m p \<noteq> 0" using t0(1) False by (metis list.set_sel(1))
    have pnz: "p \<noteq> 0"
    proof -
      have "length (takeWhile D xs) \<le> length xs" by (rule length_takeWhile_le)
      then have "unat p = unat s + length (takeWhile D xs)"
        using assms(5) unfolding p_def by (subst unat_add_less) (simp_all add: unat_of_nat_32)
      then show ?thesis using assms(4) by (auto simp: unat_eq_0)
    qed
    have wn: "w \<noteq> []" using hd False by (cases ts) (simp_all add: w_def)
    have w0: "0 \<notin> set w" "length w \<le> length ts"
      using t0(1) set_takeWhileD length_takeWhile_le unfolding w_def by fastforce+
    have wd: "strtok_word ct (scan_len ct m) p m =
        Some (if set ts \<inter> set ds = {} then None else Some (p + of_nat (length w)))"
      using strtok_word_bytes [OF t t0(1) l] by (simp add: w_def D_def comp_def)
    have wts: "set ts \<inter> set ds = {} \<longleftrightarrow> w = ts" by (auto simp: w_def D_def takeWhile_eq_all_conv)
    show ?thesis
    proof (cases "w = ts")
      case True
      then show ?thesis
        using False sk sub dnz assms(4) wd wts mp pnz wn t t0 by (simp add: strtok_def cstr_def)
    next
      case ne: False
      let ?e = "p + of_nat (length w)" let ?m = "m(?e := 0)"
      obtain d rest where r: "ts = w @ d # rest" using ne unfolding w_def
        by (metis takeWhile_dropWhile_id append_Nil2 neq_Nil_conv)
      have b: "bytes_at m p w" "m ?e = d" "bytes_at m (?e + 1) (rest @ [0])"
        using bytes_at_suffix [OF t r] by simp_all
      have len: "unat (?e - p) = length w" using t0(2) w0(2) by (simp add: unat_of_nat_32)
      have "bytes_at ?m p w" using b(1) len bytes_at_upd [of w ?e p] by simp
      then have c1: "cstr ?m p w" using w0 t0(2) by (simp add: cstr_def bytes_at_append)
      have "length (rest @ [0 :: u8]) \<le> unat (?e - (?e + 1))" using t0(2) r by (subst unat_off_Suc) simp
      then have "bytes_at ?m (?e + 1) (rest @ [0])" using b(3) bytes_at_upd by blast
      then have c2: "cstr ?m (p + of_nat (Suc (length w))) (drop (Suc (length w)) ts)"
        using r t0 by (simp add: cstr_def algebra_simps)
      have "d \<noteq> 0" using t0(1) r by auto
      moreover have "?m p = m p" using wn len by (cases w) auto
      ultimately show ?thesis
        using ne False sk sub dnz assms(4) wd wts mp pnz wn b(2) c1 c2 by (simp add: strtok_def algebra_simps)
    qed
  qed
qed

theorem strtok_token_witness:
  "\<exists>m'. strtok 100 200 0 (store ([44, 97, 44, 98] @ [0]) 100 (store ([44] @ [0]) 200 (\<lambda>_. 0))) =
     Some (101, 103, m') \<and> cstr m' 101 [97] \<and> cstr m' 103 [98]"
proof -
  let ?m = "store ([44, 97, 44, 98] @ [0]) 100 (store ([44] @ [0]) 200 (\<lambda>_. 0)) :: mem"
  have "cstr ?m 100 [44, 97, 44, 98]" by (rule cstr_store) simp_all
  moreover have "cstr ?m 200 [44]" by (simp add: cstr_def)
  ultimately show ?thesis
    using strtok_token [of ?m 100 "[44, 97, 44, 98]" 200 "[44]" 0] by auto
qed

end
