(* ===== verification/HashMap.thy ===== *)
theory HashMap
  imports Strings
begin

text \<open>
  The hash map with separate chaining of \<^verbatim>\<open>core/lib/hashmap.c\<close>, with the functions that
  \<^verbatim>\<open>hashmap_init\<close> installs. Entries live at addresses of a heap; a slot is the place of a pointer
  to an entry, in the table or in the \<^verbatim>\<open>next\<close> field of an entry. The addresses that
  \<^verbatim>\<open>malloc\<close> returns are arguments (0 when it fails), the addresses given to \<^verbatim>\<open>free\<close> are a
  result. \<open>None\<close> is a fault: division by a zero size, or the null pointer dereferenced.
\<close>

section \<open>Operations\<close>

record hashmap_entry =
  ekey :: u32
  evalue :: u32
  enext :: addr

record hashmap =
  hsize :: u32
  hentry :: "u32 \<Rightarrow> addr"
  ents :: "addr \<Rightarrow> hashmap_entry"

definition hash_function :: "u32 \<Rightarrow> u32 \<Rightarrow> u32 option" where
  "hash_function key sz =
     (let k = (drop_bit 16 key XOR key) * 0x45d9f3b;
          k = (drop_bit 16 k XOR k) * 0x45d9f3b;
          k = drop_bit 16 k XOR k
      in if sz = 0 then None else Some (key mod sz))"

definition hash_int_compare :: "u32 \<Rightarrow> u32 \<Rightarrow> bool" where
  "hash_int_compare source target \<longleftrightarrow> source = target"

definition hash_string_compare :: "u32 \<Rightarrow> u32 \<Rightarrow> mem \<Rightarrow> bool option" where
  "hash_string_compare source target b = map_option (\<lambda>r. r = 0) (strcmp source target b)"

text \<open>\<open>tbl\<close> and \<open>t\<close> are the addresses of the two allocations; a failed second one is not tested
  and the null pointer is cleared.\<close>

definition hashmap_init :: "u32 \<Rightarrow> addr \<Rightarrow> addr \<Rightarrow> hashmap option option" where
  "hashmap_init sz t tbl =
     (if t = 0 then Some None
      else if tbl = 0 \<and> sz * 4 \<noteq> 0 then None
      else Some (Some \<lparr>hsize = sz, hentry = (\<lambda>_. 0), ents = (\<lambda>_. \<lparr>ekey = 0, evalue = 0, enext = 0\<rparr>)\<rparr>))"

partial_function (option) free_chain :: "hashmap \<Rightarrow> addr \<Rightarrow> addr list \<Rightarrow> addr list option" where
  "free_chain m target freed =
     (if target \<noteq> 0 then free_chain m (enext (ents m target)) (freed @ [target]) else Some freed)"

primrec free_buckets :: "nat \<Rightarrow> hashmap \<Rightarrow> u32 \<Rightarrow> addr list \<Rightarrow> addr list option" where
  "free_buckets 0 m i freed = Some freed"
| "free_buckets (Suc n) m i freed = do {
     freed \<leftarrow> free_chain m (hentry m i) freed;
     free_buckets n m (i + 1) freed
   }"

definition hashmap_free :: "hashmap \<Rightarrow> addr \<Rightarrow> addr \<Rightarrow> addr list option" where
  "hashmap_free m t tbl = (if t = 0 then Some [] else do {
     freed \<leftarrow> free_buckets (if 0 \<le>s hsize m then unat (hsize m) else 0) m 0 [];
     Some (freed @ [tbl, t])
   })"

partial_function (option) chain_end :: "hashmap \<Rightarrow> addr \<Rightarrow> addr option" where
  "chain_end m entry =
     (if enext (ents m entry) \<noteq> 0 then chain_end m (enext (ents m entry)) else Some entry)"

text \<open>\<open>p\<close> is the result of \<open>malloc\<close>. The first result is the returned pointer.\<close>

definition hashmap_set :: "u32 \<Rightarrow> u32 \<Rightarrow> addr \<Rightarrow> hashmap \<Rightarrow> (addr \<times> hashmap) option" where
  "hashmap_set key value p m = do {
     index \<leftarrow> hash_function key (hsize m);
     let entry = hentry m index;
     if entry = 0 then
       if p = 0 then Some (0, m)
       else Some (p, m\<lparr>ents := (ents m)(p := \<lparr>ekey = key, evalue = value, enext = 0\<rparr>),
                       hentry := (hentry m)(index := p)\<rparr>)
     else if p = 0 then None
     else do {
       let m = m\<lparr>ents := (ents m)(p := \<lparr>ekey = key, evalue = value, enext = 0\<rparr>)\<rparr>;
       entry \<leftarrow> chain_end m entry;
       Some (entry, m\<lparr>ents := (ents m)(entry := (ents m entry)\<lparr>enext := p\<rparr>)\<rparr>)
     }
   }"

partial_function (option) find_key :: "hashmap \<Rightarrow> u32 \<Rightarrow> addr \<Rightarrow> addr option" where
  "find_key m key entry =
     (if entry = 0 then Some 0
      else if hash_int_compare key (ekey (ents m entry)) then Some entry
      else find_key m key (enext (ents m entry)))"

definition hashmap_has :: "u32 \<Rightarrow> hashmap \<Rightarrow> bool option" where
  "hashmap_has key m = do {
     index \<leftarrow> hash_function key (hsize m);
     e \<leftarrow> find_key m key (hentry m index);
     Some (e \<noteq> 0)
   }"

primrec empty_buckets :: "nat \<Rightarrow> hashmap \<Rightarrow> u32 \<Rightarrow> bool" where
  "empty_buckets 0 m i = True"
| "empty_buckets (Suc n) m i = (if hentry m i \<noteq> 0 then False else empty_buckets n m (i + 1))"

definition hashmap_is_empty :: "hashmap \<Rightarrow> bool" where
  "hashmap_is_empty m = empty_buckets (if 0 \<le>s hsize m then unat (hsize m) else 0) m 0"

definition hashmap_get :: "u32 \<Rightarrow> hashmap \<Rightarrow> u32 option" where
  "hashmap_get key m = do {
     index \<leftarrow> hash_function key (hsize m);
     let entry = hentry m index;
     if entry \<noteq> 0 then
       if enext (ents m entry) = 0 then Some (evalue (ents m entry))
       else do {
         e \<leftarrow> find_key m key entry;
         Some (if e \<noteq> 0 then evalue (ents m e) else 0)
       }
     else Some 0
   }"

datatype slot = Table u32 | Next addr

definition get_slot :: "slot \<Rightarrow> hashmap \<Rightarrow> addr" where
  "get_slot h m = (case h of Table i \<Rightarrow> hentry m i | Next a \<Rightarrow> enext (ents m a))"

definition put_slot :: "slot \<Rightarrow> addr \<Rightarrow> hashmap \<Rightarrow> hashmap" where
  "put_slot h p m = (case h of Table i \<Rightarrow> m\<lparr>hentry := (hentry m)(i := p)\<rparr>
     | Next a \<Rightarrow> m\<lparr>ents := (ents m)(a := (ents m a)\<lparr>enext := p\<rparr>)\<rparr>)"

text \<open>The results are the return value, the freed entry (0 for none) and the map.\<close>

partial_function (option) remove_loop :: "u32 \<Rightarrow> slot \<Rightarrow> hashmap \<Rightarrow> (u32 \<times> addr \<times> hashmap) option" where
  "remove_loop key head m =
     (if get_slot head m \<noteq> 0 then
        if hash_int_compare key (ekey (ents m (get_slot head m)))
        then Some (0, get_slot head m, put_slot head (enext (ents m (get_slot head m))) m)
        else remove_loop key (Next (get_slot head m)) m
      else Some (-1, 0, m))"

definition hashmap_remove :: "u32 \<Rightarrow> hashmap \<Rightarrow> (u32 \<times> addr \<times> hashmap) option" where
  "hashmap_remove key m = do { index \<leftarrow> hash_function key (hsize m); remove_loop key (Table index) m }"

definition hashmap_update :: "u32 \<Rightarrow> u32 \<Rightarrow> hashmap \<Rightarrow> hashmap option" where
  "hashmap_update key value m = do {
     index \<leftarrow> hash_function key (hsize m);
     e \<leftarrow> find_key m key (hentry m index);
     Some (if e \<noteq> 0 then m\<lparr>ents := (ents m)(e := (ents m e)\<lparr>evalue := value\<rparr>)\<rparr> else m)
   }"

section \<open>Chains\<close>

primrec chain :: "(addr \<Rightarrow> hashmap_entry) \<Rightarrow> addr \<Rightarrow> addr list \<Rightarrow> bool" where
  "chain h p [] \<longleftrightarrow> p = 0"
| "chain h p (x # xs) \<longleftrightarrow> p = x \<and> x \<noteq> 0 \<and> chain h (enext (h x)) xs"

lemma chain_cong: "(\<And>x. x \<in> set xs \<Longrightarrow> enext (h' x) = enext (h x)) \<Longrightarrow> chain h' p xs = chain h p xs"
  by (induction xs arbitrary: p) auto

lemma chain_nonzero: "chain h p xs \<Longrightarrow> 0 \<notin> set xs"
  by (induction xs arbitrary: p) auto

lemma chain_append: "chain h p (xs @ q # zs) \<Longrightarrow> h' q = (h q)\<lparr>enext := r\<rparr> \<Longrightarrow> q \<notin> set xs \<Longrightarrow>
    (\<And>x. x \<in> set xs \<Longrightarrow> enext (h' x) = enext (h x)) \<Longrightarrow> chain h' r ys \<Longrightarrow> chain h' p (xs @ q # ys)"
  by (induction xs arbitrary: p) auto

lemma chain_suffix: "chain h p (xs @ ys) \<Longrightarrow> \<exists>q. chain h q ys \<and> (xs = [] \<longrightarrow> q = p) \<and> (xs \<noteq> [] \<longrightarrow> q = enext (h (last xs)))"
proof (induction xs arbitrary: p)
  case (Cons x xs)
  then show ?case by (cases xs) fastforce+
qed simp

lemma chain_end_chain: "chain (ents m) p (xs @ [q]) \<Longrightarrow> chain_end m p = Some q"
proof (induction xs arbitrary: p)
  case Nil
  then show ?case by (subst chain_end.simps) simp
next
  case (Cons x xs)
  then have "enext (ents m p) \<noteq> 0" by (cases xs) auto
  then show ?case using Cons by (subst chain_end.simps) auto
qed

text \<open>The first entry of the chain with the key.\<close>

lemma find_key_chain:
  "chain (ents m) p xs \<Longrightarrow>
   find_key m k p = Some (case dropWhile (\<lambda>x. ekey (ents m x) \<noteq> k) xs of [] \<Rightarrow> 0 | x # _ \<Rightarrow> x)"
  by (induction xs arbitrary: p) (subst find_key.simps, auto simp: hash_int_compare_def)+

section \<open>Buckets\<close>

definition kv :: "hashmap \<Rightarrow> addr \<Rightarrow> u32 \<times> u32" where
  "kv m x = (ekey (ents m x), evalue (ents m x))"

text \<open>\<open>hm_ok m L\<close>: the entries of bucket \<open>i\<close> are at the addresses \<open>L i\<close>, in order, and no entry is
  in two places.\<close>

definition hm_ok :: "hashmap \<Rightarrow> (u32 \<Rightarrow> addr list) \<Rightarrow> bool" where
  "hm_ok m L \<longleftrightarrow> hsize m \<noteq> 0 \<and> (\<forall>i. chain (ents m) (hentry m i) (L i) \<and> distinct (L i)) \<and>
     (\<forall>i j. i \<noteq> j \<longrightarrow> set (L i) \<inter> set (L j) = {})"

definition bucket :: "hashmap \<Rightarrow> (u32 \<Rightarrow> addr list) \<Rightarrow> u32 \<Rightarrow> (u32 \<times> u32) list" where
  "bucket m L i = map (kv m) (L i)"

definition hash :: "hashmap \<Rightarrow> u32 \<Rightarrow> u32" where
  "hash m k = k mod hsize m"

lemma hash_function_eq: "hm_ok m L \<Longrightarrow> hash_function k (hsize m) = Some (hash m k)"
  by (simp add: hash_function_def hash_def hm_ok_def Let_def)

lemma hm_okD:
  assumes "hm_ok m L"
  shows "chain (ents m) (hentry m i) (L i)" and "distinct (L i)" and "x \<in> set (L i) \<Longrightarrow> x \<noteq> 0"
    and "i \<noteq> j \<Longrightarrow> set (L i) \<inter> set (L j) = {}"
  using assms chain_nonzero by (auto simp: hm_ok_def)

lemma hm_ok_upd:
  assumes "hm_ok m L" and "hsize m' = hsize m" and "chain (ents m') (hentry m' i) ys" and "distinct ys"
    and "\<And>j. j \<noteq> i \<Longrightarrow> chain (ents m') (hentry m' j) (L j)" and "\<And>j. j \<noteq> i \<Longrightarrow> set ys \<inter> set (L j) = {}"
  shows "hm_ok m' (L(i := ys))"
  using assms unfolding hm_ok_def by (auto simp del: disjoint_iff)

lemma bucket_upd:
  assumes "\<And>j x. j \<noteq> i \<Longrightarrow> x \<in> set (L j) \<Longrightarrow> kv m' x = kv m x" and "map (kv m') ys = b"
  shows "bucket m' (L(i := ys)) = (bucket m L)(i := b)"
  using assms by (auto simp: bucket_def fun_eq_iff)

lemma bucket_cong: "(\<And>x. x \<in> set (L i) \<Longrightarrow> kv m' x = kv m x) \<Longrightarrow> bucket m' L i = bucket m L i"
  by (simp add: bucket_def)

lemma hashmap_set_ok:
  assumes ok: "hm_ok m L" and p: "p \<noteq> 0" "\<And>i. p \<notin> set (L i)"
  shows "\<exists>r m'. hashmap_set k v p m = Some (r, m') \<and> r \<noteq> 0 \<and> hsize m' = hsize m \<and>
    hm_ok m' (L(hash m k := L (hash m k) @ [p])) \<and>
    bucket m' (L(hash m k := L (hash m k) @ [p])) = (bucket m L)(hash m k := bucket m L (hash m k) @ [(k, v)])"
proof -
  let ?i = "hash m k" and ?e = "\<lparr>ekey = k, evalue = v, enext = 0\<rparr>"
  let ?h = "(ents m)(p := ?e)"
  note c = hm_okD [OF ok]
  have ch: "chain ?h (hentry m i) (L i)" for i
    using c(1) p(2) by (subst chain_cong [of _ _ "ents m"]) auto
  show ?thesis
  proof (cases "hentry m ?i = 0")
    case True
    then have L: "L ?i = []" using c(1) [of ?i] by (cases "L ?i") auto
    let ?m = "m\<lparr>ents := ?h, hentry := (hentry m)(?i := p)\<rparr>"
    have "hashmap_set k v p m = Some (p, ?m)"
      using True p hash_function_eq [OF ok] by (simp add: hashmap_set_def)
    moreover have "hm_ok ?m (L(?i := L ?i @ [p]))"
      using ch p by (intro hm_ok_upd [OF ok]) (simp_all add: L)
    moreover have "bucket ?m (L(?i := L ?i @ [p])) = (bucket m L)(?i := bucket m L ?i @ [(k, v)])"
      by (rule bucket_upd) (use p(2) in \<open>auto simp: L bucket_def kv_def\<close>)
    ultimately show ?thesis using p(1) by (intro exI [of _ p] exI [of _ ?m]) simp
  next
    case False
    then obtain xs q where L: "L ?i = xs @ [q]" using c(1) [of ?i] by (cases "L ?i" rule: rev_cases) auto
    have q: "q \<noteq> 0" "q \<noteq> p" "q \<notin> set xs"
      using c(2) [of ?i] c(3) [of q ?i] p(2) [of ?i] by (auto simp: L)
    let ?h2 = "?h(q := (?h q)\<lparr>enext := p\<rparr>)" and ?m = "m\<lparr>ents := ?h\<rparr>"
    have "chain_end ?m (hentry m ?i) = Some q" using ch [of ?i] by (intro chain_end_chain) (simp add: L)
    then have s: "hashmap_set k v p m = Some (q, m\<lparr>ents := ?h2\<rparr>)"
      using False p(1) hash_function_eq [OF ok] by (simp add: hashmap_set_def Let_def)
    have "chain ?h2 (hentry m ?i) (xs @ q # [p])"
    proof (rule chain_append [of ?h])
      show "chain ?h (hentry m ?i) (xs @ [q])" using ch [of ?i] by (simp only: L)
      show "enext (?h2 x) = enext (?h x)" if "x \<in> set xs" for x using that q(3) by auto
      show "chain ?h2 p [p]" using p(1) q(2) by simp
    qed (use q(3) in simp_all)
    moreover have "chain ?h2 (hentry m i) (L i)" if "i \<noteq> ?i" for i
    proof -
      have "q \<notin> set (L i)" using c(4) [OF that] L by auto
      then show ?thesis using ch [of i] by (subst chain_cong [of _ _ ?h]) auto
    qed
    ultimately have "hm_ok (m\<lparr>ents := ?h2\<rparr>) (L(?i := L ?i @ [p]))"
      using c(2) [of ?i] c(4) [of ?i] p(2) p(2) [of ?i] q(2) by (intro hm_ok_upd [OF ok]) (simp_all add: L)
    moreover have k: "kv (m\<lparr>ents := ?h2\<rparr>) x = kv m x" if "x \<noteq> p" for x using that by (simp add: kv_def)
    have "bucket (m\<lparr>ents := ?h2\<rparr>) (L(?i := L ?i @ [p])) = (bucket m L)(?i := bucket m L ?i @ [(k, v)])"
    proof (rule bucket_upd)
      show "map (kv (m\<lparr>ents := ?h2\<rparr>)) (L ?i @ [p]) = bucket m L ?i @ [(k, v)]"
        using k p(2) [of ?i] q(2) by (auto simp: bucket_def kv_def)
      show "kv (m\<lparr>ents := ?h2\<rparr>) x = kv m x" if "j \<noteq> ?i" "x \<in> set (L j)" for j x
        using that(2) p(2) [of j] by (intro k) auto
    qed
    ultimately show ?thesis using s q(1) by (intro exI [of _ q] exI [of _ "m\<lparr>ents := ?h2\<rparr>"]) simp
  qed
qed

lemma find_key_bucket:
  assumes ok: "hm_ok m L"
  shows "\<exists>e. find_key m k (hentry m i) = Some e \<and>
    (if map_of (bucket m L i) k = None then e = 0
     else e \<in> set (L i) \<and> ekey (ents m e) = k \<and> map_of (bucket m L i) k = Some (evalue (ents m e)))"
proof -
  have f: "find_key m k (hentry m i) = Some (case dropWhile (\<lambda>x. ekey (ents m x) \<noteq> k) (L i) of [] \<Rightarrow> 0 | x # _ \<Rightarrow> x)"
    by (rule find_key_chain [OF hm_okD(1) [OF ok]])
  have "(case dropWhile (\<lambda>x. ekey (ents m x) \<noteq> k) xs of [] \<Rightarrow> map_of (map (kv m) xs) k = None
      | x # _ \<Rightarrow> x \<in> set xs \<and> ekey (ents m x) = k \<and> map_of (map (kv m) xs) k = Some (evalue (ents m x)))" for xs
  proof (induction xs)
    case (Cons x xs)
    show ?case
    proof (cases "ekey (ents m x) = k")
      case False
      then show ?thesis
        using Cons by (cases "dropWhile (\<lambda>x. ekey (ents m x) \<noteq> k) xs") (simp_all add: kv_def [abs_def] del: dropWhile_eq_Nil_conv)
    qed (simp add: kv_def)
  qed simp
  from this [of "L i"] show ?thesis unfolding f bucket_def
    by (cases "dropWhile (\<lambda>x. ekey (ents m x) \<noteq> k) (L i)") (simp_all del: dropWhile_eq_Nil_conv)
qed

lemma hashmap_has_ok: "hm_ok m L \<Longrightarrow> hashmap_has k m = Some (map_of (bucket m L (hash m k)) k \<noteq> None)"
  using find_key_bucket [of m L k "hash m k"] hash_function_eq [of m L k] hm_okD(3)
  by (fastforce simp: hashmap_has_def split: if_splits)

lemma hashmap_get_ok:
  assumes ok: "hm_ok m L"
  shows "hashmap_get k m = Some (case bucket m L (hash m k) of [] \<Rightarrow> 0 | [(k', v)] \<Rightarrow> v
    | b \<Rightarrow> (case map_of b k of None \<Rightarrow> 0 | Some v \<Rightarrow> v))"
proof -
  let ?i = "hash m k"
  note c = hm_okD(1) [OF ok, of ?i] hm_okD(2) [OF ok, of ?i] hm_okD(3) [OF ok, of _ ?i]
  note h = hash_function_eq [OF ok, of k]
  obtain e where e: "find_key m k (hentry m ?i) = Some e"
    "if map_of (bucket m L ?i) k = None then e = 0
     else e \<in> set (L ?i) \<and> ekey (ents m e) = k \<and> map_of (bucket m L ?i) k = Some (evalue (ents m e))"
    using find_key_bucket [OF ok] by blast
  show ?thesis
  proof (cases "L ?i")
    case Nil
    then show ?thesis using c(1) h by (simp add: hashmap_get_def bucket_def)
  next
    case x: (Cons x xs)
    then have xe: "hentry m ?i = x" "x \<noteq> 0" using c(1) by simp_all
    show ?thesis
    proof (cases xs)
      case Nil
      then show ?thesis using c(1) h x xe by (simp add: hashmap_get_def bucket_def kv_def)
    next
      case (Cons y ys)
      then have "enext (ents m x) \<noteq> 0" using c(1) x by auto
      then have "hashmap_get k m = Some (if e \<noteq> 0 then evalue (ents m e) else 0)"
        using e(1) h xe by (simp add: hashmap_get_def)
      moreover have "(if e \<noteq> 0 then evalue (ents m e) else 0) =
          (case map_of (bucket m L ?i) k of None \<Rightarrow> 0 | Some v \<Rightarrow> v)"
        using e(2) c(3) [of e] by (auto split: if_splits)
      moreover obtain b1 b2 bs where "bucket m L ?i = b1 # b2 # bs" using x Cons by (simp add: bucket_def)
      ultimately show ?thesis by (simp split: prod.splits)
    qed
  qed
qed

definition slot_before :: "slot \<Rightarrow> addr list \<Rightarrow> slot" where
  "slot_before h xs = (if xs = [] then h else Next (last xs))"

lemma remove_loop_chain:
  "chain (ents m) (get_slot h m) (xs @ zs) \<Longrightarrow> \<forall>x \<in> set xs. ekey (ents m x) \<noteq> k \<Longrightarrow>
   (case zs of [] \<Rightarrow> True | x # _ \<Rightarrow> ekey (ents m x) = k) \<Longrightarrow>
   remove_loop k h m = Some (case zs of [] \<Rightarrow> (-1, 0, m)
     | x # ys \<Rightarrow> (0, x, put_slot (slot_before h xs) (enext (ents m x)) m))"
proof (induction xs arbitrary: h)
  case Nil
  then show ?case by (subst remove_loop.simps) (auto simp: hash_int_compare_def slot_before_def split: list.splits)
next
  case (Cons x xs)
  then have "remove_loop k h m = remove_loop k (Next x) m"
    by (subst remove_loop.simps) (auto simp: hash_int_compare_def)
  moreover have "get_slot (Next x) m = enext (ents m x)" by (simp add: get_slot_def)
  ultimately show ?case using Cons by (simp add: slot_before_def split: list.splits)
qed

lemma hashmap_remove_ok:
  assumes ok: "hm_ok m L" and L: "L (hash m k) = xs @ x # ys" and k: "ekey (ents m x) = k"
    "\<forall>y \<in> set xs. ekey (ents m y) \<noteq> k"
  shows "\<exists>m'. hashmap_remove k m = Some (0, x, m') \<and> hm_ok m' (L(hash m k := xs @ ys)) \<and>
    bucket m' (L(hash m k := xs @ ys)) = (bucket m L)(hash m k := map (kv m) (xs @ ys))"
proof -
  let ?i = "hash m k"
  note c = hm_okD [OF ok]
  have ch: "chain (ents m) (hentry m ?i) (xs @ x # ys)" using c(1) [of ?i] by (simp add: L)
  have d: "distinct (xs @ x # ys)" using c(2) [of ?i] by (simp add: L)
  let ?m = "put_slot (slot_before (Table ?i) xs) (enext (ents m x)) m"
  have r: "hashmap_remove k m = Some (0, x, ?m)"
    using remove_loop_chain [of m "Table ?i" xs "x # ys" k] ch k hash_function_eq [OF ok]
    by (simp add: hashmap_remove_def get_slot_def)
  have kv: "kv ?m y = kv m y" for y by (simp add: put_slot_def slot_before_def kv_def split: slot.splits)
  have size: "hsize ?m = hsize m" by (simp add: put_slot_def split: slot.splits)
  have tail: "chain (ents m) (enext (ents m x)) ys" using chain_suffix [OF ch] by auto
  have "hm_ok ?m (L(?i := xs @ ys))"
  proof (cases xs rule: rev_cases)
    case Nil
    then show ?thesis using c(1,4) c(4) [of ?i] d tail
      by (intro hm_ok_upd [OF ok size]) (auto simp: put_slot_def slot_before_def L)
  next
    case (snoc us q)
    let ?h = "(ents m)(q := (ents m q)\<lparr>enext := enext (ents m x)\<rparr>)"
    have m': "?m = m\<lparr>ents := ?h\<rparr>" by (simp add: snoc put_slot_def slot_before_def)
    have "chain ?h (hentry m ?i) (us @ q # ys)"
    proof (rule chain_append [of "ents m"])
      show "chain (ents m) (hentry m ?i) (us @ q # x # ys)" using ch by (simp add: snoc)
      have "chain ?h (enext (ents m x)) ys = chain (ents m) (enext (ents m x)) ys"
        by (rule chain_cong) (use d snoc in auto)
      then show "chain ?h (enext (ents m x)) ys" using tail by simp
      show "enext (?h y) = enext (ents m y)" if "y \<in> set us" for y using that d by (auto simp: snoc)
    qed (use d snoc in auto)
    moreover have "chain ?h (hentry m j) (L j)" if "j \<noteq> ?i" for j
    proof -
      have "q \<notin> set (L j)" using c(4) [OF that] by (auto simp: L snoc)
      then have "chain ?h (hentry m j) (L j) = chain (ents m) (hentry m j) (L j)" by (intro chain_cong) auto
      then show ?thesis using c(1) by simp
    qed
    ultimately show ?thesis
      unfolding m' using d c(4) [of ?i] by (intro hm_ok_upd [OF ok]) (auto simp: snoc L)
  qed
  moreover have "bucket ?m (L(?i := xs @ ys)) = (bucket m L)(?i := map (kv m) (xs @ ys))"
    by (rule bucket_upd) (simp_all add: kv)
  ultimately show ?thesis using r by blast
qed

section \<open>Theorems\<close>

text \<open>C33. The map keeps one list of pairs per bucket: in a well-formed map, \<open>hashmap_set\<close> with fresh
  memory appends the pair to the list of its bucket, \<open>hashmap_has\<close> tells whether the key occurs, and
  \<open>hashmap_remove\<close> takes out the first pair with the key and frees its entry. Each returns, leaves the
  other buckets alone and the map well-formed.\<close>

theorem hashmap_refines_buckets:
  assumes "hm_ok m L" and "p \<noteq> 0" and "\<forall>i. p \<notin> set (L i)"
  shows "(\<exists>r m' L'. hashmap_set k v p m = Some (r, m') \<and> hm_ok m' L' \<and> hash m' = hash m \<and>
      bucket m' L' = (bucket m L)(hash m k := bucket m L (hash m k) @ [(k, v)])) \<and>
    hashmap_has k m = Some (k \<in> fst ` set (bucket m L (hash m k))) \<and>
    (\<forall>bs v' cs. bucket m L (hash m k) = bs @ (k, v') # cs \<and> k \<notin> fst ` set bs \<longrightarrow>
      (\<exists>x m' L'. hashmap_remove k m = Some (0, x, m') \<and> x \<in> set (L (hash m k)) \<and> hm_ok m' L' \<and>
        bucket m' L' = (bucket m L)(hash m k := bs @ cs)))"
proof (intro conjI allI impI)
  let ?i = "hash m k"
  obtain r m' where s: "hashmap_set k v p m = Some (r, m')" "hsize m' = hsize m"
    "hm_ok m' (L(?i := L ?i @ [p]))"
    "bucket m' (L(?i := L ?i @ [p])) = (bucket m L)(?i := bucket m L ?i @ [(k, v)])"
    using hashmap_set_ok [OF assms(1,2), of k v] assms(3) by auto
  then show "\<exists>r m' L'. hashmap_set k v p m = Some (r, m') \<and> hm_ok m' L' \<and> hash m' = hash m \<and>
      bucket m' L' = (bucket m L)(?i := bucket m L ?i @ [(k, v)])"
    by (intro exI [of _ r] exI [of _ m'] exI [of _ "L(?i := L ?i @ [p])"]) (simp add: hash_def fun_eq_iff)
  show "hashmap_has k m = Some (k \<in> fst ` set (bucket m L ?i))"
    using hashmap_has_ok [OF assms(1)] by (simp add: map_of_eq_None_iff)
next
  let ?i = "hash m k"
  fix bs v' cs
  assume b: "bucket m L ?i = bs @ (k, v') # cs \<and> k \<notin> fst ` set bs"
  then obtain xs x ys where L: "L ?i = xs @ x # ys" "map (kv m) xs = bs" "kv m x = (k, v')" "map (kv m) ys = cs"
    by (auto simp: bucket_def map_eq_append_conv map_eq_Cons_conv)
  have "ekey (ents m x) = k" "\<forall>y \<in> set xs. ekey (ents m y) \<noteq> k"
    using L(2,3) b by (force simp: kv_def image_iff)+
  from hashmap_remove_ok [OF assms(1) L(1) this] obtain m' where "hashmap_remove k m = Some (0, x, m')"
    "hm_ok m' (L(?i := xs @ ys))" "bucket m' (L(?i := xs @ ys)) = (bucket m L)(?i := map (kv m) (xs @ ys))"
    by blast
  then show "\<exists>x m' L'. hashmap_remove k m = Some (0, x, m') \<and> x \<in> set (L ?i) \<and> hm_ok m' L' \<and>
      bucket m' L' = (bucket m L)(?i := bs @ cs)"
    using L by (intro exI [of _ x] exI [of _ m'] exI [of _ "L(?i := xs @ ys)"]) simp
qed

text \<open>A fresh map with 8 buckets.\<close>

definition sample_map :: hashmap where
  "sample_map = \<lparr>hsize = 8, hentry = (\<lambda>_. 0), ents = (\<lambda>_. \<lparr>ekey = 0, evalue = 0, enext = 0\<rparr>)\<rparr>"

lemma sample_map_ok: "hashmap_init 8 0x1000 0x2000 = Some (Some sample_map)" "hm_ok sample_map (\<lambda>_. [])"
  by (simp_all add: hashmap_init_def sample_map_def hm_ok_def)

theorem hashmap_refines_buckets_witness:
  "\<exists>r m' L'. hashmap_set 11 5 0x3000 sample_map = Some (r, m') \<and> hm_ok m' L' \<and> bucket m' L' 3 = [(11, 5)] \<and>
     hashmap_has 11 sample_map = Some False"
proof -
  have "hash sample_map 11 = 3" by (simp add: hash_def sample_map_def)
  then show ?thesis
    using hashmap_refines_buckets [OF sample_map_ok(2), of "0x3000" 11 5]
    by (fastforce simp: bucket_def [of sample_map])
qed

text \<open>\<open>hashmap_get\<close> finds the first value of the key in a bucket with two or more entries, and
  returns 0 for an empty bucket. In a bucket with exactly one entry the key is not compared: the
  value of that entry is returned for every key of the bucket.\<close>

theorem hashmap_get_result:
  assumes "hm_ok m L"
  shows "hashmap_get k m = Some (case bucket m L (hash m k) of [] \<Rightarrow> 0 | [(k', v)] \<Rightarrow> v
    | b \<Rightarrow> (case map_of b k of None \<Rightarrow> 0 | Some v \<Rightarrow> v))"
  by (rule hashmap_get_ok [OF assms])

text \<open>The key 19 was never set, but shares its bucket with the key 11.\<close>

theorem hashmap_get_result_witness:
  "\<exists>r m. hashmap_set 11 5 0x3000 sample_map = Some (r, m) \<and> hashmap_get 19 m = Some 5"
proof -
  have h: "hash sample_map 11 = 3" by (simp add: hash_def sample_map_def)
  obtain r m where s: "hashmap_set 11 5 0x3000 sample_map = Some (r, m)" "hsize m = hsize sample_map"
    "hm_ok m ((\<lambda>_. [])(3 := [0x3000]))" "bucket m ((\<lambda>_. [])(3 := [0x3000])) 3 = [(11, 5)]"
    using hashmap_set_ok [OF sample_map_ok(2), of "0x3000" 11 5] by (auto simp: h bucket_def [of sample_map])
  have "hash m 19 = 3" using s(2) by (simp add: hash_def sample_map_def)
  then show ?thesis using s hashmap_get_result [OF s(3), of 19] by auto
qed

end
