(* ===== verification/Stdio.thy ===== *)
theory Stdio
  imports Prelude
begin

text \<open>
  Number and format output: \<^verbatim>\<open>itoa\<close> (\<^verbatim>\<open>core/lib/oslib.c\<close>) and the functions of
  \<^verbatim>\<open>core/libc/stdio.c\<close>. Text is a list of bytes, the variable arguments are a list of values;
  \<open>None\<close> is undefined behaviour of the C code: a write or read outside a local array, a division by
  zero, an argument that is missing or of another kind.
\<close>

section \<open>itoa\<close>

definition itoa_char :: "u32 \<Rightarrow> u8" where
  "itoa_char i = (if i < 10 then ucast i + 0x30 else ucast i + 0x61 - 10)"

text \<open>The loop that fills \<open>tmp\<close>; \<open>room\<close> is the number of bytes left in the array.\<close>

primrec itoa_loop :: "nat \<Rightarrow> u32 \<Rightarrow> u32 \<Rightarrow> u8 list \<Rightarrow> u8 list option" where
  "itoa_loop 0 radix v tmp = (if v \<noteq> 0 \<or> tmp = [] then None else Some tmp)"
| "itoa_loop (Suc room) radix v tmp =
     (if v \<noteq> 0 \<or> tmp = [] then
        if radix = 0 then None
        else itoa_loop room radix (v div radix) (tmp @ [itoa_char (v mod radix)])
      else Some tmp)"

text \<open>The bytes written at \<open>sp\<close>; the returned length is their number. No terminator is written.\<close>

definition itoa :: "u32 \<Rightarrow> u32 \<Rightarrow> u8 list option" where
  "itoa value radix =
     (let sign = (radix = 10 \<and> value <s 0);
          v = (if sign then - value else value)
      in do { tmp \<leftarrow> itoa_loop 16 radix v []; Some ((if sign then [0x2d] else []) @ rev tmp) })"

section \<open>Formatted output\<close>

datatype vararg = VStr "u8 list option" | VInt u32

text \<open>
  \<open>itoa\<close> into a zeroed array of 10 bytes and the loop that reads the array up to a zero byte: with
  10 bytes or more it leaves the array.
\<close>

definition number_text :: "u32 \<Rightarrow> u32 \<Rightarrow> u8 list option" where
  "number_text d radix = do { t \<leftarrow> itoa d radix; if length t < 10 then Some t else None }"

text \<open>\<open>PUT\<close> on every byte of a text.\<close>

definition put_all :: "(u8 \<Rightarrow> 'st \<Rightarrow> 'st) \<Rightarrow> u8 list \<Rightarrow> 'st \<Rightarrow> 'st" where
  "put_all put_fn t st = fold put_fn t st"

text \<open>The text \<open>(null)\<close>.\<close>

definition null_text :: "u8 list" where
  "null_text = [0x28, 0x6e, 0x75, 0x6c, 0x6c, 0x29]"

text \<open>One conversion of \<open>lvasprintf\<close>: the text it emits and the remaining arguments.\<close>

definition lvas_conv :: "u8 \<Rightarrow> vararg list \<Rightarrow> (u8 list \<times> vararg list) option" where
  "lvas_conv c ap =
     (if c = 0x73 then (case ap of VStr s # ap' \<Rightarrow> Some (case s of None \<Rightarrow> null_text | Some t \<Rightarrow> t, ap') | _ \<Rightarrow> None)
      else if c = 0x64 then (case ap of VInt d # ap' \<Rightarrow> map_option (\<lambda>t. (t, ap')) (number_text d 10) | _ \<Rightarrow> None)
      else if c = 0x78 then (case ap of VInt d # ap' \<Rightarrow> map_option (\<lambda>t. (t, ap')) (number_text d 16) | _ \<Rightarrow> None)
      else if c = 0x63 then (case ap of VInt d # ap' \<Rightarrow> Some ([ucast d], ap') | _ \<Rightarrow> None)
      else Some ([c], ap))"

text \<open>The loop of \<open>lvasprintf\<close>: the sink's state and \<open>res_len\<close>.\<close>

primrec lvasprintf_loop :: "(u8 \<Rightarrow> 'st \<Rightarrow> 'st) \<Rightarrow> u8 list \<Rightarrow> bool \<Rightarrow> vararg list \<Rightarrow> u32 \<Rightarrow> 'st \<Rightarrow> (u32 \<times> 'st) option" where
  "lvasprintf_loop put_fn [] seen_mark ap res_len st = Some (res_len, st)"
| "lvasprintf_loop put_fn (c # fmt) seen_mark ap res_len st =
     (if c = 0x25 \<and> \<not> seen_mark then lvasprintf_loop put_fn fmt True ap res_len st
      else if seen_mark then do {
        (t, ap) \<leftarrow> lvas_conv c ap;
        lvasprintf_loop put_fn fmt False ap (res_len + of_nat (length t)) (put_all put_fn t st)
      }
      else lvasprintf_loop put_fn fmt False ap (res_len + 1) (put_fn c st))"

definition lvasprintf :: "(u8 \<Rightarrow> 'st \<Rightarrow> 'st) \<Rightarrow> 'st \<Rightarrow> u8 list \<Rightarrow> vararg list \<Rightarrow> (u32 \<times> 'st) option" where
  "lvasprintf put_fn userData fmt ap = lvasprintf_loop put_fn fmt False ap 0 userData"

text \<open>The sinks: the bytes written to descriptor 1 (each by one call of \<open>write\<close>), and a buffer.\<close>

definition print_to_stdout :: "u8 \<Rightarrow> u8 list list \<Rightarrow> u8 list list" where
  "print_to_stdout c writes = writes @ [[c]]"

record STR_DATA =
  str :: "nat \<Rightarrow> u8"
  len :: u32
  written :: u32

definition print_to_buf :: "u8 \<Rightarrow> STR_DATA \<Rightarrow> STR_DATA" where
  "print_to_buf c user_data =
     (if written user_data < len user_data
      then user_data\<lparr>str := (str user_data)(unat (written user_data) := c), written := written user_data + 1\<rparr>
      else user_data)"

definition lprintf :: "(u8 \<Rightarrow> 'st \<Rightarrow> 'st) \<Rightarrow> 'st \<Rightarrow> u8 list \<Rightarrow> vararg list \<Rightarrow> (u32 \<times> 'st) option" where
  "lprintf callback st fmt args = lvasprintf callback st fmt args"

definition lsprintf :: "(u8 \<Rightarrow> STR_DATA \<Rightarrow> STR_DATA) \<Rightarrow> (nat \<Rightarrow> u8) \<Rightarrow> u8 list \<Rightarrow> vararg list \<Rightarrow> (u32 \<times> (nat \<Rightarrow> u8)) option" where
  "lsprintf callback s fmt args =
     map_option (\<lambda>(l, d). (l, str d)) (lvasprintf callback \<lparr>str = s, len = 1024, written = 0\<rparr> fmt args)"

definition vsprintf :: "(nat \<Rightarrow> u8) \<Rightarrow> u8 list \<Rightarrow> vararg list \<Rightarrow> (u32 \<times> (nat \<Rightarrow> u8)) option" where
  "vsprintf s fmt ap =
     map_option (\<lambda>(l, d). (l, str d)) (lvasprintf print_to_buf \<lparr>str = s, len = 1024, written = 0\<rparr> fmt ap)"

definition printf :: "u8 list \<Rightarrow> vararg list \<Rightarrow> (u32 \<times> u8 list list) option" where
  "printf fmt args = lvasprintf print_to_stdout [] fmt args"

section \<open>sprintf\<close>

text \<open>
  \<open>mvsprintf\<close> appends at \<open>res\<close>; the model is the text from \<open>str\<close> up to \<open>res\<close>. A null argument of
  \<open>%s\<close> is read at address 0. A number of 10 bytes fills the array; 11 bytes leave it.
\<close>

definition mvs_conv :: "u8 \<Rightarrow> vararg list \<Rightarrow> (u8 list \<times> vararg list) option" where
  "mvs_conv c ap =
     (let number = (\<lambda>radix. case ap of
          VInt d # ap' \<Rightarrow> do { t \<leftarrow> itoa d radix; if length t \<le> 10 then Some (t, ap') else None } | _ \<Rightarrow> None)
      in if c = 0x73 then (case ap of VStr (Some t) # ap' \<Rightarrow> Some (t, ap') | _ \<Rightarrow> None)
      else if c = 0x64 then number 10
      else if c = 0x78 then number 16
      else if c = 0x63 then (case ap of VInt d # ap' \<Rightarrow> Some ([ucast d], ap') | _ \<Rightarrow> None)
      else Some ([c], ap))"

primrec mvsprintf_loop :: "u8 list \<Rightarrow> bool \<Rightarrow> vararg list \<Rightarrow> u8 list \<Rightarrow> u8 list option" where
  "mvsprintf_loop [] seen_mark ap res = Some res"
| "mvsprintf_loop (c # fmt) seen_mark ap res =
     (if c = 0x25 \<and> \<not> seen_mark then mvsprintf_loop fmt True ap res
      else if seen_mark then do {
        (t, ap) \<leftarrow> mvs_conv c ap;
        mvsprintf_loop fmt False ap (res @ t)
      }
      else mvsprintf_loop fmt False ap (res @ [c]))"

text \<open>The bytes written at \<open>str\<close>, the terminator included, and the length \<open>strlen\<close> finds.\<close>

definition mvsprintf :: "u8 list \<Rightarrow> vararg list \<Rightarrow> (u32 \<times> u8 list) option" where
  "mvsprintf fmt ap = do {
     res \<leftarrow> mvsprintf_loop fmt False ap [];
     Some (of_nat (length (takeWhile (\<lambda>c. c \<noteq> 0) res)), res @ [0])
   }"

definition sprintf :: "u8 list \<Rightarrow> vararg list \<Rightarrow> (u32 \<times> u8 list) option" where
  "sprintf fmt args = mvsprintf fmt args"

section \<open>Numbers\<close>

definition digit_value :: "u8 \<Rightarrow> nat" where
  "digit_value c = (if c < 0x3a then unat c - 0x30 else unat c - 0x57)"

text \<open>The value of a digit text, least significant digit first.\<close>

primrec lsb_value :: "nat \<Rightarrow> u8 list \<Rightarrow> nat" where
  "lsb_value r [] = 0"
| "lsb_value r (c # cs) = digit_value c + r * lsb_value r cs"

definition parse_int :: "nat \<Rightarrow> u8 list \<Rightarrow> int" where
  "parse_int r t = (if t \<noteq> [] \<and> hd t = 0x2d then - int (lsb_value r (rev (tl t))) else int (lsb_value r (rev t)))"

lemma unat_ucast_8: "unat i < 256 \<Longrightarrow> unat (ucast (i :: u32) :: u8) = unat i"
  by (simp add: unsigned_ucast_eq unsigned_take_bit_eq take_bit_nat_eq_self)

lemma itoa_char_value:
  assumes "unat i < 36"
  shows "digit_value (itoa_char i) = unat i" and "itoa_char i \<noteq> 0x2d" and "itoa_char i \<noteq> 0"
proof -
  note u = unat_ucast_8 [of i]
  have "digit_value (itoa_char i) = unat i \<and> itoa_char i \<noteq> 0x2d \<and> itoa_char i \<noteq> 0"
  proof (cases "i < 10")
    case True
    then have "unat i < 10" by (simp add: word_less_nat_alt)
    then have "unat (itoa_char i) = unat i + 48" using True u
      by (simp add: itoa_char_def unat_add_lem [THEN iffD1])
    then show ?thesis
      using \<open>unat i < 10\<close> by (auto simp: digit_value_def word_less_nat_alt)
  next
    case False
    then have "10 \<le> unat i" by (simp add: word_less_nat_alt)
    have "itoa_char i = ucast i + 0x57" using False by (simp add: itoa_char_def)
    then have "unat (itoa_char i) = unat i + 87" using assms u
      by (simp add: unat_add_lem [THEN iffD1])
    then show ?thesis
      using \<open>10 \<le> unat i\<close> by (auto simp: digit_value_def word_less_nat_alt)
  qed
  then show "digit_value (itoa_char i) = unat i" "itoa_char i \<noteq> 0x2d" "itoa_char i \<noteq> 0" by simp_all
qed

lemma itoa_loop_digits:
  assumes "unat v < unat r ^ room" and "v \<noteq> 0 \<or> tmp = []" and "0 < room" and "2 \<le> unat r" and "unat r \<le> 36"
  shows "\<exists>ds. itoa_loop room r v tmp = Some (tmp @ ds) \<and> lsb_value (unat r) ds = unat v \<and> ds \<noteq> [] \<and>
    length ds \<le> room \<and> 0x2d \<notin> set ds \<and> 0 \<notin> set ds \<and> (\<forall>c \<in> set ds. digit_value c < unat r)"
  using assms(1-3)
proof (induction room arbitrary: v tmp)
  case (Suc room)
  let ?c = "itoa_char (v mod r)"
  have r0: "r \<noteq> 0" using assms(4) by auto
  have "unat (v mod r) < unat r" using assms(4) by (simp add: unat_mod_word)
  then have c: "digit_value ?c = unat v mod unat r" "digit_value ?c < unat r" "?c \<noteq> 0x2d" "?c \<noteq> 0"
    using itoa_char_value [of "v mod r"] assms(5) by (simp_all add: unat_mod_word)
  have step: "itoa_loop (Suc room) r v tmp = itoa_loop room r (v div r) (tmp @ [?c])"
    using Suc.prems(2) r0 by simp
  have q: "unat (v div r) = unat v div unat r" by (rule unat_div_word)
  show ?case
  proof (cases "v div r = 0")
    case True
    then have "itoa_loop room r (v div r) (tmp @ [?c]) = Some (tmp @ [?c])" by (cases room) auto
    moreover have "unat v mod unat r = unat v" using True q assms(4)
      by (simp add: word_eq_unat32 div_eq_0_iff)
    ultimately show ?thesis using step c by (intro exI [of _ "[?c]"]) simp
  next
    case False
    have lt: "unat (v div r) < unat r ^ room"
      using Suc.prems(1) assms(4) by (simp add: q less_mult_imp_div_less mult.commute)
    then have "0 < room" using False by (cases room) (auto simp: unat_eq_0)
    from Suc.IH [OF lt _ this, of "tmp @ [?c]"] False obtain ds where
      d: "itoa_loop room r (v div r) (tmp @ [?c]) = Some ((tmp @ [?c]) @ ds)"
      "lsb_value (unat r) ds = unat (v div r)" "length ds \<le> room" "0x2d \<notin> set ds" "0 \<notin> set ds"
      "\<forall>c \<in> set ds. digit_value c < unat r" by auto
    have "unat v mod unat r + unat r * (unat v div unat r) = unat v" by (simp add: mult.commute)
    then show ?thesis using d c step q by (intro exI [of _ "?c # ds"]) (auto simp del: itoa_loop.simps)
  qed
qed simp

lemma itoa_text:
  assumes "4 \<le> unat r" and "unat r \<le> 36"
  shows "\<exists>ds. itoa x r = Some ((if r = 10 \<and> x <s 0 then [0x2d] else []) @ ds) \<and> ds \<noteq> [] \<and> length ds \<le> 16 \<and>
    lsb_value (unat r) (rev ds) = unat (if r = 10 \<and> x <s 0 then - x else x) \<and> 0x2d \<notin> set ds \<and> 0 \<notin> set ds \<and>
    (\<forall>c \<in> set ds. digit_value c < unat r)"
proof -
  let ?v = "if r = 10 \<and> x <s 0 then - x else x"
  have "(4 :: nat) ^ 16 \<le> unat r ^ 16" using assms(1) by (rule power_mono) simp
  then have "unat ?v < unat r ^ 16" using unat_less_32 [of ?v] by simp
  from itoa_loop_digits [OF this, of "[]"] assms obtain ds where
    d: "itoa_loop 16 r ?v [] = Some ds" "lsb_value (unat r) ds = unat ?v" "ds \<noteq> []" "length ds \<le> 16"
    "0x2d \<notin> set ds" "0 \<notin> set ds" "\<forall>c \<in> set ds. digit_value c < unat r" by auto
  have "itoa x r = Some ((if r = 10 \<and> x <s 0 then [0x2d] else []) @ rev ds)"
    unfolding itoa_def Let_def d(1) by simp
  then show ?thesis using d(2-7) by (intro exI [of _ "rev ds"]) simp
qed

lemma sint_cases_32: "sint (x :: u32) = uint x - (if bit x 31 then 2 ^ 32 else 0)"
proof -
  have "take_bit 32 (uint x) = uint x" using uint_lt2p [of x] by (simp add: take_bit_int_eq_self)
  then show ?thesis by (simp add: sint_uint signed_take_bit_eq_take_bit_minus bit_uint_iff)
qed

lemma sint_negative: "x <s 0 \<Longrightarrow> sint (x :: u32) = - int (unat (- x))"
proof -
  assume "x <s 0"
  then have n: "sint x < 0" by (simp add: word_sless_alt)
  then have "x \<noteq> 0" by auto
  have "0 \<le> uint x" by simp
  then have s: "sint x = uint x - 2 ^ 32" using n sint_cases_32 [of x] by (auto split: if_splits)
  have "unat (- x) = 2 ^ 32 - unat x" using \<open>x \<noteq> 0\<close> unat_sub_if_size [of 0 x]
    by (simp add: word_size word_le_nat_alt unat_eq_0)
  then have "int (unat (- x)) = 2 ^ 32 - uint x" using unat_less_32 [of x] by (simp add: of_nat_diff)
  then show ?thesis using s by linarith
qed

lemma sint_nonneg: "\<not> x <s 0 \<Longrightarrow> sint (x :: u32) = int (unat x)"
proof -
  assume "\<not> x <s 0"
  then have "0 \<le> sint x" by (simp add: word_sless_alt)
  moreover have "uint x < 2 ^ 32" using uint_lt2p [of x] by simp
  ultimately have "sint x = uint x" using sint_cases_32 [of x] by (auto split: if_splits)
  then show ?thesis by simp
qed

text \<open>Round trip of numbers: for every value and every radix from 4 to 36, \<open>itoa\<close> stays inside its
  buffer and the text it writes reads back as the value: signed for radix 10, unsigned otherwise.\<close>

theorem itoa_roundtrip:
  assumes "4 \<le> unat radix" and "unat radix \<le> 36"
  shows "\<exists>t. itoa x radix = Some t \<and> length t \<le> 17 \<and> 0 \<notin> set t \<and>
    parse_int (unat radix) t = (if radix = 10 then sint x else uint x)"
proof -
  from itoa_text [OF assms, of x] obtain ds where
    d: "itoa x radix = Some ((if radix = 10 \<and> x <s 0 then [0x2d] else []) @ ds)" "ds \<noteq> []" "length ds \<le> 16"
    "lsb_value (unat radix) (rev ds) = unat (if radix = 10 \<and> x <s 0 then - x else x)"
    "0x2d \<notin> set ds" "0 \<notin> set ds" by auto
  have hd: "hd ds \<noteq> 0x2d" using d(2,5) by (metis list.set_sel(1))
  have "parse_int (unat radix) ((if radix = 10 \<and> x <s 0 then [0x2d] else []) @ ds) =
      (if radix = 10 then sint x else uint x)"
  proof (cases "radix = 10")
    case True
    then have "lsb_value 10 (rev ds) = unat (if x <s 0 then - x else x)" using d(4) by simp
    then show ?thesis
      using True hd d(2) sint_negative [of x] sint_nonneg [of x] by (simp add: parse_int_def)
  qed (use d(2,4) hd in \<open>simp add: parse_int_def\<close>)
  then show ?thesis using d by auto
qed

theorem itoa_roundtrip_witness:
  "\<exists>t. itoa 0xfffffff6 10 = Some t \<and> parse_int 10 t = - 10"
  using itoa_roundtrip [of 10 "0xfffffff6"] by auto

section \<open>Numerals\<close>

text \<open>Numbers as they are written by hand, without a word of \<open>itoa\<close>.\<close>

definition ascii :: "string \<Rightarrow> u8 list" where
  "ascii t = map of_char t"

definition digit_char :: "nat \<Rightarrow> u8" where
  "digit_char n = ascii ''0123456789abcdef'' ! n"

fun numeral_text :: "nat \<Rightarrow> nat \<Rightarrow> u8 list" where
  "numeral_text b n =
     (if b < 2 \<or> n < b then [digit_char n] else numeral_text b (n div b) @ [digit_char (n mod b)])"

declare numeral_text.simps [simp del]

definition signed_decimal :: "int \<Rightarrow> u8 list" where
  "signed_decimal i = (if i < 0 then ascii ''-'' @ numeral_text 10 (nat (- i)) else numeral_text 10 (nat i))"

lemma digit_table: "list_all (\<lambda>n. itoa_char (of_nat n) = digit_char n) [0..<16]"
  by code_simp

lemma itoa_char_digit: "unat i < 16 \<Longrightarrow> itoa_char i = digit_char (unat i)"
  using digit_table unfolding list_all_iff by (metis atLeastLessThan_iff le0 of_nat_unat set_upt ucast_id)

lemma itoa_loop_numeral:
  assumes "unat v < unat r ^ room" and "v \<noteq> 0 \<or> tmp = []" and "0 < room" and "2 \<le> unat r" and "unat r \<le> 16"
  shows "itoa_loop room r v tmp = Some (tmp @ rev (numeral_text (unat r) (unat v)))"
  using assms(1-3)
proof (induction room arbitrary: v tmp)
  case (Suc room)
  let ?c = "itoa_char (v mod r)"
  have r0: "r \<noteq> 0" using assms(4) by auto
  have "unat (v mod r) < unat r" using assms(4) by (simp add: unat_mod_word)
  then have c: "?c = digit_char (unat v mod unat r)"
    using itoa_char_digit [of "v mod r"] assms(5) by (simp add: unat_mod_word)
  have step: "itoa_loop (Suc room) r v tmp = itoa_loop room r (v div r) (tmp @ [?c])"
    using Suc.prems(2) r0 by simp
  have q: "unat (v div r) = unat v div unat r" by (rule unat_div_word)
  show ?case
  proof (cases "unat v < unat r")
    case True
    then have "v div r = 0" using q by (simp add: word_eq_unat32)
    then have "itoa_loop room r (v div r) (tmp @ [?c]) = Some (tmp @ [?c])" by (cases room) auto
    then show ?thesis using step c True by (subst numeral_text.simps) simp
  next
    case False
    then have nz: "v div r \<noteq> 0" using q assms(4) by (auto simp: word_eq_unat32 div_eq_0_iff)
    have lt: "unat (v div r) < unat r ^ room"
      using Suc.prems(1) assms(4) by (simp add: q less_mult_imp_div_less mult.commute)
    then have "0 < room" using nz by (cases room) (auto simp: unat_eq_0)
    with Suc.IH [OF lt _ this, of "tmp @ [?c]"] nz show ?thesis
      using step c False assms(4) by (subst numeral_text.simps) (simp add: q del: itoa_loop.simps)
  qed
qed simp

lemma itoa_numeral:
  "itoa d 10 = Some (signed_decimal (sint d))" "itoa d 16 = Some (numeral_text 16 (unat d))"
proof -
  have l: "itoa_loop 16 r v [] = Some (rev (numeral_text (unat r) (unat v)))" if "10 \<le> unat r" "unat r \<le> 16" for r v
  proof -
    have "(10 :: nat) ^ 16 \<le> unat r ^ 16" using that(1) by (rule power_mono) simp
    then have "unat v < unat r ^ 16" using unat_less_32 [of v] by simp
    then show ?thesis using itoa_loop_numeral [of v r 16 "[]"] that by simp
  qed
  have m: "ascii ''-'' = [0x2d]" by (simp add: ascii_def)
  show "itoa d 16 = Some (numeral_text 16 (unat d))" using l [of 16 d] by (simp add: itoa_def)
  show "itoa d 10 = Some (signed_decimal (sint d))"
  proof (cases "d <s 0")
    case True
    then have "sint d = - int (unat (- d))" "sint d < 0" using sint_negative by (simp_all add: word_sless_alt)
    then show ?thesis using l [of 10 "- d"] True m by (simp add: itoa_def signed_decimal_def del: of_nat_unat)
  next
    case False
    then show ?thesis using l [of 10 d] sint_nonneg [OF False] by (simp add: itoa_def signed_decimal_def del: of_nat_unat)
  qed
qed

lemma hex_length: "length (numeral_text 16 (unat (d :: u32))) \<le> 8"
proof -
  have "n < 16 ^ Suc k \<Longrightarrow> length (numeral_text 16 n) \<le> Suc k" for n k :: nat
  proof (induction k arbitrary: n)
    case (Suc k)
    have "n div 16 < 16 ^ Suc k" using Suc.prems by (simp add: less_mult_imp_div_less mult.commute)
    from Suc.IH [OF this] show ?case by (subst numeral_text.simps) simp
  qed (simp add: numeral_text.simps)
  from this [of "unat d" 7] show ?thesis using unat_less_32 [of d] by simp
qed

section \<open>Formats\<close>

text \<open>
  The format language: a format is cut into literal bytes and conversions, and each conversion has a
  text that depends on its letter and the next argument. A percent sign at the end is dropped; a
  letter that names no conversion stands for itself. A decimal number of ten characters or more has no
  text: the array it is written to is too short.
\<close>

datatype piece = Literal u8 | Conversion u8

fun pieces :: "u8 list \<Rightarrow> piece list" where
  "pieces [] = []"
| "pieces [c] = (if c = of_char CHR ''%'' then [] else [Literal c])"
| "pieces (c # d # fmt) =
     (if c = of_char CHR ''%'' then Conversion d # pieces fmt else Literal c # pieces (d # fmt))"

definition string_arg :: "vararg list \<Rightarrow> (u8 list \<times> vararg list) option" where
  "string_arg ap = (case ap of VStr None # ap \<Rightarrow> Some (ascii ''(null)'', ap) | VStr (Some t) # ap \<Rightarrow> Some (t, ap) | _ \<Rightarrow> None)"

definition number_arg :: "(u32 \<Rightarrow> u8 list) \<Rightarrow> vararg list \<Rightarrow> (u8 list \<times> vararg list) option" where
  "number_arg f ap = (case ap of VInt d # ap \<Rightarrow> Some (f d, ap) | _ \<Rightarrow> None)"

definition short :: "u8 list \<times> vararg list \<Rightarrow> (u8 list \<times> vararg list) option" where
  "short r = (if length (fst r) < 10 then Some r else None)"

fun piece_text :: "piece \<Rightarrow> vararg list \<Rightarrow> (u8 list \<times> vararg list) option" where
  "piece_text (Literal c) ap = Some ([c], ap)"
| "piece_text (Conversion c) ap =
     (if c = of_char CHR ''s'' then string_arg ap
      else if c = of_char CHR ''d'' then number_arg (\<lambda>d. signed_decimal (sint d)) ap \<bind> short
      else if c = of_char CHR ''x'' then number_arg (\<lambda>d. numeral_text 16 (unat d)) ap
      else if c = of_char CHR ''c'' then number_arg (\<lambda>d. [ucast d]) ap
      else Some ([c], ap))"

primrec render :: "piece list \<Rightarrow> vararg list \<Rightarrow> u8 list option" where
  "render [] ap = Some []"
| "render (p # ps) ap = do { (t, ap) \<leftarrow> piece_text p ap; u \<leftarrow> render ps ap; Some (t @ u) }"

definition format_text :: "u8 list \<Rightarrow> vararg list \<Rightarrow> u8 list option" where
  "format_text fmt ap = render (pieces fmt) ap"

text \<open>The switch of the code gives the text of a conversion.\<close>

lemma lvas_conv_text: "lvas_conv c ap = piece_text (Conversion c) ap"
proof -
  have "ascii ''(null)'' = null_text" by (simp add: ascii_def null_text_def)
  then show ?thesis
    by (auto simp: lvas_conv_def string_arg_def number_arg_def number_text_def itoa_numeral short_def
        hex_length [THEN le_less_trans] split: list.split vararg.split option.split)
qed

declare piece_text.simps(2) [simp del]

lemma lvasprintf_loop_format:
  "lvasprintf_loop put_fn fmt False ap l st =
     map_option (\<lambda>t. (l + of_nat (length t), put_all put_fn t st)) (format_text fmt ap)"
  unfolding format_text_def
proof (induction fmt arbitrary: ap l st rule: pieces.induct)
  case (3 c d fmt)
  show ?case
  proof (cases "c = 0x25")
    case True
    show ?thesis
    proof (cases "lvas_conv d ap")
      case None
      then show ?thesis using True by (simp add: lvas_conv_text [symmetric])
    next
      case (Some x)
      obtain t ap' where x: "x = (t, ap')" by (cases x)
      have "lvasprintf_loop put_fn (c # d # fmt) False ap l st =
          lvasprintf_loop put_fn fmt False ap' (l + of_nat (length t)) (put_all put_fn t st)"
        using True Some x by simp
      then show ?thesis
        using 3(1) [of ap' "l + of_nat (length t)" "put_all put_fn t st"] True Some x
        by (cases "render (pieces fmt) ap'") (simp_all add: put_all_def add.assoc lvas_conv_text [symmetric])
    qed
  next
    case False
    then show ?thesis using 3(2) [of ap "l + 1" "put_fn c st"]
      by (cases "render (pieces (d # fmt)) ap") (simp_all add: put_all_def add.assoc split: if_splits)
  qed
qed (simp_all add: put_all_def)

lemma put_all_buf:
  "length t + unat (written d) < 2 ^ 32 \<Longrightarrow> written d \<le> len d \<Longrightarrow>
   str (put_all print_to_buf t d) =
     (\<lambda>i. if unat (written d) \<le> i \<and> i < unat (written d) + length t \<and> i < unat (len d)
          then t ! (i - unat (written d)) else str d i)"
proof (induction t arbitrary: d)
  case (Cons c t)
  let ?d = "print_to_buf c d"
  have e: "put_all print_to_buf (c # t) d = put_all print_to_buf t ?d" by (simp add: put_all_def)
  show ?case
  proof (cases "written d < len d")
    case True
    then have w: "unat (written ?d) = Suc (unat (written d))" "written ?d \<le> len ?d" "len ?d = len d"
      "str ?d = (str d)(unat (written d) := c)"
      using Cons.prems(1) unat_Suc_word [of "written d"] inc_le [of "written d" "len d"]
      by (simp_all add: print_to_buf_def)
    show ?thesis unfolding e using Cons.IH [of ?d] Cons.prems(1) w True
      by (auto simp: fun_eq_iff nth_Cons' word_less_nat_alt)
  next
    case False
    then have "?d = d" "written d = len d" using Cons.prems(2) by (simp_all add: print_to_buf_def)
    then show ?thesis unfolding e using Cons.IH [of d] Cons.prems by (auto simp: fun_eq_iff)
  qed
qed (auto simp: put_all_def fun_eq_iff)

text \<open>C34. The output loop implements the format language on every format, argument list and sink: the
  text of \<open>format_text\<close> (which knows numerals and pieces, not the code) is sent byte by byte and its
  length is returned; where the format has no text, the code leaves an array or reads an argument that
  is not there. \<open>vsprintf\<close> stores the first 1024 bytes of the text and no other byte: no terminator,
  although the comment above \<open>lvasprintf\<close> promises one.\<close>

theorem printf_format:
  "lvasprintf put_fn st fmt ap =
     map_option (\<lambda>t. (of_nat (length t), fold put_fn t st)) (format_text fmt ap) \<and>
   (\<forall>t. format_text fmt ap = Some t \<and> length t < 2 ^ 32 \<longrightarrow>
     vsprintf s fmt ap = Some (of_nat (length t), \<lambda>i. if i < length t \<and> i < 1024 then t ! i else s i))"
proof -
  have 1: "lvasprintf put_fn st fmt ap = map_option (\<lambda>t. (of_nat (length t), put_all put_fn t st)) (format_text fmt ap)"
    for put_fn :: "u8 \<Rightarrow> 'b \<Rightarrow> 'b" and st
    by (simp add: lvasprintf_def lvasprintf_loop_format)
  moreover have "vsprintf s fmt ap = Some (of_nat (length t), \<lambda>i. if i < length t \<and> i < 1024 then t ! i else s i)"
    if "format_text fmt ap = Some t" "length t < 2 ^ 32" for t
    unfolding vsprintf_def using that put_all_buf [of t "\<lparr>str = s, len = 1024, written = 0\<rparr>"]
    by (simp add: lvasprintf_def lvasprintf_loop_format fun_eq_iff)
  ultimately show ?thesis by (simp add: put_all_def)
qed

theorem printf_format_witness:
  "\<exists>b. vsprintf (\<lambda>_. 7) (ascii ''a%x%s%'') [VInt 0xbeef, VStr None] = Some (11, b) \<and>
     map b [0..<12] = ascii ''abeef(null)'' @ [7]"
proof -
  have f: "format_text (ascii ''a%x%s%'') [VInt 0xbeef, VStr None] = Some (ascii ''abeef(null)'')"
    by (simp add: format_text_def ascii_def piece_text.simps number_arg_def string_arg_def numeral_text.simps digit_char_def)
  have l: "length (ascii ''abeef(null)'') = 11" by (simp add: ascii_def)
  show ?thesis
    using printf_format [of "\<lambda>c (u :: unit). u" "()" "ascii ''a%x%s%''" "[VInt 0xbeef, VStr None]" "\<lambda>_. 7"] f l
    by (auto simp: ascii_def upt_rec)
qed

lemma lsb_value_bound: "\<forall>c \<in> set ds. digit_value c < r \<Longrightarrow> lsb_value r ds < r ^ length ds"
proof (induction ds)
  case (Cons c ds)
  then have "Suc (lsb_value r ds) \<le> r ^ length ds" "digit_value c < r" by simp_all
  then have "r * Suc (lsb_value r ds) \<le> r * r ^ length ds" by (intro mult_le_mono) simp_all
  then show ?case using \<open>digit_value c < r\<close> by simp
qed simp

text \<open>Numbers that need 10 characters or more, from 1000000000 up and from -100000000 down, do not
  fit the 10-byte array with a terminator: printing one with \<open>%d\<close> leaves the array.\<close>

theorem printf_long_number:
  assumes "10 ^ 9 \<le> sint d \<or> sint d \<le> - (10 ^ 8)"
  shows "lvasprintf put_fn st [0x25, 0x64] (VInt d # ap) = None"
proof -
  from itoa_text [of 10 d] obtain ds where
    t: "itoa d 10 = Some ((if d <s 0 then [0x2d] else []) @ ds)"
    "lsb_value 10 (rev ds) = unat (if d <s 0 then - d else d)" "\<forall>c \<in> set ds. digit_value c < 10" by auto
  have b: "unat (if d <s 0 then - d else d) < 10 ^ length ds"
    using lsb_value_bound [of "rev ds" 10] t(2,3) by simp
  have "10 \<le> length ((if d <s 0 then [0x2d] else []) @ ds)"
  proof (rule ccontr)
    assume n: "\<not> ?thesis"
    show False
    proof (cases "d <s 0")
      case True
      then have "(10 :: nat) ^ length ds \<le> 10 ^ 8" using n by (intro power_increasing) simp_all
      then have "unat (- d) < 10 ^ 8" using b True by simp
      then have "int (unat (- d)) < int (10 ^ 8)" by (simp only: of_nat_less_iff)
      moreover have "sint d < 0" using True by (simp add: word_sless_alt)
      ultimately show False using assms sint_negative [OF True] by simp
    next
      case False
      then have "(10 :: nat) ^ length ds \<le> 10 ^ 9" using n by (intro power_increasing) simp_all
      then have "unat d < 10 ^ 9" using b False by simp
      then have "int (unat d) < int (10 ^ 9)" by (simp only: of_nat_less_iff)
      moreover have "0 \<le> sint d" using False by (simp add: word_sless_alt)
      then have "10 ^ 9 \<le> sint d" using assms by auto
      ultimately show False using sint_nonneg [OF False] by simp
    qed
  qed
  then have "number_text d 10 = None" using t(1) by (simp add: number_text_def)
  then show ?thesis by (simp add: lvasprintf_def lvas_conv_def)
qed

theorem printf_long_number_witness: "vsprintf (\<lambda>_. 0) [0x25, 0x64] [VInt 1000000000] = None"
proof -
  have "sint (1000000000 :: u32) = 1000000000" by simp
  then show ?thesis using printf_long_number [of 1000000000 print_to_buf _ "[]"] by (simp add: vsprintf_def)
qed

end
