(* ===== verification/Timer.thy ===== *)
theory Timer
  imports Semaphore
begin

text \<open>
  The timer wheel of \<^verbatim>\<open>core/frog/timer.c\<close>, the software interrupts of
  \<^verbatim>\<open>core/interrupt/softirq.c\<close>, and the clock interrupt and timed sleeping of
  \<^verbatim>\<open>core/thread/sched.c\<close>.

  Level 0 is \<^verbatim>\<open>tv1\<close>, levels 1 to 4 are \<^verbatim>\<open>tv2\<close> to \<^verbatim>\<open>tv5\<close>; \<open>tv_index\<close> is the field
  \<^verbatim>\<open>index\<close> of each. A timer is named by its address, which is the address of its list node. The
  local list \<^verbatim>\<open>queued\<close> and the local timer of \<^verbatim>\<open>schedule_timeout\<close> are at addresses given as
  arguments. While a timer function runs, no other interrupt is taken.
\<close>

section \<open>The wheel\<close>

text \<open>\<open>tv.vec + i\<close>: the list heads follow the 4-byte index.\<close>

definition tvec :: "nat \<Rightarrow> u32 \<Rightarrow> kstate \<Rightarrow> addr" where
  "tvec n i s = tvec_addr s n + 4 + 8 * i"

primrec init_level :: "nat \<Rightarrow> nat \<Rightarrow> kstate \<Rightarrow> kstate" where
  "init_level n 0 s = s"
| "init_level n (Suc i) s = upd_lh (INIT_LIST_HEAD (tvec n (of_nat i) s)) (init_level n i s)"

definition init_timervecs :: "kstate \<Rightarrow> kstate" where
  "init_timervecs s =
     (let s = init_level 4 64 s; s = init_level 3 64 s; s = init_level 2 64 s; s = init_level 1 64 s
      in init_level 0 256 s)"

text \<open>The choice of a list: level and index.\<close>

definition timer_slot :: "u32 \<Rightarrow> u32 \<Rightarrow> u32 \<Rightarrow> nat \<times> u32" where
  "timer_slot exp jiffies index0 =
     (let idx = exp - jiffies in
      if idx < 256 then (0, exp AND 255)
      else if idx < push_bit 14 1 then (1, drop_bit 8 exp AND 63)
      else if idx < push_bit 20 1 then (2, drop_bit 14 exp AND 63)
      else if idx < push_bit 26 1 then (3, drop_bit 20 exp AND 63)
      else if idx <s 0 then (0, index0)
      else (4, drop_bit 26 exp AND 63))"

definition internal_add_timer :: "addr \<Rightarrow> kstate \<Rightarrow> kstate" where
  "internal_add_timer timer s =
     (let vec = (if run_timer_list_running s \<noteq> 0 then run_timer_list_running s
                 else let (n, i) = timer_slot (expires (timers s timer)) (timer_jiffies s) (tv_index s 0)
                      in tvec n i s)
      in upd_lh (list_add timer (prv (lh s) vec)) s)"

definition init_timer :: "addr \<Rightarrow> kstate \<Rightarrow> kstate" where
  "init_timer timer s = upd_lh (\<lambda>m. set_nxt timer 0 (set_prv timer 0 m)) s"

definition timer_pending :: "addr \<Rightarrow> kstate \<Rightarrow> bool" where
  "timer_pending timer s \<longleftrightarrow> nxt (lh s) timer \<noteq> 0"

definition add_timer :: "addr \<Rightarrow> kstate \<Rightarrow> kstate" where
  "add_timer timer s =
     (let (old_status, s) = intr_disable s;
          s = (if timer_pending timer s then s else internal_add_timer timer s)
      in intr_set_status old_status s)"

definition detach_timer :: "addr \<Rightarrow> kstate \<Rightarrow> bool \<times> kstate" where
  "detach_timer timer s =
     (if \<not> timer_pending timer s then (False, s) else (True, upd_lh (list_del timer) s))"

definition del_timer :: "addr \<Rightarrow> kstate \<Rightarrow> bool \<times> kstate" where
  "del_timer timer s =
     (let (old_status, s) = intr_disable s;
          (ret, s) = detach_timer timer s;
          s = init_timer timer s
      in (ret, intr_set_status old_status s))"

partial_function (option) cascade_loop :: "addr \<Rightarrow> addr \<Rightarrow> kstate \<Rightarrow> kstate option" where
  "cascade_loop head cur s =
     (if cur \<noteq> head
      then let next = nxt (lh s) cur
           in cascade_loop head next (internal_add_timer cur (upd_lh (list_del cur) s))
      else Some s)"

definition set_index :: "nat \<Rightarrow> u32 \<Rightarrow> kstate \<Rightarrow> kstate" where
  "set_index n v s = s\<lparr>tv_index := (tv_index s)(n := v)\<rparr>"

definition cascade_timers :: "nat \<Rightarrow> kstate \<Rightarrow> kstate option" where
  "cascade_timers n s = do {
     let head = tvec n (tv_index s n) s;
     s \<leftarrow> cascade_loop head (nxt (lh s) head) s;
     let s = upd_lh (INIT_LIST_HEAD head) s;
     Some (set_index n ((tv_index s n + 1) AND 63) s)
   }"

text \<open>The loop \<open>do ... while (tvecs[n]->index == 1 && ++n < NOOF_TVECS)\<close>, from level \<open>5 - k\<close> on.\<close>

primrec cascade_levels :: "nat \<Rightarrow> kstate \<Rightarrow> kstate option" where
  "cascade_levels 0 s = Some s"
| "cascade_levels (Suc k) s = do {
     s \<leftarrow> cascade_timers (4 - k) s;
     if tv_index s (4 - k) = 1 then cascade_levels k s else Some s
   }"

definition call_timer :: "timer_fn \<Rightarrow> u32 \<Rightarrow> kstate \<Rightarrow> kstate" where
  "call_timer fn data s = (case fn of process_timeout_fn \<Rightarrow> process_timeout data s)"

text \<open>From the label \<open>repeat\<close> on: run the timers of the current list.\<close>

partial_function (option) run_expired :: "bool \<Rightarrow> kstate \<Rightarrow> (bool \<times> kstate) option" where
  "run_expired old_status s =
     (let head = tvec 0 (tv_index s 0) s; cur = nxt (lh s) head in
      if cur \<noteq> head then
        let fn = tfunction (timers s cur);
            data = tdata (timers s cur);
            s = init_timer cur (snd (detach_timer cur s));
            s = call_timer fn data (intr_set_status old_status s);
            (old_status, s) = intr_disable s
        in run_expired old_status s
      else Some (old_status, s))"

partial_function (option) requeue_timers :: "addr \<Rightarrow> addr \<Rightarrow> kstate \<Rightarrow> kstate option" where
  "requeue_timers queued cur s =
     (if cur \<noteq> queued
      then let next = nxt (lh s) cur in requeue_timers queued next (internal_add_timer cur s)
      else Some s)"

text \<open>One round of the outer loop of \<open>run_timer_list\<close>.\<close>

definition timer_tick :: "addr \<Rightarrow> bool \<Rightarrow> kstate \<Rightarrow> (bool \<times> kstate) option" where
  "timer_tick queued old_status s = do {
     let s = upd_lh (INIT_LIST_HEAD queued) s;
     s \<leftarrow> (if tv_index s 0 = 0 then cascade_levels 4 s else Some s);
     let s = s\<lparr>run_timer_list_running := queued\<rparr>;
     (old_status, s) \<leftarrow> run_expired old_status s;
     let s = s\<lparr>run_timer_list_running := 0, timer_jiffies := timer_jiffies s + 1\<rparr>;
     let s = set_index 0 ((tv_index s 0 + 1) AND 255) s;
     s \<leftarrow> requeue_timers queued (nxt (lh s) queued) s;
     Some (old_status, s)
   }"

partial_function (option) timer_loop :: "addr \<Rightarrow> bool \<Rightarrow> kstate \<Rightarrow> (bool \<times> kstate) option" where
  "timer_loop queued old_status s =
     (if 0 \<le>s ticks s - timer_jiffies s then do {
        (old_status, s) \<leftarrow> timer_tick queued old_status s;
        timer_loop queued old_status s
      } else Some (old_status, s))"

definition run_timer_list :: "addr \<Rightarrow> kstate \<Rightarrow> kstate option" where
  "run_timer_list queued s = do {
     let (old_status, s) = intr_disable s;
     (old_status, s) \<leftarrow> timer_loop queued old_status s;
     Some (intr_set_status old_status s)
   }"

definition timer_bh :: "addr \<Rightarrow> kstate \<Rightarrow> kstate option" where
  "timer_bh queued s = run_timer_list queued s"

section \<open>Software interrupts\<close>

text \<open>The handler table is the argument \<open>hs\<close>: \<open>hs i\<close> is what the action at index \<open>i\<close> does.\<close>

type_synonym softirq_table = "nat \<Rightarrow> kstate \<Rightarrow> kstate option"

definition clear_softirq :: "nat \<Rightarrow> kstate \<Rightarrow> kstate" where
  "clear_softirq type s = s\<lparr>g_softirq_pending := g_softirq_pending s AND NOT (push_bit type 1)\<rparr>"

definition raise_softirq :: "nat \<Rightarrow> kstate \<Rightarrow> kstate" where
  "raise_softirq type s = s\<lparr>g_softirq_pending := g_softirq_pending s OR push_bit type 1\<rparr>"

definition register_softirq :: "nat \<Rightarrow> (kstate \<Rightarrow> kstate option) \<Rightarrow> softirq_table \<Rightarrow> softirq_table" where
  "register_softirq type handler hs = hs(type := handler)"

text \<open>The variable \<open>type\<close> is local to the loop body and is 0 in every round.\<close>

partial_function (option) softirq_loop :: "softirq_table \<Rightarrow> nat \<Rightarrow> kstate \<Rightarrow> kstate option" where
  "softirq_loop hs h s = do {
     s \<leftarrow> (if g_softirq_pending s AND push_bit 0 1 \<noteq> 0 then hs h (clear_softirq 0 s) else Some s);
     if g_softirq_pending s \<noteq> 0 then softirq_loop hs (Suc h) s else Some s
   }"

definition do_softirq :: "softirq_table \<Rightarrow> kstate \<Rightarrow> kstate option" where
  "do_softirq hs s = softirq_loop hs 0 s"

definition irq_exit :: "softirq_table \<Rightarrow> kstate \<Rightarrow> kstate option" where
  "irq_exit hs s =
     (if g_softirq_pending s \<noteq> 0 then do {
        let (old_status, s) = intr_enable s;
        s \<leftarrow> do_softirq hs s;
        Some (intr_set_status old_status s)
      } else Some s)"

section \<open>The clock interrupt and sleeping\<close>

text \<open>\<open>ack\<close> writes the ports of the interrupt controllers only.\<close>

definition inthandler20 :: "(kstate \<Rightarrow> kstate option) \<Rightarrow> softirq_table \<Rightarrow> addr \<Rightarrow> kstate \<Rightarrow> kstate option" where
  "inthandler20 W hs queued s = do {
     s \<leftarrow> timer_bh queued s;
     let cur_thread = running_thread s;
     ASSERT (stack_magic (tcbs s cur_thread) = 0x19900921);
     let s = upd_tcb cur_thread (\<lambda>t. t\<lparr>elapsed_ticks := elapsed_ticks t + 1\<rparr>) s;
     let s = s\<lparr>ticks := ticks s + 1\<rparr>;
     s \<leftarrow> (if tticks (tcbs s cur_thread) = 0 then schedule W s
           else Some (upd_tcb cur_thread (\<lambda>t. t\<lparr>tticks := tticks t - 1\<rparr>) s));
     irq_exit hs s
   }"

definition schedule_timeout :: "(kstate \<Rightarrow> kstate option) \<Rightarrow> addr \<Rightarrow> u32 \<Rightarrow> kstate \<Rightarrow> (u32 \<times> kstate) option" where
  "schedule_timeout W timer timeout s =
     (let current = running_thread s in
      if timeout = 0x7fffffff then do {
        s \<leftarrow> schedule W s;
        Some (timeout, s)
      } else if timeout <s 0 then Some (0, upd_tcb current (\<lambda>t. t\<lparr>status := THREAD_TASK_RUNNING\<rparr>) s)
      else do {
        let expire = timeout + ticks s;
        let s = init_timer timer s;
        let s = s\<lparr>timers := (timers s)(timer := \<lparr>expires = expire, tdata = current, tfunction = process_timeout_fn\<rparr>)\<rparr>;
        s \<leftarrow> schedule W (add_timer timer s);
        let s = snd (del_timer timer s);
        let timeout = expire - ticks s;
        Some (if timeout <s 0 then 0 else timeout, s)
      })"

partial_function (option) tick_to_sleep_loop :: "(kstate \<Rightarrow> kstate option) \<Rightarrow> u32 \<Rightarrow> u32 \<Rightarrow> kstate \<Rightarrow> kstate option" where
  "tick_to_sleep_loop W start_tick sleep_ticks s =
     (if ticks s - start_tick < sleep_ticks then do {
        s \<leftarrow> thread_yield W s;
        tick_to_sleep_loop W start_tick sleep_ticks s
      } else Some s)"

definition tick_to_sleep :: "(kstate \<Rightarrow> kstate option) \<Rightarrow> u32 \<Rightarrow> kstate \<Rightarrow> kstate option" where
  "tick_to_sleep W sleep_ticks s = tick_to_sleep_loop W (ticks s) sleep_ticks s"

definition mil_seconds_per_intr :: u32 where
  "mil_seconds_per_intr = DIV_ROUND_UP 1000 9000"

definition mtime_sleep :: "(kstate \<Rightarrow> kstate option) \<Rightarrow> u32 \<Rightarrow> kstate \<Rightarrow> kstate option" where
  "mtime_sleep W m_seconds s = do {
     ASSERT (mil_seconds_per_intr \<noteq> 0);
     let sleep_ticks = DIV_ROUND_UP m_seconds mil_seconds_per_intr;
     ASSERT (sleep_ticks > 0);
     tick_to_sleep W sleep_ticks s
   }"

section \<open>The indices of the wheel\<close>

text \<open>The time between two lists of a level, and the number of its lists.\<close>

definition gran :: "nat \<Rightarrow> nat" where
  "gran n = (if n = 0 then 1 else 2 ^ (8 + 6 * (n - 1)))"

definition slots :: "nat \<Rightarrow> nat" where
  "slots n = (if n = 0 then 256 else 64)"

text \<open>The index of a level before the round for time \<open>j\<close>: the multiples of its granularity below \<open>j\<close>
  are done.\<close>

definition level_index :: "nat \<Rightarrow> nat \<Rightarrow> nat" where
  "level_index n j = (j + gran n - 1) div gran n mod slots n"

definition wheel_inv :: "kstate \<Rightarrow> bool" where
  "wheel_inv s \<longleftrightarrow> (\<forall>n \<le> 4. unat (tv_index s n) = level_index n (unat (timer_jiffies s)))"

definition same_wheel :: "kstate \<Rightarrow> kstate \<Rightarrow> bool" where
  "same_wheel s s' \<longleftrightarrow> tv_index s' = tv_index s \<and> timer_jiffies s' = timer_jiffies s"

lemma same_wheel_refl [simp]: "same_wheel s s"
  by (simp add: same_wheel_def)

lemma same_wheel_trans: "same_wheel s t \<Longrightarrow> same_wheel t u \<Longrightarrow> same_wheel s u"
  by (simp add: same_wheel_def)

lemma wheel_simps [simp]:
  "tv_index (upd_lh f s) = tv_index s" "timer_jiffies (upd_lh f s) = timer_jiffies s"
  "tv_index (upd_tcb t g s) = tv_index s" "timer_jiffies (upd_tcb t g s) = timer_jiffies s"
  "tv_index (intr_set_status b s) = tv_index s" "timer_jiffies (intr_set_status b s) = timer_jiffies s"
  "tv_index (init_timer t s) = tv_index s" "timer_jiffies (init_timer t s) = timer_jiffies s"
  "tv_index (internal_add_timer t s) = tv_index s" "timer_jiffies (internal_add_timer t s) = timer_jiffies s"
  by (simp_all add: upd_lh_def upd_tcb_def intr_set_status_eq init_timer_def internal_add_timer_def)

lemma wheel_detach [simp]:
  "tv_index (snd (detach_timer t s)) = tv_index s" "timer_jiffies (snd (detach_timer t s)) = timer_jiffies s"
  by (simp_all add: detach_timer_def)

lemma wheel_call [simp]:
  "tv_index (call_timer fn d s) = tv_index s" "timer_jiffies (call_timer fn d s) = timer_jiffies s"
  by (cases fn; simp add: call_timer_def process_timeout_def wake_up_process_def try_to_wake_up_def
      intr_disable_eq add_to_readylist_def Let_def)+

lemma same_wheel_cascade_loop: "cascade_loop head c s = Some s' \<Longrightarrow> same_wheel s s'"
proof (induction rule: cascade_loop.raw_induct [rotated 1, consumes 1])
  case (1 loop head c s s')
  show ?case
  proof (cases "c = head")
    case False
    then show ?thesis using 1(1) [of head "nxt (lh s) c" "internal_add_timer c (upd_lh (list_del c) s)" s'] 1(2)
      by (simp add: same_wheel_def Let_def)
  qed (use 1(2) in simp)
qed

lemma same_wheel_run_expired: "run_expired b s = Some (b', s') \<Longrightarrow> same_wheel s s'"
proof (induction "(b', s')" arbitrary: b' s' rule: run_expired.raw_induct [rotated 1, consumes 1])
  case (1 loop b s)
  then show ?case by (fastforce simp: same_wheel_def Let_def intr_disable_eq split: if_splits)
qed

lemma same_wheel_requeue: "requeue_timers q c s = Some s' \<Longrightarrow> same_wheel s s'"
proof (induction rule: requeue_timers.raw_induct [rotated 1, consumes 1])
  case (1 loop q c s s')
  show ?case
  proof (cases "c = q")
    case False
    then show ?thesis using 1(1) [of q "nxt (lh s) c" "internal_add_timer c s" s'] 1(2)
      by (simp add: same_wheel_def Let_def)
  qed (use 1(2) in simp)
qed

lemma and_mask_6: "unat (x AND 63 :: u32) = unat x mod 64"
proof -
  have "(63 :: u32) = mask 6" by (simp add: mask_eq_exp_minus_1)
  then show ?thesis by (simp only: take_bit_eq_mask [symmetric] unat_take_bit_32) simp
qed

lemma and_mask_8: "unat (x AND 255 :: u32) = unat x mod 256"
proof -
  have "(255 :: u32) = mask 8" by (simp add: mask_eq_exp_minus_1)
  then show ?thesis by (simp only: take_bit_eq_mask [symmetric] unat_take_bit_32) simp
qed

lemma cascade_timers_wheel:
  assumes "cascade_timers n s = Some s'" and "unat (tv_index s n) < 64"
  shows "timer_jiffies s' = timer_jiffies s" and "m \<noteq> n \<Longrightarrow> tv_index s' m = tv_index s m"
    and "unat (tv_index s' n) = (unat (tv_index s n) + 1) mod 64"
proof -
  let ?h = "tvec n (tv_index s n) s"
  obtain s1 where l: "cascade_loop ?h (nxt (lh s) ?h) s = Some s1"
    and s': "s' = set_index n ((tv_index s1 n + 1) AND 63) (upd_lh (INIT_LIST_HEAD ?h) s1)"
    using assms(1) by (auto simp: cascade_timers_def Let_def split: Option.bind_splits)
  have w: "tv_index s1 = tv_index s" "timer_jiffies s1 = timer_jiffies s"
    using same_wheel_cascade_loop [OF l] by (simp_all add: same_wheel_def)
  show "timer_jiffies s' = timer_jiffies s" "m \<noteq> n \<Longrightarrow> tv_index s' m = tv_index s m"
    "unat (tv_index s' n) = (unat (tv_index s n) + 1) mod 64"
    using w assms(2) unat_Suc_word [of "tv_index s n"] by (simp_all add: s' set_index_def and_mask_6)
qed

lemma gran_pos [simp]: "0 < gran n"
  by (simp add: gran_def)

lemma gran_Suc: "0 < n \<Longrightarrow> gran (Suc n) = gran n * 64"
  by (cases n) (simp_all add: gran_def power_add)

lemma gran_dvd: "0 < n \<Longrightarrow> n \<le> m \<Longrightarrow> gran n dvd gran m"
  by (simp add: gran_def le_imp_power_dvd)

lemma level_index_0: "level_index 0 j = j mod 256"
  by (simp add: level_index_def gran_def slots_def)

lemma level_index_same:
  assumes "j mod gran n \<noteq> 0"
  shows "level_index n (Suc j) = level_index n j"
proof -
  define g q r where "g = gran n" and "q = j div g" and "r = j mod g"
  have j: "j = g * q + r" "r < g" "0 < r" using assms by (simp_all add: g_def q_def r_def)
  have "(Suc j + g - 1) div g = Suc q" "(j + g - 1) div g = Suc q"
    using j by (auto intro!: div_nat_eqI)
  then show ?thesis by (simp only: level_index_def g_def [symmetric])
qed

lemma level_index_multiple:
  assumes "j mod gran n = 0"
  shows "level_index n j = j div gran n mod slots n" and "level_index n (Suc j) = (j div gran n + 1) mod slots n"
proof -
  let ?g = "gran n"
  obtain q where j: "j = ?g * q" using assms by blast
  have "(?g * q + ?g - 1) div ?g = q"
  proof (rule div_nat_eqI)
    have "1 \<le> ?g" using gran_pos [of n] by (simp only: One_nat_def Suc_le_eq)
    then show "?g * q \<le> ?g * q + ?g - 1" "?g * q + ?g - 1 < ?g * Suc q" unfolding mult_Suc_right by linarith+
  qed
  then show "level_index n j = j div ?g mod slots n" by (simp add: level_index_def j)
  show "level_index n (Suc j) = (j div ?g + 1) mod slots n" by (simp add: level_index_def j)
qed

lemma level_index_next:
  "0 < n \<Longrightarrow> j mod gran n = 0 \<Longrightarrow> level_index n (Suc j) = (level_index n j + 1) mod 64"
  using level_index_multiple [of j n] by (simp add: slots_def mod_simps)

lemma level_index_less: "level_index n j < slots n"
  by (simp add: level_index_def slots_def)

lemma level_index_wrap: "n \<le> 4 \<Longrightarrow> level_index n (2 ^ 32) = level_index n 0"
proof -
  assume "n \<le> 4"
  then have d: "gran n * slots n dvd 2 ^ 32"
  proof (cases "n = 0")
    case False
    then have "gran n * slots n = 2 ^ (8 + 6 * n)" by (cases n) (simp_all add: gran_def slots_def power_add)
    then show ?thesis using \<open>n \<le> 4\<close> by (simp only:) (rule le_imp_power_dvd, simp)
  qed (simp add: gran_def slots_def)
  then obtain k where e: "(2 :: nat) ^ 32 = gran n * (slots n * k)" by (metis dvdE mult.assoc)
  have "(2 :: nat) ^ 32 mod gran n = 0" "2 ^ 32 div gran n mod slots n = 0"
    unfolding e using gran_pos [of n] by simp_all
  then show ?thesis using level_index_multiple(1) [of "2 ^ 32" n] level_index_multiple(1) [of 0 n] by simp
qed

lemma cascade_continues:
  assumes "0 < n" and "j mod gran n = 0"
  shows "level_index n (Suc j) = 1 \<longleftrightarrow> j mod gran (Suc n) = 0"
proof -
  obtain q where j: "j = gran n * q" using assms(2) by blast
  have "level_index n (Suc j) = (q + 1) mod 64"
    using level_index_multiple(2) [OF assms(2)] assms(1) by (simp add: j slots_def)
  moreover have "(q + 1) mod 64 = 1 \<longleftrightarrow> q mod 64 = 0" by (auto simp: mod_Suc)
  moreover have "j mod gran (Suc n) = gran n * (q mod 64)"
    unfolding j gran_Suc [OF assms(1)] by (rule mult_mod_right [symmetric])
  then have "j mod gran (Suc n) = 0 \<longleftrightarrow> q mod 64 = 0" using gran_pos [of n] by (metis mult_is_0 neq0_conv)
  ultimately show ?thesis by simp
qed

lemma cascade_levels_wheel:
  assumes "cascade_levels k s = Some s'" and "k \<le> 4" and "j mod gran (5 - k) = 0"
    and "\<forall>m. 5 - k \<le> m \<and> m \<le> 4 \<longrightarrow> unat (tv_index s m) = level_index m j"
  shows "timer_jiffies s' = timer_jiffies s \<and> (\<forall>m < 5 - k. tv_index s' m = tv_index s m) \<and>
    (\<forall>m. 5 - k \<le> m \<and> m \<le> 4 \<longrightarrow> unat (tv_index s' m) = level_index m (Suc j))"
  using assms
proof (induction k arbitrary: s)
  case (Suc k)
  let ?n = "4 - k"
  have n: "0 < ?n" "?n \<le> 4" "5 - Suc k = ?n" "5 - k = Suc ?n" using Suc.prems(2) by simp_all
  obtain s1 where c: "cascade_timers ?n s = Some s1"
    and r: "(if tv_index s1 ?n = 1 then cascade_levels k s1 else Some s1) = Some s'"
    using Suc.prems(1) by (auto split: Option.bind_splits)
  have i: "unat (tv_index s ?n) = level_index ?n j" using Suc.prems(4) n by simp
  then have lt: "unat (tv_index s ?n) < 64" using level_index_less [of ?n j] n(1) by (simp add: slots_def)
  note w = cascade_timers_wheel [OF c lt]
  have jn: "j mod gran ?n = 0" using Suc.prems(3) n(3) by simp
  have i1: "unat (tv_index s1 ?n) = level_index ?n (Suc j)"
    using w(3) i level_index_next [OF n(1) jn] by simp
  show ?case
  proof (cases "tv_index s1 ?n = 1")
    case True
    then have "level_index ?n (Suc j) = 1" using i1 by simp
    then have "j mod gran (5 - k) = 0" using cascade_continues [OF n(1) jn] n(4) by simp
    moreover have "\<forall>m. 5 - k \<le> m \<and> m \<le> 4 \<longrightarrow> unat (tv_index s1 m) = level_index m j"
      using w(2) Suc.prems(4) n(3,4) by auto
    moreover have "cascade_levels k s1 = Some s'" using r True by simp
    ultimately have ih: "timer_jiffies s' = timer_jiffies s1 \<and> (\<forall>m < Suc ?n. tv_index s' m = tv_index s1 m) \<and>
        (\<forall>m. Suc ?n \<le> m \<and> m \<le> 4 \<longrightarrow> unat (tv_index s' m) = level_index m (Suc j))"
      using Suc.IH [of s1] Suc.prems(2) n(4) by simp
    show ?thesis
      unfolding n(3) using ih w(1,2) i1 by (metis Suc_leI less_Suc_eq nat_less_le not_less)
  next
    case False
    then have "s' = s1" using r by simp
    moreover have "level_index ?n (Suc j) \<noteq> 1" using False i1 by (auto simp: word_eq_unat32)
    then have "j mod gran (Suc ?n) \<noteq> 0" using cascade_continues [OF n(1) jn] by simp
    then have "j mod gran m \<noteq> 0" if "?n < m" for m
      using gran_dvd [of "Suc ?n" m] that by (metis Suc_leI dvd_imp_mod_0 mod_0_imp_dvd dvd_trans zero_less_Suc)
    then have "unat (tv_index s1 m) = level_index m (Suc j)" if "?n < m" "m \<le> 4" for m
      using that w(2) [of m] Suc.prems(4) level_index_same [of j m] n(3) by simp
    ultimately show ?thesis
      unfolding n(3) using w(1,2) i1 by (metis nat_less_le not_less)
  qed
qed simp

lemma unat_jiffies_Suc: "n \<le> 4 \<Longrightarrow> level_index n (unat (j + 1 :: u32)) = level_index n (Suc (unat j))"
proof (cases "unat j + 1 < 2 ^ 32")
  case False
  assume n: "n \<le> 4"
  have e: "Suc (unat j) = 2 ^ 32" using False unat_less_32 [of j] by simp
  then have "j = -1" using unat_minus_one_32 by (simp add: word_eq_unat32)
  then show ?thesis using level_index_wrap [OF n] e by simp
qed (simp add: unat_Suc_word)

lemma timer_tick_wheel:
  assumes t: "timer_tick queued b s = Some (b', s')" and inv: "wheel_inv s"
  shows "wheel_inv s' \<and> timer_jiffies s' = timer_jiffies s + 1"
proof -
  let ?j = "unat (timer_jiffies s)" and ?s0 = "upd_lh (INIT_LIST_HEAD queued) s"
  from t obtain s1 s2 where
    c: "(if tv_index s 0 = 0 then cascade_levels 4 ?s0 else Some ?s0) = Some s1"
    and e: "run_expired b (s1\<lparr>run_timer_list_running := queued\<rparr>) = Some (b', s2)"
    and r: "\<exists>s3. s3 = set_index 0 ((tv_index s2 0 + 1) AND 255)
        (s2\<lparr>run_timer_list_running := 0, timer_jiffies := timer_jiffies s2 + 1\<rparr>) \<and>
      requeue_timers queued (nxt (lh s3) queued) s3 = Some s'"
    by (auto simp: timer_tick_def Let_def set_index_def split: Option.bind_splits if_splits)
  have i0: "unat (tv_index s m) = level_index m ?j" if "m \<le> 4" for m using inv that by (simp add: wheel_inv_def)
  have s1: "timer_jiffies s1 = timer_jiffies s" "tv_index s1 0 = tv_index s 0"
    "0 < m \<Longrightarrow> m \<le> 4 \<Longrightarrow> unat (tv_index s1 m) = level_index m (Suc ?j)" for m
  proof -
    have z: "tv_index s 0 = 0 \<longleftrightarrow> ?j mod gran 1 = 0"
      using i0 [of 0] by (simp add: level_index_0 gran_def word_eq_unat32)
    have "timer_jiffies s1 = timer_jiffies s \<and> tv_index s1 0 = tv_index s 0 \<and>
        (\<forall>m. 0 < m \<and> m \<le> 4 \<longrightarrow> unat (tv_index s1 m) = level_index m (Suc ?j))"
    proof (cases "tv_index s 0 = 0")
      case True
      then have "cascade_levels 4 ?s0 = Some s1" using c by simp
      from cascade_levels_wheel [OF this, of ?j] show ?thesis using z True i0 by simp
    next
      case False
      then have "?j mod gran m \<noteq> 0" if "0 < m" for m
        using z gran_dvd [of 1 m] that by (metis Suc_leI One_nat_def dvd_imp_mod_0 mod_0_imp_dvd dvd_trans zero_less_one)
      then show ?thesis using False c i0 level_index_same by auto
    qed
    then show "timer_jiffies s1 = timer_jiffies s" "tv_index s1 0 = tv_index s 0"
      "0 < m \<Longrightarrow> m \<le> 4 \<Longrightarrow> unat (tv_index s1 m) = level_index m (Suc ?j)" by simp_all
  qed
  have s2: "tv_index s2 = tv_index s1" "timer_jiffies s2 = timer_jiffies s1"
    using same_wheel_run_expired [OF e] by (simp_all add: same_wheel_def)
  have s': "tv_index s' = (tv_index s1)(0 := (tv_index s 0 + 1) AND 255)" "timer_jiffies s' = timer_jiffies s + 1"
    using r s1(1,2) s2 same_wheel_requeue by (fastforce simp: same_wheel_def set_index_def)+
  have "?j mod 256 + 1 < 2 ^ 32" by (rule le_less_trans [of _ 256]) (simp_all add: Suc_leI)
  then have "unat (tv_index s 0 + 1) = ?j mod 256 + 1"
    using i0 [of 0] unat_Suc_word [of "tv_index s 0"] by (simp add: level_index_0)
  then have "unat ((tv_index s 0 + 1) AND 255) = level_index 0 (Suc ?j)"
    by (simp add: and_mask_8 level_index_0 mod_simps)
  then have "unat (tv_index s' m) = level_index m (Suc ?j)" if "m \<le> 4" for m
    using that s1(3) [of m] s'(1) by (cases "m = 0") simp_all
  then show ?thesis using s'(2) unat_jiffies_Suc by (simp add: wheel_inv_def)
qed

section \<open>The slot of a timer\<close>

text \<open>The list \<open>i\<close> of level \<open>n\<close> is run (level 0) or cascaded in the round for time \<open>u\<close>: by the
  invariant, level \<open>n\<close> is reached at the multiples of its granularity, with this index.\<close>

definition visits :: "nat \<Rightarrow> u32 \<Rightarrow> nat \<Rightarrow> bool" where
  "visits n i u \<longleftrightarrow> u mod gran n = 0 \<and> unat i = u div gran n mod slots n"

lemma unat_expires:
  fixes exp :: u32
  assumes "k + 6 \<le> 32"
  shows "unat (drop_bit k exp AND 63) = (unat jiffies + unat (exp - jiffies)) div 2 ^ k mod 64"
proof -
  let ?e = "unat jiffies + unat (exp - jiffies)"
  have "exp = jiffies + (exp - jiffies)" by simp
  then have e: "unat exp = ?e mod 2 ^ 32" using unat_word_ariths(1) [of jiffies "exp - jiffies"] by simp
  have "take_bit 6 (drop_bit k (take_bit 32 ?e)) = take_bit 6 (drop_bit k ?e)"
    using assms by (simp add: take_bit_drop_bit min_def)
  then have "?e mod 2 ^ 32 div 2 ^ k mod 2 ^ 6 = ?e div 2 ^ k mod 2 ^ 6"
    by (simp only: take_bit_eq_mod drop_bit_eq_div)
  then show ?thesis by (simp add: and_mask_6 unat_drop_bit_32 e)
qed

lemma unat_expires_0:
  fixes exp :: u32
  shows "unat (exp AND 255) = (unat jiffies + unat (exp - jiffies)) mod 256"
proof -
  have "exp = jiffies + (exp - jiffies)" by simp
  then have "unat exp = (unat jiffies + unat (exp - jiffies)) mod 2 ^ 32"
    using unat_word_ariths(1) [of jiffies "exp - jiffies"] by simp
  then show ?thesis by (simp add: and_mask_8 mod_mod_cancel)
qed

lemma timer_slot_level:
  assumes "unat (exp - jiffies) < 2 ^ 31" and "timer_slot exp jiffies x = (n, i)"
  shows "unat i = (unat jiffies + unat (exp - jiffies)) div gran n mod slots n"
    and "unat (exp - jiffies) < gran n * slots n" and "0 < n \<Longrightarrow> gran n \<le> unat (exp - jiffies)" and "n \<le> 4"
proof -
  let ?d = "exp - jiffies"
  have ns: "\<not> ?d <s 0" using sless_small [of ?d 0] assms(1) by simp
  have lims: "unat (push_bit 14 1 :: u32) = 2 ^ 14" "unat (push_bit 20 1 :: u32) = 2 ^ 20" "unat (push_bit 26 1 :: u32) = 2 ^ 26"
    by simp_all
  consider (0) "unat ?d < 256" | (1) "256 \<le> unat ?d" "unat ?d < 2 ^ 14" | (2) "2 ^ 14 \<le> unat ?d" "unat ?d < 2 ^ 20"
    | (3) "2 ^ 20 \<le> unat ?d" "unat ?d < 2 ^ 26" | (4) "2 ^ 26 \<le> unat ?d" by linarith
  then have "unat i = (unat jiffies + unat ?d) div gran n mod slots n \<and> unat ?d < gran n * slots n \<and>
      (0 < n \<longrightarrow> gran n \<le> unat ?d) \<and> n \<le> 4"
  proof cases
    case 0
    then have "n = 0" "i = exp AND 255" using assms(2) by (auto simp: timer_slot_def Let_def word_less_nat_alt)
    then show ?thesis using 0 unat_expires_0 [of exp jiffies] by (simp add: gran_def slots_def)
  next
    case 1
    then have "n = 1" "i = drop_bit 8 exp AND 63" using assms(2)
      by (auto simp: timer_slot_def Let_def word_less_nat_alt lims)
    then show ?thesis using 1 unat_expires [of 8 exp jiffies] by (simp add: gran_def slots_def)
  next
    case 2
    then have "n = 2" "i = drop_bit 14 exp AND 63" using assms(2)
      by (auto simp: timer_slot_def Let_def word_less_nat_alt lims)
    then show ?thesis using 2 unat_expires [of 14 exp jiffies] by (simp add: gran_def slots_def)
  next
    case 3
    then have "n = 3" "i = drop_bit 20 exp AND 63" using assms(2)
      by (auto simp: timer_slot_def Let_def word_less_nat_alt lims)
    then show ?thesis using 3 unat_expires [of 20 exp jiffies] by (simp add: gran_def slots_def)
  next
    case 4
    then have "n = 4" "i = drop_bit 26 exp AND 63" using assms(2) ns
      by (auto simp: timer_slot_def Let_def word_less_nat_alt lims)
    then show ?thesis using 4 assms(1) unat_expires [of 26 exp jiffies] by (simp add: gran_def slots_def)
  qed
  then show "unat i = (unat jiffies + unat ?d) div gran n mod slots n" "unat ?d < gran n * slots n"
    "0 < n \<Longrightarrow> gran n \<le> unat ?d" "n \<le> 4" by simp_all
qed

lemma mod_apart:
  fixes a b m :: nat
  assumes "a < b" and "b - a < m"
  shows "a mod m \<noteq> b mod m"
proof
  assume "a mod m = b mod m"
  then have "m dvd b - a" using assms(1) by (metis mod_eq_dvd_iff_nat less_imp_le)
  then show False using assms by (metis dvd_imp_le not_less zero_less_diff)
qed

lemma reslot_lower:
  assumes "unat (exp - jiffies) < gran n" and "0 < n" and "n \<le> 4"
  shows "fst (timer_slot exp jiffies y) < n"
proof -
  have "unat (exp - jiffies) < 2 ^ 31"
  proof -
    have "gran n \<le> 2 ^ 26" using assms(2,3) by (auto simp: gran_def intro!: power_increasing [of _ 26 "2 :: nat", simplified])
    then show ?thesis using assms(1) by simp
  qed
  moreover obtain m i where m: "timer_slot exp jiffies y = (m, i)" by fastforce
  ultimately have "0 < m \<Longrightarrow> gran m \<le> unat (exp - jiffies)" using timer_slot_level(3) by blast
  then have "0 < m \<Longrightarrow> gran m < gran n" using assms(1) by simp
  moreover have "gran n \<le> gran m" if "n \<le> m" using gran_dvd [OF assms(2) that] by (simp add: dvd_imp_le)
  ultimately show ?thesis using m assms(2) by (metis fst_conv gr0I not_less)
qed

section \<open>Theorems\<close>

text \<open>C25. Every round of the timer interrupt advances the clock of the wheel by one tick and keeps its
  indices right: before the round for time \<open>j\<close>, level 0 points at list \<open>j mod 256\<close>, and each upper
  level at the list of the next multiple of its granularity; also when the 32-bit clock wraps.\<close>

theorem timer_wheel_invariant:
  assumes "wheel_inv s" and "timer_tick queued b s = Some (b', s')"
  shows "wheel_inv s' \<and> timer_jiffies s' = timer_jiffies s + 1"
  by (rule timer_tick_wheel [OF assms(2,1)])

text \<open>At time 0 with empty lists; all five levels cascade.\<close>

lemma cascade_empty:
  assumes "tvec_addr s n + 4 + 8 * tv_index s n = h" and "nxt (lh s) h = h" and "prv (lh s) h = h"
  shows "cascade_timers n s = Some (set_index n ((tv_index s n + 1) AND 63) s)"
proof -
  have "INIT_LIST_HEAD h (lh s) = lh s" using assms(2,3) by (simp add: INIT_LIST_HEAD_def heap_upd fun_upd_idem)
  then show ?thesis using assms(1,2)
    by (simp add: cascade_timers_def tvec_def cascade_loop.simps upd_lh_def)
qed

theorem timer_wheel_invariant_witness:
  "\<exists>s'. timer_tick 0xc0030000 False boot_kstate = Some (False, s') \<and> wheel_inv s' \<and> timer_jiffies s' = 1"
proof -
  let ?s = boot_kstate
  have w: "wheel_inv ?s" by (simp add: wheel_inv_def boot_kstate_def level_index_def slots_def)
  have e: "nxt (lh ?s) h = h" "prv (lh ?s) h = h" "tv_index ?s n = 0" for h n by (simp_all add: boot_kstate_def)
  have i: "upd_lh (INIT_LIST_HEAD 0xc0030000) ?s = ?s"
    by (simp add: upd_lh_def boot_kstate_def INIT_LIST_HEAD_def heap_upd fun_upd_idem)
  define t where "t k = ?s\<lparr>tv_index := (\<lambda>n. if 1 \<le> n \<and> n < k then 1 else 0)\<rparr>" for k :: nat
  have st: "cascade_timers n (t n) = Some (t (Suc n))" if "1 \<le> n" for n
    using that by (subst cascade_empty [OF refl]) (auto simp: t_def boot_kstate_def set_index_def fun_eq_iff)
  have ti: "tv_index (t (Suc n)) n = 1" if "1 \<le> n" for n using that by (simp add: t_def)
  have "k \<le> 4 \<Longrightarrow> cascade_levels k (t (5 - k)) = Some (t 5)" for k
  proof (induction k)
    case (Suc k)
    then have e: "5 - k = Suc (4 - k)" "1 \<le> 4 - k" "5 - Suc k = 4 - k" by simp_all
    then show ?case using Suc st [OF e(2)] ti [OF e(2)] by (simp add: e)
  qed simp
  from this [of 4] have "cascade_levels 4 (t 1) = Some (t 5)" by simp
  moreover have "t 1 = ?s" by (auto simp: t_def boot_kstate_def)
  ultimately have "cascade_levels 4 ?s = Some (t 5)" by simp
  moreover have "nxt (lh (t 5)) h = h" "tv_index (t 5) 0 = 0" for h by (simp_all add: t_def boot_kstate_def)
  ultimately obtain s' where s': "timer_tick 0xc0030000 False ?s = Some (False, s')"
    using e by (simp add: timer_tick_def i Let_def run_expired.simps requeue_timers.simps set_index_def)
  from timer_wheel_invariant [OF w s'] show ?thesis using s' by (simp add: boot_kstate_def)
qed

text \<open>C35. A timer due within \<open>2 ^ 31\<close> ticks is put on a list of the wheel that is visited at or before
  its time and not before in between: for level 0 the visit is exactly at its time, for an upper level
  it is at its time rounded down to the granularity, and cascading it then moves it to a lower level.
  Together with the invariant of the indices no timer is late and none is lost.\<close>

theorem timer_slot_due:
  fixes exp jiffies :: u32
  assumes "unat (exp - jiffies) < 2 ^ 31" and "timer_slot exp jiffies x = (n, i)"
  defines "e \<equiv> unat jiffies + unat (exp - jiffies)"
  defines "t \<equiv> gran n * (e div gran n)"
  shows "unat jiffies \<le> t \<and> t \<le> e \<and> (n = 0 \<longrightarrow> t = e) \<and> visits n i t \<and>
    (\<forall>u. unat jiffies \<le> u \<and> u < t \<longrightarrow> \<not> visits n i u) \<and>
    (0 < n \<longrightarrow> unat jiffies < t \<and> fst (timer_slot exp (of_nat t) y) < n)"
proof -
  let ?j = "unat jiffies" and ?d = "unat (exp - jiffies)" and ?g = "gran n"
  note l = timer_slot_level [OF assms(1,2), folded e_def]
  have t: "t \<le> e" "e - t < ?g" "t = e - e mod ?g" using gran_pos [of n]
    by (simp_all add: t_def minus_mult_div_eq_mod minus_mod_eq_mult_div)
  have 0: "t = e" if "n = 0" using that by (simp add: t_def gran_def)
  have pos: "?j < t" if "0 < n" using l(3) [OF that] t(1,2) by (simp add: e_def)
  have jt: "?j \<le> t" using 0 pos by (cases "n = 0") (auto simp: e_def)
  have v: "visits n i t" using l(1) gran_pos [of n] by (simp add: visits_def t_def)
  have first: "\<not> visits n i u" if u: "?j \<le> u" "u < t" for u
  proof
    assume vu: "visits n i u"
    then obtain a where a: "u = ?g * a" by (auto simp: visits_def)
    let ?b = "e div ?g"
    have "?g * a < ?g * ?b" using u(2) a by (simp add: t_def)
    then have ab: "a < ?b" by simp
    have "?g * (?b - a) = t - u" by (simp add: t_def a diff_mult_distrib2)
    also have "... \<le> ?d" using u(1) t(1) by (simp add: e_def)
    finally have "?g * (?b - a) < ?g * slots n" using l(2) by (rule le_less_trans)
    then have "?b - a < slots n" by (simp only: mult_less_cancel1)
    then have "a mod slots n \<noteq> ?b mod slots n" by (rule mod_apart [OF ab])
    moreover have "unat i = a mod slots n" using vu a gran_pos [of n] by (simp add: visits_def)
    ultimately show False using l(1) by simp
  qed
  have lower: "fst (timer_slot exp (of_nat t) y) < n" if "0 < n"
  proof (rule reslot_lower [OF _ that l(4)])
    have ex: "exp = of_nat e" unfolding e_def by (simp add: of_nat_unat ucast_id)
    have "exp - of_nat t = of_nat (e - t)" using t(1) by (simp add: ex of_nat_diff)
    moreover have "e - t < 2 ^ 32" using jt t(1) assms(1) by (simp add: e_def)
    ultimately show "unat (exp - of_nat t) < ?g" using t(2) by (simp add: unat_of_nat_32)
  qed
  show ?thesis using t(1) 0 pos jt v first lower by blast
qed

text \<open>A timer for time 1000, set at time 10: it waits in the fourth list of level 1, which is cascaded
  at time 768.\<close>

theorem timer_slot_due_witness:
  "timer_slot 1000 10 0 = (1, 3) \<and> visits 1 3 768 \<and> fst (timer_slot 1000 768 0) < 1"
proof -
  have s: "timer_slot 1000 10 0 = (1, 3)" by (simp add: timer_slot_def)
  have "gran 1 = 256" by (simp add: gran_def)
  then show ?thesis using timer_slot_due [OF _ s, of 0] s by simp
qed

section \<open>Software interrupts other than the first\<close>

text \<open>The loop never tests a bit other than bit 0, so it does not end when another one is pending.\<close>

lemma softirq_loop_stuck:
  assumes "softirq_loop hs h s = Some s'" and "bit (g_softirq_pending s) k" and "0 < k"
    and "\<And>h s s'. hs h s = Some s' \<Longrightarrow> bit (g_softirq_pending s) k \<Longrightarrow> bit (g_softirq_pending s') k"
  shows False
  using assms
proof (induction rule: softirq_loop.raw_induct [rotated 1, consumes 1])
  case (1 loop hs h s s')
  from 1(2) obtain s1 where
    a: "(if g_softirq_pending s AND push_bit 0 1 \<noteq> 0 then hs h (clear_softirq 0 s) else Some s) = Some s1"
    and l: "(if g_softirq_pending s1 \<noteq> 0 then loop hs (Suc h) s1 else Some s1) = Some s'"
    by (auto split: Option.bind_splits)
  have "bit (g_softirq_pending (clear_softirq 0 s)) k"
    using 1(3,4) by (auto simp: clear_softirq_def bit_simps dest: bit_imp_le_length)
  then have b: "bit (g_softirq_pending s1) k" using a 1(3) 1(5) by (auto split: if_splits)
  then have "g_softirq_pending s1 \<noteq> 0" by auto
  then show False using l 1(1) [of hs "Suc h" s1 s'] b 1(4,5) by auto
qed

lemma do_softirq_never_returns:
  assumes "bit (g_softirq_pending s) k" and "0 < k"
    and "\<And>h s s'. hs h s = Some s' \<Longrightarrow> bit (g_softirq_pending s) k \<Longrightarrow> bit (g_softirq_pending s') k"
  shows "do_softirq hs s = None"
  using softirq_loop_stuck [of hs 0 s _ k] assms unfolding do_softirq_def by (cases "softirq_loop hs 0 s") blast+

end
