(* ===== verification/Threads.thy ===== *)
theory Threads
  imports Alloc Timer
begin

text \<open>
  Creation and end of threads and processes: the rest of \<^verbatim>\<open>core/thread/threads.c\<close> (process
  identifiers, \<^verbatim>\<open>init_thread\<close>, \<^verbatim>\<open>create_thread\<close>, \<^verbatim>\<open>thread_start\<close>,
  \<^verbatim>\<open>thread_exit\<close>, \<^verbatim>\<open>thread_init\<close>) and \<^verbatim>\<open>core/thread/process.c\<close>. The addresses of
  code that the program stores in frames are link-time constants, collected in a record that is an
  argument.
\<close>

section \<open>Process identifiers\<close>

definition init_pid_bitmap :: "u32 \<Rightarrow> kstate \<Rightarrow> kstate" where
  "init_pid_bitmap len s =
     (let s = s\<lparr>pid_start := 1, pid_bm := (pid_bm s)\<lparr>map_bytes_length := len\<rparr>\<rparr>;
          s = lock_init (pid_lock s) s
      in s\<lparr>pid_bm := init_bitmap (pid_bm s)\<rparr>)"

definition allocate_pid :: "(kstate \<Rightarrow> kstate option) \<Rightarrow> kstate \<Rightarrow> (u32 \<times> kstate) option" where
  "allocate_pid W s = do {
     s \<leftarrow> lock_fetch W (pid_lock s) s;
     let base = pid_start s;
     pos \<leftarrow> find_block_bitmap (pid_bm s) 1;
     b \<leftarrow> set_value_bitmap (pid_bm s) pos 1;
     s \<leftarrow> lock_release (pid_lock s) (s\<lparr>pid_bm := b\<rparr>);
     Some (base + pos, s)
   }"

definition release_pid :: "(kstate \<Rightarrow> kstate option) \<Rightarrow> u32 \<Rightarrow> kstate \<Rightarrow> kstate option" where
  "release_pid W p s = do {
     s \<leftarrow> lock_fetch W (pid_lock s) s;
     ASSERT (p \<ge> pid_start s);
     let pos = p - pid_start s;
     b \<leftarrow> set_value_bitmap (pid_bm s) pos 0;
     lock_release (pid_lock s) (s\<lparr>pid_bm := b\<rparr>)
   }"

definition fork_pid :: "(kstate \<Rightarrow> kstate option) \<Rightarrow> kstate \<Rightarrow> (u32 \<times> kstate) option" where
  "fork_pid W s = allocate_pid W s"

section \<open>Threads\<close>

record code_addrs =
  kernel_thread_fn :: u32
  start_process_fn :: u32
  start_process_ring1_fn :: u32
  idle_fn :: u32
  init_fn :: u32

text \<open>The control block takes 424 bytes. A name of 16 bytes or more leaves its array.\<close>

definition init_thread :: "(kstate \<Rightarrow> kstate option) \<Rightarrow> addr \<Rightarrow> u8 list \<Rightarrow> u8 \<Rightarrow> kstate \<Rightarrow> kstate option" where
  "init_thread W thread nm prio s = do {
     s \<leftarrow> memset0 thread 424 s;
     let s = upd_tcb thread (\<lambda>t. t\<lparr>fd_table := (\<lambda>i. if i < 3 then of_nat i else if i < 32 then -1 else fd_table t i)\<rparr>) s;
     (p, s) \<leftarrow> allocate_pid W s;
     ASSERT (length nm < 16);
     Some (upd_tcb thread (\<lambda>t. t\<lparr>pid := p, tname := nm,
       status := (if thread = main_thread s then THREAD_TASK_RUNNING else THREAD_TASK_READY),
       self_kstack := thread + 4096, priority := ucast prio, tticks := ucast prio, elapsed_ticks := 0,
       pgdir := 0, cwd_inode_nr := 0, parent_pid := -1, stack_magic := 0x19900921\<rparr>) s)
   }"

text \<open>The frame of 19 registers, then the frame of \<open>struct thread_stack\<close> below it.\<close>

definition create_thread :: "code_addrs \<Rightarrow> addr \<Rightarrow> u32 \<Rightarrow> u32 \<Rightarrow> kstate \<Rightarrow> kstate" where
  "create_thread k thread func arg s =
     (let s = upd_tcb thread (\<lambda>t. t\<lparr>self_kstack := self_kstack t - 76\<rparr>) s;
          s = upd_tcb thread (\<lambda>t. t\<lparr>self_kstack := self_kstack t - 32\<rparr>) s;
          kthread_stack = self_kstack (tcbs s thread)
      in s\<lparr>kstacks := (kstacks s)(kthread_stack := \<lparr>ts_ebp = 0, ts_ebx = 0, ts_edi = 0, ts_esi = 0,
           ts_eip = kernel_thread_fn k, ts_function = func, ts_func_arg = arg\<rparr>)\<rparr>)"

text \<open>Queue a new thread on the ready list and on the list of all threads.\<close>

definition enlist_thread :: "addr \<Rightarrow> kstate \<Rightarrow> kstate option" where
  "enlist_thread thread s = do {
     b \<leftarrow> list_find_element (general_tag thread) (thread_ready_list s) (lh s);
     ASSERT (\<not> b);
     let s = upd_lh (list_add_tail (general_tag thread) (thread_ready_list s)) s;
     b \<leftarrow> list_find_element (all_list_tag thread) (thread_all_list s) (lh s);
     ASSERT (\<not> b);
     Some (upd_lh (list_add_tail (all_list_tag thread) (thread_all_list s)) s)
   }"

definition thread_start ::
    "(kstate \<Rightarrow> kstate option) \<Rightarrow> code_addrs \<Rightarrow> u8 list \<Rightarrow> u32 \<Rightarrow> u32 \<Rightarrow> u32 \<Rightarrow> kstate \<Rightarrow> (addr \<times> kstate) option" where
  "thread_start W k nm prio func arg s = do {
     (thread, s) \<leftarrow> get_kernel_page W 1 s;
     s \<leftarrow> init_thread W thread nm (ucast prio) s;
     s \<leftarrow> enlist_thread thread (create_thread k thread func arg s);
     Some (thread, s)
   }"

definition make_main_thread :: "(kstate \<Rightarrow> kstate option) \<Rightarrow> kstate \<Rightarrow> kstate option" where
  "make_main_thread W s = do {
     let s = s\<lparr>main_thread := running_thread s\<rparr>;
     s \<leftarrow> init_thread W (main_thread s) [0x6d, 0x61, 0x69, 0x6e] 42 s;
     let s = upd_tcb (main_thread s) (\<lambda>t. t\<lparr>pid := 0\<rparr>) s;
     b \<leftarrow> list_find_element (all_list_tag (main_thread s)) (thread_all_list s) (lh s);
     ASSERT (\<not> b);
     Some (upd_lh (list_add_tail (all_list_tag (main_thread s)) (thread_all_list s)) s)
   }"

text \<open>With \<open>need_schedule\<close> the caller never comes back: it panics if it is scheduled again.\<close>

definition thread_exit :: "(kstate \<Rightarrow> kstate option) \<Rightarrow> addr \<Rightarrow> bool \<Rightarrow> kstate \<Rightarrow> kstate option" where
  "thread_exit W discard_thread need_schedule s = do {
     let s = snd (intr_disable s);
     let s = upd_tcb discard_thread (\<lambda>t. t\<lparr>status := THREAD_TASK_DIED\<rparr>) s;
     b \<leftarrow> list_find_element (general_tag discard_thread) (thread_ready_list s) (lh s);
     let s = (if b then upd_lh (list_del_init (general_tag discard_thread)) s else s);
     s \<leftarrow> (if pgdir (tcbs s discard_thread) \<noteq> 0
           then mfree_page MP_KERNEL (pgdir (tcbs s discard_thread)) 1 s else Some s);
     let s = upd_lh (list_del_init (all_list_tag discard_thread)) s;
     s \<leftarrow> (if discard_thread \<noteq> main_thread s then mfree_page MP_KERNEL discard_thread 1 s else Some s);
     s \<leftarrow> release_pid W (pid (tcbs s discard_thread)) s;
     if need_schedule then do { s \<leftarrow> schedule W s; PANIC } else Some s
   }"

text \<open>One round of the loop of the idle thread: it blocks, and halts with interrupts on when it is
  resumed.\<close>

definition idle_round :: "(kstate \<Rightarrow> kstate option) \<Rightarrow> kstate \<Rightarrow> kstate option" where
  "idle_round W s = do { s \<leftarrow> thread_block W THREAD_TASK_BLOCKED s; Some (s\<lparr>intr := True\<rparr>) }"

section \<open>Processes\<close>

text \<open>The registers that \<open>intr_exit\<close> loads when the new process starts in user mode (\<open>vector_no\<close>
  and \<open>err_code\<close>, which it skips, are left out).\<close>

record context_registers =
  cr_edi :: u32
  cr_esi :: u32
  cr_ebp :: u32
  cr_esp :: u32
  cr_ebx :: u32
  cr_edx :: u32
  cr_ecx :: u32
  cr_eax :: u32
  cr_gs :: u32
  cr_fs :: u32
  cr_es :: u32
  cr_ds :: u32
  cr_eip :: u32
  cr_cs :: u32
  cr_eflags :: u32
  cr_esp_ptr :: u32
  cr_ss :: u32

definition CREATE_SELECTOR :: "u32 \<Rightarrow> u32 \<Rightarrow> u32 \<Rightarrow> u32" where
  "CREATE_SELECTOR idx ti rpl = push_bit 3 idx + ti + rpl"

definition user_frame :: "u32 \<Rightarrow> u32 \<Rightarrow> u32 \<Rightarrow> u32 \<Rightarrow> context_registers" where
  "user_frame func esp code dat =
     \<lparr>cr_edi = 0, cr_esi = 0, cr_ebp = 0, cr_esp = 0, cr_ebx = 0, cr_edx = 0, cr_ecx = 0, cr_eax = 0, cr_gs = 0,
      cr_fs = dat, cr_es = dat, cr_ds = dat, cr_eip = func, cr_cs = code,
      cr_eflags = (push_bit 12 0 OR push_bit 9 1 OR push_bit 1 1), cr_esp_ptr = esp, cr_ss = dat\<rparr>"

definition start_process :: "u32 \<Rightarrow> kstate \<Rightarrow> (context_registers \<times> kstate) option" where
  "start_process filename s = do {
     let cur = running_thread s;
     let s = upd_tcb cur (\<lambda>t. t\<lparr>self_kstack := self_kstack t + 32\<rparr>) s;
     (page, s) \<leftarrow> malloc_page_with_vaddr MP_USER (0xc0000000 - 0x1000) s;
     Some (user_frame filename (page + 4096) (CREATE_SELECTOR 6 0 3) (CREATE_SELECTOR 7 0 3), s)
   }"

text \<open>Here the size is added to a pointer to words: the stack pointer moves by four times as much.\<close>

definition start_process_ring1 :: "u32 \<Rightarrow> kstate \<Rightarrow> (context_registers \<times> kstate) option" where
  "start_process_ring1 filename s = do {
     let cur = running_thread s;
     let s = upd_tcb cur (\<lambda>t. t\<lparr>self_kstack := self_kstack t + 4 * 32\<rparr>) s;
     (page, s) \<leftarrow> malloc_page_with_vaddr MP_USER (0xc0000000 - 0x1000) s;
     Some (user_frame filename (page + 4096) (CREATE_SELECTOR 8 0 1) (CREATE_SELECTOR 9 0 1), s)
   }"

text \<open>\<open>memcpy\<close> of \<open>n\<close> words.\<close>

primrec copy_words :: "nat \<Rightarrow> u32 \<Rightarrow> u32 \<Rightarrow> kstate \<Rightarrow> kstate option" where
  "copy_words 0 dst src s = Some s"
| "copy_words (Suc n) dst src s = do {
     w \<leftarrow> vread src s;
     s \<leftarrow> vwrite dst w s;
     copy_words n (dst + 4) (src + 4) s
   }"

definition create_page_dir :: "(kstate \<Rightarrow> kstate option) \<Rightarrow> kstate \<Rightarrow> (addr \<times> kstate) option" where
  "create_page_dir W s = do {
     (page_dir_vaddr, s) \<leftarrow> get_kernel_page W 1 s;
     if page_dir_vaddr = 0 then Some (0, s)
     else do {
       s \<leftarrow> copy_words 256 (page_dir_vaddr + 0x300 * 4) (0xfffff000 + 0x300 * 4) s;
       p \<leftarrow> addr_v2p page_dir_vaddr s;
       s \<leftarrow> vwrite (page_dir_vaddr + 1023 * 4) (p OR 4 OR 2 OR 1) s;
       Some (page_dir_vaddr, s)
     }
   }"

definition create_user_vaddr_bitmap :: "(kstate \<Rightarrow> kstate option) \<Rightarrow> addr \<Rightarrow> kstate \<Rightarrow> kstate option" where
  "create_user_vaddr_bitmap W user_prog s = do {
     let bitmap_len = DIV_ROUND_UP ((0xc0000000 - 0x08000000) div 4096) 8;
     let s = upd_tcb user_prog (\<lambda>t. t\<lparr>progress_vaddr := (progress_vaddr t)\<lparr>vaddr_start := 0x08000000\<rparr>\<rparr>) s;
     (bits_addr, s) \<leftarrow> get_kernel_page W (DIV_ROUND_UP bitmap_len 4096) s;
     Some (upd_tcb user_prog (\<lambda>t. t\<lparr>progress_vaddr := (progress_vaddr t)
       \<lparr>vaddr_bitmap := init_bitmap ((vaddr_bitmap (progress_vaddr t))\<lparr>map_bytes_length := bitmap_len\<rparr>)\<rparr>\<rparr>) s)
   }"

definition process_execute ::
    "(kstate \<Rightarrow> kstate option) \<Rightarrow> code_addrs \<Rightarrow> u32 \<Rightarrow> u8 list \<Rightarrow> kstate \<Rightarrow> kstate option" where
  "process_execute W k filename nm s = do {
     (thread, s) \<leftarrow> get_kernel_page W 1 s;
     s \<leftarrow> init_thread W thread nm 30 s;
     s \<leftarrow> create_user_vaddr_bitmap W thread s;
     let s = create_thread k thread (start_process_fn k) filename s;
     (dir, s) \<leftarrow> create_page_dir W s;
     let s = upd_tcb thread (\<lambda>t. t\<lparr>pgdir := dir\<rparr>) s;
     let s = block_desc_init (u_block_descs thread) s;
     let (old_status, s) = intr_disable s;
     s \<leftarrow> enlist_thread thread s;
     Some (intr_set_status old_status s)
   }"

definition process_execute_ring1 ::
    "(kstate \<Rightarrow> kstate option) \<Rightarrow> code_addrs \<Rightarrow> u32 \<Rightarrow> u8 list \<Rightarrow> kstate \<Rightarrow> kstate option" where
  "process_execute_ring1 W k filename nm s = do {
     (thread, s) \<leftarrow> get_kernel_page W 1 s;
     s \<leftarrow> init_thread W thread nm 30 s;
     s \<leftarrow> create_user_vaddr_bitmap W thread s;
     let s = create_thread k thread (start_process_ring1_fn k) filename s;
     (dir, s) \<leftarrow> create_page_dir W s;
     let s = upd_tcb thread (\<lambda>t. t\<lparr>pgdir := dir\<rparr>) s;
     let (old_status, s) = intr_disable s;
     s \<leftarrow> enlist_thread thread s;
     Some (intr_set_status old_status s)
   }"

definition init_timer_manager :: "kstate \<Rightarrow> kstate" where
  "init_timer_manager s = init_timervecs s"

definition thread_init :: "(kstate \<Rightarrow> kstate option) \<Rightarrow> code_addrs \<Rightarrow> kstate \<Rightarrow> kstate option" where
  "thread_init W k s = do {
     let s = init_timer_manager s;
     let s = upd_lh (INIT_LIST_HEAD (thread_ready_list s)) s;
     let s = upd_lh (INIT_LIST_HEAD (thread_all_list s)) s;
     (pid_bitmap, s) \<leftarrow> get_kernel_page W 1 s;
     if pid_bitmap = 0 then PANIC
     else do {
       let s = init_pid_bitmap 4096 s;
       s \<leftarrow> process_execute W k (init_fn k) [0x69, 0x6e, 0x69, 0x74] s;
       s \<leftarrow> make_main_thread W s;
       (t, s) \<leftarrow> thread_start W k [0x69, 0x64, 0x6c, 0x65] 10 (idle_fn k) 0 s;
       Some (s\<lparr>idle_thread := t\<rparr>)
     }
   }"

section \<open>Identifiers of live threads\<close>

text \<open>Bit \<open>i\<close> of the map stands for the identifier \<open>pid_start + i\<close>.\<close>

definition pid_in_use :: "kstate \<Rightarrow> u32 \<Rightarrow> bool" where
  "pid_in_use s p \<longleftrightarrow> p \<ge> pid_start s \<and> is_set (pid_bm s) (unat (p - pid_start s))"

definition pids_ok :: "kstate \<Rightarrow> bool" where
  "pids_ok s \<longleftrightarrow> wf_bitmap (pid_bm s) \<and> unat (pid_start s) + nbits (pid_bm s) < 2 ^ 32 \<and>
     lock_free (pid_lock s) s \<and> running s \<noteq> 0"

lemma pid_section:
  assumes "pids_ok s"
  shows "lock_fetch W (pid_lock s) s = Some (lock_held (pid_lock s) 1 s)"
    and "lock_release (pid_lock s) ((lock_held (pid_lock s) 1 s)\<lparr>pid_bm := b\<rparr>) = Some (s\<lparr>pid_bm := b\<rparr>)"
proof -
  show "lock_fetch W (pid_lock s) s = Some (lock_held (pid_lock s) 1 s)"
    using assms by (intro lock_fetch_free) (simp_all add: pids_ok_def)
  have "lock_free (pid_lock s) (s\<lparr>pid_bm := b\<rparr>)" using assms by (simp add: pids_ok_def lock_free_def)
  moreover have "(lock_held (pid_lock s) 1 s)\<lparr>pid_bm := b\<rparr> = lock_held (pid_lock s) 1 (s\<lparr>pid_bm := b\<rparr>)"
    by (simp add: lock_held_def)
  ultimately
  show "lock_release (pid_lock s) ((lock_held (pid_lock s) 1 s)\<lparr>pid_bm := b\<rparr>) = Some (s\<lparr>pid_bm := b\<rparr>)"
    by (metis lock_release_last)
qed

lemma allocate_pid_eq:
  assumes "pids_ok s"
  shows "allocate_pid W s = do {
     pos \<leftarrow> find_block_bitmap (pid_bm s) 1;
     b \<leftarrow> set_value_bitmap (pid_bm s) pos 1;
     Some (pid_start s + pos, s\<lparr>pid_bm := b\<rparr>) }"
proof -
  have "pid_bm (lock_held (pid_lock s) 1 s) = pid_bm s" "pid_start (lock_held (pid_lock s) 1 s) = pid_start s"
    "pid_lock (lock_held (pid_lock s) 1 s) = pid_lock s" by (simp_all add: lock_held_def)
  then show ?thesis using pid_section [OF assms] by (simp add: allocate_pid_def Let_def)
qed

lemma release_pid_eq:
  assumes "pids_ok s"
  shows "release_pid W p s = do {
     ASSERT (p \<ge> pid_start s);
     b \<leftarrow> set_value_bitmap (pid_bm s) (p - pid_start s) 0;
     Some (s\<lparr>pid_bm := b\<rparr>) }"
proof -
  have "pid_bm (lock_held (pid_lock s) 1 s) = pid_bm s" "pid_start (lock_held (pid_lock s) 1 s) = pid_start s"
    "pid_lock (lock_held (pid_lock s) 1 s) = pid_lock s" by (simp_all add: lock_held_def)
  then show ?thesis using pid_section [OF assms] by (simp add: release_pid_def Let_def)
qed

lemma allocate_pid_first_free:
  assumes ok: "pids_ok s" and free: "first_fit (pid_bm s) 1 = Some i"
  shows "\<exists>b. allocate_pid W s = Some (pid_start s + of_nat i, s\<lparr>pid_bm := b\<rparr>) \<and>
    map_bytes_length b = map_bytes_length (pid_bm s) \<and> (\<forall>j. is_set b j = (j = i \<or> is_set (pid_bm s) j))"
proof -
  from ok have wf: "wf_bitmap (pid_bm s)" by (simp add: pids_ok_def)
  have "free_run (pid_bm s) i 1" by (rule first_fit_SomeD [OF free])
  then have lt: "i < nbits (pid_bm s)" by (simp add: free_run_def)
  then have i: "unat (of_nat i :: u32) = i" using wf by (simp add: wf_bitmap_def unat_of_nat_32)
  have "find_block_bitmap (pid_bm s) 1 = Some (of_nat i)"
    using find_block_bitmap_spec [OF wf, of 1] free by (simp add: u32_of_index_def)
  moreover from set_value_bitmap_spec [OF wf, of "of_nat i" 1] i lt obtain b where
    "set_value_bitmap (pid_bm s) (of_nat i) 1 = Some b" "map_bytes_length b = map_bytes_length (pid_bm s)"
    "\<forall>j. is_set b j = (if j = i then True else is_set (pid_bm s) j)" by auto
  ultimately show ?thesis by (intro exI [of _ b]) (simp add: allocate_pid_eq [OF ok, of W])
qed

text \<open>C39. With the pool's lock free, \<open>allocate_pid\<close> hands out the smallest identifier that is not
  in use and marks it and no other; it panics exactly when all are in use. Releasing the identifier
  makes it available again and leaves the set of identifiers in use as it was before.\<close>

theorem pid_allocation:
  assumes "pids_ok s"
  shows "(allocate_pid W s = None \<longleftrightarrow> (\<forall>i < nbits (pid_bm s). is_set (pid_bm s) i)) \<and>
    (\<forall>p s'. allocate_pid W s = Some (p, s') \<longrightarrow>
       pids_ok s' \<and> \<not> pid_in_use s p \<and> (\<forall>q. pid_start s \<le> q \<and> q < p \<longrightarrow> pid_in_use s q) \<and>
       (\<forall>q. pid_in_use s' q \<longleftrightarrow> q = p \<or> pid_in_use s q) \<and>
       (\<exists>s''. release_pid W' p s' = Some s'' \<and> pids_ok s'' \<and> (\<forall>q. pid_in_use s'' q \<longleftrightarrow> pid_in_use s q)))"
proof (cases "first_fit (pid_bm s) 1")
  case None
  have wf: "wf_bitmap (pid_bm s)" using assms by (simp add: pids_ok_def)
  have "find_block_bitmap (pid_bm s) 1 = Some (-1)"
    using find_block_bitmap_spec [OF wf, of 1] None by (simp add: u32_of_index_def)
  moreover have "set_value_bitmap (pid_bm s) (-1) 1 = None"
    using wf by (intro set_value_bitmap_panics) (simp_all add: wf_bitmap_def unat_minus_one_32)
  moreover have "is_set (pid_bm s) i" if "i < nbits (pid_bm s)" for i
    using None that by (auto simp: first_fit_def free_run_def split: if_splits)
  ultimately show ?thesis using allocate_pid_eq [OF assms, of W] by auto
next
  case (Some i)
  let ?b = "pid_bm s" and ?p = "pid_start s + of_nat i"
  have run: "free_run ?b i 1" and least: "\<And>j. free_run ?b j 1 \<Longrightarrow> i \<le> j"
    using first_fit_SomeD [OF Some] by blast+
  from allocate_pid_first_free [OF assms Some, of W] obtain b where
    a: "allocate_pid W s = Some (?p, s\<lparr>pid_bm := b\<rparr>)" and l: "map_bytes_length b = map_bytes_length ?b"
    and set: "\<And>j. is_set b j = (j = i \<or> is_set ?b j)" by blast
  have i: "i < nbits ?b" "\<not> is_set ?b i" using run by (simp_all add: free_run_def)
  have bd: "unat (pid_start s) + nbits ?b < 2 ^ 32" "wf_bitmap ?b" using assms by (simp_all add: pids_ok_def)
  have ui: "unat (of_nat i :: u32) = i" using i(1) bd(2) by (simp add: wf_bitmap_def unat_of_nat_32)
  have up: "unat ?p = unat (pid_start s) + i" using bd(1) i(1) by (subst unat_add_less) (simp_all add: ui)
  have ge: "?p \<ge> pid_start s" by (simp add: word_le_nat_alt up)
  have pos: "unat (q - pid_start s) = i \<longleftrightarrow> q = ?p" for q
    using word_eq_unat32 [of "q - pid_start s" "of_nat i"] ui by (auto simp: algebra_simps)
  have ok: "pids_ok (s\<lparr>pid_bm := b\<rparr>)"
    using assms l by (simp add: pids_ok_def wf_bitmap_def nbits_def lock_free_def)
  have used: "pid_in_use (s\<lparr>pid_bm := b\<rparr>) q \<longleftrightarrow> q = ?p \<or> pid_in_use s q" for q
    using ge pos by (auto simp: pid_in_use_def set)
  have nu: "\<not> pid_in_use s ?p" using i(2) ui by (simp add: pid_in_use_def)
  have below: "pid_in_use s q" if "pid_start s \<le> q" "q < ?p" for q
  proof -
    have u: "unat (q - pid_start s) = unat q - unat (pid_start s)" using that(1) by (rule unat_sub)
    have "unat q < unat (pid_start s) + i" using that(2) up by (simp add: word_less_nat_alt)
    then have j: "unat (q - pid_start s) < i" using u that(1) by (simp add: word_le_nat_alt)
    then have "\<not> free_run ?b (unat (q - pid_start s)) 1" using least by fastforce
    with j i(1) show ?thesis using that(1) by (auto simp: free_run_def pid_in_use_def)
  qed
  have "wf_bitmap b" "unat (of_nat i :: u32) < nbits b" using bd(2) l i(1) ui by (simp_all add: wf_bitmap_def nbits_def)
  from set_value_bitmap_spec [OF this, of 0] ui obtain b' where
    b': "set_value_bitmap b (of_nat i) 0 = Some b'" "map_bytes_length b' = map_bytes_length b"
    "\<And>j. is_set b' j = (j \<noteq> i \<and> is_set b j)" by auto
  have "release_pid W' ?p (s\<lparr>pid_bm := b\<rparr>) = Some (s\<lparr>pid_bm := b'\<rparr>)"
    using release_pid_eq [OF ok, of W' ?p] ge b'(1) by (simp add: ASSERT_bind)
  moreover have "pids_ok (s\<lparr>pid_bm := b'\<rparr>)"
    using ok b'(2) by (simp add: pids_ok_def wf_bitmap_def nbits_def lock_free_def)
  moreover have "pid_in_use (s\<lparr>pid_bm := b'\<rparr>) q \<longleftrightarrow> pid_in_use s q" for q
    using i(2) by (auto simp: pid_in_use_def b'(3) set)
  ultimately show ?thesis using a ok used nu below i by auto
qed

theorem pid_allocation_witness:
  "pids_ok boot_kstate \<and> (\<exists>p s'. allocate_pid (\<lambda>_. None) boot_kstate = Some (p, s') \<and> pid_in_use s' p)"
proof -
  have ok: "pids_ok boot_kstate"
    by (simp add: pids_ok_def wf_bitmap_def nbits_def boot_kstate_def lock_free_def list_is_empty_def)
  have "\<not> is_set (pid_bm boot_kstate) 0" "0 < nbits (pid_bm boot_kstate)"
    by (simp_all add: is_set_def nbits_def boot_kstate_def)
  with pid_allocation [OF ok, of "\<lambda>_. None"] ok show ?thesis by (metis not_None_eq surj_pair)
qed

end
