(* ===== verification/IPC.thy ===== *)
theory IPC
  imports Sched
begin

text \<open>
  Messages between processes: \<^verbatim>\<open>core/ipc/ipc.c\<close> (\<open>msg_send\<close>, \<open>msg_receive\<close>,
  \<open>notify_intr\<close>, the deadlock test \<open>detect_cycle\<close>), the system call \<open>sys_sendrec\<close> of
  \<^verbatim>\<open>core/usr/syscall-init.c\<close> and the server of \<^verbatim>\<open>core/usr/systask.c\<close>. The message buffer of the
  caller is passed and returned by value. A process that blocks goes on in the run \<open>W\<close> of the other
  threads, as in the scheduler. \<open>None\<close> is a panic, a null pointer dereferenced, or a call that never
  returns.

  Senders wait in a chain: \<open>p_sending_queue\<close> of the receiver points to the first,
  \<open>p_next_sending\<close> of each sender to the next.
\<close>

section \<open>Constants\<close>

abbreviation SENDING :: u8 where "SENDING \<equiv> 0x02"
abbreviation RECEIVING :: u8 where "RECEIVING \<equiv> 0x04"
abbreviation ANY_TASK :: u32 where "ANY_TASK \<equiv> 0xffffffff"
abbreviation NO_TASK :: u32 where "NO_TASK \<equiv> 0xfffffff7"
abbreviation INTR_TASK :: u32 where "INTR_TASK \<equiv> 0xfffffff6"
abbreviation TASK_MAX :: u32 where "TASK_MAX \<equiv> 40"
abbreviation HARD_INT :: u32 where "HARD_INT \<equiv> 1"
abbreviation GET_TICKS :: u32 where "GET_TICKS \<equiv> 2"
abbreviation GET_PID :: u32 where "GET_PID \<equiv> 3"

section \<open>Operations\<close>

definition pid_helper :: "kstate \<Rightarrow> addr \<Rightarrow> u32 \<Rightarrow> bool" where
  "pid_helper s proc_tag v \<longleftrightarrow> pid (tcbs s (thread_of_all_list_tag proc_tag)) = v"

definition pid2proc :: "u32 \<Rightarrow> kstate \<Rightarrow> addr option" where
  "pid2proc p s = do {
     ASSERT (\<not> list_is_empty (thread_all_list s) (lh s));
     proc_tag \<leftarrow> list_walker (thread_all_list s) (pid_helper s) p (lh s);
     Some (if proc_tag \<noteq> 0 then thread_of_all_list_tag proc_tag else 0)
   }"

partial_function (option) detect_loop :: "u32 \<Rightarrow> addr \<Rightarrow> kstate \<Rightarrow> u32 option" where
  "detect_loop src proc s =
     (if proc = 0 then None
      else if p_flags (tcbs s proc) AND SENDING \<noteq> 0 then
        if p_sendto (tcbs s proc) = src then Some 1
        else do { proc \<leftarrow> pid2proc (p_sendto (tcbs s proc)) s; detect_loop src proc s }
      else Some 0)"

definition detect_cycle :: "u32 \<Rightarrow> u32 \<Rightarrow> kstate \<Rightarrow> u32 option" where
  "detect_cycle src dest s = do { proc \<leftarrow> pid2proc dest s; detect_loop src proc s }"

definition reset_msg :: "message \<Rightarrow> message" where
  "reset_msg msg = \<lparr>m_source = 0, m_type = 0, m_payload = (\<lambda>_. 0)\<rparr>"

text \<open>The two branches of \<open>msg_send\<close>: hand the message over, or queue the sender (up to the point
  where it blocks).\<close>

definition deliver :: "addr \<Rightarrow> message \<Rightarrow> kstate \<Rightarrow> kstate option" where
  "deliver p_dest msg s = do {
     ASSERT (m_source (p_message (tcbs s p_dest)) > 0);
     thread_unblock p_dest (upd_tcb p_dest (\<lambda>t. t\<lparr>p_message := msg,
       p_flags := p_flags t AND NOT RECEIVING, p_recvfrom := NO_TASK\<rparr>) s)
   }"

partial_function (option) last_sender :: "addr \<Rightarrow> kstate \<Rightarrow> addr option" where
  "last_sender p s = (if p_next_sending (tcbs s p) \<noteq> 0 then last_sender (p_next_sending (tcbs s p)) s else Some p)"

definition queue_sender :: "addr \<Rightarrow> addr \<Rightarrow> u32 \<Rightarrow> message \<Rightarrow> kstate \<Rightarrow> kstate option" where
  "queue_sender sender p_dest dest msg s = do {
     let s = upd_tcb sender (\<lambda>t. t\<lparr>p_flags := p_flags t OR SENDING\<rparr>) s;
     ASSERT (p_flags (tcbs s sender) = SENDING);
     let s = upd_tcb sender (\<lambda>t. t\<lparr>p_sendto := dest, p_message := msg\<rparr>) s;
     s \<leftarrow> (if p_sending_queue (tcbs s p_dest) \<noteq> 0 then do {
            p \<leftarrow> last_sender (p_sending_queue (tcbs s p_dest)) s;
            Some (upd_tcb p (\<lambda>t. t\<lparr>p_next_sending := sender\<rparr>) s)
          } else Some (upd_tcb p_dest (\<lambda>t. t\<lparr>p_sending_queue := sender\<rparr>) s));
     Some (upd_tcb sender (\<lambda>t. t\<lparr>p_next_sending := 0\<rparr>) s)
   }"

definition expects :: "tcb \<Rightarrow> u32 \<Rightarrow> bool" where
  "expects d p \<longleftrightarrow> (p_flags d AND RECEIVING \<noteq> 0 \<and> p_recvfrom d = p) \<or> p_recvfrom d = ANY_TASK"

definition msg_send ::
    "(kstate \<Rightarrow> kstate option) \<Rightarrow> addr \<Rightarrow> u32 \<Rightarrow> message \<Rightarrow> kstate \<Rightarrow> (u32 \<times> kstate) option" where
  "msg_send W sender dest msg s = do {
     p_dest \<leftarrow> pid2proc dest s;
     ASSERT (p_dest \<noteq> 0);
     c \<leftarrow> detect_cycle (pid (tcbs s sender)) dest s;
     if c \<noteq> 0 then PANIC
     else if expects (tcbs s p_dest) (pid (tcbs s sender)) then do {
       s \<leftarrow> deliver p_dest msg s;
       Some (0, s)
     } else do {
       s \<leftarrow> queue_sender sender p_dest dest msg s;
       s \<leftarrow> thread_auth_block W sender THREAD_TASK_BLOCKED s;
       Some (0, s)
     }
   }"

text \<open>The search of \<open>msg_receive\<close> in the chain: it leaves the predecessor in \<open>prev\<close>.\<close>

partial_function (option) find_sender :: "u32 \<Rightarrow> addr \<Rightarrow> addr \<Rightarrow> addr \<Rightarrow> kstate \<Rightarrow> addr option" where
  "find_sender src p_from prev p s =
     (if p = 0 then Some prev
      else do {
        ASSERT (p_flags (tcbs s p_from) AND SENDING \<noteq> 0);
        if pid (tcbs s p) = src then Some prev
        else find_sender src p_from p (p_next_sending (tcbs s p)) s
      })"

text \<open>The process to receive from, its predecessor in the chain, and \<open>copyok\<close>.\<close>

definition choose_sender :: "addr \<Rightarrow> u32 \<Rightarrow> kstate \<Rightarrow> (addr \<times> addr \<times> bool) option" where
  "choose_sender receiver src s =
     (if src = ANY_TASK then
        if p_sending_queue (tcbs s receiver) \<noteq> 0 then Some (p_sending_queue (tcbs s receiver), 0, True)
        else Some (0, 0, False)
      else if src < TASK_MAX then do {
        p_from \<leftarrow> pid2proc src s;
        if p_from = 0 then None
        else if p_flags (tcbs s p_from) AND SENDING \<noteq> 0 \<and> p_sendto (tcbs s p_from) = pid (tcbs s receiver)
        then do {
          let p = p_sending_queue (tcbs s receiver);
          ASSERT (p \<noteq> 0);
          prev \<leftarrow> find_sender src p_from 0 p s;
          ASSERT (p_flags (tcbs s receiver) = 0);
          Some (p_from, prev, True)
        } else Some (p_from, 0, False)
      } else Some (0, 0, False))"

definition unlink_sender :: "addr \<Rightarrow> addr \<Rightarrow> addr \<Rightarrow> kstate \<Rightarrow> kstate option" where
  "unlink_sender receiver p_from prev s =
     (if p_from = p_sending_queue (tcbs s receiver) then do {
        ASSERT (prev = 0);
        let s = upd_tcb receiver (\<lambda>t. t\<lparr>p_sending_queue := p_next_sending (tcbs s p_from)\<rparr>) s;
        Some (upd_tcb p_from (\<lambda>t. t\<lparr>p_next_sending := 0\<rparr>) s)
      } else do {
        ASSERT (prev \<noteq> 0);
        let s = upd_tcb prev (\<lambda>t. t\<lparr>p_next_sending := p_next_sending (tcbs s p_from)\<rparr>) s;
        Some (upd_tcb p_from (\<lambda>t. t\<lparr>p_next_sending := 0\<rparr>) s)
      })"

definition take_message :: "addr \<Rightarrow> addr \<Rightarrow> addr \<Rightarrow> kstate \<Rightarrow> (message \<times> kstate) option" where
  "take_message receiver p_from prev s = do {
     s \<leftarrow> unlink_sender receiver p_from prev s;
     ASSERT (m_source (p_message (tcbs s p_from)) > 0);
     let msg = p_message (tcbs s p_from);
     s \<leftarrow> thread_unblock p_from (upd_tcb p_from (\<lambda>t. t\<lparr>p_message := reset_msg (p_message t),
       p_sendto := NO_TASK, p_flags := p_flags t AND NOT SENDING\<rparr>) s);
     Some (msg, s)
   }"

definition wait_message ::
    "(kstate \<Rightarrow> kstate option) \<Rightarrow> addr \<Rightarrow> u32 \<Rightarrow> message \<Rightarrow> kstate \<Rightarrow> (message \<times> kstate) option" where
  "wait_message W receiver src msg s = do {
     s \<leftarrow> thread_auth_block W receiver THREAD_TASK_BLOCKED (upd_tcb receiver (\<lambda>t. t\<lparr>
       p_flags := p_flags t OR RECEIVING, p_message := msg, p_recvfrom := src\<rparr>) s);
     Some (p_message (tcbs s receiver), s)
   }"

definition intr_msg :: message where
  "intr_msg = \<lparr>m_source = INTR_TASK, m_type = HARD_INT, m_payload = (\<lambda>_. 0)\<rparr>"

definition msg_receive ::
    "(kstate \<Rightarrow> kstate option) \<Rightarrow> addr \<Rightarrow> u32 \<Rightarrow> message \<Rightarrow> kstate \<Rightarrow> (u32 \<times> message \<times> kstate) option" where
  "msg_receive W receiver src msg s =
     (if (p_intr_present (tcbs s receiver) \<noteq> 0 \<and> src = ANY_TASK) \<or> src = INTR_TASK
      then Some (0, msg, upd_tcb receiver (\<lambda>t. t\<lparr>p_message := intr_msg, p_intr_present := 0\<rparr>) s)
      else do {
        (p_from, prev, copyok) \<leftarrow> choose_sender receiver src s;
        (msg, s) \<leftarrow> (if copyok then take_message receiver p_from prev s else wait_message W receiver src msg s);
        Some (0, msg, s)
      })"

definition notify_intr :: "u32 \<Rightarrow> kstate \<Rightarrow> kstate option" where
  "notify_intr task_nr s = do {
     p \<leftarrow> pid2proc task_nr s;
     if p = 0 then None
     else if p_flags (tcbs s p) AND RECEIVING \<noteq> 0 \<and>
       (p_recvfrom (tcbs s p) = INTR_TASK \<or> p_recvfrom (tcbs s p) = ANY_TASK)
     then do {
       let s = upd_tcb p (\<lambda>t. t\<lparr>p_message := (p_message t)\<lparr>m_source := INTR_TASK, m_type := HARD_INT\<rparr>,
         p_intr_present := 0, p_flags := p_flags t AND NOT RECEIVING, p_recvfrom := NO_TASK\<rparr>) s;
       ASSERT (p_flags (tcbs s p) = 0);
       s \<leftarrow> thread_unblock p s;
       ASSERT (p_flags (tcbs s p) = 0);
       ASSERT (p_recvfrom (tcbs s p) = NO_TASK);
       ASSERT (p_sendto (tcbs s p) = NO_TASK);
       Some s
     } else Some (upd_tcb p (\<lambda>t. t\<lparr>p_intr_present := 1\<rparr>) s)
   }"

section \<open>System calls\<close>

definition sys_getpid :: "kstate \<Rightarrow> u32" where
  "sys_getpid s = pid (tcbs s (running_thread s))"

definition sys_sendrec ::
    "(kstate \<Rightarrow> kstate option) \<Rightarrow> u32 \<Rightarrow> u32 \<Rightarrow> message \<Rightarrow> kstate \<Rightarrow> (u32 \<times> message \<times> kstate) option" where
  "sys_sendrec W func src_dest p_msg s = do {
     let caller = running_thread s;
     ASSERT ((src_dest > 0 \<and> src_dest < TASK_MAX) \<or> src_dest = ANY_TASK \<or> src_dest = INTR_TASK);
     let p_msg = p_msg\<lparr>m_source := pid (tcbs s caller)\<rparr>;
     ASSERT (m_source p_msg \<noteq> src_dest);
     if func = 1 then do {
       (ret, s) \<leftarrow> msg_send W caller src_dest p_msg s;
       Some (ret, p_msg, s)
     } else if func = 2 then msg_receive W caller src_dest p_msg s
     else if func = 3 then do {
       (ret, s) \<leftarrow> msg_send W caller src_dest p_msg s;
       if ret = 0 then do {
         (ret, p_msg, s) \<leftarrow> msg_receive W caller src_dest p_msg s;
         Some (0, p_msg, s)
       } else Some (0, p_msg, s)
     } else PANIC
   }"

text \<open>One round of the loop of the system task. \<open>RETVAL\<close> is the first word of the payload.\<close>

definition set_retval :: "u32 \<Rightarrow> message \<Rightarrow> message" where
  "set_retval v msg = msg\<lparr>m_payload := (\<lambda>i. if i < 4 then ucast (drop_bit (8 * i) v) else m_payload msg i)\<rparr>"

definition task_sys_round :: "(kstate \<Rightarrow> kstate option) \<Rightarrow> message \<Rightarrow> kstate \<Rightarrow> (message \<times> kstate) option" where
  "task_sys_round W msg s = do {
     (ret, msg, s) \<leftarrow> sys_sendrec W 2 ANY_TASK msg s;
     let src = m_source msg;
     if m_type msg = GET_TICKS then do {
       (ret, msg, s) \<leftarrow> sys_sendrec W 1 src (set_retval (ticks s) msg) s;
       Some (msg, s)
     } else if m_type msg = GET_PID then do {
       (ret, msg, s) \<leftarrow> sys_sendrec W 1 src (set_retval src msg) s;
       Some (msg, s)
     } else Some (msg, s)
   }"

section \<open>The chain of senders\<close>

primrec schain :: "(addr \<Rightarrow> tcb) \<Rightarrow> addr \<Rightarrow> addr list \<Rightarrow> addr \<Rightarrow> bool" where
  "schain m a [] b \<longleftrightarrow> a = b"
| "schain m a (x # xs) b \<longleftrightarrow> a = x \<and> x \<noteq> 0 \<and> schain m (p_next_sending (m x)) xs b"

definition send_queue :: "kstate \<Rightarrow> addr \<Rightarrow> addr list \<Rightarrow> bool" where
  "send_queue s p xs \<longleftrightarrow> schain (tcbs s) (p_sending_queue (tcbs s p)) xs 0"

lemma schain_append: "schain m a (xs @ ys) c \<longleftrightarrow> (\<exists>b. schain m a xs b \<and> schain m b ys c)"
  by (induction xs arbitrary: a) auto

lemma schain_cong:
  "(\<And>x. x \<in> set xs \<Longrightarrow> p_next_sending (m' x) = p_next_sending (m x)) \<Longrightarrow> schain m' a xs b = schain m a xs b"
  by (induction xs arbitrary: a) auto

lemma schain_nonzero: "schain m a xs b \<Longrightarrow> x \<in> set xs \<Longrightarrow> x \<noteq> 0"
  by (induction xs arbitrary: a) auto

lemma schain_unique: "schain m a xs 0 \<Longrightarrow> schain m a ys 0 \<Longrightarrow> xs = ys"
proof (induction xs arbitrary: a ys)
  case Nil
  then show ?case by (cases ys) auto
next
  case (Cons x xs)
  then show ?case by (cases ys) auto
qed

lemma schain_distinct: "schain m a xs 0 \<Longrightarrow> distinct xs"
proof (induction xs arbitrary: a)
  case (Cons x xs)
  have "x \<notin> set xs"
  proof
    assume "x \<in> set xs"
    then obtain us vs where xs: "xs = us @ x # vs" by (auto dest: split_list)
    then have "schain m x (x # vs) 0" "schain m x (x # xs) 0"
      using Cons.prems by (auto simp: schain_append)
    from schain_unique [OF this] xs show False by simp
  qed
  then show ?case using Cons by auto
qed simp

lemma last_sender_chain:
  "schain (tcbs s) a xs 0 \<Longrightarrow> xs \<noteq> [] \<Longrightarrow> last_sender a s = Some (last xs)"
proof (induction xs arbitrary: a)
  case (Cons x xs)
  then show ?case by (subst last_sender.simps) (cases xs, auto)
qed simp

lemma find_sender_chain:
  assumes "p_flags (tcbs s p_from) AND SENDING \<noteq> 0" and "pid (tcbs s x) = src"
  shows "schain (tcbs s) a (us @ x # vs) 0 \<Longrightarrow> \<forall>u \<in> set us. pid (tcbs s u) \<noteq> src \<Longrightarrow>
    find_sender src p_from prev a s = Some (if us = [] then prev else last us)"
proof (induction us arbitrary: a prev)
  case Nil
  then show ?case using assms by (subst find_sender.simps) (simp add: ASSERT_bind)
next
  case (Cons u us)
  then show ?case using assms by (subst find_sender.simps) (simp add: ASSERT_bind)
qed

lemma remove1_split: "x \<notin> set us \<Longrightarrow> remove1 x (us @ x # vs) = us @ vs"
  by (simp add: remove1_append)

text \<open>What an operation leaves of the messages of other processes.\<close>

definition ipc_frame :: "addr set \<Rightarrow> kstate \<Rightarrow> kstate \<Rightarrow> bool" where
  "ipc_frame C s s' \<longleftrightarrow> (\<forall>p. p \<notin> C \<longrightarrow> p_message (tcbs s' p) = p_message (tcbs s p) \<and>
     p_flags (tcbs s' p) = p_flags (tcbs s p) \<and> p_sendto (tcbs s' p) = p_sendto (tcbs s p) \<and>
     p_recvfrom (tcbs s' p) = p_recvfrom (tcbs s p)) \<and>
   (\<forall>p. pid (tcbs s' p) = pid (tcbs s p) \<and> pgdir (tcbs s' p) = pgdir (tcbs s p))"

lemma sched_ok_tcbs:
  assumes "sched_ok T ph rs s"
    and "\<And>t. t \<in> T \<Longrightarrow> status (m t) = status (tcbs s t) \<and> pgdir (m t) = pgdir (tcbs s t)"
  shows "sched_ok T ph rs (s\<lparr>tcbs := m\<rparr>)"
proof -
  note d = sched_okD [OF assms(1)]
  have "dirs_ok T ph (s\<lparr>tcbs := m\<rparr>)"
    using d(4) by (rule dirs_ok_cong) (use d(4) assms(2) in \<open>auto simp: dirs_ok_def\<close>)
  moreover have "idle_thread s \<in> T" using d(3) by (simp add: threads_ok_def)
  ultimately show ?thesis using assms by (simp add: sched_ok_def threads_ok_def)
qed

text \<open>Removing a sender from the chain.\<close>

lemma unlink_sender_chain:
  assumes q: "send_queue s d (us @ x # vs)"
  shows "\<exists>s'. unlink_sender d x (if us = [] then 0 else last us) s = Some s' \<and> send_queue s' d (us @ vs) \<and>
    s' = s\<lparr>tcbs := tcbs s'\<rparr> \<and> ipc_frame {} s s' \<and> (\<forall>p. status (tcbs s' p) = status (tcbs s p))"
proof -
  let ?T = "tcbs s"
  from q obtain b where b: "schain ?T (p_sending_queue (?T d)) us b" "schain ?T b (x # vs) 0"
    by (auto simp: send_queue_def schain_append)
  have dist: "distinct (us @ x # vs)" using q unfolding send_queue_def by (rule schain_distinct)
  have x: "b = x" "x \<noteq> 0" "schain ?T (p_next_sending (?T x)) vs 0" using b(2) by auto
  show ?thesis
  proof (cases us rule: rev_cases)
    case Nil
    let ?m = "(?T(d := (?T d)\<lparr>p_sending_queue := p_next_sending (?T x)\<rparr>))"
    let ?s' = "s\<lparr>tcbs := ?m(x := (?m x)\<lparr>p_next_sending := 0\<rparr>)\<rparr>"
    have "unlink_sender d x 0 s = Some ?s'"
      using b Nil by (simp add: unlink_sender_def upd_tcb_def)
    moreover have "schain (tcbs ?s') (p_next_sending (?T x)) vs 0"
      using x(3) dist by (subst schain_cong [of vs _ ?T]) auto
    ultimately show ?thesis using Nil
      by (intro exI [of _ ?s']) (auto simp: send_queue_def ipc_frame_def)
  next
    case (snoc us' u)
    let ?m = "(?T(u := (?T u)\<lparr>p_next_sending := p_next_sending (?T x)\<rparr>))"
    let ?s' = "s\<lparr>tcbs := ?m(x := (?m x)\<lparr>p_next_sending := 0\<rparr>)\<rparr>"
    have c: "schain ?T (p_sending_queue (?T d)) us' u" "u \<noteq> 0" "p_next_sending (?T u) = x"
      using b(1) snoc x(1) by (auto simp: schain_append)
    have "p_sending_queue (?T d) \<noteq> x"
      using c(1) dist snoc by (cases us') auto
    then have "unlink_sender d x u s = Some ?s'"
      using c by (simp add: unlink_sender_def upd_tcb_def)
    moreover have "schain (tcbs ?s') (p_next_sending (?T x)) vs 0"
      using x(3) dist snoc by (subst schain_cong [of vs _ ?T]) auto
    moreover have "schain (tcbs ?s') (p_sending_queue (?T d)) us' u"
      using c(1) dist snoc by (subst schain_cong [of us' _ ?T]) auto
    ultimately show ?thesis using snoc dist c(2)
      by (intro exI [of _ ?s']) (auto simp: send_queue_def schain_append ipc_frame_def)
  qed
qed

lemma take_message_chain:
  assumes ok: "sched_ok T ph rs s" and x: "x \<in> T" "blocking (status (tcbs s x))"
    and src: "m_source (p_message (tcbs s x)) > 0" and q: "send_queue s d (us @ x # vs)"
  shows "\<exists>s'. take_message d x (if us = [] then 0 else last us) s = Some (p_message (tcbs s x), s') \<and>
    send_queue s' d (us @ vs) \<and> sched_ok T ph (x # rs) s' \<and> running s' = running s \<and> ipc_frame {x} s s' \<and>
    p_flags (tcbs s' x) = p_flags (tcbs s x) AND NOT SENDING \<and> p_sendto (tcbs s' x) = NO_TASK \<and>
    p_message (tcbs s' x) = reset_msg (p_message (tcbs s x))"
proof -
  from unlink_sender_chain [OF q] obtain s1 where
    s1: "unlink_sender d x (if us = [] then 0 else last us) s = Some s1" "send_queue s1 d (us @ vs)"
    and e: "s1 = s\<lparr>tcbs := tcbs s1\<rparr>" and fr: "ipc_frame {} s s1"
    and st: "\<And>p. status (tcbs s1 p) = status (tcbs s p)" by blast
  let ?s2 = "upd_tcb x (\<lambda>t. t\<lparr>p_message := reset_msg (p_message t), p_sendto := NO_TASK,
    p_flags := p_flags t AND NOT SENDING\<rparr>) s1"
  have e2: "?s2 = s\<lparr>tcbs := tcbs ?s2\<rparr>" by (subst e) (simp add: upd_tcb_def)
  have "sched_ok T ph rs (s\<lparr>tcbs := tcbs ?s2\<rparr>)"
    using fr st by (intro sched_ok_tcbs [OF ok]) (auto simp: upd_tcb_def ipc_frame_def)
  then have ok2: "sched_ok T ph rs ?s2" using e2 by simp
  have b2: "blocking (status (tcbs ?s2 x))" using x(2) st by (simp add: upd_tcb_def)
  from thread_unblock_sched_ok [OF ok2 x(1) b2] obtain s3 where
    s3: "thread_unblock x ?s2 = Some s3" "sched_ok T ph (x # rs) s3" "running s3 = running ?s2" by blast
  have nx: "x \<notin> set rs" using ok x by (auto simp: sched_ok_def blocking_def)
  have t3: "tcbs s3 = (tcbs ?s2)(x := (tcbs ?s2 x)\<lparr>status := THREAD_TASK_READY\<rparr>)"
    using thread_unblock_ok [OF sched_okD(1) [OF ok2] b2 nx] s3(1) by auto
  have "running s1 = running s" by (subst e) simp
  moreover have "send_queue s3 d (us @ vs)"
    using s1(2) by (auto simp: send_queue_def t3 upd_tcb_def elim!: schain_cong [THEN iffD1, rotated])
  moreover have "m_source (p_message (tcbs s1 x)) > 0" "p_message (tcbs s1 x) = p_message (tcbs s x)"
    "p_flags (tcbs s1 x) = p_flags (tcbs s x)"
    using src fr by (auto simp: ipc_frame_def)
  moreover have "ipc_frame {x} s s3" using fr by (auto simp: ipc_frame_def t3 upd_tcb_def)
  ultimately show ?thesis using s1(1) s3 t3
    by (intro exI [of _ s3]) (simp add: take_message_def ASSERT_bind upd_tcb_def)
qed

text \<open>\<open>msg_receive\<close> with waiting senders: it takes the first sender of the queue for
  \<open>ANY_TASK\<close>, or the named sender wherever it is in the queue, returns the message that the sender
  left, removes exactly this sender from the queue, and makes it the next thread to run.\<close>

theorem msg_receive_queued:
  assumes ok: "sched_ok T ph rs s" and q: "send_queue s d xs"
    and x: "x \<in> set xs" "x \<in> T" "blocking (status (tcbs s x))" "m_source (p_message (tcbs s x)) > 0"
    and snd: "p_flags (tcbs s x) AND SENDING \<noteq> 0" "p_sendto (tcbs s x) = pid (tcbs s d)"
    and d: "p_flags (tcbs s d) = 0" "p_intr_present (tcbs s d) = 0"
    and sel: "src = ANY_TASK \<and> x = hd xs \<or> src = pid (tcbs s x) \<and> src < TASK_MAX \<and>
      pid2proc src s = Some x \<and> (\<forall>y \<in> set xs. pid (tcbs s y) = src \<longrightarrow> y = x)"
  shows "\<exists>s'. msg_receive W d src msg s = Some (0, p_message (tcbs s x), s') \<and>
    send_queue s' d (remove1 x xs) \<and> sched_ok T ph (x # rs) s' \<and> running s' = running s \<and>
    ipc_frame {x} s s' \<and> p_flags (tcbs s' x) = p_flags (tcbs s x) AND NOT SENDING \<and>
    p_sendto (tcbs s' x) = NO_TASK \<and> p_message (tcbs s' x) = reset_msg (p_message (tcbs s x))"
proof -
  from x(1) obtain us vs where xs: "xs = us @ x # vs" and us: "x \<notin> set us" by (auto dest: split_list_first)
  have c: "schain (tcbs s) (p_sending_queue (tcbs s d)) (us @ x # vs) 0" using q xs by (simp add: send_queue_def)
  have x0: "x \<noteq> 0" using schain_nonzero [OF c] by simp
  have h: "p_sending_queue (tcbs s d) = hd xs" "hd xs \<noteq> 0" using c xs by (cases us; auto)+
  have "choose_sender d src s = Some (x, if us = [] then 0 else last us, True)" (is "?C = _")
  proof (cases "src = ANY_TASK")
    case True
    then have hx: "x = hd xs" using sel by auto
    then have "us = []" using xs us by (cases us) auto
    then show ?thesis using True h hx by (simp add: choose_sender_def)
  next
    case False
    with sel have s: "src = pid (tcbs s x)" "src < TASK_MAX" "pid2proc src s = Some x"
      "\<forall>u \<in> set us. pid (tcbs s u) \<noteq> src" using xs us by auto
    then show ?thesis
      using False snd d h x0 find_sender_chain [OF snd(1) s(1) [symmetric] c s(4), of 0]
      by (simp add: choose_sender_def ASSERT_bind)
  qed
  moreover have "src \<noteq> INTR_TASK" using sel by auto
  ultimately show ?thesis
    using take_message_chain [OF ok x(2-4) q [unfolded xs]] d(2) remove1_split [OF us, of vs]
    by (fastforce simp: msg_receive_def xs)
qed

section \<open>Sending\<close>

lemma or_absorb:
  fixes x y :: "'a :: len word"
  assumes "x AND NOT y = 0"
  shows "x OR y = y"
proof (rule bit_word_eqI)
  fix n assume n: "n < LENGTH('a)"
  have "\<not> bit (x AND NOT y) n" by (simp only: assms) simp
  with n show "bit (x OR y) n = bit y n" by (auto simp: bit_or_iff bit_and_iff bit_not_iff)
qed

lemma queue_sender_chain:
  assumes q: "send_queue s d xs" and sn: "sender \<notin> set xs" "sender \<noteq> 0"
    and fl: "p_flags (tcbs s sender) AND NOT SENDING = 0"
  shows "\<exists>s'. queue_sender sender d dest msg s = Some s' \<and> send_queue s' d (xs @ [sender]) \<and>
    s' = s\<lparr>tcbs := tcbs s'\<rparr> \<and> ipc_frame {sender} s s' \<and> (\<forall>p. status (tcbs s' p) = status (tcbs s p)) \<and>
    p_flags (tcbs s' sender) = SENDING \<and> p_sendto (tcbs s' sender) = dest \<and> p_message (tcbs s' sender) = msg \<and>
    p_recvfrom (tcbs s' sender) = p_recvfrom (tcbs s sender)"
proof -
  let ?T = "(tcbs s)(sender := (tcbs s sender)\<lparr>p_flags := SENDING, p_sendto := dest, p_message := msg\<rparr>)"
  let ?s1 = "s\<lparr>tcbs := ?T\<rparr>"
  have fl': "p_flags (tcbs s sender) OR SENDING = SENDING" by (rule or_absorb [OF fl])
  have s1: "upd_tcb sender (\<lambda>t. t\<lparr>p_sendto := dest, p_message := msg\<rparr>)
      (upd_tcb sender (\<lambda>t. t\<lparr>p_flags := p_flags t OR SENDING\<rparr>) s) = ?s1"
    and fl'': "p_flags (tcbs (upd_tcb sender (\<lambda>t. t\<lparr>p_flags := p_flags t OR SENDING\<rparr>) s) sender) = SENDING"
    using fl' by (simp_all add: upd_tcb_def)
  have c: "schain ?T (p_sending_queue (?T d)) xs 0"
    using q by (subst schain_cong [of xs ?T "tcbs s"]) (auto simp: send_queue_def)
  have step: "queue_sender sender d dest msg s = do {
     s \<leftarrow> (if p_sending_queue (?T d) \<noteq> 0 then do {
            p \<leftarrow> last_sender (p_sending_queue (?T d)) ?s1;
            Some (upd_tcb p (\<lambda>t. t\<lparr>p_next_sending := sender\<rparr>) ?s1)
          } else Some (upd_tcb d (\<lambda>t. t\<lparr>p_sending_queue := sender\<rparr>) ?s1));
     Some (upd_tcb sender (\<lambda>t. t\<lparr>p_next_sending := 0\<rparr>) s) }"
    unfolding queue_sender_def Let_def s1 by (simp add: fl'' ASSERT_bind del: fun_upd_apply)
  show ?thesis
  proof (cases xs rule: rev_cases)
    case Nil
    let ?m = "?T(d := (?T d)\<lparr>p_sending_queue := sender\<rparr>)"
    let ?s' = "s\<lparr>tcbs := ?m(sender := (?m sender)\<lparr>p_next_sending := 0\<rparr>)\<rparr>"
    have "queue_sender sender d dest msg s = Some ?s'"
      using c Nil unfolding step by (simp add: upd_tcb_def)
    then show ?thesis using Nil sn(2) by (intro exI [of _ ?s']) (auto simp: send_queue_def ipc_frame_def)
  next
    case (snoc ys y)
    let ?m = "?T(y := (?T y)\<lparr>p_next_sending := sender\<rparr>)"
    let ?s' = "s\<lparr>tcbs := ?m(sender := (?m sender)\<lparr>p_next_sending := 0\<rparr>)\<rparr>"
    have ne: "p_sending_queue (?T d) \<noteq> 0" using c snoc by (cases ys) auto
    have "last_sender (p_sending_queue (?T d)) ?s1 = Some y"
      using last_sender_chain [of ?s1 _ xs] c snoc by simp
    then have "queue_sender sender d dest msg s = Some ?s'"
      using ne unfolding step by (simp add: upd_tcb_def)
    moreover have cy: "schain ?T (p_sending_queue (?T d)) ys y" "y \<noteq> 0" "y \<noteq> sender"
      using c snoc sn(1) by (auto simp: schain_append)
    moreover have "schain (tcbs ?s') (p_sending_queue (?T d)) ys y"
      using cy(1) sn(1) schain_distinct [OF c] snoc by (subst schain_cong [of ys _ ?T]) auto
    ultimately show ?thesis using snoc sn(2)
      by (intro exI [of _ ?s']) (auto simp: send_queue_def schain_append ipc_frame_def)
  qed
qed

lemma deliver_waiting:
  assumes ok: "sched_ok T ph rs s" and d: "d \<in> T" "blocking (status (tcbs s d))"
    and src: "m_source (p_message (tcbs s d)) > 0"
  shows "\<exists>s'. deliver d msg s = Some s' \<and> sched_ok T ph (d # rs) s' \<and> running s' = running s \<and>
    ipc_frame {d} s s' \<and> p_message (tcbs s' d) = msg \<and> p_recvfrom (tcbs s' d) = NO_TASK \<and>
    p_flags (tcbs s' d) = p_flags (tcbs s d) AND NOT RECEIVING"
proof -
  let ?s2 = "upd_tcb d (\<lambda>t. t\<lparr>p_message := msg, p_flags := p_flags t AND NOT RECEIVING, p_recvfrom := NO_TASK\<rparr>) s"
  have "sched_ok T ph rs (s\<lparr>tcbs := tcbs ?s2\<rparr>)"
    by (intro sched_ok_tcbs [OF ok]) (auto simp: upd_tcb_def)
  then have ok2: "sched_ok T ph rs ?s2" by (simp add: upd_tcb_def)
  have b2: "blocking (status (tcbs ?s2 d))" using d(2) by (simp add: upd_tcb_def)
  from thread_unblock_sched_ok [OF ok2 d(1) b2] obtain s3 where
    s3: "thread_unblock d ?s2 = Some s3" "sched_ok T ph (d # rs) s3" "running s3 = running ?s2" by blast
  have "d \<notin> set rs" using ok d by (auto simp: sched_ok_def blocking_def)
  from thread_unblock_ok [OF sched_okD(1) [OF ok2] b2 this] s3(1)
  have "tcbs s3 = (tcbs ?s2)(d := (tcbs ?s2 d)\<lparr>status := THREAD_TASK_READY\<rparr>)" by auto
  then show ?thesis using s3 src
    by (intro exI [of _ s3]) (simp add: deliver_def ASSERT_bind upd_tcb_def ipc_frame_def)
qed

section \<open>No cycle of senders\<close>

text \<open>A sending process waits for the process with the identifier in \<open>p_sendto\<close>.\<close>

definition wait_graph :: "addr set \<Rightarrow> kstate \<Rightarrow> (addr \<times> addr) set" where
  "wait_graph T s = {(p, q). p \<in> T \<and> q \<in> T \<and> p_flags (tcbs s p) AND SENDING \<noteq> 0 \<and>
     p_sendto (tcbs s p) = pid (tcbs s q)}"

definition senders_ok :: "addr set \<Rightarrow> kstate \<Rightarrow> bool" where
  "senders_ok T s \<longleftrightarrow> finite T \<and> 0 \<notin> T \<and> (\<forall>p \<in> T. pid2proc (pid (tcbs s p)) s = Some p) \<and>
     (\<forall>p \<in> T. p_flags (tcbs s p) AND SENDING \<noteq> 0 \<longrightarrow> (\<exists>q \<in> T. p_sendto (tcbs s p) = pid (tcbs s q))) \<and>
     acyclic (wait_graph T s)"

lemma senders_ok_pid_inj:
  "senders_ok T s \<Longrightarrow> p \<in> T \<Longrightarrow> q \<in> T \<Longrightarrow> pid (tcbs s p) = pid (tcbs s q) \<longleftrightarrow> p = q"
  unfolding senders_ok_def by (metis option.inject)

lemma wait_graph_wf:
  assumes "senders_ok T s"
  shows "wf ((wait_graph T s)\<inverse>)"
proof (rule finite_acyclic_wf_converse)
  have "wait_graph T s \<subseteq> T \<times> T" by (auto simp: wait_graph_def)
  then show "finite (wait_graph T s)" using assms by (auto simp: senders_ok_def intro: finite_subset)
  show "acyclic (wait_graph T s)" using assms by (simp add: senders_ok_def)
qed

lemma detect_loop_reach:
  assumes ok: "senders_ok T s" and src: "src \<in> T" and p: "p \<in> T"
  shows "detect_loop (pid (tcbs s src)) p s = Some (if (p, src) \<in> (wait_graph T s)\<^sup>+ then 1 else 0)"
  using p
proof (induction p rule: wf_induct_rule [OF wait_graph_wf [OF ok]])
  case (1 p)
  let ?G = "wait_graph T s"
  have p0: "p \<noteq> 0" using ok 1(2) by (auto simp: senders_ok_def)
  show ?case
  proof (cases "p_flags (tcbs s p) AND SENDING = 0")
    case True
    then have "(p, src) \<notin> ?G\<^sup>+" by (auto simp: wait_graph_def dest: tranclD)
    then show ?thesis using True p0 by (subst detect_loop.simps) simp
  next
    case False
    then obtain q where q: "q \<in> T" "p_sendto (tcbs s p) = pid (tcbs s q)"
      using ok 1(2) by (auto simp: senders_ok_def)
    then have e: "(p, q) \<in> ?G" using 1(2) False by (simp add: wait_graph_def)
    have only: "r = q" if "(p, r) \<in> ?G" for r
      using that q senders_ok_pid_inj [OF ok] by (auto simp: wait_graph_def)
    show ?thesis
    proof (cases "q = src")
      case True
      then show ?thesis using False q e p0 by (subst detect_loop.simps) auto
    next
      case ne: False
      then have "pid (tcbs s q) \<noteq> pid (tcbs s src)" using senders_ok_pid_inj [OF ok q(1) src] by simp
      moreover have "pid2proc (pid (tcbs s q)) s = Some q" using ok q(1) by (simp add: senders_ok_def)
      moreover have "(p, src) \<in> ?G\<^sup>+ \<longleftrightarrow> (q, src) \<in> ?G\<^sup>+"
        using e only ne by (metis rtranclD trancl_into_trancl2 tranclD)
      ultimately show ?thesis using 1(1) [of q] e q False p0 by (subst detect_loop.simps) simp
    qed
  qed
qed

lemma pid2proc_cong:
  assumes "lh s' = lh s" "thread_all_list s' = thread_all_list s" "\<And>p. pid (tcbs s' p) = pid (tcbs s p)"
  shows "pid2proc x s' = pid2proc x s"
proof -
  have "pid_helper s' = pid_helper s" by (intro ext) (simp add: pid_helper_def assms)
  then show ?thesis by (simp add: pid2proc_def assms)
qed

lemma wait_graph_queued:
  assumes "ipc_frame {p} s s'" and "p_flags (tcbs s' p) = SENDING" "p_sendto (tcbs s' p) = pid (tcbs s d)"
    and "p_flags (tcbs s p) AND SENDING = 0" and ok: "senders_ok T s" and "p \<in> T" "d \<in> T"
  shows "wait_graph T s' = insert (p, d) (wait_graph T s)"
proof -
  have "(a, b) \<in> wait_graph T s' \<longleftrightarrow> (a, b) \<in> insert (p, d) (wait_graph T s)" for a b
    using assms senders_ok_pid_inj [OF ok] by (cases "a = p") (auto simp: wait_graph_def ipc_frame_def)
  then show ?thesis by auto
qed

text \<open>C5. Deadlock avoidance. As long as the graph of waiting senders has no cycle, \<open>detect_cycle\<close>
  terminates and tells exactly whether the destination waits, over any number of senders, for the
  caller. In this case \<open>msg_send\<close> panics; otherwise queueing the sender and blocking it leaves the
  graph without a cycle.\<close>

theorem send_deadlock_free:
  assumes ok: "senders_ok T s" and p: "p \<in> T" "d \<in> T" "p \<noteq> d"
    and q: "send_queue s d xs" "p \<notin> set xs" and fl: "p_flags (tcbs s p) = 0"
  shows "detect_cycle (pid (tcbs s p)) (pid (tcbs s d)) s = Some (if (d, p) \<in> (wait_graph T s)\<^sup>+ then 1 else 0) \<and>
    ((d, p) \<in> (wait_graph T s)\<^sup>+ \<longrightarrow> msg_send W p (pid (tcbs s d)) msg s = None) \<and>
    ((d, p) \<notin> (wait_graph T s)\<^sup>+ \<and> \<not> expects (tcbs s d) (pid (tcbs s p)) \<longrightarrow>
      (\<exists>s'. msg_send W p (pid (tcbs s d)) msg s =
          map_option (Pair 0) (thread_auth_block W p THREAD_TASK_BLOCKED s') \<and>
        senders_ok T s' \<and> wait_graph T s' = insert (p, d) (wait_graph T s) \<and> send_queue s' d (xs @ [p])))"
proof -
  have pd: "pid2proc (pid (tcbs s d)) s = Some d" "d \<noteq> 0" "p \<noteq> 0" using ok p by (auto simp: senders_ok_def)
  have dc: "detect_cycle (pid (tcbs s p)) (pid (tcbs s d)) s =
      Some (if (d, p) \<in> (wait_graph T s)\<^sup>+ then 1 else 0)"
    using detect_loop_reach [OF ok p(1,2)] pd(1) by (simp add: detect_cycle_def)
  moreover have "\<exists>s'. msg_send W p (pid (tcbs s d)) msg s =
        map_option (Pair 0) (thread_auth_block W p THREAD_TASK_BLOCKED s') \<and>
      senders_ok T s' \<and> wait_graph T s' = insert (p, d) (wait_graph T s) \<and> send_queue s' d (xs @ [p])"
    if nc: "(d, p) \<notin> (wait_graph T s)\<^sup>+" and ne: "\<not> expects (tcbs s d) (pid (tcbs s p))"
  proof -
    have fl': "p_flags (tcbs s p) AND NOT SENDING = 0" "p_flags (tcbs s p) AND SENDING = 0" using fl by simp_all
    from queue_sender_chain [OF q pd(3) fl'(1), of "pid (tcbs s d)" msg] obtain s' where
      s': "queue_sender p d (pid (tcbs s d)) msg s = Some s'" "send_queue s' d (xs @ [p])"
      "ipc_frame {p} s s'" "p_flags (tcbs s' p) = SENDING" "p_sendto (tcbs s' p) = pid (tcbs s d)"
      and e: "s' = s\<lparr>tcbs := tcbs s'\<rparr>" by blast
    have g: "wait_graph T s' = insert (p, d) (wait_graph T s)"
      by (rule wait_graph_queued [OF s'(3-5) fl'(2) ok p(1,2)])
    have pids: "pid (tcbs s' x) = pid (tcbs s x)" for x using s'(3) by (simp add: ipc_frame_def)
    have "lh s' = lh s" "thread_all_list s' = thread_all_list s" by (subst e, simp)+
    then have pp: "pid2proc x s' = pid2proc x s" for x using pids by (intro pid2proc_cong) simp_all
    have "(d, p) \<notin> (wait_graph T s)\<^sup>*" using nc p(3) by (auto simp: rtrancl_eq_or_trancl)
    then have "acyclic (wait_graph T s')" using ok g by (simp add: senders_ok_def)
    moreover have "\<exists>q \<in> T. p_sendto (tcbs s' r) = pid (tcbs s' q)"
      if "r \<in> T" "p_flags (tcbs s' r) AND SENDING \<noteq> 0" for r
      using that ok s'(3,5) p(2) pids by (cases "r = p") (auto simp: senders_ok_def ipc_frame_def)
    ultimately have "senders_ok T s'" using ok pp pids by (simp add: senders_ok_def)
    moreover have "msg_send W p (pid (tcbs s d)) msg s =
        map_option (Pair 0) (thread_auth_block W p THREAD_TASK_BLOCKED s')"
      using pd dc nc ne s'(1) by (cases "thread_auth_block W p THREAD_TASK_BLOCKED s'") (simp_all add: msg_send_def ASSERT_bind)
    ultimately show ?thesis using g s'(2) by blast
  qed
  ultimately show ?thesis using pd by (simp add: msg_send_def ASSERT_bind)
qed

text \<open>On a list of all threads with different identifiers, \<open>pid2proc\<close> finds the thread.\<close>

lemma pid2proc_all:
  assumes l: "dlist (lh s) (thread_all_list s) (map all_list_tag ts)"
    and p: "p \<in> set ts" "all_list_tag p \<noteq> 0" and inj: "\<And>q. q \<in> set ts \<Longrightarrow> pid (tcbs s q) = pid (tcbs s p) \<Longrightarrow> q = p"
  shows "pid2proc (pid (tcbs s p)) s = Some p"
proof -
  have "List.find (\<lambda>x. pid_helper s x (pid (tcbs s p))) (map all_list_tag ts) = Some (all_list_tag p)"
    using p(1) inj by (induction ts) (auto simp: pid_helper_def)
  moreover have "\<not> list_is_empty (thread_all_list s) (lh s)" using l p(1) by (auto simp: list_is_empty_dlist)
  ultimately show ?thesis
    using list_walker_dlist [OF l, of "pid_helper s"] p(2) by (simp add: pid2proc_def ASSERT_bind)
qed

text \<open>A process that sends to itself is not seen by \<open>detect_cycle\<close>; \<open>sys_sendrec\<close> excludes it.\<close>

lemma detect_cycle_self:
  assumes "pid2proc (pid (tcbs s p)) s = Some p" "p \<noteq> 0" "p_flags (tcbs s p) AND SENDING = 0"
  shows "detect_cycle (pid (tcbs s p)) (pid (tcbs s p)) s = Some 0"
  using assms by (simp add: detect_cycle_def detect_loop.simps [of _ p])

lemma sys_sendrec_self: "sys_sendrec W func (pid (tcbs s (running s))) msg s = None"
  by (simp add: sys_sendrec_def running_thread_def ASSERT_bind Let_def)

text \<open>\<open>notify_intr\<close> panics for a process that waits for an interrupt and whose \<open>p_sendto\<close> is not
  \<open>NO_TASK\<close>; \<open>init_thread\<close> leaves the field zero.\<close>

lemma notify_intr_panics:
  assumes "pid2proc n s = Some p" "p \<noteq> 0" "p_flags (tcbs s p) AND RECEIVING \<noteq> 0" "p_recvfrom (tcbs s p) = INTR_TASK"
    "p_sendto (tcbs s p) = 0"
  shows "notify_intr n s = None"
proof -
  have "p_sendto (tcbs s2 p) = p_sendto (tcbs s1 p)" if "thread_unblock p s1 = Some s2" for s1 s2
    using that by (auto simp: thread_unblock_def ASSERT_bind intr_disable_eq intr_set_status_eq upd_tcb_def upd_lh_def
        split: if_splits bind_splits)
  then show ?thesis
    using assms by (auto simp: notify_intr_def ASSERT_bind upd_tcb_def Let_def split: bind_splits)
qed

section \<open>Examples\<close>

text \<open>The main thread (identifier 1) runs; a process (identifier 2) has sent it a message and waits.\<close>

definition sample_msg :: message where
  "sample_msg = \<lparr>m_source = 2, m_type = 2, m_payload = (\<lambda>_. 0)\<rparr>"

definition sample_ipc :: kstate where
  "sample_ipc = boot_kstate\<lparr>
     lh := list_add_tail (all_list_tag 0xc0101000) 0xc0008010
       (list_add_tail (all_list_tag 0xc009e000) 0xc0008010 (lh boot_kstate)),
     tcbs := (\<lambda>_. zero_tcb)(0xc009e000 := zero_tcb\<lparr>pid := 1, p_sending_queue := 0xc0101000\<rparr>,
       0xc0101000 := zero_tcb\<lparr>pid := 2, status := THREAD_TASK_BLOCKED, p_flags := SENDING, p_sendto := 1,
         p_message := sample_msg\<rparr>,
       0xc0105000 := zero_tcb\<lparr>status := THREAD_TASK_BLOCKED\<rparr>)\<rparr>"

lemma sample_ipc_all: "dlist (lh sample_ipc) (thread_all_list sample_ipc) (map all_list_tag [0xc009e000, 0xc0101000])"
proof -
  have "dlist (lh boot_kstate) 0xc0008010 []" by (simp add: dlist_Nil boot_kstate_def)
  then show ?thesis
    using dll.enqueue_all [of "lh boot_kstate" "0xc0008010" "[]" "map all_list_tag [0xc009e000, 0xc0101000]"]
    by (simp add: sample_ipc_def all_list_tag_def boot_kstate_def)
qed

lemma sample_ipc_sched: "sched_ok {0xc009e000, 0xc0101000, 0xc0105000} (\<lambda>_. 0x100000) [] sample_ipc"
  by (auto simp: sched_ok_def threads_ok_def dirs_ok_def sample_ipc_def boot_kstate_def zero_tcb_def
      general_tag_def all_list_tag_def qlist_Nil list_add_tail_def heap_upd Let_def)

lemma sample_ipc_pids:
  "pid2proc 1 sample_ipc = Some 0xc009e000" "pid2proc 2 sample_ipc = Some 0xc0101000"
proof -
  have p: "pid (tcbs sample_ipc 0xc009e000) = 1" "pid (tcbs sample_ipc 0xc0101000) = 2"
    by (simp_all add: sample_ipc_def zero_tcb_def)
  show "pid2proc 1 sample_ipc = Some 0xc009e000"
    by (rule pid2proc_all [OF sample_ipc_all, of "0xc009e000", unfolded p]) (use p in \<open>auto simp: all_list_tag_def\<close>)
  show "pid2proc 2 sample_ipc = Some 0xc0101000"
    by (rule pid2proc_all [OF sample_ipc_all, of "0xc0101000", unfolded p]) (use p in \<open>auto simp: all_list_tag_def\<close>)
qed

lemma sample_ipc_queue: "send_queue sample_ipc 0xc009e000 [0xc0101000]" "send_queue sample_ipc 0xc0101000 []"
  by (simp_all add: send_queue_def sample_ipc_def zero_tcb_def)

theorem msg_receive_queued_witness:
  "\<exists>s'. msg_receive (\<lambda>_. None) 0xc009e000 ANY_TASK (reset_msg sample_msg) sample_ipc = Some (0, sample_msg, s') \<and>
     send_queue s' 0xc009e000 []"
proof -
  have "blocking (status (tcbs sample_ipc 0xc0101000))" "p_message (tcbs sample_ipc 0xc0101000) = sample_msg"
    "m_source (p_message (tcbs sample_ipc 0xc0101000)) > 0" "p_flags (tcbs sample_ipc 0xc0101000) AND SENDING \<noteq> 0"
    "p_sendto (tcbs sample_ipc 0xc0101000) = pid (tcbs sample_ipc 0xc009e000)"
    "p_flags (tcbs sample_ipc 0xc009e000) = 0" "p_intr_present (tcbs sample_ipc 0xc009e000) = 0"
    by (simp_all add: sample_ipc_def zero_tcb_def blocking_def sample_msg_def)
  then show ?thesis
    using msg_receive_queued [OF sample_ipc_sched sample_ipc_queue(1), of "0xc0101000" ANY_TASK "\<lambda>_. None" "reset_msg sample_msg"]
    by auto
qed

lemma sample_ipc_senders:
  "wait_graph {0xc009e000, 0xc0101000} sample_ipc = {(0xc0101000, 0xc009e000)}"
  "senders_ok {0xc009e000, 0xc0101000} sample_ipc"
proof -
  show g: "wait_graph {0xc009e000, 0xc0101000} sample_ipc = {(0xc0101000, 0xc009e000)}"
    by (auto simp: wait_graph_def sample_ipc_def zero_tcb_def)
  have "acyclic (wait_graph {0xc009e000, 0xc0101000} sample_ipc)"
    unfolding g acyclic_insert by (simp add: acyclic_def)
  then show "senders_ok {0xc009e000, 0xc0101000} sample_ipc"
    using sample_ipc_pids by (simp add: senders_ok_def) (simp add: sample_ipc_def zero_tcb_def)
qed

theorem send_deadlock_free_witness:
  "detect_cycle 1 2 sample_ipc = Some 1 \<and> msg_send (\<lambda>_. None) 0xc009e000 2 sample_msg sample_ipc = None"
proof -
  have "pid (tcbs sample_ipc 0xc009e000) = 1" "pid (tcbs sample_ipc 0xc0101000) = 2"
    "p_flags (tcbs sample_ipc 0xc009e000) = 0"
    by (simp_all add: sample_ipc_def zero_tcb_def)
  moreover have "((0xc0101000 :: addr), (0xc009e000 :: addr)) \<in> (wait_graph {0xc009e000, 0xc0101000} sample_ipc)\<^sup>+"
    unfolding sample_ipc_senders(1) by auto
  ultimately show ?thesis
    using send_deadlock_free [OF sample_ipc_senders(2), of "0xc009e000" "0xc0101000" "[]" "\<lambda>_. None" sample_msg]
      sample_ipc_queue(2) by auto
qed

text \<open>\<open>msg_send\<close> to a process that waits for a message of the caller or of anybody: it returns
  without blocking, the message is in the control block of the receiver, which is no longer
  receiving and is the next thread to run. The messages of all other processes are unchanged.\<close>

theorem msg_send_waiting:
  assumes "sched_ok T ph rs s" and "d \<in> T" and "blocking (status (tcbs s d))"
    and "m_source (p_message (tcbs s d)) > 0" and "pid2proc dest s = Some d"
    and "p_flags (tcbs s d) = RECEIVING" and "p_recvfrom (tcbs s d) \<in> {pid (tcbs s p), ANY_TASK}"
  shows "\<exists>s'. msg_send W p dest msg s = Some (0, s') \<and> p_message (tcbs s' d) = msg \<and>
    p_flags (tcbs s' d) = 0 \<and> p_recvfrom (tcbs s' d) = NO_TASK \<and> sched_ok T ph (d # rs) s' \<and>
    running s' = running s \<and> ipc_frame {d} s s'"
proof -
  have "d \<noteq> 0" using sched_okD(3) [OF assms(1)] assms(2) by (auto simp: threads_ok_def)
  moreover from this have "detect_cycle (pid (tcbs s p)) dest s = Some 0"
    using assms(5,6) by (simp add: detect_cycle_def detect_loop.simps [of _ d])
  moreover have "expects (tcbs s d) (pid (tcbs s p))" using assms(6,7) by (auto simp: expects_def)
  ultimately show ?thesis
    using deliver_waiting [OF assms(1-4), of msg] assms(5,6) by (fastforce simp: msg_send_def ASSERT_bind)
qed

theorem msg_send_waiting_witness:
  "\<exists>s'. msg_send (\<lambda>_. None) 0xc009e000 2 sample_msg (upd_tcb 0xc0101000
      (\<lambda>t. t\<lparr>p_flags := RECEIVING, p_recvfrom := 1\<rparr>) sample_ipc) = Some (0, s') \<and>
     p_message (tcbs s' 0xc0101000) = sample_msg"
proof -
  let ?s = "upd_tcb 0xc0101000 (\<lambda>t. t\<lparr>p_flags := RECEIVING, p_recvfrom := 1\<rparr>) sample_ipc"
  have e: "?s = sample_ipc\<lparr>tcbs := tcbs ?s\<rparr>" by (simp add: upd_tcb_def)
  have ok: "sched_ok {0xc009e000, 0xc0101000, 0xc0105000} (\<lambda>_. 0x100000) [] ?s"
    by (subst e, rule sched_ok_tcbs [OF sample_ipc_sched]) (simp add: upd_tcb_def)
  have "pid2proc 2 ?s = Some 0xc0101000"
    using sample_ipc_pids(2) by (subst pid2proc_cong [of _ sample_ipc]) (simp_all add: upd_tcb_def)
  moreover have "blocking (status (tcbs ?s 0xc0101000))" "m_source (p_message (tcbs ?s 0xc0101000)) > 0"
    "p_flags (tcbs ?s 0xc0101000) = RECEIVING" "p_recvfrom (tcbs ?s 0xc0101000) = pid (tcbs ?s 0xc009e000)"
    by (simp_all add: upd_tcb_def sample_ipc_def zero_tcb_def blocking_def sample_msg_def)
  ultimately show ?thesis
    using msg_send_waiting [OF ok, of "0xc0101000" 2 "0xc009e000" "\<lambda>_. None" sample_msg] by auto
qed

end
