(* ===== verification/Disk.thy ===== *)
theory Disk
  imports Semaphore
begin

text \<open>
  Structures of the file system on disk and in memory: \<^verbatim>\<open>core/include/fs/inode.h\<close>,
  \<^verbatim>\<open>super_block.h\<close>, \<^verbatim>\<open>dir.h\<close>, \<^verbatim>\<open>file.h\<close>, the partition of \<^verbatim>\<open>core/include/device/ide.h\<close>, and reading
  and writing of sectors (\<open>ide_read\<close> and \<open>ide_write\<close> of \<^verbatim>\<open>core/device/ide.c\<close>). A disk is a map from
  sector numbers to lists of 512 bytes; the transfer over the ports of the controller is outside the
  model. Structures are stored byte by byte in the i386 layout (little endian, padding included), so
  each has an encoding and a decoding; the laws of these pairs are a locale.

  The state of the file system contains the state of the kernel. \<open>sys_malloc\<close> gives zeroed memory;
  the addresses that its next calls return (0 for no memory) are an input, \<open>allocs\<close>.
\<close>

section \<open>Little-endian numbers\<close>

primrec le_bytes :: "nat \<Rightarrow> 'a :: len word \<Rightarrow> u8 list" where
  "le_bytes 0 w = []"
| "le_bytes (Suc n) w = ucast w # le_bytes n (drop_bit 8 w)"

primrec le_word :: "u8 list \<Rightarrow> 'a :: len word" where
  "le_word [] = 0"
| "le_word (b # bs) = ucast b OR push_bit 8 (le_word bs)"

lemma length_le_bytes [simp]: "length (le_bytes n w) = n"
  by (induction n arbitrary: w) auto

lemma le_word_bytes_take: "le_word (le_bytes n w) = take_bit (8 * n) (w :: 'a :: len word)"
proof (induction n arbitrary: w)
  case (Suc n)
  have "ucast (ucast w :: u8) OR push_bit 8 (take_bit (8 * n) (drop_bit 8 w)) = take_bit (8 + 8 * n) w"
    by (rule bit_word_eqI) (auto simp: bit_simps)
  then show ?case using Suc by simp
qed simp

lemma le_word_bytes [simp]:
  "le_word (le_bytes 4 w) = (w :: u32)" "le_word (le_bytes 2 v) = (v :: u16)" "le_word (le_bytes (Suc 0) b) = (b :: u8)"
  by (simp_all add: le_word_bytes_take take_bit_word_eq_self)

section \<open>Fields of a buffer\<close>

text \<open>\<open>memcpy\<close> out of and into a buffer.\<close>

definition get_at :: "nat \<Rightarrow> nat \<Rightarrow> u8 list \<Rightarrow> u8 list" where
  "get_at off n buf = take n (drop off buf)"

definition put_at :: "nat \<Rightarrow> u8 list \<Rightarrow> u8 list \<Rightarrow> u8 list" where
  "put_at off bs buf = take off buf @ bs @ drop (off + length bs) buf"

lemma length_put_at [simp]: "off + length bs \<le> length buf \<Longrightarrow> length (put_at off bs buf) = length buf"
  by (simp add: put_at_def)

lemma length_get_at [simp]: "off + n \<le> length buf \<Longrightarrow> length (get_at off n buf) = n"
  by (simp add: get_at_def)

lemma get_put_same [simp]: "off \<le> length buf \<Longrightarrow> n = length bs \<Longrightarrow> get_at off n (put_at off bs buf) = bs"
  by (simp add: get_at_def put_at_def)

lemma nth_put_at:
  assumes "off + length bs \<le> length buf" "i < length buf"
  shows "put_at off bs buf ! i = (if off \<le> i \<and> i < off + length bs then bs ! (i - off) else buf ! i)"
  using assms by (auto simp: put_at_def nth_append min_def)

lemma get_put_other:
  assumes "off + length bs \<le> length buf" "o' + n \<le> length buf" "o' + n \<le> off \<or> off + length bs \<le> o'"
  shows "get_at o' n (put_at off bs buf) = get_at o' n buf"
proof (rule nth_equalityI)
  show "length (get_at o' n (put_at off bs buf)) = length (get_at o' n buf)" using assms by simp
  fix i assume "i < length (get_at o' n (put_at off bs buf))"
  then have "i < n" using assms by simp
  then show "get_at o' n (put_at off bs buf) ! i = get_at o' n buf ! i"
    using assms by (auto simp: get_at_def nth_put_at)
qed

lemma take_put_at: "n \<le> off \<Longrightarrow> off \<le> length buf \<Longrightarrow> take n (put_at off bs buf) = take n buf"
  by (simp add: put_at_def min_def)

lemma drop_put_at: "off + length bs \<le> n \<Longrightarrow> off \<le> length buf \<Longrightarrow> drop n (put_at off bs buf) = drop n buf"
  by (simp add: put_at_def)

lemma get_get: "o2 + n2 \<le> n1 \<Longrightarrow> get_at o2 n2 (get_at o1 n1 buf) = get_at (o1 + o2) n2 buf"
  by (simp add: get_at_def drop_take min_def add.commute)

lemma get_at_append: "off + n \<le> length xs \<Longrightarrow> get_at off n (xs @ ys) = get_at off n xs"
  by (simp add: get_at_def)

text \<open>A structure of fixed width: reading back what was written gives the value.\<close>

locale codec =
  fixes enc :: "'a \<Rightarrow> u8 list" and dec :: "u8 list \<Rightarrow> 'a" and width :: nat and ok :: "'a \<Rightarrow> bool"
  assumes enc_length: "ok x \<Longrightarrow> length (enc x) = width"
    and dec_enc: "ok x \<Longrightarrow> dec (enc x) = x"
begin

lemma load_slot_store:
  assumes "ok x" "off \<le> length buf"
  shows "dec (get_at off width (put_at off (enc x) buf)) = x"
  using assms by (simp add: enc_length dec_enc)

lemma load_slot_store_other:
  assumes "ok x" "off + width \<le> length buf" "o' + width \<le> length buf" "o' + width \<le> off \<or> off + width \<le> o'"
  shows "dec (get_at o' width (put_at off (enc x) buf)) = dec (get_at o' width buf)"
  using assms by (simp add: enc_length get_put_other)

text \<open>Entry \<open>k\<close> of an array.\<close>

lemma table_store:
  assumes "ok x" "Suc j * width \<le> length buf" "Suc k * width \<le> length buf"
  shows "dec (get_at (k * width) width (put_at (j * width) (enc x) buf)) =
    (if k = j then x else dec (get_at (k * width) width buf))"
proof (cases "k = j")
  case False
  then have "Suc k \<le> j \<or> Suc j \<le> k" by linarith
  then have "Suc k * width \<le> j * width \<or> Suc j * width \<le> k * width" using mult_le_mono1 by blast
  then show ?thesis using assms False by (simp add: load_slot_store_other ac_simps)
qed (use assms in \<open>simp add: load_slot_store\<close>)

end

section \<open>Inodes\<close>

text \<open>The node \<open>inode_tag\<close> (bytes 92 to 99) lives in the heap of links; on disk it is zero. Two
  pairs of padding bytes are part of the structure.\<close>

record inode =
  i_num :: u32
  i_mode :: u16
  i_uid :: u16
  i_size :: u32
  i_mtime :: u32
  i_gid :: u8
  i_nlinks :: u8
  i_pad0 :: u16
  i_zones :: "u32 list"
  i_atime :: u32
  i_ctime :: u32
  i_dev :: u16
  i_count :: u16
  i_lock :: u8
  i_dirt :: u8
  i_pipe :: u8
  i_mount :: u8
  i_seek :: u8
  i_update :: u8
  i_pad1 :: u16

definition inode_bytes :: "inode \<Rightarrow> u8 list" where
  "inode_bytes i = le_bytes 4 (i_num i) @ le_bytes 2 (i_mode i) @ le_bytes 2 (i_uid i) @ le_bytes 4 (i_size i) @
     le_bytes 4 (i_mtime i) @ [i_gid i, i_nlinks i] @ le_bytes 2 (i_pad0 i) @ concat (map (le_bytes 4) (i_zones i)) @
     le_bytes 4 (i_atime i) @ le_bytes 4 (i_ctime i) @ le_bytes 2 (i_dev i) @ le_bytes 2 (i_count i) @
     [i_lock i, i_dirt i, i_pipe i, i_mount i, i_seek i, i_update i] @ le_bytes 2 (i_pad1 i) @ replicate 8 0"

definition words_at :: "nat \<Rightarrow> nat \<Rightarrow> u8 list \<Rightarrow> u32 list" where
  "words_at off n buf = map (\<lambda>k. le_word (get_at (off + 4 * k) 4 buf)) [0..<n]"

definition inode_of :: "u8 list \<Rightarrow> inode" where
  "inode_of b = \<lparr>i_num = le_word (get_at 0 4 b), i_mode = le_word (get_at 4 2 b), i_uid = le_word (get_at 6 2 b),
     i_size = le_word (get_at 8 4 b), i_mtime = le_word (get_at 12 4 b), i_gid = b ! 16, i_nlinks = b ! 17,
     i_pad0 = le_word (get_at 18 2 b), i_zones = words_at 20 13 b, i_atime = le_word (get_at 72 4 b),
     i_ctime = le_word (get_at 76 4 b), i_dev = le_word (get_at 80 2 b), i_count = le_word (get_at 82 2 b),
     i_lock = b ! 84, i_dirt = b ! 85, i_pipe = b ! 86, i_mount = b ! 87, i_seek = b ! 88, i_update = b ! 89,
     i_pad1 = le_word (get_at 90 2 b)\<rparr>"

definition inode_ok :: "inode \<Rightarrow> bool" where
  "inode_ok i \<longleftrightarrow> length (i_zones i) = 13"

lemma length_concat_le_bytes [simp]: "length (concat (map (le_bytes 4) ws)) = 4 * length ws"
  by (induction ws) auto

lemma words_at_concat:
  assumes "off = length pre"
  shows "words_at off (length ws) (pre @ concat (map (le_bytes 4) ws) @ post) = (ws :: u32 list)"
  using assms
proof (induction ws arbitrary: pre off)
  case (Cons w ws)
  have "words_at (off + 4) (length ws) ((pre @ le_bytes 4 w) @ concat (map (le_bytes 4) ws) @ post) = ws"
    using Cons by (intro Cons.IH) simp
  moreover have "words_at off (Suc n) buf = le_word (get_at off 4 buf) # words_at (off + 4) n buf" for n buf
    unfolding words_at_def by (simp add: upt_conv_Cons map_Suc_upt [symmetric] comp_def ac_simps del: upt_Suc)
  ultimately show ?case using Cons.prems by (simp add: get_at_def)
qed (simp add: words_at_def)

lemma inode_bytes_length: "inode_ok i \<Longrightarrow> length (inode_bytes i) = 100"
  by (simp add: inode_bytes_def inode_ok_def)

lemma inode_of_bytes:
  assumes "inode_ok i"
  shows "inode_of (inode_bytes i) = i"
proof -
  have z: "length (i_zones i) = 13" using assms by (simp add: inode_ok_def)
  let ?pre = "le_bytes 4 (i_num i) @ le_bytes 2 (i_mode i) @ le_bytes 2 (i_uid i) @ le_bytes 4 (i_size i) @
     le_bytes 4 (i_mtime i) @ [i_gid i, i_nlinks i] @ le_bytes 2 (i_pad0 i)"
  have "words_at 20 13 (inode_bytes i) = i_zones i"
    using words_at_concat [of 20 ?pre "i_zones i"] z by (simp add: inode_bytes_def)
  then show ?thesis
    unfolding inode_of_def by (simp add: inode_bytes_def get_at_def nth_append z)
qed

interpretation inode_codec: codec inode_bytes inode_of 100 inode_ok
  by unfold_locales (simp_all add: inode_bytes_length inode_of_bytes)

section \<open>Directory entries\<close>

record dir_entry =
  filename :: "u8 list"
  i_no :: u32
  f_type :: u32

abbreviation FT_UNKOWN :: u32 where "FT_UNKOWN \<equiv> 0"
abbreviation FT_FIFO :: u32 where "FT_FIFO \<equiv> 1"
abbreviation FT_CHAR :: u32 where "FT_CHAR \<equiv> 2"
abbreviation FT_DIRECTORY :: u32 where "FT_DIRECTORY \<equiv> 3"
abbreviation FT_REGULAR :: u32 where "FT_REGULAR \<equiv> 5"

definition entry_bytes :: "dir_entry \<Rightarrow> u8 list" where
  "entry_bytes e = filename e @ le_bytes 4 (i_no e) @ le_bytes 4 (f_type e)"

definition entry_of :: "u8 list \<Rightarrow> dir_entry" where
  "entry_of b = \<lparr>filename = take 16 b, i_no = le_word (get_at 16 4 b), f_type = le_word (get_at 20 4 b)\<rparr>"

definition entry_ok :: "dir_entry \<Rightarrow> bool" where
  "entry_ok e \<longleftrightarrow> length (filename e) = 16"

interpretation entry_codec: codec entry_bytes entry_of 24 entry_ok
  by unfold_locales (simp_all add: entry_ok_def entry_bytes_def entry_of_def get_at_def)

text \<open>The string that starts at the beginning of a buffer. \<open>strlen\<close> of the name of an entry runs on
  into the number when the 16 bytes hold no zero.\<close>

definition cstr :: "u8 list \<Rightarrow> u8 list" where
  "cstr bs = takeWhile (\<lambda>c. c \<noteq> 0) bs"

definition entry_name :: "dir_entry \<Rightarrow> u8 list" where
  "entry_name e = cstr (entry_bytes e)"

text \<open>Entry \<open>k\<close> of a sector; there are 21 of them.\<close>

definition entry_at :: "u8 list \<Rightarrow> nat \<Rightarrow> dir_entry" where
  "entry_at buf k = entry_of (get_at (24 * k) 24 buf)"

section \<open>Super block\<close>

record super_block =
  s_magic :: u32
  s_ninodes :: u32
  s_nzones :: u32
  s_imap_lba :: u32
  s_imap_sz :: u32
  s_zmap_lba :: u32
  s_zmap_sz :: u32
  s_inode_table_lba :: u32
  s_inode_table_sz :: u32
  s_data_start_lba :: u32
  root_inode_no :: u32
  dir_entry_size :: u32
  s_log_zone_sz :: u32
  s_max_file_sz :: u32
  s_lock :: u8
  s_dev :: u16
  s_time :: u32
  s_rd_only :: u8
  s_dirt :: u8
  s_pad :: "u8 list"

definition sb_bytes :: "super_block \<Rightarrow> u8 list" where
  "sb_bytes b = le_bytes 4 (s_magic b) @ le_bytes 4 (s_ninodes b) @ le_bytes 4 (s_nzones b) @
     le_bytes 4 (s_imap_lba b) @ le_bytes 4 (s_imap_sz b) @ le_bytes 4 (s_zmap_lba b) @ le_bytes 4 (s_zmap_sz b) @
     le_bytes 4 (s_inode_table_lba b) @ le_bytes 4 (s_inode_table_sz b) @ le_bytes 4 (s_data_start_lba b) @
     le_bytes 4 (root_inode_no b) @ le_bytes 4 (dir_entry_size b) @ le_bytes 4 (s_log_zone_sz b) @
     le_bytes 4 (s_max_file_sz b) @ [s_lock b] @ le_bytes 2 (s_dev b) @ le_bytes 4 (s_time b) @
     [s_rd_only b, s_dirt b] @ s_pad b"

definition sb_of :: "u8 list \<Rightarrow> super_block" where
  "sb_of b = \<lparr>s_magic = le_word (get_at 0 4 b), s_ninodes = le_word (get_at 4 4 b),
     s_nzones = le_word (get_at 8 4 b), s_imap_lba = le_word (get_at 12 4 b), s_imap_sz = le_word (get_at 16 4 b),
     s_zmap_lba = le_word (get_at 20 4 b), s_zmap_sz = le_word (get_at 24 4 b),
     s_inode_table_lba = le_word (get_at 28 4 b), s_inode_table_sz = le_word (get_at 32 4 b),
     s_data_start_lba = le_word (get_at 36 4 b), root_inode_no = le_word (get_at 40 4 b),
     dir_entry_size = le_word (get_at 44 4 b), s_log_zone_sz = le_word (get_at 48 4 b),
     s_max_file_sz = le_word (get_at 52 4 b), s_lock = b ! 56, s_dev = le_word (get_at 57 2 b),
     s_time = le_word (get_at 59 4 b), s_rd_only = b ! 63, s_dirt = b ! 64, s_pad = get_at 65 447 b\<rparr>"

definition sb_ok :: "super_block \<Rightarrow> bool" where
  "sb_ok b \<longleftrightarrow> length (s_pad b) = 447"

interpretation sb_codec: codec sb_bytes sb_of 512 sb_ok
  by unfold_locales (simp_all add: sb_ok_def sb_bytes_def sb_of_def get_at_def nth_append)

section \<open>The state of the file system\<close>

text \<open>\<open>struct dir\<close> and \<open>struct file\<close>; the inode is an address, 0 for none.\<close>

record dir_stream =
  dir_inode :: addr
  dir_pos :: u32
  dir_buf :: "u8 list"

record open_file =
  fd_pos :: u32
  fd_flag :: u32
  fd_inode :: addr

record fsys =
  ks :: kstate
  disk :: "u32 \<Rightarrow> u8 list"
  part_start_lba :: u32
  part_sec_cnt :: u32
  sb :: super_block
  zone_bitmap :: bitmap
  inode_bitmap :: bitmap
  open_inodes :: addr
  inodes :: "addr \<Rightarrow> inode"
  root_dir :: addr
  dirs :: "addr \<Rightarrow> dir_stream"
  g_file_table :: "nat \<Rightarrow> open_file"
  g_ft_lock :: addr
  allocs :: "addr list"

definition inode_tag :: "addr \<Rightarrow> addr" where
  "inode_tag i = i + 92"

definition inode_of_tag :: "addr \<Rightarrow> addr" where
  "inode_of_tag t = t - 92"

lemma inode_of_tag [simp]: "inode_of_tag (inode_tag i) = i"
  by (simp add: inode_of_tag_def inode_tag_def)

lemma inode_tag_inject [simp]: "inode_tag p = inode_tag q \<longleftrightarrow> p = q"
  by (simp add: inode_tag_def)

definition upd_inode :: "addr \<Rightarrow> (inode \<Rightarrow> inode) \<Rightarrow> fsys \<Rightarrow> fsys" where
  "upd_inode p f s = s\<lparr>inodes := (inodes s)(p := f (inodes s p))\<rparr>"

definition fs_lh :: "(lheap \<Rightarrow> lheap) \<Rightarrow> fsys \<Rightarrow> fsys" where
  "fs_lh f s = s\<lparr>ks := upd_lh f (ks s)\<rparr>"

definition fs_malloc :: "fsys \<Rightarrow> addr \<times> fsys" where
  "fs_malloc s = (case allocs s of [] \<Rightarrow> (0, s) | a # as \<Rightarrow> (a, s\<lparr>allocs := as\<rparr>))"

text \<open>Sectors. The largest sector number is that of a disk of 80 megabytes.\<close>

definition max_lba :: u32 where
  "max_lba = 80 * 1024 * 1024 div 512 - 1"

primrec read_sectors :: "nat \<Rightarrow> u32 \<Rightarrow> (u32 \<Rightarrow> u8 list) \<Rightarrow> u8 list" where
  "read_sectors 0 lba d = []"
| "read_sectors (Suc n) lba d = d lba @ read_sectors n (lba + 1) d"

primrec write_sectors :: "nat \<Rightarrow> u32 \<Rightarrow> u8 list \<Rightarrow> (u32 \<Rightarrow> u8 list) \<Rightarrow> (u32 \<Rightarrow> u8 list)" where
  "write_sectors 0 lba buf d = d"
| "write_sectors (Suc n) lba buf d = write_sectors n (lba + 1) (drop 512 buf) (d(lba := take 512 buf))"

definition ide_read :: "u32 \<Rightarrow> nat \<Rightarrow> fsys \<Rightarrow> u8 list option" where
  "ide_read lba sec_cnt s = do {
     ASSERT (lba \<le> max_lba);
     ASSERT (sec_cnt > 0);
     Some (read_sectors sec_cnt lba (disk s))
   }"

definition ide_write :: "u32 \<Rightarrow> u8 list \<Rightarrow> nat \<Rightarrow> fsys \<Rightarrow> fsys option" where
  "ide_write lba buf sec_cnt s = do {
     ASSERT (lba \<le> max_lba);
     ASSERT (sec_cnt > 0);
     Some (s\<lparr>disk := write_sectors sec_cnt lba buf (disk s)\<rparr>)
   }"

definition disk_ok :: "fsys \<Rightarrow> bool" where
  "disk_ok s \<longleftrightarrow> (\<forall>a. length (disk s a) = 512)"

lemma ide_read_1: "lba \<le> max_lba \<Longrightarrow> ide_read lba (Suc 0) s = Some (disk s lba)"
  by (simp add: ide_read_def)

lemma ide_write_1:
  "lba \<le> max_lba \<Longrightarrow> length buf = 512 \<Longrightarrow> ide_write lba buf (Suc 0) s = Some (s\<lparr>disk := (disk s)(lba := buf)\<rparr>)"
  by (simp add: ide_write_def)

section \<open>Areas of consecutive sectors\<close>

lemma read_sectors_append:
  "read_sectors (a + b) lba d = read_sectors a lba d @ read_sectors b (lba + of_nat a) d"
  by (induction a arbitrary: lba) (simp_all add: ac_simps)

lemma read_sectors_cong:
  "(\<And>i. i < n \<Longrightarrow> d' (lba + of_nat i) = d (lba + of_nat i)) \<Longrightarrow> read_sectors n lba d' = read_sectors n lba d"
proof (induction n arbitrary: lba)
  case (Suc n)
  have "read_sectors n (lba + 1) d' = read_sectors n (lba + 1) d"
    using Suc.prems [of "Suc i" for i] by (intro Suc.IH) (simp add: ac_simps)
  then show ?case using Suc.prems [of 0] by simp
qed simp

lemma length_read_sectors:
  "(\<And>a. length (d a) = 512) \<Longrightarrow> length (read_sectors n lba d) = 512 * n"
  by (induction n arbitrary: lba) auto

lemma read_sectors_sub:
  assumes "\<And>a. length (d a) = 512" and "k + m \<le> n"
  shows "read_sectors m (lba + of_nat k) d = get_at (512 * k) (512 * m) (read_sectors n lba d)"
proof -
  have "n = k + (m + (n - k - m))" using assms(2) by simp
  then have "read_sectors n lba d = read_sectors k lba d @ read_sectors m (lba + of_nat k) d @
      read_sectors (n - k - m) (lba + of_nat k + of_nat m) d"
    by (metis read_sectors_append)
  then show ?thesis by (simp add: get_at_def length_read_sectors [OF assms(1)])
qed

lemma write_sectors_apply:
  "m \<le> 2 ^ 32 \<Longrightarrow> write_sectors m lba buf d a =
     (if unat (a - lba) < m then take 512 (drop (512 * unat (a - lba)) buf) else d a)"
proof (induction m arbitrary: lba buf d)
  case (Suc m)
  show ?case
  proof (cases "a = lba")
    case True
    have "unat (a - (lba + 1)) = 2 ^ 32 - 1" using True unat_minus_one_32 by simp
    then show ?thesis using Suc True by simp
  next
    case False
    then have "unat (a - lba) \<noteq> 0" using word_eq_unat32 [of "a - lba" 0] by simp
    have "unat (a - lba) = Suc (unat (a - (lba + 1)))"
    proof -
      have "1 \<le> a - lba" using \<open>unat (a - lba) \<noteq> 0\<close> by (simp add: word_le_nat_alt)
      then have "unat (a - lba - 1) = unat (a - lba) - 1" by (subst unat_sub) simp_all
      then show ?thesis using \<open>unat (a - lba) \<noteq> 0\<close> by (simp add: diff_diff_eq)
    qed
    then show ?thesis using Suc False by (simp add: ac_simps)
  qed
qed simp

lemma unat_of_nat_sub:
  assumes "i < 2 ^ 32" "j < 2 ^ 32"
  shows "unat (of_nat i - of_nat j :: u32) = (if j \<le> i then i - j else 2 ^ 32 - (j - i))"
proof -
  have "unat (of_nat i - of_nat j :: u32) = (if j \<le> i then i - j else i + 2 ^ 32 - j)"
    using assms by (simp add: unat_sub_if_size unat_of_nat_32 word_size)
  then show ?thesis using assms by (cases "j \<le> i") (simp_all, linarith?)
qed

lemma read_sectors_snoc: "read_sectors (Suc j) lba d = read_sectors j lba d @ d (lba + of_nat j)"
proof -
  have "read_sectors (j + 1) lba d = read_sectors j lba d @ d (lba + of_nat j)"
    by (simp only: read_sectors_append) simp
  then show ?thesis by simp
qed

lemma read_written:
  assumes "m \<le> 2 ^ 32" "512 * m \<le> length buf"
  shows "read_sectors m lba (write_sectors m lba buf d) = take (512 * m) buf"
proof -
  have "read_sectors j lba (write_sectors m lba buf d) = take (512 * j) buf" if "j \<le> m" for j
    using that
  proof (induction j)
    case (Suc j)
    have "unat (of_nat j :: u32) = j" using Suc.prems assms(1) by (intro unat_of_nat_32) simp
    then have "write_sectors m lba buf d (lba + of_nat j) = take 512 (drop (512 * j) buf)"
      using Suc.prems assms(1) by (subst write_sectors_apply) simp_all
    then show ?case
      using Suc take_add [of "512 * j" 512 buf] by (simp add: read_sectors_snoc ac_simps del: read_sectors.simps(2))
  qed simp
  then show ?thesis by blast
qed

text \<open>Writing sectors inside an area replaces these bytes of the area.\<close>

lemma area_write:
  assumes d: "\<And>a. length (d a) = 512" and k: "k + m \<le> n" "n < 2 ^ 32" and b: "length buf = 512 * m"
  shows "read_sectors n lba (write_sectors m (lba + of_nat k) buf d) = put_at (512 * k) buf (read_sectors n lba d)"
proof -
  let ?d = "write_sectors m (lba + of_nat k) buf d" and ?r = "n - k - m"
  have n: "n = k + (m + ?r)" using k by simp
  have split: "read_sectors n lba e = read_sectors k lba e @ read_sectors m (lba + of_nat k) e @
      read_sectors ?r (lba + of_nat (k + m)) e" for e
    by (subst n) (simp add: read_sectors_append ac_simps)
  have "read_sectors k lba ?d = read_sectors k lba d"
  proof (rule read_sectors_cong)
    fix i assume "i < k"
    then have "unat (of_nat i - of_nat k :: u32) = 2 ^ 32 - (k - i)" "\<not> 2 ^ 32 - (k - i) < m"
      using k unat_of_nat_sub [of i k] by simp_all
    then show "?d (lba + of_nat i) = d (lba + of_nat i)"
      using k by (subst write_sectors_apply) simp_all
  qed
  moreover have "read_sectors ?r (lba + of_nat (k + m)) ?d = read_sectors ?r (lba + of_nat (k + m)) d"
  proof (rule read_sectors_cong)
    fix i assume i: "i < ?r"
    have "unat (of_nat (k + m + i) - of_nat k :: u32) = m + i"
      using i k by (subst unat_of_nat_sub) simp_all
    then show "?d (lba + of_nat (k + m) + of_nat i) = d (lba + of_nat (k + m) + of_nat i)"
      using k by (subst write_sectors_apply) (simp_all add: ac_simps)
  qed
  moreover have "read_sectors m (lba + of_nat k) ?d = buf" using k b by (simp add: read_written)
  ultimately show ?thesis
    by (simp only: split [of ?d] split [of d]) (simp add: put_at_def length_read_sectors [OF d] b)
qed

text \<open>Sectors outside the written ones are kept.\<close>

lemma write_other:
  assumes "m \<le> 2 ^ 32" "m \<le> unat (a - lba)"
  shows "write_sectors m lba buf d a = d a"
  using assms by (simp add: write_sectors_apply)

lemma write_length:
  assumes "\<And>a. length (d a) = 512" "m \<le> 2 ^ 32" "512 * m \<le> length buf"
  shows "length (write_sectors m lba buf d a) = 512"
  using assms by (auto simp: write_sectors_apply)

lemma put_at_nested:
  assumes "o1 + n \<le> length buf" "o2 + length bs \<le> n"
  shows "put_at o1 (put_at o2 bs (get_at o1 n buf)) buf = put_at (o1 + o2) bs buf"
proof (rule nth_equalityI)
  show "length (put_at o1 (put_at o2 bs (get_at o1 n buf)) buf) = length (put_at (o1 + o2) bs buf)"
    using assms by simp
  fix i assume "i < length (put_at o1 (put_at o2 bs (get_at o1 n buf)) buf)"
  then have i: "i < length buf" using assms by simp
  show "put_at o1 (put_at o2 bs (get_at o1 n buf)) buf ! i = put_at (o1 + o2) bs buf ! i"
    using assms i by (auto simp: nth_put_at) (auto simp: get_at_def)
qed

end
