(* ===== verification/Inode.thy ===== *)
theory Inode
  imports Disk
begin

text \<open>
  Inodes and the two bitmaps on disk: \<^verbatim>\<open>core/fs/inode.c\<close> and the allocation functions of
  \<^verbatim>\<open>core/fs/file.c\<close>. The inode table is an area of the disk in which an inode may lie across two
  sectors. \<open>None\<close> is a failed assertion, a panic or an access through the null pointer.
\<close>

section \<open>Bitmaps\<close>

definition inode_bitmap_alloc :: "fsys \<Rightarrow> (u32 \<times> fsys) option" where
  "inode_bitmap_alloc s = do {
     idx \<leftarrow> find_block_bitmap (inode_bitmap s) 1;
     if idx = -1 then Some (-1, s)
     else do { b \<leftarrow> set_value_bitmap (inode_bitmap s) idx 1; Some (idx, s\<lparr>inode_bitmap := b\<rparr>) }
   }"

definition zone_bitmap_alloc :: "fsys \<Rightarrow> (u32 \<times> fsys) option" where
  "zone_bitmap_alloc s = do {
     idx \<leftarrow> find_block_bitmap (zone_bitmap s) 1;
     if idx = -1 then Some (-1, s)
     else do {
       b \<leftarrow> set_value_bitmap (zone_bitmap s) idx 1;
       Some (s_data_start_lba (sb s) + idx, s\<lparr>zone_bitmap := b\<rparr>)
     }
   }"

datatype bitmap_type = INODE_BITMAP | ZONE_BITMAP

text \<open>The index is signed, so the division by the bits of a sector truncates towards zero.\<close>

definition div_sector :: "u32 \<Rightarrow> u32" where
  "div_sector i = (if i <s 0 then - ((- i) div 4096) else i div 4096)"

definition bitmap_bytes :: "bitmap \<Rightarrow> nat \<Rightarrow> nat \<Rightarrow> u8 list" where
  "bitmap_bytes b off n = map (\<lambda>i. bits b (off + i)) [0..<n]"

definition flush_bitmap :: "bitmap_type \<Rightarrow> u32 \<Rightarrow> fsys \<Rightarrow> fsys option" where
  "flush_bitmap b_type bit_idx s = do {
     let off_sce = div_sector bit_idx;
     let off_size = off_sce * 512;
     let (start_lba, bitmap_buf) = (case b_type of
         INODE_BITMAP \<Rightarrow> (s_imap_lba (sb s) + off_sce, bitmap_bytes (inode_bitmap s) (unat off_size) 512)
       | ZONE_BITMAP \<Rightarrow> (s_zmap_lba (sb s) + off_sce, bitmap_bytes (zone_bitmap s) (unat off_size) 512));
     ide_write start_lba bitmap_buf 1 s
   }"

section \<open>Inodes\<close>

record iposition =
  is_crossed :: bool
  start_lba :: u32
  ioffset :: u32

definition locale_inode :: "u32 \<Rightarrow> fsys \<Rightarrow> iposition option" where
  "locale_inode inode_nr s = do {
     ASSERT (inode_nr < s_ninodes (sb s));
     let inode_offset = inode_nr * 100;
     let inode_sect_offset = inode_offset div 512;
     let inode_in_sect_offset = inode_offset mod 512;
     Some \<lparr>is_crossed = 512 - inode_in_sect_offset < 100,
       start_lba = s_inode_table_lba (sb s) + inode_sect_offset, ioffset = inode_in_sect_offset\<rparr>
   }"

definition flush_inode :: "inode \<Rightarrow> fsys \<Rightarrow> fsys option" where
  "flush_inode i s = do {
     pos \<leftarrow> locale_inode (i_num i) s;
     ASSERT (start_lba pos \<le> s_inode_table_lba (sb s) + s_inode_table_sz (sb s));
     let target_inode = i\<lparr>i_count := 0, i_lock := 0\<rparr>;
     if is_crossed pos then do {
       buf \<leftarrow> ide_read (start_lba pos) 2 s;
       ide_write (start_lba pos) (put_at (unat (ioffset pos)) (inode_bytes target_inode) buf) 2 s
     } else do {
       buf \<leftarrow> ide_read (start_lba pos) 1 s;
       ide_write (start_lba pos) (put_at (unat (ioffset pos)) (inode_bytes target_inode) buf) 1 s
     }
   }"

partial_function (option) find_open_loop :: "fsys \<Rightarrow> addr \<Rightarrow> u32 \<Rightarrow> addr \<Rightarrow> addr option" where
  "find_open_loop s list inode_nr cur =
     (if cur \<noteq> list then
        let target = inode_of_tag cur in
        if i_num (inodes s target) = inode_nr then Some target
        else find_open_loop s list inode_nr (nxt (lh (ks s)) cur)
      else Some 0)"

definition find_open_inode :: "addr \<Rightarrow> u32 \<Rightarrow> fsys \<Rightarrow> addr option" where
  "find_open_inode list inode_nr s = find_open_loop s list inode_nr (nxt (lh (ks s)) list)"

text \<open>The two allocations are not checked. The directory of the caller is switched to the kernel's
  for the first of them and back.\<close>

definition inode_open :: "u32 \<Rightarrow> fsys \<Rightarrow> (addr \<times> fsys) option" where
  "inode_open inode_nr s = do {
     target \<leftarrow> find_open_inode (open_inodes s) inode_nr s;
     if target \<noteq> 0 then Some (target, s)
     else do {
       pos \<leftarrow> locale_inode inode_nr s;
       let read_sz = (if is_crossed pos then 2 else 1);
       let (target, s) = fs_malloc s;
       let (buf, s) = fs_malloc s;
       if target = 0 \<or> buf = 0 then None
       else do {
         data \<leftarrow> ide_read (start_lba pos) read_sz s;
         let s = upd_inode target (\<lambda>_. inode_of (get_at (unat (ioffset pos)) 100 data)) s;
         let s = upd_inode target (\<lambda>i. i\<lparr>i_count := i_count i + 1\<rparr>) s;
         Some (target, fs_lh (list_add (inode_tag target) (open_inodes s)) s)
       }
     }
   }"

definition inode_close :: "addr \<Rightarrow> fsys \<Rightarrow> fsys" where
  "inode_close p s =
     (let (old_status, k) = intr_disable (ks s);
          s = s\<lparr>ks := k\<rparr>;
          s = upd_inode p (\<lambda>i. i\<lparr>i_count := i_count i - 1\<rparr>) s;
          s = (if i_count (inodes s p) = 0 then fs_lh (list_del_init (inode_tag p)) s else s)
      in s\<lparr>ks := intr_set_status old_status (ks s)\<rparr>)"

definition new_inode :: "u32 \<Rightarrow> inode \<Rightarrow> inode" where
  "new_inode inode_nr i =
     i\<lparr>i_num := inode_nr, i_size := 0, i_count := 0, i_lock := 0, i_zones := replicate 13 0\<rparr>"

definition inode_delete :: "u32 \<Rightarrow> fsys \<Rightarrow> fsys option" where
  "inode_delete inode_no s = do {
     pos \<leftarrow> locale_inode inode_no s;
     if is_crossed pos then do {
       buf \<leftarrow> ide_read (start_lba pos) 2 s;
       ide_write (start_lba pos) (put_at (unat (ioffset pos)) (replicate 100 0) buf) 2 s
     } else do {
       buf \<leftarrow> ide_read (start_lba pos) 1 s;
       ide_write (start_lba pos) (put_at (unat (ioffset pos)) (replicate 100 0) buf) 1 s
     }
   }"

text \<open>The array of 140 zones, zero before the call; the first loop stops at a zero zone.\<close>

definition inode_all_zones :: "inode \<Rightarrow> fsys \<Rightarrow> u32 list option" where
  "inode_all_zones i s = do {
     let direct = takeWhile (\<lambda>z. z \<noteq> 0) (take 12 (i_zones i));
     table \<leftarrow> (if i_zones i ! 12 \<noteq> 0 then do { b \<leftarrow> ide_read (i_zones i ! 12) 1 s; Some (words_at 0 128 b) }
               else Some (replicate 128 0));
     Some (direct @ replicate (12 - length direct) 0 @ table)
   }"

definition recycle_zone :: "u32 \<Rightarrow> fsys \<Rightarrow> (u32 \<times> fsys) option" where
  "recycle_zone zone s = do {
     let zone_bitmap_idx = zone - s_data_start_lba (sb s);
     ASSERT (zone_bitmap_idx > 0);
     b \<leftarrow> set_value_bitmap (zone_bitmap s) zone_bitmap_idx 0;
     s \<leftarrow> flush_bitmap ZONE_BITMAP zone_bitmap_idx (s\<lparr>zone_bitmap := b\<rparr>);
     Some (zone_bitmap_idx, s)
   }"

primrec recycle_zones :: "u32 list \<Rightarrow> u32 \<Rightarrow> fsys \<Rightarrow> (u32 \<times> fsys) option" where
  "recycle_zones [] idx s = Some (idx, s)"
| "recycle_zones (z # zs) idx s = do { (idx, s) \<leftarrow> recycle_zone z s; recycle_zones zs idx s }"

text \<open>The index of the last zone is passed to the flush of the inode bitmap; \<open>junk\<close> is the content of
  the variable on the stack when there is no zone. The array has a zero behind the 140 zones.\<close>

definition inode_release :: "u32 \<Rightarrow> u32 \<Rightarrow> fsys \<Rightarrow> fsys option" where
  "inode_release junk inode_nr s = do {
     (p, s) \<leftarrow> inode_open inode_nr s;
     all_zones \<leftarrow> inode_all_zones (inodes s p) s;
     (idx, s) \<leftarrow> recycle_zones (takeWhile (\<lambda>z. z \<noteq> 0) all_zones) junk s;
     (idx, s) \<leftarrow> (if i_zones (inodes s p) ! 12 \<noteq> 0 then recycle_zone (i_zones (inodes s p) ! 12) s
                  else Some (idx, s));
     b \<leftarrow> set_value_bitmap (inode_bitmap s) inode_nr 0;
     s \<leftarrow> flush_bitmap INODE_BITMAP idx (s\<lparr>inode_bitmap := b\<rparr>);
     let (io_buf, s) = fs_malloc s;
     s \<leftarrow> (if io_buf = 0 then None else inode_delete inode_nr s);
     Some (inode_close p s)
   }"

section \<open>The inode table\<close>

text \<open>The areas of a formatted partition follow each other on the disk.\<close>

definition geometry_ok :: "super_block \<Rightarrow> bool" where
  "geometry_ok b \<longleftrightarrow> unat (s_imap_lba b) + unat (s_imap_sz b) \<le> unat (s_zmap_lba b) \<and>
     unat (s_zmap_lba b) + unat (s_zmap_sz b) \<le> unat (s_inode_table_lba b) \<and>
     unat (s_inode_table_lba b) + unat (s_inode_table_sz b) \<le> unat (s_data_start_lba b) \<and>
     s_data_start_lba b \<le> max_lba \<and> 100 * unat (s_ninodes b) \<le> 512 * unat (s_inode_table_sz b)"

definition inode_area :: "fsys \<Rightarrow> u8 list" where
  "inode_area s = read_sectors (unat (s_inode_table_sz (sb s))) (s_inode_table_lba (sb s)) (disk s)"

definition disk_inode :: "fsys \<Rightarrow> nat \<Rightarrow> inode" where
  "disk_inode s k = inode_of (get_at (100 * k) 100 (inode_area s))"

lemma unat_max_lba: "unat max_lba = 163839"
  by (simp add: max_lba_def)

lemma disk_okD: "disk_ok s \<Longrightarrow> length (disk s a) = 512"
  by (simp add: disk_ok_def)

lemma length_inode_area: "disk_ok s \<Longrightarrow> length (inode_area s) = 512 * unat (s_inode_table_sz (sb s))"
  by (simp add: inode_area_def length_read_sectors disk_okD)

text \<open>Where an inode lies.\<close>

lemma locale_inode_pos:
  assumes g: "geometry_ok (sb s)" and nr: "nr < s_ninodes (sb s)"
  obtains pos where "locale_inode nr s = Some pos"
    "start_lba pos = s_inode_table_lba (sb s) + of_nat (100 * unat nr div 512)"
    "unat (ioffset pos) = 100 * unat nr mod 512"
    "start_lba pos \<le> max_lba" "start_lba pos \<le> s_inode_table_lba (sb s) + s_inode_table_sz (sb s)"
    "100 * unat nr mod 512 + 100 \<le> 512 * (if is_crossed pos then 2 else 1)"
    "100 * unat nr div 512 + (if is_crossed pos then 2 else 1) \<le> unat (s_inode_table_sz (sb s))"
proof -
  let ?T = "unat (s_inode_table_lba (sb s))" and ?S = "unat (s_inode_table_sz (sb s))" and ?o = "100 * unat nr"
  have "unat nr < unat (s_ninodes (sb s))" using nr by (simp add: word_less_nat_alt)
  then have o: "?o + 100 \<le> 512 * ?S" using g unfolding geometry_ok_def by linarith
  have ts: "?T + ?S \<le> 163839"
    using g unat_max_lba unfolding geometry_ok_def word_le_nat_alt by linarith
  have u: "unat (nr * 100) = ?o" using o ts by (subst unat_mult_less) (simp_all add: mult.commute)
  have ud: "unat (nr * 100 div 512) = ?o div 512" "unat (nr * 100 mod 512) = ?o mod 512"
    by (simp_all add: unat_div_word unat_mod_word u)
  let ?pos = "\<lparr>is_crossed = 512 - nr * 100 mod 512 < 100, start_lba = s_inode_table_lba (sb s) + nr * 100 div 512,
    ioffset = nr * 100 mod 512\<rparr>"
  have k: "?o div 512 < ?S" using o by (simp add: less_mult_imp_div_less mult.commute)
  have st: "unat (start_lba ?pos) = ?T + ?o div 512" using k ts ud by (simp add: unat_add_less)
  have sum: "unat (s_inode_table_lba (sb s) + s_inode_table_sz (sb s)) = ?T + ?S" using ts by (simp add: unat_add_less)
  have cr: "is_crossed ?pos \<longleftrightarrow> 512 - ?o mod 512 < 100"
  proof -
    have "unat (512 - nr * 100 mod 512) = 512 - ?o mod 512"
      using ud by (subst unat_sub_word) simp_all
    then show ?thesis by (simp add: word_less_nat_alt)
  qed
  have fit: "?o mod 512 + 100 \<le> 512 * (if is_crossed ?pos then 2 else 1)"
    using cr mod_less_divisor [of 512 ?o] by (cases "is_crossed ?pos") simp_all
  have bound: "?o div 512 + (if is_crossed ?pos then 2 else 1) \<le> ?S"
  proof (cases "is_crossed ?pos")
    case True
    then have "412 < ?o mod 512" using cr by linarith
    moreover have "?o = 512 * (?o div 512) + ?o mod 512" by (rule mult_div_mod_eq [symmetric])
    moreover have "q + 2 \<le> S" if "412 < r" "x = 512 * q + r" "x + 100 \<le> 512 * S" for q r x S :: nat
      using that by linarith
    ultimately have "?o div 512 + 2 \<le> ?S" using o by blast
    then show ?thesis using True by simp
  qed (use k in simp)
  show thesis
  proof (rule that [of ?pos])
    show "locale_inode nr s = Some ?pos" using nr by (simp add: locale_inode_def ASSERT_bind Let_def)
    show "start_lba ?pos = s_inode_table_lba (sb s) + of_nat (?o div 512)"
      by (simp add: ud(1) [symmetric])
    show "start_lba ?pos \<le> max_lba" using st k ts by (simp add: word_le_nat_alt unat_max_lba)
    show "start_lba ?pos \<le> s_inode_table_lba (sb s) + s_inode_table_sz (sb s)"
      using st k sum by (simp add: word_le_nat_alt)
  qed (use fit bound ud in simp_all)
qed

text \<open>Reading the sectors of an inode, replacing its bytes and writing them back.\<close>

lemma patch_inode:
  assumes g: "geometry_ok (sb s)" and d: "disk_ok s" and nr: "nr < s_ninodes (sb s)"
    and pos: "locale_inode nr s = Some pos" and bs: "length bs = 100"
    and n: "n = (if is_crossed pos then 2 else 1)"
  shows "\<exists>buf s'. ide_read (start_lba pos) n s = Some buf \<and>
    ide_write (start_lba pos) (put_at (unat (ioffset pos)) bs buf) n s = Some s' \<and> s' = s\<lparr>disk := disk s'\<rparr> \<and>
    disk_ok s' \<and> inode_area s' = put_at (100 * unat nr) bs (inode_area s) \<and>
    get_at (unat (ioffset pos)) 100 buf = get_at (100 * unat nr) 100 (inode_area s) \<and>
    (\<forall>a. unat (s_inode_table_sz (sb s)) \<le> unat (a - s_inode_table_lba (sb s)) \<longrightarrow> disk s' a = disk s a)"
proof -
  let ?T = "s_inode_table_lba (sb s)" and ?S = "unat (s_inode_table_sz (sb s))" and ?o = "100 * unat nr"
  let ?k = "?o div 512" and ?r = "?o mod 512"
  have p: "start_lba pos = ?T + of_nat ?k" "unat (ioffset pos) = ?r" "start_lba pos \<le> max_lba"
    "?r + 100 \<le> 512 * n" "?k + n \<le> ?S" "0 < n"
    using locale_inode_pos [OF g nr] pos n by force+
  have S: "?S < 2 ^ 32" by (simp add: unat_less_32)
  have dl: "\<And>a. length (disk s a) = 512" using d by (simp add: disk_ok_def)
  define buf where "buf = get_at (512 * ?k) (512 * n) (inode_area s)"
  define out where "out = put_at ?r bs buf"
  have la: "length (inode_area s) = 512 * ?S" by (rule length_inode_area [OF d])
  have kn: "512 * ?k + 512 * n \<le> 512 * ?S" using p(5) by linarith
  have lb: "length buf = 512 * n" using kn la by (simp add: buf_def)
  have rd: "ide_read (start_lba pos) n s = Some buf"
    using p read_sectors_sub [of "disk s" ?k n ?S ?T, OF dl p(5)]
    by (simp add: ide_read_def buf_def inode_area_def)
  have lo: "length out = 512 * n" using p(4) lb bs by (simp add: out_def)
  let ?s' = "s\<lparr>disk := write_sectors n (?T + of_nat ?k) out (disk s)\<rparr>"
  have wr: "ide_write (start_lba pos) (put_at (unat (ioffset pos)) bs buf) n s = Some ?s'"
    using p by (simp add: ide_write_def out_def)
  have "inode_area ?s' = put_at (512 * ?k) out (inode_area s)"
    using area_write [of "disk s" ?k n ?S out ?T, OF dl p(5) S lo] by (simp add: inode_area_def)
  also have "\<dots> = put_at (512 * ?k + ?r) bs (inode_area s)"
    unfolding out_def buf_def using kn la p(4) bs by (intro put_at_nested) simp_all
  finally have ar: "inode_area ?s' = put_at ?o bs (inode_area s)" by (simp only: mult_div_mod_eq)
  have "n \<le> 2 ^ 32" using p(5) S by linarith
  then have ok: "disk_ok ?s'" using lo dl write_length [of "disk s" n out] by (simp add: disk_ok_def)
  have "get_at ?r 100 buf = get_at ?o 100 (inode_area s)"
    unfolding buf_def get_get [OF p(4)] by (simp only: mult_div_mod_eq)
  moreover have "disk ?s' a = disk s a" if "?S \<le> unat (a - ?T)" for a
  proof -
    have "n \<le> unat (a - (?T + of_nat ?k))"
    proof -
      have "unat (of_nat ?k :: u32) = ?k" using p(5) S by (intro unat_of_nat_32) linarith
      moreover have "unat (a - ?T - of_nat ?k) = unat (a - ?T) - ?k"
        using that p(5) calculation by (subst unat_sub_word) simp_all
      ultimately show ?thesis using that p(5) by (simp add: diff_diff_eq)
    qed
    then show ?thesis using \<open>n \<le> 2 ^ 32\<close> by (simp add: write_other)
  qed
  ultimately show ?thesis using rd wr ar ok p(2) by (intro exI [of _ buf] exI [of _ ?s']) simp
qed

lemma flush_inode_ok:
  assumes g: "geometry_ok (sb s)" and d: "disk_ok s" and nr: "i_num i < s_ninodes (sb s)" and i: "inode_ok i"
  shows "\<exists>s'. flush_inode i s = Some s' \<and> s' = s\<lparr>disk := disk s'\<rparr> \<and> disk_ok s' \<and>
    (\<forall>k < unat (s_ninodes (sb s)). disk_inode s' k =
       (if k = unat (i_num i) then i\<lparr>i_count := 0, i_lock := 0\<rparr> else disk_inode s k)) \<and>
    (\<forall>a. unat (s_inode_table_sz (sb s)) \<le> unat (a - s_inode_table_lba (sb s)) \<longrightarrow> disk s' a = disk s a)"
proof -
  let ?t = "i\<lparr>i_count := 0, i_lock := 0\<rparr>"
  have t: "inode_ok ?t" using i by (simp add: inode_ok_def)
  from locale_inode_pos [OF g nr] obtain pos where
    pos: "locale_inode (i_num i) s = Some pos" "start_lba pos \<le> s_inode_table_lba (sb s) + s_inode_table_sz (sb s)" .
  from patch_inode [OF g d nr pos(1) inode_bytes_length [OF t] refl] obtain buf s' where
    b: "ide_read (start_lba pos) (if is_crossed pos then 2 else 1) s = Some buf"
    "ide_write (start_lba pos) (put_at (unat (ioffset pos)) (inode_bytes ?t) buf) (if is_crossed pos then 2 else 1) s = Some s'"
    "s' = s\<lparr>disk := disk s'\<rparr>" "disk_ok s'" "inode_area s' = put_at (100 * unat (i_num i)) (inode_bytes ?t) (inode_area s)"
    "\<forall>a. unat (s_inode_table_sz (sb s)) \<le> unat (a - s_inode_table_lba (sb s)) \<longrightarrow> disk s' a = disk s a" by blast
  have "flush_inode i s = Some s'" using pos b(1,2) by (auto simp: flush_inode_def ASSERT_bind split: if_splits)
  moreover have "disk_inode s' k = (if k = unat (i_num i) then ?t else disk_inode s k)"
    if "k < unat (s_ninodes (sb s))" for k
  proof -
    have lim: "Suc j * 100 \<le> length (inode_area s)" if "j < unat (s_ninodes (sb s))" for j
      using that g length_inode_area [OF d] by (simp add: geometry_ok_def)
    have "Suc (unat (i_num i)) * 100 \<le> length (inode_area s)" using nr by (intro lim) (simp add: word_less_nat_alt)
    from inode_codec.table_store [OF t this lim [OF that]] show ?thesis
      using b(5) by (simp add: disk_inode_def mult.commute)
  qed
  ultimately show ?thesis using b(3,4,6) by blast
qed

section \<open>Open inodes\<close>

definition open_list :: "fsys \<Rightarrow> addr list \<Rightarrow> bool" where
  "open_list s ps \<longleftrightarrow> dlist (lh (ks s)) (open_inodes s) (map inode_tag ps)"

lemma find_open_loop_list:
  assumes "dlist (lh (ks s)) h (map inode_tag (xs @ ps))"
  shows "find_open_loop s h nr (hd (map inode_tag ps @ [h])) =
    Some (case List.find (\<lambda>p. i_num (inodes s p) = nr) ps of None \<Rightarrow> 0 | Some p \<Rightarrow> p)"
  using assms
proof (induction ps arbitrary: xs)
  case Nil
  then show ?case by (simp add: find_open_loop.simps)
next
  case (Cons p ps)
  have "inode_tag p \<noteq> h" using dlist_distinct [OF Cons.prems] by auto
  moreover have "nxt (lh (ks s)) (inode_tag p) = hd (map inode_tag ps @ [h])"
    using Cons.prems dlist_split [of "lh (ks s)" h "map inode_tag (xs @ [p])" "map inode_tag ps"] by auto
  ultimately show ?case
    using Cons.IH [of "xs @ [p]"] Cons.prems by (subst find_open_loop.simps) auto
qed

lemma find_open_inode_list:
  assumes "open_list s ps"
  shows "find_open_inode (open_inodes s) nr s =
    Some (case List.find (\<lambda>p. i_num (inodes s p) = nr) ps of None \<Rightarrow> 0 | Some p \<Rightarrow> p)"
  using find_open_loop_list [of s "open_inodes s" "[]" ps nr] dlist_hd [of "lh (ks s)" "open_inodes s" "map inode_tag ps"] assms
  by (simp add: find_open_inode_def open_list_def)

text \<open>Opening an inode that is not open loads it from the table.\<close>

lemma inode_open_loads:
  assumes g: "geometry_ok (sb s)" and d: "disk_ok s" and nr: "nr < s_ninodes (sb s)"
    and l: "open_list s ps" "\<forall>p \<in> set ps. i_num (inodes s p) \<noteq> nr"
    and al: "allocs s = a # b # as" "a \<noteq> 0" "b \<noteq> 0" "inode_tag a \<noteq> open_inodes s" "a \<notin> set ps"
  shows "\<exists>s'. inode_open nr s = Some (a, s') \<and> open_list s' (a # ps) \<and> disk s' = disk s \<and> sb s' = sb s \<and>
    inodes s' = (inodes s)(a := (disk_inode s (unat nr))\<lparr>i_count := i_count (disk_inode s (unat nr)) + 1\<rparr>) \<and>
    zone_bitmap s' = zone_bitmap s \<and> inode_bitmap s' = inode_bitmap s \<and> open_inodes s' = open_inodes s \<and> allocs s' = as"
proof -
  have "List.find (\<lambda>p. i_num (inodes s p) = nr) ps = None" using l(2) by (simp add: find_None_iff)
  then have f: "find_open_inode (open_inodes s) nr s = Some 0" using find_open_inode_list [OF l(1), of nr] by simp
  from locale_inode_pos [OF g nr] obtain pos where pos: "locale_inode nr s = Some pos" .
  obtain buf where buf: "ide_read (start_lba pos) (if is_crossed pos then 2 else 1) s = Some buf"
    "get_at (unat (ioffset pos)) 100 buf = get_at (100 * unat nr) 100 (inode_area s)"
    using patch_inode [OF g d nr pos, of "replicate 100 0"] by auto
  let ?s = "s\<lparr>allocs := as\<rparr>"
  have r: "ide_read (start_lba pos) (if is_crossed pos then 2 else 1) ?s = Some buf"
    using buf(1) by (simp add: ide_read_def)
  let ?i = "disk_inode s (unat nr)"
  let ?s' = "?s\<lparr>inodes := (inodes s)(a := ?i\<lparr>i_count := i_count ?i + 1\<rparr>),
    ks := upd_lh (list_add (inode_tag a) (open_inodes s)) (ks s)\<rparr>"
  have "inode_open nr s = Some (a, ?s')"
    using f pos al(1-3) r buf(2)
    by (simp add: inode_open_def fs_malloc_def Let_def upd_inode_def fs_lh_def disk_inode_def)
  moreover have "inode_tag a \<notin> set (map inode_tag ps)" using al(5) by auto
  then have "open_list ?s' (a # ps)"
    using list_add_dlist [of "lh (ks s)" "open_inodes s" "map inode_tag ps" "inode_tag a"] l(1) al(4,5)
    by (auto simp: open_list_def upd_lh_def)
  ultimately show ?thesis by (intro exI [of _ ?s']) simp
qed

lemma find_unique:
  "p \<in> set ps \<Longrightarrow> P p \<Longrightarrow> (\<And>q. q \<in> set ps \<Longrightarrow> P q \<Longrightarrow> q = p) \<Longrightarrow> List.find P ps = Some p"
proof (induction ps)
  case (Cons q qs)
  show ?case
  proof (cases "P q")
    case True
    then have "q = p" using Cons.prems(3) [of q] by simp
    then show ?thesis using True by simp
  next
    case False
    have "List.find P qs = Some p"
    proof (rule Cons.IH)
      show "p \<in> set qs" using Cons.prems(1,2) False by auto
      show "P p" by (rule Cons.prems(2))
      show "r = p" if "r \<in> set qs" "P r" for r using that by (intro Cons.prems(3)) simp_all
    qed
    then show ?thesis using False by simp
  qed
qed simp

lemma inode_open_again:
  assumes "open_list s ps" and "p \<in> set ps" and "\<forall>q \<in> set ps. i_num (inodes s q) = nr \<longrightarrow> q = p"
    and "i_num (inodes s p) = nr" and "p \<noteq> 0"
  shows "inode_open nr s = Some (p, s)"
proof -
  have "List.find (\<lambda>p. i_num (inodes s p) = nr) ps = Some p"
    by (rule find_unique) (use assms(2-4) in blast)+
  then show ?thesis
    using find_open_inode_list [OF assms(1), of nr] assms(5) by (simp add: inode_open_def)
qed

text \<open>C13. The inode table on disk: flushing an inode writes exactly this inode, wherever it lies and
  also across two sectors; every other inode and every sector outside the table is unchanged. Opening
  the inode afterwards loads it with all its fields, an open count of 1 and no lock.\<close>

theorem inode_flush_open:
  assumes g: "geometry_ok (sb s)" and d: "disk_ok s" and nr: "i_num i < s_ninodes (sb s)" and i: "inode_ok i"
    and l: "open_list s ps" "\<forall>p \<in> set ps. i_num (inodes s p) \<noteq> i_num i"
    and al: "allocs s = a # b # as" "a \<noteq> 0" "b \<noteq> 0" "inode_tag a \<noteq> open_inodes s" "a \<notin> set ps"
  shows "\<exists>s' s''. flush_inode i s = Some s' \<and> disk_ok s' \<and>
    (\<forall>k < unat (s_ninodes (sb s)). k \<noteq> unat (i_num i) \<longrightarrow> disk_inode s' k = disk_inode s k) \<and>
    (\<forall>x. unat (s_inode_table_sz (sb s)) \<le> unat (x - s_inode_table_lba (sb s)) \<longrightarrow> disk s' x = disk s x) \<and>
    inode_open (i_num i) s' = Some (a, s'') \<and> open_list s'' (a # ps) \<and>
    inodes s'' = (inodes s)(a := i\<lparr>i_lock := 0, i_count := 1\<rparr>)"
proof -
  from flush_inode_ok [OF g d nr i] obtain s' where
    s': "flush_inode i s = Some s'" "disk_ok s'" and e: "s' = s\<lparr>disk := disk s'\<rparr>"
    and dk: "\<And>k. k < unat (s_ninodes (sb s)) \<Longrightarrow> disk_inode s' k =
      (if k = unat (i_num i) then i\<lparr>i_count := 0, i_lock := 0\<rparr> else disk_inode s k)"
    and out: "\<forall>a. unat (s_inode_table_sz (sb s)) \<le> unat (a - s_inode_table_lba (sb s)) \<longrightarrow> disk s' a = disk s a"
    by blast
  have same: "sb s' = sb s" "inodes s' = inodes s" "ks s' = ks s" "open_inodes s' = open_inodes s" "allocs s' = allocs s"
    by (subst e, simp)+
  have "open_list s' ps" using l(1) by (simp add: open_list_def same)
  then obtain s'' where s'': "inode_open (i_num i) s' = Some (a, s'')" "open_list s'' (a # ps)"
    "inodes s'' = (inodes s')(a := (disk_inode s' (unat (i_num i)))\<lparr>i_count := i_count (disk_inode s' (unat (i_num i))) + 1\<rparr>)"
    using inode_open_loads [of s' "i_num i" ps a b as] g s'(2) nr l(2) al by (auto simp: same)
  have "unat (i_num i) < unat (s_ninodes (sb s))" using nr by (simp add: word_less_nat_alt)
  then show ?thesis using s' s'' dk out by (rule_tac exI [of _ s'], rule_tac exI [of _ s'']) (simp add: same)
qed

text \<open>A small formatted partition: one sector for each bitmap, four for the inode table, data from
  sector 8 on. The open inodes list is empty.\<close>

definition sample_sb :: super_block where
  "sample_sb = \<lparr>s_magic = 0x2023B07A, s_ninodes = 20, s_nzones = 100, s_imap_lba = 2, s_imap_sz = 1, s_zmap_lba = 3,
     s_zmap_sz = 1, s_inode_table_lba = 4, s_inode_table_sz = 4, s_data_start_lba = 8, root_inode_no = 0,
     dir_entry_size = 24, s_log_zone_sz = 0, s_max_file_sz = 0, s_lock = 0, s_dev = 0, s_time = 0, s_rd_only = 0,
     s_dirt = 0, s_pad = replicate 447 0\<rparr>"

definition zero_inode :: inode where
  "zero_inode = \<lparr>i_num = 0, i_mode = 0, i_uid = 0, i_size = 0, i_mtime = 0, i_gid = 0, i_nlinks = 0, i_pad0 = 0,
     i_zones = replicate 13 0, i_atime = 0, i_ctime = 0, i_dev = 0, i_count = 0, i_lock = 0, i_dirt = 0, i_pipe = 0,
     i_mount = 0, i_seek = 0, i_update = 0, i_pad1 = 0\<rparr>"

definition sample_fs :: fsys where
  "sample_fs = \<lparr>ks = boot_kstate, disk = (\<lambda>_. replicate 512 0), part_start_lba = 0, part_sec_cnt = 4000, sb = sample_sb,
     zone_bitmap = \<lparr>bits = (\<lambda>_. 0), map_bytes_length = 512\<rparr>, inode_bitmap = \<lparr>bits = (\<lambda>_. 0), map_bytes_length = 512\<rparr>,
     open_inodes = 0xc0009000, inodes = (\<lambda>_. zero_inode), root_dir = 0xc0009100,
     dirs = (\<lambda>_. \<lparr>dir_inode = 0, dir_pos = 0, dir_buf = replicate 512 0\<rparr>),
     g_file_table = (\<lambda>_. \<lparr>fd_pos = 0, fd_flag = 0, fd_inode = 0\<rparr>), g_ft_lock = 0xc0008040,
     allocs = [0xc0110000, 0xc0111000, 0xc0112000, 0xc0113000]\<rparr>"

lemma sample_fs_ok:
  "geometry_ok (sb sample_fs)" "disk_ok sample_fs" "open_list sample_fs []"
  by (simp_all add: geometry_ok_def sample_fs_def sample_sb_def max_lba_def disk_ok_def open_list_def dlist_Nil
      boot_kstate_def)

theorem inode_flush_open_witness:
  "\<exists>s' s''. flush_inode (zero_inode\<lparr>i_num := 5, i_size := 77\<rparr>) sample_fs = Some s' \<and>
     inode_open 5 s' = Some (0xc0110000, s'') \<and> i_size (inodes s'' 0xc0110000) = 77 \<and>
     i_count (inodes s'' 0xc0110000) = 1"
proof -
  let ?i = "zero_inode\<lparr>i_num := 5, i_size := 77\<rparr>"
  have "i_num ?i < s_ninodes (sb sample_fs)" "inode_ok ?i"
    by (simp_all add: sample_fs_def sample_sb_def inode_ok_def zero_inode_def)
  moreover have "allocs sample_fs = 0xc0110000 # 0xc0111000 # [0xc0112000, 0xc0113000]"
    "inode_tag 0xc0110000 \<noteq> open_inodes sample_fs"
    by (simp_all add: sample_fs_def inode_tag_def)
  ultimately show ?thesis using inode_flush_open [OF sample_fs_ok(1,2) _ _ sample_fs_ok(3), of ?i] by fastforce
qed

text \<open>An inode that is opened twice and closed once is off the list of open inodes: opening it again
  does not count.\<close>

lemma inode_open_not_counted:
  assumes "open_list s ps" and "p \<in> set ps" and "\<forall>q \<in> set ps. i_num (inodes s q) = nr \<longrightarrow> q = p"
    and "i_num (inodes s p) = nr" and "p \<noteq> 0" and "i_count (inodes s p) = 1"
  shows "inode_open nr s = Some (p, s)" and "open_list (inode_close p s) (remove1 p ps)"
proof -
  show "inode_open nr s = Some (p, s)" by (rule inode_open_again [OF assms(1-5)])
  have "dlist (list_del_init (inode_tag p) (lh (ks s))) (open_inodes s) (remove1 (inode_tag p) (map inode_tag ps))"
    using list_del_init_dlist(1) assms(1,2) by (simp add: open_list_def)
  moreover have "remove1 (inode_tag p) (map inode_tag qs) = map inode_tag (remove1 p qs)" for qs
    by (induction qs) auto
  ultimately show "open_list (inode_close p s) (remove1 p ps)"
    using assms(6) by (simp add: open_list_def inode_close_def upd_inode_def fs_lh_def upd_lh_def intr_disable_eq
        intr_set_status_eq Let_def)
qed

section \<open>The bitmap of zones on disk\<close>

text \<open>The sectors of the zone bitmap hold the bytes of the bitmap in memory.\<close>

definition zmap_synced :: "fsys \<Rightarrow> bool" where
  "zmap_synced s \<longleftrightarrow> map_bytes_length (zone_bitmap s) = 512 * s_zmap_sz (sb s) \<and>
     read_sectors (unat (s_zmap_sz (sb s))) (s_zmap_lba (sb s)) (disk s) =
       bitmap_bytes (zone_bitmap s) 0 (512 * unat (s_zmap_sz (sb s)))"

lemma zmap_size:
  assumes "geometry_ok (sb s)" "zmap_synced s"
  shows "nbits (zone_bitmap s) = 4096 * unat (s_zmap_sz (sb s))" and "wf_bitmap (zone_bitmap s)"
    and "unat (s_zmap_sz (sb s)) \<le> 163839"
proof -
  show z: "unat (s_zmap_sz (sb s)) \<le> 163839"
    using assms(1) unat_max_lba unfolding geometry_ok_def word_le_nat_alt by linarith
  then show n: "nbits (zone_bitmap s) = 4096 * unat (s_zmap_sz (sb s))"
    using assms(2) by (simp add: nbits_def zmap_synced_def unat_mult_less)
  show "wf_bitmap (zone_bitmap s)" using z by (simp add: wf_bitmap_def n)
qed

lemma div_sector_small: "unat i < 2 ^ 31 \<Longrightarrow> div_sector i = i div 4096"
  using sless_small [of i 0] by (simp add: div_sector_def)

lemma flush_zone_bitmap:
  assumes g: "geometry_ok (sb s)" and d: "disk_ok s" and sy: "zmap_synced s" and i: "unat i < nbits (zone_bitmap s)"
    and b: "set_value_bitmap (zone_bitmap s) i v = Some b"
  shows "\<exists>s'. flush_bitmap ZONE_BITMAP i (s\<lparr>zone_bitmap := b\<rparr>) = Some s' \<and>
    s' = s\<lparr>zone_bitmap := b, disk := disk s'\<rparr> \<and> disk_ok s' \<and> zmap_synced s' \<and>
    (\<forall>a. unat (s_zmap_sz (sb s)) \<le> unat (a - s_zmap_lba (sb s)) \<longrightarrow> disk s' a = disk s a)"
proof -
  let ?Z = "unat (s_zmap_sz (sb s))" and ?k = "unat i div 4096" and ?L = "s_zmap_lba (sb s)"
  note z = zmap_size [OF g sy]
  have k: "?k + 1 \<le> ?Z" "?k < 2 ^ 32" using i z(1) le_less_trans [OF div_le_dividend unat_less_32, of i 4096]
    by (simp_all add: less_mult_imp_div_less mult.commute)
  have ud: "div_sector i = of_nat ?k"
    using i z by (subst div_sector_small) (simp_all add: unat_div_word word_eq_unat32 unat_of_nat_32)
  have uo: "unat (of_nat ?k * 512 :: u32) = 512 * ?k"
    using k z(3) by (subst unat_mult_less) (simp_all add: unat_of_nat_32)
  have st: "unat (?L + of_nat ?k) = unat ?L + ?k" "unat ?L + ?k \<le> 163839"
  proof -
    show l: "unat ?L + ?k \<le> 163839"
      using g k unat_max_lba unfolding geometry_ok_def word_le_nat_alt by linarith
    then show "unat (?L + of_nat ?k) = unat ?L + ?k" using k by (subst unat_add_less) (simp_all add: unat_of_nat_32)
  qed
  let ?buf = "bitmap_bytes b (512 * ?k) 512"
  let ?d = "write_sectors 1 (?L + of_nat ?k) ?buf (disk s)"
  let ?s' = "s\<lparr>zone_bitmap := b, disk := ?d\<rparr>"
  have f: "flush_bitmap ZONE_BITMAP i (s\<lparr>zone_bitmap := b\<rparr>) = Some ?s'"
    using st by (simp add: flush_bitmap_def ud uo ide_write_def ASSERT_bind word_le_nat_alt unat_max_lba)
  have lb: "length ?buf = 512 * 1" by (simp add: bitmap_bytes_def)
  have dl: "\<And>a. length (disk s a) = 512" using d by (simp add: disk_ok_def)
  have same: "bits b j = bits (zone_bitmap s) j" if "j div 512 \<noteq> ?k" for j
  proof -
    have "unat (i div 8) div 512 = ?k" by (simp add: unat_div_word div_mult2_eq [symmetric])
    then have "j \<noteq> unat (i div 8)" using that by blast
    then show ?thesis using b by (auto simp: set_value_bitmap_def ASSERT_bind Let_def split: if_splits)
  qed
  have "read_sectors ?Z ?L ?d = put_at (512 * ?k) ?buf (bitmap_bytes (zone_bitmap s) 0 (512 * ?Z))"
    using area_write [of "disk s" ?k 1 ?Z ?buf ?L, OF dl k(1) _ lb] sy unat_less_32 [of "s_zmap_sz (sb s)"]
    by (simp add: zmap_synced_def)
  also have "\<dots> = bitmap_bytes b 0 (512 * ?Z)"
  proof (rule nth_equalityI)
    have le: "512 * ?k + length ?buf \<le> length (bitmap_bytes (zone_bitmap s) 0 (512 * ?Z))"
      using k(1) by (simp add: bitmap_bytes_def)
    then show "length (put_at (512 * ?k) ?buf (bitmap_bytes (zone_bitmap s) 0 (512 * ?Z))) = length (bitmap_bytes b 0 (512 * ?Z))"
      by (simp add: bitmap_bytes_def)
    fix j assume "j < length (put_at (512 * ?k) ?buf (bitmap_bytes (zone_bitmap s) 0 (512 * ?Z)))"
    then have j: "j < 512 * ?Z" using le by (simp add: bitmap_bytes_def)
    have "j div 512 = ?k \<longleftrightarrow> 512 * ?k \<le> j \<and> j < 512 * ?k + 512" for k by (auto simp: div_nat_eqI)
    then show "put_at (512 * ?k) ?buf (bitmap_bytes (zone_bitmap s) 0 (512 * ?Z)) ! j = bitmap_bytes b 0 (512 * ?Z) ! j"
      using same [of j] j by (subst nth_put_at [OF le]) (auto simp: bitmap_bytes_def)
  qed
  finally have sy': "zmap_synced ?s'"
    using sy b by (auto simp: zmap_synced_def set_value_bitmap_def ASSERT_bind Let_def split: if_splits)
  have ok: "disk_ok ?s'" using lb dl write_length [of "disk s" 1 ?buf] by (simp add: disk_ok_def)
  have "disk ?s' a = disk s a" if "?Z \<le> unat (a - ?L)" for a
  proof -
    have "a \<noteq> ?L + of_nat ?k"
    proof
      assume "a = ?L + of_nat ?k"
      then have "unat (a - ?L) = ?k" using k(2) by (simp add: unat_of_nat_32)
      then show False using that k(1) by simp
    qed
    then show ?thesis by simp
  qed
  then show ?thesis using f ok sy' by (intro exI [of _ ?s']) simp
qed

lemma beyond_area: "unat L + n \<le> unat a \<Longrightarrow> n \<le> unat (a - L :: u32)"
  by (subst unat_sub_word) simp_all

lemma inode_area_cong:
  assumes g: "geometry_ok (sb s)" and sb: "sb s' = sb s"
    and d: "\<And>a. unat (s_zmap_sz (sb s)) \<le> unat (a - s_zmap_lba (sb s)) \<Longrightarrow> disk s' a = disk s a"
  shows "inode_area s' = inode_area s"
proof -
  have "disk s' (s_inode_table_lba (sb s) + of_nat i) = disk s (s_inode_table_lba (sb s) + of_nat i)"
    if i: "i < unat (s_inode_table_sz (sb s))" for i
  proof (rule d, rule beyond_area)
    have "unat (s_inode_table_lba (sb s)) + i \<le> 163839"
      using g i unat_max_lba unfolding geometry_ok_def word_le_nat_alt by linarith
    then have "unat (s_inode_table_lba (sb s) + of_nat i) = unat (s_inode_table_lba (sb s)) + i"
      by (subst unat_add_less) (simp_all add: unat_of_nat_32)
    then show "unat (s_zmap_lba (sb s)) + unat (s_zmap_sz (sb s)) \<le> unat (s_inode_table_lba (sb s) + of_nat i)"
      using g by (simp add: geometry_ok_def)
  qed
  then show ?thesis unfolding inode_area_def sb by (rule read_sectors_cong)
qed

lemma zone_bitmap_alloc_ok:
  assumes "geometry_ok (sb s)" and "zmap_synced s" and "first_fit (zone_bitmap s) 1 = Some i"
  shows "\<exists>b. zone_bitmap_alloc s = Some (s_data_start_lba (sb s) + of_nat i, s\<lparr>zone_bitmap := b\<rparr>) \<and>
    set_value_bitmap (zone_bitmap s) (of_nat i) 1 = Some b \<and> unat (of_nat i :: u32) = i \<and> i < nbits (zone_bitmap s) \<and>
    (\<forall>j. is_set b j = (j = i \<or> is_set (zone_bitmap s) j)) \<and> \<not> is_set (zone_bitmap s) i"
proof -
  note z = zmap_size [OF assms(1,2)]
  have "free_run (zone_bitmap s) i 1" by (rule first_fit_SomeD [OF assms(3)])
  then have i: "i < nbits (zone_bitmap s)" "\<not> is_set (zone_bitmap s) i" by (simp_all add: free_run_def)
  have ui: "unat (of_nat i :: u32) = i" using i(1) z(2) by (simp add: wf_bitmap_def unat_of_nat_32)
  have f: "find_block_bitmap (zone_bitmap s) 1 = Some (of_nat i)"
    using find_block_bitmap_spec [OF z(2), of 1] assms(3) by (simp add: u32_of_index_def)
  have ne: "(of_nat i :: u32) \<noteq> -1"
    using ui i(1) z(2) unat_minus_one_32 by (auto simp: wf_bitmap_def word_eq_unat32 z(1))
  from set_value_bitmap_spec [OF z(2), of "of_nat i" 1] ui i(1) obtain b where
    "set_value_bitmap (zone_bitmap s) (of_nat i) 1 = Some b" "\<forall>j. is_set b j = (if j = i then True else is_set (zone_bitmap s) j)"
    by auto
  then show ?thesis using f ne i ui by (intro exI [of _ b]) (simp add: zone_bitmap_alloc_def)
qed

lemma recycle_zone_ok:
  assumes g: "geometry_ok (sb s)" and d: "disk_ok s" and sy: "zmap_synced s"
    and i: "0 < i" "i < nbits (zone_bitmap s)"
  shows "\<exists>s'. recycle_zone (s_data_start_lba (sb s) + of_nat i) s = Some (of_nat i, s') \<and> disk_ok s' \<and> zmap_synced s' \<and>
    sb s' = sb s \<and> inode_area s' = inode_area s \<and> (\<forall>j. is_set (zone_bitmap s') j = (j \<noteq> i \<and> is_set (zone_bitmap s) j))"
proof -
  note z = zmap_size [OF g sy]
  have ui: "unat (of_nat i :: u32) = i" using i(2) z(2) by (simp add: wf_bitmap_def unat_of_nat_32)
  then have pos: "(of_nat i :: u32) > 0" using i(1) by (simp add: word_less_nat_alt)
  have lt: "unat (of_nat i :: u32) < nbits (zone_bitmap s)" using ui i(2) by simp
  from set_value_bitmap_spec [OF z(2) lt, of 0] ui obtain b where
    b: "set_value_bitmap (zone_bitmap s) (of_nat i) 0 = Some b" "\<forall>j. is_set b j = (j \<noteq> i \<and> is_set (zone_bitmap s) j)"
    by auto
  from flush_zone_bitmap [OF g d sy lt b(1)] obtain s' where
    s': "flush_bitmap ZONE_BITMAP (of_nat i) (s\<lparr>zone_bitmap := b\<rparr>) = Some s'" "disk_ok s'" "zmap_synced s'"
    "\<forall>a. unat (s_zmap_sz (sb s)) \<le> unat (a - s_zmap_lba (sb s)) \<longrightarrow> disk s' a = disk s a"
    and e: "s' = s\<lparr>zone_bitmap := b, disk := disk s'\<rparr>" by blast
  have same: "sb s' = sb s" "zone_bitmap s' = b" by (subst e, simp)+
  have "inode_area s' = inode_area s" using s'(4) by (intro inode_area_cong [OF g same(1)]) blast
  moreover have "recycle_zone (s_data_start_lba (sb s) + of_nat i) s = Some (of_nat i, s')"
    using pos b(1) s'(1) by (simp add: recycle_zone_def ASSERT_bind)
  ultimately show ?thesis using s'(2,3) b(2) same by (intro exI [of _ s']) simp
qed

text \<open>C14. The zone bitmap on disk: allocating a zone takes the lowest free one, and after the flush
  of its bit the sectors of the bitmap on disk hold the bitmap in memory again, with this zone marked
  and no other changed, and the inode table is untouched. Recycling the zone restores the set of used
  zones, in memory and on disk.\<close>

theorem zone_alloc_recycle:
  assumes g: "geometry_ok (sb s)" and d: "disk_ok s" and sy: "zmap_synced s"
    and i: "first_fit (zone_bitmap s) 1 = Some i" "0 < i"
  shows "\<exists>z s1 s2 s3. zone_bitmap_alloc s = Some (z, s1) \<and> z = s_data_start_lba (sb s) + of_nat i \<and>
    \<not> is_set (zone_bitmap s) i \<and> flush_bitmap ZONE_BITMAP (z - s_data_start_lba (sb s)) s1 = Some s2 \<and>
    zmap_synced s2 \<and> (\<forall>j. is_set (zone_bitmap s2) j = (j = i \<or> is_set (zone_bitmap s) j)) \<and>
    inode_area s2 = inode_area s \<and> recycle_zone z s2 = Some (of_nat i, s3) \<and> zmap_synced s3 \<and>
    (\<forall>j. is_set (zone_bitmap s3) j = is_set (zone_bitmap s) j)"
proof -
  from zone_bitmap_alloc_ok [OF g sy i(1)] obtain b where
    b: "zone_bitmap_alloc s = Some (s_data_start_lba (sb s) + of_nat i, s\<lparr>zone_bitmap := b\<rparr>)"
    "set_value_bitmap (zone_bitmap s) (of_nat i) 1 = Some b" "unat (of_nat i :: u32) = i" "i < nbits (zone_bitmap s)"
    "\<forall>j. is_set b j = (j = i \<or> is_set (zone_bitmap s) j)" "\<not> is_set (zone_bitmap s) i" by blast
  have "unat (of_nat i :: u32) < nbits (zone_bitmap s)" using b(3,4) by simp
  from flush_zone_bitmap [OF g d sy this b(2)] obtain s2 where
    s2: "flush_bitmap ZONE_BITMAP (of_nat i) (s\<lparr>zone_bitmap := b\<rparr>) = Some s2" "disk_ok s2" "zmap_synced s2"
    "\<forall>a. unat (s_zmap_sz (sb s)) \<le> unat (a - s_zmap_lba (sb s)) \<longrightarrow> disk s2 a = disk s a"
    and e: "s2 = s\<lparr>zone_bitmap := b, disk := disk s2\<rparr>" by blast
  have same: "sb s2 = sb s" "zone_bitmap s2 = b" by (subst e, simp)+
  have "nbits b = nbits (zone_bitmap s)" by (rule set_value_bitmap_wf [OF b(2)])
  then obtain s3 where "recycle_zone (s_data_start_lba (sb s) + of_nat i) s2 = Some (of_nat i, s3)" "zmap_synced s3"
    "\<forall>j. is_set (zone_bitmap s3) j = (j \<noteq> i \<and> is_set b j)"
    using recycle_zone_ok [of s2 i] g s2(2,3) i(2) b(4) same by auto
  moreover have "inode_area s2 = inode_area s" using s2(4) by (intro inode_area_cong [OF g same(1)]) blast
  moreover have "s_data_start_lba (sb s) + of_nat i - s_data_start_lba (sb s) = of_nat i" by simp
  moreover have "\<forall>j. is_set (zone_bitmap s3) j = is_set (zone_bitmap s) j" using calculation(3) b(5,6) by blast
  ultimately show ?thesis using b(1,5,6) s2(1,3) unfolding same(2) [symmetric] by metis
qed

text \<open>The sample partition with the zone of the root directory in use.\<close>

definition sample_fs1 :: fsys where
  "sample_fs1 = sample_fs\<lparr>zone_bitmap := \<lparr>bits = (\<lambda>_. 0)(0 := 1), map_bytes_length = 512\<rparr>,
     disk := (\<lambda>_. replicate 512 0)(3 := 1 # replicate 511 0)\<rparr>"

lemma sample_fs1_ok:
  "geometry_ok (sb sample_fs1)" "disk_ok sample_fs1" "zmap_synced sample_fs1"
  "first_fit (zone_bitmap sample_fs1) 1 = Some 1"
proof -
  show "geometry_ok (sb sample_fs1)" "disk_ok sample_fs1"
    using sample_fs_ok by (auto simp: sample_fs1_def disk_ok_def)
  have "map (\<lambda>i. if i = 0 then 1 else 0) [0..<512] = (1 :: u8) # replicate 511 0"
    by (rule nth_equalityI) (simp_all add: nth_Cons')
  then show "zmap_synced sample_fs1"
    by (simp add: zmap_synced_def sample_fs1_def sample_fs_def sample_sb_def bitmap_bytes_def fun_upd_def)
  show "first_fit (zone_bitmap sample_fs1) 1 = Some 1"
  proof (rule first_fit_one)
    show "\<not> is_set (zone_bitmap sample_fs1) 1" "1 < nbits (zone_bitmap sample_fs1)"
      "\<forall>j < 1. is_set (zone_bitmap sample_fs1) j"
      by (simp_all add: is_set_def nbits_def sample_fs1_def bit_1_iff)
  qed
qed

theorem zone_alloc_recycle_witness:
  "\<exists>s1 s2. zone_bitmap_alloc sample_fs1 = Some (9, s1) \<and> flush_bitmap ZONE_BITMAP 1 s1 = Some s2 \<and> zmap_synced s2"
proof -
  have "s_data_start_lba (sb sample_fs1) = 8" by (simp add: sample_fs1_def sample_fs_def sample_sb_def)
  then show ?thesis using zone_alloc_recycle [OF sample_fs1_ok] by auto
qed

end
