(* ===== verification/File.thy ===== *)
theory File
  imports Inode Memory
begin

text \<open>
  Open files: \<^verbatim>\<open>core/fs/file.c\<close>. A file pointer is an index of \<open>g_file_table\<close>. The buffer of the
  caller is a list of bytes; reading returns the bytes that were copied. The lock of the table may
  block the caller: \<open>W\<close> is the run of the other threads, on the state of the kernel.

  Two places of the code read memory behind a buffer; its content is an argument: \<open>stack\<close> are the
  bytes at the local variable whose address \<open>rewrite_zone\<close> passes to the disk, \<open>behind\<close> the bytes
  behind the sector buffer of \<open>file_read\<close>.
\<close>

section \<open>File table\<close>

definition fd_local2global :: "u32 \<Rightarrow> fsys \<Rightarrow> u32 option" where
  "fd_local2global local_fd s = do {
     let cur = running_thread (ks s);
     let g_fd = fd_table (tcbs (ks s) cur) (unat local_fd);
     ASSERT (\<not> g_fd <s 0 \<and> g_fd <s 128);
     Some g_fd
   }"

definition get_file :: "u32 \<Rightarrow> fsys \<Rightarrow> nat option" where
  "get_file local_fd s = map_option unat (fd_local2global local_fd s)"

function occupy_loop :: "(nat \<Rightarrow> open_file) \<Rightarrow> nat \<Rightarrow> nat" where
  "occupy_loop t idx = (if idx < 128 then if fd_inode (t idx) = 0 then idx else occupy_loop t (Suc idx) else idx)"
  by pat_completeness auto
termination by (relation "measure (\<lambda>(t, idx). 128 - idx)") auto

declare occupy_loop.simps [simp del]

definition occupy_file_table_slot :: "fsys \<Rightarrow> u32" where
  "occupy_file_table_slot s = (let idx = occupy_loop (g_file_table s) 0 in if idx = 128 then -1 else of_nat idx)"

function free_fd_loop :: "(nat \<Rightarrow> u32) \<Rightarrow> nat \<Rightarrow> nat" where
  "free_fd_loop t idx = (if idx < 32 then if t idx = -1 then idx else free_fd_loop t (Suc idx) else idx)"
  by pat_completeness auto
termination by (relation "measure (\<lambda>(t, idx). 32 - idx)") auto

declare free_fd_loop.simps [simp del]

definition install_thread_fd :: "u32 \<Rightarrow> fsys \<Rightarrow> u32 \<times> fsys" where
  "install_thread_fd fd s =
     (let cur = running_thread (ks s); fd_idx = free_fd_loop (fd_table (tcbs (ks s) cur)) 3
      in if fd_idx = 32 then (-1, s)
         else (of_nat fd_idx, s\<lparr>ks := upd_tcb cur (\<lambda>t. t\<lparr>fd_table := (fd_table t)(fd_idx := fd)\<rparr>) (ks s)\<rparr>))"

definition upd_file :: "nat \<Rightarrow> (open_file \<Rightarrow> open_file) \<Rightarrow> fsys \<Rightarrow> fsys" where
  "upd_file f g s = s\<lparr>g_file_table := (g_file_table s)(f := g (g_file_table s f))\<rparr>"

definition with_ks :: "(kstate \<Rightarrow> kstate option) \<Rightarrow> fsys \<Rightarrow> fsys option" where
  "with_ks f s = map_option (\<lambda>k. s\<lparr>ks := k\<rparr>) (f (ks s))"

definition file_open :: "(kstate \<Rightarrow> kstate option) \<Rightarrow> u32 \<Rightarrow> u32 \<Rightarrow> fsys \<Rightarrow> (u32 \<times> fsys) option" where
  "file_open W inode_nr flags s = do {
     s \<leftarrow> with_ks (lock_fetch W (g_ft_lock s)) s;
     let gidx = occupy_file_table_slot s;
     if gidx = -1 then Some (-1, s)
     else do {
       (p, s) \<leftarrow> inode_open inode_nr s;
       let s = upd_file (unat gidx) (\<lambda>f. f\<lparr>fd_inode := p, fd_pos := 0, fd_flag := flags\<rparr>) s;
       s \<leftarrow> with_ks (lock_release (g_ft_lock s)) s;
       if flags AND 1 \<noteq> 0 \<or> flags AND 2 \<noteq> 0 then do {
         let (old_status, k) = intr_disable (ks s);
         let s = s\<lparr>ks := k\<rparr>;
         if i_lock (inodes s p) = 0 then do {
           let s = upd_inode p (\<lambda>i. i\<lparr>i_lock := 1\<rparr>) s;
           let s = s\<lparr>ks := intr_set_status old_status (ks s)\<rparr>;
           Some (install_thread_fd gidx s)
         } else Some (-1, s\<lparr>ks := intr_set_status old_status (ks s)\<rparr>)
       } else Some (install_thread_fd gidx s)
     }
   }"

definition file_close :: "nat \<Rightarrow> fsys \<Rightarrow> u32 \<times> fsys" where
  "file_close f s =
     (let p = fd_inode (g_file_table s f);
          s = upd_inode p (\<lambda>i. i\<lparr>i_lock := 0\<rparr>) s;
          s = inode_close p s
      in (0, upd_file f (\<lambda>e. e\<lparr>fd_inode := 0\<rparr>) s))"

section \<open>Writing\<close>

text \<open>The state of the loop: the cursor in the buffer of the caller and the bytes written; the flag
  says whether an error ends the call.\<close>

definition advance :: "nat \<Rightarrow> u32 \<Rightarrow> nat \<times> u32 \<Rightarrow> fsys \<Rightarrow> (nat \<times> u32) \<times> fsys" where
  "advance f n c s = ((fst c + unat n, snd c + n), upd_file f (\<lambda>e. e\<lparr>fd_pos := fd_pos e + n\<rparr>) s)"

definition rewrite_zone ::
    "u8 list \<Rightarrow> nat \<Rightarrow> u32 \<Rightarrow> u32 \<Rightarrow> bool \<Rightarrow> u8 list \<Rightarrow> nat \<times> u32 \<Rightarrow> fsys \<Rightarrow> (bool \<times> (nat \<times> u32) \<times> fsys) option" where
  "rewrite_zone stack f chunk_rest zone_lba is_last_turn buf c s =
     (if chunk_rest > 0 \<and> is_last_turn then do {
        let (rd_io_buf, s) = fs_malloc s;
        if rd_io_buf = 0 then Some (False, c, s)
        else do {
          d \<leftarrow> ide_read zone_lba 1 s;
          s \<leftarrow> ide_write zone_lba (put_at 0 (get_at (fst c) (unat chunk_rest) buf) d) 1 s;
          Some (True, advance f chunk_rest c s)
        }
      } else do {
        s \<leftarrow> ide_write zone_lba stack 1 s;
        Some (True, advance f 512 c s)
      })"

definition write_zone ::
    "nat \<Rightarrow> u32 \<Rightarrow> u32 \<Rightarrow> bool \<Rightarrow> u8 list \<Rightarrow> nat \<times> u32 \<Rightarrow> fsys \<Rightarrow> (bool \<times> (nat \<times> u32) \<times> fsys) option" where
  "write_zone f chunk_rest zone_lba is_last_turn buf c s =
     (if chunk_rest > 0 \<and> is_last_turn then do {
        let (tmp, s) = fs_malloc s;
        if tmp = 0 then Some (False, c, s)
        else do {
          s \<leftarrow> ide_write zone_lba (put_at 0 (get_at (fst c) (unat chunk_rest) buf) (replicate 512 0)) 1 s;
          Some (True, advance f chunk_rest c s)
        }
      } else do {
        s \<leftarrow> ide_write zone_lba (get_at (fst c) 512 buf) 1 s;
        Some (True, advance f 512 c s)
      })"

text \<open>Allocate a zone and put it into the inode: the result is the zone, or \<open>None\<close> inside for -1.\<close>

definition new_zone :: "fsys \<Rightarrow> (u32 option \<times> fsys) option" where
  "new_zone s = do {
     (zone_lba, s) \<leftarrow> zone_bitmap_alloc s;
     if zone_lba = -1 then Some (None, s)
     else do {
       s \<leftarrow> flush_bitmap ZONE_BITMAP (zone_lba - s_data_start_lba (sb s)) s;
       Some (Some zone_lba, s)
     }
   }"

definition set_zone :: "addr \<Rightarrow> nat \<Rightarrow> u32 \<Rightarrow> fsys \<Rightarrow> fsys" where
  "set_zone p k z s = upd_inode p (\<lambda>i. i\<lparr>i_zones := (i_zones i)[k := z]\<rparr>) s"

definition add_zone :: "addr \<Rightarrow> nat \<Rightarrow> fsys \<Rightarrow> (u32 option \<times> fsys) option" where
  "add_zone p k s = do {
     (z, s) \<leftarrow> new_zone s;
     case z of None \<Rightarrow> Some (None, s)
     | Some zone_lba \<Rightarrow>
         if k < 12 then Some (Some zone_lba, set_zone p k zone_lba s)
         else do {
           (z, s) \<leftarrow> (if k = 12 then new_zone (set_zone p 12 zone_lba s) else Some (Some zone_lba, s));
           case z of None \<Rightarrow> Some (None, s)
           | Some zone_lba \<Rightarrow> do {
               let (table, s) = fs_malloc s;
               if table = 0 then Some (None, s)
               else do {
                 t \<leftarrow> ide_read (i_zones (inodes s p) ! 12) 1 s;
                 s \<leftarrow> ide_write (i_zones (inodes s p) ! 12) (put_at (4 * (k - 12)) (le_bytes 4 zone_lba) t) 1 s;
                 Some (Some zone_lba, s)
               }
             }
         }
   }"

text \<open>The loop over the chunks: \<open>n\<close> turns are left, \<open>k\<close> is \<open>zone_idx + i\<close>. An index of 140 or more
  is outside the array.\<close>

primrec write_chunks ::
    "nat \<Rightarrow> u8 list \<Rightarrow> nat \<Rightarrow> addr \<Rightarrow> u32 \<Rightarrow> u32 list \<Rightarrow> nat \<Rightarrow> u8 list \<Rightarrow> u32 \<Rightarrow> nat \<times> u32 \<Rightarrow> fsys \<Rightarrow>
     (bool \<times> (nat \<times> u32) \<times> fsys) option" where
  "write_chunks 0 stack f p chunk_rest all_zones k buf count c s = Some (True, c, s)"
| "write_chunks (Suc n) stack f p chunk_rest all_zones k buf count c s =
     (if 140 \<le> k then None
      else do {
        (ok, c, s) \<leftarrow>
          (if all_zones ! k = 0 then do {
             (z, s) \<leftarrow> add_zone p k s;
             case z of None \<Rightarrow> Some (False, c, s)
             | Some zone_lba \<Rightarrow> do {
                 ASSERT (fst c \<le> unat count);
                 write_zone f chunk_rest zone_lba (n = 0) buf c s
               }
           } else do {
             ASSERT (fst c \<le> unat count);
             rewrite_zone stack f chunk_rest (all_zones ! k) (n = 0) buf c s
           });
        if ok then write_chunks n stack f p chunk_rest all_zones (Suc k) buf count c s else Some (False, c, s)
      })"

text \<open>Filling the last zone: the part of the buffer that fits into it.\<close>

definition fill_zone :: "nat \<Rightarrow> u32 \<Rightarrow> nat \<Rightarrow> u32 \<Rightarrow> u8 list \<Rightarrow> fsys \<Rightarrow> ((nat \<times> u32) \<times> fsys) option" where
  "fill_zone f zone_lba rest_sz need_filled_sz buf s = do {
     d \<leftarrow> ide_read zone_lba 1 s;
     s \<leftarrow> ide_write zone_lba (put_at rest_sz (get_at 0 (unat need_filled_sz) buf) d) 1 s;
     Some (advance f need_filled_sz (0, 0) s)
   }"

definition write_zones_of :: "inode \<Rightarrow> fsys \<Rightarrow> (u32 list \<times> fsys) option" where
  "write_zones_of i s = do {
     let s' = (if i_zones i ! 12 \<noteq> 0 then snd (fs_malloc s) else s);
     if i_zones i ! 12 \<noteq> 0 \<and> fst (fs_malloc s) = 0 then None
     else do { z \<leftarrow> inode_all_zones i s'; Some (z, s') }
   }"

text \<open>Where writing starts: the index of the next zone and the bytes used in the zone before it.\<close>

definition write_start :: "u32 \<Rightarrow> u32 \<Rightarrow> u32 list \<Rightarrow> (nat \<times> u32) option" where
  "write_start pos sz all_zones = do {
     let zone_idx = unat (DIV_ROUND_UP pos 512);
     if pos = sz then
       if 140 \<le> zone_idx then None
       else if all_zones ! zone_idx = 0
       then Some (length (takeWhile (\<lambda>z. z \<noteq> 0) all_zones), sz mod 512)
       else Some (zone_idx, pos mod 512)
     else Some (zone_idx, pos mod 512)
   }"

text \<open>The plan of a write: the number of turns and the bytes for the last zone.\<close>

definition write_plan :: "u32 \<Rightarrow> u32 \<Rightarrow> u32 \<times> u32" where
  "write_plan rest_sz count =
     (if rest_sz = 0 then (DIV_ROUND_UP count 512, 0)
      else if count \<le> 512 - rest_sz then (0, count)
      else (DIV_ROUND_UP (count - (512 - rest_sz)) 512, 512 - rest_sz))"

definition file_write :: "u8 list \<Rightarrow> nat \<Rightarrow> u8 list \<Rightarrow> u32 \<Rightarrow> fsys \<Rightarrow> (u32 \<times> fsys) option" where
  "file_write stack f buf write_len s = do {
     let pos = fd_pos (g_file_table s f);
     if \<not> (pos < 512 * 140 + 1) then Some (-1, s)
     else do {
       let count = (if pos + write_len > 512 * 140 then 512 * 140 - pos else write_len);
       let (io_buf, s) = fs_malloc s;
       if io_buf = 0 then Some (-1, s)
       else do {
         let p = fd_inode (g_file_table s f);
         (all_zones, s) \<leftarrow> write_zones_of (inodes s p) s;
         (zone_idx, rest_sz) \<leftarrow> write_start pos (i_size (inodes s p)) all_zones;
         let (chunk_cnt, need_filled_sz) = write_plan rest_sz count;
         let chunk_rest = (count - need_filled_sz) mod 512;
         (c, s) \<leftarrow> (if rest_sz \<noteq> 0 then
              if zone_idx = 0 then None
              else fill_zone f (all_zones ! (zone_idx - 1)) (unat rest_sz) need_filled_sz buf s
            else Some ((0, 0), s));
         (ok, c, s) \<leftarrow> write_chunks (unat chunk_cnt) stack f p chunk_rest all_zones zone_idx buf count c s;
         if \<not> ok then Some (-1, s)
         else do {
           let s = upd_inode p (\<lambda>i. i\<lparr>i_size := max (fd_pos (g_file_table s f)) (i_size i)\<rparr>) s;
           s \<leftarrow> flush_inode (inodes s p) s;
           Some (snd c, s)
         }
       }
     }
   }"

section \<open>Reading\<close>

text \<open>The loop over the zones: \<open>n\<close> turns are left, \<open>k\<close> is the index of the zone. The first turn copies
  the rest of its zone when the position is inside a zone.\<close>

primrec read_chunks ::
    "nat \<Rightarrow> nat \<Rightarrow> u32 list \<Rightarrow> nat \<Rightarrow> u32 \<Rightarrow> u32 \<Rightarrow> u8 list \<Rightarrow> fsys \<Rightarrow> (u8 list \<times> fsys) option" where
  "read_chunks 0 f all_zones k rd_zone_offset rd_count_offset out s = Some (out, s)"
| "read_chunks (Suc n) f all_zones k rd_zone_offset rd_count_offset out s =
     (if 140 \<le> k then None
      else do {
        io_buf \<leftarrow> ide_read (all_zones ! k) 1 s;
        if rd_zone_offset > 0 then do {
          let first_len = 512 - rd_zone_offset;
          let s = upd_file f (\<lambda>e. e\<lparr>fd_pos := fd_pos e + first_len\<rparr>) s;
          read_chunks n f all_zones (Suc k) 0 rd_count_offset (out @ drop (unat rd_zone_offset) io_buf) s
        } else do {
          let len = (if n = 0 \<and> rd_count_offset \<noteq> 0 then rd_count_offset else 512);
          let s = upd_file f (\<lambda>e. e\<lparr>fd_pos := fd_pos e + len\<rparr>) s;
          read_chunks n f all_zones (Suc k) 0 rd_count_offset (out @ take (unat len) io_buf) s
        }
      })"

definition file_read :: "u8 list \<Rightarrow> nat \<Rightarrow> u32 \<Rightarrow> fsys \<Rightarrow> (u32 \<times> u8 list \<times> fsys) option" where
  "file_read behind f count s = do {
     let (io_buf, s) = fs_malloc s;
     if io_buf = 0 then Some (-1, [], s)
     else do {
       let pos = fd_pos (g_file_table s f);
       let i = inodes s (fd_inode (g_file_table s f));
       ASSERT (pos \<le> i_size i + 1);
       if pos \<ge> i_size i + 1 then Some (-1, [], s)
       else do {
         let rd_len = min (i_size i - pos) count;
         all_zones \<leftarrow> inode_all_zones i s;
         let rd_zone_idx = pos div 512;
         if rd_zone_idx \<ge> 140 then Some (-1, [], s)
         else do {
           let rd_zone_offset = pos mod 512;
           if rd_len < 512 then do {
             d \<leftarrow> ide_read (all_zones ! unat rd_zone_idx) 1 s;
             let s = upd_file f (\<lambda>e. e\<lparr>fd_pos := fd_pos e + rd_len\<rparr>) s;
             Some (rd_len, get_at (unat rd_zone_offset) (unat rd_len) (d @ behind), s)
           } else do {
             (out, s) \<leftarrow> read_chunks (unat (DIV_ROUND_UP rd_len 512)) f all_zones (unat rd_zone_idx)
               rd_zone_offset (rd_len mod 512) [] s;
             Some (rd_len, out, s)
           }
         }
       }
     }
   }"

section \<open>Well-formed file systems\<close>

text \<open>Zone \<open>k\<close> is the sector \<open>s_data_start_lba + k\<close>; zone 0 belongs to the root directory. The bits of
  zones behind the end of the disk are set.\<close>

definition free_zones :: "fsys \<Rightarrow> nat set" where
  "free_zones s = {k. k < nbits (zone_bitmap s) \<and> \<not> is_set (zone_bitmap s) k}"

definition zone_of :: "fsys \<Rightarrow> nat \<Rightarrow> u32" where
  "zone_of s k = s_data_start_lba (sb s) + of_nat k"

definition fs_ok :: "fsys \<Rightarrow> bool" where
  "fs_ok s \<longleftrightarrow> geometry_ok (sb s) \<and> disk_ok s \<and> zmap_synced s \<and> is_set (zone_bitmap s) 0 \<and>
     (\<forall>k \<in> free_zones s. unat (s_data_start_lba (sb s)) + k \<le> 163839)"

definition zone_used :: "fsys \<Rightarrow> u32 \<Rightarrow> bool" where
  "zone_used s z \<longleftrightarrow> (\<exists>k. z = zone_of s k \<and> 0 < k \<and> k < nbits (zone_bitmap s) \<and> is_set (zone_bitmap s) k \<and>
     unat (s_data_start_lba (sb s)) + k \<le> 163839)"

lemma fs_okD:
  assumes "fs_ok s"
  shows "geometry_ok (sb s)" "disk_ok s" "zmap_synced s" "\<And>a. length (disk s a) = 512"
  using assms by (simp_all add: fs_ok_def disk_ok_def)

lemma fs_ok_cong:
  assumes "sb s' = sb s" "disk s' = disk s" "zone_bitmap s' = zone_bitmap s"
  shows "fs_ok s' = fs_ok s" "zone_used s' z = zone_used s z" "inode_area s' = inode_area s"
    "free_zones s' = free_zones s" "zone_of s' = zone_of s"
  using assms by (simp_all add: fs_ok_def zone_used_def zone_of_def [abs_def] free_zones_def disk_ok_def zmap_synced_def inode_area_def)

lemma unat_zone_of: "unat (s_data_start_lba (sb s)) + k \<le> 163839 \<Longrightarrow> unat (zone_of s k) = unat (s_data_start_lba (sb s)) + k"
  unfolding zone_of_def by (subst unat_add_less) (simp_all add: unat_of_nat_32)

lemma zone_used_lba:
  assumes "zone_used s z"
  shows "unat (s_data_start_lba (sb s)) < unat z" "z \<le> max_lba" "z \<noteq> 0" "z \<noteq> -1"
proof -
  from assms obtain k where k: "z = zone_of s k" "0 < k" "unat (s_data_start_lba (sb s)) + k \<le> 163839"
    by (auto simp: zone_used_def)
  then have u: "unat z = unat (s_data_start_lba (sb s)) + k" by (simp add: unat_zone_of)
  show "unat (s_data_start_lba (sb s)) < unat z" using u k(2) by simp
  show "z \<le> max_lba" using u k(3) by (simp add: word_le_nat_alt unat_max_lba)
  show "z \<noteq> 0" "z \<noteq> -1" using u k(2,3) unat_minus_one_32 by auto
qed

text \<open>Writing a data sector.\<close>

lemma outside_zmap:
  assumes "geometry_ok (sb s)" "unat (s_data_start_lba (sb s)) \<le> unat a"
  shows "unat (s_zmap_sz (sb s)) \<le> unat (a - s_zmap_lba (sb s))"
    and "unat (s_inode_table_sz (sb s)) \<le> unat (a - s_inode_table_lba (sb s))"
  using assms by (auto intro!: beyond_area simp: geometry_ok_def)

lemma area_data_write:
  assumes "n \<le> unat (z - lba)"
  shows "read_sectors n lba (d(z := buf)) = read_sectors n lba d"
proof (rule read_sectors_cong)
  fix i assume "i < n"
  have "unat (of_nat i :: u32) \<le> i" by (simp add: unat_of_nat take_bit_nat_less_eq_self)
  then have "lba + of_nat i \<noteq> z" using \<open>i < n\<close> assms by auto
  then show "(d(z := buf)) (lba + of_nat i) = d (lba + of_nat i)" by simp
qed

lemma data_write:
  assumes ok: "fs_ok s" and z: "unat (s_data_start_lba (sb s)) \<le> unat z" and l: "length buf = 512"
  shows "fs_ok (s\<lparr>disk := (disk s)(z := buf)\<rparr>)" "inode_area (s\<lparr>disk := (disk s)(z := buf)\<rparr>) = inode_area s"
proof -
  note o = outside_zmap [OF fs_okD(1) [OF ok] z]
  show "fs_ok (s\<lparr>disk := (disk s)(z := buf)\<rparr>)"
    using ok l by (simp add: fs_ok_def disk_ok_def zmap_synced_def area_data_write [OF o(1)] free_zones_def)
  show "inode_area (s\<lparr>disk := (disk s)(z := buf)\<rparr>) = inode_area s"
    by (simp add: inode_area_def area_data_write [OF o(2)])
qed

text \<open>Allocating a zone.\<close>

lemma first_fit_free:
  assumes "free_zones s \<noteq> {}"
  shows "\<exists>i \<in> free_zones s. first_fit (zone_bitmap s) 1 = Some i"
proof -
  define i where "i = (LEAST k. k \<in> free_zones s)"
  have i: "i \<in> free_zones s" "\<And>j. j \<in> free_zones s \<Longrightarrow> i \<le> j"
    using assms by (auto simp: i_def intro: LeastI Least_le)
  have "first_fit (zone_bitmap s) 1 = Some i"
  proof (rule first_fit_eq_Some)
    show "free_run (zone_bitmap s) i 1" using i(1) by (simp add: free_run_def free_zones_def)
    show "i \<le> j" if "free_run (zone_bitmap s) j 1" for j
      using that by (intro i(2)) (simp add: free_run_def free_zones_def)
  qed
  with i(1) show ?thesis by blast
qed

lemma new_zone_ok:
  assumes ok: "fs_ok s" and f: "free_zones s \<noteq> {}"
  shows "\<exists>i s'. i \<in> free_zones s \<and> new_zone s = Some (Some (zone_of s i), s') \<and> fs_ok s' \<and>
    free_zones s' = free_zones s - {i} \<and> s' = s\<lparr>zone_bitmap := zone_bitmap s', disk := disk s'\<rparr> \<and>
    inode_area s' = inode_area s \<and> zone_used s' (zone_of s i) \<and> \<not> zone_used s (zone_of s i) \<and>
    (\<forall>z. zone_used s z \<longrightarrow> zone_used s' z) \<and>
    (\<forall>a. unat (s_data_start_lba (sb s)) \<le> unat a \<longrightarrow> disk s' a = disk s a)"
proof -
  note g = fs_okD [OF ok]
  from first_fit_free [OF f] obtain i where i: "i \<in> free_zones s" "first_fit (zone_bitmap s) 1 = Some i" by blast
  from zone_bitmap_alloc_ok [OF g(1,3) i(2)] obtain b where
    b: "zone_bitmap_alloc s = Some (zone_of s i, s\<lparr>zone_bitmap := b\<rparr>)"
    "set_value_bitmap (zone_bitmap s) (of_nat i) 1 = Some b" "unat (of_nat i :: u32) = i" "i < nbits (zone_bitmap s)"
    "\<forall>j. is_set b j = (j = i \<or> is_set (zone_bitmap s) j)" "\<not> is_set (zone_bitmap s) i" by (auto simp: zone_of_def)
  have "unat (of_nat i :: u32) < nbits (zone_bitmap s)" using b(3,4) by simp
  from flush_zone_bitmap [OF g(1-3) this b(2)] obtain s' where
    s': "flush_bitmap ZONE_BITMAP (of_nat i) (s\<lparr>zone_bitmap := b\<rparr>) = Some s'" "disk_ok s'" "zmap_synced s'"
    "\<forall>a. unat (s_zmap_sz (sb s)) \<le> unat (a - s_zmap_lba (sb s)) \<longrightarrow> disk s' a = disk s a"
    and e: "s' = s\<lparr>zone_bitmap := b, disk := disk s'\<rparr>" by blast
  have same: "sb s' = sb s" "zone_bitmap s' = b" by (subst e, simp)+
  have nb: "nbits b = nbits (zone_bitmap s)" by (rule set_value_bitmap_wf [OF b(2)])
  have lim: "unat (s_data_start_lba (sb s)) + i \<le> 163839" using ok i(1) by (simp add: fs_ok_def)
  have i0: "0 < i" using ok b(6) by (cases i) (simp_all add: fs_ok_def)
  have fz: "free_zones s' = free_zones s - {i}" using b(5) by (auto simp: free_zones_def same nb)
  have "fs_ok s'" using ok s'(2,3) b(5) fz by (auto simp: fs_ok_def same)
  moreover have "zone_used s' (zone_of s i)"
    using i0 b(4,5) lim by (auto simp: zone_used_def same nb zone_of_def)
  moreover have "\<not> zone_used s (zone_of s i)"
  proof
    assume "zone_used s (zone_of s i)"
    then obtain k where k: "zone_of s i = zone_of s k" "is_set (zone_bitmap s) k" "unat (s_data_start_lba (sb s)) + k \<le> 163839"
      by (auto simp: zone_used_def)
    then have "unat (zone_of s i) = unat (zone_of s k)" by simp
    then have "i = k" using unat_zone_of [OF lim] unat_zone_of [OF k(3)] by simp
    then show False using k(2) b(6) by simp
  qed
  moreover have "zone_used s' z" if "zone_used s z" for z
    using that b(5) by (auto simp: zone_used_def same nb zone_of_def)
  moreover have "inode_area s' = inode_area s" using s'(4) by (intro inode_area_cong [OF g(1) same(1)]) blast
  moreover have "disk s' a = disk s a" if "unat (s_data_start_lba (sb s)) \<le> unat a" for a
    using s'(4) outside_zmap(1) [OF g(1) that] by blast
  moreover have "new_zone s = Some (Some (zone_of s i), s')"
  proof -
    have "zone_of s i \<noteq> -1" using unat_zone_of [OF lim] lim unat_minus_one_32 by auto
    then show ?thesis using b(1) s'(1) by (simp add: new_zone_def zone_of_def)
  qed
  moreover have "s' = s\<lparr>zone_bitmap := zone_bitmap s', disk := disk s'\<rparr>" using e same(2) by simp
  ultimately show ?thesis using i(1) fz by blast
qed

section \<open>Files with direct zones\<close>

definition file_zones :: "fsys \<Rightarrow> inode \<Rightarrow> u32 list \<Rightarrow> bool" where
  "file_zones s i zs \<longleftrightarrow> i_zones i = zs @ replicate (13 - length zs) 0 \<and> length zs \<le> 12 \<and> distinct zs \<and>
     (\<forall>z \<in> set zs. zone_used s z)"

definition sectors :: "fsys \<Rightarrow> u32 list \<Rightarrow> u8 list" where
  "sectors s zs = concat (map (disk s) zs)"

text \<open>What writing a file may change: its zones, its position, free zones. The sectors of all zones in
  use that are not among \<open>Z\<close> are kept.\<close>

definition file_frame :: "nat \<Rightarrow> addr \<Rightarrow> u32 set \<Rightarrow> fsys \<Rightarrow> fsys \<Rightarrow> bool" where
  "file_frame f p Z s s' \<longleftrightarrow> sb s' = sb s \<and> ks s' = ks s \<and> open_inodes s' = open_inodes s \<and>
     part_start_lba s' = part_start_lba s \<and> part_sec_cnt s' = part_sec_cnt s \<and> inode_bitmap s' = inode_bitmap s \<and>
     root_dir s' = root_dir s \<and> dirs s' = dirs s \<and> g_ft_lock s' = g_ft_lock s \<and>
     inodes s' = (inodes s)(p := (inodes s p)\<lparr>i_zones := i_zones (inodes s' p)\<rparr>) \<and>
     g_file_table s' = (g_file_table s)(f := (g_file_table s f)\<lparr>fd_pos := fd_pos (g_file_table s' f)\<rparr>) \<and>
     inode_area s' = inode_area s \<and> (\<forall>z. zone_used s z \<longrightarrow> zone_used s' z) \<and>
     (\<forall>z. zone_used s z \<and> z \<notin> Z \<longrightarrow> disk s' z = disk s z)"

lemma file_frame_refl: "file_frame f p Z s s"
  by (simp add: file_frame_def)

lemma file_frame_trans:
  assumes a: "file_frame f p Z s s1" and b: "file_frame f p Z s1 s2"
  shows "file_frame f p Z s s2"
proof -
  have "inodes s2 = (inodes s)(p := (inodes s p)\<lparr>i_zones := i_zones (inodes s2 p)\<rparr>)"
  proof -
    have "inodes s1 p = (inodes s p)\<lparr>i_zones := i_zones (inodes s1 p)\<rparr>"
      using a unfolding file_frame_def by (metis fun_upd_same)
    then have "(inodes s1 p)\<lparr>i_zones := w\<rparr> = (inodes s p)\<lparr>i_zones := w\<rparr>" for w
      by (metis (no_types) inode.update_convs(9) inode.surjective inode.select_convs(9))
    moreover have "inodes s2 = (inodes s1)(p := (inodes s1 p)\<lparr>i_zones := i_zones (inodes s2 p)\<rparr>)"
      using b unfolding file_frame_def by blast
    moreover have "inodes s1 = (inodes s)(p := inodes s1 p)" using a unfolding file_frame_def by (metis fun_upd_same)
    ultimately show ?thesis by (metis fun_upd_upd)
  qed
  moreover have "g_file_table s2 = (g_file_table s)(f := (g_file_table s f)\<lparr>fd_pos := fd_pos (g_file_table s2 f)\<rparr>)"
  proof -
    have "g_file_table s1 f = (g_file_table s f)\<lparr>fd_pos := fd_pos (g_file_table s1 f)\<rparr>"
      using a unfolding file_frame_def by (metis fun_upd_same)
    then have "(g_file_table s1 f)\<lparr>fd_pos := w\<rparr> = (g_file_table s f)\<lparr>fd_pos := w\<rparr>" for w
      by (metis (no_types) open_file.update_convs(1) open_file.surjective open_file.select_convs(1))
    moreover have "g_file_table s2 = (g_file_table s1)(f := (g_file_table s1 f)\<lparr>fd_pos := fd_pos (g_file_table s2 f)\<rparr>)"
      using b unfolding file_frame_def by blast
    moreover have "g_file_table s1 = (g_file_table s)(f := g_file_table s1 f)"
      using a unfolding file_frame_def by (metis fun_upd_same)
    ultimately show ?thesis by (metis fun_upd_upd)
  qed
  ultimately show ?thesis using a b unfolding file_frame_def by auto
qed

end
