(* ===== verification/Dir.thy ===== *)
theory Dir
  imports File
begin

text \<open>
  Directories: \<^verbatim>\<open>core/fs/dir.c\<close>, and \<open>file_create\<close> of \<^verbatim>\<open>core/fs/file.c\<close>. A directory is a file whose
  zones hold entries of 24 bytes, 21 in a sector. Names are lists of bytes without a zero; comparing
  strings is equality of the lists (\<open>strcmp_sign\<close> of \<open>Strings\<close>), comparing the first \<open>n\<close> bytes is
  equality of the prefixes. Zones with number 0 are read like any other: sector 0 of the disk.
\<close>

section \<open>Opening and closing\<close>

definition upd_dir :: "addr \<Rightarrow> (dir_stream \<Rightarrow> dir_stream) \<Rightarrow> fsys \<Rightarrow> fsys" where
  "upd_dir d f s = s\<lparr>dirs := (dirs s)(d := f (dirs s d))\<rparr>"

definition open_root_dir :: "fsys \<Rightarrow> fsys option" where
  "open_root_dir s = do {
     (p, s) \<leftarrow> inode_open 0 s;
     Some (upd_dir (root_dir s) (\<lambda>d. d\<lparr>dir_inode := p, dir_pos := 0, dir_buf := replicate 512 0\<rparr>) s)
   }"

definition dir_open :: "u32 \<Rightarrow> fsys \<Rightarrow> (addr \<times> fsys) option" where
  "dir_open inode_nr s = do {
     let (d, s) = fs_malloc s;
     if d = 0 then None
     else do {
       (p, s) \<leftarrow> inode_open inode_nr s;
       Some (d, upd_dir d (\<lambda>_. \<lparr>dir_inode = p, dir_pos = 0, dir_buf = replicate 512 0\<rparr>) s)
     }
   }"

definition dir_close :: "addr \<Rightarrow> fsys \<Rightarrow> fsys" where
  "dir_close d s = (if d \<noteq> root_dir s then inode_close (dir_inode (dirs s d)) s else s)"

section \<open>Searching\<close>

definition entries :: "u8 list \<Rightarrow> dir_entry list" where
  "entries buf = map (entry_at buf) [0..<21]"

text \<open>The entries of one sector; an entry without a name ends the search in this sector.\<close>

fun search_entries :: "u8 list \<Rightarrow> dir_entry list \<Rightarrow> dir_entry option" where
  "search_entries name [] = None"
| "search_entries name (e # es) =
     (if take (length name) (entry_name e) = name then Some e
      else if entry_name e = [] then None else search_entries name es)"

primrec search_zones :: "u8 list \<Rightarrow> u32 list \<Rightarrow> fsys \<Rightarrow> dir_entry option option" where
  "search_zones name [] s = Some None"
| "search_zones name (z # zs) s = do {
     buf \<leftarrow> ide_read z 1 s;
     case search_entries name (entries buf) of Some e \<Rightarrow> Some (Some e) | None \<Rightarrow> search_zones name zs s
   }"

text \<open>The index of the zone is at most 12 behind the first loop, so the indirect table is never read.
  The result is the entry found.\<close>

definition search_dir_entry :: "u8 list \<Rightarrow> addr \<Rightarrow> fsys \<Rightarrow> (dir_entry option \<times> fsys) option" where
  "search_dir_entry name d s = do {
     let (all_zones, s) = fs_malloc s;
     if all_zones = 0 then PANIC
     else do {
       let direct = takeWhile (\<lambda>z. z \<noteq> 0) (take 12 (i_zones (inodes s (dir_inode (dirs s d)))));
       let (buf, s) = fs_malloc s;
       if buf = 0 then None
       else do {
         r \<leftarrow> search_zones name (direct @ replicate (140 - length direct) 0) s;
         Some (r, s)
       }
     }
   }"

section \<open>New entries\<close>

definition new_dir_entry :: "u8 list \<Rightarrow> u32 \<Rightarrow> u32 \<Rightarrow> dir_entry option" where
  "new_dir_entry name inode_nr file_type = do {
     ASSERT (length name < 16);
     Some \<lparr>filename = name @ replicate (16 - length name) 0, i_no = inode_nr, f_type = file_type\<rparr>
   }"

definition table_zones :: "inode \<Rightarrow> fsys \<Rightarrow> u32 list option" where
  "table_zones i s = do {
     table \<leftarrow> (if i_zones i ! 12 \<noteq> 0 then do { b \<leftarrow> ide_read (i_zones i ! 12) 1 s; Some (words_at 0 128 b) }
               else Some (replicate 128 0));
     Some (take 12 (i_zones i) @ table)
   }"

fun free_slot :: "nat \<Rightarrow> dir_entry list \<Rightarrow> nat option" where
  "free_slot j [] = None"
| "free_slot j (e # es) = (if entry_name e = [] \<and> f_type e = FT_UNKOWN then Some j else free_slot (Suc j) es)"

definition grow_dir :: "addr \<Rightarrow> fsys \<Rightarrow> fsys" where
  "grow_dir p s = upd_inode p (\<lambda>i. i\<lparr>i_size := i_size i + 24\<rparr>) s"

text \<open>The branch for the indirect table is taken when the sector number of the new zone is 12. No free
  zone is a failed assertion.\<close>

definition new_table :: "nat \<Rightarrow> u32 \<Rightarrow> u32 list \<Rightarrow> addr \<Rightarrow> dir_entry \<Rightarrow> fsys \<Rightarrow> fsys option" where
  "new_table k zone_lba all_zones p e s = do {
     let s = set_zone p 12 zone_lba s;
     (zone_lba, s) \<leftarrow> zone_bitmap_alloc s;
     ASSERT (zone_lba \<noteq> -1);
     s \<leftarrow> flush_bitmap ZONE_BITMAP (i_zones (inodes s p) ! 12 - s_data_start_lba (sb s)) s;
     let all_zones = all_zones[12 := zone_lba];
     s \<leftarrow> ide_write (i_zones (inodes s p) ! 12) (concat (map (le_bytes 4) (drop 12 all_zones))) 1 s;
     s \<leftarrow> ide_write (all_zones ! k) (put_at 0 (entry_bytes e) (replicate 512 0)) 1 s;
     Some (grow_dir p s)
   }"

text \<open>The loop over the zones: \<open>n\<close> turns are left. A zone that is allocated here is not used for the
  entry.\<close>

primrec flush_zones :: "nat \<Rightarrow> nat \<Rightarrow> u32 list \<Rightarrow> addr \<Rightarrow> dir_entry \<Rightarrow> fsys \<Rightarrow> (u32 \<times> fsys) option" where
  "flush_zones 0 k all_zones p e s = Some (-1, s)"
| "flush_zones (Suc n) k all_zones p e s =
     (if all_zones ! k = 0 then do {
        (z, s) \<leftarrow> new_zone s;
        case z of None \<Rightarrow> None
        | Some zone_lba \<Rightarrow>
            if k < 12 then flush_zones n (Suc k) (all_zones[k := zone_lba]) p e (set_zone p k zone_lba s)
            else if zone_lba = 12 then do { s \<leftarrow> new_table k zone_lba all_zones p e s; Some (0, s) }
            else flush_zones n (Suc k) all_zones p e s
      } else do {
        buf \<leftarrow> ide_read (all_zones ! k) 1 s;
        case free_slot 0 (entries buf) of
          Some j \<Rightarrow> do {
            s \<leftarrow> ide_write (all_zones ! k) (put_at (24 * j) (entry_bytes e) buf) 1 s;
            Some (0, grow_dir p s)
          }
        | None \<Rightarrow> flush_zones n (Suc k) all_zones p e s
      })"

definition flush_dir_entry :: "addr \<Rightarrow> dir_entry \<Rightarrow> fsys \<Rightarrow> (u32 \<times> fsys) option" where
  "flush_dir_entry d new_entry s = do {
     let p = dir_inode (dirs s d);
     all_zones \<leftarrow> table_zones (inodes s p) s;
     flush_zones 140 0 all_zones p new_entry s
   }"

section \<open>Deleting entries\<close>

text \<open>The position of the last entry with the given inode in a sector.\<close>

definition last_hit :: "u32 \<Rightarrow> dir_entry list \<Rightarrow> nat option" where
  "last_hit inode_nr es = (let js = filter (\<lambda>j. i_no (es ! j) = inode_nr) [0..<length es]
     in if js = [] then None else Some (last js))"

definition zone_links :: "dir_entry list \<Rightarrow> nat" where
  "zone_links es = length (filter (\<lambda>e. entry_name e \<noteq> [46] \<and> entry_name e \<noteq> [46, 46]) es)"

definition free_dir_zone :: "nat \<Rightarrow> u32 list \<Rightarrow> addr \<Rightarrow> fsys \<Rightarrow> (u32 list \<times> fsys) option" where
  "free_dir_zone k all_zones p s = do {
     let zone_bitmap_idx = all_zones ! k - s_data_start_lba (sb s);
     b \<leftarrow> set_value_bitmap (zone_bitmap s) 1 0;
     s \<leftarrow> flush_bitmap ZONE_BITMAP zone_bitmap_idx (s\<lparr>zone_bitmap := b\<rparr>);
     if k < 12 then Some (all_zones, set_zone p k 0 s)
     else do {
       let indirect_zones_cnt = length (filter (\<lambda>z. z \<noteq> 0) (drop 12 all_zones));
       ASSERT (indirect_zones_cnt \<ge> 1);
       if indirect_zones_cnt > 1 then do {
         let all_zones = all_zones[k := 0];
         s \<leftarrow> ide_write (i_zones (inodes s p) ! 12) (concat (map (le_bytes 4) (drop 12 all_zones))) 1 s;
         Some (all_zones, s)
       } else do {
         let zone_bitmap_idx = i_zones (inodes s p) ! 12 - s_data_start_lba (sb s);
         b \<leftarrow> set_value_bitmap (zone_bitmap s) zone_bitmap_idx 0;
         s \<leftarrow> flush_bitmap ZONE_BITMAP zone_bitmap_idx (s\<lparr>zone_bitmap := b\<rparr>);
         Some (all_zones, set_zone p 12 0 s)
       }
     }
   }"

text \<open>A hit is copied to address 0; \<open>low\<close> says whether the page there is mapped. The position of the
  hit stays set for the zones behind it.\<close>

primrec delete_zones ::
    "bool \<Rightarrow> nat \<Rightarrow> nat \<Rightarrow> u32 list \<Rightarrow> nat option \<Rightarrow> addr \<Rightarrow> u32 \<Rightarrow> fsys \<Rightarrow> fsys option" where
  "delete_zones low 0 k all_zones found p inode_nr s = Some s"
| "delete_zones low (Suc n) k all_zones found p inode_nr s = do {
     buf \<leftarrow> ide_read (all_zones ! k) 1 s;
     let hit = last_hit inode_nr (entries buf);
     ASSERT (hit \<noteq> None \<longrightarrow> low);
     let found = (if hit \<noteq> None then hit else found);
     case found of None \<Rightarrow> delete_zones low n (Suc k) all_zones found p inode_nr s
     | Some j \<Rightarrow> do {
         (all_zones, s) \<leftarrow>
           (if zone_links (entries buf) = 0 then free_dir_zone k all_zones p s
            else do {
              s \<leftarrow> ide_write (all_zones ! k) (put_at (24 * j) (replicate 24 0) buf) 1 s;
              Some (all_zones, s)
            });
         let s = upd_inode p (\<lambda>i. i\<lparr>i_size := i_size i - 24\<rparr>) s;
         s \<leftarrow> flush_inode (inodes s p) s;
         delete_zones low n (Suc k) all_zones found p inode_nr s
       }
   }"

definition delete_dir_entry :: "bool \<Rightarrow> addr \<Rightarrow> u32 \<Rightarrow> fsys \<Rightarrow> fsys option" where
  "delete_dir_entry low pdir inode_nr s = do {
     let p = dir_inode (dirs s pdir);
     all_zones \<leftarrow> inode_all_zones (inodes s p) s;
     delete_zones low 140 0 all_zones None p inode_nr s
   }"

section \<open>Reading a directory\<close>

text \<open>The index of the entry is not reset from one zone to the next.\<close>

primrec read_zones :: "nat \<Rightarrow> nat \<Rightarrow> nat \<Rightarrow> u32 list \<Rightarrow> fsys \<Rightarrow> dir_entry option option" where
  "read_zones 0 k j all_zones s = Some None"
| "read_zones (Suc n) k j all_zones s =
     (if all_zones ! k = 0 then Some None
      else do {
        buf \<leftarrow> ide_read (all_zones ! k) 1 s;
        let e = entry_at buf j;
        if i_no e = 0 \<and> entry_name e = [] then read_zones n (Suc k) j all_zones s else Some (Some e)
      })"

definition read_dir :: "addr \<Rightarrow> fsys \<Rightarrow> (dir_entry option \<times> fsys) option" where
  "read_dir d s = do {
     let (buf, s) = fs_malloc s;
     if buf = 0 then Some (None, s)
     else do {
       all_zones \<leftarrow> inode_all_zones (inodes s (dir_inode (dirs s d))) s;
       let zone_idx = unat (dir_pos (dirs s d)) div 24 div 21;
       let entry_idx = unat (dir_pos (dirs s d)) div 24 mod 21;
       r \<leftarrow> read_zones (140 - zone_idx) zone_idx entry_idx all_zones s;
       case r of None \<Rightarrow> Some (None, s)
       | Some e \<Rightarrow> Some (Some e, upd_dir d (\<lambda>x. x\<lparr>dir_buf := put_at 0 (entry_bytes e) (dir_buf x),
           dir_pos := dir_pos x + 24\<rparr>) s)
     }
   }"

definition dir_is_empty :: "addr \<Rightarrow> fsys \<Rightarrow> bool" where
  "dir_is_empty d s \<longleftrightarrow> i_size (inodes s (dir_inode (dirs s d))) = 24 * 2"

definition dir_remove :: "bool \<Rightarrow> u32 \<Rightarrow> addr \<Rightarrow> addr \<Rightarrow> fsys \<Rightarrow> (u32 \<times> fsys) option" where
  "dir_remove low junk parent_dir child_dir s = do {
     let p = dir_inode (dirs s child_dir);
     ASSERT (\<forall>z \<in> set (drop 1 (i_zones (inodes s p))). z = 0);
     let (io_buf, s) = fs_malloc s;
     if io_buf = 0 then Some (-1, s)
     else do {
       s \<leftarrow> delete_dir_entry low parent_dir (i_num (inodes s p)) s;
       s \<leftarrow> inode_release junk (i_num (inodes s p)) s;
       Some (0, s)
     }
   }"

section \<open>Creating a file\<close>

text \<open>Giving back what was taken: from step 3 also the slot of the table; the inode is freed from step
  2 on, its number always.\<close>

definition roll_back :: "nat \<Rightarrow> nat \<Rightarrow> u32 \<Rightarrow> fsys \<Rightarrow> (u32 \<times> fsys) option" where
  "roll_back rollback_step fd_idx inode_nr s = do {
     let s = (if rollback_step = 3
              then upd_file fd_idx (\<lambda>_. \<lparr>fd_pos = 0, fd_flag = 0, fd_inode = 0\<rparr>) s else s);
     b \<leftarrow> set_value_bitmap (inode_bitmap s) inode_nr 0;
     Some (-1, s\<lparr>inode_bitmap := b\<rparr>)
   }"

definition file_create ::
    "(kstate \<Rightarrow> kstate option) \<Rightarrow> addr \<Rightarrow> u8 list \<Rightarrow> u32 \<Rightarrow> fsys \<Rightarrow> (u32 \<times> fsys) option" where
  "file_create W parent_d name flag s = do {
     let (buf, s) = fs_malloc s;
     if buf = 0 then Some (-1, s)
     else do {
       (inode_nr, s) \<leftarrow> inode_bitmap_alloc s;
       if inode_nr = -1 then Some (-1, s)
       else do {
         let (new_f_inode, s) = fs_malloc s;
         if new_f_inode = 0 then roll_back 1 0 inode_nr s
         else do {
           let s = upd_inode new_f_inode (\<lambda>_. (new_inode inode_nr (inode_of (replicate 100 0)))\<lparr>i_mode := 5 * 2 ^ 11\<rparr>) s;
           new_entry \<leftarrow> new_dir_entry name inode_nr FT_REGULAR;
           s \<leftarrow> with_ks (lock_fetch W (g_ft_lock s)) s;
           let fd_idx = occupy_file_table_slot s;
           if fd_idx = -1 then roll_back 2 0 inode_nr s
           else do {
             let s = upd_file (unat fd_idx) (\<lambda>_. \<lparr>fd_pos = 0, fd_flag = flag, fd_inode = new_f_inode\<rparr>) s;
             let s = upd_inode new_f_inode (\<lambda>i. i\<lparr>i_lock := 0\<rparr>) s;
             s \<leftarrow> with_ks (lock_release (g_ft_lock s)) s;
             (failed, s) \<leftarrow> flush_dir_entry parent_d new_entry s;
             if failed \<noteq> 0 then roll_back 3 (unat fd_idx) inode_nr s
             else do {
               s \<leftarrow> flush_inode (inodes s (dir_inode (dirs s parent_d))) s;
               s \<leftarrow> flush_inode (inodes s new_f_inode) s;
               s \<leftarrow> flush_bitmap INODE_BITMAP inode_nr s;
               let s = fs_lh (list_add (inode_tag new_f_inode) (open_inodes s)) s;
               Some (install_thread_fd fd_idx s)
             }
           }
         }
       }
     }
   }"

end
