(* ===== verification/Path.thy ===== *)
theory Path
  imports Dir
begin

text \<open>
  Path names and the search of files by path: the static functions of \<^verbatim>\<open>core/fs/fs.c\<close> and the part
  of \<open>sys_open\<close> that looks a path up. A path is a list of bytes without a zero. \<open>None\<close> stands for an
  access through the null pointer, a write behind the name buffer of 16 bytes, the use of the
  uninitialised \<open>last_slash\<close>, and for reading a copy that has no terminating zero: paths are copied
  into memory of \<open>strlen\<close> bytes, which is followed by a zero exactly when the allocator rounds up.
\<close>

section \<open>Splitting paths\<close>

definition path_copy :: "u8 list \<Rightarrow> u8 list option" where
  "path_copy path = (let n = length path
     in if n \<in> {16, 32, 64, 128, 256, 512, 1024} \<or> 1024 < n \<and> (n + 12) mod 4096 = 0 then None else Some path)"

definition slashes :: "u8 list \<Rightarrow> nat list" where
  "slashes path = filter (\<lambda>i. path ! i = 47) [0..<length path - 1]"

definition path_peel :: "u8 list \<Rightarrow> (u8 list \<times> u8 list) option" where
  "path_peel path =
     (if path = [] then None
      else if path = [47] then Some (path, [])
      else if slashes path = [] then None
      else let res_len = last (slashes path) + 1
        in if length path - res_len < 16 then Some (take res_len path, drop res_len path) else None)"

lemma slash_last: "slashes path \<noteq> [] \<Longrightarrow> last (slashes path) + 1 < length path \<and> path ! last (slashes path) = 47"
  using last_in_set [of "slashes path"] by (auto simp: slashes_def)

lemma path_peel_shorter:
  assumes "path_peel path = Some (p, name)" "path \<noteq> [47]"
  shows "length p < length path" "path = p @ name" "name \<noteq> []" "last p = 47"
proof -
  let ?i = "last (slashes path)"
  from assms have s: "slashes path \<noteq> []" and p: "p = take (Suc ?i) path" "name = drop (Suc ?i) path"
    by (auto simp: path_peel_def Let_def split: if_splits)
  note l = slash_last [OF s]
  show "length p < length path" "path = p @ name" "name \<noteq> []" using l p by auto
  have "p = take ?i path @ [path ! ?i]" using l by (simp add: p take_Suc_conv_app_nth)
  then show "last p = 47" using l by simp
qed

function path_depth_loop :: "u8 list \<Rightarrow> u32 \<Rightarrow> u32 option" where
  "path_depth_loop p depth =
     (if p = [47] then Some depth
      else case path_peel p of None \<Rightarrow> None | Some (q, name) \<Rightarrow> path_depth_loop q (depth + 1))"
  by pat_completeness auto
termination by (relation "measure (\<lambda>(p, d). length p)") (auto dest: path_peel_shorter)

declare path_depth_loop.simps [simp del]

definition path_depth :: "u8 list \<Rightarrow> fsys \<Rightarrow> (u32 \<times> fsys) option" where
  "path_depth path s =
     (if path = [] then Some (0, s)
      else do {
        let (tmp_path, s) = fs_malloc s;
        if tmp_path = 0 then None
        else do {
          p \<leftarrow> path_copy path;
          (p, name) \<leftarrow> path_peel p;
          d \<leftarrow> path_depth_loop p 1;
          Some (d, s)
        }
      })"

function path_dirs_loop :: "u8 list \<Rightarrow> u8 list list option" where
  "path_dirs_loop p =
     (if p = [47] then Some []
      else case path_peel p of None \<Rightarrow> None
        | Some (q, name) \<Rightarrow> map_option (\<lambda>ds. if last name = 47 then name # ds else ds) (path_dirs_loop q))"
  by pat_completeness auto
termination by (relation "measure length") (auto dest: path_peel_shorter)

declare path_dirs_loop.simps [simp del]

text \<open>The directories of a path, the innermost first, or nothing when there is no memory.\<close>

definition path_dirs :: "u8 list \<Rightarrow> fsys \<Rightarrow> (u8 list list option \<times> fsys) option" where
  "path_dirs path s = do {
     let (tmp_path, s) = fs_malloc s;
     if tmp_path = 0 then Some (None, s)
     else do {
       p \<leftarrow> path_copy path;
       ds \<leftarrow> path_dirs_loop p;
       Some (Some ds, s)
     }
   }"

section \<open>Searching a directory\<close>

text \<open>Entries \<^verbatim>\<open>.\<close> and \<^verbatim>\<open>..\<close> are skipped; the first unused entry ends the search with -1.\<close>

fun scan_file :: "u8 list \<Rightarrow> dir_entry list \<Rightarrow> u32 option" where
  "scan_file name [] = None"
| "scan_file name (e # es) =
     (if entry_name e = [46] \<or> entry_name e = [46, 46] then scan_file name es
      else if i_no e = 0 \<and> f_type e = FT_UNKOWN then Some (-1)
      else if entry_name e = name then Some (i_no e)
      else scan_file name es)"

primrec scan_zones :: "u8 list \<Rightarrow> u32 list \<Rightarrow> fsys \<Rightarrow> u32 option" where
  "scan_zones name [] s = Some (-1)"
| "scan_zones name (z # zs) s = do {
     buf \<leftarrow> ide_read z 1 s;
     case scan_file name (entries buf) of Some r \<Rightarrow> Some r | None \<Rightarrow> scan_zones name zs s
   }"

definition load_zones :: "inode \<Rightarrow> fsys \<Rightarrow> (u32 list \<times> fsys) option" where
  "load_zones i s =
     (if i_zones i ! 12 \<noteq> 0 then do {
        let (buf, s) = fs_malloc s;
        if buf = 0 then None else do { zs \<leftarrow> table_zones i s; Some (zs, s) }
      } else do { zs \<leftarrow> table_zones i s; Some (zs, s) })"

definition search_file :: "addr \<Rightarrow> u8 list \<Rightarrow> fsys \<Rightarrow> (u32 \<times> fsys) option" where
  "search_file this_dir name s = do {
     (all_zones, s) \<leftarrow> load_zones (inodes s (dir_inode (dirs s this_dir))) s;
     let (entries_buf, s) = fs_malloc s;
     if entries_buf = 0 then None
     else do { r \<leftarrow> scan_zones name all_zones s; Some (r, s) }
   }"

text \<open>The recursive search, which no function calls, opens only the first directory it meets. \<open>n\<close>
  bounds the depth; the result \<open>None\<close> inside is the end of the entries of a sector.\<close>

fun scan_recur ::
    "(u32 \<Rightarrow> fsys \<Rightarrow> (u32 \<times> fsys) option) \<Rightarrow> u8 list \<Rightarrow> dir_entry list \<Rightarrow> fsys \<Rightarrow> (u32 option \<times> fsys) option" where
  "scan_recur enter name [] s = Some (None, s)"
| "scan_recur enter name (e # es) s =
     (if entry_name e = [46] \<or> entry_name e = [46, 46] then scan_recur enter name es s
      else if i_no e = 0 \<and> f_type e = FT_UNKOWN then Some (Some (-1), s)
      else if f_type e = FT_DIRECTORY then do { (r, s) \<leftarrow> enter (i_no e) s; Some (Some r, s) }
      else if f_type e = FT_REGULAR \<and> entry_name e = name then Some (Some (i_no e), s)
      else scan_recur enter name es s)"

primrec recur_zones ::
    "(u32 \<Rightarrow> fsys \<Rightarrow> (u32 \<times> fsys) option) \<Rightarrow> u8 list \<Rightarrow> u32 list \<Rightarrow> fsys \<Rightarrow> (u32 \<times> fsys) option" where
  "recur_zones enter name [] s = Some (-1, s)"
| "recur_zones enter name (z # zs) s = do {
     buf \<leftarrow> ide_read z 1 s;
     (r, s) \<leftarrow> scan_recur enter name (entries buf) s;
     case r of Some nr \<Rightarrow> Some (nr, s) | None \<Rightarrow> recur_zones enter name zs s
   }"

primrec search_file_recur :: "nat \<Rightarrow> addr \<Rightarrow> u8 list \<Rightarrow> fsys \<Rightarrow> (u32 \<times> fsys) option" where
  "search_file_recur 0 this_dir name s = None"
| "search_file_recur (Suc n) this_dir name s = do {
     (all_zones, s) \<leftarrow> load_zones (inodes s (dir_inode (dirs s this_dir))) s;
     let (entries_buf, s) = fs_malloc s;
     if entries_buf = 0 then None
     else recur_zones (\<lambda>inode_nr s. do {
         (next_d, s) \<leftarrow> dir_open inode_nr s;
         (nr, s) \<leftarrow> search_file_recur n next_d name s;
         Some (nr, dir_close next_d s)
       }) name all_zones s
   }"

section \<open>Searching a path\<close>

text \<open>Walk through the directories, the outermost first. The result is the directory before the last
  one, the last one and its inode, or nothing when one of them is missing. No directory is closed.\<close>

primrec walk_dirs :: "u8 list list \<Rightarrow> addr \<Rightarrow> addr \<Rightarrow> u32 \<Rightarrow> fsys \<Rightarrow> ((addr \<times> addr \<times> u32) option \<times> fsys) option" where
  "walk_dirs [] prev_d d nr s = Some (Some (prev_d, d, nr), s)"
| "walk_dirs (dir_name # ds) prev_d d nr s = do {
     (d_inode_nr, s) \<leftarrow> search_file d dir_name s;
     if d_inode_nr = -1 then Some (None, s)
     else do {
       (d', s) \<leftarrow> dir_open d_inode_nr s;
       walk_dirs ds d d' d_inode_nr s
     }
   }"

text \<open>The copy of the parent directory is a value, \<open>None\<close> when it is not written.\<close>

definition search_file_with_pathname ::
    "u8 list \<Rightarrow> fsys \<Rightarrow> (u32 \<times> dir_stream option \<times> fsys) option" where
  "search_file_with_pathname pathname s =
     (if pathname = [] then None
      else do {
        let is_file = last pathname \<noteq> 47;
        let (tmp_path, s) = fs_malloc s;
        if tmp_path = 0 then Some (-1, None, s)
        else do {
          p \<leftarrow> path_copy pathname;
          (p, last_name) \<leftarrow> path_peel p;
          let d = root_dir s;
          (depth, s) \<leftarrow> path_depth pathname s;
          let (dirs_path, s) = fs_malloc s;
          if dirs_path = 0 then None
          else do {
            (ds, s) \<leftarrow> path_dirs pathname s;
            let ds = (case ds of None \<Rightarrow> [] | Some ds \<Rightarrow> ds);
            if length ds \<le> 1 then do {
              (f_inode, s) \<leftarrow> search_file d last_name s;
              Some (f_inode, if f_inode \<noteq> -1 then Some (dirs s d) else None, s)
            } else do {
              (r, s) \<leftarrow> walk_dirs (rev ds) 0 d 0 s;
              case r of None \<Rightarrow> Some (-1, None, s)
              | Some (prev_d, d, d_inode_nr) \<Rightarrow>
                  if \<not> is_file then Some (d_inode_nr, Some (dirs s prev_d), s)
                  else do {
                    (file_inode_nr, s) \<leftarrow> search_file d last_name s;
                    Some (file_inode_nr, Some (dirs s d), s)
                  }
            }
          }
        }
      })"

text \<open>The lookup of \<open>sys_open\<close>: it walks through all but the last of the \<open>depth\<close> parts and closes each
  directory when it has opened the next. What follows is the switch over the flags.\<close>

primrec open_dirs :: "u8 list list \<Rightarrow> addr \<Rightarrow> fsys \<Rightarrow> (addr option \<times> fsys) option" where
  "open_dirs [] next_dir s = Some (Some next_dir, s)"
| "open_dirs (cur_name # ds) next_dir s = do {
     (d_inode, s) \<leftarrow> search_file next_dir cur_name s;
     let s = dir_close next_dir s;
     if d_inode = -1 then Some (None, s)
     else do {
       (next_dir, s) \<leftarrow> dir_open d_inode s;
       open_dirs ds next_dir s
     }
   }"

definition open_lookup ::
    "u8 list \<Rightarrow> u32 \<Rightarrow> fsys \<Rightarrow> ((addr \<times> u8 list \<times> u32) option \<times> fsys) option" where
  "open_lookup pathname flags s =
     (if pathname = [] then None
      else if last pathname = 47 then Some (None, s)
      else do {
        let (path, s) = fs_malloc s;
        if path = 0 then None
        else do {
          p \<leftarrow> path_copy pathname;
          (p, last_name) \<leftarrow> path_peel p;
          (depth, s) \<leftarrow> path_depth pathname s;
          (next_dir, s) \<leftarrow>
            (if 1 <s depth then do {
               let (dirs_path, s) = fs_malloc s;
               (ds, s) \<leftarrow> path_dirs pathname s;
               case ds of None \<Rightarrow> Some (None, s)
               | Some ds \<Rightarrow> if dirs_path = 0 then None else open_dirs (rev ds) (root_dir s) s
             } else Some (Some (root_dir s), s));
          case next_dir of None \<Rightarrow> Some (None, s)
          | Some next_dir \<Rightarrow> do {
              (file_inode_nr, s) \<leftarrow> search_file next_dir last_name s;
              if (file_inode_nr = -1) \<noteq> (flags AND 64 \<noteq> 0) then Some (None, dir_close next_dir s)
              else Some (Some (next_dir, last_name, file_inode_nr), s)
            }
        }
      })"

end
