(* ===== verification/Fs.thy ===== *)
theory Fs
  imports Path
begin

text \<open>
  System calls of the file system: \<^verbatim>\<open>core/fs/fs.c\<close>. Formatting and mounting a partition, the calls on
  directories, \<open>lseek\<close>, \<open>unlink\<close>, \<open>stat\<close> and \<open>chdir\<close>. A structure that the code has on its stack is an
  argument: its address when it is passed on by address (\<open>var\<close>), its content when it is used
  uninitialised (\<open>stack_inode\<close>, \<open>stack_sb\<close>).
\<close>

section \<open>Formatting\<close>

text \<open>The areas of a partition. The second size of the zone bitmap is computed from the length that
  the first one leaves.\<close>

record layout =
  inode_bitmap_sz :: u32
  inode_table_sz :: u32
  bm_len :: u32
  zone_bitmap_sz :: u32
  zones_sz :: u32

definition format_layout :: "u32 \<Rightarrow> layout" where
  "format_layout sec_cnt =
     (let inode_bitmap_sz = DIV_ROUND_UP 4096 4096;
          inode_table_sz = DIV_ROUND_UP (100 * 4096) 512;
          used_sector_sz = 1 + 1 + inode_bitmap_sz + inode_table_sz;
          free_sector_sz = sec_cnt - used_sector_sz;
          zone_bitmap_sz = DIV_ROUND_UP free_sector_sz 4096;
          bm_len = free_sector_sz - zone_bitmap_sz;
          zone_bitmap_sz = DIV_ROUND_UP bm_len 4096;
          zones_sz = free_sector_sz - zone_bitmap_sz
      in \<lparr>inode_bitmap_sz = inode_bitmap_sz, inode_table_sz = inode_table_sz, bm_len = bm_len,
          zone_bitmap_sz = zone_bitmap_sz, zones_sz = zones_sz\<rparr>)"

definition format_sb :: "u32 \<Rightarrow> layout \<Rightarrow> super_block \<Rightarrow> super_block" where
  "format_sb start l stack_sb =
     (let imap = start + 1 + 1; zmap = imap + inode_bitmap_sz l; table = zmap + zone_bitmap_sz l
      in stack_sb\<lparr>s_magic := 0x2023B07A, s_ninodes := DIV_ROUND_UP (inode_table_sz l * 512) 100,
          s_nzones := DIV_ROUND_UP (zones_sz l) 512, s_imap_lba := imap, s_imap_sz := inode_bitmap_sz l,
          s_zmap_lba := zmap, s_zmap_sz := zone_bitmap_sz l, s_inode_table_lba := table,
          s_inode_table_sz := inode_table_sz l, s_data_start_lba := table + inode_table_sz l, root_inode_no := 0,
          dir_entry_size := 24, s_pad := replicate 447 0\<rparr>)"

primrec clear_low_bits :: "nat \<Rightarrow> u8 \<Rightarrow> u8" where
  "clear_low_bits 0 b = b"
| "clear_low_bits (Suc n) b = clear_low_bits n b AND NOT (push_bit n 1)"

text \<open>The bytes of the zone bitmap: bits 0 to \<open>zbm_last_bit\<close> of the last byte are cleared.\<close>

definition format_zmap :: "u32 \<Rightarrow> u8 list \<Rightarrow> u8 list" where
  "format_zmap len buf =
     (let buf = buf[0 := buf ! 0 OR 1];
          zbm_last_byte = unat (len div 8); zbm_last_bit = unat (len mod 8);
          last_sz = 512 - zbm_last_byte mod 512;
          buf = put_at zbm_last_byte (replicate last_sz 0xff) buf
      in buf[zbm_last_byte := clear_low_bits (Suc zbm_last_bit) (buf ! zbm_last_byte)])"

definition root_inode :: "u32 \<Rightarrow> inode" where
  "root_inode data_start = (inode_of (replicate 100 0))\<lparr>i_size := 24 * 2, i_num := 0, i_mode := 3 * 2 ^ 11,
     i_zones := (replicate 13 0)[0 := data_start]\<rparr>"

definition dot_entries :: "u32 \<Rightarrow> u32 \<Rightarrow> u8 list" where
  "dot_entries self parent =
     entry_bytes \<lparr>filename = 46 # replicate 15 0, i_no = self, f_type = FT_DIRECTORY\<rparr> @
     entry_bytes \<lparr>filename = 46 # 46 # replicate 14 0, i_no = parent, f_type = FT_DIRECTORY\<rparr>"

definition partition_format :: "super_block \<Rightarrow> fsys \<Rightarrow> fsys option" where
  "partition_format stack_sb s =
     (if part_sec_cnt s = 0 then Some s
      else do {
        let l = format_layout (part_sec_cnt s);
        let b = format_sb (part_start_lba s) l stack_sb;
        s \<leftarrow> ide_write (part_start_lba s + 1) (sb_bytes b) 1 s;
        let buf_sz = unat (max (max (s_imap_sz b) (s_zmap_sz b)) (s_inode_table_sz b) * 512);
        let (a, s) = fs_malloc s;
        ASSERT (a \<noteq> 0);
        let buf = replicate buf_sz 0;
        let zbm_last_byte = unat (bm_len l div 8);
        ASSERT (zbm_last_byte + (512 - zbm_last_byte mod 512) \<le> buf_sz);
        s \<leftarrow> ide_write (s_zmap_lba b) (format_zmap (bm_len l) buf) (unat (s_zmap_sz b)) s;
        s \<leftarrow> ide_write (s_imap_lba b) (buf[0 := buf ! 0 OR 1]) (unat (s_imap_sz b)) s;
        s \<leftarrow> ide_write (s_inode_table_lba b) (put_at 0 (inode_bytes (root_inode (s_data_start_lba b))) buf)
          (unat (s_inode_table_sz b)) s;
        ide_write (s_data_start_lba b) (take 512 (put_at 0 (dot_entries 0 0) buf)) 1 s
      })"

section \<open>Mounting\<close>

definition load_bitmap :: "u32 \<Rightarrow> u8 list \<Rightarrow> bitmap" where
  "load_bitmap len bs = \<lparr>bits = (\<lambda>i. if i < length bs then bs ! i else 0), map_bytes_length = len\<rparr>"

definition mount_partition :: "u8 list \<Rightarrow> u8 list \<Rightarrow> fsys \<Rightarrow> (bool \<times> fsys) option" where
  "mount_partition target_name name s =
     (if target_name \<noteq> name then Some (False, s)
      else do {
        let (a, s) = fs_malloc s;
        ASSERT (a \<noteq> 0);
        b \<leftarrow> ide_read (part_start_lba s + 1) 1 s;
        let b = sb_of b;
        ASSERT (s_magic b = 0x2023b07a);
        let s = s\<lparr>sb := b\<rparr>;
        let (zbm_bits, s) = fs_malloc s;
        ASSERT (zbm_bits \<noteq> 0);
        z \<leftarrow> ide_read (s_zmap_lba b) (unat (s_zmap_sz b)) s;
        let s = s\<lparr>zone_bitmap := load_bitmap (s_zmap_sz b * 512) z\<rparr>;
        let (ibm_bits, s) = fs_malloc s;
        ASSERT (ibm_bits \<noteq> 0);
        i \<leftarrow> ide_read (s_imap_lba b) (unat (s_imap_sz b)) s;
        let s = s\<lparr>inode_bitmap := load_bitmap (s_imap_sz b * 512) i\<rparr>;
        Some (True, fs_lh (INIT_LIST_HEAD (open_inodes s)) s)
      })"

section \<open>Position\<close>

definition sys_lseek :: "u32 \<Rightarrow> u32 \<Rightarrow> u8 \<Rightarrow> fsys \<Rightarrow> (u32 \<times> fsys) option" where
  "sys_lseek fd off whence s =
     (if fd <s 0 then Some (-1, s)
      else do {
        ASSERT (whence > 0 \<and> whence < 4);
        f \<leftarrow> map_option unat (fd_local2global fd s);
        let file_size = i_size (inodes s (fd_inode (g_file_table s f)));
        let new_pos = (if whence = 1 then off
          else if whence = 2 then fd_pos (g_file_table s f) + off
          else file_size + 1 + (off - 1));
        if new_pos <s 0 \<or> file_size <s new_pos then Some (-1, s)
        else Some (new_pos, upd_file f (\<lambda>e. e\<lparr>fd_pos := new_pos\<rparr>) s)
      })"

section \<open>Directories\<close>

text \<open>The part of \<open>sys_mkdir\<close> behind the lookup of the parent directory.\<close>

definition make_dir :: "inode \<Rightarrow> addr \<Rightarrow> u8 list \<Rightarrow> fsys \<Rightarrow> (u32 \<times> fsys) option" where
  "make_dir stack_inode pdir last_name s = do {
     (nr, s) \<leftarrow> inode_bitmap_alloc s;
     if nr = -1 then Some (-1, dir_close pdir s)
     else do {
       let new_dir_inode = new_inode nr stack_inode;
       (zone_lba, s) \<leftarrow> zone_bitmap_alloc s;
       if zone_lba = -1 then do {
         b \<leftarrow> set_value_bitmap (inode_bitmap s) nr 0;
         Some (-1, dir_close pdir (s\<lparr>inode_bitmap := b\<rparr>))
       } else do {
         let zone_bitmap_idx = zone_lba - s_data_start_lba (sb s);
         ASSERT (zone_bitmap_idx \<noteq> 0);
         s \<leftarrow> flush_bitmap ZONE_BITMAP zone_bitmap_idx s;
         let pinode = dir_inode (dirs s pdir);
         s \<leftarrow> ide_write zone_lba (put_at 0 (dot_entries nr (i_num (inodes s pinode))) (replicate 512 0)) 1 s;
         let new_dir_inode = new_dir_inode\<lparr>i_mode := 3 * 2 ^ 11, i_size := 2 * 24,
           i_zones := (i_zones new_dir_inode)[0 := zone_lba]\<rparr>;
         cur_dir_entry \<leftarrow> new_dir_entry last_name nr FT_DIRECTORY;
         (failed, s) \<leftarrow> flush_dir_entry pdir cur_dir_entry s;
         if failed \<noteq> 0 then do {
           b \<leftarrow> set_value_bitmap (zone_bitmap s) zone_bitmap_idx 0;
           let s = s\<lparr>zone_bitmap := b\<rparr>;
           b \<leftarrow> set_value_bitmap (inode_bitmap s) nr 0;
           Some (-1, dir_close pdir (s\<lparr>inode_bitmap := b\<rparr>))
         } else do {
           s \<leftarrow> flush_inode (inodes s pinode) s;
           s \<leftarrow> flush_inode new_dir_inode s;
           s \<leftarrow> flush_bitmap INODE_BITMAP nr s;
           Some (0, dir_close pdir s)
         }
       }
     }
   }"

definition sys_mkdir :: "inode \<Rightarrow> u8 list \<Rightarrow> fsys \<Rightarrow> (u32 \<times> fsys) option" where
  "sys_mkdir stack_inode pathname s = do {
     let (io_buf, s) = fs_malloc s;
     if io_buf = 0 then Some (-1, s)
     else do {
       let (tmp_path, s) = fs_malloc s;
       if tmp_path = 0 then Some (-1, s)
       else do {
         p \<leftarrow> path_copy pathname;
         (parent_path, last_name) \<leftarrow> path_peel p;
         (pdir, s) \<leftarrow>
           (if parent_path = [47] then Some (root_dir s, s)
            else do {
              (nr, pd, s) \<leftarrow> search_file_with_pathname parent_path s;
              if nr = -1 then Some (0, s) else dir_open nr s
            });
         if pdir = 0 then Some (-1, s)
         else do {
           (nr, s) \<leftarrow> search_file pdir last_name s;
           if nr \<noteq> -1 then Some (-1, s) else make_dir stack_inode pdir last_name s
         }
       }
     }
   }"

definition sys_opendir :: "u8 list \<Rightarrow> fsys \<Rightarrow> (addr \<times> fsys) option" where
  "sys_opendir name s =
     (if name = [47] then Some (root_dir s, s)
      else do {
        let s = snd (fs_malloc s);
        (nr, pd, s) \<leftarrow> search_file_with_pathname name s;
        if nr = -1 then Some (0, s) else dir_open nr s
      })"

definition sys_closedir :: "addr \<Rightarrow> fsys \<Rightarrow> u32 \<times> fsys" where
  "sys_closedir dirp s = (if dirp \<noteq> 0 then (0, dir_close dirp s) else (-1, s))"

definition sys_readdir :: "addr \<Rightarrow> fsys \<Rightarrow> (dir_entry option \<times> fsys) option" where
  "sys_readdir dirp s = do { ASSERT (dirp \<noteq> 0); read_dir dirp s }"

definition sys_rewinddir :: "addr \<Rightarrow> fsys \<Rightarrow> fsys" where
  "sys_rewinddir dirp s = upd_dir dirp (\<lambda>d. d\<lparr>dir_pos := 0\<rparr>) s"

text \<open>The test for emptiness looks at the parent directory.\<close>

definition sys_rmdir :: "bool \<Rightarrow> u32 \<Rightarrow> addr \<Rightarrow> u8 list \<Rightarrow> fsys \<Rightarrow> (u32 \<times> fsys) option" where
  "sys_rmdir low junk var pathname s = do {
     (nr, pd, s) \<leftarrow> search_file_with_pathname pathname s;
     if nr = -1 then Some (-1, s)
     else do {
       d \<leftarrow> pd;
       let s = upd_dir var (\<lambda>_. d) s;
       (target_dir, s) \<leftarrow> dir_open nr s;
       if dir_is_empty var s then dir_remove low junk var target_dir s else Some (-1, s)
     }
   }"

section \<open>Files by name\<close>

function find_user :: "(nat \<Rightarrow> open_file) \<Rightarrow> (addr \<Rightarrow> inode) \<Rightarrow> u32 \<Rightarrow> nat \<Rightarrow> nat" where
  "find_user t is nr idx =
     (if idx < 128 then
        if fd_inode (t idx) \<noteq> 0 \<and> nr = i_num (is (fd_inode (t idx))) then idx else find_user t is nr (Suc idx)
      else idx)"
  by pat_completeness auto
termination by (relation "measure (\<lambda>(t, is, nr, idx). 128 - idx)") auto

declare find_user.simps [simp del]

text \<open>When the path is not found the directory that is closed has no inode.\<close>

definition sys_unlink :: "bool \<Rightarrow> u32 \<Rightarrow> u8 list \<Rightarrow> fsys \<Rightarrow> (u32 \<times> fsys) option" where
  "sys_unlink low junk pathname s = do {
     let (io_buf, s) = fs_malloc s;
     if io_buf = 0 then Some (-1, s)
     else do {
       let (pdir, s) = fs_malloc s;
       if pdir = 0 then Some (-1, s)
       else do {
         (inode_nr, pd, s) \<leftarrow> search_file_with_pathname pathname s;
         d \<leftarrow> pd;
         let s = upd_dir pdir (\<lambda>_. d) s;
         if inode_nr = -1 then Some (-1, dir_close pdir s)
         else do {
           (p, s) \<leftarrow> inode_open inode_nr s;
           let file_idx = find_user (g_file_table s) (inodes s) inode_nr 0;
           if file_idx < 128 then Some (-1, dir_close pdir s)
           else if i_nlinks (inodes s p) = 0 then do {
             s \<leftarrow> delete_dir_entry low pdir inode_nr s;
             s \<leftarrow> inode_release junk inode_nr s;
             Some (0, dir_close pdir s)
           } else do {
             let s = upd_inode p (\<lambda>i. i\<lparr>i_nlinks := i_nlinks i - 1\<rparr>) s;
             s \<leftarrow> flush_inode (inodes s p) s;
             Some (-1, dir_close pdir s)
           }
         }
       }
     }
   }"

record stat_buf =
  st_ino :: u32
  st_mode :: u16
  st_nlink :: u8
  st_size :: u32
  st_zones :: u32

text \<open>Counting runs on behind the 13 zones when all of them are used.\<close>

definition count_zones :: "inode \<Rightarrow> u32 option" where
  "count_zones i = (let n = length (takeWhile (\<lambda>z. z \<noteq> 0) (i_zones i)) in if n < 13 then Some (of_nat n) else None)"

definition stat_of :: "u32 \<Rightarrow> inode \<Rightarrow> u32 \<Rightarrow> stat_buf" where
  "stat_of nr i n = \<lparr>st_ino = nr, st_mode = i_mode i, st_nlink = i_nlinks i, st_size = i_size i, st_zones = n\<rparr>"

definition sys_stat :: "u8 list \<Rightarrow> fsys \<Rightarrow> (u32 \<times> stat_buf option \<times> fsys) option" where
  "sys_stat pathname s =
     (if pathname = [47] \<or> pathname = [47, 46] \<or> pathname = [47, 46, 46] then do {
        let i = inodes s (dir_inode (dirs s (root_dir s)));
        n \<leftarrow> count_zones i;
        Some (0, Some (stat_of 0 i n), s)
      } else do {
        (inode_nr, pd, s) \<leftarrow> search_file_with_pathname pathname s;
        if inode_nr = -1 then Some (-1, None, s)
        else do {
          (p, s) \<leftarrow> inode_open inode_nr s;
          n \<leftarrow> count_zones (inodes s p);
          Some (0, Some (stat_of inode_nr (inodes s p) (n + 1)), s)
        }
      })"

definition sys_chdir :: "u8 list \<Rightarrow> fsys \<Rightarrow> (u32 \<times> fsys) option" where
  "sys_chdir pathname s = do {
     (inode_nr, pd, s) \<leftarrow> search_file_with_pathname pathname s;
     if inode_nr = -1 then Some (-1, s)
     else do {
       (p, s) \<leftarrow> inode_open inode_nr s;
       if (i_mode (inodes s p) div 2 ^ 11) AND 15 = 3 then
         Some (0, s\<lparr>ks := upd_tcb (running_thread (ks s)) (\<lambda>t. t\<lparr>cwd_inode_nr := inode_nr\<rparr>) (ks s)\<rparr>)
       else Some (-1, s)
     }
   }"

section \<open>The current directory\<close>

definition get_parent_dir_inode_nr :: "u32 \<Rightarrow> fsys \<Rightarrow> (u32 \<times> fsys) option" where
  "get_parent_dir_inode_nr childdir_inode_nr s = do {
     (p, s) \<leftarrow> inode_open childdir_inode_nr s;
     let zone_lba = i_zones (inodes s p) ! 0;
     ASSERT (zone_lba \<ge> s_data_start_lba (sb s));
     let s = inode_close p s;
     buf \<leftarrow> ide_read zone_lba 1 s;
     let dentry = entry_at buf 1;
     ASSERT (i_no dentry < 4096 \<and> f_type dentry = FT_DIRECTORY);
     Some (i_no dentry, s)
   }"

primrec child_name :: "u32 \<Rightarrow> u32 list \<Rightarrow> fsys \<Rightarrow> u8 list option option" where
  "child_name nr [] s = Some None"
| "child_name nr (z # zs) s =
     (if z = 0 then child_name nr zs s
      else do {
        buf \<leftarrow> ide_read z 1 s;
        case List.find (\<lambda>e. i_no e = nr) (entries buf) of
          Some e \<Rightarrow> Some (Some (entry_name e))
        | None \<Rightarrow> child_name nr zs s
      })"

definition get_child_dir_name :: "u32 \<Rightarrow> u32 \<Rightarrow> u8 list \<Rightarrow> fsys \<Rightarrow> (u8 list option \<times> fsys) option" where
  "get_child_dir_name parent_inode_nr child_inode_nr path s = do {
     (p, s) \<leftarrow> inode_open parent_inode_nr s;
     all_zones \<leftarrow> inode_all_zones (inodes s p) s;
     let s = inode_close p s;
     name \<leftarrow> child_name child_inode_nr all_zones s;
     Some (map_option (\<lambda>n. path @ [47] @ n) name, s)
   }"

text \<open>Climb to the root directory; \<open>None\<close> inside is a name that is not found. More than 1023 bytes do
  not fit into the buffer.\<close>

partial_function (option) climb :: "u32 \<Rightarrow> u8 list \<Rightarrow> fsys \<Rightarrow> (u8 list option \<times> fsys) option" where
  "climb nr path s =
     (if nr = 0 then Some (Some path, s)
      else do {
        (parent, s) \<leftarrow> get_parent_dir_inode_nr nr s;
        (r, s) \<leftarrow> get_child_dir_name parent nr path s;
        case r of None \<Rightarrow> Some (None, s)
        | Some path \<Rightarrow> if length path < 1024 then climb parent path s else None
      })"

text \<open>Turn the parts of the path round.\<close>

function turn_path :: "u8 list \<Rightarrow> u8 list \<Rightarrow> u8 list" where
  "turn_path path buf =
     (let js = filter (\<lambda>i. path ! i = 47) [0..<length path]
      in if js = [] then buf else turn_path (take (last js) path) (buf @ drop (last js) path))"
  by pat_completeness auto
termination
proof (relation "measure (\<lambda>(path, buf). length path)")
  fix path buf :: "u8 list" and js assume "js = filter (\<lambda>i. path ! i = 47) [0..<length path]" "js \<noteq> []"
  then have "last js < length path" using last_in_set [of js] by auto
  then show "((take (last js) path, buf @ drop (last js) path), path, buf) \<in> measure (\<lambda>(path, buf). length path)" by simp
qed simp

declare turn_path.simps [simp del]

text \<open>The result is the returned address and the content of the buffer. The address is 0 also on
  success, but for the root directory.\<close>

definition sys_getcwd :: "addr \<Rightarrow> u32 \<Rightarrow> fsys \<Rightarrow> (addr \<times> u8 list \<times> fsys) option" where
  "sys_getcwd buf sz s = do {
     ASSERT (buf \<noteq> 0);
     let (io_buf, s) = fs_malloc s;
     if io_buf = 0 then Some (0, [], s)
     else do {
       let nr = cwd_inode_nr (tcbs (ks s) (running_thread (ks s)));
       if nr = 0 then Some (buf, [47], s)
       else do {
         (r, s) \<leftarrow> climb nr [] s;
         case r of None \<Rightarrow> Some (0, [], s)
         | Some path \<Rightarrow> do {
             ASSERT (length path \<le> unat sz);
             Some (0, turn_path path [], s)
           }
       }
     }
   }"

end
