(* ===== verification/FileData.thy ===== *)
theory FileData
  imports File
begin

text \<open>
  Correctness of writing and reading the data of a file (\<^verbatim>\<open>core/fs/file.c\<close>): the content of a file is
  the first \<open>i_size\<close> bytes of its zones. Writing at the end of a file appends to the content and
  leaves every other zone in use and every other inode as it is; reading gives back the content.
\<close>

text \<open>Changes of memory only.\<close>

lemma set_zone_simps [simp]:
  "sb (set_zone p k z s) = sb s" "disk (set_zone p k z s) = disk s" "zone_bitmap (set_zone p k z s) = zone_bitmap s"
  "ks (set_zone p k z s) = ks s" "open_inodes (set_zone p k z s) = open_inodes s" "allocs (set_zone p k z s) = allocs s"
  "g_file_table (set_zone p k z s) = g_file_table s" "part_start_lba (set_zone p k z s) = part_start_lba s"
  "part_sec_cnt (set_zone p k z s) = part_sec_cnt s" "inode_bitmap (set_zone p k z s) = inode_bitmap s"
  "root_dir (set_zone p k z s) = root_dir s" "dirs (set_zone p k z s) = dirs s" "g_ft_lock (set_zone p k z s) = g_ft_lock s"
  "inodes (set_zone p k z s) = (inodes s)(p := (inodes s p)\<lparr>i_zones := (i_zones (inodes s p))[k := z]\<rparr>)"
  by (simp_all add: set_zone_def upd_inode_def)

lemma upd_file_simps [simp]:
  "sb (upd_file f g s) = sb s" "disk (upd_file f g s) = disk s" "zone_bitmap (upd_file f g s) = zone_bitmap s"
  "ks (upd_file f g s) = ks s" "open_inodes (upd_file f g s) = open_inodes s" "allocs (upd_file f g s) = allocs s"
  "part_start_lba (upd_file f g s) = part_start_lba s" "part_sec_cnt (upd_file f g s) = part_sec_cnt s"
  "inode_bitmap (upd_file f g s) = inode_bitmap s" "root_dir (upd_file f g s) = root_dir s" "dirs (upd_file f g s) = dirs s"
  "g_ft_lock (upd_file f g s) = g_ft_lock s"
  "inodes (upd_file f g s) = inodes s" "g_file_table (upd_file f g s) = (g_file_table s)(f := g (g_file_table s f))"
  by (simp_all add: upd_file_def)

lemma memory_only_simps [simp]:
  "fs_ok (set_zone p k z s) = fs_ok s" "zone_used (set_zone p k z s) = zone_used s"
  "inode_area (set_zone p k z s) = inode_area s" "free_zones (set_zone p k z s) = free_zones s"
  "fs_ok (upd_file f g s) = fs_ok s" "zone_used (upd_file f g s) = zone_used s"
  "inode_area (upd_file f g s) = inode_area s" "free_zones (upd_file f g s) = free_zones s"
  "fs_ok (s\<lparr>allocs := as\<rparr>) = fs_ok s" "zone_used (s\<lparr>allocs := as\<rparr>) = zone_used s"
  "inode_area (s\<lparr>allocs := as\<rparr>) = inode_area s" "free_zones (s\<lparr>allocs := as\<rparr>) = free_zones s"
  "fs_ok (s\<lparr>inodes := is\<rparr>) = fs_ok s" "zone_used (s\<lparr>inodes := is\<rparr>) = zone_used s"
  "inode_area (s\<lparr>inodes := is\<rparr>) = inode_area s" "free_zones (s\<lparr>inodes := is\<rparr>) = free_zones s"
  by (intro ext fs_ok_cong; simp)+

lemma file_zones_cong: "zone_used s' = zone_used s \<Longrightarrow> file_zones s' i zs = file_zones s i zs"
  by (simp add: file_zones_def)

section \<open>Adding a zone\<close>

lemma finite_free_zones [simp]: "finite (free_zones s)"
  by (simp add: free_zones_def)

lemma sectors_cong: "(\<And>z. z \<in> set zs \<Longrightarrow> disk s' z = disk s z) \<Longrightarrow> sectors s' zs = sectors s zs"
  unfolding sectors_def by (rule arg_cong [of _ _ concat], rule map_cong) simp_all

lemma sectors_simps [simp]:
  "sectors s [] = []" "sectors s (z # zs) = disk s z @ sectors s zs" "sectors s (xs @ ys) = sectors s xs @ sectors s ys"
  by (simp_all add: sectors_def)

lemma length_sectors: "(\<And>a. length (disk s a) = 512) \<Longrightarrow> length (sectors s zs) = 512 * length zs"
  by (induction zs) simp_all

lemma file_zonesD:
  assumes "file_zones s i zs"
  shows "length zs \<le> 12" "distinct zs" "length (i_zones i) = 13" "inode_ok i" "\<And>z. z \<in> set zs \<Longrightarrow> zone_used s z"
  using assms by (simp_all add: file_zones_def inode_ok_def)

lemma file_zones_mono:
  "file_zones s i zs \<Longrightarrow> (\<And>z. zone_used s z \<Longrightarrow> zone_used s' z) \<Longrightarrow> file_zones s' i zs"
  by (auto simp: file_zones_def)

lemma replicate_first: "0 < n \<Longrightarrow> (replicate n x)[0 := z] = z # replicate (n - 1) x"
  by (cases n) simp_all

lemma file_zones_snoc:
  assumes "file_zones s i zs" "length zs < 12" "zone_used s z" "z \<notin> set zs"
  shows "file_zones s (i\<lparr>i_zones := (i_zones i)[length zs := z]\<rparr>) (zs @ [z])"
proof -
  have "(replicate (13 - length zs) 0)[0 := z] = z # replicate (13 - length zs - 1) 0"
    by (rule replicate_first) (use assms(2) in simp)
  then show ?thesis using assms by (auto simp: file_zones_def list_update_append)
qed

lemma file_frame_inode: "file_frame f p Z s s' \<Longrightarrow> inodes s' p = (inodes s p)\<lparr>i_zones := i_zones (inodes s' p)\<rparr>"
  unfolding file_frame_def by (metis fun_upd_same)

lemma file_frame_mono: "file_frame f p Z s s' \<Longrightarrow> Z \<subseteq> Z' \<Longrightarrow> file_frame f p Z' s s'"
  by (auto simp: file_frame_def)

lemma file_frame_sectors:
  "file_frame f p Z s s' \<Longrightarrow> (\<And>z. z \<in> set zs \<Longrightarrow> zone_used s z \<and> z \<notin> Z) \<Longrightarrow> sectors s' zs = sectors s zs"
  by (rule sectors_cong) (auto simp: file_frame_def)

lemma add_zone_ok:
  assumes ok: "fs_ok s" and f: "free_zones s \<noteq> {}" and z: "file_zones s (inodes s p) zs" and l: "length zs < 12"
  shows "\<exists>i z s'. i \<in> free_zones s \<and> add_zone p (length zs) s = Some (Some z, s') \<and> fs_ok s' \<and>
    free_zones s' = free_zones s - {i} \<and> file_zones s' (inodes s' p) (zs @ [z]) \<and> file_frame fd p {} s s' \<and>
    g_file_table s' = g_file_table s \<and> allocs s' = allocs s \<and> \<not> zone_used s z \<and> zone_used s' z \<and>
    sectors s' zs = sectors s zs"
proof -
  from new_zone_ok [OF ok f] obtain i s1 where
    i: "i \<in> free_zones s" "new_zone s = Some (Some (zone_of s i), s1)" "fs_ok s1" "free_zones s1 = free_zones s - {i}"
    and e: "s1 = s\<lparr>zone_bitmap := zone_bitmap s1, disk := disk s1\<rparr>" and ar: "inode_area s1 = inode_area s"
    and u: "zone_used s1 (zone_of s i)" "\<not> zone_used s (zone_of s i)" "\<forall>z. zone_used s z \<longrightarrow> zone_used s1 z"
    and d: "\<forall>a. unat (s_data_start_lba (sb s)) \<le> unat a \<longrightarrow> disk s1 a = disk s a" by blast
  let ?z = "zone_of s i" and ?s' = "set_zone p (length zs) (zone_of s i) s1"
  have same: "sb s1 = sb s" "inodes s1 = inodes s" "ks s1 = ks s" "open_inodes s1 = open_inodes s"
    "g_file_table s1 = g_file_table s" "allocs s1 = allocs s" "part_start_lba s1 = part_start_lba s"
    "part_sec_cnt s1 = part_sec_cnt s" "inode_bitmap s1 = inode_bitmap s" "root_dir s1 = root_dir s" "dirs s1 = dirs s"
    "g_ft_lock s1 = g_ft_lock s" by (subst e, simp)+
  have zs: "zone_used s z" if "z \<in> set zs" for z using z that by (simp add: file_zones_def)
  have kept: "disk s1 a = disk s a" if "zone_used s a" for a using d zone_used_lba(1) [OF that] by simp
  have "file_zones s1 (inodes s p) zs" using z u(3) by (rule_tac file_zones_mono) blast+
  then have "file_zones s1 ((inodes s p)\<lparr>i_zones := (i_zones (inodes s p))[length zs := ?z]\<rparr>) (zs @ [?z])"
    using l u(1,2) zs by (intro file_zones_snoc) blast+
  then have "file_zones ?s' (inodes ?s' p) (zs @ [?z])" by (simp add: same file_zones_cong [of ?s' s1])
  moreover have "file_frame fd p {} s ?s'"
    using u(3) ar kept by (auto simp: file_frame_def same)
  moreover have "sectors ?s' zs = sectors s zs" using kept zs by (intro sectors_cong) simp
  moreover have "add_zone p (length zs) s = Some (Some ?z, ?s')" using i(2) l by (simp add: add_zone_def)
  ultimately show ?thesis
    using i u same by (rule_tac exI [of _ i], rule_tac exI [of _ ?z], rule_tac exI [of _ ?s'])
      (simp only: memory_only_simps set_zone_simps simp_thms)
qed


section \<open>Writing a new zone\<close>

text \<open>The bytes that a turn of the loop takes from the buffer.\<close>

definition turn_len :: "u32 \<Rightarrow> bool \<Rightarrow> nat" where
  "turn_len chunk_rest last_turn = (if 0 < chunk_rest \<and> last_turn then unat chunk_rest else 512)"

definition memory_left :: "u32 \<Rightarrow> fsys \<Rightarrow> bool" where
  "memory_left chunk_rest s \<longleftrightarrow> 0 < chunk_rest \<longrightarrow> fst (fs_malloc s) \<noteq> 0"

lemma memory_left_cong: "allocs s' = allocs s \<Longrightarrow> memory_left chunk_rest s' = memory_left chunk_rest s"
  by (cases "allocs s") (simp_all add: memory_left_def fs_malloc_def)

lemma write_zone_ok:
  assumes ok: "fs_ok s" and z: "zone_used s z" and cr: "chunk_rest < 512"
    and b: "fst c + turn_len chunk_rest lt \<le> length buf" and m: "memory_left chunk_rest s"
  shows "\<exists>s' pad. write_zone f chunk_rest z lt buf c s =
      Some (True, (fst c + turn_len chunk_rest lt, snd c + of_nat (turn_len chunk_rest lt)), s') \<and>
    fs_ok s' \<and> free_zones s' = free_zones s \<and> zone_used s' = zone_used s \<and> inodes s' = inodes s \<and>
    file_frame f p {z} s s' \<and> disk s' z = get_at (fst c) (turn_len chunk_rest lt) buf @ pad \<and>
    fd_pos (g_file_table s' f) = fd_pos (g_file_table s f) + of_nat (turn_len chunk_rest lt) \<and>
    (lt \<or> allocs s' = allocs s)"
proof -
  let ?n = "turn_len chunk_rest lt"
  have n: "?n \<le> 512" using cr by (simp add: turn_len_def word_less_nat_alt)
  define s0 where "s0 = (if 0 < chunk_rest \<and> lt then snd (fs_malloc s) else s)"
  define d where "d = (if 0 < chunk_rest \<and> lt then put_at 0 (get_at (fst c) ?n buf) (replicate 512 0) else get_at (fst c) ?n buf)"
  let ?s' = "upd_file f (\<lambda>e. e\<lparr>fd_pos := fd_pos e + of_nat ?n\<rparr>) (s0\<lparr>disk := (disk s0)(z := d)\<rparr>)"
  have ld: "length d = 512" using b n by (auto simp: d_def turn_len_def)
  have s0: "\<exists>as. s0 = s\<lparr>allocs := as\<rparr>"
    by (auto simp: s0_def fs_malloc_def split: list.split intro: exI [of _ "allocs s"] exI [of _ "[]"])
  then obtain as where as: "s0 = s\<lparr>allocs := as\<rparr>" by blast
  note zl = zone_used_lba [OF z]
  have "fs_ok s0" using ok as by simp
  from data_write [OF this _ ld] zl(1) as have w: "fs_ok ?s'" "inode_area ?s' = inode_area s" by simp_all
  have "free_zones ?s' = free_zones s" "zone_used ?s' = zone_used s"
    by (auto intro!: ext simp: free_zones_def zone_used_def zone_of_def as)
  moreover have "write_zone f chunk_rest z lt buf c s = Some (True, (fst c + ?n, snd c + of_nat ?n), ?s')"
  proof (cases "0 < chunk_rest \<and> lt")
    case True
    then show ?thesis
      using m ld zl(2) by (auto simp: write_zone_def memory_left_def s0_def d_def turn_len_def ide_write_1 advance_def
          split: prod.split)
  next
    case False
    then have "turn_len chunk_rest lt = 512" by (auto simp: turn_len_def)
    then show ?thesis
      using False ld zl(2) by (auto simp: write_zone_def s0_def d_def ide_write_1 advance_def)
  qed
  moreover have "file_frame f p {z} s ?s'" using w(2) calculation(2) by (auto simp: file_frame_def as)
  moreover have "\<exists>pad. disk ?s' z = get_at (fst c) ?n buf @ pad"
    by (simp add: d_def put_at_def)
  moreover have "lt \<or> allocs ?s' = allocs s" by (simp add: s0_def)
  moreover have "inodes ?s' = inodes s" "fd_pos (g_file_table ?s' f) = fd_pos (g_file_table s f) + of_nat ?n"
    by (simp_all add: as)
  ultimately show ?thesis using w(1) by blast
qed


lemma file_frame_fresh: "file_frame f p {z} s s' \<Longrightarrow> \<not> zone_used s z \<Longrightarrow> file_frame f p {} s s'"
  by (auto simp: file_frame_def)

definition write_turn where
  "write_turn f p chunk_rest k lt buf count c s = do {
     (z, s) \<leftarrow> add_zone p k s;
     case z of None \<Rightarrow> Some (False, c, s)
     | Some zone_lba \<Rightarrow> do { ASSERT (fst c \<le> unat count); write_zone f chunk_rest zone_lba lt buf c s }
   }"

lemma write_turn_ok:
  assumes ok: "fs_ok s" and fr: "free_zones s \<noteq> {}" and zs: "file_zones s (inodes s p) zs" "length zs < 12"
    and cr: "chunk_rest < 512" and b: "fst c + turn_len chunk_rest lt \<le> length buf" "fst c \<le> unat count"
    and m: "memory_left chunk_rest s"
  shows "\<exists>z s' i pad. write_turn f p chunk_rest (length zs) lt buf count c s =
      Some (True, (fst c + turn_len chunk_rest lt, snd c + of_nat (turn_len chunk_rest lt)), s') \<and>
    fs_ok s' \<and> i \<in> free_zones s \<and> free_zones s' = free_zones s - {i} \<and> file_zones s' (inodes s' p) (zs @ [z]) \<and>
    file_frame f p {} s s' \<and> sectors s' (zs @ [z]) = sectors s zs @ get_at (fst c) (turn_len chunk_rest lt) buf @ pad \<and>
    fd_pos (g_file_table s' f) = fd_pos (g_file_table s f) + of_nat (turn_len chunk_rest lt) \<and>
    (lt \<or> allocs s' = allocs s)"
proof -
  from add_zone_ok [OF ok fr zs, of f] obtain i z s1 where
    a: "i \<in> free_zones s" "add_zone p (length zs) s = Some (Some z, s1)" "fs_ok s1" "free_zones s1 = free_zones s - {i}"
    "file_zones s1 (inodes s1 p) (zs @ [z])" "file_frame f p {} s s1" "g_file_table s1 = g_file_table s"
    "allocs s1 = allocs s" "\<not> zone_used s z" "zone_used s1 z" "sectors s1 zs = sectors s zs" by blast
  have "memory_left chunk_rest s1" using m memory_left_cong [OF a(8)] by simp
  from write_zone_ok [OF a(3,10) cr b(1) this, of f p] obtain s' pad where
    w: "write_zone f chunk_rest z lt buf c s1 =
      Some (True, (fst c + turn_len chunk_rest lt, snd c + of_nat (turn_len chunk_rest lt)), s')"
    "fs_ok s'" "free_zones s' = free_zones s1" "zone_used s' = zone_used s1" "inodes s' = inodes s1"
    "file_frame f p {z} s1 s'" "disk s' z = get_at (fst c) (turn_len chunk_rest lt) buf @ pad"
    "fd_pos (g_file_table s' f) = fd_pos (g_file_table s1 f) + of_nat (turn_len chunk_rest lt)"
    "lt \<or> allocs s' = allocs s1" by blast
  have "z \<notin> set zs" using a(9) zs(1) by (auto simp: file_zones_def)
  then have "sectors s' zs = sectors s1 zs"
    using a(5) by (intro file_frame_sectors [OF w(6)]) (auto simp: file_zones_def)
  then have "sectors s' (zs @ [z]) = sectors s zs @ get_at (fst c) (turn_len chunk_rest lt) buf @ pad"
    using w(7) a(11) by simp
  moreover have "file_frame f p {} s s'"
    by (rule file_frame_fresh [OF file_frame_trans [OF file_frame_mono [OF a(6) empty_subsetI] w(6)] a(9)])
  moreover have "file_zones s' (inodes s' p) (zs @ [z])" using a(5) by (simp only: file_zones_cong [OF w(4)] w(5))
  moreover have "write_turn f p chunk_rest (length zs) lt buf count c s =
      Some (True, (fst c + turn_len chunk_rest lt, snd c + of_nat (turn_len chunk_rest lt)), s')"
    using a(2) w(1) b(2) by (simp add: write_turn_def ASSERT_bind)
  moreover have "fd_pos (g_file_table s' f) = fd_pos (g_file_table s f) + of_nat (turn_len chunk_rest lt)"
    using w(8) a(7) by simp
  moreover have "free_zones s' = free_zones s - {i}" "lt \<or> allocs s' = allocs s"
    using w(3,9) a(4,8) by simp_all
  ultimately show ?thesis using w(2) a(1) by blast
qed

lemma write_chunks_turn:
  "k < 140 \<Longrightarrow> all_zones ! k = 0 \<Longrightarrow> write_turn f p chunk_rest k (n = 0) buf count c s = Some (True, c', s') \<Longrightarrow>
    write_chunks (Suc n) stack f p chunk_rest all_zones k buf count c s =
    write_chunks n stack f p chunk_rest all_zones (Suc k) buf count c' s'"
  by (simp add: write_turn_def)

text \<open>The loop appends the rest of the buffer.\<close>

lemma write_chunks_append:
  assumes "fs_ok s" and "n \<le> card (free_zones s)" and "file_zones s (inodes s p) zs" and "length zs + n \<le> 12"
    and "chunk_rest < 512" and "memory_left chunk_rest s" and "unat count = length buf"
    and "\<forall>k. length zs \<le> k \<and> k < 140 \<longrightarrow> all_zones ! k = 0"
    and "length buf = fst c + (if n = 0 then 0 else 512 * (n - 1) + turn_len chunk_rest True)"
  shows "\<exists>new pad s'. write_chunks n stack f p chunk_rest all_zones (length zs) buf count c s =
      Some (True, (length buf, snd c + of_nat (length buf - fst c)), s') \<and> fs_ok s' \<and> length new = n \<and>
    file_zones s' (inodes s' p) (zs @ new) \<and> sectors s' (zs @ new) = sectors s zs @ drop (fst c) buf @ pad \<and>
    file_frame f p {} s s' \<and> fd_pos (g_file_table s' f) = fd_pos (g_file_table s f) + of_nat (length buf - fst c)"
  using assms
proof (induction n arbitrary: zs c s)
  case 0
  then show ?case
    by (intro exI [of _ "[]"] exI [of _ s]) (auto simp: file_frame_refl)
next
  case (Suc n)
  let ?l = "turn_len chunk_rest (n = 0)"
  have len: "length buf = fst c + ?l + (if n = 0 then 0 else 512 * (n - 1) + turn_len chunk_rest True)"
    using Suc.prems(9) by (cases n) (simp_all add: turn_len_def)
  have "free_zones s \<noteq> {}" using Suc.prems(2) by auto
  moreover have "length zs < 12" "fst c + ?l \<le> length buf" "fst c \<le> unat count"
    using Suc.prems(4,7) len by simp_all
  ultimately obtain z s1 i pad where
    w: "write_turn f p chunk_rest (length zs) (n = 0) buf count c s = Some (True, (fst c + ?l, snd c + of_nat ?l), s1)"
    "fs_ok s1" "i \<in> free_zones s" "free_zones s1 = free_zones s - {i}" "file_zones s1 (inodes s1 p) (zs @ [z])"
    "file_frame f p {} s s1" "sectors s1 (zs @ [z]) = sectors s zs @ get_at (fst c) ?l buf @ pad"
    "fd_pos (g_file_table s1 f) = fd_pos (g_file_table s f) + of_nat ?l" "n = 0 \<or> allocs s1 = allocs s"
    using write_turn_ok [OF Suc.prems(1) _ Suc.prems(3) _ Suc.prems(5) _ _ Suc.prems(6), where lt = "n = 0" and buf = buf and f = f] by blast
  have cs: "write_chunks (Suc n) stack f p chunk_rest all_zones (length zs) buf count c s =
      write_chunks n stack f p chunk_rest all_zones (length (zs @ [z])) buf count (fst c + ?l, snd c + of_nat ?l) s1"
    using Suc.prems(4,8) write_chunks_turn [OF _ _ w(1)] by simp
  show ?case
  proof (cases "n = 0")
    case True
    have "length buf - fst c = ?l" using len True by simp
    moreover have "sectors s1 (zs @ [z]) = sectors s zs @ drop (fst c) buf @ pad"
      using w(7) len True by (simp add: get_at_def)
    ultimately show ?thesis
      using w cs True len by (intro exI [of _ "[z]"] exI [of _ pad] exI [of _ s1]) simp
  next
    case False
    have "pad = []"
    proof -
      have "length (sectors s1 (zs @ [z])) = length (sectors s zs @ get_at (fst c) ?l buf @ pad)" using w(7) by simp
      moreover have "length (get_at (fst c) ?l buf) = 512" using len False by (simp add: turn_len_def)
      ultimately show ?thesis
        using fs_okD(4) [OF w(2)] fs_okD(4) [OF Suc.prems(1)] length_sectors [of s1] length_sectors [of s] by simp
    qed
    have "memory_left chunk_rest s1"
      using Suc.prems(6) w(9) False memory_left_cong by blast
    moreover have "n \<le> card (free_zones s1)" using w(3,4) Suc.prems(2) by simp
    ultimately obtain new pad' s' where
      r: "write_chunks n stack f p chunk_rest all_zones (length (zs @ [z])) buf count (fst c + ?l, snd c + of_nat ?l) s1 =
        Some (True, (length buf, snd c + of_nat ?l + of_nat (length buf - (fst c + ?l))), s')" "fs_ok s'" "length new = n"
      "file_zones s' (inodes s' p) ((zs @ [z]) @ new)"
      "sectors s' ((zs @ [z]) @ new) = sectors s1 (zs @ [z]) @ drop (fst c + ?l) buf @ pad'" "file_frame f p {} s1 s'"
      "fd_pos (g_file_table s' f) = fd_pos (g_file_table s1 f) + of_nat (length buf - (fst c + ?l))"
      using Suc.IH [OF w(2) _ w(5) _ Suc.prems(5) _ Suc.prems(7), of "(fst c + ?l, snd c + of_nat ?l)"]
        Suc.prems(4,8) len by auto
    have "get_at (fst c) ?l buf @ drop (fst c + ?l) buf = drop (fst c) buf"
      by (metis append_take_drop_id drop_drop get_at_def add.commute)
    then have dd: "sectors s zs @ drop (fst c) buf @ pad' =
        (sectors s zs @ get_at (fst c) ?l buf @ pad) @ drop (fst c + ?l) buf @ pad'"
      using \<open>pad = []\<close> by (metis append.assoc append_Nil2)
    have "sectors s' (zs @ z # new) = sectors s zs @ drop (fst c) buf @ pad'"
      using r(5) unfolding w(7) dd by simp
    moreover have "of_nat ?l + of_nat (length buf - (fst c + ?l)) = (of_nat (length buf - fst c) :: u32)"
      using len by (simp flip: of_nat_add)
    ultimately show ?thesis
      using cs r w(8) file_frame_trans [OF w(6) r(6)]
      by (intro exI [of _ "z # new"] exI [of _ pad'] exI [of _ s']) (simp add: add.assoc)
  qed
qed


section \<open>Filling the last zone and flushing the inode\<close>

lemma fill_zone_ok:
  assumes ok: "fs_ok s" and z: "zone_used s z" and r: "unat r + unat m \<le> 512" and m: "unat m \<le> length buf"
  shows "\<exists>s'. fill_zone f z (unat r) m buf s = Some ((unat m, m), s') \<and> fs_ok s' \<and> free_zones s' = free_zones s \<and>
    zone_used s' = zone_used s \<and> inodes s' = inodes s \<and> file_frame f p {z} s s' \<and>
    disk s' z = put_at (unat r) (take (unat m) buf) (disk s z) \<and>
    fd_pos (g_file_table s' f) = fd_pos (g_file_table s f) + m \<and> allocs s' = allocs s"
proof -
  let ?d = "put_at (unat r) (take (unat m) buf) (disk s z)"
  let ?s' = "upd_file f (\<lambda>e. e\<lparr>fd_pos := fd_pos e + m\<rparr>) (s\<lparr>disk := (disk s)(z := ?d)\<rparr>)"
  note zl = zone_used_lba [OF z]
  have ld: "length ?d = 512" using fs_okD(4) [OF ok] r m by simp
  have d: "unat (s_data_start_lba (sb s)) \<le> unat z" using zl(1) by simp
  note w = data_write [OF ok d ld]
  have "free_zones ?s' = free_zones s" and u: "zone_used ?s' = zone_used s"
    by (auto intro!: ext simp: free_zones_def zone_used_def zone_of_def)
  moreover have "fill_zone f z (unat r) m buf s = Some ((unat m, m), ?s')"
    using zl(2) ld by (simp add: fill_zone_def ide_read_1 ide_write_1 advance_def get_at_def)
  moreover have "file_frame f p {z} s ?s'" using w(2) u by (auto simp: file_frame_def)
  ultimately show ?thesis using w by (intro exI [of _ ?s']) simp
qed

lemma flush_inode_data:
  assumes ok: "fs_ok s" and nr: "i_num i < s_ninodes (sb s)" and i: "inode_ok i"
  shows "\<exists>s'. flush_inode i s = Some s' \<and> s' = s\<lparr>disk := disk s'\<rparr> \<and> fs_ok s' \<and> zone_used s' = zone_used s \<and>
    (\<forall>k < unat (s_ninodes (sb s)). disk_inode s' k =
       (if k = unat (i_num i) then i\<lparr>i_count := 0, i_lock := 0\<rparr> else disk_inode s k)) \<and>
    (\<forall>z. zone_used s z \<longrightarrow> disk s' z = disk s z)"
proof -
  note g = fs_okD [OF ok]
  from flush_inode_ok [OF g(1,2) nr i] obtain s' where
    s': "flush_inode i s = Some s'" and e: "s' = s\<lparr>disk := disk s'\<rparr>" and d: "disk_ok s'"
    and k: "\<forall>k < unat (s_ninodes (sb s)). disk_inode s' k =
       (if k = unat (i_num i) then i\<lparr>i_count := 0, i_lock := 0\<rparr> else disk_inode s k)"
    and out: "\<forall>a. unat (s_inode_table_sz (sb s)) \<le> unat (a - s_inode_table_lba (sb s)) \<longrightarrow> disk s' a = disk s a" by blast
  have same: "sb s' = sb s" "zone_bitmap s' = zone_bitmap s" by (subst e, simp)+
  have lim: "unat (s_inode_table_lba (sb s)) + unat (s_inode_table_sz (sb s)) \<le> 163839"
    using g(1) unat_max_lba unfolding geometry_ok_def word_le_nat_alt by linarith
  have "read_sectors (unat (s_zmap_sz (sb s))) (s_zmap_lba (sb s)) (disk s') =
      read_sectors (unat (s_zmap_sz (sb s))) (s_zmap_lba (sb s)) (disk s)"
  proof (rule read_sectors_cong)
    fix j assume j: "j < unat (s_zmap_sz (sb s))"
    let ?a = "s_zmap_lba (sb s) + of_nat j"
    have l: "unat (s_zmap_lba (sb s)) + j < unat (s_inode_table_lba (sb s))"
      using g(1) j by (simp add: geometry_ok_def)
    then have u: "unat ?a = unat (s_zmap_lba (sb s)) + j"
      using lim by (subst unat_add_less) (simp_all add: unat_of_nat_32)
    have "unat (?a - s_inode_table_lba (sb s)) = unat ?a + 2 ^ 32 - unat (s_inode_table_lba (sb s))"
      using l u by (simp add: unat_sub_if_size word_size)
    then have "unat (s_inode_table_sz (sb s)) \<le> unat (?a - s_inode_table_lba (sb s))" using lim by simp
    then show "disk s' ?a = disk s ?a" using out by blast
  qed
  then have z: "zmap_synced s'" using g(3) by (simp add: zmap_synced_def same)
  have f: "free_zones s' = free_zones s" and u: "zone_used s' = zone_used s"
    by (auto intro!: ext simp: free_zones_def zone_used_def zone_of_def same)
  have "fs_ok s'" using ok z d f by (simp add: fs_ok_def same)
  moreover have "disk s' z = disk s z" if "zone_used s z" for z
    using out outside_zmap(2) [OF g(1), of z] zone_used_lba(1) [OF that] by simp
  ultimately show ?thesis using s' e k u by blast
qed

section \<open>Files\<close>

text \<open>A file of at most 12 zones: exactly the zones its size needs. Its content is the first
  \<open>i_size\<close> bytes.\<close>

definition zones_for :: "nat \<Rightarrow> nat" where
  "zones_for n = (n + 511) div 512"

definition file_ok :: "fsys \<Rightarrow> inode \<Rightarrow> u32 list \<Rightarrow> bool" where
  "file_ok s i zs \<longleftrightarrow> file_zones s i zs \<and> length zs = zones_for (unat (i_size i))"

definition content :: "fsys \<Rightarrow> inode \<Rightarrow> u32 list \<Rightarrow> u8 list" where
  "content s i zs = take (unat (i_size i)) (sectors s zs)"

lemma zones_for_eq: "zones_for n = n div 512 + (if n mod 512 = 0 then 0 else 1)"
proof -
  have "n + 511 = 512 * (n div 512) + (n mod 512 + 511)" by (subst mult_div_mod_eq [symmetric, of n 512]) simp
  then have "zones_for n = (n div 512 * 512 + (n mod 512 + 511)) div 512" by (simp add: zones_for_def mult.commute)
  also have "\<dots> = n div 512 + (n mod 512 + 511) div 512" by (rule div_mult_self3) simp
  also have "(n mod 512 + 511) div 512 = (if n mod 512 = 0 then 0 else 1)"
    using mod_less_divisor [of 512 n] by (auto intro: div_nat_eqI)
  finally show ?thesis .
qed

lemma zones_for_size:
  "n \<le> 512 * zones_for n" "n mod 512 = 0 \<Longrightarrow> n = 512 * zones_for n"
  "n mod 512 \<noteq> 0 \<Longrightarrow> 0 < zones_for n \<and> n = 512 * (zones_for n - 1) + n mod 512"
  "zones_for n \<le> 12 \<Longrightarrow> n \<le> 6144"
proof -
  have n: "n = 512 * (n div 512) + n mod 512" by (rule mult_div_mod_eq [symmetric])
  have z: "zones_for n = n div 512 + (if n mod 512 = 0 then 0 else 1)" by (rule zones_for_eq)
  have r: "n mod 512 < 512" by simp
  show "n \<le> 512 * zones_for n" "n mod 512 = 0 \<Longrightarrow> n = 512 * zones_for n"
    "n mod 512 \<noteq> 0 \<Longrightarrow> 0 < zones_for n \<and> n = 512 * (zones_for n - 1) + n mod 512"
    "zones_for n \<le> 12 \<Longrightarrow> n \<le> 6144"
    using n r unfolding z by (auto split: if_splits)
qed

lemma file_ok_size:
  assumes "file_ok s i zs"
  shows "unat (i_size i) \<le> 6144" "unat (i_size i) \<le> 512 * length zs"
    "unat (i_size i) mod 512 = 0 \<Longrightarrow> unat (i_size i) = 512 * length zs"
    "unat (i_size i) mod 512 \<noteq> 0 \<Longrightarrow> zs \<noteq> [] \<and> unat (i_size i) = 512 * (length zs - 1) + unat (i_size i) mod 512"
  using assms zones_for_size [of "unat (i_size i)"] by (auto simp: file_ok_def file_zones_def)

lemma no_table: "file_zones s i zs \<Longrightarrow> i_zones i ! 12 = 0"
proof -
  assume "file_zones s i zs"
  then have "length zs \<le> 12" "i_zones i = zs @ replicate (13 - length zs) 0" by (simp_all add: file_zones_def)
  then show ?thesis by (simp add: nth_append)
qed

lemma all_zones_of_file:
  assumes "file_zones s i zs"
  shows "inode_all_zones i s' = Some (zs @ replicate (140 - length zs) 0)"
proof -
  have l: "length zs \<le> 12" and z: "i_zones i = zs @ replicate (13 - length zs) 0" and nz: "\<forall>z \<in> set zs. z \<noteq> 0"
    using assms zone_used_lba(3) by (auto simp: file_zones_def)
  have "takeWhile (\<lambda>z. z \<noteq> 0) (zs @ replicate k 0) = zs" for k
    using nz by (cases k) (simp_all add: takeWhile_eq_all_conv)
  moreover have "take 12 (i_zones i) = zs @ replicate (12 - length zs) 0" using l z by simp
  moreover have "i_zones i ! 12 = 0" using l z by (simp add: nth_append)
  moreover have "replicate (12 - length zs) 0 @ replicate 128 0 = (replicate (140 - length zs) 0 :: u32 list)"
    using l by (simp flip: replicate_add)
  ultimately show ?thesis by (simp add: inode_all_zones_def)
qed


lemma DIV_ROUND_UP_512:
  assumes "unat n \<le> 8192"
  shows "unat (DIV_ROUND_UP n 512) = zones_for (unat n)"
proof -
  have "unat (n + 511) = unat n + 511" using assms by (subst unat_add_less) simp_all
  moreover have "n + 512 - 1 = n + 511" by simp
  ultimately show ?thesis unfolding DIV_ROUND_UP_def by (simp only: unat_div_word zones_for_def) simp
qed

text \<open>Where writing at the end starts.\<close>

lemma write_start_end:
  assumes f: "file_ok s i zs" and a: "all_zones = zs @ replicate (140 - length zs) 0"
  shows "write_start (i_size i) (i_size i) all_zones = Some (length zs, i_size i mod 512)"
proof -
  have l: "length zs \<le> 12" and nz: "\<forall>z \<in> set zs. z \<noteq> 0"
    using f zone_used_lba(3) by (auto simp: file_ok_def file_zones_def)
  have "unat (i_size i) \<le> 8192" using file_ok_size(1) [OF f] by simp
  then have d: "unat (DIV_ROUND_UP (i_size i) 512) = length zs"
    using f by (simp add: DIV_ROUND_UP_512 file_ok_def)
  have "takeWhile (\<lambda>z. z \<noteq> 0) (zs @ replicate (140 - length zs) 0) = zs"
    using nz l by (cases "140 - length zs") (simp_all add: takeWhile_eq_all_conv)
  moreover have "all_zones ! length zs = 0" using l by (simp add: a nth_append)
  ultimately show ?thesis using l by (simp add: write_start_def d a)
qed

text \<open>The bytes that go into the last zone in use.\<close>

definition fill_len :: "nat \<Rightarrow> nat \<Rightarrow> nat" where
  "fill_len r n = (if r = 0 then 0 else min n (512 - r))"

lemma put_at_end: "r + length bs \<le> length d \<Longrightarrow> take (r + length bs) (put_at r bs d) = take r d @ bs"
  by (simp add: put_at_def)



lemma fill_last:
  fixes r m :: u32
  assumes ok: "fs_ok s" and f: "file_ok s (inodes s p) zs" and r: "unat r = unat (i_size (inodes s p)) mod 512" "r \<noteq> 0"
    and m: "unat m = fill_len (unat r) (length buf)"
  shows "\<exists>s'. fill_zone fd (last zs) (unat r) m buf s = Some ((unat m, m), s') \<and> fs_ok s' \<and>
    free_zones s' = free_zones s \<and> zone_used s' = zone_used s \<and> inodes s' = inodes s \<and> file_frame fd p (set zs) s s' \<and>
    take (unat (i_size (inodes s p)) + unat m) (sectors s' zs) = content s (inodes s p) zs @ take (unat m) buf \<and>
    fd_pos (g_file_table s' fd) = fd_pos (g_file_table s fd) + m \<and> allocs s' = allocs s"
proof -
  let ?i = "inodes s p"
  have r0: "unat r \<noteq> 0" using r(2) word_eq_unat32 [of r 0] by simp
  then have sz: "zs \<noteq> []" "unat (i_size ?i) = 512 * (length zs - 1) + unat r"
    using file_ok_size(4) [OF f] r(1) by simp_all
  define ys z where "ys = butlast zs" and "z = last zs"
  have zs: "zs = ys @ [z]" using sz(1) by (simp add: ys_def z_def)
  have z: "zone_used s z" "z \<notin> set ys" using f by (simp_all add: file_ok_def file_zones_def zs)
  have rm: "unat r + unat m \<le> 512" "unat m \<le> length buf"
    using m r(1) r0 mod_less_divisor [of 512 "unat (i_size ?i)"] by (auto simp: fill_len_def min_def simp del: mod_less_divisor)
  from fill_zone_ok [OF ok z(1) rm] obtain s' where
    s': "fill_zone fd z (unat r) m buf s = Some ((unat m, m), s')" "fs_ok s'" "free_zones s' = free_zones s"
    "zone_used s' = zone_used s" "inodes s' = inodes s" "file_frame fd p {z} s s'"
    "disk s' z = put_at (unat r) (take (unat m) buf) (disk s z)"
    "fd_pos (g_file_table s' fd) = fd_pos (g_file_table s fd) + m" "allocs s' = allocs s" by blast
  have "sectors s' ys = sectors s ys"
    using f z(2) by (intro file_frame_sectors [OF s'(6)]) (auto simp: file_ok_def file_zones_def zs)
  moreover have "length (sectors s ys) = 512 * (length zs - 1)"
    by (subst length_sectors) (simp_all add: fs_okD(4) [OF ok] zs)
  moreover have "take (unat r + unat m) (put_at (unat r) (take (unat m) buf) (disk s z)) =
      take (unat r) (disk s z) @ take (unat m) buf"
    using put_at_end [of "unat r" "take (unat m) buf" "disk s z"] rm fs_okD(4) [OF ok] by (simp add: min_absorb2)
  ultimately have "take (unat (i_size ?i) + unat m) (sectors s' zs) = content s ?i zs @ take (unat m) buf"
    by (simp add: content_def sz(2) zs s'(7))
  moreover have "file_frame fd p (set zs) s s'" by (rule file_frame_mono [OF s'(6)]) (simp add: zs)
  ultimately show ?thesis using s' unfolding z_def by blast
qed

text \<open>The number of turns and the length of the last one.\<close>

lemma turns_length:
  assumes "unat chunk_rest = t mod 512"
  shows "t = (if zones_for t = 0 then 0 else 512 * (zones_for t - 1) + turn_len chunk_rest True)"
proof -
  have t: "t = 512 * (t div 512) + t mod 512" by (rule mult_div_mod_eq [symmetric])
  have "0 < chunk_rest \<longleftrightarrow> t mod 512 \<noteq> 0" using assms by (simp add: word_less_nat_alt)
  then show ?thesis using t assms by (auto simp: zones_for_eq turn_len_def)
qed

lemma zones_for_split:
  assumes "m = fill_len (sz mod 512) n" "m \<le> n"
  shows "zones_for (sz + n) = zones_for sz + zones_for (n - m)"
    and "m < n \<Longrightarrow> sz + m = 512 * zones_for sz"
proof -
  obtain q r where q: "q = sz div 512" and r: "r = sz mod 512" by blast
  have s: "sz = 512 * q + r" "r < 512"
    unfolding q r by (simp_all only: mult_div_mod_eq mod_less_divisor zero_less_numeral)
  have z: "zones_for sz = (if r = 0 then q else q + 1)" unfolding q r by (simp add: zones_for_eq)
  have m: "m = fill_len r n" using assms(1) r by simp
  have shift: "zones_for (512 * q + k) = q + zones_for k" for q k
    by (simp add: zones_for_def add.assoc)
  have small: "zones_for k = 1" if "0 < k" "k \<le> 512" for k
    using that by (auto simp: zones_for_def intro!: div_nat_eqI)
  consider "r = 0" | "0 < r" "n \<le> 512 - r" | "0 < r" "512 - r < n" by linarith
  then have "zones_for (sz + n) = zones_for sz + zones_for (n - m) \<and> (m < n \<longrightarrow> sz + m = 512 * zones_for sz)"
  proof cases
    case 1
    then show ?thesis using m shift [of q n] s z by (simp add: fill_len_def)
  next
    case 2
    have "zones_for (sz + n) = q + 1"
      using shift [of q "r + n"] small [of "r + n"] 2 s by (simp add: add.assoc)
    then show ?thesis using 2 m z by (simp add: fill_len_def zones_for_def)
  next
    case 3
    then have m: "m = 512 - r" using m by (simp add: fill_len_def)
    have "sz + n = 512 * (q + 1) + (n - m)" using m s 3 by simp
    then have "zones_for (sz + n) = q + 1 + zones_for (n - m)" by (simp only: shift)
    then show ?thesis using z m s 3(1) by simp
  qed
  then show "zones_for (sz + n) = zones_for sz + zones_for (n - m)" "m < n \<Longrightarrow> sz + m = 512 * zones_for sz" by blast+
qed


lemma write_plan_ok:
  fixes rest_sz count :: u32
  assumes r: "unat rest_sz = r" "r < 512" and n: "unat count = n" "n \<le> 6144"
  shows "unat (snd (write_plan rest_sz count)) = fill_len r n"
    and "unat (fst (write_plan rest_sz count)) = zones_for (n - fill_len r n)"
    and "unat ((count - snd (write_plan rest_sz count)) mod 512) = (n - fill_len r n) mod 512"
proof -
  have u: "unat (512 - rest_sz) = 512 - r" using r by (subst unat_sub_word) simp_all
  have le: "count \<le> 512 - rest_sz \<longleftrightarrow> n \<le> 512 - r" using n u by (simp add: word_le_nat_alt)
  have r0: "rest_sz = 0 \<longleftrightarrow> r = 0" using r word_eq_unat32 [of rest_sz 0] by simp
  show need: "unat (snd (write_plan rest_sz count)) = fill_len r n"
    using n u le r0 by (auto simp: write_plan_def fill_len_def)
  have "fill_len r n \<le> n" by (simp add: fill_len_def)
  then have d: "unat (count - snd (write_plan rest_sz count)) = n - fill_len r n"
    using n need by (subst unat_sub_word) (simp_all)
  then show "unat ((count - snd (write_plan rest_sz count)) mod 512) = (n - fill_len r n) mod 512"
    by (simp add: unat_mod_word)
  show "unat (fst (write_plan rest_sz count)) = zones_for (n - fill_len r n)"
  proof (cases "rest_sz = 0 \<or> \<not> count \<le> 512 - rest_sz")
    case True
    then have "fst (write_plan rest_sz count) = DIV_ROUND_UP (count - snd (write_plan rest_sz count)) 512"
      by (auto simp: write_plan_def)
    moreover have "unat (count - snd (write_plan rest_sz count)) \<le> 8192" using d n by simp
    ultimately show ?thesis using d by (simp add: DIV_ROUND_UP_512)
  next
    case False
    then show ?thesis using le r0 by (simp add: write_plan_def fill_len_def zones_for_def)
  qed
qed

text \<open>The data phase of a write at the end.\<close>

lemma write_data:
  fixes rest_sz count :: u32
  assumes ok: "fs_ok s" and f: "file_ok s (inodes s p) zs" and n: "unat count = length buf"
    "unat (i_size (inodes s p)) + length buf \<le> 6144"
    and free: "zones_for (unat (i_size (inodes s p)) + length buf) - length zs \<le> card (free_zones s)"
    and mem: "fst (fs_malloc s) \<noteq> 0"
    and a: "all_zones = zs @ replicate (140 - length zs) 0" and rest: "rest_sz = i_size (inodes s p) mod 512"
    and plan: "write_plan rest_sz count = (chunk_cnt, need)"
  shows "\<exists>c s1 new s'. (if rest_sz \<noteq> 0 then if length zs = 0 then None
        else fill_zone fd (all_zones ! (length zs - 1)) (unat rest_sz) need buf s else Some ((0, 0), s)) = Some (c, s1) \<and>
    write_chunks (unat chunk_cnt) stack fd p ((count - need) mod 512) all_zones (length zs) buf count c s1 =
      Some (True, (length buf, count), s') \<and> fs_ok s' \<and> file_zones s' (inodes s' p) (zs @ new) \<and>
    length (zs @ new) = zones_for (unat (i_size (inodes s p)) + length buf) \<and>
    take (unat (i_size (inodes s p)) + length buf) (sectors s' (zs @ new)) = content s (inodes s p) zs @ buf \<and>
    file_frame fd p (set zs) s s' \<and> fd_pos (g_file_table s' fd) = fd_pos (g_file_table s fd) + count"
proof -
  define sz m where "sz = unat (i_size (inodes s p))" and "m = fill_len (sz mod 512) (length buf)"
  have r: "unat rest_sz = sz mod 512" by (simp add: rest sz_def unat_mod_word)
  have len: "length zs = zones_for sz" using f by (simp add: file_ok_def sz_def)
  have "length buf \<le> 6144" using n(2) by simp
  note pl = write_plan_ok [OF r _ n(1) this]
  have need: "unat need = m" "unat chunk_cnt = zones_for (length buf - m)"
    "unat ((count - need) mod 512) = (length buf - m) mod 512"
    using pl plan by (simp_all add: m_def)
  have mle: "m \<le> length buf" by (simp add: m_def fill_len_def)
  note split = zones_for_split [OF m_def mle]
  have "\<exists>s1. (if rest_sz \<noteq> 0 then if length zs = 0 then None
        else fill_zone fd (all_zones ! (length zs - 1)) (unat rest_sz) need buf s else Some ((0, 0), s)) = Some ((m, need), s1) \<and>
      fs_ok s1 \<and> free_zones s1 = free_zones s \<and> zone_used s1 = zone_used s \<and> inodes s1 = inodes s \<and>
      file_frame fd p (set zs) s s1 \<and> take (sz + m) (sectors s1 zs) = content s (inodes s p) zs @ take m buf \<and>
      fd_pos (g_file_table s1 fd) = fd_pos (g_file_table s fd) + need \<and> allocs s1 = allocs s"
  proof (cases "rest_sz = 0")
    case True
    then have "m = 0" using r by (simp add: m_def fill_len_def)
    then have "need = 0" using need(1) word_eq_unat32 [of need 0] by simp
    then show ?thesis using True ok \<open>m = 0\<close> by (simp add: file_frame_refl content_def sz_def)
  next
    case False
    have "zs \<noteq> []" "all_zones ! (length zs - 1) = last zs"
      using file_ok_size(4) [OF f] False r word_eq_unat32 [of rest_sz 0] by (auto simp: a nth_append last_conv_nth sz_def)
    then show ?thesis
      using fill_last [OF ok f _ False, of need buf fd] need(1) r False by (auto simp: m_def sz_def)
  qed
  then obtain s1 where s1: "(if rest_sz \<noteq> 0 then if length zs = 0 then None
        else fill_zone fd (all_zones ! (length zs - 1)) (unat rest_sz) need buf s else Some ((0, 0), s)) = Some ((m, need), s1)"
      "fs_ok s1" "free_zones s1 = free_zones s" "zone_used s1 = zone_used s" "inodes s1 = inodes s"
      "file_frame fd p (set zs) s s1" "take (sz + m) (sectors s1 zs) = content s (inodes s p) zs @ take m buf"
      "fd_pos (g_file_table s1 fd) = fd_pos (g_file_table s fd) + need" "allocs s1 = allocs s" by blast
  have fz: "file_zones s1 (inodes s1 p) zs" using f s1(5) file_zones_cong [OF s1(4)] by (simp add: file_ok_def)
  have tot: "zones_for (sz + length buf) = length zs + zones_for (length buf - m)" using split(1) len by simp
  have "zones_for (sz + length buf) \<le> zones_for 6144"
    using n(2) unfolding zones_for_def sz_def by (intro div_le_mono) simp
  then have lim: "length zs + unat chunk_cnt \<le> 12" using tot need(2) by (simp add: zones_for_def)
  have cr: "(count - need) mod 512 < 512" by (simp add: word_less_nat_alt unat_mod_word)
  have ml: "memory_left ((count - need) mod 512) s1"
    using mem s1(9) by (simp add: memory_left_def fs_malloc_def split: list.splits)
  have card: "unat chunk_cnt \<le> card (free_zones s1)" using free tot need(2) s1(3) by (simp add: sz_def)
  have rest_len: "length buf = fst (m, need) + (if unat chunk_cnt = 0 then 0
      else 512 * (unat chunk_cnt - 1) + turn_len ((count - need) mod 512) True)"
    using turns_length [OF need(3)] mle unfolding need(2) fst_conv by linarith
  have zero: "\<forall>k. length zs \<le> k \<and> k < 140 \<longrightarrow> all_zones ! k = 0" by (auto simp: a nth_append)
  from write_chunks_append [OF s1(2) card fz lim cr ml n(1) zero rest_len, of stack fd] obtain new pad s' where
    w: "write_chunks (unat chunk_cnt) stack fd p ((count - need) mod 512) all_zones (length zs) buf count (m, need) s1 =
      Some (True, (length buf, need + of_nat (length buf - m)), s')" "fs_ok s'" "length new = unat chunk_cnt"
    "file_zones s' (inodes s' p) (zs @ new)" "sectors s' (zs @ new) = sectors s1 zs @ drop m buf @ pad"
    "file_frame fd p {} s1 s'" "fd_pos (g_file_table s' fd) = fd_pos (g_file_table s1 fd) + of_nat (length buf - m)" by auto
  have "need = of_nat m" "count = of_nat (length buf)" by (simp_all flip: need(1) n(1))
  then have sum: "need + of_nat (length buf - m) = count" using mle by (simp flip: of_nat_add)
  have l1: "length (sectors s1 zs) = 512 * zones_for sz"
    by (subst length_sectors) (simp_all add: fs_okD(4) [OF s1(2)] len)
  have "take (sz + length buf) (sectors s' (zs @ new)) = content s (inodes s p) zs @ buf"
  proof (cases "m < length buf")
    case True
    have "sectors s1 zs = content s (inodes s p) zs @ take m buf" using s1(7) l1 split(2) [OF True] by simp
    then have "take (sz + length buf) (sectors s' (zs @ new)) =
        take (sz + length buf) ((content s (inodes s p) zs @ buf) @ pad)"
      unfolding w(5) by (simp only: append.assoc append_take_drop_id append_take_drop_id [of m buf, unfolded append.assoc]
          append.assoc [of "take m buf" "drop m buf" pad, symmetric])
    moreover have "length (content s (inodes s p) zs) = sz"
      using fs_okD(4) [OF ok] file_ok_size(2) [OF f] length_sectors [of s zs] by (simp add: content_def sz_def)
    ultimately show ?thesis by simp
  next
    case False
    then have "m = length buf" using mle by simp
    then have "sz + length buf \<le> 512 * zones_for sz"
      using zones_for_size(1) [of "sz + length buf"] split(1) by (simp add: zones_for_def)
    then show ?thesis using w(5) s1(7) l1 \<open>m = length buf\<close> by simp
  qed
  moreover have "file_frame fd p (set zs) s s'"
    by (rule file_frame_trans [OF s1(6) file_frame_mono [OF w(6) empty_subsetI]])
  ultimately show ?thesis
    using s1(1,8) w(1-4,7) sum tot need(2) by (intro exI [of _ "(m, need)"] exI [of _ s1] exI [of _ new] exI [of _ s'])
      (simp add: sz_def add.assoc)
qed


text \<open>The state behind a write: what the frame allows, the new inode and the sectors on disk.\<close>

lemma frame_state:
  assumes f: "file_frame f p Z (s\<lparr>allocs := as\<rparr>) s2" and e: "e = (inodes s p)\<lparr>i_zones := i_zones e, i_size := n\<rparr>"
    and s': "s' = s2\<lparr>inodes := (inodes s2)(p := e), disk := disk s'\<rparr>" and pos: "fd_pos (g_file_table s2 f) = n"
  shows "s' = s\<lparr>disk := disk s', zone_bitmap := zone_bitmap s', allocs := allocs s',
      inodes := (inodes s)(p := (inodes s p)\<lparr>i_zones := i_zones (inodes s' p), i_size := n\<rparr>),
      g_file_table := (g_file_table s)(f := (g_file_table s f)\<lparr>fd_pos := n\<rparr>)\<rparr>"
proof -
  have same: "inodes s' = (inodes s2)(p := e)" "g_file_table s' = g_file_table s2" by (subst s', simp)+
  have "inodes s2 q = inodes s q" if "q \<noteq> p" for q
  proof -
    have "inodes s2 = (inodes s)(p := (inodes s p)\<lparr>i_zones := i_zones (inodes s2 p)\<rparr>)"
      using f unfolding file_frame_def by simp
    then show ?thesis using that by (metis fun_upd_other)
  qed
  then have i: "inodes s' = (inodes s)(p := (inodes s p)\<lparr>i_zones := i_zones (inodes s' p), i_size := n\<rparr>)"
    unfolding same using e by (auto simp: fun_eq_iff)
  have g: "g_file_table s' = (g_file_table s)(f := (g_file_table s f)\<lparr>fd_pos := n\<rparr>)"
    using f pos unfolding same file_frame_def by simp
  have rest: "sb s' = sb s" "ks s' = ks s" "open_inodes s' = open_inodes s" "part_start_lba s' = part_start_lba s"
    "part_sec_cnt s' = part_sec_cnt s" "inode_bitmap s' = inode_bitmap s" "root_dir s' = root_dir s" "dirs s' = dirs s"
    "g_ft_lock s' = g_ft_lock s"
    using f by (subst s', simp add: file_frame_def)+
  show ?thesis by (rule fsys.equality) (simp_all add: rest g i [symmetric])
qed

text \<open>C9. Writing at the end of a file whose data lies in direct zones, up to 6144 bytes with what is
  written, appends: the call writes all bytes, the content afterwards is the old content followed by the
  buffer, and the file has exactly the zones its new size needs. In memory the file's inode changes in
  its zones and its size, the open file in its position, and nothing else but the zone bitmap and the
  memory taken; mode and number of the inode, all other inodes and open files and the directories stay.
  On disk the inode is the one in memory, and every other inode and every other zone in use keeps its
  content. The zones, the position and the buffer may have any alignment.\<close>

theorem file_append:
  assumes ok: "fs_ok s" and p: "p = fd_inode (g_file_table s f)" and nr: "i_num (inodes s p) < s_ninodes (sb s)"
    and fi: "file_ok s (inodes s p) zs" and pos: "fd_pos (g_file_table s f) = i_size (inodes s p)"
    and n: "unat (i_size (inodes s p)) + length buf \<le> 6144"
    and free: "zones_for (unat (i_size (inodes s p)) + length buf) - length zs \<le> card (free_zones s)"
    and mem: "allocs s = a # b # as" "a \<noteq> 0" "b \<noteq> 0"
  shows "\<exists>s' new. file_write stack f buf (of_nat (length buf)) s = Some (of_nat (length buf), s') \<and> fs_ok s' \<and>
    file_ok s' (inodes s' p) (zs @ new) \<and>
    content s' (inodes s' p) (zs @ new) = content s (inodes s p) zs @ buf \<and>
    s' = s\<lparr>disk := disk s', zone_bitmap := zone_bitmap s', allocs := allocs s',
      inodes := (inodes s)(p := (inodes s p)\<lparr>i_zones := i_zones (inodes s' p), i_size := i_size (inodes s p) + of_nat (length buf)\<rparr>),
      g_file_table := (g_file_table s)(f := (g_file_table s f)\<lparr>fd_pos := i_size (inodes s p) + of_nat (length buf)\<rparr>)\<rparr> \<and>
    (\<forall>k < unat (s_ninodes (sb s)). disk_inode s' k =
      (if k = unat (i_num (inodes s p)) then (inodes s' p)\<lparr>i_count := 0, i_lock := 0\<rparr> else disk_inode s k)) \<and>
    (\<forall>z. zone_used s z \<and> z \<notin> set zs \<longrightarrow> zone_used s' z \<and> disk s' z = disk s z)"
proof -
  let ?i = "inodes s p" and ?s0 = "s\<lparr>allocs := b # as\<rparr>" and ?n = "of_nat (length buf) :: u32"
  let ?all = "zs @ replicate (140 - length zs) 0"
  obtain chunk_cnt need where plan: "write_plan (i_size ?i mod 512) ?n = (chunk_cnt, need)" by (metis surj_pair)
  have un: "unat ?n = length buf" using n by (intro unat_of_nat_32) simp
  have fz: "file_zones s ?i zs" using fi by (simp add: file_ok_def)
  have ok0: "fs_ok ?s0" and file0: "file_ok ?s0 (inodes ?s0 p) zs" and fm: "fst (fs_malloc ?s0) \<noteq> 0"
    using ok fi mem(3) file_zones_cong [of ?s0 s] by (simp_all add: file_ok_def fs_malloc_def)
  from write_data [OF ok0 file0 un _ _ fm refl, of "i_size ?i mod 512" chunk_cnt need f stack] n free plan
  obtain c s1 new s2 where
    w: "(if i_size ?i mod 512 \<noteq> 0 then if length zs = 0 then None
        else fill_zone f (?all ! (length zs - 1)) (unat (i_size ?i mod 512)) need buf ?s0 else Some ((0, 0), ?s0)) = Some (c, s1)"
      "write_chunks (unat chunk_cnt) stack f p ((?n - need) mod 512) ?all (length zs) buf ?n c s1 =
        Some (True, (length buf, ?n), s2)" and s2: "fs_ok s2" "file_zones s2 (inodes s2 p) (zs @ new)"
      "length (zs @ new) = zones_for (unat (i_size ?i) + length buf)"
      "take (unat (i_size ?i) + length buf) (sectors s2 (zs @ new)) = content s ?i zs @ buf"
      "file_frame f p (set zs) ?s0 s2" "fd_pos (g_file_table s2 f) = fd_pos (g_file_table s f) + ?n"
    by (auto simp: content_def sectors_def)
  have i2: "inodes s2 p = ?i\<lparr>i_zones := i_zones (inodes s2 p)\<rparr>"
    using file_frame_inode [OF s2(5)] by simp
  define e where "e = (inodes s2 p)\<lparr>i_size := i_size ?i + ?n\<rparr>"
  let ?s3 = "s2\<lparr>inodes := (inodes s2)(p := e)\<rparr>"
  have size: "unat (i_size ?i + ?n) = unat (i_size ?i) + length buf"
    using n un by (subst unat_add_less) simp_all
  then have "max (fd_pos (g_file_table s2 f)) (i_size (inodes s2 p)) = i_size ?i + ?n"
    using s2(6) pos by (subst i2) (simp add: max_def word_le_nat_alt)
  then have upd: "upd_inode p (\<lambda>i. i\<lparr>i_size := max (fd_pos (g_file_table s2 f)) (i_size i)\<rparr>) s2 = ?s3"
    by (simp add: upd_inode_def e_def)
  have fs3: "fs_ok ?s3" "zone_used ?s3 = zone_used s2" "inode_area ?s3 = inode_area s2" "sb ?s3 = sb s"
    using s2(1,5) by (simp_all add: file_frame_def)
  have e: "i_num e = i_num ?i" "inode_ok e" "i_size e = i_size ?i + ?n" "i_zones e = i_zones (inodes s2 p)"
  proof -
    have "i_num (inodes s2 p) = i_num ?i" by (subst i2) simp
    then show "i_num e = i_num ?i" by (simp add: e_def)
    show "inode_ok e" using file_zonesD(3) [OF s2(2)] by (simp add: e_def inode_ok_def)
  qed (simp_all add: e_def)
  have "i_num e < s_ninodes (sb ?s3)" using nr e(1) fs3(4) by simp
  from flush_inode_data [OF fs3(1) this e(2)] obtain s' where
    s': "flush_inode e ?s3 = Some s'" "fs_ok s'" "zone_used s' = zone_used ?s3"
    "\<forall>k < unat (s_ninodes (sb ?s3)). disk_inode s' k =
      (if k = unat (i_num e) then e\<lparr>i_count := 0, i_lock := 0\<rparr> else disk_inode ?s3 k)"
    "\<forall>z. zone_used ?s3 z \<longrightarrow> disk s' z = disk ?s3 z" and e': "s' = ?s3\<lparr>disk := disk s'\<rparr>" by blast
  have same: "inodes s' = inodes ?s3" "g_file_table s' = g_file_table s2" by (subst e', simp)+
  have "file_write stack f buf ?n s = Some (?n, s')"
  proof -
    have "unat (fd_pos (g_file_table s f) + ?n) \<le> 6144" "unat (fd_pos (g_file_table s f)) \<le> 6144"
      using size n pos by simp_all
    then have b: "fd_pos (g_file_table s f) < 512 * 140 + 1" "\<not> fd_pos (g_file_table s f) + ?n > 512 * 140"
      by (simp_all add: word_less_nat_alt)
    have m: "fs_malloc s = (a, ?s0)" using mem by (simp add: fs_malloc_def)
    have z12: "i_zones ?i ! 12 = 0" using fz by (rule no_table)
    have z: "write_zones_of (inodes ?s0 p) ?s0 = Some (?all, ?s0)"
      using all_zones_of_file [OF fz] z12 by (simp add: write_zones_of_def)
    have st: "write_start (fd_pos (g_file_table s f)) (i_size (inodes ?s0 p)) ?all = Some (length zs, i_size ?i mod 512)"
      using write_start_end [OF fi refl] pos by simp
    show ?thesis
      unfolding file_write_def Let_def m fst_conv snd_conv prod.case if_not_P [OF b(2)]
      using b(1) mem(2) z st plan w upd s'(1) by (simp add: p [symmetric] e_def)
  qed
  moreover have "file_ok s' (inodes s' p) (zs @ new)"
    using s2(2,3) e(3,4) size file_zones_cong [of s' s2] s'(3) fs3(2) by (simp add: file_ok_def same file_zones_def)
  moreover have "content s' (inodes s' p) (zs @ new) = content s ?i zs @ buf"
  proof -
    have "sectors s' (zs @ new) = sectors s2 (zs @ new)"
      using s'(5) fs3(2) s2(2) by (intro sectors_cong) (simp add: file_zones_def)
    then show ?thesis using s2(4) e(3) size by (simp add: content_def same)
  qed
  moreover have "zone_used s' z \<and> disk s' z = disk s z" if "zone_used s z" "z \<notin> set zs" for z
    using that s2(5) s'(3,5) fs3(2) by (simp add: file_frame_def)
  moreover have "disk_inode ?s3 k = disk_inode s k" for k
    using fs3(3) s2(5) by (simp add: disk_inode_def file_frame_def)
  moreover have "s' = s\<lparr>disk := disk s', zone_bitmap := zone_bitmap s', allocs := allocs s',
      inodes := (inodes s)(p := ?i\<lparr>i_zones := i_zones (inodes s' p), i_size := i_size ?i + ?n\<rparr>),
      g_file_table := (g_file_table s)(f := (g_file_table s f)\<lparr>fd_pos := i_size ?i + ?n\<rparr>)\<rparr>"
  proof (rule frame_state [OF s2(5)])
    show "e = ?i\<lparr>i_zones := i_zones e, i_size := i_size ?i + ?n\<rparr>" unfolding e_def by (subst i2, subst i2) simp
  qed (use e' s2(6) pos in simp_all)
  ultimately show ?thesis
    using s'(2,4) e(1) fs3(4) by (intro exI [of _ s'] exI [of _ new]) (simp add: same)
qed


text \<open>The sample partition with an open empty file.\<close>

definition sample_fs2 :: fsys where
  "sample_fs2 = sample_fs1\<lparr>g_file_table := (\<lambda>_. \<lparr>fd_pos = 0, fd_flag = 2, fd_inode = 0xc0100000\<rparr>)\<rparr>"

lemma sample_fs2_ok: "fs_ok sample_fs2" "file_ok sample_fs2 (inodes sample_fs2 p) []"
proof -
  have c: "fs_ok sample_fs2 = fs_ok sample_fs1" by (rule fs_ok_cong) (simp_all add: sample_fs2_def)
  have "is_set (zone_bitmap sample_fs1) 0" by (simp add: is_set_def sample_fs1_def)
  moreover have "unat (s_data_start_lba (sb sample_fs1)) + k \<le> 163839" if "k \<in> free_zones sample_fs1" for k
    using that by (simp add: free_zones_def nbits_def sample_fs1_def sample_fs_def sample_sb_def)
  ultimately have "fs_ok sample_fs1" unfolding fs_ok_def using sample_fs1_ok by blast
  then show "fs_ok sample_fs2" using c by simp
  show "file_ok sample_fs2 (inodes sample_fs2 p) []"
    by (simp add: file_ok_def file_zones_def zones_for_def sample_fs2_def sample_fs1_def sample_fs_def zero_inode_def)
qed

lemma sample_fs2_free: "1 \<le> card (free_zones sample_fs2)"
proof -
  have "1 \<in> free_zones sample_fs2"
    by (simp add: free_zones_def is_set_def nbits_def sample_fs2_def sample_fs1_def bit_1_iff)
  then have "card {1 :: nat} \<le> card (free_zones sample_fs2)" by (intro card_mono) simp_all
  then show ?thesis by simp
qed

theorem file_append_witness:
  "\<exists>s'. file_write [] 7 [72, 101, 106] 3 sample_fs2 = Some (3, s') \<and> fd_pos (g_file_table s' 7) = 3"
proof -
  have f: "fd_inode (g_file_table sample_fs2 7) = 0xc0100000" "fd_pos (g_file_table sample_fs2 7) = 0"
    "i_num (inodes sample_fs2 0xc0100000) = 0" "i_size (inodes sample_fs2 0xc0100000) = 0" "s_ninodes (sb sample_fs2) = 20"
    "allocs sample_fs2 = 0xc0110000 # 0xc0111000 # [0xc0112000, 0xc0113000]"
    by (simp_all add: sample_fs2_def sample_fs1_def sample_fs_def zero_inode_def sample_sb_def)
  have pos: "s' = t\<lparr>disk := d, zone_bitmap := z, allocs := as, inodes := is, g_file_table := g\<rparr> \<Longrightarrow>
      g 7 = e \<Longrightarrow> fd_pos (g_file_table s' 7) = fd_pos e" for s' t d z as "is" g e by simp
  show ?thesis
    using file_append [OF sample_fs2_ok(1) f(1) [symmetric] _ sample_fs2_ok(2) _ _ _ f(6), of "[72, 101, 106]" "[]"]
      f sample_fs2_free by (auto simp: zones_for_def dest: pos)
qed

section \<open>Reading\<close>

lemma advance_twice:
  "upd_file f (\<lambda>e. e\<lparr>fd_pos := fd_pos e + b\<rparr>) (upd_file f (\<lambda>e. e\<lparr>fd_pos := fd_pos e + a\<rparr>) s) =
    upd_file f (\<lambda>e. e\<lparr>fd_pos := fd_pos e + (a + b)\<rparr>) s"
  by (simp add: upd_file_def add.assoc)

lemma upd_file_same: "upd_file f (\<lambda>e. e) s = s"
  by (simp add: upd_file_def)

definition chunks_len :: "nat \<Rightarrow> u32 \<Rightarrow> nat" where
  "chunks_len n r = (if n = 0 then 0 else 512 * (n - 1) + turn_len r True)"

lemma chunks_len_pos: "0 < n \<Longrightarrow> 512 * (n - 1) < chunks_len n r"
  by (auto simp: chunks_len_def turn_len_def word_less_nat_alt)

lemma sectors_upd_file [simp]: "sectors (upd_file f g s) zs = sectors s zs"
  by (simp add: sectors_def)

lemma read_chunks_aligned:
  assumes "disk_ok s" and "k + n \<le> 140" and "length all_zones = 140" and "\<forall>z \<in> set all_zones. z \<le> max_lba" and "r < 512"
  shows "read_chunks n f all_zones k 0 r out s = Some (out @ take (chunks_len n r) (sectors s (take n (drop k all_zones))),
    upd_file f (\<lambda>e. e\<lparr>fd_pos := fd_pos e + of_nat (chunks_len n r)\<rparr>) s)"
  using assms
proof (induction n arbitrary: k out s)
  case 0
  then show ?case by (simp add: chunks_len_def upd_file_same)
next
  case (Suc n)
  let ?len = "if n = 0 \<and> r \<noteq> 0 then r else 512"
  have k: "k < 140" "k < length all_zones" using Suc.prems(2,3) by simp_all
  have rd: "ide_read (all_zones ! k) (Suc 0) s = Some (disk s (all_zones ! k))"
    using Suc.prems(4) k by (intro ide_read_1) simp
  have dk: "drop k all_zones = all_zones ! k # drop (Suc k) all_zones" using k(2) by (rule Cons_nth_drop_Suc [symmetric])
  have l: "length (disk s (all_zones ! k)) = 512" using Suc.prems(1) by (simp add: disk_ok_def)
  have ul: "unat ?len = (if n = 0 then turn_len r True else 512)" by (auto simp: turn_len_def word_neq_0_conv)
  have lu: "?len = of_nat (unat ?len)" by simp
  let ?s = "upd_file f (\<lambda>e. e\<lparr>fd_pos := fd_pos e + ?len\<rparr>) s"
  have "disk_ok ?s" using Suc.prems(1) by (simp add: disk_ok_def)
  note ih = Suc.IH [OF this _ Suc.prems(3,4,5), of "Suc k"]
  have "read_chunks (Suc n) f all_zones k 0 r out s =
      read_chunks n f all_zones (Suc k) 0 r (out @ take (unat ?len) (disk s (all_zones ! k))) ?s"
    using k(1) rd by (simp add: Let_def)
  also have "\<dots> = Some ((out @ take (unat ?len) (disk s (all_zones ! k))) @
        take (chunks_len n r) (sectors s (take n (drop (Suc k) all_zones))),
      upd_file f (\<lambda>e. e\<lparr>fd_pos := fd_pos e + (?len + of_nat (chunks_len n r))\<rparr>) s)"
    using ih Suc.prems(2) by (simp add: advance_twice)
  also have "?len + of_nat (chunks_len n r) = of_nat (chunks_len (Suc n) r)"
    by (subst lu) (simp only: ul of_nat_add [symmetric], cases n, simp_all add: chunks_len_def)
  also have "(out @ take (unat ?len) (disk s (all_zones ! k))) @ take (chunks_len n r) (sectors s (take n (drop (Suc k) all_zones))) =
      out @ take (chunks_len (Suc n) r) (sectors s (take (Suc n) (drop k all_zones)))"
    unfolding ul dk using l by (cases n) (simp_all add: chunks_len_def)
  finally show ?case .
qed


lemma sectors_drop:
  assumes "disk_ok s"
  shows "sectors s (drop k zs) = drop (512 * k) (sectors s zs)"
proof (induction zs arbitrary: k)
  case (Cons z zs)
  have "length (disk s z) = 512" using assms by (simp add: disk_ok_def)
  then show ?case using Cons [of "k - 1"] by (cases k) simp_all
qed simp

lemma sectors_take:
  assumes "disk_ok s"
  shows "sectors s (take n zs) = take (512 * n) (sectors s zs)"
proof (induction zs arbitrary: n)
  case (Cons z zs)
  have "length (disk s z) = 512" using assms by (simp add: disk_ok_def)
  then show ?case using Cons [of "n - 1"] by (cases n) simp_all
qed simp

lemma get_at_content:
  "off + n \<le> unat (i_size i) \<Longrightarrow> get_at off n (content s i zs) = get_at off n (sectors s zs)"
  by (simp add: content_def get_at_def drop_take min_def)

lemma length_content: "disk_ok s \<Longrightarrow> file_ok s i zs \<Longrightarrow> length (content s i zs) = unat (i_size i)"
  using file_ok_size(2) [of s i zs] length_sectors [of s zs] by (simp add: content_def disk_ok_def)

lemma read_len_le:
  fixes pos sz len :: u32
  assumes "pos \<le> sz" "len = min (sz - pos) count"
  shows "unat pos + unat len \<le> unat sz"
proof -
  have "unat len \<le> unat (sz - pos)" using assms(2) by (simp add: word_le_nat_alt [symmetric])
  then show ?thesis using assms(1) by (simp add: unat_sub word_le_nat_alt)
qed

text \<open>What a read returns: the number of bytes and the bytes copied. A read of less than a sector takes
  them from one sector and what lies behind it; a longer one that starts inside a zone copies fewer
  bytes than it returns.\<close>

lemma read_bytes:
  assumes ok: "fs_ok s" and fi: "file_ok s i zs" and i: "i = inodes s (fd_inode (g_file_table s f))"
    and pos: "fd_pos (g_file_table s f) \<le> i_size i" and mem: "fst (fs_malloc s) \<noteq> 0"
    and len: "len = min (i_size i - fd_pos (g_file_table s f)) count" and big: "512 \<le> unat len"
    and off: "off = unat (fd_pos (g_file_table s f)) mod 512"
  shows "file_read behind f count s =
      Some (len, get_at (unat (fd_pos (g_file_table s f))) (unat len - off) (content s i zs),
        upd_file f (\<lambda>e. e\<lparr>fd_pos := fd_pos e + of_nat (unat len - off)\<rparr>) (snd (fs_malloc s)))"
proof -
  let ?p = "fd_pos (g_file_table s f)"
  define P L k S where "P = unat ?p" and "L = unat len" and "k = P div 512" and "S = unat (i_size i)"
  have kP: "P = 512 * k + off" "off < 512" unfolding k_def off P_def
    by (simp_all only: mult_div_mod_eq mod_less_divisor zero_less_numeral)
  have PL: "P + L \<le> S" unfolding P_def S_def L_def by (rule read_len_le [OF pos len])
  have S: "S \<le> 6144" "S \<le> 512 * length zs" "length zs \<le> 12"
    using file_ok_size(1,2) [OF fi] fi by (simp_all add: S_def file_ok_def file_zones_def)
  let ?all = "zs @ replicate (140 - length zs) 0"
  let ?n = "zones_for L" and ?r = "len mod 512"
  obtain as where m: "snd (fs_malloc s) = s\<lparr>allocs := as\<rparr>"
    by (cases "allocs s") (auto simp: fs_malloc_def intro: that [of "[]"] that)
  have all: "inode_all_zones i s' = Some ?all" for s' using all_zones_of_file [of s i zs] fi by (simp add: file_ok_def)
  have lba: "\<forall>z \<in> set ?all. z \<le> max_lba" using fi zone_used_lba(2) by (auto simp: file_ok_def file_zones_def)
  have dk: "disk_ok (upd_file g h (s\<lparr>allocs := as\<rparr>))" "disk_ok (s\<lparr>allocs := as\<rparr>)" for g h
    using fs_okD(2) [OF ok] by (simp_all add: disk_ok_def)
  have r: "unat ?r = L mod 512" "?r < 512" by (simp_all add: L_def unat_mod_word word_less_nat_alt)
  have Lc: "L = chunks_len ?n ?r" using turns_length [OF r(1)] by (simp add: chunks_len_def)
  have n0: "0 < ?n" using big zones_for_size(1) [of L] by (cases ?n) (simp_all add: L_def)
  then obtain n' where n': "?n = Suc n'" by (cases ?n) auto
  have fit: "k + ?n \<le> length zs"
  proof -
    have "512 * (?n - 1) < L" using chunks_len_pos [OF n0, of ?r] unfolding Lc [symmetric] .
    then have "512 * (k + (?n - 1)) < 512 * length zs" using kP PL S(2) by (simp add: algebra_simps)
    then have "k + (?n - 1) < length zs" by (simp only: nat_mult_less_cancel1 zero_less_numeral)
    then show ?thesis using n0 by linarith
  qed
  have cnt: "unat (DIV_ROUND_UP len 512) = ?n" using PL S(1) by (simp add: DIV_ROUND_UP_512 L_def)
  have kw: "unat (?p div 512) = k" "unat (?p mod 512) = off" by (simp_all add: k_def P_def off unat_div_word unat_mod_word)
  have dl: "disk_ok s" by (rule fs_okD(2) [OF ok])
  have sec: "sectors s (take m (drop j ?all)) = take (512 * m) (drop (512 * j) (sectors s zs))" if "j + m \<le> length zs" for j m
  proof -
    have "take m (drop j ?all) = take m (drop j zs)" using that by simp
    then show ?thesis by (simp only: sectors_take [OF dl] sectors_drop [OF dl])
  qed
  have "read_chunks ?n f ?all k (?p mod 512) ?r [] (s\<lparr>allocs := as\<rparr>) =
    Some (get_at P (L - off) (sectors s zs), upd_file f (\<lambda>e. e\<lparr>fd_pos := fd_pos e + of_nat (L - off)\<rparr>) (s\<lparr>allocs := as\<rparr>))"
  proof (cases "off = 0")
    case True
    then have "?p mod 512 = 0" using kw(2) word_eq_unat32 [of "?p mod 512" 0] by simp
    moreover have "L \<le> 512 * ?n" by (rule zones_for_size(1))
    ultimately show ?thesis
      using read_chunks_aligned [OF dk(2) _ _ lba r(2), of k ?n f "[]"] fit S(3) sec [OF fit] True kP(1)
      by (simp add: Lc [symmetric] get_at_def sectors_def)
  next
    case False
    let ?z = "?all ! k" and ?s = "upd_file f (\<lambda>e. e\<lparr>fd_pos := fd_pos e + (512 - ?p mod 512)\<rparr>) (s\<lparr>allocs := as\<rparr>)"
    have nz: "0 < ?p mod 512" using False kw(2) by (simp add: word_less_nat_alt)
    have k: "k < length zs" "k < 140" using fit n0 S(3) by simp_all
    have rd: "ide_read ?z (Suc 0) (s\<lparr>allocs := as\<rparr>) = Some (disk s ?z)"
      using lba k by (subst ide_read_1) (simp_all add: nth_append)
    have "unat (512 - ?p mod 512) = 512 - off" using kw(2) kP(2) by (subst unat_sub_word) simp_all
    then have w: "512 - ?p mod 512 = of_nat (512 - off)" by (metis of_nat_unat ucast_id)
    have L: "L - off = (512 - off) + chunks_len n' ?r"
    proof (cases n')
      case 0
      then have "L = turn_len ?r True" using Lc n' by (simp add: chunks_len_def)
      moreover have "turn_len ?r True \<le> 512" using r by (simp add: turn_len_def)
      ultimately show ?thesis using big 0 by (simp add: L_def chunks_len_def)
    qed (use Lc n' kP(2) in \<open>simp add: chunks_len_def\<close>)
    have fit': "Suc k + n' \<le> length zs" using fit n' by simp
    have "read_chunks ?n f ?all k (?p mod 512) ?r [] (s\<lparr>allocs := as\<rparr>) =
        read_chunks n' f ?all (Suc k) 0 ?r (drop off (disk s ?z)) ?s"
      using k(2) rd nz kw(2) by (simp add: n' Let_def)
    also have "\<dots> = Some (drop off (disk s ?z) @ take (chunks_len n' ?r) (sectors s (take n' (drop (Suc k) ?all))),
        upd_file f (\<lambda>e. e\<lparr>fd_pos := fd_pos e + of_nat (chunks_len n' ?r)\<rparr>) ?s)"
      using read_chunks_aligned [OF dk(1) _ _ lba r(2), of "Suc k" n' f] fit' S(3) by (simp add: sectors_def)
    also have "upd_file f (\<lambda>e. e\<lparr>fd_pos := fd_pos e + of_nat (chunks_len n' ?r)\<rparr>) ?s =
        upd_file f (\<lambda>e. e\<lparr>fd_pos := fd_pos e + of_nat (L - off)\<rparr>) (s\<lparr>allocs := as\<rparr>)"
      unfolding L w advance_twice by simp
    also have "drop off (disk s ?z) @ take (chunks_len n' ?r) (sectors s (take n' (drop (Suc k) ?all))) =
        get_at P (L - off) (sectors s zs)"
    proof -
      have ld: "length (disk s ?z) = 512" using dl by (simp add: disk_ok_def)
      have "drop (512 * k) (sectors s zs) = disk s ?z @ drop (512 * Suc k) (sectors s zs)"
        using Cons_nth_drop_Suc [OF k(1)] k(1)
        by (simp only: sectors_drop [OF dl, symmetric]) (metis append_Cons nth_append sectors_simps(2))
      then have "drop P (sectors s zs) = drop off (disk s ?z) @ drop (512 * Suc k) (sectors s zs)"
        using ld kP by (simp add: drop_drop [symmetric, of off "512 * k"] add.commute del: drop_drop)
      moreover have "chunks_len n' ?r \<le> 512 * n'" using r by (cases n') (auto simp: chunks_len_def turn_len_def)
      ultimately show ?thesis using ld kP(2) sec [OF fit'] unfolding L get_at_def by simp
    qed
    finally show ?thesis .
  qed
  moreover have "get_at P (L - off) (content s i zs) = get_at P (L - off) (sectors s zs)"
    using PL by (intro get_at_content) (simp add: S_def)
  moreover have "\<not> i_size i + 1 \<le> ?p" "?p \<le> i_size i + 1" "\<not> 140 \<le> ?p div 512"
  proof -
    have "unat (i_size i + 1) = S + 1" using S(1) by (subst unat_add_less) (simp_all add: S_def)
    then show "\<not> i_size i + 1 \<le> ?p" "?p \<le> i_size i + 1" using PL by (simp_all add: word_le_nat_alt P_def)
    show "\<not> 140 \<le> ?p div 512" using kw(1) fit S(3) n0 by (simp add: word_le_nat_alt)
  qed
  moreover have "\<not> len < 512" using big by (simp add: word_less_nat_alt)
  ultimately have "file_read behind f count s = Some (len, get_at P (L - off) (content s i zs),
      upd_file f (\<lambda>e. e\<lparr>fd_pos := fd_pos e + of_nat (L - off)\<rparr>) (s\<lparr>allocs := as\<rparr>))"
    using mem all by (simp add: file_read_def m Let_def case_prod_beta ASSERT_bind i [symmetric] len [symmetric] kw cnt)
  then show ?thesis unfolding P_def L_def m .
qed


text \<open>A read of less than a sector: what lies behind the sector is taken from the memory behind the
  buffer.\<close>

lemma read_small:
  assumes ok: "fs_ok s" and fi: "file_ok s i zs" and i: "i = inodes s (fd_inode (g_file_table s f))"
    and pos: "fd_pos (g_file_table s f) \<le> i_size i" and mem: "fst (fs_malloc s) \<noteq> 0"
    and len: "len = min (i_size i - fd_pos (g_file_table s f)) count" and small: "unat len < 512"
    and off: "off = unat (fd_pos (g_file_table s f)) mod 512"
  shows "file_read behind f count s =
      Some (len, get_at (unat (fd_pos (g_file_table s f))) (min (unat len) (512 - off)) (content s i zs) @
        take (unat len - (512 - off)) behind,
        upd_file f (\<lambda>e. e\<lparr>fd_pos := fd_pos e + len\<rparr>) (snd (fs_malloc s)))"
proof -
  let ?p = "fd_pos (g_file_table s f)" and ?all = "zs @ replicate (140 - length zs) 0" and ?n = "min (unat len) (512 - off)"
  define P k S where "P = unat ?p" and "k = P div 512" and "S = unat (i_size i)"
  have kP: "P = 512 * k + off" "off < 512" unfolding k_def off P_def
    by (simp_all only: mult_div_mod_eq mod_less_divisor zero_less_numeral)
  have PL: "P + unat len \<le> S" unfolding P_def S_def by (rule read_len_le [OF pos len])
  have S: "S \<le> 6144" "S \<le> 512 * length zs" "length zs \<le> 12"
    using file_ok_size(1,2) [OF fi] fi by (simp_all add: S_def file_ok_def file_zones_def)
  obtain as where m: "snd (fs_malloc s) = s\<lparr>allocs := as\<rparr>"
    by (cases "allocs s") (auto simp: fs_malloc_def intro: that [of "[]"] that)
  have all: "inode_all_zones i s' = Some ?all" for s' using all_zones_of_file [of s i zs] fi by (simp add: file_ok_def)
  have lba: "\<forall>z \<in> set ?all. z \<le> max_lba" using fi zone_used_lba(2) by (auto simp: file_ok_def file_zones_def)
  have kw: "unat (?p div 512) = k" "unat (?p mod 512) = off" by (simp_all add: k_def P_def off unat_div_word unat_mod_word)
  have dl: "disk_ok s" by (rule fs_okD(2) [OF ok])
  then have ld: "length (disk s z) = 512" for z by (simp add: disk_ok_def)
  have k: "k < 140" using kP PL S by simp
  have rd: "ide_read (?all ! k) (Suc 0) (s\<lparr>allocs := as\<rparr>) = Some (disk s (?all ! k))"
    using lba k S(3) by (subst ide_read_1) (simp_all add: nth_append)
  have "get_at off (unat len) (disk s (?all ! k) @ behind) =
      get_at P ?n (content s i zs) @ take (unat len - (512 - off)) behind"
  proof (cases "unat len = 0")
    case False
    then have "k < length zs" using kP PL S(2) by simp
    then have "drop (512 * k) (sectors s zs) = disk s (?all ! k) @ sectors s (drop (Suc k) zs)"
      using Cons_nth_drop_Suc [of k zs]
      by (simp only: sectors_drop [OF dl, symmetric]) (metis nth_append sectors_simps(2))
    then have "drop P (sectors s zs) = drop off (disk s (?all ! k)) @ sectors s (drop (Suc k) zs)"
      using ld kP by (simp add: drop_drop [symmetric, of off "512 * k"] add.commute del: drop_drop)
    moreover have "get_at P ?n (content s i zs) = get_at P ?n (sectors s zs)"
      using PL by (intro get_at_content) (simp add: S_def)
    moreover have "take (unat len) xs = take ?n xs" if "length xs = 512 - off" for xs :: "u8 list"
      using that by (simp add: min_def)
    ultimately show ?thesis using ld [of "?all ! k"] kP(2) by (simp add: get_at_def)
  qed (simp add: get_at_def)
  moreover have "\<not> i_size i + 1 \<le> ?p" "?p \<le> i_size i + 1" "\<not> 140 \<le> ?p div 512"
  proof -
    have "unat (i_size i + 1) = S + 1" using S(1) by (subst unat_add_less) (simp_all add: S_def)
    then show "\<not> i_size i + 1 \<le> ?p" "?p \<le> i_size i + 1" using PL by (simp_all add: word_le_nat_alt P_def)
    show "\<not> 140 \<le> ?p div 512" using kw(1) k by (simp add: word_le_nat_alt)
  qed
  moreover have "len < 512" using small by (simp add: word_less_nat_alt)
  ultimately have "file_read behind f count s =
      Some (len, get_at P ?n (content s i zs) @ take (unat len - (512 - off)) behind,
        upd_file f (\<lambda>e. e\<lparr>fd_pos := fd_pos e + len\<rparr>) (s\<lparr>allocs := as\<rparr>))"
    using mem all rd by (simp add: file_read_def m Let_def case_prod_beta ASSERT_bind i [symmetric] len [symmetric] kw)
  then show ?thesis unfolding P_def m .
qed

text \<open>C10. What reading a file returns, at every position up to its end and for every count (the data
  lies in direct zones, up to 6144 bytes): the number of bytes up to the end of the file, at most
  \<open>count\<close>. The bytes copied are those of the content from the position on, if the read starts at a zone
  boundary, or is shorter than a zone and ends in the zone in which it starts. A short read that
  crosses into the next zone takes the rest from the memory behind the buffer instead, and a longer one
  that starts inside a zone copies fewer bytes than it returns, by the offset in the zone. The position
  moves behind the bytes copied; nothing else changes but the memory taken.\<close>

theorem file_read_content:
  assumes "fs_ok s" and "file_ok s (inodes s p) zs" and "p = fd_inode (g_file_table s f)"
    and "fd_pos (g_file_table s f) \<le> i_size (inodes s p)" and "fst (fs_malloc s) \<noteq> 0"
    and "len = min (i_size (inodes s p) - fd_pos (g_file_table s f)) count"
    and "pos = unat (fd_pos (g_file_table s f))" and "off = pos mod 512" and "n = unat len"
    and "data = content s (inodes s p) zs"
  shows "file_read behind f count s = Some (len,
      if off = 0 \<or> n < 512 \<and> off + n \<le> 512 then get_at pos n data
      else if n < 512 then get_at pos (512 - off) data @ take (n - (512 - off)) behind
      else get_at pos (n - off) data,
      upd_file f (\<lambda>e. e\<lparr>fd_pos := fd_pos e + (if n < 512 then len else of_nat (n - off))\<rparr>) (snd (fs_malloc s)))"
proof (cases "n < 512")
  case True
  then show ?thesis
    using read_small [OF assms(1,2) _ assms(4-6), of off behind] assms(3,7-10)
    by (cases "off + n \<le> 512") (auto simp: min_def)
next
  case False
  then show ?thesis using read_bytes [OF assms(1,2) _ assms(4-6), of off behind] assms(3,7-10) by auto
qed

text \<open>A long read that starts inside a zone loses bytes: it returns the number of bytes up to the
  end of the file, at most \<open>count\<close>, but copies fewer, by the offset in the first zone, and moves the
  position only so far.\<close>

theorem file_read_unaligned:
  assumes "fs_ok s" and "file_ok s (inodes s p) zs" and "p = fd_inode (g_file_table s f)"
    and "fd_pos (g_file_table s f) \<le> i_size (inodes s p)" and "fst (fs_malloc s) \<noteq> 0"
    and "len = min (i_size (inodes s p) - fd_pos (g_file_table s f)) count" and "512 \<le> unat len"
    and "off = unat (fd_pos (g_file_table s f)) mod 512" and "off \<noteq> 0"
  shows "\<exists>bs s'. file_read behind f count s = Some (len, bs, s') \<and> length bs = unat len - off \<and> length bs < unat len \<and>
    bs = get_at (unat (fd_pos (g_file_table s f))) (unat len - off) (content s (inodes s p) zs) \<and>
    fd_pos (g_file_table s' f) = fd_pos (g_file_table s f) + of_nat (unat len - off)"
proof -
  let ?pos = "fd_pos (g_file_table s f)"
  have l: "length (content s (inodes s p) zs) = unat (i_size (inodes s p))"
    by (rule length_content [OF fs_okD(2) [OF assms(1)] assms(2)])
  have "unat ?pos + unat len \<le> unat (i_size (inodes s p))" by (rule read_len_le [OF assms(4,6)])
  then have "length (get_at (unat ?pos) (unat len - off) (content s (inodes s p) zs)) = unat len - off"
    by (subst length_get_at) (simp_all add: l)
  moreover have "inodes s p = inodes s (fd_inode (g_file_table s f))" using assms(3) by simp
  note read_bytes [OF assms(1,2) this assms(4-8), of behind]
  moreover have "unat len - off < unat len" using assms(7,9) by simp
  moreover have "fd_pos (g_file_table (snd (fs_malloc s)) f) = fd_pos (g_file_table s f)"
    by (cases "allocs s") (simp_all add: fs_malloc_def)
  ultimately show ?thesis by auto
qed

text \<open>A file of 1000 bytes in two zones.\<close>

definition sample_fs3 :: "u32 \<Rightarrow> fsys" where
  "sample_fs3 pos = sample_fs2\<lparr>zone_bitmap := \<lparr>bits = (\<lambda>_. 0)(0 := 7), map_bytes_length = 512\<rparr>,
     disk := (\<lambda>_. replicate 512 0)(3 := 7 # replicate 511 0, 9 := replicate 512 65, 10 := replicate 512 66),
     inodes := (\<lambda>_. zero_inode\<lparr>i_size := 1000, i_zones := 9 # 10 # replicate 11 0\<rparr>),
     g_file_table := (\<lambda>_. \<lparr>fd_pos = pos, fd_flag = 2, fd_inode = 0xc0100000\<rparr>)\<rparr>"

lemma sample_fs3_ok: "fs_ok (sample_fs3 pos)" "file_ok (sample_fs3 pos) (inodes (sample_fs3 pos) p) [9, 10]"
proof -
  let ?s = "sample_fs3 pos"
  have sb: "sb ?s = sample_sb" by (simp add: sample_fs3_def sample_fs2_def sample_fs1_def sample_fs_def)
  have bits: "is_set (zone_bitmap ?s) 0" "is_set (zone_bitmap ?s) 1" "is_set (zone_bitmap ?s) 2" "nbits (zone_bitmap ?s) = 4096"
    by (simp_all add: sample_fs3_def is_set_def nbits_def bit_iff_odd)
  have "map (\<lambda>i. if i = 0 then 7 else 0) [0..<512] = (7 :: u8) # replicate 511 0"
    by (rule nth_equalityI) (simp_all add: nth_Cons')
  then have "zmap_synced ?s"
    by (simp add: zmap_synced_def sb sample_sb_def) (simp add: sample_fs3_def bitmap_bytes_def fun_upd_def)
  moreover have "disk_ok ?s" by (simp add: disk_ok_def sample_fs3_def)
  moreover have "geometry_ok (sb ?s)" using sample_fs_ok(1) by (simp add: sb sample_fs_def)
  ultimately show "fs_ok ?s" using bits by (simp add: fs_ok_def free_zones_def sb sample_sb_def)
  have "zone_used ?s 9" unfolding zone_used_def
    by (rule exI [of _ 1]) (simp add: zone_of_def sb bits bits(2) [unfolded One_nat_def] sample_sb_def)
  moreover have "zone_used ?s 10" unfolding zone_used_def
    by (rule exI [of _ 2]) (simp add: zone_of_def sb bits sample_sb_def)
  ultimately show "file_ok ?s (inodes ?s p) [9, 10]"
    by (simp add: file_ok_def file_zones_def zones_for_def sample_fs3_def)
qed

lemma sample_fs3_fields:
  "fd_inode (g_file_table (sample_fs3 pos) f) = 0xc0100000" "fd_pos (g_file_table (sample_fs3 pos) f) = pos"
  "i_size (inodes (sample_fs3 pos) p) = 1000" "fst (fs_malloc (sample_fs3 pos)) = 0xc0110000"
  by (simp_all add: sample_fs3_def sample_fs2_def sample_fs1_def sample_fs_def fs_malloc_def)

theorem file_read_content_witness:
  "(\<exists>bs s'. file_read [] 7 600 (sample_fs3 512) = Some (488, bs, s') \<and> fd_pos (g_file_table s' 7) = 1000) \<and>
   (\<exists>bs s'. file_read [1, 2, 3] 7 4 (sample_fs3 510) = Some (4, bs @ [1, 2], s'))"
proof -
  have f: "0xc0100000 = fd_inode (g_file_table (sample_fs3 p) 7)"
    "fd_pos (g_file_table (sample_fs3 p) 7) \<le> i_size (inodes (sample_fs3 p) 0xc0100000)"
    "fst (fs_malloc (sample_fs3 p)) \<noteq> 0"
    "min (1000 - p) c = min (i_size (inodes (sample_fs3 p) 0xc0100000) - fd_pos (g_file_table (sample_fs3 p) 7)) c"
    if "p \<le> 1000" for p c using that by (simp_all add: sample_fs3_fields)
  have m: "snd (fs_malloc (sample_fs3 p)) = (sample_fs3 p)\<lparr>allocs := tl (allocs (sample_fs3 p))\<rparr>" for p
    by (cases "allocs (sample_fs3 p)") (simp_all add: fs_malloc_def)
  show ?thesis
    using file_read_content [OF sample_fs3_ok f(1-3) f(4) [of 512 600] refl refl refl refl, of "[]"]
      file_read_content [OF sample_fs3_ok f(1-3) f(4) [of 510 4] refl refl refl refl, of "[1, 2, 3]"]
    by (auto simp: sample_fs3_fields m)
qed

theorem file_read_unaligned_witness:
  "\<exists>bs s'. file_read [] 7 600 (sample_fs3 100) = Some (600, bs, s') \<and> length bs = 500"
proof -
  have f: "0xc0100000 = fd_inode (g_file_table (sample_fs3 100) 7)"
    "fd_pos (g_file_table (sample_fs3 100) 7) \<le> i_size (inodes (sample_fs3 100) 0xc0100000)"
    "fst (fs_malloc (sample_fs3 100)) \<noteq> 0"
    "600 = min (i_size (inodes (sample_fs3 100) 0xc0100000) - fd_pos (g_file_table (sample_fs3 100) 7)) 600"
    by (simp_all add: sample_fs3_fields)
  show ?thesis using file_read_unaligned [OF sample_fs3_ok f, of 100 "[]"] by (auto simp: sample_fs3_fields)
qed

end
