(* ===== verification/DirSpec.thy ===== *)
theory DirSpec
  imports Fs FileData
begin

text \<open>
  Correctness of directories (\<^verbatim>\<open>core/fs/dir.c\<close> with \<open>search_file\<close> of \<^verbatim>\<open>core/fs/fs.c\<close>): the entries of
  a directory are the list of the slots of its zones. A new entry takes the first free slot and is
  found by its name afterwards; what happens when no slot is free, and what deleting does to other
  sectors.
\<close>

section \<open>Slots\<close>

definition slots :: "fsys \<Rightarrow> u32 list \<Rightarrow> dir_entry list" where
  "slots s zs = concat (map (\<lambda>z. entries (disk s z)) zs)"

definition is_free :: "dir_entry \<Rightarrow> bool" where
  "is_free e \<longleftrightarrow> entry_name e = [] \<and> f_type e = FT_UNKOWN"

lemma slots_simps [simp]:
  "slots s [] = []" "slots s (z # zs) = entries (disk s z) @ slots s zs" "slots s (xs @ ys) = slots s xs @ slots s ys"
  by (simp_all add: slots_def)

lemma slots_cong: "(\<And>z. z \<in> set zs \<Longrightarrow> disk s' z = disk s z) \<Longrightarrow> slots s' zs = slots s zs"
  unfolding slots_def by (rule arg_cong [of _ _ concat], rule map_cong) simp_all

lemma length_entries [simp]: "length (entries buf) = 21"
  by (simp add: entries_def)

lemma entries_put:
  assumes "length buf = 512" "j < 21" "length bs = 24"
  shows "entries (put_at (24 * j) bs buf) = (entries buf)[j := entry_of bs]"
proof (rule nth_equalityI)
  fix k assume "k < length (entries (put_at (24 * j) bs buf))"
  then have k: "k < 21" by simp
  show "entries (put_at (24 * j) bs buf) ! k = (entries buf)[j := entry_of bs] ! k"
  proof (cases "k = j")
    case True
    then show ?thesis using assms by (simp add: entries_def entry_at_def)
  next
    case False
    then have "get_at (24 * k) 24 (put_at (24 * j) bs buf) = get_at (24 * k) 24 buf"
      using assms k by (intro get_put_other) auto
    then show ?thesis using False k by (simp add: entries_def entry_at_def)
  qed
qed simp

lemma concat_split:
  assumes "concat (map g zs) = us @ x # rest"
  shows "\<exists>zs1 z zs2 u2 r2. zs = zs1 @ z # zs2 \<and> us = concat (map g zs1) @ u2 \<and> g z = u2 @ x # r2 \<and>
    rest = r2 @ concat (map g zs2)"
  using assms
proof (induction zs arbitrary: us)
  case (Cons a zs)
  from Cons.prems consider us' where "us = g a @ us'" "concat (map g zs) = us' @ x # rest"
    | r2 where "g a = us @ x # r2" "rest = r2 @ concat (map g zs)"
    by (auto simp: append_eq_append_conv2 append_eq_Cons_conv)
  then show ?case
  proof cases
    case 1
    from Cons.IH [OF 1(2)] obtain zs1 z zs2 u2 r2 where
      "zs = zs1 @ z # zs2" "us' = concat (map g zs1) @ u2" "g z = u2 @ x # r2" "rest = r2 @ concat (map g zs2)" by blast
    then show ?thesis using 1 by (intro exI [of _ "a # zs1"] exI [of _ z] exI [of _ zs2]) simp
  next
    case 2
    then show ?thesis
      by (rule_tac exI [of _ "[]"], rule_tac exI [of _ a], rule_tac exI [of _ zs], rule_tac exI [of _ us], rule_tac exI [of _ r2]) simp
  qed
qed simp

lemma free_slot_none: "(\<And>e. e \<in> set es \<Longrightarrow> \<not> is_free e) \<Longrightarrow> free_slot b es = None"
  by (induction b es rule: free_slot.induct) (simp_all add: is_free_def)

lemma free_slot_first:
  "(\<And>e. e \<in> set us \<Longrightarrow> \<not> is_free e) \<Longrightarrow> is_free x \<Longrightarrow> free_slot b (us @ x # r) = Some (b + length us)"
  by (induction us arbitrary: b) (auto simp: is_free_def)

lemma scan_file_append:
  "scan_file name (xs @ ys) = (case scan_file name xs of Some r \<Rightarrow> Some r | None \<Rightarrow> scan_file name ys)"
  by (induction name xs rule: scan_file.induct) auto

lemma scan_file_skip:
  "(\<And>u. u \<in> set us \<Longrightarrow> f_type u \<noteq> FT_UNKOWN \<and> entry_name u \<noteq> name) \<Longrightarrow> scan_file name us = None"
  by (induction name us rule: scan_file.induct) auto

lemma scan_zones_slots:
  assumes "scan_file name (slots s zs) = Some r" and "\<forall>z \<in> set zs. z \<le> max_lba"
  shows "scan_zones name (zs @ ws) s = Some r"
  using assms
proof (induction zs)
  case (Cons z zs)
  then show ?case by (auto simp: ide_read_1 scan_file_append split: option.splits)
qed simp

section \<open>Zones of a directory\<close>

lemma table_zones_of_file:
  assumes "file_zones s i zs"
  shows "table_zones i s' = Some (zs @ replicate (140 - length zs) 0)"
proof -
  have l: "length zs \<le> 12" and z: "i_zones i = zs @ replicate (13 - length zs) 0" using assms by (auto simp: file_zones_def)
  have "take 12 (i_zones i) = zs @ replicate (12 - length zs) 0" using l z by simp
  moreover have "replicate (12 - length zs) 0 @ replicate 128 0 = (replicate (140 - length zs) 0 :: u32 list)"
    using l by (simp flip: replicate_add)
  ultimately show ?thesis using no_table [OF assms] by (simp add: table_zones_def)
qed

lemma search_file_slots:
  assumes f: "file_zones s (inodes s (dir_inode (dirs s d))) zs" and r: "scan_file name (slots s zs) = Some r"
    and m: "fst (fs_malloc s) \<noteq> 0"
  shows "\<exists>s'. search_file d name s = Some (r, s')"
proof -
  let ?i = "inodes s (dir_inode (dirs s d))"
  have "load_zones ?i s = Some (zs @ replicate (140 - length zs) 0, s)"
    using no_table [OF f] table_zones_of_file [OF f] by (simp add: load_zones_def)
  moreover obtain as where as: "snd (fs_malloc s) = s\<lparr>allocs := as\<rparr>"
    by (cases "allocs s") (auto simp: fs_malloc_def intro: that [of "[]"] that)
  moreover have "scan_zones name (zs @ replicate (140 - length zs) 0) (s\<lparr>allocs := as\<rparr>) = Some r"
  proof (rule scan_zones_slots)
    show "scan_file name (slots (s\<lparr>allocs := as\<rparr>) zs) = Some r" using r by (simp add: slots_def)
    show "\<forall>z \<in> set zs. z \<le> max_lba" using f zone_used_lba(2) by (auto simp: file_zones_def)
  qed
  ultimately show ?thesis using m by (simp add: search_file_def case_prod_beta Let_def)
qed

section \<open>A new entry\<close>

lemma flush_zones_skip:
  assumes "\<forall>z \<in> set zs. z \<noteq> 0 \<and> z \<le> max_lba" and "\<And>e. e \<in> set (slots s zs) \<Longrightarrow> \<not> is_free e"
    and "\<forall>i < length zs. all_zones ! (k + i) = zs ! i"
  shows "flush_zones (length zs + n) k all_zones p e s = flush_zones n (k + length zs) all_zones p e s"
  using assms
proof (induction zs arbitrary: k)
  case (Cons z zs)
  have z: "all_zones ! k = z" using Cons.prems(3) by force
  have "free_slot 0 (entries (disk s z)) = None" using Cons.prems(2) by (intro free_slot_none) auto
  then have "flush_zones (length (z # zs) + n) k all_zones p e s = flush_zones (length zs + n) (Suc k) all_zones p e s"
    using Cons.prems(1) z by (simp add: ide_read_1)
  also have "\<dots> = flush_zones n (Suc k + length zs) all_zones p e s"
  proof (rule Cons.IH)
    show "\<forall>i < length zs. all_zones ! (Suc k + i) = zs ! i"
      using Cons.prems(3) by (metis Suc_less_eq add_Suc_right add_Suc_shift length_Cons nth_Cons_Suc)
  qed (use Cons.prems in auto)
  finally show ?case by simp
qed simp

lemma flush_dir_entry_ok:
  assumes ok: "fs_ok s" and p: "p = dir_inode (dirs s d)" and f: "file_zones s (inodes s p) zs" and e: "entry_ok e"
    and sl: "slots s zs = us @ x # rest" and us: "\<And>u. u \<in> set us \<Longrightarrow> \<not> is_free u" and x: "is_free x"
  shows "\<exists>s'. flush_dir_entry d e s = Some (0, s') \<and> fs_ok s' \<and> zone_used s' = zone_used s \<and>
    slots s' zs = us @ e # rest \<and> dirs s' = dirs s \<and> allocs s' = allocs s \<and>
    inodes s' = (inodes s)(p := (inodes s p)\<lparr>i_size := i_size (inodes s p) + 24\<rparr>) \<and>
    (\<forall>z. zone_used s z \<and> z \<notin> set zs \<longrightarrow> disk s' z = disk s z) \<and>
    s' = s\<lparr>disk := disk s', inodes := inodes s'\<rparr>"
proof -
  from concat_split [OF sl [unfolded slots_def]] obtain zs1 z zs2 u2 r2 where
    zs: "zs = zs1 @ z # zs2" and u: "us = slots s zs1 @ u2" and ez: "entries (disk s z) = u2 @ x # r2"
    and r: "rest = r2 @ slots s zs2" unfolding slots_def by blast
  let ?all = "zs @ replicate (140 - length zs) 0" and ?j = "length u2"
  have l: "length zs \<le> 12" using f by (simp add: file_zones_def)
  have used: "zone_used s w" if "w \<in> set zs" for w using f that by (simp add: file_zones_def)
  have z: "zone_used s z" "z \<notin> set zs1" "z \<notin> set zs2" using f by (auto simp: file_zones_def zs)
  note zl = zone_used_lba [OF z(1)]
  have "\<And>w. w \<in> set zs1 \<Longrightarrow> zone_used s w" using used by (simp add: zs)
  then have nz: "\<forall>w \<in> set zs1. w \<noteq> 0 \<and> w \<le> max_lba" using zone_used_lba(2,3) by blast
  have j: "?j < 21" using ez length_entries [of "disk s z"] by simp
  have ld: "length (disk s z) = 512" by (rule fs_okD(4) [OF ok])
  have le: "length (entry_bytes e) = 24" by (rule entry_codec.enc_length [OF e])
  let ?buf = "put_at (24 * ?j) (entry_bytes e) (disk s z)"
  have lb: "length ?buf = 512" using ld le j by simp
  have n: "(140::nat) = length zs1 + (1 + (139 - length zs1))" using l by (simp add: zs)
  have "flush_zones (length zs1 + (1 + (139 - length zs1))) 0 ?all p e s =
      flush_zones (1 + (139 - length zs1)) (0 + length zs1) ?all p e s"
    by (rule flush_zones_skip [OF nz]) (use us in \<open>auto simp: u zs nth_append\<close>)
  moreover have "?all ! length zs1 = z" by (simp add: zs nth_append)
  moreover have "free_slot 0 (entries (disk s z)) = Some ?j"
    unfolding ez using free_slot_first [of u2 x 0 r2] us x by (auto simp: u)
  ultimately have fl: "flush_zones 140 0 ?all p e s = Some (0, grow_dir p (s\<lparr>disk := (disk s)(z := ?buf)\<rparr>))"
    unfolding n [symmetric] using zl(2,3) lb by (simp add: ide_read_1 ide_write_1)
  let ?s = "s\<lparr>disk := (disk s)(z := ?buf)\<rparr>"
  let ?s' = "grow_dir p ?s"
  have s': "sb ?s' = sb ?s" "disk ?s' = (disk s)(z := ?buf)" "zone_bitmap ?s' = zone_bitmap ?s"
    by (simp_all add: grow_dir_def upd_inode_def)
  have "unat (s_data_start_lba (sb s)) \<le> unat z" using zl(1) by simp
  from data_write(1) [OF ok this lb] have "fs_ok ?s'" using fs_ok_cong(1) [of ?s' ?s] s' by simp
  moreover have "zone_used ?s' = zone_used s"
    by (intro ext) (simp add: zone_used_def zone_of_def s')
  moreover have "slots ?s' zs = us @ e # rest"
  proof -
    have "slots ?s' zs1 = slots s zs1" "slots ?s' zs2 = slots s zs2"
      using z by (auto intro!: slots_cong simp: s')
    moreover have "entries ?buf = u2 @ e # r2"
      using entries_put [OF ld j le] entry_codec.dec_enc [OF e] ez by (simp add: list_update_append)
    ultimately show ?thesis by (simp add: zs u r s')
  qed
  moreover have "disk ?s' w = disk s w" if "w \<notin> set zs" for w using that by (auto simp: s' zs)
  moreover have "flush_dir_entry d e s = Some (0, ?s')"
    using table_zones_of_file [OF f] fl by (simp add: flush_dir_entry_def p [symmetric])
  moreover have "dirs ?s' = dirs s" "allocs ?s' = allocs s"
    "inodes ?s' = (inodes s)(p := (inodes s p)\<lparr>i_size := i_size (inodes s p) + 24\<rparr>)"
    by (simp_all add: grow_dir_def upd_inode_def)
  moreover have "?s' = s\<lparr>disk := disk ?s', inodes := inodes ?s'\<rparr>" by (simp add: grow_dir_def upd_inode_def)
  ultimately show ?thesis by blast
qed


text \<open>C11. Adding an entry to a directory that has a free slot: the entry takes the first free slot, all
  other slots and every other zone in use keep their content, the directory grows by 24 bytes, and a
  search for its name then gives its inode. Every name that the slots before it hold is found as
  before.\<close>

theorem dir_entry_found:
  assumes ok: "fs_ok s" and p: "p = dir_inode (dirs s d)" and fz: "file_zones s (inodes s p) zs"
    and e: "entry_ok e" "f_type e \<noteq> FT_UNKOWN" "entry_name e \<noteq> [46]" "entry_name e \<noteq> [46, 46]"
    and sl: "slots s zs = us @ x # rest" and x: "is_free x"
    and us: "\<forall>u \<in> set us. f_type u \<noteq> FT_UNKOWN \<and> entry_name u \<noteq> entry_name e"
    and mem: "fst (fs_malloc s) \<noteq> 0"
  shows "\<exists>s' s''. flush_dir_entry d e s = Some (0, s') \<and> fs_ok s' \<and> slots s' zs = us @ e # rest \<and>
    i_size (inodes s' p) = i_size (inodes s p) + 24 \<and> search_file d (entry_name e) s' = Some (i_no e, s'') \<and>
    (\<forall>name r. scan_file name us = Some r \<longrightarrow>
      (\<exists>t. search_file d name s = Some (r, t)) \<and> (\<exists>t. search_file d name s' = Some (r, t))) \<and>
    (\<forall>z. zone_used s z \<and> z \<notin> set zs \<longrightarrow> disk s' z = disk s z)"
proof -
  have "\<And>u. u \<in> set us \<Longrightarrow> \<not> is_free u" using us by (auto simp: is_free_def)
  from flush_dir_entry_ok [OF ok p fz e(1) sl this x] obtain s' where
    s': "flush_dir_entry d e s = Some (0, s')" "fs_ok s'" "zone_used s' = zone_used s" "slots s' zs = us @ e # rest"
    "dirs s' = dirs s" "allocs s' = allocs s" "inodes s' = (inodes s)(p := (inodes s p)\<lparr>i_size := i_size (inodes s p) + 24\<rparr>)"
    "\<forall>z. zone_used s z \<and> z \<notin> set zs \<longrightarrow> disk s' z = disk s z" by blast
  have d': "dir_inode (dirs s' d) = p" using s'(5) p by simp
  have fz': "file_zones s' (inodes s' (dir_inode (dirs s' d))) zs"
    using fz s'(3,7) by (simp add: d' file_zones_def)
  have m': "fst (fs_malloc s') \<noteq> 0" using mem s'(6) by (cases "allocs s") (simp_all add: fs_malloc_def)
  have f0: "file_zones s (inodes s (dir_inode (dirs s d))) zs" using fz p by simp
  have skip: "scan_file (entry_name e) us = None" using us by (intro scan_file_skip) blast
  then have "scan_file (entry_name e) (slots s' zs) = Some (i_no e)"
    unfolding s'(4) scan_file_append using e by simp
  from search_file_slots [OF fz' this m'] obtain s'' where s'': "search_file d (entry_name e) s' = Some (i_no e, s'')" by blast
  moreover have "(\<exists>t. search_file d name s = Some (r, t)) \<and> (\<exists>t. search_file d name s' = Some (r, t))"
    if "scan_file name us = Some r" for name r
  proof
    have "scan_file name (slots s zs) = Some r" "scan_file name (slots s' zs) = Some r"
      unfolding sl s'(4) scan_file_append using that by simp_all
    then show "\<exists>t. search_file d name s = Some (r, t)" "\<exists>t. search_file d name s' = Some (r, t)"
      using search_file_slots [OF f0 _ mem] search_file_slots [OF fz' _ m'] by blast+
  qed
  moreover have "i_size (inodes s' p) = i_size (inodes s p) + 24" using s'(7) by simp
  ultimately show ?thesis using s'(1,2,4,8) by blast
qed

text \<open>The sample partition with a directory whose zone is empty.\<close>

definition sample_dir_fs :: fsys where
  "sample_dir_fs = sample_fs1\<lparr>zone_bitmap := \<lparr>bits = (\<lambda>_. 0)(0 := 3), map_bytes_length = 512\<rparr>,
     disk := (\<lambda>_. replicate 512 0)(3 := 3 # replicate 511 0),
     inodes := (\<lambda>_. zero_inode\<lparr>i_num := 1, i_zones := 9 # replicate 12 0\<rparr>),
     dirs := (\<lambda>_. \<lparr>dir_inode = 0xc0100000, dir_pos = 0, dir_buf = replicate 512 0\<rparr>)\<rparr>"

definition free_entry :: dir_entry where
  "free_entry = \<lparr>filename = replicate 16 0, i_no = 0, f_type = 0\<rparr>"

lemma entries_replicate: "entries (replicate 512 c) = replicate 21 (entry_of (replicate 24 c))"
proof -
  have "entry_at (replicate 512 c) k = entry_of (replicate 24 c)" if "k < 21" for k
    using that by (simp add: entry_at_def get_at_def)
  then show ?thesis by (intro nth_equalityI) (simp_all add: entries_def)
qed

lemma entries_zero: "entries (replicate 512 0) = replicate 21 free_entry"
  by (simp add: entries_replicate free_entry_def entry_of_def get_at_def) (simp add: eval_nat_numeral)

lemma sample_dir_ok: "fs_ok sample_dir_fs" "file_zones sample_dir_fs (inodes sample_dir_fs p) [9]"
proof -
  let ?s = sample_dir_fs
  have sb: "sb ?s = sample_sb" by (simp add: sample_dir_fs_def sample_fs1_def sample_fs_def)
  have bits: "is_set (zone_bitmap ?s) 0" "is_set (zone_bitmap ?s) 1" "nbits (zone_bitmap ?s) = 4096"
    by (simp_all add: sample_dir_fs_def is_set_def nbits_def bit_iff_odd)
  have "map (\<lambda>i. if i = 0 then 3 else 0) [0..<512] = (3 :: u8) # replicate 511 0"
    by (rule nth_equalityI) (simp_all add: nth_Cons')
  then have "zmap_synced ?s"
    by (simp add: zmap_synced_def sb sample_sb_def) (simp add: sample_dir_fs_def bitmap_bytes_def fun_upd_def)
  moreover have "disk_ok ?s" by (simp add: disk_ok_def sample_dir_fs_def)
  moreover have "geometry_ok (sb ?s)" using sample_fs_ok(1) by (simp add: sb sample_fs_def)
  ultimately show "fs_ok ?s" using bits by (simp add: fs_ok_def free_zones_def sb sample_sb_def)
  have "zone_used ?s 9" unfolding zone_used_def
    by (rule exI [of _ 1]) (simp add: zone_of_def sb bits bits(2) [unfolded One_nat_def] sample_sb_def)
  then show "file_zones ?s (inodes ?s p) [9]" by (simp add: file_zones_def sample_dir_fs_def)
qed

theorem dir_entry_found_witness:
  "\<exists>s' s''. flush_dir_entry 0xc0100200 \<lparr>filename = 97 # replicate 15 0, i_no = 5, f_type = FT_REGULAR\<rparr> sample_dir_fs =
     Some (0, s') \<and> search_file 0xc0100200 [97] s' = Some (5, s'')"
proof -
  let ?e = "\<lparr>filename = 97 # replicate 15 0, i_no = 5, f_type = FT_REGULAR\<rparr>"
  have n: "entry_name ?e = [97]" by (simp add: entry_name_def cstr_def entry_bytes_def)
  have "slots sample_dir_fs [9] = [] @ free_entry # replicate 20 free_entry"
  proof -
    have "disk sample_dir_fs 9 = replicate 512 0" by (simp add: sample_dir_fs_def)
    moreover have "replicate 21 free_entry = free_entry # replicate 20 free_entry" by (simp flip: replicate_Suc)
    ultimately show ?thesis using entries_zero by (simp only: slots_simps append_Nil append_Nil2)
  qed
  moreover have "is_free free_entry"
    by (simp add: is_free_def free_entry_def entry_name_def cstr_def entry_bytes_def)
  moreover have "fst (fs_malloc sample_dir_fs) \<noteq> 0"
    by (simp add: sample_dir_fs_def sample_fs1_def sample_fs_def fs_malloc_def)
  ultimately show ?thesis
    using dir_entry_found [OF sample_dir_ok(1) refl sample_dir_ok(2), where e = ?e and d = "0xc0100200" and us = "[]" and x = free_entry] n
    by (auto simp: entry_ok_def)
qed


section \<open>A full directory\<close>

lemma zone_of_bound:
  assumes ok: "fs_ok s" and i: "i \<in> free_zones s" and b: "12 \<le> unat (s_data_start_lba (sb s))"
  shows "zone_of s i \<noteq> 12" "zone_of s i \<noteq> 0"
proof -
  have "unat (s_data_start_lba (sb s)) + i \<le> 163839" using ok i by (simp add: fs_ok_def)
  from unat_zone_of [OF this] have u: "unat (zone_of s i) = unat (s_data_start_lba (sb s)) + i" .
  have "i \<noteq> 0" using ok i by (cases "i = 0") (auto simp: fs_ok_def free_zones_def)
  then have "unat (zone_of s i) > 12" using u b by simp
  then show "zone_of s i \<noteq> 12" "zone_of s i \<noteq> 0" by auto
qed

text \<open>Zones put into an inode from index \<open>k\<close> on; what exceeds the twelve direct ones is dropped.\<close>

definition store_zones :: "nat \<Rightarrow> u32 list \<Rightarrow> u32 list \<Rightarrow> u32 list" where
  "store_zones k new Z = take k Z @ take (12 - k) new @ drop (k + length (take (12 - k) new)) Z"

lemma store_zones_Nil [simp]: "store_zones k [] Z = Z"
  by (simp add: store_zones_def)

lemma store_zones_Cons:
  assumes "length Z = 13"
  shows "store_zones k (z # new) Z = store_zones (Suc k) new (if k < 12 then Z[k := z] else Z)"
proof (cases "k < 12")
  case True
  then have "12 - k = Suc (12 - Suc k)" by simp
  then show ?thesis using True assms by (simp add: store_zones_def take_Suc_conv_app_nth)
qed (simp add: store_zones_def)

lemma flush_zones_new:
  assumes "fs_ok s" and "k + n \<le> length all_zones" and "\<forall>j. k \<le> j \<and> j < k + n \<longrightarrow> all_zones ! j = 0"
    and "n \<le> card (free_zones s)" and "12 \<le> unat (s_data_start_lba (sb s))" and "length (i_zones (inodes s p)) = 13"
  shows "\<exists>new s'. flush_zones n k all_zones p e s = Some (-1, s') \<and> fs_ok s' \<and> length new = n \<and> distinct new \<and>
    (\<forall>z \<in> set new. \<not> zone_used s z \<and> zone_used s' z) \<and> card (free_zones s') = card (free_zones s) - n \<and>
    inodes s' = (inodes s)(p := (inodes s p)\<lparr>i_zones := store_zones k new (i_zones (inodes s p))\<rparr>) \<and>
    inode_area s' = inode_area s \<and> (\<forall>z. zone_used s z \<longrightarrow> zone_used s' z \<and> disk s' z = disk s z)"
  using assms
proof (induction n arbitrary: k all_zones s)
  case (Suc n)
  have z: "all_zones ! k = 0" using Suc.prems(3) by simp
  have "free_zones s \<noteq> {}" using Suc.prems(4) by auto
  from new_zone_ok [OF Suc.prems(1) this] obtain i s1 where
    i: "i \<in> free_zones s" "new_zone s = Some (Some (zone_of s i), s1)" "fs_ok s1" "free_zones s1 = free_zones s - {i}"
    and e1: "s1 = s\<lparr>zone_bitmap := zone_bitmap s1, disk := disk s1\<rparr>" and ar: "inode_area s1 = inode_area s"
    and nu: "zone_used s1 (zone_of s i)" "\<not> zone_used s (zone_of s i)"
    and u: "\<forall>z. zone_used s z \<longrightarrow> zone_used s1 z"
    and d: "\<forall>a. unat (s_data_start_lba (sb s)) \<le> unat a \<longrightarrow> disk s1 a = disk s a" by blast
  have same: "sb s1 = sb s" "inodes s1 = inodes s" by (subst e1, simp)+
  note zb = zone_of_bound [OF Suc.prems(1) i(1) Suc.prems(5)]
  have keep: "zone_used s1 w \<and> disk s1 w = disk s w" if "zone_used s w" for w
    using that u d zone_used_lba(1) [OF that] by simp
  have card: "card (free_zones s1) = card (free_zones s) - 1" using i(1,4) by simp
  let ?z = "zone_of s i" and ?Z = "i_zones (inodes s p)"
  let ?s2 = "if k < 12 then set_zone p k ?z s1 else s1"
  let ?all = "if k < 12 then all_zones[k := ?z] else all_zones"
  have s2: "fs_ok ?s2" "zone_used ?s2 = zone_used s1" "free_zones ?s2 = free_zones s1" "inode_area ?s2 = inode_area s1"
    "sb ?s2 = sb s" "disk ?s2 = disk s1" using i(3) by (simp_all add: same)
  have i2: "inodes ?s2 = (inodes s)(p := (inodes s p)\<lparr>i_zones := if k < 12 then ?Z[k := ?z] else ?Z\<rparr>)"
    by (simp add: same)
  have step: "flush_zones (Suc n) k all_zones p e s = flush_zones n (Suc k) ?all p e ?s2" using z i(2) zb(1) by simp
  have "\<exists>new s'. flush_zones n (Suc k) ?all p e ?s2 = Some (-1, s') \<and> fs_ok s' \<and> length new = n \<and> distinct new \<and>
    (\<forall>z \<in> set new. \<not> zone_used ?s2 z \<and> zone_used s' z) \<and> card (free_zones s') = card (free_zones ?s2) - n \<and>
    inodes s' = (inodes ?s2)(p := (inodes ?s2 p)\<lparr>i_zones := store_zones (Suc k) new (i_zones (inodes ?s2 p))\<rparr>) \<and>
    inode_area s' = inode_area ?s2 \<and> (\<forall>z. zone_used ?s2 z \<longrightarrow> zone_used s' z \<and> disk s' z = disk ?s2 z)"
  proof (rule Suc.IH [OF s2(1)])
    show "\<forall>j. Suc k \<le> j \<and> j < Suc k + n \<longrightarrow> ?all ! j = 0" using Suc.prems(3) by simp
    show "n \<le> card (free_zones ?s2)" using Suc.prems(4) card s2(3) by simp
    show "length (i_zones (inodes ?s2 p)) = 13" using Suc.prems(6) by (simp add: i2)
  qed (use Suc.prems(2,5) s2(5) in simp_all)
  then obtain new s' where s': "flush_zones n (Suc k) ?all p e ?s2 = Some (-1, s')" "fs_ok s'" "length new = n" "distinct new"
    "\<forall>z \<in> set new. \<not> zone_used s1 z \<and> zone_used s' z" "card (free_zones s') = card (free_zones s1) - n"
    "inodes s' = (inodes ?s2)(p := (inodes ?s2 p)\<lparr>i_zones := store_zones (Suc k) new (i_zones (inodes ?s2 p))\<rparr>)"
    "inode_area s' = inode_area s" "\<forall>z. zone_used s1 z \<longrightarrow> zone_used s' z \<and> disk s' z = disk s1 z"
    unfolding s2 ar by blast
  have "inodes s' = (inodes s)(p := (inodes s p)\<lparr>i_zones := store_zones k (?z # new) ?Z\<rparr>)"
    unfolding s'(7) i2 store_zones_Cons [OF Suc.prems(6)] by simp
  moreover have "?z \<notin> set new" using s'(5) nu(1) by blast
  ultimately show ?case
    using step s' card keep nu u by (intro exI [of _ "?z # new"] exI [of _ s']) auto
qed simp

text \<open>C32. A directory in which every slot of its zones is used takes no new entry: the call allocates a
  zone for each of the remaining indices up to 140 but stores the entry in none of them, and fails. The
  first zones, up to the twelfth, get into the inode of the directory in memory; the other 128 are marked
  in use in the bitmap, but no inode refers to them: they were free before, the inode of the directory
  does not name them, and all other inodes in memory, the inode table on disk and the content of all
  zones in use before are unchanged. The entries and the size of the directory do not change.\<close>

theorem dir_full_leaks_zones:
  assumes ok: "fs_ok s" and p: "p = dir_inode (dirs s d)" and fz: "file_zones s (inodes s p) zs"
    and us: "\<forall>u \<in> set (slots s zs). \<not> is_free u" and b: "12 \<le> unat (s_data_start_lba (sb s))"
    and n: "140 - length zs \<le> card (free_zones s)"
  shows "\<exists>s' kept lost. flush_dir_entry d e s = Some (-1, s') \<and> fs_ok s' \<and> slots s' zs = slots s zs \<and>
    card (free_zones s') = card (free_zones s) - (140 - length zs) \<and>
    length kept = 12 - length zs \<and> length lost = 128 \<and> distinct (kept @ lost) \<and>
    inodes s' = (inodes s)(p := (inodes s p)\<lparr>i_zones := zs @ kept @ [0]\<rparr>) \<and>
    (\<forall>z \<in> set lost. \<not> zone_used s z \<and> zone_used s' z \<and> z \<notin> set (i_zones (inodes s' p))) \<and>
    inode_area s' = inode_area s \<and> (\<forall>z. zone_used s z \<longrightarrow> disk s' z = disk s z)"
proof -
  let ?all = "zs @ replicate (140 - length zs) 0" and ?n = "140 - length zs"
  have l: "length zs \<le> 12" using fz by (simp add: file_zones_def)
  have Z: "i_zones (inodes s p) = zs @ replicate (13 - length zs) 0" using fz by (simp add: file_zones_def)
  have used: "zone_used s w" if "w \<in> set zs" for w using fz that by (simp add: file_zones_def)
  then have nz: "\<forall>w \<in> set zs. w \<noteq> 0 \<and> w \<le> max_lba" using zone_used_lba(2,3) by blast
  have "length zs + ?n \<le> length ?all"
    "\<forall>j. length zs \<le> j \<and> j < length zs + ?n \<longrightarrow> ?all ! j = 0" by (auto simp: nth_append)
  from flush_zones_new [OF ok this n b, of p e] Z l obtain new s' where
    s': "flush_zones ?n (length zs) ?all p e s = Some (-1, s')" "fs_ok s'" "length new = ?n" "distinct new"
    "\<forall>z \<in> set new. \<not> zone_used s z \<and> zone_used s' z" "card (free_zones s') = card (free_zones s) - ?n"
    "inodes s' = (inodes s)(p := (inodes s p)\<lparr>i_zones := store_zones (length zs) new (i_zones (inodes s p))\<rparr>)"
    "inode_area s' = inode_area s" "\<forall>z. zone_used s z \<longrightarrow> zone_used s' z \<and> disk s' z = disk s z" by auto
  define kept lost where "kept = take (12 - length zs) new" and "lost = drop (12 - length zs) new"
  have kl: "new = kept @ lost" "length kept = 12 - length zs" "length lost = 128"
    using s'(3) l by (simp_all add: kept_def lost_def)
  have "store_zones (length zs) new (i_zones (inodes s p)) = zs @ kept @ [0]"
    unfolding Z store_zones_def kept_def [symmetric] using kl(2) l by simp
  then have i': "inodes s' = (inodes s)(p := (inodes s p)\<lparr>i_zones := zs @ kept @ [0]\<rparr>)" using s'(7) by simp
  have "z \<notin> set (i_zones (inodes s' p))" if "z \<in> set lost" for z
    using that s'(4,5) used zone_used_lba(3) [of s' z] unfolding i' kl(1) by auto
  moreover have "flush_zones (length zs + ?n) 0 ?all p e s = flush_zones ?n (0 + length zs) ?all p e s"
    by (rule flush_zones_skip [OF nz]) (use us in \<open>auto simp: nth_append\<close>)
  then have "flush_dir_entry d e s = Some (-1, s')"
    using l s'(1) table_zones_of_file [OF fz] by (simp add: flush_dir_entry_def p [symmetric])
  moreover have "slots s' zs = slots s zs" using s'(9) used by (intro slots_cong) blast
  ultimately show ?thesis
    using s'(2,4-6,8,9) kl i' by (intro exI [of _ s'] exI [of _ kept] exI [of _ lost]) simp
qed


text \<open>The sample directory with all 21 slots used, on a partition whose data starts at sector 20.\<close>

definition sample_full_fs :: fsys where
  "sample_full_fs = sample_dir_fs\<lparr>sb := sample_sb\<lparr>s_data_start_lba := 20\<rparr>,
     disk := (\<lambda>_. replicate 512 0)(3 := 3 # replicate 511 0, 21 := replicate 512 1),
     inodes := (\<lambda>_. zero_inode\<lparr>i_num := 1, i_zones := 21 # replicate 12 0\<rparr>)\<rparr>"

lemma sample_full_ok:
  "fs_ok sample_full_fs" "file_zones sample_full_fs (inodes sample_full_fs p) [21]"
  "140 - length [21 :: u32] \<le> card (free_zones sample_full_fs)"
proof -
  let ?s = sample_full_fs
  have sb: "sb ?s = sample_sb\<lparr>s_data_start_lba := 20\<rparr>" by (simp add: sample_full_fs_def)
  have bm: "zone_bitmap ?s = \<lparr>bits = (\<lambda>_. 0)(0 := 3), map_bytes_length = 512\<rparr>"
    by (simp add: sample_full_fs_def sample_dir_fs_def)
  have bits: "is_set (zone_bitmap ?s) 0" "is_set (zone_bitmap ?s) (Suc 0)" "nbits (zone_bitmap ?s) = 4096"
    by (simp_all add: bm is_set_def nbits_def bit_iff_odd)
  have "map (\<lambda>i. if i = 0 then 3 else 0) [0..<512] = (3 :: u8) # replicate 511 0"
    by (rule nth_equalityI) (simp_all add: nth_Cons')
  then have "zmap_synced ?s"
    by (simp add: zmap_synced_def sb sample_sb_def bm) (simp add: sample_full_fs_def bitmap_bytes_def fun_upd_def)
  moreover have "disk_ok ?s" by (simp add: disk_ok_def sample_full_fs_def)
  moreover have "geometry_ok (sb ?s)" by (simp add: sb geometry_ok_def sample_sb_def max_lba_def)
  ultimately show "fs_ok ?s" using bits by (simp add: fs_ok_def free_zones_def sb sample_sb_def)
  have "zone_used ?s 21" unfolding zone_used_def
    by (rule exI [of _ 1]) (simp add: zone_of_def sb bits sample_sb_def)
  then show "file_zones ?s (inodes ?s p) [21]" by (simp add: file_zones_def sample_full_fs_def)
  have "\<not> is_set (zone_bitmap ?s) k" if "8 \<le> k" for k using that by (simp add: bm is_set_def)
  then have "{8..<200} \<subseteq> free_zones ?s" by (auto simp: free_zones_def bits)
  then have "card {8..<200::nat} \<le> card (free_zones ?s)" by (intro card_mono) simp_all
  then show "140 - length [21 :: u32] \<le> card (free_zones ?s)" by simp
qed

theorem dir_full_leaks_zones_witness:
  "\<exists>s'. flush_dir_entry 0xc0100200 free_entry sample_full_fs = Some (-1, s') \<and>
     card (free_zones s') = card (free_zones sample_full_fs) - 139"
proof -
  have "disk sample_full_fs 21 = replicate 512 1" by (simp add: sample_full_fs_def)
  then have "slots sample_full_fs [21] = replicate 21 (entry_of (replicate 24 1))"
    by (simp add: entries_replicate)
  moreover have "\<not> is_free (entry_of (replicate 24 1))"
    by (simp add: is_free_def entry_name_def cstr_def entry_bytes_def entry_of_def) (simp add: eval_nat_numeral)
  moreover have "unat (s_data_start_lba (sb sample_full_fs)) = 20" by (simp add: sample_full_fs_def)
  ultimately show ?thesis
    using dir_full_leaks_zones [OF sample_full_ok(1) refl sample_full_ok(2) _ _ sample_full_ok(3),
        where d = "0xc0100200" and e = free_entry] by auto
qed


section \<open>Deleting\<close>

text \<open>The inode table lies behind the sectors before the zone bitmap.\<close>

lemma before_table:
  assumes "geometry_ok b" "unat a < unat (s_inode_table_lba b)"
  shows "unat (s_inode_table_sz b) \<le> unat (a - s_inode_table_lba b)"
proof -
  have "unat (s_inode_table_lba b) + unat (s_inode_table_sz b) \<le> 163839"
    using assms(1) unat_max_lba unfolding geometry_ok_def word_le_nat_alt by linarith
  moreover have "unat (a - s_inode_table_lba b) = unat a + 2 ^ 32 - unat (s_inode_table_lba b)"
    using assms(2) by (simp add: unat_sub_if_size word_size)
  ultimately show ?thesis by simp
qed

lemma put_at_idem:
  assumes "off + length bs \<le> length buf"
  shows "put_at off bs (put_at off bs buf) = put_at off bs buf"
  using assms by (intro nth_equalityI) (auto simp: nth_put_at)

lemma last_hit_none: "(\<And>e. e \<in> set es \<Longrightarrow> i_no e \<noteq> nr) \<Longrightarrow> last_hit nr es = None"
  by (simp add: last_hit_def)

lemma last_hit_only:
  assumes "j < length es" "i_no (es ! j) = nr" "\<And>k. k < length es \<Longrightarrow> i_no (es ! k) = nr \<Longrightarrow> k = j"
  shows "last_hit nr es = Some j"
proof -
  let ?js = "filter (\<lambda>k. i_no (es ! k) = nr) [0..<length es]"
  have "last ?js \<in> set ?js" by (rule last_in_set) (use assms(1,2) in \<open>auto simp: filter_empty_conv\<close>)
  then have "last ?js = j" using assms(3) by auto
  moreover have "?js \<noteq> []" using assms(1,2) by (auto simp: filter_empty_conv)
  ultimately show ?thesis by (simp add: last_hit_def Let_def)
qed

text \<open>One turn of the loop behind the hit: a sector outside the inode table is written and the inode
  flushed.\<close>

lemma delete_turn:
  assumes g: "geometry_ok (sb s)" and d: "disk_ok s" and i: "i_num (inodes s p) < s_ninodes (sb s)" "inode_ok (inodes s p)"
    and z: "z \<le> max_lba" and b: "length buf = 512"
  shows "\<exists>s'. flush_inode ((inodes s p)\<lparr>i_size := i_size (inodes s p) - 24\<rparr>)
      (upd_inode p (\<lambda>i. i\<lparr>i_size := i_size i - 24\<rparr>) (s\<lparr>disk := (disk s)(z := buf)\<rparr>)) = Some s' \<and>
    sb s' = sb s \<and> disk_ok s' \<and> inodes s' = (inodes s)(p := (inodes s p)\<lparr>i_size := i_size (inodes s p) - 24\<rparr>) \<and>
    (\<forall>a. unat (s_inode_table_sz (sb s)) \<le> unat (a - s_inode_table_lba (sb s)) \<longrightarrow>
      disk s' a = (if a = z then buf else disk s a))"
proof -
  let ?i = "(inodes s p)\<lparr>i_size := i_size (inodes s p) - 24\<rparr>"
  let ?s = "upd_inode p (\<lambda>i. i\<lparr>i_size := i_size i - 24\<rparr>) (s\<lparr>disk := (disk s)(z := buf)\<rparr>)"
  have f: "sb ?s = sb s" "inodes ?s = (inodes s)(p := ?i)" "disk ?s = (disk s)(z := buf)"
    by (simp_all add: upd_inode_def)
  have "geometry_ok (sb ?s)" "disk_ok ?s" "i_num ?i < s_ninodes (sb ?s)" "inode_ok ?i"
    using g d i b by (simp_all add: f disk_ok_def inode_ok_def)
  from flush_inode_ok [OF this] obtain s' where
    s': "flush_inode ?i ?s = Some s'" "disk_ok s'" and e: "s' = ?s\<lparr>disk := disk s'\<rparr>"
    and out: "\<forall>a. unat (s_inode_table_sz (sb ?s)) \<le> unat (a - s_inode_table_lba (sb ?s)) \<longrightarrow> disk s' a = disk ?s a" by blast
  have "sb s' = sb ?s" "inodes s' = inodes ?s" by (subst e, simp)+
  then show ?thesis using s' out by (intro exI [of _ s']) (simp add: f)
qed

text \<open>The turns over the zones that are not used: sector 0.\<close>

lemma delete_zones_rest:
  assumes "geometry_ok (sb s)" and "disk_ok s" and "i_num (inodes s p) < s_ninodes (sb s)" "inode_ok (inodes s p)"
    and "0 < unat (s_inode_table_lba (sb s))" and "k + n \<le> length all_zones"
    and "\<forall>q. k \<le> q \<and> q < k + n \<longrightarrow> all_zones ! q = 0" and "j < 21"
    and "\<forall>e \<in> set (entries (disk s 0)). i_no e \<noteq> nr" and "nr \<noteq> 0"
    and "zone_links (entries (disk s 0)) \<noteq> 0"
    and "zone_links (entries (put_at (24 * j) (replicate 24 0) (disk s 0))) \<noteq> 0"
  shows "\<exists>s'. delete_zones low n k all_zones (Some j) p nr s = Some s' \<and>
    i_size (inodes s' p) = i_size (inodes s p) - 24 * of_nat n \<and>
    (0 < n \<longrightarrow> disk s' 0 = put_at (24 * j) (replicate 24 0) (disk s 0)) \<and>
    (\<forall>a. a \<noteq> 0 \<and> unat (s_inode_table_sz (sb s)) \<le> unat (a - s_inode_table_lba (sb s)) \<longrightarrow> disk s' a = disk s a)"
  using assms
proof (induction n arbitrary: k s)
  case (Suc n)
  let ?b = "put_at (24 * j) (replicate 24 0) (disk s 0)"
  have z: "all_zones ! k = 0" using Suc.prems(7) by simp
  have l: "length (disk s 0) = 512" using Suc.prems(2) by (simp add: disk_ok_def)
  then have lb: "length ?b = 512" using Suc.prems(8) by simp
  have hit: "last_hit nr (entries (disk s 0)) = None" using Suc.prems(9) by (intro last_hit_none) blast
  from delete_turn [OF Suc.prems(1-4) _ lb, of 0] obtain s1 where
    s1: "flush_inode ((inodes s p)\<lparr>i_size := i_size (inodes s p) - 24\<rparr>)
      (upd_inode p (\<lambda>i. i\<lparr>i_size := i_size i - 24\<rparr>) (s\<lparr>disk := (disk s)(0 := ?b)\<rparr>)) = Some s1" "sb s1 = sb s" "disk_ok s1"
    "inodes s1 = (inodes s)(p := (inodes s p)\<lparr>i_size := i_size (inodes s p) - 24\<rparr>)"
    "\<forall>a. unat (s_inode_table_sz (sb s)) \<le> unat (a - s_inode_table_lba (sb s)) \<longrightarrow> disk s1 a = (if a = 0 then ?b else disk s a)"
    by auto
  have d0: "disk s1 0 = ?b" using s1(5) before_table [OF Suc.prems(1), of 0] Suc.prems(5) by simp
  have turn: "delete_zones low (Suc n) k all_zones (Some j) p nr s = delete_zones low n (Suc k) all_zones (Some j) p nr s1"
    using z hit Suc.prems(11) lb s1(1) by (simp add: ide_read_1 ide_write_1 upd_inode_def)
  have idem: "put_at (24 * j) (replicate 24 0) ?b = ?b" using l Suc.prems(8) by (intro put_at_idem) simp
  have "\<exists>s'. delete_zones low n (Suc k) all_zones (Some j) p nr s1 = Some s' \<and>
    i_size (inodes s' p) = i_size (inodes s1 p) - 24 * of_nat n \<and>
    (0 < n \<longrightarrow> disk s' 0 = put_at (24 * j) (replicate 24 0) (disk s1 0)) \<and>
    (\<forall>a. a \<noteq> 0 \<and> unat (s_inode_table_sz (sb s1)) \<le> unat (a - s_inode_table_lba (sb s1)) \<longrightarrow> disk s' a = disk s1 a)"
  proof (rule Suc.IH)
    have "entries ?b = (entries (disk s 0))[j := entry_of (replicate 24 0)]"
      using l Suc.prems(8) by (intro entries_put) simp_all
    moreover have "i_no (entry_of (replicate 24 0)) = 0" by (simp add: entry_of_def get_at_def) (simp add: eval_nat_numeral)
    ultimately show "\<forall>e \<in> set (entries (disk s1 0)). i_no e \<noteq> nr"
      using Suc.prems(9,10) set_update_subset_insert [of "entries (disk s 0)" j "entry_of (replicate 24 0)"]
      by (auto simp: d0)
  qed (use Suc.prems s1 d0 idem in \<open>auto simp: inode_ok_def\<close>)
  then obtain s' where s': "delete_zones low n (Suc k) all_zones (Some j) p nr s1 = Some s'"
    "i_size (inodes s' p) = i_size (inodes s1 p) - 24 * of_nat n"
    "0 < n \<longrightarrow> disk s' 0 = put_at (24 * j) (replicate 24 0) (disk s1 0)"
    "\<forall>a. a \<noteq> 0 \<and> unat (s_inode_table_sz (sb s1)) \<le> unat (a - s_inode_table_lba (sb s1)) \<longrightarrow> disk s' a = disk s1 a" by blast
  have "disk s' 0 = ?b"
  proof (cases n)
    case 0
    then show ?thesis using s'(1) d0 by simp
  qed (use s'(3) d0 idem in simp)
  moreover have "i_size (inodes s' p) = i_size (inodes s p) - 24 * of_nat (Suc n)"
    using s'(2) s1(4) by (simp add: algebra_simps)
  ultimately show ?case using turn s'(1,4) s1(2,5) by auto
qed simp


lemma zone_links_pos: "e \<in> set es \<Longrightarrow> entry_name e \<noteq> [46] \<Longrightarrow> entry_name e \<noteq> [46, 46] \<Longrightarrow> zone_links es \<noteq> 0"
  by (auto simp: zone_links_def filter_empty_conv)

lemma nth_zeros: "1 \<le> q \<Longrightarrow> q < 1 + n \<Longrightarrow> (z # replicate n 0) ! q = 0"
  by (cases q) simp_all

text \<open>C31. Deleting an entry does more than that. The entry is the only one with its inode, in slot \<open>j\<close>
  of a directory of one zone; the caller can write to address 0. Its slot is cleared, but the same slot
  of sector 0, the boot sector, is cleared as well, once for each of the 139 unused zones, and the size
  of the directory shrinks by 140 entries; all sectors outside the inode table other than these two
  keep their content.\<close>

theorem delete_entry_clears_boot_slot:
  assumes ok: "fs_ok s" and p: "p = dir_inode (dirs s d)" and fz: "file_zones s (inodes s p) [z]"
    and i: "i_num (inodes s p) < s_ninodes (sb s)" and T: "0 < unat (s_inode_table_lba (sb s))"
    and j: "j < 21" "i_no (entries (disk s z) ! j) = nr" "\<forall>k < 21. i_no (entries (disk s z) ! k) = nr \<longrightarrow> k = j"
    and name: "entry_name (entries (disk s z) ! j) \<notin> {[46], [46, 46]}" and nr: "nr \<noteq> 0"
    and boot: "\<forall>e \<in> set (entries (disk s 0)). i_no e \<noteq> nr" "zone_links (entries (disk s 0)) \<noteq> 0"
  shows "\<exists>s'. delete_dir_entry True d nr s = Some s' \<and>
    disk s' z = put_at (24 * j) (replicate 24 0) (disk s z) \<and>
    disk s' 0 = put_at (24 * j) (replicate 24 0) (disk s 0) \<and>
    i_size (inodes s' p) = i_size (inodes s p) - 24 * 140 \<and>
    (\<forall>a. a \<noteq> 0 \<and> a \<noteq> z \<and> unat (s_inode_table_sz (sb s)) \<le> unat (a - s_inode_table_lba (sb s)) \<longrightarrow> disk s' a = disk s a)"
proof -
  let ?all = "z # replicate 139 0" and ?b = "put_at (24 * j) (replicate 24 0) (disk s z)"
  have used: "zone_used s z" using fz by (simp add: file_zones_def)
  note zl = zone_used_lba [OF used]
  have io: "inode_ok (inodes s p)" using file_zonesD(4) [OF fz] .
  have l: "length (disk s a) = 512" for a by (rule fs_okD(4) [OF ok])
  then have lb: "length ?b = 512" using j(1) by simp
  note g = fs_okD(1,2) [OF ok]
  have zt: "unat (s_inode_table_sz (sb s)) \<le> unat (z - s_inode_table_lba (sb s))"
    using outside_zmap(2) [OF g(1)] zl(1) by simp
  from delete_turn [OF g i io zl(2) lb] obtain s1 where
    s1: "flush_inode ((inodes s p)\<lparr>i_size := i_size (inodes s p) - 24\<rparr>)
      (upd_inode p (\<lambda>i. i\<lparr>i_size := i_size i - 24\<rparr>) (s\<lparr>disk := (disk s)(z := ?b)\<rparr>)) = Some s1" "sb s1 = sb s" "disk_ok s1"
    "inodes s1 = (inodes s)(p := (inodes s p)\<lparr>i_size := i_size (inodes s p) - 24\<rparr>)"
    "\<forall>a. unat (s_inode_table_sz (sb s)) \<le> unat (a - s_inode_table_lba (sb s)) \<longrightarrow> disk s1 a = (if a = z then ?b else disk s a)"
    by blast
  have d0: "disk s1 0 = disk s 0" using s1(5) before_table [OF g(1), of 0] T zl(3) by simp
  have hit: "last_hit nr (entries (disk s z)) = Some j"
  proof (rule last_hit_only [where j = j and nr = nr])
    show "j < length (entries (disk s z))" "i_no (entries (disk s z) ! j) = nr" using j(1,2) by (simp_all only: length_entries)
    show "k = j" if "k < length (entries (disk s z))" "i_no (entries (disk s z) ! k) = nr" for k
      using that j(3) by (simp only: length_entries)
  qed
  have "entries (disk s z) ! j \<in> set (entries (disk s z))" using j(1) by (intro nth_mem) simp
  then have links: "zone_links (entries (disk s z)) \<noteq> 0" using name by (intro zone_links_pos) auto
  have "entries (put_at (24 * j) (replicate 24 0) (disk s 0)) = (entries (disk s 0))[j := entry_of (replicate 24 0)]"
    using l j(1) by (intro entries_put) simp_all
  then have "entry_of (replicate 24 0) \<in> set (entries (put_at (24 * j) (replicate 24 0) (disk s 0)))"
    using j(1) by (simp add: set_update_memI)
  moreover have "entry_name (entry_of (replicate 24 0)) = []"
    by (simp add: entry_name_def cstr_def entry_bytes_def entry_of_def)
  ultimately have links0: "zone_links (entries (put_at (24 * j) (replicate 24 0) (disk s 0))) \<noteq> 0"
    by (intro zone_links_pos) auto
  have "\<exists>s'. delete_zones True 139 1 ?all (Some j) p nr s1 = Some s' \<and>
    i_size (inodes s' p) = i_size (inodes s1 p) - 24 * of_nat 139 \<and>
    (0 < (139::nat) \<longrightarrow> disk s' 0 = put_at (24 * j) (replicate 24 0) (disk s1 0)) \<and>
    (\<forall>a. a \<noteq> 0 \<and> unat (s_inode_table_sz (sb s1)) \<le> unat (a - s_inode_table_lba (sb s1)) \<longrightarrow> disk s' a = disk s1 a)"
  proof (rule delete_zones_rest)
    show "\<forall>q. 1 \<le> q \<and> q < 1 + 139 \<longrightarrow> ?all ! q = 0" by (intro allI impI nth_zeros) simp_all
    show "inode_ok (inodes s1 p)" using io by (simp add: s1(4) inode_ok_def)
    show "\<forall>e \<in> set (entries (disk s1 0)). i_no e \<noteq> nr" unfolding d0 by (rule boot(1))
    show "zone_links (entries (put_at (24 * j) (replicate 24 0) (disk s1 0))) \<noteq> 0" unfolding d0 by (rule links0)
    show "zone_links (entries (disk s1 0)) \<noteq> 0" unfolding d0 by (rule boot(2))
  qed (simp_all add: s1(2-4) g i T j(1) nr)
  then obtain s' where s': "delete_zones True 139 1 ?all (Some j) p nr s1 = Some s'"
    "i_size (inodes s' p) = i_size (inodes s1 p) - 24 * of_nat 139"
    "disk s' 0 = put_at (24 * j) (replicate 24 0) (disk s1 0)"
    "\<forall>a. a \<noteq> 0 \<and> unat (s_inode_table_sz (sb s1)) \<le> unat (a - s_inode_table_lba (sb s1)) \<longrightarrow> disk s' a = disk s1 a" by auto
  have "delete_zones True (Suc 139) 0 ?all None p nr s = delete_zones True 139 (Suc 0) ?all (Some j) p nr s1"
    using hit links zl(2) lb s1(1)
    by (subst delete_zones.simps) (simp del: replicate_Suc add: ide_read_1 ide_write_1 upd_inode_def Let_def)
  then have "delete_dir_entry True d nr s = Some s'"
    using all_zones_of_file [OF fz] s'(1) by (simp del: delete_zones.simps add: delete_dir_entry_def p [symmetric])
  moreover have "disk s' z = ?b" using s'(4) s1(2,5) zt zl(3) by simp
  moreover have "i_size (inodes s' p) = i_size (inodes s p) - 24 * 140" using s'(2) s1(4) by simp
  moreover have "disk s' a = disk s a"
    if "a \<noteq> 0" "a \<noteq> z" "unat (s_inode_table_sz (sb s)) \<le> unat (a - s_inode_table_lba (sb s))" for a
    using that s'(4) s1(2,5) by simp
  moreover have "disk s' 0 = put_at (24 * j) (replicate 24 0) (disk s 0)" using s'(3) unfolding d0 .
  ultimately show ?thesis by blast
qed


text \<open>The sample directory with one entry, in its first slot.\<close>

definition sample_entry :: dir_entry where
  "sample_entry = \<lparr>filename = 97 # replicate 15 0, i_no = 5, f_type = FT_REGULAR\<rparr>"

definition sample_one_fs :: fsys where
  "sample_one_fs = sample_dir_fs\<lparr>disk := (disk sample_dir_fs)(9 := put_at (24 * 0) (entry_bytes sample_entry) (replicate 512 0))\<rparr>"

lemma sample_one_ok:
  "fs_ok sample_one_fs" "file_zones sample_one_fs (inodes sample_one_fs p) [9]"
  "entries (disk sample_one_fs 9) = sample_entry # replicate 20 free_entry"
  "entries (disk sample_one_fs 0) = replicate 21 free_entry"
proof -
  let ?b = "put_at (24 * 0) (entry_bytes sample_entry) (replicate 512 0)"
  have e: "entry_ok sample_entry" "length (entry_bytes sample_entry) = 24"
    by (simp_all add: sample_entry_def entry_ok_def entry_bytes_def)
  have "unat (s_data_start_lba (sb sample_dir_fs)) = 8"
    by (simp add: sample_dir_fs_def sample_fs1_def sample_fs_def sample_sb_def)
  moreover have "length ?b = 512" using e(2) by simp
  ultimately show "fs_ok sample_one_fs"
    unfolding sample_one_fs_def by (intro data_write(1) [OF sample_dir_ok(1)]) simp_all
  have "zone_used sample_one_fs = zone_used sample_dir_fs"
    by (intro ext) (simp add: sample_one_fs_def zone_used_def zone_of_def)
  then show "file_zones sample_one_fs (inodes sample_one_fs p) [9]"
    using sample_dir_ok(2) by (simp add: file_zones_def sample_one_fs_def)
  have "entries ?b = (replicate 21 free_entry)[0 := sample_entry]"
    using entries_put [of "replicate 512 0" 0 "entry_bytes sample_entry"] entry_codec.dec_enc [OF e(1)] e(2) entries_zero
    by simp
  moreover have "replicate 21 free_entry = free_entry # replicate 20 free_entry" by (simp flip: replicate_Suc)
  ultimately show "entries (disk sample_one_fs 9) = sample_entry # replicate 20 free_entry" by (simp add: sample_one_fs_def)
  show "entries (disk sample_one_fs 0) = replicate 21 free_entry"
    using entries_zero by (simp add: sample_one_fs_def sample_dir_fs_def)
qed

lemma sample_one_fields:
  "i_num (inodes sample_one_fs p) = 1" "s_ninodes (sb sample_one_fs) = 20" "s_inode_table_lba (sb sample_one_fs) = 4"
  "i_size (inodes sample_one_fs p) = 0" "dir_inode (dirs sample_one_fs d) = 0xc0100000"
  by (simp_all add: sample_one_fs_def sample_dir_fs_def sample_fs1_def sample_fs_def sample_sb_def zero_inode_def)

lemma sample_names: "entry_name free_entry = []" "i_no free_entry = 0" "entry_name sample_entry = [97]"
  "i_no sample_entry = 5" "f_type sample_entry = FT_REGULAR"
  by (simp_all add: entry_name_def cstr_def entry_bytes_def free_entry_def sample_entry_def)

theorem delete_entry_clears_boot_slot_witness:
  "\<exists>s'. delete_dir_entry True 0xc0100200 5 sample_one_fs = Some s' \<and> i_size (inodes s' 0xc0100000) = - 3360"
proof -
  let ?s = sample_one_fs
  note es = sample_one_ok(3)
  have only: "\<forall>k < 21. i_no (entries (disk ?s 9) ! k) = 5 \<longrightarrow> k = 0"
  proof (intro allI impI)
    fix k :: nat assume "k < 21" "i_no (entries (disk ?s 9) ! k) = 5"
    then show "k = 0" unfolding es by (cases k) (simp_all add: sample_names)
  qed
  have boot: "\<forall>e \<in> set (entries (disk ?s 0)). i_no e \<noteq> 5" "zone_links (entries (disk ?s 0)) \<noteq> 0"
    unfolding sample_one_ok(4) by (simp_all add: zone_links_def sample_names)
  have f: "i_num (inodes ?s p) < s_ninodes (sb ?s)" "0 < unat (s_inode_table_lba (sb ?s))" for p
    by (simp_all add: sample_one_fields)
  have "i_no (entries (disk ?s 9) ! 0) = 5" "entry_name (entries (disk ?s 9) ! 0) \<notin> {[46], [46, 46]}"
    unfolding es by (simp_all add: sample_names)
  from delete_entry_clears_boot_slot [OF sample_one_ok(1) refl sample_one_ok(2) f _ this(1) only this(2) _ boot,
      where d = "0xc0100200"]
  show ?thesis by (auto simp: sample_one_fields)
qed

end
