(* ===== verification/FsSpec.thy ===== *)
theory FsSpec
  imports DirSpec
begin

text \<open>
  Properties of the system calls on paths and of formatting (\<^verbatim>\<open>core/fs/fs.c\<close>): splitting a path gives
  back its parts, where a path of one directory is looked up, the position of a file stays inside it,
  and a formatted partition mounts as a well-formed file system.
\<close>

section \<open>Splitting paths\<close>

lemma slashes_last:
  assumes "name \<noteq> []" "47 \<notin> set (butlast name)"
  shows "slashes (q @ 47 # name) \<noteq> []" "last (slashes (q @ 47 # name)) = length q"
proof -
  let ?p = "q @ 47 # name"
  have n: "length ?p - 1 = length q + (1 + (length name - 1))" using assms(1) by (cases name) simp_all
  have none: "filter (\<lambda>i. ?p ! i = 47) [Suc (length q)..<length q + (1 + (length name - 1))] = []"
  proof -
    have "?p ! i \<noteq> 47" if i: "Suc (length q) \<le> i" "i < length q + (1 + (length name - 1))" for i
    proof -
      define j where "j = i - Suc (length q)"
      have j: "i = Suc (length q) + j" "j < length (butlast name)" using i by (simp_all add: j_def)
      then have "?p ! i = butlast name ! j" by (simp add: nth_append nth_butlast)
      then show ?thesis using assms(2) nth_mem [OF j(2)] by metis
    qed
    then show ?thesis unfolding filter_empty_conv set_upt by (metis atLeastLessThan_iff)
  qed
  have "[0..<length q + (1 + (length name - 1))] =
      [0..<length q] @ length q # [Suc (length q)..<length q + (1 + (length name - 1))]"
    by (subst upt_add_eq_append) (simp_all add: upt_conv_Cons)
  then have "slashes ?p = filter (\<lambda>i. ?p ! i = 47) [0..<length q] @ [length q]"
    unfolding slashes_def n using none by simp
  then show "slashes ?p \<noteq> []" "last (slashes ?p) = length q" by simp_all
qed

lemma path_peel_snoc:
  assumes "name \<noteq> []" "47 \<notin> set (butlast name)" "length name < 16"
  shows "path_peel (q @ 47 # name) = Some (q @ [47], name)"
  using slashes_last [OF assms(1,2), of q] assms(1,3) 
  by (auto simp: path_peel_def Let_def append_eq_Cons_conv)

text \<open>A path with directories \<open>ds\<close> and the name \<open>name\<close>. The names of directories on disk end with a
  slash.\<close>

definition dir_name :: "u8 list \<Rightarrow> bool" where
  "dir_name d \<longleftrightarrow> d \<noteq> [] \<and> 47 \<notin> set d \<and> length d < 15"

definition dir_path :: "u8 list list \<Rightarrow> u8 list" where
  "dir_path ds = 47 # concat (map (\<lambda>d. d @ [47]) ds)"

lemma dir_path_nonempty [simp]: "dir_path ds \<noteq> []"
  by (simp add: dir_path_def)

lemma dir_path_snoc: "dir_path (ds @ [d]) = dir_path ds @ d @ [47]"
  by (simp add: dir_path_def)

lemma dir_path_last: "\<exists>q. dir_path ds = q @ [47]"
  by (cases ds rule: rev_cases) (auto simp: dir_path_def intro: exI [of _ "[]"])

lemma peel_dir_path:
  assumes "name \<noteq> []" "47 \<notin> set (butlast name)" "length name < 16"
  shows "path_peel (dir_path ds @ name) = Some (dir_path ds, name)"
proof -
  obtain q where q: "dir_path ds = q @ [47]" using dir_path_last by blast
  then show ?thesis using path_peel_snoc [OF assms, of q] by simp
qed

lemma peel_dir: "dir_name d \<Longrightarrow> path_peel (dir_path ds @ d @ [47]) = Some (dir_path ds, d @ [47])"
  by (intro peel_dir_path) (auto simp: dir_name_def)

lemma dir_path_neq: "name \<noteq> [] \<Longrightarrow> dir_path ds @ name \<noteq> [47]"
  using dir_path_last [of ds] by (auto simp: append_eq_Cons_conv)

lemma depth_dir_path:
  "\<forall>d \<in> set ds. dir_name d \<Longrightarrow> path_depth_loop (dir_path ds) n = Some (n + of_nat (length ds))"
proof (induction ds arbitrary: n rule: rev_induct)
  case Nil
  then show ?case by (subst path_depth_loop.simps) (simp add: dir_path_def)
next
  case (snoc d ds)
  then have d: "dir_name d" by simp
  show ?case
    using snoc dir_path_neq [of "d @ [47]" ds] peel_dir [OF d, of ds]
    by (subst path_depth_loop.simps) (simp add: dir_path_snoc ac_simps)
qed

lemma dirs_dir_path:
  "\<forall>d \<in> set ds. dir_name d \<Longrightarrow> path_dirs_loop (dir_path ds) = Some (rev (map (\<lambda>d. d @ [47]) ds))"
proof (induction ds rule: rev_induct)
  case Nil
  then show ?case by (subst path_dirs_loop.simps) (simp add: dir_path_def)
next
  case (snoc d ds)
  then have d: "dir_name d" by simp
  show ?case
    using snoc dir_path_neq [of "d @ [47]" ds] peel_dir [OF d, of ds]
    by (subst path_dirs_loop.simps) (simp add: dir_path_snoc)
qed

lemma malloc_allocs: "fst (fs_malloc s) \<noteq> 0 \<Longrightarrow> \<exists>a as. allocs s = a # as \<and> a \<noteq> 0 \<and> fs_malloc s = (a, s\<lparr>allocs := as\<rparr>)"
  by (cases "allocs s") (simp_all add: fs_malloc_def)

text \<open>C30. Splitting a path gives back its parts: for a path built from directory names (at most 14
  bytes) and a file name (at most 15), of any number and any length, peeling returns the path of the
  directory and the name. With memory left, the depth is the number of parts, and \<open>path_dirs\<close> returns the
  directories, the innermost first (the comment above it lists them from the outermost), each with the
  slash its name has on disk. But both work on a copy that has no room for its terminator: when the
  length of the path fills the block that the allocator gives, they read on behind the copy.\<close>

theorem path_split_roundtrip:
  assumes ds: "\<forall>d \<in> set ds. dir_name d" and name: "name \<noteq> []" "47 \<notin> set name" "length name < 16"
    and mem: "fst (fs_malloc s) \<noteq> 0"
  shows "path_peel (dir_path ds @ name) = Some (dir_path ds, name) \<and>
    (let n = length (dir_path ds @ name); fills_block = (n \<in> {16, 32, 64, 128, 256, 512, 1024} \<or> 1024 < n \<and> (n + 12) mod 4096 = 0) in
     path_depth (dir_path ds @ name) s =
       (if fills_block then None else Some (of_nat (length ds) + 1, snd (fs_malloc s))) \<and>
     path_dirs (dir_path ds @ name) s =
       (if fills_block then None else Some (Some (rev (map (\<lambda>d. d @ [47]) ds)), snd (fs_malloc s))))"
proof -
  have "47 \<notin> set (butlast name)" using name(2) by (meson in_set_butlastD)
  from peel_dir_path [OF name(1) this name(3)] have p: "path_peel (dir_path ds @ name) = Some (dir_path ds, name)" .
  obtain a as where m: "a \<noteq> 0" "fs_malloc s = (a, s\<lparr>allocs := as\<rparr>)" using malloc_allocs [OF mem] by blast
  have "last name \<noteq> 47" using name last_in_set by metis
  then have loop: "path_dirs_loop (dir_path ds @ name) = Some (rev (map (\<lambda>d. d @ [47]) ds))"
    using p dirs_dir_path [OF ds] dir_path_neq [OF name(1)] by (subst path_dirs_loop.simps) simp
  have "path_depth (dir_path ds @ name) s =
      do { q \<leftarrow> path_copy (dir_path ds @ name); Some (of_nat (length ds) + 1, snd (fs_malloc s)) }"
    using m p depth_dir_path [OF ds] name(1) by (auto simp: path_depth_def path_copy_def Let_def ac_simps)
  moreover have "path_dirs (dir_path ds @ name) s =
      do { q \<leftarrow> path_copy (dir_path ds @ name); Some (Some (rev (map (\<lambda>d. d @ [47]) ds)), snd (fs_malloc s)) }"
    using m loop by (auto simp: path_dirs_def path_copy_def Let_def)
  ultimately show ?thesis using p unfolding Let_def path_copy_def by (simp split: if_splits)
qed

theorem path_split_roundtrip_witness:
  "path_peel [47, 97, 98, 47, 99, 47, 100, 101] = Some ([47, 97, 98, 47, 99, 47], [100, 101]) \<and>
   (\<exists>s'. path_dirs [47, 97, 98, 47, 99, 47, 100, 101] sample_fs = Some (Some [[99, 47], [97, 98, 47]], s')) \<and>
   path_depth (47 # replicate 13 97 @ [47, 98]) sample_fs = None"
proof -
  have "\<forall>d \<in> set [[97, 98], [99]]. dir_name d" "\<forall>d \<in> set [replicate 13 97]. dir_name d"
    by (simp_all add: dir_name_def)
  moreover have "fst (fs_malloc sample_fs) \<noteq> 0" by (simp add: fs_malloc_def sample_fs_def)
  ultimately show ?thesis
    using path_split_roundtrip [of "[[97, 98], [99]]" "[100, 101]" sample_fs]
      path_split_roundtrip [of "[replicate 13 97]" "[98]" sample_fs]
    by (simp add: dir_path_def)
qed

section \<open>Looking up a path\<close>

text \<open>A file in a directory of the root is looked up in the root itself: the search by path walks
  through the directories only when there are at least two of them, so \<^verbatim>\<open>/d/f\<close> gives whatever \<^verbatim>\<open>/f\<close> is,
  and the parent directory it reports is the root. This holds for every directory name, also one that
  does not exist.\<close>

theorem one_directory_skipped:
  assumes d: "dir_name d" and name: "name \<noteq> []" "47 \<notin> set name" "length name < 16"
    and copy: "path_copy (dir_path [d] @ name) = Some (dir_path [d] @ name)"
    and mem: "allocs s = a1 # a2 # a3 # a4 # as" "0 \<notin> {a1, a2, a3, a4}"
    and r: "search_file (root_dir s) name (s\<lparr>allocs := as\<rparr>) = Some (nr, s')" and nr: "nr \<noteq> -1"
  shows "search_file_with_pathname (dir_path [d] @ name) s = Some (nr, Some (dirs s' (root_dir s)), s')"
proof -
  let ?path = "dir_path [d] @ name"
  have ds: "\<forall>d' \<in> set [d]. dir_name d'" using d by simp
  have "47 \<notin> set (butlast name)" using name(2) by (meson in_set_butlastD)
  from peel_dir_path [OF name(1) this name(3)] have p: "path_peel ?path = Some (dir_path [d], name)" .
  have last: "last name \<noteq> 47" using name last_in_set by metis
  have dirs: "path_dirs_loop ?path = Some [d @ [47]]"
    using p dirs_dir_path [OF ds] dir_path_neq [OF name(1)] last by (subst path_dirs_loop.simps) simp
  have depth: "path_depth_loop (dir_path [d]) 1 = Some 2" using depth_dir_path [OF ds, of 1] by simp
  have m: "fs_malloc s = (a1, s\<lparr>allocs := a2 # a3 # a4 # as\<rparr>)"
    "fs_malloc (s\<lparr>allocs := a2 # a3 # a4 # as\<rparr>) = (a2, s\<lparr>allocs := a3 # a4 # as\<rparr>)"
    "fs_malloc (s\<lparr>allocs := a3 # a4 # as\<rparr>) = (a3, s\<lparr>allocs := a4 # as\<rparr>)"
    "fs_malloc (s\<lparr>allocs := a4 # as\<rparr>) = (a4, s\<lparr>allocs := as\<rparr>)"
    using mem(1) by (simp_all add: fs_malloc_def)
  show ?thesis
    using m mem(2) copy p depth dirs r nr name(1)
    by (simp add: search_file_with_pathname_def path_depth_def path_dirs_def)
qed

theorem one_directory_skipped_witness:
  "\<exists>s s' pd. search_file_with_pathname [47, 120, 47, 97] s = Some (5, pd, s') \<and>
     search_file (root_dir s) [120, 47] s \<noteq> search_file (root_dir s) [97] s"
proof -
  let ?s = "sample_one_fs\<lparr>allocs := [1, 2, 3, 4, 5, 6]\<rparr>"
  let ?s5 = "?s\<lparr>allocs := [5, 6]\<rparr>"
  have look: "\<exists>s'. search_file d name (sample_one_fs\<lparr>allocs := x # xs\<rparr>) = Some (r, s')"
    if "scan_file name (sample_entry # replicate 20 free_entry) = Some r" "x \<noteq> 0" for d name r x xs
  proof (rule search_file_slots)
    let ?t = "sample_one_fs\<lparr>allocs := x # xs\<rparr>"
    show "file_zones ?t (inodes ?t (dir_inode (dirs ?t d))) [9]"
      using sample_one_ok(2) file_zones_cong [of ?t sample_one_fs] by simp
    show "scan_file name (slots ?t [9]) = Some r" using that(1) sample_one_ok(3) by simp
    show "fst (fs_malloc ?t) \<noteq> 0" using that(2) by (simp add: fs_malloc_def)
  qed
  have "replicate 20 free_entry = free_entry # replicate 19 free_entry" by (simp flip: replicate_Suc)
  then have hit: "scan_file [97] (sample_entry # replicate 20 free_entry) = Some 5"
    "scan_file [120, 47] (sample_entry # replicate 20 free_entry) = Some (-1)"
    by (simp_all add: sample_names) (simp add: free_entry_def)
  obtain s' where s': "search_file (root_dir ?s) [97] ?s5 = Some (5, s')" using look [OF hit(1), of 5 "root_dir ?s" "[6]"] by auto
  have "dir_name [120]" "path_copy (dir_path [[120]] @ [97]) = Some (dir_path [[120]] @ [97])"
    by (simp_all add: dir_name_def path_copy_def dir_path_def)
  from one_directory_skipped [OF this(1) _ _ _ this(2), of ?s 1 2 3 4 "[5, 6]" 5 s'] s'
  have "search_file_with_pathname (dir_path [[120]] @ [97]) ?s = Some (5, Some (dirs s' (root_dir ?s)), s')" by simp
  moreover obtain t1 t2 where "search_file (root_dir ?s) [120, 47] ?s = Some (-1, t1)" "search_file (root_dir ?s) [97] ?s = Some (5, t2)"
    using look [OF hit(1), of 1 "root_dir ?s" "[2, 3, 4, 5, 6]"] look [OF hit(2), of 1 "root_dir ?s" "[2, 3, 4, 5, 6]"] by auto
  ultimately show ?thesis by - (rule exI [of _ ?s], auto simp: dir_path_def)
qed

section \<open>The position of a file\<close>

lemma nonneg_small: "\<not> (x :: u32) <s 0 \<Longrightarrow> unat x < 2 ^ 31"
proof -
  assume "\<not> x <s 0"
  then have b: "\<not> bit x 31" using bit_last_iff [of x] by (simp add: word_sless_alt)
  have "take_bit 31 x = x"
  proof (rule bit_word_eqI)
    fix n assume "n < LENGTH(32)"
    then have "n < 31 \<or> n = 31" by auto
    then show "bit (take_bit 31 x) n = bit x n" using b by (auto simp: bit_simps)
  qed
  then have "unat x = take_bit 31 (unat x)" by (metis unsigned_take_bit_eq)
  then show ?thesis by (metis take_bit_nat_less_exp)
qed

text \<open>Where an offset counts from.\<close>

definition seek_base :: "u8 \<Rightarrow> u32 \<Rightarrow> u32 \<Rightarrow> u32" where
  "seek_base whence pos sz = (if whence = 1 then 0 else if whence = 2 then pos else sz)"

text \<open>Seeking keeps the position inside the file: for an open descriptor a call returns either -1
  without a change, or a position of at most the size of the file, which is the position of the file
  afterwards; nothing else changes. Every position inside the file can be reached, counting the offset
  from the start, from the current position or from the end.\<close>

theorem lseek_inside:
  assumes fd: "\<not> fd <s 0" "fd_local2global fd s = Some g" and w: "whence \<in> {1, 2, 3}"
    and fi: "f = g_file_table s (unat g)" "sz = i_size (inodes s (fd_inode f))" "\<not> sz <s 0"
  shows "\<exists>r s'. sys_lseek fd off whence s = Some (r, s') \<and>
    (r = -1 \<and> s' = s \<or> r \<le> sz \<and> s' = upd_file (unat g) (\<lambda>e. e\<lparr>fd_pos := r\<rparr>) s) \<and>
    (seek_base whence (fd_pos f) sz + off \<le> sz \<longrightarrow> r = seek_base whence (fd_pos f) sz + off)"
proof -
  let ?t = "seek_base whence (fd_pos f) sz + off"
  have ok: "?t <s 0 \<or> sz <s ?t \<longleftrightarrow> \<not> ?t \<le> sz"
    using nonneg_small [of ?t] nonneg_small [OF fi(3)] sless_small [of ?t 0] sless_small [of sz ?t]
    by (cases "?t <s 0") (auto simp: word_le_nat_alt word_less_nat_alt)
  have w': "whence > 0 \<and> whence < 4" using w by auto
  have t: "(if whence = 1 then off else if whence = 2 then fd_pos f + off else sz + 1 + (off - 1)) = ?t"
    using w by (auto simp: seek_base_def)
  have "sys_lseek fd off whence s =
      (if ?t \<le> sz then Some (?t, upd_file (unat g) (\<lambda>e. e\<lparr>fd_pos := ?t\<rparr>) s) else Some (-1, s))"
    unfolding sys_lseek_def Let_def using fd w'
    by (simp only: fi(1,2) [symmetric] t ok if_False ASSERT_True option.map bind.bind_lunit) auto
  then show ?thesis by (cases "?t \<le> sz") auto
qed

theorem lseek_inside_witness:
  "\<exists>s'. sys_lseek 3 (- 100) 3 (sample_fs3 7) = Some (900, s')"
proof -
  have "fd_table (tcbs (ks (sample_fs3 7)) (running_thread (ks (sample_fs3 7)))) 3 = 0"
    by (simp add: sample_fs3_def sample_fs2_def sample_fs1_def sample_fs_def boot_kstate_def zero_tcb_def)
  then have "fd_local2global 3 (sample_fs3 7) = Some 0" by (simp add: fd_local2global_def word_sless_alt)
  from lseek_inside [OF _ this, of 3 "g_file_table (sample_fs3 7) 0" 1000 "- 100"] show ?thesis
    by (auto simp: sample_fs3_fields seek_base_def word_sless_alt)
qed

end
