(* ===== verification/Format.thy ===== *)
theory Format
  imports DirSpec
begin

text \<open>
  Formatting and mounting (\<open>partition_format\<close> and \<open>mount_partition\<close> of \<^verbatim>\<open>core/fs/fs.c\<close>): a partition
  that was formatted mounts as a well-formed file system with an empty root directory.
\<close>

section \<open>The layout in numbers\<close>

lemma DIV_ROUND_UP_nat:
  assumes "unat n + (unat d - 1) < 2 ^ 32" "0 < unat d"
  shows "unat (DIV_ROUND_UP n d) = (unat n + (unat d - 1)) div unat d"
proof -
  have "unat (d - 1) = unat d - 1" using assms(2) by (subst unat_sub_word) simp_all
  then have "unat (n + (d - 1)) = unat n + (unat d - 1)" using assms(1) by (subst unat_add_less) simp_all
  then show ?thesis by (simp add: DIV_ROUND_UP_def unat_div_word add_diff_eq)
qed

lemma unat_eq_imp: "unat (x :: u32) = n \<Longrightarrow> x = of_nat n"
  by auto

definition map_sectors :: "nat \<Rightarrow> nat" where
  "map_sectors n = (n + 4095) div 4096"

lemma layout_numbers:
  assumes c: "812 \<le> unat sec_cnt" "unat sec_cnt \<le> 163840"
  shows "inode_bitmap_sz (format_layout sec_cnt) = 1" "inode_table_sz (format_layout sec_cnt) = 800"
    "unat (bm_len (format_layout sec_cnt)) = unat sec_cnt - 803 - map_sectors (unat sec_cnt - 803)"
    "unat (zone_bitmap_sz (format_layout sec_cnt)) = map_sectors (unat (bm_len (format_layout sec_cnt)))"
proof -
  let ?f = "sec_cnt - 803"
  have u: "unat (DIV_ROUND_UP 4096 4096) = 1" "unat (DIV_ROUND_UP (100 * 4096) 512) = 800"
    by (subst DIV_ROUND_UP_nat, simp, simp, simp)+
  have one: "DIV_ROUND_UP 4096 4096 = 1" "DIV_ROUND_UP (100 * 4096) 512 = 800"
    by (rule trans [OF unat_eq_imp [OF u(1)]], simp, rule trans [OF unat_eq_imp [OF u(2)]], simp)
  note one = one one(2) [simplified]
  show "inode_bitmap_sz (format_layout sec_cnt) = 1" "inode_table_sz (format_layout sec_cnt) = 800"
    by (simp_all add: format_layout_def Let_def one)
  have f: "unat ?f = unat sec_cnt - 803" using c by (subst unat_sub_word) simp_all
  have z: "unat (DIV_ROUND_UP ?f 4096) = map_sectors (unat sec_cnt - 803)"
    using f c by (subst DIV_ROUND_UP_nat) (simp_all add: map_sectors_def)
  have le: "map_sectors (unat sec_cnt - 803) \<le> unat sec_cnt - 803" using c by (simp add: map_sectors_def)
  have bm: "bm_len (format_layout sec_cnt) = ?f - DIV_ROUND_UP ?f 4096"
    by (simp add: format_layout_def Let_def one)
  show "unat (bm_len (format_layout sec_cnt)) = unat sec_cnt - 803 - map_sectors (unat sec_cnt - 803)"
    unfolding bm using f z le by (subst unat_sub_word) simp_all
  then have "unat (bm_len (format_layout sec_cnt)) \<le> 163840" using c by simp
  moreover have "zone_bitmap_sz (format_layout sec_cnt) = DIV_ROUND_UP (bm_len (format_layout sec_cnt)) 4096"
    by (simp add: format_layout_def Let_def one)
  ultimately show "unat (zone_bitmap_sz (format_layout sec_cnt)) = map_sectors (unat (bm_len (format_layout sec_cnt)))"
    by (simp add: DIV_ROUND_UP_nat map_sectors_def)
qed

section \<open>The zone bitmap\<close>

lemma bit_clear_low_bits: "j < 8 \<Longrightarrow> bit (clear_low_bits n b) j \<longleftrightarrow> bit b j \<and> n \<le> j"
  by (induction n) (auto simp: bit_simps)

lemma bit_all_ones: "j < 8 \<Longrightarrow> bit (0xff :: u8) j"
proof -
  have "(0xff :: u8) = -1" by simp
  then show "j < 8 \<Longrightarrow> bit (0xff :: u8) j" by (simp only:) (simp add: bit_minus_1_iff)
qed

lemma nth_format_zmap:
  fixes len :: u32
  assumes B: "B = unat len div 8" "0 < B" and R: "R = unat len mod 8"
    and n: "length buf = n" "B + (512 - B mod 512) \<le> n" "i < n" and z: "\<And>j. j < n \<Longrightarrow> buf ! j = 0"
  shows "format_zmap len buf ! i = (if i < B then if i = 0 then 1 else 0 else if i = B then clear_low_bits (Suc R) 0xff
    else if i < B + (512 - B mod 512) then 0xff else 0)"
proof -
  have w: "unat (len div 8) = B" "unat (len mod 8) = R" using B R by (simp_all add: unat_div_word unat_mod_word)
  let ?b1 = "buf[0 := buf ! 0 OR 1]" and ?m = "512 - B mod 512"
  let ?b2 = "put_at B (replicate ?m 0xff) ?b1"
  have m: "0 < ?m" by simp
  have l2: "length ?b2 = n" using n by simp
  have b2: "?b2 ! i = (if B \<le> i \<and> i < B + ?m then 0xff else ?b1 ! i)" if "i < n" for i
    using nth_put_at [of B "replicate ?m 0xff" ?b1 i] n that by auto
  have b1: "?b1 ! i = (if i = 0 then 1 else 0)" if "i < n" for i
    using z [of i] z [of 0] that n(1) by (cases i) auto
  have "format_zmap len buf = ?b2[B := clear_low_bits (Suc R) (?b2 ! B)]"
    unfolding format_zmap_def Let_def w by simp
  moreover have "B < n" using n(2) m by linarith
  ultimately show ?thesis using b2 [OF n(3)] b2 [OF \<open>B < n\<close>] b1 [OF n(3)] l2 n(3) m by (auto simp: nth_list_update)
qed

lemma is_set_load_bitmap:
  "k div 8 < length bs \<Longrightarrow> is_set (load_bitmap len bs) k \<longleftrightarrow> bit (bs ! (k div 8)) (k mod 8)"
  by (simp add: is_set_def load_bitmap_def)

lemma format_zmap_bits:
  fixes len :: u32
  assumes len: "8 \<le> unat len" and n: "length buf = n" "unat len div 8 + 512 \<le> n"
    and z: "\<And>j. j < n \<Longrightarrow> buf ! j = 0" and k: "k < 4096 * map_sectors (unat len)"
  shows "bit (format_zmap len buf ! (k div 8)) (k mod 8) \<longleftrightarrow> k = 0 \<or> unat len < k"
proof -
  define B R where "B = unat len div 8" and "R = unat len mod 8"
  have L: "unat len = 8 * B + R" unfolding B_def R_def by (simp only: mult_div_mod_eq)
  have R: "R < 8" by (simp add: R_def)
  have B: "0 < B" using len by (simp add: B_def div_greater_zero_iff)
  let ?i = "k div 8" and ?j = "k mod 8"
  have kk: "k = 8 * ?i + ?j" "?j < 8" by (simp_all only: mult_div_mod_eq mod_less_divisor zero_less_numeral)
  have top: "?i < B + (512 - B mod 512)"
  proof -
    have "B = 512 * (B div 512) + B mod 512" by (simp only: mult_div_mod_eq)
    moreover have "map_sectors (unat len) \<le> B div 512 + 1"
    proof -
      have "unat len + 4095 < 4096 * (B div 512) + 8192"
        using L R mod_less_divisor [of 512 B] calculation by linarith
      then have "(unat len + 4095) div 4096 < B div 512 + 2" by (simp add: less_mult_imp_div_less)
      then show ?thesis by (simp add: map_sectors_def)
    qed
    then have "4096 * map_sectors (unat len) \<le> 4096 * (B div 512 + 1)" by (rule mult_le_mono2)
    then have "k < 4096 * (B div 512) + 4096" using k by simp
    then have "?i < 512 * (B div 512) + 512" by (simp add: less_mult_imp_div_less)
    moreover have "B mod 512 < 512" by simp
    ultimately show ?thesis by linarith
  qed
  have "?i < n" using top n(2) B_def by simp
  have sz: "B + (512 - B mod 512) \<le> n" using n(2) B_def by simp
  note nth = nth_format_zmap [OF B_def B R_def n(1) sz \<open>?i < n\<close> z]
  consider "?i < B" | "?i = B" | "B < ?i" by linarith
  then show ?thesis
  proof cases
    case 1
    then have "k \<le> unat len" using kk L by linarith
    then show ?thesis using 1 kk by (auto simp: nth bit_1_iff)
  next
    case 2
    then have "unat len < k \<longleftrightarrow> Suc R \<le> ?j" "k \<noteq> 0" using kk(1) L B by linarith+
    moreover have "format_zmap len buf ! ?i = clear_low_bits (Suc R) 0xff" using nth 2 by simp
    ultimately show ?thesis using bit_clear_low_bits [OF kk(2)] bit_all_ones [OF kk(2)] by (simp only:) simp
  next
    case 3
    then have "unat len < k" using kk L R by linarith
    then show ?thesis using 3 top bit_all_ones [OF kk(2)] by (simp add: nth)
  qed
qed


section \<open>The sectors written\<close>

lemma write_sectors_other:
  assumes "L + m \<le> 2 ^ 32" "x < 2 ^ 32" "x < L \<or> L + m \<le> x"
  shows "write_sectors m (of_nat L) buf d (of_nat x) = d (of_nat x)"
proof (cases "m = 0")
  case False
  then have "L < 2 ^ 32" using assms(1) by linarith
  then have "unat (of_nat x - of_nat L :: u32) = (if L \<le> x then x - L else 2 ^ 32 - (L - x))"
    using assms(2) by (intro unat_of_nat_sub)
  then have "m \<le> unat (of_nat x - of_nat L :: u32)" using assms by auto
  then show ?thesis using assms(1) by (intro write_other) linarith
qed simp

lemma read_sectors_other:
  assumes "L + m \<le> 2 ^ 32" "A + n \<le> 2 ^ 32" "A + n \<le> L \<or> L + m \<le> A"
  shows "read_sectors n (of_nat A) (write_sectors m (of_nat L) buf d) = read_sectors n (of_nat A) d"
proof (rule read_sectors_cong)
  fix i assume i: "i < n"
  have "write_sectors m (of_nat L) buf d (of_nat (A + i)) = d (of_nat (A + i))"
    using assms i by (intro write_sectors_other) auto
  then show "write_sectors m (of_nat L) buf d (of_nat A + of_nat i) = d (of_nat A + of_nat i)" by simp
qed

lemma write_sectors_length:
  assumes "\<forall>a. length (d a) = 512" "m \<le> 2 ^ 32" "512 * m \<le> length buf"
  shows "\<forall>a. length (write_sectors m lba buf d a) = 512"
  using assms write_length by blast

text \<open>What the five writes leave on the disk: \<open>A\<close> is the sector of the super block, followed by the inode
  bitmap, \<open>n\<close> sectors of zone bitmap, 800 of inodes, and the first data sector.\<close>

definition formatted :: "nat \<Rightarrow> nat \<Rightarrow> u8 list \<Rightarrow> u8 list \<Rightarrow> u8 list \<Rightarrow> u8 list \<Rightarrow> u8 list \<Rightarrow> (u32 \<Rightarrow> u8 list) \<Rightarrow> u32 \<Rightarrow> u8 list" where
  "formatted A n B Z I T D d =
     write_sectors 1 (of_nat (A + 2 + n + 800)) D (write_sectors 800 (of_nat (A + 2 + n)) T
       (write_sectors 1 (of_nat (A + 1)) I (write_sectors n (of_nat (A + 2)) Z (write_sectors 1 (of_nat A) B d))))"

lemma formatted_areas:
  assumes A: "A + 2 + n + 801 \<le> 2 ^ 32" and d: "\<forall>a. length (d a) = 512"
    and l: "length B = 512" "512 * n \<le> length Z" "512 \<le> length I" "length T = 512 * 800" "length D = 512"
  shows "read_sectors 1 (of_nat A) (formatted A n B Z I T D d) = B"
    "read_sectors 1 (of_nat (A + 1)) (formatted A n B Z I T D d) = take 512 I"
    "read_sectors n (of_nat (A + 2)) (formatted A n B Z I T D d) = take (512 * n) Z"
    "read_sectors 800 (of_nat (A + 2 + n)) (formatted A n B Z I T D d) = T"
    "read_sectors 1 (of_nat (A + 2 + n + 800)) (formatted A n B Z I T D d) = D"
    "\<forall>a. length (formatted A n B Z I T D d a) = 512"
proof -
  note other = read_sectors_other
  have n: "n \<le> 2 ^ 32" using A by linarith
  show "read_sectors 1 (of_nat A) (formatted A n B Z I T D d) = B"
    unfolding formatted_def using A l
    by (subst other, simp, simp, simp, subst other, simp, simp, simp, subst other, simp, simp, simp, subst other, simp, simp, simp)
      (subst read_written, simp_all)
  show "read_sectors 1 (of_nat (A + 1)) (formatted A n B Z I T D d) = take 512 I"
    unfolding formatted_def using A l
    by (subst other, simp, simp, simp, subst other, simp, simp, simp) (subst read_written, simp_all)
  show "read_sectors n (of_nat (A + 2)) (formatted A n B Z I T D d) = take (512 * n) Z"
    unfolding formatted_def using A l
    by (subst other, simp, simp, simp, subst other, simp, simp, simp, subst other, simp, simp, simp)
      (subst read_written, simp_all)
  show "read_sectors 800 (of_nat (A + 2 + n)) (formatted A n B Z I T D d) = T"
    unfolding formatted_def using A l
    by (subst other, simp, simp, simp) (subst read_written, simp_all)
  show "read_sectors 1 (of_nat (A + 2 + n + 800)) (formatted A n B Z I T D d) = D"
    unfolding formatted_def using A l by (subst read_written, simp_all)
  show "\<forall>a. length (formatted A n B Z I T D d a) = 512"
    unfolding formatted_def using d l n by (intro write_sectors_length) simp_all
qed


section \<open>Formatting\<close>

lemma format_sb_fields:
  assumes c: "812 \<le> unat sc" "unat start + unat sc \<le> 163840"
    and n: "n = map_sectors (unat (bm_len (format_layout sc)))" and b: "b = format_sb start (format_layout sc) stack_sb"
  shows "sb_ok b" "s_magic b = 0x2023b07a" "start + 1 = of_nat (unat start + 1)" "s_imap_lba b = of_nat (unat start + 1 + 1)" "s_imap_sz b = 1"
    "s_zmap_lba b = of_nat (unat start + 1 + 2)" "unat (s_zmap_sz b) = n"
    "s_inode_table_lba b = of_nat (unat start + 1 + 2 + n)" "s_inode_table_sz b = 800"
    "s_data_start_lba b = of_nat (unat start + 1 + 2 + n + 800)" "s_ninodes b = 4096" "0 < n" "n \<le> 40"
    "unat start + 803 + n + unat (bm_len (format_layout sc)) \<le> unat start + unat sc"
proof -
  have cc: "unat sc \<le> 163840" using c(2) by simp
  note l = layout_numbers [OF c(1) cc]
  have nz: "zone_bitmap_sz (format_layout sc) = of_nat n" unfolding n l(4) [symmetric] by simp
  have start: "start = of_nat (unat start)" by simp
  have "unat (DIV_ROUND_UP (800 * 512) 100) = 4096" by (subst DIV_ROUND_UP_nat, simp, simp, simp)
  from unat_eq_imp [OF this] have ni: "DIV_ROUND_UP (800 * 512) 100 = 4096" by simp
  show "sb_ok b" "s_magic b = 0x2023b07a" by (simp_all add: b format_sb_def sb_ok_def Let_def)
  show "start + 1 = of_nat (unat start + 1)" by simp
  show "s_imap_lba b = of_nat (unat start + 1 + 1)" "s_imap_sz b = 1"
    by (simp_all add: b format_sb_def Let_def l(1))
  show "s_zmap_lba b = of_nat (unat start + 1 + 2)" by (simp add: b format_sb_def Let_def l(1))
  show "unat (s_zmap_sz b) = n" by (simp add: b format_sb_def Let_def n l(4))
  show "s_inode_table_lba b = of_nat (unat start + 1 + 2 + n)" by (simp add: b format_sb_def Let_def l(1) nz)
  show "s_inode_table_sz b = 800" by (simp add: b format_sb_def Let_def l(2))
  show "s_data_start_lba b = of_nat (unat start + 1 + 2 + n + 800)" by (simp add: b format_sb_def Let_def l(1,2) nz)
  show "s_ninodes b = 4096" unfolding b format_sb_def Let_def l(2) using ni by simp
  let ?F = "unat sc - 803"
  have F: "map_sectors ?F \<le> 40" "0 < ?F - map_sectors ?F" using c by (simp_all add: map_sectors_def)
  have "n \<le> map_sectors ?F" unfolding n l(3) map_sectors_def by (intro div_le_mono) simp
  then show "n \<le> 40" using F by simp
  show "0 < n" unfolding n l(3) using F(2) by (simp add: map_sectors_def)
  show "unat start + 803 + n + unat (bm_len (format_layout sc)) \<le> unat start + unat sc"
    using \<open>n \<le> map_sectors ?F\<close> F(2) c(1) unfolding l(3) by linarith
qed

lemma small_lba: "x \<le> 163839 \<Longrightarrow> of_nat x \<le> max_lba"
  by (simp add: word_le_nat_alt unat_max_lba unat_of_nat_32)

lemma partition_format_ok:
  assumes c: "812 \<le> unat (part_sec_cnt s)" "unat (part_start_lba s) + unat (part_sec_cnt s) \<le> 163840"
    and m: "fs_malloc s = (a, s0)" "a \<noteq> 0"
    and b: "b = format_sb (part_start_lba s) (format_layout (part_sec_cnt s)) stack_sb"
    and len: "len = bm_len (format_layout (part_sec_cnt s))" and n: "n = map_sectors (unat len)"
    and buf: "buf = replicate (512 * 800) 0"
  shows "partition_format stack_sb s = Some (s0\<lparr>disk := formatted (unat (part_start_lba s) + 1) n (sb_bytes b)
    (format_zmap len buf) (buf[0 := buf ! 0 OR 1]) (put_at 0 (inode_bytes (root_inode (s_data_start_lba b))) buf)
    (take 512 (put_at 0 (dot_entries 0 0) buf)) (disk s)\<rparr>)"
proof -
  note f = format_sb_fields [OF c n [unfolded len] b]
  have s0: "part_start_lba s0 = part_start_lba s" "disk s0 = disk s"
    using m(1) by (auto simp: fs_malloc_def split: list.splits)
  have ne: "part_sec_cnt s \<noteq> 0" using c(1) by auto
  have lim: "unat (part_start_lba s) + 803 + n \<le> 163839"
    using f(14) c layout_numbers(3) [OF c(1)] f(12,13) by (simp add: map_sectors_def)
  have lba: "of_nat (unat (part_start_lba s) + 1) \<le> max_lba" "of_nat (unat (part_start_lba s) + 1 + 1) \<le> max_lba"
    "of_nat (unat (part_start_lba s) + 1 + 2) \<le> max_lba" "of_nat (unat (part_start_lba s) + 1 + 2 + n) \<le> max_lba"
    "of_nat (unat (part_start_lba s) + 1 + 2 + n + 800) \<le> max_lba"
    using lim by (intro small_lba; simp)+
  have sz: "unat (max (max (s_imap_sz b) (s_zmap_sz b)) (s_inode_table_sz b) * 512) = 512 * 800"
  proof -
    have "s_zmap_sz b \<le> 800" using f(7,13) by (simp add: word_le_nat_alt)
    then have "max (max (s_imap_sz b) (s_zmap_sz b)) (s_inode_table_sz b) = 800"
      unfolding f(5,9) by (simp add: max_def)
    then show ?thesis by simp
  qed
  have fit: "unat (len div 8) + (512 - unat (len div 8) mod 512) \<le> 512 * 800"
    using f(14) c(2) by (simp add: unat_div_word len) 
  have w: "ide_write x bs k t = Some (t\<lparr>disk := write_sectors k x bs (disk t)\<rparr>)" if "x \<le> max_lba" "0 < k" for x bs k t
    using that by (simp add: ide_write_def)
  have u: "unat (s_imap_sz b) = 1" "unat (s_inode_table_sz b) = 800" unfolding f(5,9) by simp_all
  have m': "fs_malloc (s\<lparr>disk := x\<rparr>) = (a, s0\<lparr>disk := x\<rparr>)" for x
    using m(1) by (auto simp: fs_malloc_def split: list.splits)
  show ?thesis
    unfolding partition_format_def Let_def if_not_P [OF ne] b [symmetric] len [symmetric] f(3) w [OF lba(1) zero_less_one]
      bind.bind_lunit sz buf [symmetric] m' prod.case f(4,6,7,8,10) u formatted_def
    using m(2) fit
    by (simp only: ASSERT_def if_True bind.bind_lunit w [OF lba(2) zero_less_one] w [OF lba(3) f(12)] w [OF lba(4)]
        w [OF lba(5) zero_less_one] zero_less_numeral not_False_eq_True fsys.update_convs fsys.select_convs s0) simp
qed


lemma dot_sector:
  "entries (take 512 (put_at 0 (dot_entries 0 0) (replicate (512 * 800) 0))) =
    \<lparr>filename = 46 # replicate 15 0, i_no = 0, f_type = FT_DIRECTORY\<rparr> #
    \<lparr>filename = 46 # 46 # replicate 14 0, i_no = 0, f_type = FT_DIRECTORY\<rparr> # replicate 19 free_entry"
  (is "entries ?buf = ?d # ?dd # _")
proof -
  have ok: "entry_ok ?d" "entry_ok ?dd" by (simp_all add: entry_ok_def)
  note l = entry_codec.enc_length [OF ok(1)] entry_codec.enc_length [OF ok(2)]
  have "?buf = put_at (24 * 1) (entry_bytes ?dd) (put_at (24 * 0) (entry_bytes ?d) (replicate 512 0))"
    using l by (simp add: put_at_def dot_entries_def)
  moreover have "entries (put_at (24 * 1) (entry_bytes ?dd) (put_at (24 * 0) (entry_bytes ?d) (replicate 512 0))) =
      ((entries (replicate 512 0))[0 := ?d])[1 := ?dd]"
    using entries_put [of "put_at (24 * 0) (entry_bytes ?d) (replicate 512 0)" 1 "entry_bytes ?dd"]
      entries_put [of "replicate 512 0" 0 "entry_bytes ?d"] l entry_codec.dec_enc [OF ok(1)] entry_codec.dec_enc [OF ok(2)] by simp
  moreover have "replicate 21 free_entry = free_entry # free_entry # replicate 19 free_entry" by (simp flip: replicate_Suc)
  ultimately show ?thesis by (simp add: entries_zero)
qed

lemma mount_partition_ok:
  assumes b: "disk s (part_start_lba s + 1) = sb_bytes b" "sb_ok b" "s_magic b = 0x2023b07a"
    and m: "allocs s = a2 # a3 # a4 # as" "0 \<notin> {a2, a3, a4}"
    and lba: "part_start_lba s + 1 \<le> max_lba" "s_zmap_lba b \<le> max_lba" "s_imap_lba b \<le> max_lba"
      "0 < unat (s_zmap_sz b)" "0 < unat (s_imap_sz b)"
  shows "mount_partition name name s = Some (True, fs_lh (INIT_LIST_HEAD (open_inodes s)) (s\<lparr>sb := b,
    zone_bitmap := load_bitmap (s_zmap_sz b * 512) (read_sectors (unat (s_zmap_sz b)) (s_zmap_lba b) (disk s)), allocs := as,
    inode_bitmap := load_bitmap (s_imap_sz b * 512) (read_sectors (unat (s_imap_sz b)) (s_imap_lba b) (disk s))\<rparr>))"
proof -
  have r: "ide_read x k t = Some (read_sectors k x (disk t))" if "x \<le> max_lba" "0 < k" for x k t
    using that by (simp add: ide_read_def)
  show ?thesis
    using m b sb_codec.dec_enc [OF b(2)] r [OF lba(1) zero_less_one] r [OF lba(2,4)] r [OF lba(3,5)]
    by (simp add: mount_partition_def fs_malloc_def Let_def)
qed

lemma map_sectors_room:
  assumes "n mod 4096 \<noteq> 0" shows "n < 4096 * map_sectors n"
proof -
  have "n mod 4096 + 4095 \<ge> 4096" using assms by linarith
  then have "n div 4096 + 1 \<le> (n + 4095) div 4096"
    using div_add1_eq [of n 4095 4096] by (simp add: le_div_geq)
  moreover have "n = 4096 * (n div 4096) + n mod 4096" "n mod 4096 < 4096" by (simp_all only: mult_div_mod_eq mod_less_divisor zero_less_numeral)
  ultimately show ?thesis unfolding map_sectors_def by linarith
qed

lemma root_inode_ok: "inode_ok (root_inode x)"
  by (simp add: root_inode_def inode_ok_def)

lemma is_set_formatted:
  assumes len: "8 \<le> unat len" "unat len div 8 + 512 \<le> n" and w: "w = map_sectors (unat len)" "512 * w \<le> n" and k: "k < 4096 * w"
  shows "is_set (load_bitmap l (take (512 * w) (format_zmap len (replicate n 0)))) k \<longleftrightarrow> k = 0 \<or> unat len < k"
proof -
  have "length (format_zmap len (replicate n 0)) = n"
    using len(2) by (simp add: format_zmap_def Let_def unat_div_word)
  moreover have "k div 8 < 512 * w" using k by (simp add: less_mult_imp_div_less)
  moreover have "bit (format_zmap len (replicate n 0) ! (k div 8)) (k mod 8) \<longleftrightarrow> k = 0 \<or> unat len < k"
    by (rule format_zmap_bits [OF len(1) _ len(2) _ k [unfolded w(1)]]) simp_all
  ultimately show ?thesis using w(2) by (simp add: is_set_load_bitmap)
qed

text \<open>The state after formatting and mounting, before anything is said about its well-formedness.\<close>

lemma format_mount_state:
  assumes c: "812 \<le> unat (part_sec_cnt s)" "unat (part_start_lba s) + unat (part_sec_cnt s) \<le> 163840"
    and d: "disk_ok s" and m: "allocs s = a1 # a2 # a3 # a4 # as" "0 \<notin> {a1, a2, a3, a4}"
    and b: "b = format_sb (part_start_lba s) (format_layout (part_sec_cnt s)) stack_sb"
    and len: "len = bm_len (format_layout (part_sec_cnt s))" and w: "w = map_sectors (unat len)"
  obtains s1 s2 where "partition_format stack_sb s = Some s1" "mount_partition name name s1 = Some (True, s2)"
    "sb s2 = b" "disk_ok s2" "open_list s2 []"
    "zone_bitmap s2 = load_bitmap (512 * s_zmap_sz b) (take (512 * w) (format_zmap len (replicate (512 * 800) 0)))"
    "read_sectors w (s_zmap_lba b) (disk s2) = take (512 * w) (format_zmap len (replicate (512 * 800) 0))"
    "read_sectors 800 (s_inode_table_lba b) (disk s2) =
       put_at 0 (inode_bytes (root_inode (s_data_start_lba b))) (replicate (512 * 800) 0)"
    "disk s2 (s_data_start_lba b) = take 512 (put_at 0 (dot_entries 0 0) (replicate (512 * 800) 0))"
proof -
  define buf where "buf = (replicate (512 * 800) 0 :: u8 list)"
  let ?S = "unat (part_start_lba s)" and ?C = "unat (part_sec_cnt s)"
  note f = format_sb_fields [OF c w [unfolded len] b]
  let ?s0 = "s\<lparr>allocs := a2 # a3 # a4 # as\<rparr>"
  have m0: "fs_malloc s = (a1, ?s0)" "a1 \<noteq> 0" using m by (simp_all add: fs_malloc_def)
  let ?Z = "format_zmap len buf" and ?I = "buf[0 := buf ! 0 OR 1]"
  let ?T = "put_at 0 (inode_bytes (root_inode (s_data_start_lba b))) buf" and ?D = "take 512 (put_at 0 (dot_entries 0 0) buf)"
  define F where "F = formatted (?S + 1) w (sb_bytes b) ?Z ?I ?T ?D (disk s)"
  let ?s1 = "?s0\<lparr>disk := F\<rparr>"
  have fmt: "partition_format stack_sb s = Some ?s1"
    unfolding F_def by (rule partition_format_ok [OF c m0 b len w buf_def])
  have div8: "unat len div 8 + 512 \<le> 512 * 800" using f(14) c(2) by (simp add: len)
  have lb: "length buf = 512 * 800" by (simp add: buf_def)
  have l: "length (sb_bytes b) = 512" "512 * w \<le> length ?Z" "512 \<le> length ?I" "length ?T = 512 * 800" "length ?D = 512"
    using sb_codec.enc_length [OF f(1)] inode_codec.enc_length [OF root_inode_ok] lb div8 f(13)
    by (simp_all add: format_zmap_def Let_def unat_div_word dot_entries_def entry_bytes_def)
  have A: "?S + 1 + 2 + w + 801 \<le> 2 ^ 32" using f(13) c(2) by simp
  have dl: "\<forall>a. length (disk s a) = 512" using d by (simp add: disk_ok_def)
  note r = formatted_areas [OF A dl l, folded F_def]
  have F1: "F (of_nat (?S + 1)) = sb_bytes b" "F (s_data_start_lba b) = ?D" using r(1,5) by (simp_all add: f(10))
  have start: "part_start_lba s + 1 = of_nat (?S + 1)" by simp
  have small: "of_nat x \<le> max_lba" if "x \<le> ?S + 803" for x using that c by (intro small_lba) simp
  let ?L = "load_bitmap (s_zmap_sz b * 512) (read_sectors w (s_zmap_lba b) F)"
  define s2 where "s2 = fs_lh (INIT_LIST_HEAD (open_inodes s)) (?s1\<lparr>sb := b, zone_bitmap := ?L, allocs := as,
    inode_bitmap := load_bitmap (s_imap_sz b * 512) (read_sectors (unat (s_imap_sz b)) (s_imap_lba b) F)\<rparr>)"
  have mnt: "mount_partition name name ?s1 = Some (True, s2)"
    unfolding s2_def using mount_partition_ok [of ?s1 b a2 a3 a4 as name] F1 f(1,2) m(2) small f(7,12)
    by (simp add: start f(3,4,5,6) del: of_nat_add of_nat_Suc)
  have s2: "sb s2 = b" "disk s2 = F" "zone_bitmap s2 = ?L" by (simp_all add: s2_def fs_lh_def)
  show thesis
    using that [OF fmt mnt s2(1)] r(3,4,6) F1(2)
    by (simp add: s2 disk_ok_def f(6,8) buf_def open_list_def s2_def fs_lh_def upd_lh_def mult.commute
        del: of_nat_add of_nat_Suc)
qed

text \<open>C12. Formatting and mounting. A partition of at least 812 sectors inside the disk formats, and the
  result mounts: its areas follow each other, the bitmap in memory is the one on disk, no inode is
  open, inode 0 on disk is the root directory and its sector holds the entries for itself and its
  parent. Exactly the zones 1 to \<open>n\<close> are free, where \<open>n\<close> is the length that the zone bitmap is computed
  from; unless the partition ends at the very end of the disk this is a well-formed file system, so
  the properties of files and directories apply to it. One zone is free too many: when both sizes of
  the zone bitmap are equal and \<open>n\<close> is no multiple of 4096, zone \<open>n\<close> is the first sector behind the
  partition.\<close>

theorem format_mount:
  assumes c: "812 \<le> unat (part_sec_cnt s)" "unat (part_start_lba s) + unat (part_sec_cnt s) \<le> 163840"
    and d: "disk_ok s" and m: "allocs s = a1 # a2 # a3 # a4 # as" "0 \<notin> {a1, a2, a3, a4}"
    and n: "n = unat (bm_len (format_layout (part_sec_cnt s)))"
  shows "\<exists>s1 s2. partition_format stack_sb s = Some s1 \<and> mount_partition name name s1 = Some (True, s2) \<and>
    geometry_ok (sb s2) \<and> disk_ok s2 \<and> zmap_synced s2 \<and> open_list s2 [] \<and>
    disk_inode s2 0 = root_inode (s_data_start_lba (sb s2)) \<and>
    entries (disk s2 (s_data_start_lba (sb s2))) =
      \<lparr>filename = 46 # replicate 15 0, i_no = 0, f_type = FT_DIRECTORY\<rparr> #
      \<lparr>filename = 46 # 46 # replicate 14 0, i_no = 0, f_type = FT_DIRECTORY\<rparr> # replicate 19 free_entry \<and>
    free_zones s2 = {k. 0 < k \<and> k \<le> n \<and> k < 4096 * map_sectors n} \<and>
    (unat (part_start_lba s) + unat (part_sec_cnt s) < 163840 \<longrightarrow> fs_ok s2) \<and>
    (map_sectors n = map_sectors (unat (part_sec_cnt s) - 803) \<and> n mod 4096 \<noteq> 0 \<longrightarrow>
      n \<in> free_zones s2 \<and> unat (s_data_start_lba (sb s2)) + n = unat (part_start_lba s) + unat (part_sec_cnt s))"
proof -
  define b where "b = format_sb (part_start_lba s) (format_layout (part_sec_cnt s)) stack_sb"
  define len where "len = bm_len (format_layout (part_sec_cnt s))"
  define w where "w = map_sectors (unat len)"
  let ?S = "unat (part_start_lba s)" and ?C = "unat (part_sec_cnt s)"
  have nl: "n = unat len" by (simp add: n len_def)
  have cc: "?C \<le> 163840" using c(2) by simp
  note lay = layout_numbers [OF c(1) cc, folded len_def]
  note f = format_sb_fields [OF c w_def [unfolded len_def] b_def]
  have n8: "8 \<le> unat len" unfolding lay(3) using c(1) cc by (simp add: map_sectors_def)
  obtain s1 s2 where fm: "partition_format stack_sb s = Some s1" "mount_partition name name s1 = Some (True, s2)"
    and s2: "sb s2 = b" "disk_ok s2" "open_list s2 []"
      "zone_bitmap s2 = load_bitmap (512 * s_zmap_sz b) (take (512 * w) (format_zmap len (replicate (512 * 800) 0)))"
    and dsk: "read_sectors w (s_zmap_lba b) (disk s2) = take (512 * w) (format_zmap len (replicate (512 * 800) 0))"
      "read_sectors 800 (s_inode_table_lba b) (disk s2) =
         put_at 0 (inode_bytes (root_inode (s_data_start_lba b))) (replicate (512 * 800) 0)"
      "disk s2 (s_data_start_lba b) = take 512 (put_at 0 (dot_entries 0 0) (replicate (512 * 800) 0))"
    by (rule format_mount_state [OF c d m b_def len_def w_def])
  have lim: "?S + 803 + w \<le> 163839" using f(14) c(2) n8 by (simp add: len_def)
  have unat: "unat (of_nat x :: u32) = x" if "x \<le> ?S + 803 + w" for x using that lim by (simp add: unat_of_nat_32)
  have start2: "unat (s_data_start_lba b) = ?S + 803 + w" unfolding f(10) by (subst unat) simp_all
  have geo: "geometry_ok b"
    unfolding geometry_ok_def word_le_nat_alt [of _ max_lba] unat_max_lba start2 unfolding f(4-9,11) using lim
    by (simp add: unat del: of_nat_add of_nat_Suc)
  have sync: "zmap_synced s2"
    unfolding zmap_synced_def s2 f(7) dsk using arg_cong [OF dsk(1), of length] s2(2)
    by (auto simp: load_bitmap_def bitmap_bytes_def list_eq_iff_nth_eq length_read_sectors disk_okD simp del: length_take)
  have nb: "nbits (zone_bitmap s2) = 4096 * w"
    using zmap_size(1) [OF geo [folded s2(1)] sync] by (simp add: s2(1) f(7))
  have div8: "unat len div 8 + 512 \<le> 512 * 800" "512 * w \<le> 512 * 800" using f(13,14) c(2) by (simp_all add: len_def)
  have set: "is_set (zone_bitmap s2) k \<longleftrightarrow> k = 0 \<or> n < k" if "k < 4096 * w" for k
    unfolding s2(4) nl by (rule is_set_formatted [OF n8 div8(1) w_def div8(2) that])
  have free: "free_zones s2 = {k. 0 < k \<and> k \<le> n \<and> k < 4096 * map_sectors n}"
    unfolding free_zones_def nb w_def nl using set [unfolded nl w_def] by auto
  have zero: "is_set (zone_bitmap s2) 0" using set [of 0] f(12) by simp
  have bound: "?S + 803 + w + n \<le> ?S + ?C" using f(14) by (simp add: n)
  have ok: "fs_ok s2" if "?S + ?C < 163840"
    unfolding fs_ok_def free s2(1) start2 using geo s2(2) sync zero that bound by (auto simp: s2(1))
  have root: "disk_inode s2 0 = root_inode (s_data_start_lba b)"
    unfolding disk_inode_def inode_area_def s2(1) f(9) using dsk(2) inode_codec.dec_enc [OF root_inode_ok]
      inode_codec.enc_length [OF root_inode_ok] by (simp add: get_at_def put_at_def)
  have extra: "n \<in> free_zones s2 \<and> unat (s_data_start_lba b) + n = ?S + ?C"
    if "map_sectors n = map_sectors (?C - 803)" "n mod 4096 \<noteq> 0"
  proof -
    have "n + w = ?C - 803" using lay(3) n8 that(1) by (simp add: nl w_def)
    then show ?thesis unfolding free start2 using n8 c(1) map_sectors_room [OF that(2)] by (auto simp: nl)
  qed
  show ?thesis
    using fm geo s2(1-3) sync root dot_sector free ok extra by (intro exI [of _ s1] exI [of _ s2]) (simp add: s2(1) dsk(3))
qed

theorem format_mount_witness:
  "\<exists>s1 s2. partition_format sample_sb sample_fs = Some s1 \<and> mount_partition [104] [104] s1 = Some (True, s2) \<and>
    fs_ok s2 \<and> open_list s2 []"
proof -
  have "812 \<le> unat (part_sec_cnt sample_fs)" "unat (part_start_lba sample_fs) + unat (part_sec_cnt sample_fs) \<le> 163840"
    "disk_ok sample_fs" "allocs sample_fs = 0xc0110000 # 0xc0111000 # 0xc0112000 # 0xc0113000 # []"
    "0 \<notin> {0xc0110000, 0xc0111000, 0xc0112000, 0xc0113000 :: addr}"
    "unat (part_start_lba sample_fs) + unat (part_sec_cnt sample_fs) < 163840"
    by (simp_all add: sample_fs_def disk_ok_def)
  from format_mount [OF this(1-5) refl, of sample_sb "[104]"] this(6) show ?thesis by blast
qed

end
