(* ===== verification/Clock.thy ===== *)
theory Clock
  imports Prelude
begin

text \<open>
  The real-time clock (\<^verbatim>\<open>core/device/cmos.c\<close>). The chip is a parameter: \<open>c n r\<close> is what register
  \<open>r\<close> shows at the \<open>n\<close>-th access, so it may change between any two reads; the position \<open>n\<close> is the
  state. \<open>read_rtc\<close> may wait for ever for a chip that is always updating, hence \<open>option\<close>.
\<close>

type_synonym cmos = "nat \<Rightarrow> u8 \<Rightarrow> u8"

section \<open>The calendar\<close>

text \<open>The C \<^verbatim>\<open>int\<close>s here stay far inside 32 bits and are modelled as \<open>int\<close>; sums of days are \<^verbatim>\<open>uint_32\<close>.\<close>

function year_loop :: "int \<Rightarrow> u32 \<Rightarrow> u32" where
  "year_loop years days =
     (if years > 1969 then
        let days = days + 365;
            days = (if years mod 4 = 0 then
                      (if years mod 100 = 0 then (if years mod 400 = 0 then days + 1 else days) else days + 1)
                    else days)
        in year_loop (years - 1) days
      else days)"
  by auto
termination by (relation "measure (\<lambda>(y, _). nat (y - 1969))") auto

declare year_loop.simps [simp del]

definition secs_of_years :: "int \<Rightarrow> u32" where
  "secs_of_years years = year_loop (years + 2000) 0 * 86400"

text \<open>The switch falls through from the given month down to January; other values add nothing.\<close>

definition month_lengths :: "int \<Rightarrow> u32 list" where
  "month_lengths year = [31, if year mod 4 = 0 \<and> (year mod 100 \<noteq> 0 \<or> year mod 400 = 0) then 28 + 1 else 28,
     31, 30, 31, 30, 31, 31, 30, 31, 30]"

definition secs_of_month :: "int \<Rightarrow> int \<Rightarrow> u32" where
  "secs_of_month months year =
     (let year = year + 2000;
          days = (if 1 \<le> months \<and> months \<le> 11 then sum_list (take (nat months) (month_lengths year)) else 0)
      in days * 86400)"

section \<open>The chip\<close>

definition get_update_in_progress_flag :: "cmos \<Rightarrow> nat \<Rightarrow> bool \<times> nat" where
  "get_update_in_progress_flag c n = (c n 0x0A AND 0x80 \<noteq> 0, n + 1)"

definition get_RTC_register :: "u8 \<Rightarrow> cmos \<Rightarrow> nat \<Rightarrow> u8 \<times> nat" where
  "get_RTC_register reg c n = (c n reg, n + 1)"

partial_function (option) wait_update :: "cmos \<Rightarrow> nat \<Rightarrow> nat option" where
  "wait_update c n = (let (busy, n) = get_update_in_progress_flag c n in if busy then wait_update c n else Some n)"

record rtc =
  second :: u8
  minute :: u8
  hour :: u8
  day :: u8
  month :: u8
  year :: u32

definition read_registers :: "cmos \<Rightarrow> nat \<Rightarrow> rtc \<times> nat" where
  "read_registers c n =
     (let (s, n) = get_RTC_register 0x00 c n;
          (mi, n) = get_RTC_register 0x02 c n;
          (h, n) = get_RTC_register 0x04 c n;
          (d, n) = get_RTC_register 0x07 c n;
          (mo, n) = get_RTC_register 0x08 c n;
          (y, n) = get_RTC_register 0x09 c n
      in (\<lparr>second = s, minute = mi, hour = h, day = d, month = mo, year = ucast y\<rparr>, n))"

partial_function (option) settle :: "cmos \<Rightarrow> rtc \<Rightarrow> nat \<Rightarrow> (rtc \<times> nat) option" where
  "settle c prev n = do {
     n \<leftarrow> wait_update c n;
     let (r, n) = read_registers c n;
     if prev \<noteq> r then settle c r n else Some (r, n)
   }"

section \<open>Conversion\<close>

definition from_bcd :: "'a::len word \<Rightarrow> 'a word" where
  "from_bcd b = (b AND 0x0F) + (b div 16) * 10"

definition bcd_to_binary :: "u8 \<Rightarrow> rtc \<Rightarrow> rtc" where
  "bcd_to_binary registerB r =
     (if registerB AND 0x04 = 0 then
        \<lparr>second = from_bcd (second r), minute = from_bcd (minute r),
         hour = ((hour r AND 0x0F) + ((hour r AND 0x70) div 16) * 10) OR (hour r AND 0x80),
         day = from_bcd (day r), month = from_bcd (month r), year = from_bcd (year r)\<rparr>
      else r)"

definition to_24_hours :: "u8 \<Rightarrow> rtc \<Rightarrow> rtc" where
  "to_24_hours registerB r =
     (if registerB AND 0x02 = 0 \<and> hour r AND 0x80 \<noteq> 0 then r\<lparr>hour := ((hour r AND 0x7F) + 12) mod 24\<rparr> else r)"

definition rtc_seconds :: "rtc \<Rightarrow> u32" where
  "rtc_seconds r = secs_of_years (sint (year r - 1)) + secs_of_month (uint (month r) - 1) (uint (year r)) +
     (ucast (day r) - 1) * 86400 + ucast (hour r) * 3600 + ucast (minute r) * 60 + ucast (second r)"

definition read_rtc :: "cmos \<Rightarrow> nat \<Rightarrow> (u32 \<times> nat) option" where
  "read_rtc c n = do {
     n \<leftarrow> wait_update c n;
     let (r, n) = read_registers c n;
     (r, n) \<leftarrow> settle c r n;
     let (registerB, n) = get_RTC_register 0x0B c n;
     Some (rtc_seconds (to_24_hours registerB (bcd_to_binary registerB r)), n)
   }"

section \<open>Time of day\<close>

definition HZ :: u32 where "HZ = 9000"

definition update_ticks :: "u32 \<Rightarrow> u32 \<times> u32" where
  "update_ticks ticks = (ticks div HZ, (ticks mod HZ) * (1000000 div HZ))"

text \<open>The seconds and microseconds that \<^verbatim>\<open>sys_gettimeofday\<close> stores; it reads the tick counter once.\<close>

definition sys_gettimeofday :: "u32 \<Rightarrow> u32 \<Rightarrow> u32 \<times> u32" where
  "sys_gettimeofday arch_boot_time ticks =
     (let (timer_ticks, timer_subticks) = update_ticks ticks in (arch_boot_time + timer_ticks, timer_subticks))"

section \<open>Reference calendar\<close>

text \<open>Days since 1970-01-01 in the proleptic Gregorian calendar, counting years from March.\<close>

definition civil_days :: "int \<Rightarrow> int \<Rightarrow> int \<Rightarrow> int" where
  "civil_days y m d =
     (let y' = (if m \<le> 2 then y - 1 else y); yoe = y' mod 400;
          doy = (153 * ((m + 9) mod 12) + 2) div 5 + d - 1
      in 146097 * (y' div 400) + (365 * yoe + yoe div 4 - yoe div 100 + doy) - 719468)"

definition leaps :: "int \<Rightarrow> int" where
  "leaps y = y div 4 - y div 100 + y div 400"

lemma leaps_step:
  "leaps y - leaps (y - 1) = (if y mod 4 = 0 then if y mod 100 = 0 then if y mod 400 = 0 then 1 else 0 else 1 else 0)"
proof -
  have d: "y div k - (y - 1) div k = (if y mod k = 0 then 1 else 0)" if "k > 1" for k
  proof -
    have y: "y - 1 = k * (y div k) + (y mod k - 1)" by (simp add: algebra_simps)
    have m: "0 \<le> y mod k" "y mod k < k" using that by simp_all
    show ?thesis
    proof (cases "y mod k = 0")
      case True
      then have "y - 1 = (k - 1) + k * (y div k - 1)" using y by (simp add: algebra_simps)
      then have "(y - 1) div k = y div k - 1" using that by (simp only: div_mult_self2) simp
      then show ?thesis using True by simp
    next
      case False
      have "y - 1 = (y mod k - 1) + k * (y div k)" using y by (simp add: algebra_simps)
      moreover have "(y mod k - 1) div k = 0" using False m by (intro div_pos_pos_trivial) auto
      ultimately have "(y - 1) div k = y div k" using that by (simp only: div_mult_self2)
      then show ?thesis using False by simp
    qed
  qed
  have "y mod 100 mod 4 = y mod 4" "y mod 400 mod 100 = y mod 100" by (rule mod_mod_cancel, simp)+
  then have "y mod 100 = 0 \<Longrightarrow> y mod 4 = 0" "y mod 400 = 0 \<Longrightarrow> y mod 100 = 0" by simp_all
  moreover have "leaps y - leaps (y - 1) =
      (if y mod 4 = 0 then 1 else 0) - (if y mod 100 = 0 then 1 else 0) + (if y mod 400 = 0 then 1 else 0)"
  proof -
    have "leaps y - leaps (y - 1) = (y div 4 - (y - 1) div 4) - (y div 100 - (y - 1) div 100) + (y div 400 - (y - 1) div 400)"
      unfolding leaps_def by algebra
    then show ?thesis by (simp only: d [of 4, simplified] d [of 100, simplified] d [of 400, simplified])
  qed
  ultimately show ?thesis by auto
qed

lemma year_loop_days:
  "1969 \<le> y \<Longrightarrow> year_loop y days = days + of_int (365 * (y - 1969) + leaps y - leaps 1969)"
proof (induction y days rule: year_loop.induct)
  case (1 y days)
  show ?case
  proof (cases "y > 1969")
    case True
    then show ?thesis using 1 leaps_step [of y]
      by (subst year_loop.simps) (auto simp: Let_def algebra_simps split: if_splits)
  next
    case False
    then have "y = 1969" using 1(2) by simp
    then show ?thesis by (simp add: year_loop.simps)
  qed
qed

text \<open>The century of the chip's two-digit years, by evaluation.\<close>

definition years_before :: "int \<Rightarrow> int" where
  "years_before y = 146097 * (y div 400) + (365 * (y mod 400) + (y mod 400) div 4 - (y mod 400) div 100)"

lemma civil_days_before:
  "civil_days y m d = years_before (if m \<le> 2 then y - 1 else y) + (153 * ((m + 9) mod 12) + 2) div 5 + d - 719469"
  by (simp add: civil_days_def years_before_def Let_def)

definition leap_year :: "int \<Rightarrow> bool" where
  "leap_year y \<longleftrightarrow> y mod 4 = 0 \<and> (y mod 100 \<noteq> 0 \<or> y mod 400 = 0)"

lemma century_table:
  "list_all (\<lambda>y. 365 * (y - 1 - 1969) + leaps (y - 1) - leaps 1969 = civil_days y 1 1 \<and>
     years_before y - years_before (y - 1) = (if leap_year y then 366 else 365)) [2000..2099]"
  by code_simp

lemma century:
  assumes "2000 \<le> y" "y \<le> 2099"
  shows "365 * (y - 1 - 1969) + leaps (y - 1) - leaps 1969 = civil_days y 1 1"
    "years_before y = years_before (y - 1) + (if leap_year y then 366 else 365)"
proof -
  have "y \<in> set [2000..2099]" unfolding set_upto atLeastAtMost_iff using assms by (rule conjI)
  with century_table have "365 * (y - 1 - 1969) + leaps (y - 1) - leaps 1969 = civil_days y 1 1 \<and>
      years_before y - years_before (y - 1) = (if leap_year y then 366 else 365)"
    unfolding list_all_iff by (rule bspec)
  then show "365 * (y - 1 - 1969) + leaps (y - 1) - leaps 1969 = civil_days y 1 1"
    "years_before y = years_before (y - 1) + (if leap_year y then 366 else 365)"
    by linarith+
qed

lemma secs_of_years_civil:
  assumes "2000 \<le> y" "y \<le> 2099"
  shows "secs_of_years (y - 1 - 2000) = of_int (86400 * civil_days y 1 1)"
proof -
  have "year_loop (y - 1) 0 = of_int (civil_days y 1 1)"
    using year_loop_days [of "y - 1" 0] assms(1) unfolding century(1) [OF assms] add_0 by linarith
  then show ?thesis by (simp add: secs_of_years_def)
qed

lemma month_cases:
  assumes "1 \<le> (m :: int)" "m \<le> 12"
  obtains "m = 1" | "m = 2" | "m = 3" | "m = 4" | "m = 5" | "m = 6" | "m = 7" | "m = 8" | "m = 9" | "m = 10" | "m = 11" | "m = 12"
  using assms by (auto simp: le_less dest!: zless_imp_add1_zle)

lemma secs_of_month_civil:
  assumes "2000 \<le> y" "y \<le> 2099" "1 \<le> m" "m \<le> 12"
  shows "secs_of_month (m - 1) (y - 2000) = of_int (86400 * (civil_days y m 1 - civil_days y 1 1))"
proof -
  have "month_lengths y = [31, if leap_year y then 29 else 28, 31, 30, 31, 30, 31, 31, 30, 31, 30]"
    by (simp add: month_lengths_def leap_year_def)
  note ml = this
  from assms(3,4) show ?thesis
    by (rule month_cases) (simp_all add: secs_of_month_def ml civil_days_before century(2) [OF assms(1,2)])
qed


section \<open>Decoding\<close>

definition bcd :: "nat \<Rightarrow> u8" where
  "bcd x = of_nat (16 * (x div 10) + x mod 10)"

lemma bcd_table:
  "list_all (\<lambda>x. from_bcd (bcd x) = of_nat x \<and> from_bcd (ucast (bcd x) :: u32) = of_nat x) [0..<100]"
  by code_simp

lemma from_bcd_bcd:
  assumes "x < 100" shows "from_bcd (bcd x) = of_nat x" "from_bcd (ucast (bcd x) :: u32) = of_nat x"
  using bcd_table assms unfolding list_all_iff by simp_all

text \<open>A moment of a chip's century, and its Unix time in the reference calendar.\<close>

record moment =
  yr :: nat
  mon :: nat
  mday :: nat
  hr :: nat
  mnt :: nat
  sec :: nat

definition moment_ok :: "moment \<Rightarrow> bool" where
  "moment_ok m \<longleftrightarrow> yr m < 100 \<and> 1 \<le> mon m \<and> mon m \<le> 12 \<and> mday m \<le> 31 \<and> hr m < 24 \<and> mnt m < 60 \<and> sec m < 60"

definition unix_time :: "moment \<Rightarrow> int" where
  "unix_time m = 86400 * civil_days (2000 + int (yr m)) (int (mon m)) (int (mday m)) +
     3600 * int (hr m) + 60 * int (mnt m) + int (sec m)"

text \<open>What the registers show for a moment, in the format that register B announces: binary or BCD
  (bit 2), hours from 0 to 23 or from 1 to 12 with the top bit for the afternoon (bit 1).\<close>

definition shown :: "u8 \<Rightarrow> nat \<Rightarrow> u8" where
  "shown B x = (if B AND 0x04 = 0 then bcd x else of_nat x)"

definition hour_shown :: "u8 \<Rightarrow> nat \<Rightarrow> u8" where
  "hour_shown B h =
     (if B AND 0x02 \<noteq> 0 then shown B h
      else shown B (if h mod 12 = 0 then 12 else h mod 12) OR (if 12 \<le> h then 0x80 else 0))"

definition shown_regs :: "u8 \<Rightarrow> moment \<Rightarrow> rtc" where
  "shown_regs B m = \<lparr>second = shown B (sec m), minute = shown B (mnt m), hour = hour_shown B (hr m),
     day = shown B (mday m), month = shown B (mon m), year = ucast (shown B (yr m))\<rparr>"

text \<open>A chip that shows one moment up to access \<open>N\<close> and another one from then on, in the middle of being
  read if it so happens, and that is not always updating.\<close>

definition displays :: "cmos \<Rightarrow> u8 \<Rightarrow> nat \<Rightarrow> moment \<Rightarrow> moment \<Rightarrow> bool" where
  "displays c B N m1 m2 \<longleftrightarrow> (\<forall>n. let m = (if n < N then m1 else m2) in
     c n 0x00 = shown B (sec m) \<and> c n 0x02 = shown B (mnt m) \<and> c n 0x04 = hour_shown B (hr m) \<and>
     c n 0x07 = shown B (mday m) \<and> c n 0x08 = shown B (mon m) \<and> c n 0x09 = shown B (yr m) \<and> c n 0x0B = B \<and>
     (\<exists>k \<ge> n. c k 0x0A AND 0x80 = 0))"

text \<open>How the driver understands the hour: in 12-hour mode it takes noon for midnight and midnight for
  noon.\<close>

definition understood :: "u8 \<Rightarrow> moment \<Rightarrow> moment" where
  "understood B m = (if B AND 0x02 = 0 \<and> hr m mod 12 = 0 then m\<lparr>hr := 12 - hr m\<rparr> else m)"

definition decoded_hour :: "u8 \<Rightarrow> u8" where
  "decoded_hour x = (if x AND 0x80 \<noteq> 0 then ((x AND 0x7F) + 12) mod 24 else x)"

lemma hour_table:
  "list_all (\<lambda>h. ((bcd h AND 0x0F) + ((bcd h AND 0x70) div 16) * 10) OR (bcd h AND 0x80) = of_nat h) [0..<24]"
  "list_all (\<lambda>h. let x = bcd (if h mod 12 = 0 then 12 else h mod 12) OR (if 12 \<le> h then 0x80 else 0) in
     decoded_hour (((x AND 0x0F) + ((x AND 0x70) div 16) * 10) OR (x AND 0x80)) =
       of_nat (if h mod 12 = 0 then 12 - h else h)) [0..<24]"
  "list_all (\<lambda>h. decoded_hour (of_nat (if h mod 12 = 0 then 12 else h mod 12) OR (if 12 \<le> h then 0x80 else 0)) =
       of_nat (if h mod 12 = 0 then 12 - h else h)) [0..<24]"
  by code_simp+

lemma hour_understood:
  assumes "hr m < 24" "hour r = hour_shown B (hr m)"
  shows "hour (to_24_hours B (bcd_to_binary B r)) = of_nat (hr (understood B m))"
proof -
  have h: "hr m \<in> set [0..<24]" using assms(1) by simp
  note t = hour_table [unfolded list_all_iff, THEN bspec, OF h, unfolded Let_def]
  have d: "hour (to_24_hours B r') = (if B AND 0x02 = 0 then decoded_hour (hour r') else hour r')" for r'
    by (simp add: to_24_hours_def decoded_hour_def)
  show ?thesis
    using t unfolding d
    by (cases "B AND 0x04 = 0"; cases "B AND 0x02 = 0")
      (simp_all add: bcd_to_binary_def assms(2) hour_shown_def shown_def understood_def)
qed

lemma others_understood:
  assumes "moment_ok m"
  shows "to_24_hours B (bcd_to_binary B (shown_regs B m)) =
    \<lparr>second = of_nat (sec m), minute = of_nat (mnt m), hour = of_nat (hr (understood B m)), day = of_nat (mday m),
     month = of_nat (mon m), year = of_nat (yr m)\<rparr>"
proof -
  have "hour (to_24_hours B (bcd_to_binary B (shown_regs B m))) = of_nat (hr (understood B m))"
    using assms by (intro hour_understood) (simp_all add: moment_ok_def shown_regs_def)
  moreover have "second (to_24_hours B r) = second r \<and> minute (to_24_hours B r) = minute r \<and> day (to_24_hours B r) = day r \<and>
      month (to_24_hours B r) = month r \<and> year (to_24_hours B r) = year r" for r
    by (simp add: to_24_hours_def)
  ultimately show ?thesis
    using assms by (intro rtc.equality)
      (simp_all add: bcd_to_binary_def shown_regs_def shown_def moment_ok_def from_bcd_bcd unsigned_of_nat take_bit_nat_eq_self)
qed

section \<open>Reading the chip\<close>

lemma wait_update_returns:
  assumes "\<exists>k \<ge> n. c k 0x0A AND 0x80 = 0"
  shows "\<exists>n' > n. wait_update c n = Some n'"
proof -
  obtain k where "n \<le> k" "c k 0x0A AND 0x80 = 0" using assms by blast
  then show ?thesis
  proof (induction "k - n" arbitrary: n)
    case 0
    then show ?case by (subst wait_update.simps) (simp add: get_update_in_progress_flag_def)
  next
    case (Suc m)
    show ?case
    proof (cases "c n 0x0A AND 0x80 = 0")
      case False
      have "\<exists>n' > Suc n. wait_update c (Suc n) = Some n'" using Suc(1) [of "Suc n"] Suc(2-4) by simp
      then obtain n' where "Suc n < n'" "wait_update c (Suc n) = Some n'" by blast
      then show ?thesis using False
        by (subst wait_update.simps) (auto simp: get_update_in_progress_flag_def intro!: exI [of _ n'])
    qed (subst wait_update.simps, simp add: get_update_in_progress_flag_def)
  qed
qed

text \<open>A round before the change reads the first moment, one behind it the second.\<close>

lemma round:
  assumes "displays c B N m1 m2"
  shows "snd (read_registers c n) = n + 6"
    and "n + 6 \<le> N \<Longrightarrow> fst (read_registers c n) = shown_regs B m1"
    and "N \<le> n \<Longrightarrow> fst (read_registers c n) = shown_regs B m2"
proof -
  have d: "c n 0x00 = shown B (sec (if n < N then m1 else m2)) \<and> c n 0x02 = shown B (mnt (if n < N then m1 else m2)) \<and>
     c n 0x04 = hour_shown B (hr (if n < N then m1 else m2)) \<and> c n 0x07 = shown B (mday (if n < N then m1 else m2)) \<and>
     c n 0x08 = shown B (mon (if n < N then m1 else m2)) \<and> c n 0x09 = shown B (yr (if n < N then m1 else m2))" for n
    using assms unfolding displays_def Let_def by blast
  show "snd (read_registers c n) = n + 6" by (simp add: read_registers_def get_RTC_register_def)
  show "n + 6 \<le> N \<Longrightarrow> fst (read_registers c n) = shown_regs B m1" "N \<le> n \<Longrightarrow> fst (read_registers c n) = shown_regs B m2"
    by (simp_all add: read_registers_def get_RTC_register_def shown_regs_def d)
qed

text \<open>Two rounds that agree cannot both be torn: at most one of them contains the change.\<close>

lemma settle_returns:
  assumes d: "displays c B N m1 m2" and p: "prev = fst (read_registers c k)" "k + 6 \<le> n"
  shows "\<exists>m \<in> {m1, m2}. \<exists>n'. settle c prev n = Some (shown_regs B m, n')"
  using p
proof (induction "N - n" arbitrary: n prev k rule: less_induct)
  case less
  have "\<exists>j \<ge> n. c j 0x0A AND 0x80 = 0" using d unfolding displays_def Let_def by blast
  with wait_update_returns [of n c] obtain i where i: "n < i" "wait_update c n = Some i" by blast
  let ?r = "fst (read_registers c i)"
  have step: "settle c prev n = (if prev \<noteq> ?r then settle c ?r (i + 6) else Some (?r, i + 6))"
    using round(1) [OF d, of i] by (subst settle.simps) (simp add: i(2) case_prod_beta Let_def)
  show ?case
  proof (cases "prev = ?r")
    case True
    then show ?thesis
      using step round(2) [OF d, of k] round(3) [OF d, of i] less.prems i(1) by (cases "k + 6 \<le> N") auto
  next
    case False
    show ?thesis
    proof (cases "N \<le> n")
      case True
      have "\<exists>j \<ge> i + 6. c j 0x0A AND 0x80 = 0" using d unfolding displays_def Let_def by blast
      with wait_update_returns [of "i + 6" c] obtain j where j: "i + 6 < j" "wait_update c (i + 6) = Some j" by blast
      have "fst (read_registers c j) = ?r" "?r = shown_regs B m2"
        using round(3) [OF d] True i(1) j(1) by simp_all
      moreover have "read_registers c j = (fst (read_registers c j), j + 6)" using round(1) [OF d, of j] by (metis prod.collapse)
      ultimately have "settle c ?r (i + 6) = Some (shown_regs B m2, j + 6)"
        by (subst settle.simps) (simp add: j(2))
      then show ?thesis using step False by simp
    qed (use less.hyps [of "i + 6" ?r i] step False i(1) in auto)
  qed
qed

lemma rtc_seconds_civil:
  assumes "y < 100" "1 \<le> mo" "mo \<le> 12"
    and r: "r = \<lparr>second = of_nat se, minute = of_nat mi, hour = of_nat h, day = of_nat d, month = of_nat mo, year = of_nat y\<rparr>"
    and "se < 256" "mi < 256" "h < 256" "d < 256"
  shows "rtc_seconds r = of_int (86400 * civil_days (2000 + int y) (int mo) (int d) + 3600 * int h + 60 * int mi + int se)"
proof -
  have u: "ucast (of_nat x :: u8) = (of_nat x :: u32)" if "x < 256" for x
    using that by (simp add: unsigned_of_nat take_bit_nat_eq_self)
  have "sint (of_nat y - 1 :: u32) = int y - 1"
  proof -
    have "of_nat y - 1 = (word_of_int (int y - 1) :: u32)" by simp
    then show ?thesis using assms(1) by (simp only: signed_of_int) (simp add: signed_take_bit_int_eq_self)
  qed
  then have "secs_of_years (sint (year r - 1)) = of_int (86400 * civil_days (2000 + int y) 1 1)"
    using secs_of_years_civil [of "2000 + int y"] assms(1) r by simp
  moreover have "secs_of_month (uint (month r) - 1) (uint (year r)) =
      of_int (86400 * (civil_days (2000 + int y) (int mo) 1 - civil_days (2000 + int y) 1 1))"
    using secs_of_month_civil [of "2000 + int y" "int mo"] assms(1-3) r by (simp add: unsigned_of_nat take_bit_nat_eq_self)
  moreover have civ: "civil_days (2000 + int y) (int mo) (int d) = civil_days (2000 + int y) (int mo) 1 + (int d - 1)"
    by (simp add: civil_days_def Let_def)
  ultimately show ?thesis
    using u assms(5-8) unfolding rtc_seconds_def r civ by (simp add: algebra_simps)
qed

lemma years_before_table: "list_all (\<lambda>y. 730000 \<le> years_before y \<and> years_before y \<le> 767000) [1999..2099]"
  by code_simp

lemma civil_days_bounds:
  assumes "2000 \<le> y" "y \<le> 2099" "0 \<le> d" "d \<le> 31"
  shows "0 \<le> civil_days y m d" "civil_days y m d \<le> 48000"
proof -
  have "730000 \<le> years_before z \<and> years_before z \<le> 767000" if "1999 \<le> z" "z \<le> 2099" for z
  proof -
    have "z \<in> set [1999..2099]" unfolding set_upto atLeastAtMost_iff using that by (rule conjI)
    with years_before_table show ?thesis unfolding list_all_iff by (rule bspec)
  qed
  from this [of "y - 1"] this [of y] have "730000 \<le> years_before (if m \<le> 2 then y - 1 else y)"
    "years_before (if m \<le> 2 then y - 1 else y) \<le> 767000" using assms(1,2) by simp_all
  moreover have "0 \<le> (m + 9) mod 12" "(m + 9) mod 12 \<le> 11" by simp_all
  then have "0 \<le> (153 * ((m + 9) mod 12) + 2) div 5" "(153 * ((m + 9) mod 12) + 2) div 5 \<le> 337" by linarith+
  ultimately show "0 \<le> civil_days y m d" "civil_days y m d \<le> 48000"
    unfolding civil_days_before using assms(3,4) by linarith+
qed

text \<open>C22. The clock. The chip shows a moment of the years 2000 to 2099, in binary or in BCD, with hours
  in 24-hour or in 12-hour mode as its register B says, and steps to another moment once, at any access;
  it is not updating for ever. Then reading it ends, with the Unix time of the one moment or of the
  other, never of a mixture of both, as the calendar of the reference defines it and without overflow in
  32 bits; but in 12-hour mode noon is taken for midnight and midnight for noon.\<close>

theorem rtc_unix_time:
  assumes d: "displays c B N m1 m2" and ok: "moment_ok m1" "moment_ok m2"
  shows "\<exists>t n'. \<exists>m \<in> {m1, m2}. read_rtc c n = Some (t, n') \<and> uint t = unix_time (understood B m)"
proof -
  have B: "c n 0x0B = B" and up: "\<exists>k \<ge> n. c k 0x0A AND 0x80 = 0" for n
    using d unfolding displays_def Let_def by blast+
  obtain n1 where n1: "wait_update c n = Some n1" using wait_update_returns [of n c] up by blast
  have rr: "read_registers c n1 = (fst (read_registers c n1), n1 + 6)" using round(1) [OF d, of n1] by (metis prod.collapse)
  obtain m n2 where m: "m \<in> {m1, m2}" "settle c (fst (read_registers c n1)) (n1 + 6) = Some (shown_regs B m, n2)"
    using settle_returns [OF d refl, of n1 "n1 + 6"] by blast
  let ?u = "understood B m"
  have mo: "moment_ok m" using m(1) ok by auto
  have u: "yr ?u = yr m" "mon ?u = mon m" "mday ?u = mday m" "mnt ?u = mnt m" "sec ?u = sec m" "hr ?u < 24"
    using mo by (auto simp: understood_def moment_ok_def)
  have "rtc_seconds (to_24_hours B (bcd_to_binary B (shown_regs B m))) = of_int (unix_time ?u)"
    using rtc_seconds_civil [OF _ _ _ others_understood [OF mo, of B]] mo u by (simp add: moment_ok_def unix_time_def)
  then have "read_rtc c n = Some (of_int (unix_time ?u), n2 + 1)"
    by (subst read_rtc_def, subst n1, simp only: bind.bind_lunit, subst rr)
      (simp add: m(2) get_RTC_register_def B)
  moreover have "0 \<le> unix_time ?u" "unix_time ?u < 2 ^ 32"
    using civil_days_bounds [of "2000 + int (yr m)" "int (mday m)" "int (mon m)"] mo u
    by (auto simp: moment_ok_def unix_time_def)
  moreover have "uint (of_int z :: u32) = z" if "0 \<le> z" "z < 2 ^ 32" for z
    using that by (simp add: uint_word_of_int_eq take_bit_int_eq_self)
  ultimately show ?thesis using m(1) by blast
qed

text \<open>A chip in 12-hour mode, in BCD, that passes from the last second before noon to noon at its tenth
  access.\<close>

definition noon_chip :: cmos where
  "noon_chip n r = (if r = 0x0A then (if n mod 2 = 0 then 0x80 else 0) else if r = 0x0B then 0
     else if r = 0x00 then (if n < 10 then 0x59 else 0) else if r = 0x02 then (if n < 10 then 0x59 else 0)
     else if r = 0x04 then (if n < 10 then 0x11 else 0x92) else if r = 0x07 then 0x29
     else if r = 0x08 then 0x02 else if r = 0x09 then 0x24 else 0)"

theorem rtc_unix_time_witness:
  "\<exists>t n'. read_rtc noon_chip 0 = Some (t, n') \<and> (uint t = 1709207999 \<or> uint t = 1709164800)"
proof -
  let ?m = "\<lambda>h x. \<lparr>yr = 24, mon = 2, mday = 29, hr = h, mnt = x, sec = x\<rparr>"
  have "displays noon_chip 0 10 (?m 11 59) (?m 12 0)"
  proof -
    have "\<exists>k \<ge> n. noon_chip k 0x0A AND 0x80 = 0" for n
      by (rule exI [of _ "Suc (2 * n)"]) (simp add: noon_chip_def)
    then show ?thesis unfolding displays_def
      by (simp add: noon_chip_def shown_def hour_shown_def bcd_def Let_def)
  qed
  from rtc_unix_time [OF this, of 0] show ?thesis
    by (auto simp: moment_ok_def understood_def unix_time_def civil_days_def)
qed

text \<open>In 12-hour mode the hour 12 of the afternoon becomes 0: noon is read as midnight. Hours from 1 to 11 of
  the afternoon are right.\<close>

lemma noon_is_midnight:
  "hour (to_24_hours 0 (bcd_to_binary 0 (r\<lparr>hour := 0x92\<rparr>))) = 0"
  "hour (to_24_hours 0 (bcd_to_binary 0 (r\<lparr>hour := 0x81\<rparr>))) = 13"
  by (simp_all add: to_24_hours_def bcd_to_binary_def)

text \<open>The time of day. The microseconds stay below one second, and the time in ticks is not ahead of the
  tick counter and less than one second behind it; as long as the sum of boot time and seconds fits in 32 bits,
  the seconds do not wrap.\<close>

theorem time_of_day_bounds:
  assumes "unat boot + unat ticks div 9000 < 2 ^ 32"
  shows "unat (snd (sys_gettimeofday boot ticks)) < 1000000 \<and>
    unat (fst (sys_gettimeofday boot ticks)) = unat boot + unat ticks div 9000 \<and>
    9000 * unat (snd (sys_gettimeofday boot ticks)) \<le> 1000000 * (unat ticks mod 9000)"
proof -
  have sub: "unat ((ticks mod 9000) * 111) = (unat ticks mod 9000) * 111"
    by (subst unat_mult_less) (simp_all add: unat_mod_word)
  have m: "unat ticks mod 9000 < 9000" by simp
  have "unat (boot + ticks div 9000) = unat boot + unat ticks div 9000"
    using assms by (subst unat_add_less) (simp_all add: unat_div_word)
  then show ?thesis using sub m by (simp add: sys_gettimeofday_def update_ticks_def HZ_def)
qed

theorem time_of_day_bounds_witness:
  "unat (snd (sys_gettimeofday 1709251198 17999)) < 1000000"
  using time_of_day_bounds [of 1709251198 17999] by simp

end
