(* ===== verification/Descriptor.thy ===== *)
theory Descriptor
  imports Prelude
begin

text \<open>
  Segment and gate descriptors (\<^verbatim>\<open>core/destab/descriptor.c\<close>, \<^verbatim>\<open>core/destab/tss.c\<close>), the tables that
  \<^verbatim>\<open>core/protect.c\<close> fills, and the programming of the interrupt controllers and of the timer chip
  (\<^verbatim>\<open>core/pic/pic.c\<close>, \<^verbatim>\<open>core/frog/pit8253.c\<close>). The two tables are maps from entry numbers; the
  registers that hold their addresses are kept beside them.
\<close>

section \<open>Table registers\<close>

record Descriptor_REG =
  reg_limit :: u16
  reg_address :: u32

text \<open>The two words that \<^verbatim>\<open>sgdt\<close> and \<^verbatim>\<open>sidt\<close> store, and their decoding.\<close>

definition stored_words :: "Descriptor_REG \<Rightarrow> u32 \<times> u32" where
  "stored_words r = (ucast (reg_limit r) OR push_bit 16 (reg_address r), drop_bit 16 (reg_address r))"

definition get_from_descriptor_table_register :: "u32 \<times> u32 \<Rightarrow> Descriptor_REG" where
  "get_from_descriptor_table_register w =
     \<lparr>reg_limit = ucast (fst w AND 0x0000ffff), reg_address = drop_bit 16 (fst w) OR push_bit 16 (snd w)\<rparr>"

definition save_reg :: "Descriptor_REG \<Rightarrow> Descriptor_REG" where
  "save_reg r = get_from_descriptor_table_register (stored_words r)"

section \<open>Descriptors\<close>

record Segment_Descriptor =
  limit_15_00 :: u16
  base_address_15_00 :: u16
  base_address_16_23 :: u8
  access_right :: u8
  attribute_and_limit_16_19 :: u8
  base_address_24_31 :: u8

record Gate_Descriptor =
  offset_15_0 :: u16
  gate_selector :: u16
  dw_count :: u8
  gate_access :: u8
  offset_32_16 :: u16

definition create_gate :: "u16 \<Rightarrow> u32 \<Rightarrow> u8 \<Rightarrow> u8 \<Rightarrow> Gate_Descriptor" where
  "create_gate sel off attr dcount =
     \<lparr>offset_15_0 = ucast (off AND 0xffff), gate_selector = sel, dw_count = dcount, gate_access = attr,
      offset_32_16 = ucast (drop_bit 16 off AND 0xffff)\<rparr>"

definition create_descriptor :: "u32 \<Rightarrow> u32 \<Rightarrow> u8 \<Rightarrow> u8 \<Rightarrow> Segment_Descriptor" where
  "create_descriptor base lim acc attr =
     \<lparr>limit_15_00 = ucast (lim AND 0xffff), base_address_15_00 = ucast (base AND 0xffff),
      base_address_16_23 = ucast (drop_bit 16 base AND 0xff), access_right = acc,
      attribute_and_limit_16_19 = push_bit 4 attr + ucast (drop_bit 16 lim AND 0xf),
      base_address_24_31 = ucast (drop_bit 24 base)\<rparr>"

definition SELECTOR :: "u16 \<Rightarrow> u16 \<Rightarrow> u16 \<Rightarrow> u16" where
  "SELECTOR idx ti rpl = push_bit 3 idx + ti + rpl"

definition create_tss_descriptor :: "u32 \<Rightarrow> u32 \<Rightarrow> u8 \<Rightarrow> Segment_Descriptor" where
  "create_tss_descriptor base lim dpl = create_descriptor base lim (0x80 OR dpl OR 0x00 OR 0x9) (0x8 OR 0x0 OR 0x0 OR 0x0)"

section \<open>The tables\<close>

record tables =
  gdt :: "nat \<Rightarrow> Segment_Descriptor"
  idt :: "nat \<Rightarrow> Gate_Descriptor"
  idtr :: Descriptor_REG
  tss_ss0 :: u32
  tss_esp0_field :: u32
  tss_io_bitmaps_offset :: u16
  task_register :: u16
  intr_table :: "nat \<Rightarrow> u32"

definition register_INT :: "nat \<Rightarrow> u32 \<Rightarrow> u8 \<Rightarrow> tables \<Rightarrow> tables" where
  "register_INT vec handler dpl t =
     t\<lparr>idt := (idt t)(vec := create_gate (SELECTOR 1 0 0) handler (0x80 OR dpl OR 0xE) 0)\<rparr>"

definition register_ring0_INT :: "(nat \<Rightarrow> u32) \<Rightarrow> nat \<Rightarrow> tables \<Rightarrow> tables" where
  "register_ring0_INT intr_entry_table vec t = register_INT vec (intr_entry_table vec) 0x00 t"

definition register_ring3_INT :: "nat \<Rightarrow> u32 \<Rightarrow> tables \<Rightarrow> tables" where
  "register_ring3_INT vec handler t = register_INT vec handler 0x60 t"

text \<open>No call of this one is left in the code.\<close>

definition create_ring0_Descriptor :: "nat \<Rightarrow> u8 \<Rightarrow> tables \<Rightarrow> tables" where
  "create_ring0_Descriptor i des_type t =
     t\<lparr>gdt := (gdt t)(i := create_descriptor 0x0 0xffffffff (0x80 OR 0x00 OR 0x10 OR des_type) (0x8 OR 0x4 OR 0x0 OR 0x0))\<rparr>"

definition create_ring1_Descriptor :: "nat \<Rightarrow> u8 \<Rightarrow> tables \<Rightarrow> tables" where
  "create_ring1_Descriptor i des_type t =
     t\<lparr>gdt := (gdt t)(i := create_descriptor 0x0 0xffffffff (0x80 OR 0x20 OR 0x10 OR des_type) (0x8 OR 0x4 OR 0x0 OR 0x0))\<rparr>"

definition create_ring3_Descriptor :: "nat \<Rightarrow> u8 \<Rightarrow> tables \<Rightarrow> tables" where
  "create_ring3_Descriptor i des_type t =
     t\<lparr>gdt := (gdt t)(i := create_descriptor 0x0 0xffffffff (0x80 OR 0x60 OR 0x10 OR des_type) (0x8 OR 0x4 OR 0x0 OR 0x0))\<rparr>"

definition init_gdt :: "tables \<Rightarrow> tables" where
  "init_gdt t =
     (let t = create_ring3_Descriptor 6 0x8 t;
          t = create_ring3_Descriptor 7 0x2 t;
          t = create_ring1_Descriptor 8 0x8 t
      in create_ring1_Descriptor 9 0x2 t)"

definition init_idt :: "(nat \<Rightarrow> u32) \<Rightarrow> u32 \<Rightarrow> tables \<Rightarrow> tables" where
  "init_idt intr_entry_table syscall_handler t =
     (let r = save_reg (idtr t);
          t = t\<lparr>idtr := r\<lparr>reg_address := reg_address r OR 0xc0000000\<rparr>\<rparr>;
          t = fold (register_ring0_INT intr_entry_table) [0..<0x30] t
      in register_ring3_INT 0x93 syscall_handler t)"

text \<open>\<open>tss\<close> is the address of the task state segment, whose size is 104.\<close>

definition create_tss :: "u32 \<Rightarrow> tables \<Rightarrow> tables" where
  "create_tss tss t =
     t\<lparr>tss_ss0 := ucast (SELECTOR 2 0 0), tss_esp0_field := 0xc009f000, tss_io_bitmaps_offset := 0,
       gdt := (gdt t)(5 := create_tss_descriptor tss 104 0x00), task_register := SELECTOR 5 0 0\<rparr>"

definition init_idt_gdt_tss :: "(nat \<Rightarrow> u32) \<Rightarrow> u32 \<Rightarrow> u32 \<Rightarrow> tables \<Rightarrow> tables" where
  "init_idt_gdt_tss intr_entry_table syscall_handler tss t =
     create_tss tss (init_idt intr_entry_table syscall_handler (init_gdt t))"

definition register_r0_intr_handler :: "nat \<Rightarrow> u32 \<Rightarrow> tables \<Rightarrow> tables" where
  "register_r0_intr_handler vec handler t = t\<lparr>intr_table := (intr_table t)(vec := handler)\<rparr>"

section \<open>Chips\<close>

text \<open>The writes to ports, in their order.\<close>

definition init_8259A :: "(u16 \<times> u8) list" where
  "init_8259A =
     [(0x20, 0x11), (0xA0, 0x11),
      (0x21, 0x20), (0xA1, 0x28),
      (0x21, 0x04), (0xA1, 0x02),
      (0x21, 0x01), (0xA1, 0x01),
      (0x21, 0xFE AND 0xFB AND 0xFD), (0xA1, 0xEF AND 0xBF)]"

definition frequency_set :: "u16 \<Rightarrow> u8 \<Rightarrow> u8 \<Rightarrow> u8 \<Rightarrow> u16 \<Rightarrow> (u16 \<times> u8) list" where
  "frequency_set counter_port counter_no rwL counter_mode counter_value =
     [(0x43, push_bit 6 counter_no OR push_bit 4 rwL OR push_bit 1 counter_mode),
      (counter_port, ucast counter_value),
      (counter_port, drop_bit 8 (ucast counter_value))]"

definition init_PIT8253 :: "(u16 \<times> u8) list" where
  "init_PIT8253 = frequency_set 0x40 0 3 2 (of_nat (1193180 div 9000))"

section \<open>What the processor reads\<close>

definition seg_base :: "Segment_Descriptor \<Rightarrow> u32" where
  "seg_base d = ucast (base_address_15_00 d) OR push_bit 16 (ucast (base_address_16_23 d)) OR
     push_bit 24 (ucast (base_address_24_31 d))"

definition seg_limit :: "Segment_Descriptor \<Rightarrow> u32" where
  "seg_limit d = ucast (limit_15_00 d) OR push_bit 16 (ucast (attribute_and_limit_16_19 d AND 0xf))"

definition seg_flags :: "Segment_Descriptor \<Rightarrow> u8" where
  "seg_flags d = drop_bit 4 (attribute_and_limit_16_19 d)"

definition gate_offset :: "Gate_Descriptor \<Rightarrow> u32" where
  "gate_offset g = ucast (offset_15_0 g) OR push_bit 16 (ucast (offset_32_16 g))"

definition dpl_of :: "u8 \<Rightarrow> u8" where
  "dpl_of acc = drop_bit 5 acc AND 3"

lemma and_low_bits:
  fixes x :: "'a::len word"
  shows "x AND 0xffff = take_bit 16 x" "x AND 0xff = take_bit 8 x" "x AND 0xf = take_bit 4 x"
  by (simp_all add: take_bit_eq_mask mask_eq_exp_minus_1)

lemma save_reg_id: "save_reg r = r"
proof -
  have "ucast (take_bit 16 (ucast (reg_limit r) OR push_bit 16 (reg_address r)) :: u32) = reg_limit r"
    by (rule bit_word_eqI) (auto simp: bit_simps)
  moreover have "drop_bit 16 (ucast (reg_limit r) OR push_bit 16 (reg_address r)) OR push_bit 16 (drop_bit 16 (reg_address r)) =
      reg_address r"
    by (rule bit_word_eqI, rename_tac i, case_tac "i < 16") (auto simp: bit_simps dest: bit_imp_le_length)
  ultimately show ?thesis
    by (simp add: save_reg_def stored_words_def get_from_descriptor_table_register_def and_low_bits)
qed

lemma descriptor_fields:
  "seg_base (create_descriptor base lim acc attr) = base"
  "seg_limit (create_descriptor base lim acc attr) = take_bit 20 lim"
  "seg_flags (create_descriptor base lim acc attr) = take_bit 4 attr"
  "access_right (create_descriptor base lim acc attr) = acc"
  "gate_offset (create_gate sel off acc n) = off" "gate_selector (create_gate sel off acc n) = sel"
proof -
  let ?low = "ucast (take_bit 4 (drop_bit 16 lim)) :: u8"
  have attr: "push_bit 4 attr + ?low = push_bit 4 attr OR ?low"
    by (rule disjunctive_add) (auto simp: bit_simps)
  have "seg_base (create_descriptor base lim acc attr) = base"
    unfolding seg_base_def create_descriptor_def and_low_bits
    by (rule bit_word_eqI, rename_tac i, case_tac "i < 16"; case_tac "i < 24") (auto simp: bit_simps)
  moreover have "seg_limit (create_descriptor base lim acc attr) = take_bit 20 lim"
    unfolding seg_limit_def create_descriptor_def and_low_bits Segment_Descriptor.select_convs attr
    by (rule bit_word_eqI, rename_tac i, case_tac "i < 16") (auto simp: bit_simps)
  moreover have "seg_flags (create_descriptor base lim acc attr) = take_bit 4 attr"
    unfolding seg_flags_def create_descriptor_def and_low_bits Segment_Descriptor.select_convs attr
    by (rule bit_word_eqI) (auto simp: bit_simps)
  moreover have "gate_offset (create_gate sel off acc n) = off"
    unfolding gate_offset_def create_gate_def and_low_bits
    by (rule bit_word_eqI, rename_tac i, case_tac "i < 16") (auto simp: bit_simps)
  ultimately show "seg_base (create_descriptor base lim acc attr) = base"
    "seg_limit (create_descriptor base lim acc attr) = take_bit 20 lim"
    "seg_flags (create_descriptor base lim acc attr) = take_bit 4 attr" "gate_offset (create_gate sel off acc n) = off"
    by simp_all
qed (simp_all add: create_descriptor_def create_gate_def)

text \<open>C24. Descriptors. The processor reads from a segment descriptor the base address that it was made of, the
  low 20 bits of the limit, the low four flags and the access byte, and from a gate its handler,
  selector and access byte; so descriptors that differ in one of these fields are different. From the
  two words into which the processor stores a table register, in the order limit and address, the kernel
  reads back the limit and the address.\<close>

theorem descriptor_roundtrip:
  "(let d = create_descriptor base lim acc attr in
     seg_base d = base \<and> seg_limit d = take_bit 20 lim \<and> seg_flags d = take_bit 4 attr \<and> access_right d = acc) \<and>
   (let g = create_gate sel off acc n in gate_offset g = off \<and> gate_selector g = sel \<and> gate_access g = acc) \<and>
   get_from_descriptor_table_register (stored_words r) = r \<and> save_reg r = r"
  using descriptor_fields save_reg_id [of r] by (simp add: create_gate_def save_reg_def)

lemma idt_fold:
  "idt (fold (register_ring0_INT e) [0..<n] t) = (\<lambda>i. if i < n then create_gate 8 (e i) 0x8E 0 else idt t i)"
  "gdt (fold (register_ring0_INT e) [0..<n] t) = gdt t"
  "idtr (fold (register_ring0_INT e) [0..<n] t) = idtr t"
  by (induction n) (auto simp: register_ring0_INT_def register_INT_def SELECTOR_def)

text \<open>C23. After start-up every vector below 0x30 has a present interrupt gate of level 0 into the kernel's code
  segment that leads to its entry stub, vector 0x93 is the only one that level 3 may call, vectors in
  between are as the boot loader left them; segments 6 to 9 are flat (4 GB) with the level of their use, the
  first six entries but the task state segment are kept; the table register points above 3 GB.\<close>

theorem tables_after_start:
  fixes t entry syscall_handler tss
  defines "u \<equiv> init_idt_gdt_tss entry syscall_handler tss t"
  shows "(\<forall>vec < 0x30. gate_offset (idt u vec) = entry vec \<and> gate_selector (idt u vec) = 8 \<and> gate_access (idt u vec) = 0x8E) \<and>
    (\<forall>vec < 0x30. dpl_of (gate_access (idt u vec)) = 0) \<and>
    gate_offset (idt u 0x93) = syscall_handler \<and> dpl_of (gate_access (idt u 0x93)) = 3 \<and>
    (\<forall>vec \<ge> 0x30. vec \<noteq> 0x93 \<longrightarrow> idt u vec = idt t vec) \<and>
    (\<forall>i \<in> {6..9}. seg_base (gdt u i) = 0 \<and> seg_limit (gdt u i) = 0xfffff \<and> seg_flags (gdt u i) = 0xC \<and>
       dpl_of (access_right (gdt u i)) = (if i \<le> 7 then 3 else 1)) \<and>
    seg_base (gdt u 5) = tss \<and> task_register u = 5 * 8 \<and> (\<forall>i < 5. gdt u i = gdt t i) \<and>
    reg_limit (idtr u) = reg_limit (idtr t) \<and> reg_address (idtr u) \<ge> 0xc0000000"
proof -
  note rt = descriptor_fields
  have idt: "idt u = (\<lambda>i. if i < 0x30 then create_gate 8 (entry i) 0x8E 0 else idt t i)(0x93 := create_gate 8 syscall_handler 0xEE 0)"
    unfolding u_def init_idt_gdt_tss_def create_tss_def init_idt_def Let_def
    by (auto simp: fun_eq_iff idt_fold register_ring3_INT_def register_INT_def SELECTOR_def init_gdt_def
        create_ring1_Descriptor_def create_ring3_Descriptor_def)
  have gdt: "gdt u = (gdt t)(6 := create_descriptor 0 0xffffffff 0xF8 0xC, 7 := create_descriptor 0 0xffffffff 0xF2 0xC,
      8 := create_descriptor 0 0xffffffff 0xB8 0xC, 9 := create_descriptor 0 0xffffffff 0xB2 0xC,
      5 := create_descriptor tss 104 0x89 0x8)"
    unfolding u_def init_idt_gdt_tss_def create_tss_def init_idt_def Let_def
    by (simp add: idt_fold register_ring3_INT_def register_INT_def create_tss_descriptor_def init_gdt_def
        create_ring1_Descriptor_def create_ring3_Descriptor_def)
  have reg: "idtr u = (idtr t)\<lparr>reg_address := reg_address (idtr t) OR 0xc0000000\<rparr>" "task_register u = 5 * 8"
    unfolding u_def init_idt_gdt_tss_def create_tss_def init_idt_def Let_def
    by (simp_all add: idt_fold register_ring3_INT_def register_INT_def save_reg_id SELECTOR_def init_gdt_def
        create_ring1_Descriptor_def create_ring3_Descriptor_def)
  have "{6..9} = {6, 7, 8, 9 :: nat}" by auto
  moreover have "gate_access (create_gate sel off acc n) = acc" for sel off acc n by (simp add: create_gate_def)
  moreover have "x \<le> x OR y" for x y :: u32 by (simp add: word_le_def or_greater_eq uint_or)
  then have "0xc0000000 \<le> reg_address (idtr t) OR 0xc0000000" by (metis or.commute)
  ultimately show ?thesis
    using rt by (auto simp: idt gdt reg dpl_of_def)
qed

theorem tables_after_start_witness:
  "gate_offset (idt (init_idt_gdt_tss (\<lambda>v. 0xc0100000 + of_nat v) 0xc0105000 0xc0106000
     \<lparr>gdt = (\<lambda>_. create_descriptor 0 0 0 0), idt = (\<lambda>_. create_gate 0 0 0 0), idtr = \<lparr>reg_limit = 0x7ff, reg_address = 0x8000\<rparr>,
      tss_ss0 = 0, tss_esp0_field = 0, tss_io_bitmaps_offset = 0, task_register = 0, intr_table = (\<lambda>_. 0)\<rparr>) 0x21) = 0xc0100021"
  using tables_after_start [of "\<lambda>v. 0xc0100000 + of_nat v"] by simp

section \<open>The interrupt controllers as devices\<close>

text \<open>One 8259A at the ports \<open>base\<close> and \<open>base + 1\<close>: a command byte with bit 4 set starts the initialisation,
  the next three bytes at the second port are the vector base, the cascade byte and the mode, and after them
  that port is the mask register.\<close>

record pic_chip =
  stage :: nat
  vector_base :: u8
  cascade :: u8
  pic_mode :: u8
  mask_reg :: u8

definition pic_write :: "u16 \<Rightarrow> u16 \<times> u8 \<Rightarrow> pic_chip \<Rightarrow> pic_chip" where
  "pic_write base w c =
     (if fst w = base then (if snd w AND 0x10 \<noteq> 0 then c\<lparr>stage := 1, mask_reg := 0\<rparr> else c)
      else if fst w = base + 1 then
        (if stage c = 1 then c\<lparr>vector_base := snd w AND 0xf8, stage := 2\<rparr>
         else if stage c = 2 then c\<lparr>cascade := snd w, stage := 3\<rparr>
         else if stage c = 3 then c\<lparr>pic_mode := snd w, stage := 0\<rparr>
         else c\<lparr>mask_reg := snd w\<rparr>)
      else c)"

text \<open>The interrupt controllers. From any state of the two chips the writes of \<open>init_8259A\<close> leave both
  initialised in 8086 mode, with the vectors 0x20 to 0x27 and 0x28 to 0x2f, cascaded over line 2, and with
  exactly the clock, the keyboard, the cascade line, the mouse (12) and the disk (14) enabled.\<close>

theorem controllers_programmed:
  fixes m s
  defines "m' \<equiv> fold (pic_write 0x20) init_8259A m" and "s' \<equiv> fold (pic_write 0xA0) init_8259A s"
  shows "stage m' = 0 \<and> stage s' = 0 \<and> vector_base m' = 0x20 \<and> vector_base s' = 0x28 \<and>
    pic_mode m' = 1 \<and> pic_mode s' = 1 \<and> cascade m' = push_bit (unat (cascade s')) 1 \<and>
    {i. i < 8 \<and> \<not> bit (mask_reg m') i} = {0, 1, 2} \<and> {i. i < 8 \<and> \<not> bit (mask_reg s') i} = {12 - 8, 14 - 8}"
proof -
  have m: "m' = \<lparr>stage = 0, vector_base = 0x20, cascade = 4, pic_mode = 1, mask_reg = 0xF8, \<dots> = pic_chip.more m\<rparr>"
    unfolding m'_def init_8259A_def by (cases m) (simp add: pic_write_def)
  have s: "s' = \<lparr>stage = 0, vector_base = 0x28, cascade = 2, pic_mode = 1, mask_reg = 0xAF, \<dots> = pic_chip.more s\<rparr>"
    unfolding s'_def init_8259A_def by (cases s) (simp add: pic_write_def)
  have "{i. i < 8 \<and> \<not> bit x i} = set (filter (\<lambda>i. \<not> bit x i) [0..<8])" for x :: u8 by auto
  moreover have "set (filter (\<lambda>i. \<not> bit (0xF8 :: u8) i) [0..<8]) = {0, 1, 2}"
    "set (filter (\<lambda>i. \<not> bit (0xAF :: u8) i) [0..<8]) = {4, 6}" by code_simp+
  ultimately show ?thesis unfolding m s by simp
qed

text \<open>Only the low byte of a counter value reaches the timer chip (the cast binds stronger than the shift);
  for the frequency in use this makes no difference.\<close>

lemma timer_high_byte_lost:
  "snd (frequency_set port no rw mode v ! 2) = 0"
  "frequency_set port no rw mode v ! 1 = (port, ucast v)"
  by (simp_all add: frequency_set_def)

lemma timer_programmed: "init_PIT8253 = [(0x43, 0x34), (0x40, 132), (0x40, 0)]"
  by (simp add: init_PIT8253_def frequency_set_def)

end
