(* ===== verification/Device.thy ===== *)
theory Device
  imports DirSpec Fs
begin

text \<open>
  Device files: the functions that create them (\<^verbatim>\<open>kbd_create\<close>, \<^verbatim>\<open>pcmouse_create\<close>, \<^verbatim>\<open>aux_create\<close>,
  \<^verbatim>\<open>lfbvideo_create\<close>, \<^verbatim>\<open>console_create\<close> and \<^verbatim>\<open>packagefs_create\<close>, six copies of one body), the tests for
  their kind and the functions that open and close them (\<^verbatim>\<open>core/device/ps2hid.c\<close>,
  \<^verbatim>\<open>core/video/lfbvideo.c\<close>, \<^verbatim>\<open>core/vfs/packagefs.c\<close>), and \<^verbatim>\<open>sys_mount_device\<close>.
\<close>

section \<open>Device numbers\<close>

abbreviation DNOAUX :: u16 where "DNOAUX \<equiv> 1"
abbreviation DNOPCMOUSE :: u16 where "DNOPCMOUSE \<equiv> 2"
abbreviation DNOPCKBD :: u16 where "DNOPCKBD \<equiv> 3"
abbreviation DNOLFB :: u16 where "DNOLFB \<equiv> 4"
abbreviation DNOCONSOLE :: u16 where "DNOCONSOLE \<equiv> 5"
abbreviation DNOPKGFS :: u16 where "DNOPKGFS \<equiv> 6"

section \<open>Creating a device file\<close>

text \<open>The inode is neither flushed nor is its bitmap. \<open>with_slot\<close>: only \<^verbatim>\<open>lfbvideo_create\<close> takes no slot of
  the file table and uses slot 0. If the name exists the entry keeps its inode number and the new inode
  is put on the list of open inodes all the same. A slot keeps its former flags.\<close>

definition device_create ::
    "u32 \<Rightarrow> u16 \<Rightarrow> bool \<Rightarrow> (kstate \<Rightarrow> kstate option) \<Rightarrow> addr \<Rightarrow> u8 list \<Rightarrow> u32 \<Rightarrow> fsys \<Rightarrow> (u32 \<times> fsys) option" where
  "device_create file_type dev with_slot W parent_d name target s = do {
     let (buf, s) = fs_malloc s;
     if buf = 0 then Some (-1, s)
     else do {
       (inode_nr, s) \<leftarrow> inode_bitmap_alloc s;
       if inode_nr = -1 then Some (-1, s)
       else do {
         let (new_f_inode, s) = fs_malloc s;
         if new_f_inode = 0 then roll_back 1 0 inode_nr s
         else do {
           let i = new_inode inode_nr (inode_of (replicate 100 0));
           let s = upd_inode new_f_inode (\<lambda>_. i\<lparr>i_mode := ucast file_type * 2 ^ 11, i_zones := (i_zones i)[0 := target],
             i_count := i_count i + 1, i_dev := dev\<rparr>) s;
           new_entry \<leftarrow> new_dir_entry name inode_nr file_type;
           (fd_idx, s) \<leftarrow> (if with_slot then do {
               s \<leftarrow> with_ks (lock_fetch W (g_ft_lock s)) s;
               let fd_idx = occupy_file_table_slot s;
               if fd_idx = -1 then Some (-1, s)
               else do {
                 let s = upd_file (unat fd_idx) (\<lambda>f. f\<lparr>fd_pos := 0, fd_inode := new_f_inode\<rparr>) s;
                 let s = upd_inode new_f_inode (\<lambda>i. i\<lparr>i_lock := 0\<rparr>) s;
                 s \<leftarrow> with_ks (lock_release (g_ft_lock s)) s;
                 Some (fd_idx, s)
               }
             } else Some (0, s));
           if fd_idx = -1 then roll_back 2 0 inode_nr s
           else do {
             (found, s) \<leftarrow> search_dir_entry name parent_d s;
             if found \<noteq> None then Some (fd_idx, fs_lh (list_add (inode_tag new_f_inode) (open_inodes s)) s)
             else do {
               (failed, s) \<leftarrow> flush_dir_entry parent_d new_entry s;
               if failed \<noteq> 0 then roll_back 3 (unat fd_idx) inode_nr s
               else Some (fd_idx, fs_lh (list_add (inode_tag new_f_inode) (open_inodes s)) s)
             }
           }
         }
       }
     }
   }"

definition kbd_create :: "(kstate \<Rightarrow> kstate option) \<Rightarrow> addr \<Rightarrow> u8 list \<Rightarrow> u32 \<Rightarrow> fsys \<Rightarrow> (u32 \<times> fsys) option" where
  "kbd_create = device_create FT_CHAR DNOPCKBD True"

definition pcmouse_create :: "(kstate \<Rightarrow> kstate option) \<Rightarrow> addr \<Rightarrow> u8 list \<Rightarrow> u32 \<Rightarrow> fsys \<Rightarrow> (u32 \<times> fsys) option" where
  "pcmouse_create = device_create FT_CHAR DNOPCMOUSE True"

definition aux_create :: "(kstate \<Rightarrow> kstate option) \<Rightarrow> addr \<Rightarrow> u8 list \<Rightarrow> u32 \<Rightarrow> fsys \<Rightarrow> (u32 \<times> fsys) option" where
  "aux_create = device_create FT_CHAR DNOAUX True"

definition lfbvideo_create :: "(kstate \<Rightarrow> kstate option) \<Rightarrow> addr \<Rightarrow> u8 list \<Rightarrow> u32 \<Rightarrow> fsys \<Rightarrow> (u32 \<times> fsys) option" where
  "lfbvideo_create = device_create FT_CHAR DNOLFB False"

definition console_create :: "(kstate \<Rightarrow> kstate option) \<Rightarrow> addr \<Rightarrow> u8 list \<Rightarrow> u32 \<Rightarrow> fsys \<Rightarrow> (u32 \<times> fsys) option" where
  "console_create = device_create FT_CHAR DNOCONSOLE True"

text \<open>Here the inode is allocated from kernel memory; addresses are an input of the model anyway.\<close>

definition packagefs_create :: "(kstate \<Rightarrow> kstate option) \<Rightarrow> addr \<Rightarrow> u8 list \<Rightarrow> u32 \<Rightarrow> fsys \<Rightarrow> (u32 \<times> fsys) option" where
  "packagefs_create = device_create FT_FIFO DNOPKGFS True"

section \<open>Kinds of files\<close>

definition IS_FT_CHAR :: "inode \<Rightarrow> bool" where
  "IS_FT_CHAR i \<longleftrightarrow> drop_bit 11 (i_mode i) = 2"

definition IS_FT_FIFO :: "inode \<Rightarrow> bool" where
  "IS_FT_FIFO i \<longleftrightarrow> drop_bit 11 (i_mode i) = 1"

text \<open>Both tests open the inode and never close it.\<close>

definition is_char_file :: "u32 \<Rightarrow> fsys \<Rightarrow> (bool \<times> fsys) option" where
  "is_char_file inode_nr s = do { (p, s) \<leftarrow> inode_open inode_nr s; Some (IS_FT_CHAR (inodes s p), s) }"

definition is_dev :: "u32 \<Rightarrow> u16 \<Rightarrow> fsys \<Rightarrow> (bool \<times> fsys) option" where
  "is_dev inode_nr dev_flag s = do { (p, s) \<leftarrow> inode_open inode_nr s; Some (i_dev (inodes s p) = dev_flag, s) }"

definition is_pkg_file :: "u32 \<Rightarrow> fsys \<Rightarrow> (bool \<times> fsys) option" where
  "is_pkg_file inode_nr s = do { (p, s) \<leftarrow> inode_open inode_nr s; Some (IS_FT_FIFO (inodes s p), s) }"

definition is_char_fd :: "u32 \<Rightarrow> fsys \<Rightarrow> bool option" where
  "is_char_fd fd s = do { g \<leftarrow> fd_local2global fd s; Some (IS_FT_CHAR (inodes s (fd_inode (g_file_table s (unat g))))) }"

definition is_pkg_fd :: "u32 \<Rightarrow> fsys \<Rightarrow> bool option" where
  "is_pkg_fd fd s = do { g \<leftarrow> fd_local2global fd s; Some (IS_FT_FIFO (inodes s (fd_inode (g_file_table s (unat g))))) }"

section \<open>Opening and closing\<close>

text \<open>\<^verbatim>\<open>O_RDONLY\<close> is 0, so the last test always succeeds. \<open>flush\<close> is the reset of the input queue, which
  only \<^verbatim>\<open>open_aux\<close> does. A full table returns with the lock held.\<close>

definition device_open ::
    "(kstate \<Rightarrow> kstate option) \<Rightarrow> u32 \<Rightarrow> u32 \<Rightarrow> fsys \<Rightarrow> (u32 \<times> bool \<times> fsys) option" where
  "device_open W inode_nr flags s = do {
     s \<leftarrow> with_ks (lock_fetch W (g_ft_lock s)) s;
     let gidx = occupy_file_table_slot s;
     if gidx = -1 then Some (-1, False, s)
     else do {
       (p, s) \<leftarrow> inode_open inode_nr s;
       let s = upd_file (unat gidx) (\<lambda>f. f\<lparr>fd_inode := p, fd_pos := 0, fd_flag := flags\<rparr>) s;
       s \<leftarrow> with_ks (lock_release (g_ft_lock s)) s;
       if flags AND 0 = 0 then let (fd, s) = install_thread_fd gidx s in Some (fd, True, s) else Some (-1, True, s)
     }
   }"

definition open_lfb :: "(kstate \<Rightarrow> kstate option) \<Rightarrow> u32 \<Rightarrow> u32 \<Rightarrow> fsys \<Rightarrow> (u32 \<times> fsys) option" where
  "open_lfb W inode_nr flags s = do { (fd, _, s) \<leftarrow> device_open W inode_nr flags s; Some (fd, s) }"

definition close_aux :: "nat \<Rightarrow> fsys \<Rightarrow> u32 \<times> fsys" where
  "close_aux f s =
     (let p = fd_inode (g_file_table s f);
          s = upd_inode p (\<lambda>i. i\<lparr>i_lock := 0\<rparr>) s;
          s = inode_close p s
      in (0, upd_file f (\<lambda>e. e\<lparr>fd_inode := 0\<rparr>) s))"

section \<open>Mounting\<close>

text \<open>A directory that is missing is made, with a path that is built without slashes between its parts. \<open>st\<close> is
  what the stack frame of \<^verbatim>\<open>sys_mkdir\<close> holds.\<close>

primrec mount_dirs ::
    "(u8 list \<Rightarrow> inode) \<Rightarrow> u8 list list \<Rightarrow> u8 list \<Rightarrow> addr \<Rightarrow> fsys \<Rightarrow> (addr option \<times> fsys) option" where
  "mount_dirs st [] cur_abs next_dir s = Some (Some next_dir, s)"
| "mount_dirs st (cur_name # ds) cur_abs next_dir s = do {
     let cur_abs = cur_abs @ cur_name;
     (d_inode, s) \<leftarrow> search_file next_dir cur_name s;
     (d_inode, s) \<leftarrow>
       (if d_inode = -1 then do { (_, s) \<leftarrow> sys_mkdir (st cur_abs) cur_abs s; search_file next_dir cur_name s }
        else Some (d_inode, s));
     if d_inode = -1 then Some (None, s)
     else do {
       let s = dir_close next_dir s;
       (next_dir, s) \<leftarrow> dir_open d_inode s;
       mount_dirs st ds cur_abs next_dir s
     }
   }"

definition mount_create ::
    "u32 \<Rightarrow> (kstate \<Rightarrow> kstate option) \<Rightarrow> addr \<Rightarrow> u8 list \<Rightarrow> u32 \<Rightarrow> fsys \<Rightarrow> (u32 \<times> fsys) option" where
  "mount_create dev_no W next_dir last_name target s =
     (if dev_no = 1 then aux_create W next_dir last_name target s
      else if dev_no = 3 then kbd_create W next_dir last_name target s
      else if dev_no = 2 then pcmouse_create W next_dir last_name target s
      else if dev_no = 4 then lfbvideo_create W next_dir last_name target s
      else if dev_no = 5 then console_create W next_dir last_name target s
      else if dev_no = 6 then packagefs_create W next_dir last_name target s
      else Some (-1, s))"

definition sys_mount_device ::
    "(u8 list \<Rightarrow> inode) \<Rightarrow> (kstate \<Rightarrow> kstate option) \<Rightarrow> u8 list \<Rightarrow> u32 \<Rightarrow> u32 \<Rightarrow> fsys \<Rightarrow> (u32 \<times> fsys) option" where
  "sys_mount_device st W pathname dev_no target s =
     (if pathname = [] then None
      else if last pathname = 47 then Some (-1, s)
      else do {
        let (path, s) = fs_malloc s;
        if path = 0 then None
        else do {
          p \<leftarrow> path_copy pathname;
          (p, last_name) \<leftarrow> path_peel p;
          (depth, s) \<leftarrow> path_depth pathname s;
          (next_dir, s) \<leftarrow>
            (if 1 <s depth then do {
               let (dirs_path, s) = fs_malloc s;
               (ds, s) \<leftarrow> path_dirs pathname s;
               case ds of None \<Rightarrow> Some (None, s)
               | Some ds \<Rightarrow> do {
                   let (cur_abs, s) = fs_malloc s;
                   if dirs_path = 0 \<or> cur_abs = 0 then None else mount_dirs st (rev ds) [47] (root_dir s) s
                 }
             } else Some (Some (root_dir s), s));
          case next_dir of None \<Rightarrow> Some (-1, s)
          | Some next_dir \<Rightarrow> do {
              (fd, s) \<leftarrow> mount_create dev_no W next_dir last_name target s;
              Some (fd, dir_close next_dir s)
            }
        }
      })"

section \<open>A device node\<close>

lemma inode_bitmap_alloc_ok:
  assumes "wf_bitmap (inode_bitmap s)" and "first_fit (inode_bitmap s) 1 = Some i"
  shows "\<exists>b. find_block_bitmap (inode_bitmap s) 1 = Some (of_nat i) \<and>
    set_value_bitmap (inode_bitmap s) (of_nat i) 1 = Some b \<and> (of_nat i :: u32) \<noteq> -1 \<and>
    (\<forall>j. is_set b j = (j = i \<or> is_set (inode_bitmap s) j))"
proof -
  have "free_run (inode_bitmap s) i 1" by (rule first_fit_SomeD [OF assms(2)])
  then have i: "i < nbits (inode_bitmap s)" by (simp add: free_run_def)
  have ui: "unat (of_nat i :: u32) = i" using i assms(1) by (simp add: wf_bitmap_def unat_of_nat_32)
  have f: "find_block_bitmap (inode_bitmap s) 1 = Some (of_nat i)"
    using find_block_bitmap_spec [OF assms(1), of 1] assms(2) by (simp add: u32_of_index_def)
  have ne: "(of_nat i :: u32) \<noteq> -1"
    using ui i assms(1) unat_minus_one_32 by (auto simp: wf_bitmap_def word_eq_unat32)
  from set_value_bitmap_spec [OF assms(1), of "of_nat i" 1] ui i obtain b where
    "set_value_bitmap (inode_bitmap s) (of_nat i) 1 = Some b" "\<forall>j. is_set b j = (if j = i then True else is_set (inode_bitmap s) j)"
    by auto
  then show ?thesis using f ne by (intro exI [of _ b]) simp
qed

lemma search_entries_none:
  "\<forall>e \<in> set es. take (length name) (entry_name e) \<noteq> name \<Longrightarrow> search_entries name es = None"
  by (induction name es rule: search_entries.induct) auto

text \<open>No entry of the directory starts with the name, nor do those of sector 0, which is searched too.\<close>

definition no_entry :: "u8 list \<Rightarrow> u32 list \<Rightarrow> fsys \<Rightarrow> bool" where
  "no_entry name zs s \<longleftrightarrow> (\<forall>z \<in> insert 0 (set zs). \<forall>e \<in> set (entries (disk s z)). take (length name) (entry_name e) \<noteq> name)"

lemma search_dir_entry_none:
  assumes f: "file_zones s (inodes s (dir_inode (dirs s d))) zs" and n: "no_entry name zs s"
    and a: "allocs s = a # b # as" "a \<noteq> 0" "b \<noteq> 0"
  shows "search_dir_entry name d s = Some (None, s\<lparr>allocs := as\<rparr>)"
proof -
  let ?s = "s\<lparr>allocs := as\<rparr>"
  have z: "i_zones (inodes s (dir_inode (dirs s d))) = zs @ replicate (13 - length zs) 0" "length zs \<le> 12"
    and u: "\<And>z. z \<in> set zs \<Longrightarrow> zone_used s z"
    using f by (auto simp: file_zones_def)
  have nz: "z \<noteq> 0" "z \<le> max_lba" if "z \<in> set zs" for z using zone_used_lba [OF u [OF that]] by blast+
  have "takeWhile (\<lambda>z. z \<noteq> 0) (take 12 (zs @ replicate (13 - length zs) 0)) = zs"
    using nz z(2) by (simp add: takeWhile_append takeWhile_replicate)
  moreover have "search_zones name ws ?s = Some None" if "set ws \<subseteq> insert 0 (set zs)" for ws
    using that
  proof (induction ws)
    case (Cons w ws)
    then have "w \<le> max_lba" "\<forall>e \<in> set (entries (disk s w)). take (length name) (entry_name e) \<noteq> name"
      using nz n by (auto simp: no_entry_def)
    then show ?case using Cons by (simp add: ide_read_1 search_entries_none)
  qed simp
  then have "search_zones name (zs @ replicate (140 - length zs) 0) ?s = Some None" by (simp add: set_replicate_conv_if subset_insertI)
  ultimately show ?thesis using a by (simp add: search_dir_entry_def fs_malloc_def z(1) Let_def)
qed

definition node_inode :: "u32 \<Rightarrow> u16 \<Rightarrow> u32 \<Rightarrow> u32 \<Rightarrow> inode" where
  "node_inode file_type dev target nr = (let i = new_inode nr (inode_of (replicate 100 0)) in
     i\<lparr>i_mode := ucast file_type * 2 ^ 11, i_zones := (i_zones i)[0 := target], i_count := i_count i + 1, i_dev := dev\<rparr>)"

lemma device_create_flush:
  fixes s :: fsys
  defines "idx \<equiv> occupy_loop (g_file_table s) 0"
  assumes f: "file_zones s (inodes s (dir_inode (dirs s d))) zs" and n: "no_entry name zs s" and nm: "length name < 16"
    and im: "find_block_bitmap (inode_bitmap s) 1 = Some nr" "set_value_bitmap (inode_bitmap s) nr 1 = Some b" "nr \<noteq> -1"
    and al: "allocs s = buf # node # aa # ab # as" "buf \<noteq> 0" "node \<noteq> 0" "aa \<noteq> 0" "ab \<noteq> 0" "node \<noteq> dir_inode (dirs s d)"
    and lk: "lock_free (g_ft_lock s) (ks s)" "running (ks s) \<noteq> 0" and sl: "idx < 128"
    and fl: "flush_dir_entry d \<lparr>filename = name @ replicate (16 - length name) 0, i_no = nr, f_type = file_type\<rparr>
      (s\<lparr>inode_bitmap := b, allocs := as, inodes := (inodes s)(node := node_inode file_type dev target nr),
         g_file_table := (if with_slot then (g_file_table s)(idx := (g_file_table s idx)\<lparr>fd_pos := 0, fd_inode := node\<rparr>)
           else g_file_table s)\<rparr>) = Some (0, s')"
  shows "device_create file_type dev with_slot W d name target s =
    Some (if with_slot then of_nat idx else 0, fs_lh (list_add (inode_tag node) (open_inodes s')) s')"
proof -
  let ?N = "node_inode file_type dev target nr"
  let ?t = "s\<lparr>inode_bitmap := b, allocs := aa # ab # as, inodes := (inodes s)(node := ?N),
    g_file_table := (if with_slot then (g_file_table s)(idx := (g_file_table s idx)\<lparr>fd_pos := 0, fd_inode := node\<rparr>)
      else g_file_table s)\<rparr>"
  have "file_zones ?t (inodes ?t (dir_inode (dirs ?t d))) zs"
    using f al(6) by (simp add: file_zones_def zone_used_def zone_of_def)
  moreover have "no_entry name zs ?t" using n by (simp add: no_entry_def)
  ultimately have se: "search_dir_entry name d ?t = Some (None, ?t\<lparr>allocs := as\<rparr>)"
    using al(4,5) by (intro search_dir_entry_none [where a = aa and b = ab]) simp_all
  have u: "unat (of_nat idx :: u32) = idx" "(of_nat idx :: u32) \<noteq> -1"
    using sl unat_minus_one_32 by (auto simp: unat_of_nat_32 word_eq_unat32)
  note code = device_create_def fs_malloc_def upd_inode_def upd_file_def with_ks_def occupy_file_table_slot_def
    inode_bitmap_alloc_def new_dir_entry_def ASSERT_bind node_inode_def new_inode_def Let_def
  show ?thesis
  proof (cases with_slot)
    case True
    show ?thesis
      using True im al(1-3) lock_fetch_free [OF lk] lock_release_last [OF lk(1)] nm se fl u sl
      unfolding idx_def by (cases s; cases "inode_of (replicate 100 0)") (simp add: code)
  next
    case False
    show ?thesis using False im al(1-3) nm se fl by (cases s) (simp add: code)
  qed
qed

lemma entry_name_new:
  "length name < 16 \<Longrightarrow> 0 \<notin> set name \<Longrightarrow>
   entry_name \<lparr>filename = name @ replicate (16 - length name) 0, i_no = nr, f_type = ft\<rparr> = name"
  by (simp add: entry_name_def cstr_def entry_bytes_def takeWhile_append takeWhile_replicate)

lemma file_type_modes:
  assumes "ft = 1 \<or> ft = (2 :: u32)"
  shows "IS_FT_CHAR (node_inode ft dev target nr) \<longleftrightarrow> ft = 2" "IS_FT_FIFO (node_inode ft dev target nr) \<longleftrightarrow> ft = 1"
  using assms by (auto simp: IS_FT_CHAR_def IS_FT_FIFO_def node_inode_def Let_def)

text \<open>C21. Device files. Creating a node for a device in a directory that has room, and no entry that starts
  with its name, succeeds. The file system stays well formed, the name is then found with the number of the new
  inode, opening that number gives the new inode, which has the device number, the kind and the
  target, the global table refers to it (except for the frame buffer, which takes no slot), and no other entry of the
  directory changes.\<close>

theorem device_node_created:
  assumes ok: "fs_ok s" and p: "p = dir_inode (dirs s d)" and f: "file_zones s (inodes s p) zs" and n: "no_entry name zs s"
    and nm: "length name < 16" "0 \<notin> set name" "name \<noteq> [46]" "name \<noteq> [46, 46]" and ft: "ft = 1 \<or> ft = 2"
    and sl: "slots s zs = us @ x # rest" "is_free x" "\<forall>u \<in> set us. f_type u \<noteq> FT_UNKOWN"
    and im: "wf_bitmap (inode_bitmap s)" "first_fit (inode_bitmap s) 1 = Some i"
    and al: "allocs s = buf # node # aa # ab # as" "buf \<noteq> 0" "node \<noteq> 0" "aa \<noteq> 0" "ab \<noteq> 0" "fst (fs_malloc (s\<lparr>allocs := as\<rparr>)) \<noteq> 0"
    and nd: "open_list s ps" "node \<notin> set ps" "\<forall>q \<in> set ps. i_num (inodes s q) \<noteq> of_nat i" "inode_tag node \<noteq> open_inodes s" "node \<noteq> p"
    and lk: "lock_free (g_ft_lock s) (ks s)" "running (ks s) \<noteq> 0" and idx: "occupy_loop (g_file_table s) 0 < 128"
  shows "\<exists>fd s' t e. device_create ft dev with_slot W d name target s = Some (fd, s') \<and> fs_ok s' \<and>
    slots s' zs = us @ e # rest \<and> search_file d name s' = Some (of_nat i, t) \<and> inode_open (of_nat i) s' = Some (node, s') \<and>
    i_dev (inodes s' node) = dev \<and> i_zones (inodes s' node) ! 0 = target \<and>
    (IS_FT_CHAR (inodes s' node) \<longleftrightarrow> ft = 2) \<and> (IS_FT_FIFO (inodes s' node) \<longleftrightarrow> ft = 1) \<and>
    (with_slot \<longrightarrow> fd_inode (g_file_table s' (unat fd)) = node)"
proof -
  let ?idx = "occupy_loop (g_file_table s) 0" and ?nr = "of_nat i :: u32"
  let ?e = "\<lparr>filename = name @ replicate (16 - length name) 0, i_no = ?nr, f_type = ft\<rparr>"
  from inode_bitmap_alloc_ok [OF im] obtain b where
    b: "find_block_bitmap (inode_bitmap s) 1 = Some ?nr" "set_value_bitmap (inode_bitmap s) ?nr 1 = Some b" "?nr \<noteq> -1" by blast
  let ?t = "s\<lparr>inode_bitmap := b, allocs := as, inodes := (inodes s)(node := node_inode ft dev target ?nr),
    g_file_table := (if with_slot then (g_file_table s)(?idx := (g_file_table s ?idx)\<lparr>fd_pos := 0, fd_inode := node\<rparr>)
      else g_file_table s)\<rparr>"
  have "fs_ok ?t = fs_ok s" by (rule fs_ok_cong) simp_all
  then have okt: "fs_ok ?t" using ok by simp
  have ft': "file_zones ?t (inodes ?t p) zs" using f nd(5) by (simp add: file_zones_def zone_used_def zone_of_def)
  have slt: "slots ?t zs = us @ x # rest" using sl(1) by (simp add: slots_def)
  have eo: "entry_ok ?e" using nm(1) by (simp add: entry_ok_def)
  have "\<And>u. u \<in> set us \<Longrightarrow> \<not> is_free u" using sl(3) by (auto simp: is_free_def)
  from flush_dir_entry_ok [where s = ?t and p = p and d = d, OF okt _ ft' eo slt this sl(2)] p obtain s' where
    s': "flush_dir_entry d ?e ?t = Some (0, s')" "fs_ok s'" "zone_used s' = zone_used ?t" "slots s' zs = us @ ?e # rest"
    "inodes s' = (inodes ?t)(p := (inodes ?t p)\<lparr>i_size := i_size (inodes ?t p) + 24\<rparr>)"
    and e: "s' = ?t\<lparr>disk := disk s', inodes := inodes s'\<rparr>" by auto
  have same: "dirs s' = dirs s" "allocs s' = as" "ks s' = ks s" "open_inodes s' = open_inodes s" "g_file_table s' = g_file_table ?t"
    by (subst e, simp)+
  let ?u = "fs_lh (list_add (inode_tag node) (open_inodes s)) s'"
  have u: "sb ?u = sb s'" "disk ?u = disk s'" "zone_bitmap ?u = zone_bitmap s'" "inodes ?u = inodes s'" "dirs ?u = dirs s'"
    "allocs ?u = allocs s'" "g_file_table ?u = g_file_table s'" "open_inodes ?u = open_inodes s'" by (simp_all add: fs_lh_def)
  have dc: "device_create ft dev with_slot W d name target s = Some (if with_slot then of_nat ?idx else 0, ?u)"
    using f n nm(1) b al(1-5) nd(5) lk idx s'(1) unfolding p same(4) [symmetric]
    by (intro device_create_flush [where nr = ?nr and b = b and buf = buf and aa = aa and ab = ab and as = as])
  have oku: "fs_ok ?u" "zone_used ?u = zone_used s'" using fs_ok_cong(1,2) [of ?u s'] u s'(2) by (simp_all add: fun_eq_iff)
  have slu: "slots ?u zs = us @ ?e # rest" using s'(4) by (simp add: slots_def u)
  have "file_zones ?u (inodes ?u (dir_inode (dirs ?u d))) zs"
    using ft' s'(3,5) oku(2) nd(5) by (simp add: u same p [symmetric] file_zones_def)
  moreover have "scan_file name us = None"
  proof (rule scan_file_skip)
    fix v assume v: "v \<in> set us"
    then have "v \<in> set (slots s zs)" using sl(1) by simp
    then obtain z where "z \<in> set zs" "v \<in> set (entries (disk s z))" by (auto simp: slots_def)
    then have "take (length name) (entry_name v) \<noteq> name" using n by (auto simp: no_entry_def)
    then show "f_type v \<noteq> FT_UNKOWN \<and> entry_name v \<noteq> name" using sl(3) v by auto
  qed
  then have "scan_file name (slots ?u zs) = Some ?nr"
    unfolding slu scan_file_append using nm ft entry_name_new [OF nm(1,2), of ?nr ft] by auto
  moreover have "fst (fs_malloc ?u) \<noteq> 0" using al(6) by (cases as) (simp_all add: fs_malloc_def u same)
  ultimately obtain t where t: "search_file d name ?u = Some (?nr, t)" using search_file_slots by blast
  have node: "inodes ?u node = node_inode ft dev target ?nr" using s'(5) nd(5) by (simp add: u)
  have "i_num (node_inode ft dev target ?nr) = ?nr" by (simp add: node_inode_def Let_def new_inode_def)
  moreover have "inode_tag node \<notin> set (map inode_tag ps)" using nd(2) by auto
  then have "open_list ?u (node # ps)"
    using list_add_dlist [of "lh (ks s)" "open_inodes s" "map inode_tag ps" "inode_tag node"] nd(1,4) same
    by (simp add: open_list_def fs_lh_def upd_lh_def)
  moreover have "i_num (inodes ?u q) = i_num (inodes s q)" if "q \<noteq> node" for q
    using s'(5) that nd(5) by (auto simp: u)
  then have "\<forall>q \<in> set (node # ps). i_num (inodes ?u q) = ?nr \<longrightarrow> q = node" using nd(3) by (metis set_ConsD)
  ultimately have "inode_open ?nr ?u = Some (node, ?u)"
    using inode_open_again [of ?u "node # ps" node ?nr] al(3) node by simp
  moreover have "unat (of_nat ?idx :: u32) = ?idx" using idx by (simp add: unat_of_nat_32)
  then have "with_slot \<Longrightarrow> fd_inode (g_file_table ?u (unat (if with_slot then of_nat ?idx else 0 :: u32))) = node"
    by (simp add: u same)
  ultimately show ?thesis
    using dc oku(1) slu t file_type_modes [OF ft, of dev target ?nr] node
    by (intro exI [of _ "if with_slot then of_nat ?idx else 0"] exI [of _ ?u] exI [of _ t] exI [of _ ?e])
      (simp add: node_inode_def Let_def new_inode_def)
qed

text \<open>The empty directory of the sample partition, with inodes 0 and 1 in use, gets the node \<open>tty\<close>.\<close>

definition sample_mount_fs :: fsys where
  "sample_mount_fs = sample_dir_fs\<lparr>inode_bitmap := \<lparr>bits = (\<lambda>_. 0)(0 := 3), map_bytes_length = 512\<rparr>,
     allocs := [0xc0110000, 0xc0111000, 0xc0112000, 0xc0113000, 0xc0114000]\<rparr>"

lemma sample_mount_ok:
  "fs_ok sample_mount_fs" "file_zones sample_mount_fs (inodes sample_mount_fs q) [9]"
  "slots sample_mount_fs [9] = [] @ free_entry # replicate 20 free_entry" "no_entry [116, 116, 121] [9] sample_mount_fs"
  "wf_bitmap (inode_bitmap sample_mount_fs)" "first_fit (inode_bitmap sample_mount_fs) 1 = Some 2"
  "lock_free (g_ft_lock sample_mount_fs) (ks sample_mount_fs)" "running (ks sample_mount_fs) \<noteq> 0"
  "occupy_loop (g_file_table sample_mount_fs) 0 < 128" "open_list sample_mount_fs []"
proof -
  let ?s = sample_mount_fs
  have fr: "fs_ok ?s = fs_ok sample_dir_fs" "zone_used ?s z = zone_used sample_dir_fs z" for z
    by (rule fs_ok_cong; simp add: sample_mount_fs_def)+
  show "fs_ok ?s" using fr sample_dir_ok(1) by simp
  have "inodes ?s = inodes sample_dir_fs" by (simp add: sample_mount_fs_def)
  then show "file_zones ?s (inodes ?s q) [9]" using fr(2) sample_dir_ok(2) [of q] by (simp add: file_zones_def)
  have dk: "disk ?s 9 = replicate 512 0" "disk ?s 0 = replicate 512 0" by (simp_all add: sample_mount_fs_def sample_dir_fs_def)
  have "replicate 21 free_entry = free_entry # replicate 20 free_entry" by (simp flip: replicate_Suc)
  then show "slots ?s [9] = [] @ free_entry # replicate 20 free_entry"
    using dk(1) entries_zero by (simp only: slots_simps append_Nil append_Nil2)
  have "entry_name free_entry = []" by (simp add: free_entry_def entry_name_def cstr_def entry_bytes_def)
  moreover have "set (entries (disk ?s z)) \<subseteq> {free_entry}" if "z = 9 \<or> z = 0" for z
    using dk entries_zero that by auto
  ultimately show "no_entry [116, 116, 121] [9] ?s" unfolding no_entry_def by fastforce
  show "wf_bitmap (inode_bitmap ?s)" by (simp add: wf_bitmap_def nbits_def sample_mount_fs_def)
  show "first_fit (inode_bitmap ?s) 1 = Some 2"
  proof (rule first_fit_one)
    show "\<not> is_set (inode_bitmap ?s) 2" "2 < nbits (inode_bitmap ?s)" "\<forall>j < 2. is_set (inode_bitmap ?s) j"
      by (auto simp: is_set_def nbits_def sample_mount_fs_def bit_iff_odd less_2_cases_iff)
  qed
  show "lock_free (g_ft_lock ?s) (ks ?s)" "running (ks ?s) \<noteq> 0" "open_list ?s []"
    by (simp_all add: lock_free_def sample_mount_fs_def sample_dir_fs_def sample_fs1_def sample_fs_def boot_kstate_def
        list_is_empty_def open_list_def dlist_Nil)
  show "occupy_loop (g_file_table ?s) 0 < 128"
    by (subst occupy_loop.simps) (simp add: sample_mount_fs_def sample_dir_fs_def sample_fs1_def sample_fs_def)
qed

theorem device_node_created_witness:
  "\<exists>fd s' t. device_create 2 5 True (\<lambda>_. None) 0xc0100200 [116, 116, 121] 7 sample_mount_fs = Some (fd, s') \<and>
     search_file 0xc0100200 [116, 116, 121] s' = Some (2, t) \<and> inode_open 2 s' = Some (0xc0111000, s') \<and>
     i_dev (inodes s' 0xc0111000) = 5"
proof -
  have "allocs sample_mount_fs = 0xc0110000 # 0xc0111000 # 0xc0112000 # 0xc0113000 # [0xc0114000]"
    by (simp add: sample_mount_fs_def)
  moreover have "is_free free_entry"
    by (simp add: is_free_def free_entry_def entry_name_def cstr_def entry_bytes_def)
  moreover have "0xc0111000 \<noteq> dir_inode (dirs sample_mount_fs 0xc0100200)" "inode_tag 0xc0111000 \<noteq> open_inodes sample_mount_fs"
    by (simp_all add: sample_mount_fs_def sample_dir_fs_def sample_fs1_def sample_fs_def inode_tag_def)
  ultimately show ?thesis
    using device_node_created [OF sample_mount_ok(1) refl sample_mount_ok(2), where name = "[116, 116, 121]" and ft = 2 and
        d = "0xc0100200" and us = "[]" and x = free_entry and i = 2 and node = "0xc0111000" and ps = "[]" and dev = 5 and
        target = 7 and with_slot = True and W = "\<lambda>_. None" and rest = "replicate 20 free_entry" and buf = "0xc0110000"] sample_mount_ok(3-)
    by (fastforce simp: fs_malloc_def)
qed

end
