(* ===== verification/Input.thy ===== *)
theory Input
  imports IOQueue Timer Disk
begin

text \<open>
  The input devices: keyboard (\<^verbatim>\<open>core/device/pc_kbd.c\<close>), mouse (\<^verbatim>\<open>core/device/pc_mouse.c\<close>) and the
  controller of both with the raw mouse bytes (\<^verbatim>\<open>core/device/ps2hid.c\<close>). Each device has a ring of
  bytes that its interrupt handler fills and \<^verbatim>\<open>read\<close> empties; a reader of an empty ring sleeps on a
  wait queue. The three rings and the static variables of the files stand beside the state of the
  kernel in \<open>input\<close>. Code that sleeps takes \<open>W\<close>, what happens until the thread runs again, which includes
  interrupts.
\<close>

section \<open>Wait queues\<close>

text \<open>\<^verbatim>\<open>thread/fork.c\<close> and \<^verbatim>\<open>sys/wait.h\<close>, with the debug checks compiled in. The entry is a variable on the stack at
  the address \<open>wait\<close>.\<close>

definition init_waitqueue_head :: "addr \<Rightarrow> kstate \<Rightarrow> kstate" where
  "init_waitqueue_head q s = (upd_lh (INIT_LIST_HEAD (wqh_task_list q)) s)\<lparr>wqh_magic := (wqh_magic s)(q := q + 12)\<rparr>"

definition DECLARE_WAITQUEUE :: "addr \<Rightarrow> addr \<Rightarrow> kstate \<Rightarrow> kstate" where
  "DECLARE_WAITQUEUE wait tsk s =
     (upd_lh (\<lambda>m. set_prv (task_list wait) 0 (set_nxt (task_list wait) 0 m)) s)
       \<lparr>waits := (waits s)(wait := \<lparr>wq_flags = 0, wq_task = tsk, wq_magic = wait + 16\<rparr>)\<rparr>"

definition add_wait_queue :: "addr \<Rightarrow> addr \<Rightarrow> kstate \<Rightarrow> kstate option" where
  "add_wait_queue q wait s = do {
     let (old_status, s) = intr_disable s;
     ASSERT (q \<noteq> 0 \<and> wait \<noteq> 0);
     ASSERT (wqh_magic s q = q + 12);
     ASSERT (wq_magic (waits s wait) = wait + 16);
     ASSERT (nxt (lh s) (wqh_task_list q) \<noteq> 0 \<and> prv (lh s) (wqh_task_list q) \<noteq> 0);
     Some (intr_set_status old_status (upd_lh (list_add (task_list wait) (wqh_task_list q)) s))
   }"

definition remove_wait_queue :: "addr \<Rightarrow> addr \<Rightarrow> kstate \<Rightarrow> kstate option" where
  "remove_wait_queue q wait s = do {
     let (old_status, s) = intr_disable s;
     ASSERT (wait \<noteq> 0);
     ASSERT (wq_magic (waits s wait) = wait + 16);
     Some (intr_set_status old_status (upd_lh (list_del (task_list wait)) s))
   }"

section \<open>Rings\<close>

record in_queue =
  qhead :: u32
  qtail :: u32
  proc_list :: addr
  qdata :: "u32 \<Rightarrow> u8"

definition queue_empty :: "in_queue \<Rightarrow> bool" where
  "queue_empty q \<longleftrightarrow> qhead q = qtail q"

definition get_from_queue :: "in_queue \<Rightarrow> u8 \<times> in_queue" where
  "get_from_queue q = (qdata q (qtail q), q\<lparr>qtail := (qtail q + 1) AND (2048 - 1)\<rparr>)"

text \<open>Storing a byte; the result says whether it is kept.\<close>

definition put_in_queue :: "u8 \<Rightarrow> in_queue \<Rightarrow> bool \<times> in_queue" where
  "put_in_queue key q =
     (let q = q\<lparr>qdata := (qdata q)(qhead q := key)\<rparr>;
          head = (qhead q + 1) AND (2048 - 1)
      in if head \<noteq> qtail q then (True, q\<lparr>qhead := head\<rparr>) else (False, q))"

text \<open>The packets of the mouse; the buffer has 1024 slots of 16 bytes.\<close>

record mouse_device_packet =
  pk_magic :: u32
  x_difference :: u32
  y_difference :: u32
  buttons :: u32

definition packet_bytes :: "mouse_device_packet \<Rightarrow> u8 list" where
  "packet_bytes p = le_bytes 4 (pk_magic p) @ le_bytes 4 (x_difference p) @ le_bytes 4 (y_difference p) @ le_bytes 4 (buttons p)"

definition packet_of :: "u8 list \<Rightarrow> mouse_device_packet" where
  "packet_of b = \<lparr>pk_magic = le_word (get_at 0 4 b), x_difference = le_word (get_at 4 4 b),
     y_difference = le_word (get_at 8 4 b), buttons = le_word (get_at 12 4 b)\<rparr>"

record pkg_queue =
  phead :: u32
  ptail :: u32
  p_proc_list :: addr
  pbuf :: "u8 list"

definition pkg_empty :: "pkg_queue \<Rightarrow> bool" where
  "pkg_empty q \<longleftrightarrow> phead q = ptail q"

definition get_packet :: "pkg_queue \<Rightarrow> mouse_device_packet \<times> pkg_queue" where
  "get_packet q = (packet_of (get_at (unat (ptail q)) 16 (pbuf q)), q\<lparr>ptail := (ptail q + 16) AND (16 * 1024 - 1)\<rparr>)"

definition put_packet :: "mouse_device_packet \<Rightarrow> pkg_queue \<Rightarrow> bool \<times> pkg_queue" where
  "put_packet p q =
     (let q = q\<lparr>pbuf := put_at (unat (phead q)) (packet_bytes p) (pbuf q)\<rparr>;
          head = (phead q + 16) AND (16 * 1024 - 1)
      in if head \<noteq> ptail q then (True, q\<lparr>phead := head\<rparr>) else (False, q))"

section \<open>The state\<close>

record input =
  iks :: kstate
  kbd :: in_queue
  mouse :: pkg_queue
  aux :: in_queue
  ctrl_status :: bool
  shift_status :: bool
  alt_status :: bool
  caps_lock_status :: bool
  meta_status :: bool
  ext_scancode :: bool
  mouse_mode :: u32
  mdata_buf :: "u8 list"
  mdata_stage :: u8

definition wake :: "addr \<Rightarrow> input \<Rightarrow> input option" where
  "wake q s = map_option (\<lambda>k. s\<lparr>iks := k\<rparr>) (wake_up_interruptible q (iks s))"

section \<open>Keyboard\<close>

definition keymap :: "(u8 \<times> u8) list" where
  "keymap =
    [(0, 0), (27, 27), (0x31, 0x21), (0x32, 0x40), (0x33, 0x23), (0x34, 0x24), (0x35, 0x25), (0x36, 0x5e),
     (0x37, 0x26), (0x38, 0x2a), (0x39, 0x28), (0x30, 0x29), (0x2d, 0x5f), (0x3d, 0x2b), (8, 8), (9, 9),
     (0x71, 0x51), (0x77, 0x57), (0x65, 0x45), (0x72, 0x52), (0x74, 0x54), (0x79, 0x59), (0x75, 0x55), (0x69, 0x49),
     (0x6f, 0x4f), (0x70, 0x50), (0x5b, 0x7b), (0x5d, 0x7d), (13, 13), (0, 0), (0x61, 0x41), (0x73, 0x53),
     (0x64, 0x44), (0x66, 0x46), (0x67, 0x47), (0x68, 0x48), (0x6a, 0x4a), (0x6b, 0x4b), (0x6c, 0x4c), (0x3b, 0x3a),
     (0x27, 0x22), (0x60, 0x7e), (0, 0), (0x5c, 0x7c), (0x7a, 0x5a), (0x78, 0x58), (0x63, 0x43), (0x76, 0x56),
     (0x62, 0x42), (0x6e, 0x4e), (0x6d, 0x4d), (0x2c, 0x3c), (0x2e, 0x3e), (0x2f, 0x3f), (0, 0), (0x2a, 0x2a),
     (0, 0), (0x20, 0x20)] @ replicate 70 (0, 0)"

text \<open>Whether the second column is used: shift alone for digits and signs, shift or caps lock for the rest.\<close>

definition use_shift :: "u16 \<Rightarrow> bool \<Rightarrow> bool \<Rightarrow> bool" where
  "use_shift scan_code shift_pressed cap_lock_pressed =
     (if (scan_code \<ge> 0x02 \<and> scan_code < 0x0e) \<or> scan_code \<in> {0x1a, 0x1b, 0x27, 0x28, 0x29, 0x2b, 0x33, 0x34, 0x35}
      then shift_pressed
      else if shift_pressed \<and> cap_lock_pressed then False
      else shift_pressed \<or> cap_lock_pressed)"

definition release_key :: "u16 \<Rightarrow> input \<Rightarrow> input" where
  "release_key make_code s =
     (if make_code = 0xe01d \<or> make_code = 0x1d then s\<lparr>ctrl_status := False\<rparr>
      else if make_code = 0xe038 \<or> make_code = 0x38 then s\<lparr>alt_status := False\<rparr>
      else if make_code = 0x36 \<or> make_code = 0x2a then s\<lparr>shift_status := False\<rparr>
      else s)"

definition press_modifier :: "u16 \<Rightarrow> input \<Rightarrow> input" where
  "press_modifier scan_code s =
     (if scan_code = 0x1d \<or> scan_code = 0xe01d then s\<lparr>ctrl_status := True\<rparr>
      else if scan_code = 0x38 \<or> scan_code = 0xe038 then s\<lparr>alt_status := True\<rparr>
      else if scan_code = 0x2a \<or> scan_code = 0x36 then s\<lparr>shift_status := True\<rparr>
      else if scan_code = 0x3a then s\<lparr>caps_lock_status := True\<rparr>
      else if scan_code = 0xe05b \<or> scan_code = 0xe05c then s\<lparr>meta_status := True\<rparr>
      else s)"

definition handle_keyboard_event :: "u16 \<Rightarrow> input \<Rightarrow> input option" where
  "handle_keyboard_event scan_code s =
     (if scan_code = 0xe0 then Some (s\<lparr>ext_scancode := True\<rparr>)
      else
        let (scan_code, s) = (if ext_scancode s then (0xe000 OR scan_code, s\<lparr>ext_scancode := False\<rparr>) else (scan_code, s)) in
        if scan_code AND 0x0080 \<noteq> 0 then Some (release_key (scan_code AND 0xff7f) s)
        else if (scan_code > 0 \<and> scan_code < 0x3b) \<or> scan_code \<in> {0xe038, 0xe01d, 0xe05b, 0xe05c} then
          let shift = use_shift scan_code (shift_status s) (caps_lock_status s);
              row = keymap ! unat (scan_code AND 0x00ff);
              key = (if shift then snd row else fst row)
          in if key \<noteq> 0 then
               let (kept, q) = put_in_queue key (kbd s); s = s\<lparr>kbd := q\<rparr> in
               if kept then wake (proc_list q) s else Some s
             else Some (press_modifier scan_code s)
        else if scan_code = 0 then Some s
        else None)"

section \<open>Mouse\<close>

text \<open>A difference is the byte with the sign in the first byte; a byte of 0 stays 0.\<close>

definition mouse_delta :: "u8 \<Rightarrow> bool \<Rightarrow> u32" where
  "mouse_delta b neg = (if b \<noteq> 0 \<and> neg then ucast b - 0x100 else ucast b)"

definition mouse_buttons :: "u32 \<Rightarrow> u8 list \<Rightarrow> u32" where
  "mouse_buttons mode b =
     (let r = 0;
          r = (if b ! 0 AND 0x01 \<noteq> 0 then r OR 0x01 else r);
          r = (if b ! 0 AND 0x02 \<noteq> 0 then r OR 0x02 else r);
          r = (if b ! 0 AND 0x04 \<noteq> 0 then r OR 0x04 else r)
      in if mode = 1 \<and> b ! 3 \<noteq> 0 then
           (if 0 <s b ! 3 then r OR 0x20 else if b ! 3 <s 0 then r OR 0x10 else r)
         else r)"

definition mouse_packet :: "u32 \<Rightarrow> u8 list \<Rightarrow> mouse_device_packet" where
  "mouse_packet mode b =
     (let delta_x = mouse_delta (b ! 1) (b ! 0 AND 0x10 \<noteq> 0);
          delta_y = mouse_delta (b ! 2) (b ! 0 AND 0x20 \<noteq> 0);
          (delta_x, delta_y) = (if b ! 0 AND 0x40 \<noteq> 0 \<or> b ! 0 AND 0x80 \<noteq> 0 then (0, 0) else (delta_x, delta_y))
      in \<lparr>pk_magic = 0xFEED1234, x_difference = delta_x, y_difference = delta_y, buttons = mouse_buttons mode b\<rparr>)"

definition make_mouse_packet :: "input \<Rightarrow> input option" where
  "make_mouse_packet s =
     (let s = s\<lparr>mdata_stage := 0\<rparr>;
          (kept, q) = put_packet (mouse_packet (mouse_mode s) (mdata_buf s)) (mouse s);
          s = s\<lparr>mouse := q\<rparr>
      in if kept then wake (p_proc_list q) s else Some s)"

definition set_mdata :: "nat \<Rightarrow> u8 \<Rightarrow> input \<Rightarrow> input" where
  "set_mdata i b s = s\<lparr>mdata_buf := (mdata_buf s)[i := b]\<rparr>"

definition handle_ps2_mouse_scancode :: "u8 \<Rightarrow> input \<Rightarrow> input option" where
  "handle_ps2_mouse_scancode mouse_in s =
     (if mdata_stage s = 0 then
        let s = set_mdata 0 mouse_in s in
        if mouse_in AND 0x08 = 0 then Some s else Some (s\<lparr>mdata_stage := mdata_stage s + 1\<rparr>)
      else if mdata_stage s = 1 then
        let s = set_mdata 1 mouse_in s in Some (s\<lparr>mdata_stage := mdata_stage s + 1\<rparr>)
      else if mdata_stage s = 2 then
        let s = set_mdata 2 mouse_in s in
        if mouse_mode s = 1 \<or> mouse_mode s = 2 then Some (s\<lparr>mdata_stage := mdata_stage s + 1\<rparr>)
        else make_mouse_packet s
      else if mdata_stage s = 3 then make_mouse_packet (set_mdata 3 mouse_in s)
      else Some s)"

definition handle_mouse_event :: "u8 \<Rightarrow> input \<Rightarrow> input option" where
  "handle_mouse_event scancode s =
     (let (kept, q) = put_in_queue scancode (aux s); s = s\<lparr>aux := q\<rparr> in
      if kept then wake (proc_list q) s else Some s)"

section \<open>Interrupts\<close>

text \<open>The handlers end with \<^verbatim>\<open>irq_exit\<close>. \<open>pending\<close> are the bytes that the controller delivers while its
  status says that there is one: the keyboard handler reads them all and handles the last.\<close>

definition with_iks :: "(kstate \<Rightarrow> kstate option) \<Rightarrow> input \<Rightarrow> input option" where
  "with_iks f s = map_option (\<lambda>k. s\<lparr>iks := k\<rparr>) (f (iks s))"

definition inthandler2C :: "softirq_table \<Rightarrow> u8 \<Rightarrow> input \<Rightarrow> input option" where
  "inthandler2C hs scancode s = do {
     s \<leftarrow> handle_ps2_mouse_scancode scancode s;
     s \<leftarrow> handle_mouse_event scancode s;
     with_iks (irq_exit hs) s
   }"

definition inthandler21 :: "softirq_table \<Rightarrow> u8 list \<Rightarrow> input \<Rightarrow> input option" where
  "inthandler21 hs pending s = do {
     let scan_code = foldl (\<lambda>_ b. ucast b) 0 pending;
     s \<leftarrow> handle_keyboard_event scan_code s;
     with_iks (irq_exit hs) s
   }"

section \<open>Reading\<close>

abbreviation O_NONBLOCK :: u32 where "O_NONBLOCK \<equiv> 0x800"
abbreviation EAGAIN :: u32 where "EAGAIN \<equiv> 11"

primrec read_bytes :: "nat \<Rightarrow> in_queue \<Rightarrow> u8 list \<times> in_queue" where
  "read_bytes 0 q = ([], q)"
| "read_bytes (Suc index) q =
     (if queue_empty q then ([], q)
      else let (c, q) = get_from_queue q; (bs, q) = read_bytes index q in (c # bs, q))"

primrec read_packets :: "nat \<Rightarrow> pkg_queue \<Rightarrow> mouse_device_packet list \<times> pkg_queue" where
  "read_packets 0 q = ([], q)"
| "read_packets (Suc index) q =
     (if pkg_empty q then ([], q)
      else let (p, q) = get_packet q; (ps, q) = read_packets index q in (p # ps, q))"

text \<open>Sleeping: the thread puts itself on the wait queue and blocks once; a switch to another thread is \<open>W\<close>.\<close>

definition sleep_once :: "(input \<Rightarrow> input option) \<Rightarrow> addr \<Rightarrow> addr \<Rightarrow> input \<Rightarrow> input option" where
  "sleep_once W q wait s = do {
     let cur = running_thread (iks s);
     let old_status = intr (iks s);
     s \<leftarrow> with_iks (add_wait_queue q wait) s;
     let before = iks s;
     s \<leftarrow> with_iks (thread_block_out THREAD_TASK_WAITING) s;
     s \<leftarrow> (if running (iks s) = running before then Some s else W s);
     s \<leftarrow> with_iks (\<lambda>k. Some (intr_set_status old_status k)) s;
     let (old_status, k) = intr_disable (iks s);
     k \<leftarrow> remove_wait_queue q wait (upd_tcb cur (\<lambda>t. t\<lparr>status := THREAD_TASK_READY\<rparr>) k);
     Some (s\<lparr>iks := intr_set_status old_status k\<rparr>)
   }"

definition read_kbd :: "(input \<Rightarrow> input option) \<Rightarrow> addr \<Rightarrow> u32 \<Rightarrow> u32 \<Rightarrow> input \<Rightarrow> (u32 \<times> u8 list \<times> input) option" where
  "read_kbd W wait flags count s = do {
     let s = s\<lparr>iks := DECLARE_WAITQUEUE wait (running_thread (iks s)) (iks s)\<rparr>;
     if queue_empty (kbd s) \<and> flags AND O_NONBLOCK \<noteq> 0 then Some (- EAGAIN, [], s)
     else do {
       s \<leftarrow> (if queue_empty (kbd s) then sleep_once W (proc_list (kbd s)) wait s else Some s);
       let (bs, q) = read_bytes (unat count) (kbd s);
       Some (of_nat (length bs), bs, s\<lparr>kbd := q\<rparr>)
     }
   }"

definition read_aux :: "(input \<Rightarrow> input option) \<Rightarrow> addr \<Rightarrow> u32 \<Rightarrow> u32 \<Rightarrow> input \<Rightarrow> (u32 \<times> u8 list \<times> input) option" where
  "read_aux W wait flags count s = do {
     let s = s\<lparr>iks := DECLARE_WAITQUEUE wait (running_thread (iks s)) (iks s)\<rparr>;
     if queue_empty (aux s) \<and> flags AND O_NONBLOCK \<noteq> 0 then Some (- EAGAIN, [], s)
     else do {
       s \<leftarrow> (if queue_empty (aux s) then sleep_once W (proc_list (aux s)) wait s else Some s);
       let (bs, q) = read_bytes (unat count) (aux s);
       Some (of_nat (length bs), bs, s\<lparr>aux := q\<rparr>)
     }
   }"

definition write_aux :: "u8 list \<Rightarrow> u32 \<Rightarrow> u32" where
  "write_aux buf count = count"

text \<open>The mouse waits until there is a packet. What it returns is \<open>count\<close> less the packets that are still
  wanted.\<close>

partial_function (option) mouse_repeat :: "(input \<Rightarrow> input option) \<Rightarrow> addr \<Rightarrow> input \<Rightarrow> input option" where
  "mouse_repeat W cur s = do {
     let s = s\<lparr>iks := upd_tcb cur (\<lambda>t. t\<lparr>status := THREAD_TASK_WAITING\<rparr>) (iks s)\<rparr>;
     if pkg_empty (mouse s) then do {
       let before = iks s;
       s \<leftarrow> with_iks schedule_select s;
       s \<leftarrow> (if running (iks s) = running before then Some s else W s);
       mouse_repeat W cur s
     } else Some s
   }"

definition read_pcmouse ::
    "(input \<Rightarrow> input option) \<Rightarrow> addr \<Rightarrow> u32 \<Rightarrow> u32 \<Rightarrow> input \<Rightarrow> (u32 \<times> mouse_device_packet list \<times> input) option" where
  "read_pcmouse W wait flags count s = do {
     ASSERT (count mod 16 = 0);
     let cur = running_thread (iks s);
     let s = s\<lparr>iks := DECLARE_WAITQUEUE wait cur (iks s)\<rparr>;
     let index = count div 16;
     if pkg_empty (mouse s) \<and> flags AND O_NONBLOCK \<noteq> 0 then Some (- EAGAIN, [], s)
     else do {
       s \<leftarrow> (if pkg_empty (mouse s) then do {
           let q = p_proc_list (mouse s);
           s \<leftarrow> with_iks (add_wait_queue q wait) s;
           s \<leftarrow> mouse_repeat W cur s;
           let (old_status, k) = intr_disable (iks s);
           k \<leftarrow> remove_wait_queue q wait (upd_tcb cur (\<lambda>t. t\<lparr>status := THREAD_TASK_READY\<rparr>) k);
           Some (s\<lparr>iks := intr_set_status old_status k\<rparr>)
         } else Some s);
       let (ps, q) = read_packets (unat index) (mouse s);
       let index = index - of_nat (length ps);
       Some (if count - index \<noteq> 0 then count - index else 0, ps, s\<lparr>mouse := q\<rparr>)
     }
   }"

section \<open>Start\<close>

text \<open>\<open>alloc\<close> is the result of \<^verbatim>\<open>sys_malloc\<close>; the wait queue is 8 bytes behind it.\<close>

definition pc_kbd_init :: "addr \<Rightarrow> input \<Rightarrow> u32 \<times> input" where
  "pc_kbd_init alloc s =
     (if alloc = 0 then (-12, s)
      else (0, s\<lparr>kbd := \<lparr>qhead = 0, qtail = 0, proc_list = alloc + 8, qdata = (\<lambda>_. 0)\<rparr>,
                 iks := init_waitqueue_head (alloc + 8) (iks s)\<rparr>))"

definition pc_mouse_init :: "addr \<Rightarrow> input \<Rightarrow> u32 \<times> input" where
  "pc_mouse_init alloc s =
     (if alloc = 0 then (-12, s)
      else (0, s\<lparr>mouse := \<lparr>phead = 0, ptail = 0, p_proc_list = alloc + 8, pbuf = replicate (16 * 1024) 0\<rparr>,
                 iks := init_waitqueue_head (alloc + 8) (iks s)\<rparr>))"

definition aux_init :: "addr \<Rightarrow> input \<Rightarrow> input" where
  "aux_init alloc s = s\<lparr>aux := \<lparr>qhead = 0, qtail = 0, proc_list = alloc + 8, qdata = (\<lambda>_. 0)\<rparr>,
     iks := init_waitqueue_head (alloc + 8) (iks s)\<rparr>"

section \<open>The byte rings are bounded queues\<close>

lemma and_low_mod: "(x :: u32) AND 2047 = x mod 2048" "(x :: u32) AND 16383 = x mod 16384"
proof -
  have "x AND mask 11 = x mod 2 ^ 11" "x AND mask 14 = x mod 2 ^ 14" unfolding take_bit_eq_mask [symmetric] take_bit_eq_mod by (rule refl)+
  then show "x AND 2047 = x mod 2048" "x AND 16383 = x mod 16384" by (simp_all add: mask_eq_exp_minus_1)
qed

definition iq_holds :: "in_queue \<Rightarrow> u8 list \<Rightarrow> bool" where
  "iq_holds q xs \<longleftrightarrow> unat (qtail q) < 2048 \<and> length xs < 2048 \<and>
     unat (qhead q) = (unat (qtail q) + length xs) mod 2048 \<and> ring (qdata q) (unat (qtail q)) 2048 xs"

lemma iq_empty: "iq_holds q xs \<Longrightarrow> queue_empty q \<longleftrightarrow> xs = []"
proof -
  assume h: "iq_holds q xs"
  have "queue_empty q \<longleftrightarrow> unat (qhead q) = unat (qtail q)" by (simp add: queue_empty_def word_eq_unat32)
  also have "\<dots> \<longleftrightarrow> (unat (qtail q) + length xs) mod 2048 = (unat (qtail q) + 0) mod 2048"
    using h by (simp add: iq_holds_def)
  also have "\<dots> \<longleftrightarrow> length xs = 0" using h by (intro mod_shift_inject) (simp_all add: iq_holds_def)
  finally show ?thesis by simp
qed

lemma put_in_queue_room:
  assumes "iq_holds q xs" "length xs < 2047"
  shows "fst (put_in_queue b q)" "iq_holds (snd (put_in_queue b q)) (xs @ [b])"
    "proc_list (snd (put_in_queue b q)) = proc_list q"
proof -
  note h = assms(1) [unfolded iq_holds_def]
  let ?head = "(qhead q + 1) mod 2048"
  have hd: "unat ?head = (unat (qtail q) + Suc (length xs)) mod 2048"
    using h unat_next [of "qhead q" 2048 2048] by (simp add: mod_simps)
  have "(unat (qtail q) + Suc (length xs)) mod 2048 \<noteq> (unat (qtail q) + 0) mod 2048"
    using mod_shift_inject [of "Suc (length xs)" 2048 0 "unat (qtail q)"] assms(2) by simp
  then have ne: "?head \<noteq> qtail q" using hd h by auto
  show "fst (put_in_queue b q)" "proc_list (snd (put_in_queue b q)) = proc_list q"
    using ne by (simp_all add: put_in_queue_def and_low_mod)
  have "ring ((qdata q)(qhead q := b)) (unat (qtail q)) 2048 (xs @ [b])"
    using h assms(2) ring_put [of "qdata q" "unat (qtail q)" 2048 xs b] of_nat_unat_32 [of "qhead q"] by simp
  then show "iq_holds (snd (put_in_queue b q)) (xs @ [b])"
    using ne h hd assms(2) by (simp add: put_in_queue_def and_low_mod iq_holds_def)
qed

text \<open>A full ring drops the byte.\<close>

lemma put_in_queue_full:
  assumes "iq_holds q xs" "length xs = 2047"
  shows "\<not> fst (put_in_queue b q)" "iq_holds (snd (put_in_queue b q)) xs"
proof -
  note h = assms(1) [unfolded iq_holds_def]
  let ?t = "unat (qtail q)"
  have "unat ((qhead q + 1) mod 2048) = (?t + Suc (length xs)) mod 2048"
    using h unat_next [of "qhead q" 2048 2048] by (simp add: mod_simps)
  also have "\<dots> = ?t" using assms(2) h by simp
  finally have e: "(qhead q + 1) mod 2048 = qtail q" by (simp add: word_eq_unat32)
  then show "\<not> fst (put_in_queue b q)" by (simp add: put_in_queue_def and_low_mod)
  have "ring ((qdata q)(qhead q := b)) ?t 2048 (xs @ [b])"
    using h assms(2) ring_put [of "qdata q" ?t 2048 xs b] of_nat_unat_32 [of "qhead q"] by simp
  then have "ring ((qdata q)(qhead q := b)) ?t 2048 xs"
    unfolding ring_def by (metis length_append_singleton less_SucI nth_append)
  then show "iq_holds (snd (put_in_queue b q)) xs" using h e by (simp add: put_in_queue_def and_low_mod iq_holds_def)
qed

lemma get_from_queue_holds:
  assumes "iq_holds q (b # xs)"
  shows "fst (get_from_queue q) = b" "iq_holds (snd (get_from_queue q)) xs"
    "proc_list (snd (get_from_queue q)) = proc_list q"
proof -
  note h = assms [unfolded iq_holds_def]
  have r: "qdata q (qtail q) = b" "ring (qdata q) ((unat (qtail q) + 1) mod 2048) 2048 xs"
    using ring_get [of "qdata q" "unat (qtail q)" 2048 b xs] h of_nat_unat_32 [of "qtail q"] by simp_all
  show "fst (get_from_queue q) = b" "proc_list (snd (get_from_queue q)) = proc_list q"
    using r(1) by (simp_all add: get_from_queue_def)
  have "unat ((qtail q + 1) mod 2048) = (unat (qtail q) + 1) mod 2048"
    using h unat_next [of "qtail q" 2048 2048] by simp
  then show "iq_holds (snd (get_from_queue q)) xs"
    using h r(2) by (simp add: get_from_queue_def and_low_mod iq_holds_def mod_simps)
qed

interpretation device_ring: byte_queue iq_holds "\<lambda>_. 2047" "\<lambda>b q. snd (put_in_queue b q)" get_from_queue
  by unfold_locales (simp_all add: put_in_queue_room get_from_queue_holds, simp add: iq_holds_def)

lemma read_bytes_holds:
  "iq_holds q xs \<Longrightarrow> fst (read_bytes n q) = take n xs \<and> iq_holds (snd (read_bytes n q)) (drop n xs)"
proof (induction n arbitrary: q xs)
  case (Suc n)
  show ?case
  proof (cases xs)
    case (Cons b bs)
    then show ?thesis
      using Suc.IH [of "snd (get_from_queue q)" bs] get_from_queue_holds [of q b bs] Suc.prems iq_empty [OF Suc.prems]
      by (simp add: case_prod_unfold Let_def)
  qed (use Suc.prems iq_empty [OF Suc.prems] in simp)
qed simp

section \<open>Typing\<close>

text \<open>No thread waits for the device.\<close>

definition wait_idle :: "addr \<Rightarrow> kstate \<Rightarrow> bool" where
  "wait_idle q k \<longleftrightarrow> wqh_magic k q = q + 12 \<and> dlist (lh k) (wqh_task_list q) [] \<and> wqh_task_list q \<noteq> 0"

lemma wake_idle: "wait_idle q (iks s) \<Longrightarrow> wake q s = Some s"
  by (cases s) (simp add: wait_idle_def wake_def wake_up_interruptible_def wake_up_q_def wake_up_common_def ASSERT_bind
      dlist_Nil wake_up_loop.simps)

lemma init_wait_idle: "wqh_task_list q \<noteq> 0 \<Longrightarrow> wait_idle q (init_waitqueue_head q k)"
  by (simp add: wait_idle_def init_waitqueue_head_def upd_lh_def dlist_Nil INIT_LIST_HEAD_def heap_upd)

definition kbd_ready :: "input \<Rightarrow> bool" where
  "kbd_ready s \<longleftrightarrow> \<not> shift_status s \<and> \<not> caps_lock_status s \<and> \<not> ext_scancode s \<and> wait_idle (proc_list (kbd s)) (iks s)"

text \<open>The scan codes that the keyboard sends for a character: the key that has it, with shift held if it is in the
  second column.\<close>

definition plain_code :: "u8 \<Rightarrow> nat option" where
  "plain_code c = List.find (\<lambda>i. fst (keymap ! i) = c) [1..<0x3b]"

definition shifted_code :: "u8 \<Rightarrow> nat option" where
  "shifted_code c = List.find (\<lambda>i. snd (keymap ! i) = c) [1..<0x3b]"

definition keystrokes :: "u8 \<Rightarrow> u16 list" where
  "keystrokes c = (case plain_code c of Some i \<Rightarrow> [of_nat i, of_nat i + 0x80]
     | None \<Rightarrow> (case shifted_code c of Some i \<Rightarrow> [0x2a, of_nat i, of_nat i + 0x80, 0xaa] | None \<Rightarrow> []))"

definition typable :: "u8 \<Rightarrow> bool" where
  "typable c \<longleftrightarrow> c \<noteq> 0 \<and> (plain_code c \<noteq> None \<or> shifted_code c \<noteq> None)"

primrec scan_codes :: "u16 list \<Rightarrow> input \<Rightarrow> input option" where
  "scan_codes [] s = Some s"
| "scan_codes (c # cs) s = do { s \<leftarrow> handle_keyboard_event c s; scan_codes cs s }"

lemma scan_codes_append: "scan_codes (cs @ ds) s = do { s \<leftarrow> scan_codes cs s; scan_codes ds s }"
  by (induction cs arbitrary: s) (simp_all add: bind_assoc)

lemma scan_code_table:
  "list_all (\<lambda>i. let c = (of_nat i :: u16) in c \<noteq> 0xe0 \<and> c AND 0x0080 = 0 \<and> c > 0 \<and> c < 0x3b \<and> unat (c AND 0x00ff) = i \<and>
     c + 0x80 \<noteq> 0xe0 \<and> (c + 0x80) AND 0x0080 \<noteq> 0 \<and> (c + 0x80) AND 0xff7f = c \<and>
     (keymap ! i \<noteq> (0, 0) \<longrightarrow> c \<notin> {0x1d, 0xe01d, 0x38, 0xe038, 0x36, 0x2a})) [1..<0x3b]"
  by code_simp

lemma scan_code_facts:
  assumes "1 \<le> i" "i < 0x3b"
  defines "c \<equiv> (of_nat i :: u16)"
  shows "c \<noteq> 0xe0" "c AND 0x0080 = 0" "c > 0" "c < 0x3b" "unat (c AND 0x00ff) = i"
    "c + 0x80 \<noteq> 0xe0" "(c + 0x80) AND 0x0080 \<noteq> 0" "(c + 0x80) AND 0xff7f = c"
    "keymap ! i \<noteq> (0, 0) \<Longrightarrow> release_key c s = s"
proof -
  have "i \<in> set [1..<0x3b]" using assms(1,2) by simp
  note t = bspec [OF scan_code_table [unfolded list_all_iff] this, folded c_def, unfolded Let_def]
  then show "c \<noteq> 0xe0" "c AND 0x0080 = 0" "c > 0" "c < 0x3b" "unat (c AND 0x00ff) = i"
    "c + 0x80 \<noteq> 0xe0" "(c + 0x80) AND 0x0080 \<noteq> 0" "(c + 0x80) AND 0xff7f = c" by blast+
  show "release_key c s = s" if "keymap ! i \<noteq> (0, 0)" using t that by (simp add: release_key_def)
qed

text \<open>Pressing and releasing a key.\<close>

lemma make_key:
  assumes i: "1 \<le> i" "i < 0x3b" and k: "key = (if shift_status s then snd (keymap ! i) else fst (keymap ! i))" "key \<noteq> 0"
    and s: "\<not> caps_lock_status s" "\<not> ext_scancode s" "wait_idle (proc_list (kbd s)) (iks s)"
    and q: "iq_holds (kbd s) xs" "length xs < 2047"
  shows "\<exists>q. handle_keyboard_event (of_nat i) s = Some (s\<lparr>kbd := q\<rparr>) \<and> iq_holds q (xs @ [key]) \<and> proc_list q = proc_list (kbd s)"
proof -
  note f = scan_code_facts [OF i]
  have us: "use_shift (of_nat i) (shift_status s) (caps_lock_status s) = shift_status s"
    using s(1) by (simp add: use_shift_def)
  obtain q where put: "put_in_queue key (kbd s) = (True, q)" "iq_holds q (xs @ [key])" "proc_list q = proc_list (kbd s)"
    using put_in_queue_room [OF q, of key] by (metis (full_types) prod.collapse)
  have "wake (proc_list q) (s\<lparr>kbd := q\<rparr>) = Some (s\<lparr>kbd := q\<rparr>)" using s(3) put(3) by (intro wake_idle) simp
  then have "handle_keyboard_event (of_nat i) s = Some (s\<lparr>kbd := q\<rparr>)"
    using f(1-5) s(2) us k put(1) by (auto simp: handle_keyboard_event_def Let_def)
  then show ?thesis using put(2,3) by blast
qed

lemma press_key:
  assumes i: "1 \<le> i" "i < 0x3b" and k: "key = (if shift_status s then snd (keymap ! i) else fst (keymap ! i))" "key \<noteq> 0"
    and s: "\<not> caps_lock_status s" "\<not> ext_scancode s" "wait_idle (proc_list (kbd s)) (iks s)"
    and q: "iq_holds (kbd s) xs" "length xs < 2047"
  shows "\<exists>q. scan_codes [of_nat i, of_nat i + 0x80] s = Some (s\<lparr>kbd := q\<rparr>) \<and> iq_holds q (xs @ [key]) \<and>
    proc_list q = proc_list (kbd s)"
proof -
  obtain q where q': "handle_keyboard_event (of_nat i) s = Some (s\<lparr>kbd := q\<rparr>)" "iq_holds q (xs @ [key])" "proc_list q = proc_list (kbd s)"
    using make_key [OF i k s q] by blast
  have "keymap ! i \<noteq> (0, 0)" using k by (auto split: if_splits)
  then have "handle_keyboard_event (of_nat i + 0x80) (s\<lparr>kbd := q\<rparr>) = Some (s\<lparr>kbd := q\<rparr>)"
    using scan_code_facts(6-9) [OF i] s(2) by (simp add: handle_keyboard_event_def)
  then show ?thesis using q' by auto
qed

lemma shift_down: "\<not> ext_scancode s \<Longrightarrow> handle_keyboard_event 0x2a s = Some (s\<lparr>shift_status := True\<rparr>)"
  by (simp add: handle_keyboard_event_def use_shift_def keymap_def press_modifier_def Let_def)

lemma shift_up: "\<not> ext_scancode s \<Longrightarrow> handle_keyboard_event 0xaa s = Some (s\<lparr>shift_status := False\<rparr>)"
  by (simp add: handle_keyboard_event_def release_key_def)

lemma find_Some_nth: "List.find P xs = Some x \<Longrightarrow> P x \<and> x \<in> set xs"
  by (auto simp: find_Some_iff)

lemma type_char:
  assumes r: "kbd_ready s" and c: "typable c" and q: "iq_holds (kbd s) xs" "length xs < 2047"
  shows "\<exists>q. scan_codes (keystrokes c) s = Some (s\<lparr>kbd := q\<rparr>) \<and> iq_holds q (xs @ [c]) \<and> proc_list q = proc_list (kbd s)"
proof (cases "plain_code c")
  case (Some i)
  from find_Some_nth [OF this [unfolded plain_code_def]] have i: "fst (keymap ! i) = c" "1 \<le> i" "i < 0x3b" by auto
  show ?thesis
    using press_key [OF i(2,3) _ _ _ _ _ q, of c] r c i(1) Some by (simp add: kbd_ready_def typable_def keystrokes_def)
next
  case None
  with c obtain i where i0: "shifted_code c = Some i" by (auto simp: typable_def)
  from find_Some_nth [OF this [unfolded shifted_code_def]] have i: "snd (keymap ! i) = c" "1 \<le> i" "i < 0x3b" by auto
  let ?s = "s\<lparr>shift_status := True\<rparr>"
  obtain q' where q': "scan_codes [of_nat i, of_nat i + 0x80] ?s = Some (?s\<lparr>kbd := q'\<rparr>)" "iq_holds q' (xs @ [c])"
    "proc_list q' = proc_list (kbd s)"
    using press_key [OF i(2,3), of c ?s xs] r c i(1) q by (auto simp: kbd_ready_def typable_def)
  have "scan_codes (keystrokes c) s = scan_codes ([0x2a] @ [of_nat i, of_nat i + 0x80] @ [0xaa]) s"
    using None i0 by (simp add: keystrokes_def)
  also have "\<dots> = Some (?s\<lparr>kbd := q', shift_status := False\<rparr>)"
  proof -
    have "scan_codes [0x2a] s = Some ?s" "scan_codes [0xaa] (?s\<lparr>kbd := q'\<rparr>) = Some (?s\<lparr>kbd := q', shift_status := False\<rparr>)"
      using shift_down [of s] shift_up [of "?s\<lparr>kbd := q'\<rparr>"] r by (simp_all add: kbd_ready_def)
    then show ?thesis by (simp only: scan_codes_append q'(1) bind.bind_lunit)
  qed
  also have "?s\<lparr>kbd := q', shift_status := False\<rparr> = s\<lparr>kbd := q'\<rparr>" using r by (cases s) (simp add: kbd_ready_def)
  finally show ?thesis using q'(2,3) by blast
qed

lemma type_text:
  assumes "kbd_ready s" "\<forall>c \<in> set str. typable c" "iq_holds (kbd s) xs" "length xs + length str \<le> 2047"
  shows "\<exists>q. scan_codes (concat (map keystrokes str)) s = Some (s\<lparr>kbd := q\<rparr>) \<and> iq_holds q (xs @ str) \<and>
    proc_list q = proc_list (kbd s)"
  using assms
proof (induction str arbitrary: s xs)
  case Nil
  then show ?case by (intro exI [of _ "kbd s"]) simp
next
  case (Cons c cs)
  obtain q where q: "scan_codes (keystrokes c) s = Some (s\<lparr>kbd := q\<rparr>)" "iq_holds q (xs @ [c])" "proc_list q = proc_list (kbd s)"
    using type_char [of s c xs] Cons.prems by auto
  have "kbd_ready (s\<lparr>kbd := q\<rparr>)" using Cons.prems(1) q(3) by (simp add: kbd_ready_def)
  from Cons.IH [OF this, of "xs @ [c]"] Cons.prems q show ?case by (auto simp: scan_codes_append)
qed

lemma printable_table: "list_all (\<lambda>n. typable (of_nat n)) [0x20..<0x7f]"
  by code_simp

lemma printable:
  assumes "0x20 \<le> c" "c \<le> 0x7e" shows "typable c"
proof -
  have "unat c \<in> set [0x20..<0x7f]" unfolding set_upt atLeastLessThan_iff using assms by (simp add: word_le_nat_alt)
  then have "typable (of_nat (unat c))" using printable_table unfolding list_all_iff by blast
  then show ?thesis by simp
qed

text \<open>C15. Typing. From an idle keyboard, the scan codes of the key presses and releases that produce a printable
  text, as long as the ring has room, lead to a state in which \<open>read\<close> returns exactly what was in the ring
  before followed by the text, up to the size of the buffer and without waiting, and leaves the rest; the keyboard
  is idle again.\<close>

theorem typed_text_read:
  assumes "kbd_ready s" "iq_holds (kbd s) xs" "\<forall>c \<in> set str. 0x20 \<le> c \<and> c \<le> 0x7e"
    and "length xs + length str \<le> 2047" "xs @ str \<noteq> []"
  shows "\<exists>s1 s2. scan_codes (concat (map keystrokes str)) s = Some s1 \<and> kbd_ready s1 \<and>
    read_kbd W wait flags count s1 =
      Some (of_nat (min (unat count) (length (xs @ str))), take (unat count) (xs @ str), s2) \<and>
    iq_holds (kbd s2) (drop (unat count) (xs @ str))"
proof -
  have "\<forall>c \<in> set str. typable c" using assms(3) printable by blast
  from type_text [OF assms(1) this assms(2,4)] obtain q where
    q: "scan_codes (concat (map keystrokes str)) s = Some (s\<lparr>kbd := q\<rparr>)" "iq_holds q (xs @ str)" "proc_list q = proc_list (kbd s)"
    by blast
  have "\<not> queue_empty q" using iq_empty [OF q(2)] assms(5) by simp
  moreover have "kbd_ready (s\<lparr>kbd := q\<rparr>)" using assms(1) q(3) by (simp add: kbd_ready_def)
  ultimately show ?thesis
    using q(1) read_bytes_holds [OF q(2), of "unat count"] length_take [of "unat count" "xs @ str"]
    by (auto simp: read_kbd_def case_prod_unfold Let_def min.commute simp del: take_append drop_append length_append)
qed

definition sample_input :: input where
  "sample_input = \<lparr>iks = boot_kstate, kbd = \<lparr>qhead = 0, qtail = 0, proc_list = 0, qdata = (\<lambda>_. 0)\<rparr>,
     mouse = \<lparr>phead = 0, ptail = 0, p_proc_list = 0, pbuf = []\<rparr>,
     aux = \<lparr>qhead = 0, qtail = 0, proc_list = 0, qdata = (\<lambda>_. 0)\<rparr>, ctrl_status = False, shift_status = False, alt_status = False,
     caps_lock_status = False, meta_status = False, ext_scancode = False, mouse_mode = 0, mdata_buf = [0, 0, 0, 0],
     mdata_stage = 0\<rparr>"

definition started_input :: input where
  "started_input = snd (pc_mouse_init 0xc0120000 (snd (pc_kbd_init 0xc0130000 sample_input)))"

lemma started_kbd: "kbd_ready started_input" "iq_holds (kbd started_input) []"
  using init_wait_idle [of "0xc0130008"]
  by (simp_all add: started_input_def pc_kbd_init_def pc_mouse_init_def sample_input_def kbd_ready_def iq_holds_def ring_def
      wait_idle_def init_waitqueue_head_def upd_lh_def wqh_task_list_def INIT_LIST_HEAD_def heap_upd dlist_Nil)

text \<open>The text "Hi!" is typed after the start.\<close>

theorem typed_text_read_witness:
  "\<exists>s1 s2. scan_codes [0x2a, 0x23, 0xa3, 0xaa, 0x17, 0x97, 0x2a, 2, 0x82, 0xaa] started_input = Some s1 \<and>
     read_kbd (\<lambda>_. None) 0xc00ff000 0 100 s1 = Some (3, [0x48, 0x69, 0x21], s2)"
proof -
  have "concat (map keystrokes [0x48, 0x69, 0x21]) = [0x2a, 0x23, 0xa3, 0xaa, 0x17, 0x97, 0x2a, 2, 0x82, 0xaa]" by code_simp
  then show ?thesis
    using typed_text_read [OF started_kbd, where str = "[0x48, 0x69, 0x21]" and W = "\<lambda>_. None" and wait = "0xc00ff000" and flags = 0 and
        count = 100] by auto
qed

text \<open>Nothing clears the caps lock.\<close>

lemma caps_lock_stays:
  assumes "handle_keyboard_event c s = Some s'" "caps_lock_status s" shows "caps_lock_status s'"
  using assms
  by (auto simp: handle_keyboard_event_def release_key_def press_modifier_def wake_def Let_def split: if_splits prod.splits)

text \<open>A key behind the table, such as \<^verbatim>\<open>F1\<close> and, with the prefix \<^verbatim>\<open>e0\<close>, the arrow keys, stops the kernel.\<close>

lemma function_key_panics:
  assumes "\<not> ext_scancode s" "0x3b \<le> c" "c < 0x80"
  shows "handle_keyboard_event c s = None" "scan_codes [0xe0, 0x48] s = None"
proof -
  have "unat c < 128" using assms(3) by (simp add: word_less_nat_alt)
  then have "take_bit 7 c = c" by (simp add: word_eq_unat32 word_unat_eq_iff unsigned_take_bit_eq take_bit_nat_eq_self)
  then have "bit c 7 = False" by (metis bit_take_bit_iff less_irrefl)
  then have "c AND 0x80 = 0" using and_exp_eq_0_iff_not_bit [of c 7] by simp
  then show "handle_keyboard_event c s = None"
    using assms by (auto simp: handle_keyboard_event_def)
  show "scan_codes [0xe0, 0x48] s = None" by (simp add: handle_keyboard_event_def)
qed

section \<open>Mouse packets\<close>

interpretation packet_codec: codec packet_bytes packet_of 16 "\<lambda>_. True"
  by unfold_locales (simp_all add: packet_bytes_def packet_of_def get_at_def)

definition pk_holds :: "pkg_queue \<Rightarrow> mouse_device_packet list \<Rightarrow> bool" where
  "pk_holds q ps \<longleftrightarrow> (\<exists>t < 1024. unat (ptail q) = 16 * t \<and> length ps < 1024 \<and> length (pbuf q) = 16384 \<and>
     unat (phead q) = 16 * ((t + length ps) mod 1024) \<and>
     (\<forall>i < length ps. packet_of (get_at ((t + i) mod 1024 * 16) 16 (pbuf q)) = ps ! i))"

lemma next_slot:
  assumes "unat (p :: u32) = 16 * k" "k < 1024"
  shows "unat ((p + 16) AND 16383) = 16 * (Suc k mod 1024)"
proof -
  have "unat (p + 16) = 16 * Suc k" using assms by (subst unat_add_less) simp_all
  then have "unat ((p + 16) mod 16384) = 16 * Suc k mod (16 * 1024)" by (simp add: unat_mod_word)
  then show ?thesis by (simp add: and_low_mod mult_mod_right)
qed

lemma slot_fits: "j < 1024 \<Longrightarrow> Suc j * 16 \<le> 16384"
  by simp

lemma put_packet_room:
  assumes "pk_holds q ps" "length ps < 1023"
  shows "fst (put_packet p q)" "pk_holds (snd (put_packet p q)) (ps @ [p])" "p_proc_list (snd (put_packet p q)) = p_proc_list q"
proof -
  from assms(1) obtain t where t: "t < 1024" "unat (ptail q) = 16 * t" "length (pbuf q) = 16384"
    and hd: "unat (phead q) = 16 * ((t + length ps) mod 1024)"
    and ps: "\<And>i. i < length ps \<Longrightarrow> packet_of (get_at ((t + i) mod 1024 * 16) 16 (pbuf q)) = ps ! i"
    by (auto simp: pk_holds_def)
  let ?k = "(t + length ps) mod 1024" and ?h = "(phead q + 16) AND 16383"
  let ?buf = "put_at (16 * ?k) (packet_bytes p) (pbuf q)"
  have k: "?k < 1024" by simp
  have h: "unat ?h = 16 * ((t + Suc (length ps)) mod 1024)" using next_slot [OF hd k] by (simp add: mod_simps)
  have "(t + Suc (length ps)) mod 1024 \<noteq> (t + 0) mod 1024"
    using mod_shift_inject [of "Suc (length ps)" 1024 0 t] assms(2) by simp
  then have ne: "?h \<noteq> ptail q" using h t(1,2) by auto
  then show "fst (put_packet p q)" "p_proc_list (snd (put_packet p q)) = p_proc_list q"
    by (simp_all add: put_packet_def)
  have lp: "length (packet_bytes p) = 16" by (rule packet_codec.enc_length) simp
  have "packet_of (get_at ((t + i) mod 1024 * 16) 16 ?buf) = (ps @ [p]) ! i" if i: "i < Suc (length ps)" for i
  proof -
    let ?j = "(t + i) mod 1024"
    have "?j < 1024" by simp
    then have j: "Suc ?j * 16 \<le> length (pbuf q)" "Suc ?k * 16 \<le> length (pbuf q)" using slot_fits k t(3) by simp_all
    have "?j = ?k \<longleftrightarrow> i = length ps" using mod_shift_inject [of i 1024 "length ps" t] i assms(2) by simp
    moreover have "packet_of (get_at (?j * 16) 16 ?buf) = (if ?j = ?k then p else packet_of (get_at (?j * 16) 16 (pbuf q)))"
      using packet_codec.table_store [OF TrueI j(2,1), of p] by (simp only: mult.commute)
    ultimately show ?thesis using i ps [of i] by (auto simp: nth_append)
  qed
  moreover have "length ?buf = 16384" using lp k t(3) by simp
  ultimately show "pk_holds (snd (put_packet p q)) (ps @ [p])"
    using ne h t assms(2) hd unfolding pk_holds_def by (intro exI [of _ t]) (simp add: put_packet_def)
qed

lemma pkg_empty_iff: "pk_holds q ps \<Longrightarrow> pkg_empty q \<longleftrightarrow> ps = []"
proof -
  assume "pk_holds q ps"
  then obtain t where t: "t < 1024" "unat (ptail q) = 16 * t" "unat (phead q) = 16 * ((t + length ps) mod 1024)" "length ps < 1024"
    by (auto simp: pk_holds_def)
  have "pkg_empty q \<longleftrightarrow> (t + length ps) mod 1024 = (t + 0) mod 1024"
    using t by (simp add: pkg_empty_def word_eq_unat32)
  also have "\<dots> \<longleftrightarrow> length ps = 0" using t(4) by (intro mod_shift_inject) simp_all
  finally show ?thesis by simp
qed

lemma get_packet_holds:
  assumes "pk_holds q (p # ps)"
  shows "fst (get_packet q) = p" "pk_holds (snd (get_packet q)) ps"
proof -
  from assms obtain t where t: "t < 1024" "unat (ptail q) = 16 * t" "length (pbuf q) = 16384" "length ps < 1023"
    and hd: "unat (phead q) = 16 * ((t + Suc (length ps)) mod 1024)"
    and g: "\<And>i. i < Suc (length ps) \<Longrightarrow> packet_of (get_at ((t + i) mod 1024 * 16) 16 (pbuf q)) = (p # ps) ! i"
    by (auto simp: pk_holds_def)
  show "fst (get_packet q) = p" using g [of 0] t(1,2) by (simp add: get_packet_def mult.commute)
  have "(Suc t mod 1024 + i) mod 1024 = (t + Suc i) mod 1024" for i by (simp add: mod_simps)
  then show "pk_holds (snd (get_packet q)) ps"
    using next_slot [OF t(2,1)] t hd g [of "Suc i" for i] unfolding pk_holds_def
    by (intro exI [of _ "Suc t mod 1024"]) (simp add: get_packet_def)
qed

lemma read_packets_holds:
  "pk_holds q ps \<Longrightarrow> fst (read_packets n q) = take n ps \<and> pk_holds (snd (read_packets n q)) (drop n ps)"
proof (induction n arbitrary: q ps)
  case (Suc n)
  show ?case
  proof (cases ps)
    case (Cons p rs)
    then show ?thesis
      using Suc.IH [of "snd (get_packet q)" rs] get_packet_holds [of q p rs] Suc.prems pkg_empty_iff [OF Suc.prems]
      by (simp add: case_prod_unfold Let_def)
  qed (use Suc.prems pkg_empty_iff [OF Suc.prems] in simp)
qed simp

section \<open>What the mouse sends\<close>

record motion =
  mv_x :: int
  mv_y :: int
  mv_left :: bool
  mv_right :: bool
  mv_middle :: bool

text \<open>The three bytes of the protocol, with the ninth bit of both differences in the first byte, and the packet that a
  reader should see.\<close>

definition motion_ok :: "motion \<Rightarrow> bool" where
  "motion_ok v \<longleftrightarrow> - 255 \<le> mv_x v \<and> mv_x v \<le> 255 \<and> - 255 \<le> mv_y v \<and> mv_y v \<le> 255"

definition motion_bytes :: "motion \<Rightarrow> u8 list" where
  "motion_bytes v =
     [(if mv_left v then 1 else 0) OR (if mv_right v then 2 else 0) OR (if mv_middle v then 4 else 0) OR 8 OR
        (if mv_x v < 0 then 0x10 else 0) OR (if mv_y v < 0 then 0x20 else 0), word_of_int (mv_x v), word_of_int (mv_y v)]"

definition motion_packet :: "motion \<Rightarrow> mouse_device_packet" where
  "motion_packet v = \<lparr>pk_magic = 0xFEED1234, x_difference = word_of_int (mv_x v), y_difference = word_of_int (mv_y v),
     buttons = (if mv_left v then 1 else 0) OR (if mv_right v then 2 else 0) OR (if mv_middle v then 4 else 0)\<rparr>"

lemma mouse_delta_motion:
  assumes "- 255 \<le> d" "d \<le> 255"
  shows "mouse_delta (word_of_int d) (d < 0) = word_of_int d"
proof -
  have u: "ucast (word_of_int d :: u8) = (word_of_int (d mod 256) :: u32)"
    by (simp add: unsigned_of_int take_bit_eq_mod)
  show ?thesis
  proof (cases "d < 0")
    case True
    then have m: "d mod 256 = d + 256" using assms by (smt (verit) mod_add_self2 mod_pos_pos_trivial)
    have "(word_of_int d :: u8) \<noteq> 0"
    proof
      assume "(word_of_int d :: u8) = 0"
      then have "uint (word_of_int d :: u8) = 0" by simp
      then have "d mod 256 = 0" by (simp add: uint_word_of_int_eq take_bit_eq_mod)
      then show False using m True assms by simp
    qed
    then show ?thesis using True u m by (simp add: mouse_delta_def)
  next
    case False
    then show ?thesis using u assms by (simp add: mouse_delta_def)
  qed
qed

lemma motion_first_byte:
  fixes v defines "b \<equiv> hd (motion_bytes v)"
  shows "b AND 0x08 \<noteq> 0" "b AND 0x40 = 0" "b AND 0x80 = 0" "b AND 0x10 \<noteq> 0 \<longleftrightarrow> mv_x v < 0" "b AND 0x20 \<noteq> 0 \<longleftrightarrow> mv_y v < 0"
    "b AND 0x01 \<noteq> 0 \<longleftrightarrow> mv_left v" "b AND 0x02 \<noteq> 0 \<longleftrightarrow> mv_right v" "b AND 0x04 \<noteq> 0 \<longleftrightarrow> mv_middle v"
  unfolding b_def by (simp_all add: motion_bytes_def)

primrec mouse_bytes :: "u8 list \<Rightarrow> input \<Rightarrow> input option" where
  "mouse_bytes [] s = Some s"
| "mouse_bytes (b # bs) s = do { s \<leftarrow> handle_ps2_mouse_scancode b s; mouse_bytes bs s }"

lemma mouse_bytes_append: "mouse_bytes (bs @ cs) s = do { s \<leftarrow> mouse_bytes bs s; mouse_bytes cs s }"
  by (induction bs arbitrary: s) (simp_all add: bind_assoc)

definition mouse_ready :: "input \<Rightarrow> bool" where
  "mouse_ready s \<longleftrightarrow> mouse_mode s = 0 \<and> mdata_stage s = 0 \<and> length (mdata_buf s) = 4 \<and> wait_idle (p_proc_list (mouse s)) (iks s)"

lemma motion_ok_packet:
  assumes v: "motion_ok v" and r: "mouse_ready s" and q: "pk_holds (mouse s) ps" "length ps < 1023"
  shows "\<exists>s'. mouse_bytes (motion_bytes v) s = Some s' \<and> mouse_ready s' \<and> pk_holds (mouse s') (ps @ [motion_packet v])"
proof -
  note d = v [unfolded motion_ok_def] and r' = r [unfolded mouse_ready_def]
  obtain b0 b1 b2 where b: "motion_bytes v = [b0, b1, b2]" "b1 = word_of_int (mv_x v)" "b2 = word_of_int (mv_y v)"
    by (simp add: motion_bytes_def)
  have f: "b0 AND 0x08 \<noteq> 0" "b0 AND 0x40 = 0" "b0 AND 0x80 = 0" "b0 AND 0x10 \<noteq> 0 \<longleftrightarrow> mv_x v < 0" "b0 AND 0x20 \<noteq> 0 \<longleftrightarrow> mv_y v < 0"
    "b0 AND 0x01 \<noteq> 0 \<longleftrightarrow> mv_left v" "b0 AND 0x02 \<noteq> 0 \<longleftrightarrow> mv_right v" "b0 AND 0x04 \<noteq> 0 \<longleftrightarrow> mv_middle v"
    using motion_first_byte [of v] unfolding b(1) list.sel by blast+
  let ?m = "(mdata_buf s)[0 := b0, 1 := b1, 2 := b2]"
  have m: "?m ! 0 = b0" "?m ! 1 = b1" "?m ! 2 = b2" using r' by simp_all
  have dl: "mouse_delta b1 (b0 AND 0x10 \<noteq> 0) = word_of_int (mv_x v)" "mouse_delta b2 (b0 AND 0x20 \<noteq> 0) = word_of_int (mv_y v)"
    unfolding f b(2,3) using d by (intro mouse_delta_motion; simp)+
  have bt: "mouse_buttons 0 ?m = buttons (motion_packet v)"
    unfolding mouse_buttons_def m f Let_def by (simp add: motion_packet_def)
  have pk: "mouse_packet 0 ?m = motion_packet v"
    unfolding mouse_packet_def m dl bt f(2,3) by (simp add: motion_packet_def)
  obtain q' where put: "put_packet (motion_packet v) (mouse s) = (True, q')" "pk_holds q' (ps @ [motion_packet v])"
    "p_proc_list q' = p_proc_list (mouse s)"
    using put_packet_room [OF q, of "motion_packet v"] by (metis (full_types) prod.collapse)
  let ?s = "s\<lparr>mdata_buf := ?m, mdata_stage := 0, mouse := q'\<rparr>"
  have "wake (p_proc_list q') ?s = Some ?s" using r' put(3) by (intro wake_idle) simp
  moreover have "make_mouse_packet (s\<lparr>mdata_buf := ?m, mdata_stage := 2\<rparr>) = wake (p_proc_list q') ?s"
    unfolding make_mouse_packet_def using r' pk put(1) by (cases s) simp
  ultimately have "mouse_bytes (motion_bytes v) s = Some ?s"
    using r' f(1) unfolding b(1) by (cases s) (simp add: handle_ps2_mouse_scancode_def set_mdata_def)
  moreover have "mouse_ready ?s" using r' put(3) by (simp add: mouse_ready_def)
  ultimately show ?thesis using put(2) by (intro exI [of _ ?s]) simp
qed

lemma motions:
  assumes "\<forall>v \<in> set vs. motion_ok v" "mouse_ready s" "pk_holds (mouse s) ps" "length ps + length vs \<le> 1023"
  shows "\<exists>s'. mouse_bytes (concat (map motion_bytes vs)) s = Some s' \<and> mouse_ready s' \<and>
    pk_holds (mouse s') (ps @ map motion_packet vs)"
  using assms
proof (induction vs arbitrary: s ps)
  case (Cons v vs)
  obtain s' where s': "mouse_bytes (motion_bytes v) s = Some s'" "mouse_ready s'" "pk_holds (mouse s') (ps @ [motion_packet v])"
    using motion_ok_packet [of v s ps] Cons.prems by auto
  from Cons.IH [OF _ s'(2,3)] Cons.prems s'(1) show ?case by (auto simp: mouse_bytes_append)
qed auto

text \<open>C16. The mouse. Between \<open>-255\<close> and 255 in both directions and with any buttons, the bytes of a sequence of
  movements lead to a state in which reading gives the packets that were waiting followed by one packet for
  each movement, in order, with its differences as signed 32-bit numbers and its buttons. The value that \<open>read\<close> returns
  is \<open>count\<close> less the packets that were not available, not the number of bytes.\<close>

theorem mouse_motions_read:
  assumes "\<forall>v \<in> set vs. motion_ok v" "mouse_ready s" "pk_holds (mouse s) ps" "length ps + length vs \<le> 1023"
    and "ps @ map motion_packet vs \<noteq> []" "n < 1000000"
  shows "\<exists>s1 s2. mouse_bytes (concat (map motion_bytes vs)) s = Some s1 \<and> mouse_ready s1 \<and>
    read_pcmouse W wait flags (of_nat (16 * n)) s1 =
      Some (of_nat (16 * n - (n - min n (length ps + length vs))), take n (ps @ map motion_packet vs), s2) \<and>
    pk_holds (mouse s2) (drop n (ps @ map motion_packet vs))"
proof -
  let ?ps = "ps @ map motion_packet vs"
  from motions [OF assms(1-4)] obtain s1 where
    s1: "mouse_bytes (concat (map motion_bytes vs)) s = Some s1" "mouse_ready s1" "pk_holds (mouse s1) ?ps" by blast
  have ne: "\<not> pkg_empty (mouse s1)" using pkg_empty_iff [OF s1(3)] assms(5) by blast
  have u: "unat (of_nat (16 * n) :: u32) = 16 * n" using assms(6) by (intro unat_of_nat_32) simp
  have c: "(of_nat (16 * n) :: u32) mod 16 = 0" "unat ((of_nat (16 * n) :: u32) div 16) = n"
    using u by (simp_all add: word_eq_unat32 unat_mod_word unat_div_word del: of_nat_mult)
  define k where "k = length (take n ?ps)"
  have k: "k \<le> n" "k = min n (length ps + length vs)" by (simp_all add: k_def min.commute)
  have "unat (of_nat k :: u32) = k" using assms(6) k(1) by (intro unat_of_nat_32) simp
  then have i: "unat ((of_nat (16 * n) :: u32) div 16 - of_nat k) = n - k"
    using c(2) k(1) by (subst unat_sub_word) (simp_all del: of_nat_mult)
  have "unat ((of_nat (16 * n) :: u32) - (of_nat (16 * n) div 16 - of_nat k)) = 16 * n - (n - k)"
    using u i by (subst unat_sub_word) (simp_all del: of_nat_mult)
  then have r: "(of_nat (16 * n) :: u32) - (of_nat (16 * n) div 16 - of_nat k) = of_nat (16 * n - (n - k))"
    by (metis of_nat_unat_32)
  obtain q2 where rp: "read_packets n (mouse s1) = (take n ?ps, q2)" "pk_holds q2 (drop n ?ps)"
    using read_packets_holds [OF s1(3), of n] by (metis prod.collapse)
  have z: "(if x \<noteq> 0 then x else 0) = x" for x :: u32 by simp
  obtain c where c': "(of_nat (16 * n) :: u32) = c" by blast
  note facts = c [unfolded c'] r [unfolded c'] k_def [symmetric]
  let ?s2 = "s1\<lparr>iks := DECLARE_WAITQUEUE wait (running_thread (iks s1)) (iks s1), mouse := q2\<rparr>"
  have "read_pcmouse W wait flags c s1 = Some (c - (c div 16 - of_nat k), take n ?ps, ?s2)"
    unfolding read_pcmouse_def by (simp only: facts(1,2) ASSERT_bind z Let_def) (simp add: ne rp(1) facts(2,4) z k(2) min.commute del: take_append)
  then show ?thesis using s1 rp(2) facts(3) k(2) unfolding c' by (intro exI [of _ s1] exI [of _ ?s2]) simp
qed

lemma started_mouse: "mouse_ready started_input" "pk_holds (mouse started_input) []"
proof -
  show "mouse_ready started_input"
    using init_wait_idle [of "0xc0120008"]
    by (simp add: started_input_def pc_kbd_init_def pc_mouse_init_def sample_input_def mouse_ready_def wqh_task_list_def)
  show "pk_holds (mouse started_input) []" unfolding pk_holds_def
    by (intro exI [of _ 0]) (simp add: started_input_def pc_kbd_init_def pc_mouse_init_def sample_input_def)
qed

theorem mouse_motions_read_witness:
  "\<exists>s1 s2. mouse_bytes [0x29, 5, 0xf9, 0x1a, 0xff, 0] started_input = Some s1 \<and>
     read_pcmouse (\<lambda>_. None) 0xc00ff000 0 32 s1 =
       Some (32, [\<lparr>pk_magic = 0xFEED1234, x_difference = 5, y_difference = -7, buttons = 1\<rparr>,
                  \<lparr>pk_magic = 0xFEED1234, x_difference = -1, y_difference = 0, buttons = 2\<rparr>], s2)"
proof -
  let ?v = "\<lparr>mv_x = 5, mv_y = -7, mv_left = True, mv_right = False, mv_middle = False\<rparr>"
  let ?w = "\<lparr>mv_x = -1, mv_y = 0, mv_left = False, mv_right = True, mv_middle = False\<rparr>"
  have "concat (map motion_bytes [?v, ?w]) = [0x29, 5, 0xf9, 0x1a, 0xff, 0]" by (simp add: motion_bytes_def)
  then show ?thesis
    using mouse_motions_read [OF _ started_mouse, where vs = "[?v, ?w]" and n = 2 and W = "\<lambda>_. None" and wait = "0xc00ff000"
        and flags = 0] by (auto simp: motion_ok_def motion_packet_def)
qed

text \<open>A movement by -256, whose byte is 0, is lost.\<close>

lemma delta_256_lost: "mouse_delta 0 True = 0"
  by (simp add: mouse_delta_def)

section \<open>Types of the state\<close>

definition byte_ring_ok :: "in_queue \<Rightarrow> bool" where
  "byte_ring_ok q \<longleftrightarrow> qhead q < 2048 \<and> qtail q < 2048"

definition pkg_ring_ok :: "pkg_queue \<Rightarrow> bool" where
  "pkg_ring_ok q \<longleftrightarrow> length (pbuf q) = 16384 \<and> unat (phead q) + 16 \<le> 16384 \<and> unat (ptail q) + 16 \<le> 16384 \<and>
     phead q mod 16 = 0 \<and> ptail q mod 16 = 0"

definition input_ok :: "input \<Rightarrow> bool" where
  "input_ok s \<longleftrightarrow> byte_ring_ok (kbd s) \<and> byte_ring_ok (aux s) \<and> pkg_ring_ok (mouse s) \<and> length (mdata_buf s) = 4 \<and>
     mdata_stage s < 4"

lemma next_slot_ok:
  assumes "unat (p :: u32) + 16 \<le> 16384" "p mod 16 = 0"
  shows "unat ((p + 16) AND 16383) + 16 \<le> 16384" "((p + 16) AND 16383) mod 16 = 0"
proof -
  have "unat p mod 16 = 0" using assms(2) by (simp add: word_eq_unat32 unat_mod_word)
  then have k: "unat p = 16 * (unat p div 16)" "unat p div 16 < 1024" using assms(1) by auto
  note n = next_slot [OF k]
  have "Suc (unat p div 16) mod 1024 < 1024" by simp
  then show "unat ((p + 16) AND 16383) + 16 \<le> 16384" "((p + 16) AND 16383) mod 16 = 0"
    using n by (simp_all add: word_eq_unat32 unat_mod_word)
qed

lemma put_in_queue_ok: "byte_ring_ok q \<Longrightarrow> byte_ring_ok (snd (put_in_queue b q))"
  by (auto simp: byte_ring_ok_def put_in_queue_def and_low_mod word_less_nat_alt unat_mod_word Let_def)

lemma get_from_queue_ok: "byte_ring_ok q \<Longrightarrow> byte_ring_ok (snd (get_from_queue q))"
  by (auto simp: byte_ring_ok_def get_from_queue_def and_low_mod word_less_nat_alt unat_mod_word)

lemma put_packet_ok: "pkg_ring_ok q \<Longrightarrow> pkg_ring_ok (snd (put_packet p q))"
  using packet_codec.enc_length [of p] next_slot_ok [of "phead q"] by (auto simp: pkg_ring_ok_def put_packet_def Let_def)

lemma get_packet_ok: "pkg_ring_ok q \<Longrightarrow> pkg_ring_ok (snd (get_packet q))"
  using next_slot_ok [of "ptail q"] by (auto simp: pkg_ring_ok_def get_packet_def)

lemma read_bytes_ok: "byte_ring_ok q \<Longrightarrow> byte_ring_ok (snd (read_bytes n q)) \<and> length (fst (read_bytes n q)) \<le> n"
  by (induction n arbitrary: q) (auto simp: case_prod_unfold Let_def get_from_queue_ok)

lemma read_packets_ok: "pkg_ring_ok q \<Longrightarrow> pkg_ring_ok (snd (read_packets n q)) \<and> length (fst (read_packets n q)) \<le> n"
  by (induction n arbitrary: q) (auto simp: case_prod_unfold Let_def get_packet_ok)

lemma wake_input_ok: "wake q s = Some s' \<Longrightarrow> input_ok s' = input_ok s"
  by (auto simp: wake_def input_ok_def)

lemma with_iks_input_ok: "with_iks f s = Some s' \<Longrightarrow> input_ok s' = input_ok s"
  by (auto simp: with_iks_def input_ok_def)

lemma modifiers_ok [simp]:
  "input_ok (release_key c s) = input_ok s" "input_ok (press_modifier c s) = input_ok s"
  "input_ok (s\<lparr>ext_scancode := b\<rparr>) = input_ok s"
  by (simp_all add: release_key_def press_modifier_def input_ok_def)

lemma put_kbd_ok:
  assumes "input_ok s" "put_in_queue key (kbd s) = (kept, q)"
    and "(if kept then wake (proc_list q) (s\<lparr>kbd := q\<rparr>) else Some (s\<lparr>kbd := q\<rparr>)) = Some s'"
  shows "input_ok s'"
proof -
  have "byte_ring_ok q" using put_in_queue_ok [of "kbd s" key] assms(1,2) by (simp add: input_ok_def)
  then have "input_ok (s\<lparr>kbd := q\<rparr>)" using assms(1) by (simp add: input_ok_def)
  then show ?thesis using assms(3) wake_input_ok by (auto split: if_splits)
qed

lemma keyboard_event_ok:
  assumes h: "handle_keyboard_event c s = Some s'" and ok: "input_ok s"
  shows "input_ok s'"
proof -
  obtain c1 s1 where e: "(if ext_scancode s then (0xe000 OR c, s\<lparr>ext_scancode := False\<rparr>) else (c, s)) = (c1, s1)"
    by (cases "ext_scancode s") auto
  then have ok1: "input_ok s1" using ok by (auto split: if_splits)
  note h' = h [unfolded handle_keyboard_event_def e Let_def prod.case]
  show ?thesis
  proof (cases "c = 0xe0 \<or> c1 AND 0x0080 \<noteq> 0")
    case True
    then show ?thesis using h' ok ok1 by (auto split: if_splits)
  next
    case False
    define key where "key = (if use_shift c1 (shift_status s1) (caps_lock_status s1) then snd (keymap ! unat (c1 AND 0x00ff))
      else fst (keymap ! unat (c1 AND 0x00ff)))"
    obtain kept q where q: "put_in_queue key (kbd s1) = (kept, q)" by (cases "put_in_queue key (kbd s1)")
    note g = h' [folded key_def, unfolded q prod.case]
    from g False have "(if kept then wake (proc_list q) (s1\<lparr>kbd := q\<rparr>) else Some (s1\<lparr>kbd := q\<rparr>)) = Some s' \<or>
        s' = press_modifier c1 s1 \<or> s' = s1"
      by (simp split: if_split_asm)
    then show ?thesis using put_kbd_ok [OF ok1 q] ok1 by auto
  qed
qed

lemma set_mdata_ok [simp]: "input_ok (set_mdata i b s) = input_ok s"
  by (simp add: set_mdata_def input_ok_def)

lemma make_mouse_packet_ok:
  assumes "make_mouse_packet s = Some s'" "input_ok s" shows "input_ok s'"
proof -
  obtain kept q where q: "put_packet (mouse_packet (mouse_mode s) (mdata_buf s)) (mouse s) = (kept, q)"
    by (cases "put_packet (mouse_packet (mouse_mode s) (mdata_buf s)) (mouse s)")
  have "pkg_ring_ok q" using put_packet_ok [of "mouse s"] assms(2) q unfolding input_ok_def by (metis snd_conv)
  then have "input_ok (s\<lparr>mdata_stage := 0, mouse := q\<rparr>)" using assms(2) by (simp add: input_ok_def)
  then show ?thesis using assms(1) q wake_input_ok unfolding make_mouse_packet_def by (auto simp: Let_def split: if_splits)
qed

lemma next_stage_ok: "input_ok s \<Longrightarrow> mdata_stage s < 3 \<Longrightarrow> input_ok (s\<lparr>mdata_stage := mdata_stage s + 1\<rparr>)"
proof -
  assume a: "input_ok s" "mdata_stage s < 3"
  then have "unat (mdata_stage s) < 3" by (simp add: word_less_nat_alt)
  then have "unat (mdata_stage s + 1) < 4" by (simp add: unat_word_ariths)
  then show ?thesis using a(1) by (simp add: input_ok_def word_less_nat_alt)
qed

lemma mouse_scancode_ok:
  assumes "handle_ps2_mouse_scancode b s = Some s'" "input_ok s" shows "input_ok s'"
proof -
  have st: "mdata_stage (set_mdata i b s) = mdata_stage s" for i by (simp add: set_mdata_def)
  have "s' = set_mdata 0 b s \<or> s' = s \<or> (\<exists>i. make_mouse_packet (set_mdata i b s) = Some s') \<or>
      (\<exists>i. mdata_stage s < 3 \<and> s' = (set_mdata i b s)\<lparr>mdata_stage := mdata_stage (set_mdata i b s) + 1\<rparr>)"
    using assms(1) unfolding handle_ps2_mouse_scancode_def Let_def st by (auto split: if_split_asm)
  then show ?thesis using assms(2) make_mouse_packet_ok next_stage_ok [of "set_mdata _ b s"] st by auto
qed

lemma mouse_event_ok:
  assumes "handle_mouse_event b s = Some s'" "input_ok s" shows "input_ok s'"
proof -
  obtain kept q where q: "put_in_queue b (aux s) = (kept, q)" by (cases "put_in_queue b (aux s)")
  have "byte_ring_ok q" using put_in_queue_ok [of "aux s" b] assms(2) q unfolding input_ok_def by (metis snd_conv)
  then have "input_ok (s\<lparr>aux := q\<rparr>)" using assms(2) by (simp add: input_ok_def)
  then show ?thesis using assms(1) q wake_input_ok unfolding handle_mouse_event_def by (auto simp: Let_def split: if_splits)
qed

lemma iks_input_ok [simp]: "input_ok (s\<lparr>iks := k\<rparr>) = input_ok s"
  by (simp add: input_ok_def)

definition keeps_input :: "(input \<Rightarrow> input option) \<Rightarrow> bool" where
  "keeps_input W \<longleftrightarrow> (\<forall>t t'. W t = Some t' \<longrightarrow> input_ok t \<longrightarrow> input_ok t')"

lemma keeps_inputD: "keeps_input W \<Longrightarrow> W t = Some t' \<Longrightarrow> input_ok t \<Longrightarrow> input_ok t'"
  by (simp add: keeps_input_def)

lemma sleep_once_ok:
  assumes "sleep_once W q wait s = Some s'" "input_ok s" "keeps_input W"
  shows "input_ok s'"
  using assms(1,2) unfolding sleep_once_def intr_disable_eq
  by (auto elim!: bind_SomeE split: if_splits dest!: with_iks_input_ok dest: keeps_inputD [OF assms(3)])

lemma mouse_repeat_ok:
  assumes "mouse_repeat W cur s = Some s'" "input_ok s" "keeps_input W"
  shows "input_ok s'"
  using assms
proof (induction rule: mouse_repeat.raw_induct [rotated 1, consumes 1])
  case (1 loop W cur s s')
  let ?s = "s\<lparr>iks := upd_tcb cur (\<lambda>t. t\<lparr>status := THREAD_TASK_WAITING\<rparr>) (iks s)\<rparr>"
  show ?case
  proof (cases "pkg_empty (mouse s)")
    case True
    with 1(2) obtain s1 s2 where s: "with_iks schedule_select ?s = Some s1"
      "(if running (iks s1) = running (iks ?s) then Some s1 else W s1) = Some s2" "loop W cur s2 = Some s'"
      by (auto simp: Let_def elim!: bind_SomeE)
    then have "input_ok s2" using with_iks_input_ok [OF s(1)] 1(3) keeps_inputD [OF 1(4)] by (auto split: if_splits)
    then show ?thesis using 1(1) s(3) 1(4) by blast
  next
    case False
    then show ?thesis using 1(2,3) by (auto simp: Let_def)
  qed
qed

lemma read_rings_ok:
  assumes "input_ok t"
  shows "input_ok (t\<lparr>iks := k, kbd := snd (read_bytes n (kbd t))\<rparr>)" "input_ok (t\<lparr>kbd := snd (read_bytes n (kbd t))\<rparr>)"
    "input_ok (t\<lparr>iks := k, aux := snd (read_bytes n (aux t))\<rparr>)" "input_ok (t\<lparr>aux := snd (read_bytes n (aux t))\<rparr>)"
    "input_ok (t\<lparr>iks := k, mouse := snd (read_packets n (mouse t))\<rparr>)" "input_ok (t\<lparr>mouse := snd (read_packets n (mouse t))\<rparr>)"
  using assms read_bytes_ok [of "kbd t" n] read_bytes_ok [of "aux t" n] read_packets_ok [of "mouse t" n]
  by (simp_all add: input_ok_def)

lemma read_kbd_ok:
  assumes "read_kbd W wait flags count s = Some (r, bs, s')" "input_ok s" "keeps_input W"
  shows "input_ok s'"
  using assms(1,2) sleep_once_ok [OF _ _ assms(3)] unfolding read_kbd_def
  by (auto simp: Let_def case_prod_unfold read_rings_ok elim!: bind_SomeE split: if_splits)

lemma read_aux_ok:
  assumes "read_aux W wait flags count s = Some (r, bs, s')" "input_ok s" "keeps_input W"
  shows "input_ok s'"
  using assms(1,2) sleep_once_ok [OF _ _ assms(3)] unfolding read_aux_def
  by (auto simp: Let_def case_prod_unfold read_rings_ok elim!: bind_SomeE split: if_splits)

lemma read_pcmouse_ok:
  assumes "read_pcmouse W wait flags count s = Some (r, ps, s')" "input_ok s" "keeps_input W"
  shows "input_ok s'"
  using assms(1,2) mouse_repeat_ok [OF _ _ assms(3)] unfolding read_pcmouse_def intr_disable_eq
  by (auto simp: Let_def case_prod_unfold ASSERT_bind read_rings_ok elim!: bind_SomeE split: if_splits dest!: with_iks_input_ok)

text \<open>What may happen to the devices: interrupts, calls that read, opening the raw mouse device, and any change of the rest of the
  kernel.\<close>

inductive input_step :: "softirq_table \<Rightarrow> (input \<Rightarrow> input option) \<Rightarrow> input \<Rightarrow> input \<Rightarrow> bool" for hs W where
  Keyboard: "inthandler21 hs pending s = Some s' \<Longrightarrow> input_step hs W s s'"
| Mouse: "inthandler2C hs b s = Some s' \<Longrightarrow> input_step hs W s s'"
| Read_kbd: "read_kbd W wait flags count s = Some (r, bs, s') \<Longrightarrow> input_step hs W s s'"
| Read_aux: "read_aux W wait flags count s = Some (r, bs, s') \<Longrightarrow> input_step hs W s s'"
| Read_mouse: "read_pcmouse W wait flags count s = Some (r, ps, s') \<Longrightarrow> input_step hs W s s'"
| Open_aux: "input_step hs W s (s\<lparr>aux := (aux s)\<lparr>qhead := 0, qtail := 0\<rparr>\<rparr>)"
| Kernel: "input_step hs W s (s\<lparr>iks := k\<rparr>)"

lemma input_step_ok:
  assumes "input_step hs W s s'" "input_ok s" and W: "keeps_input W"
  shows "input_ok s'"
  using assms(1,2)
proof cases
  case (Keyboard pending)
  then show ?thesis using assms(2) keyboard_event_ok
    by (auto simp: inthandler21_def Let_def elim!: bind_SomeE dest!: with_iks_input_ok)
next
  case (Mouse b)
  then show ?thesis using assms(2) mouse_scancode_ok mouse_event_ok
    by (auto simp: inthandler2C_def elim!: bind_SomeE dest!: with_iks_input_ok)
next
  case Open_aux
  then show ?thesis using assms(2) by (simp add: input_ok_def byte_ring_ok_def)
qed (use assms(2) W read_kbd_ok read_aux_ok read_pcmouse_ok in auto)

text \<open>C27. Types of the input devices. However interrupts with arbitrary bytes, reads that sleep, opens and the rest of the
  kernel follow each other, the indices of the three rings stay inside their buffers, those of the mouse at whole packets, so
  that no packet is stored or read across the end of its buffer, and the mouse decoder stays in one of its four
  stages.\<close>

theorem input_types:
  assumes "(input_step hs W)\<^sup>*\<^sup>* s s'" "input_ok s" "keeps_input W"
  shows "input_ok s'"
  using assms(1)
proof (induction rule: rtranclp_induct)
  case (step t u)
  then show ?case using input_step_ok assms(3) by blast
qed (rule assms(2))

lemma started_ok: "input_ok started_input"
  by (simp add: input_ok_def byte_ring_ok_def pkg_ring_ok_def started_input_def pc_kbd_init_def pc_mouse_init_def sample_input_def)

text \<open>Of the two bytes that the keyboard has sent the handler takes the second; then the mouse sends its first byte.\<close>

theorem input_types_witness:
  "\<exists>s1 s2. inthandler21 (\<lambda>_ _. None) [0x2a, 0x10] started_input = Some s1 \<and> inthandler2C (\<lambda>_ _. None) 0x08 s1 = Some s2 \<and>
     input_ok s2"
proof -
  let ?hs = "\<lambda>_ _. None :: kstate option"
  have "keymap ! 0x10 = (0x71, 0x51)" by (simp add: keymap_def)
  then obtain q where q: "handle_keyboard_event 0x10 started_input = Some (started_input\<lparr>kbd := q\<rparr>)"
    using make_key [of 16 "0x71" started_input "[]"] started_kbd by (auto simp: kbd_ready_def)
  let ?s1 = "started_input\<lparr>kbd := q\<rparr>"
  have irq: "with_iks (irq_exit ?hs) s = Some s" if "iks s = iks started_input" for s
    using that by (cases s) (simp add: with_iks_def irq_exit_def started_input_def pc_kbd_init_def pc_mouse_init_def sample_input_def
        init_waitqueue_head_def upd_lh_def boot_kstate_def)
  have s1: "inthandler21 ?hs [0x2a, 0x10] started_input = Some ?s1" using q irq [of ?s1] by (simp add: inthandler21_def)
  let ?t = "set_mdata 0 0x08 ?s1\<lparr>mdata_stage := 1\<rparr>"
  let ?s2 = "?t\<lparr>aux := snd (put_in_queue 0x08 (aux ?t))\<rparr>"
  have st: "mdata_stage ?s1 = 0" "aux ?t = \<lparr>qhead = 0, qtail = 0, proc_list = 0, qdata = (\<lambda>_. 0)\<rparr>"
    by (simp_all add: started_input_def pc_kbd_init_def pc_mouse_init_def sample_input_def set_mdata_def)
  have "handle_ps2_mouse_scancode 0x08 ?s1 = Some ?t" using st(1) by (simp add: handle_ps2_mouse_scancode_def set_mdata_def)
  moreover have "handle_mouse_event 0x08 ?t = Some ?s2"
    unfolding handle_mouse_event_def st(2) by (simp add: put_in_queue_def wake_def wake_up_interruptible_def wake_up_q_def set_mdata_def)
  ultimately have s2: "inthandler2C ?hs 0x08 ?s1 = Some ?s2" using irq [of ?s2] by (simp add: inthandler2C_def set_mdata_def)
  have "(input_step ?hs (\<lambda>_. None))\<^sup>*\<^sup>* started_input ?s2"
    using input_step.Keyboard [OF s1] input_step.Mouse [OF s2] by (meson converse_rtranclp_into_rtranclp rtranclp.rtrancl_refl)
  from input_types [OF this started_ok] have "input_ok ?s2" by (simp add: keeps_input_def)
  then show ?thesis using s1 s2 by blast
qed

section \<open>The controller\<close>

text \<open>Its ports: \<open>pin n p\<close> is what the \<open>n\<close>-th read gives when it reads port \<open>p\<close>; the writes are recorded in order.\<close>

record ports =
  pin :: "nat \<Rightarrow> u16 \<Rightarrow> u8"
  pn :: nat
  pout :: "(u16 \<times> u8) list"

definition inb :: "u16 \<Rightarrow> ports \<Rightarrow> u8 \<times> ports" where
  "inb p r = (pin r (pn r) p, r\<lparr>pn := pn r + 1\<rparr>)"

definition outb :: "u16 \<Rightarrow> u8 \<Rightarrow> ports \<Rightarrow> ports" where
  "outb p v r = r\<lparr>pout := pout r @ [(p, v)]\<rparr>"

primrec ps2_wait :: "u8 \<Rightarrow> nat \<Rightarrow> ports \<Rightarrow> u8 \<times> ports" where
  "ps2_wait msk 0 r = (1, r)"
| "ps2_wait msk (Suc timeout) r = (let (st, r) = inb 0x64 r in if st AND msk \<noteq> 0 then (0, r) else ps2_wait msk timeout r)"

definition ps2_wait_output :: "ports \<Rightarrow> u8 \<times> ports" where
  "ps2_wait_output = ps2_wait 0x1 (100000 - 1)"

definition ps2_wait_input :: "ports \<Rightarrow> u8 \<times> ports" where
  "ps2_wait_input = ps2_wait (push_bit 1 0x1) (100000 - 1)"

definition ps2_command :: "u8 \<Rightarrow> ports \<Rightarrow> ports" where
  "ps2_command cmd r = outb 0x64 cmd (snd (ps2_wait_input r))"

definition ps2_command_response :: "u8 \<Rightarrow> ports \<Rightarrow> u8 \<times> ports" where
  "ps2_command_response cmd r = inb 0x60 (snd (ps2_wait_output (outb 0x64 cmd (snd (ps2_wait_input r)))))"

definition ps2_command_arg :: "u8 \<Rightarrow> u8 \<Rightarrow> ports \<Rightarrow> ports" where
  "ps2_command_arg cmd arg r = outb 0x60 arg (snd (ps2_wait_output (outb 0x64 cmd (snd (ps2_wait_input r)))))"

definition ps2_read_byte :: "ports \<Rightarrow> u8 \<times> ports" where
  "ps2_read_byte r = inb 0x60 (snd (ps2_wait_output r))"

definition kbd_write :: "u8 \<Rightarrow> ports \<Rightarrow> u8 \<times> ports" where
  "kbd_write data r = inb 0x60 (snd (ps2_wait_output (outb 0x60 data (snd (ps2_wait_input r)))))"

definition mouse_write :: "u8 \<Rightarrow> ports \<Rightarrow> u8 \<times> ports" where
  "mouse_write data r = inb 0x60 (snd (ps2_wait_output (ps2_command_arg 0xd4 data r)))"

text \<open>The part of \<^verbatim>\<open>ps2hid_init\<close> that enables the two devices.\<close>

definition ps2_enable :: "ports \<Rightarrow> ports" where
  "ps2_enable r =
     (let r = outb 0x64 0x60 (snd (ps2_wait_input r));
          r = outb 0x60 0x47 (snd (ps2_wait_input r));
          r = outb 0x64 0xd4 (snd (ps2_wait_input r))
      in outb 0x60 0xf4 (snd (ps2_wait_input r)))"

text \<open>The loop for writing waits until the input buffer is full: with an idle controller, whose bit 1 is 0, every
  wait uses up all its tries and reports a time-out, although the controller was ready.\<close>

lemma ps2_wait_idle:
  assumes "\<And>n. pin r n 0x64 AND msk = 0"
  shows "ps2_wait msk t r = (1, r\<lparr>pn := pn r + t\<rparr>)"
  using assms
proof (induction t arbitrary: r)
  case (Suc t)
  then show ?case using Suc.IH [of "r\<lparr>pn := Suc (pn r)\<rparr>"] by (simp add: inb_def)
qed simp

lemma idle_controller_times_out:
  assumes "\<And>n. pin r n 0x64 AND 2 = 0"
  shows "ps2_wait_input r = (1, r\<lparr>pn := pn r + 99999\<rparr>)"
    and "pout (ps2_enable r) = pout r @ [(0x64, 0x60), (0x60, 0x47), (0x64, 0xd4), (0x60, 0xf4)]"
  using assms by (simp_all add: ps2_wait_input_def ps2_wait_idle ps2_enable_def outb_def Let_def del: ps2_wait.simps)

end
