(* ===== verification/Graphics.thy ===== *)
theory Graphics
  imports Stdio
begin

text \<open>
  Drawing into a frame buffer (\<^verbatim>\<open>core/lib/2d_graphics.c\<close>, \<^verbatim>\<open>core/include/gua/2d_graphics.h\<close>). Memory is a map from
  addresses to bytes; a context holds the addresses of the front buffer and of the buffer that is drawn
  into, which are the same without double buffering. The bitmap of a sprite and the font are parameters.
\<close>

section \<open>Colours\<close>

definition A_of :: "u32 \<Rightarrow> u32" where
  "A_of color = drop_bit 0x18 (color AND 0xFF000000)"

definition R_of :: "u32 \<Rightarrow> u32" where
  "R_of color = drop_bit 0x10 (color AND 0x00FF0000)"

definition G_of :: "u32 \<Rightarrow> u32" where
  "G_of color = drop_bit 0x8 (color AND 0x0000FF00)"

definition B_of :: "u32 \<Rightarrow> u32" where
  "B_of color = drop_bit 0x0 (color AND 0x000000FF)"

definition rgb :: "u8 \<Rightarrow> u8 \<Rightarrow> u8 \<Rightarrow> u32" where
  "rgb r g b = 0xFF000000 OR push_bit 16 (ucast r) OR push_bit 8 (ucast g) OR ucast b"

definition rgba :: "u8 \<Rightarrow> u8 \<Rightarrow> u8 \<Rightarrow> u8 \<Rightarrow> u32" where
  "rgba r g b a = push_bit 24 (ucast a) OR push_bit 16 (ucast r) OR push_bit 8 (ucast g) OR ucast b"

definition blend_channel :: "u32 \<Rightarrow> u32 \<Rightarrow> u16 \<Rightarrow> u8" where
  "blend_channel tp bt t = ucast (tp + drop_bit 16 ((bt * ucast t + 0x80) * 0x101))"

definition alpha_blend_rgba :: "u32 \<Rightarrow> u32 \<Rightarrow> u32" where
  "alpha_blend_rgba bt tp =
     (if A_of bt = 0 then tp
      else if A_of tp = 255 then tp
      else if A_of tp = 0 then bt
      else
        let a = ucast (A_of tp) :: u8;
            t = 0xFF XOR ucast a :: u16;
            d_r = blend_channel (R_of tp) (R_of bt) t;
            d_g = blend_channel (G_of tp) (G_of bt) t;
            d_b = blend_channel (B_of tp) (B_of bt) t;
            d_a = blend_channel (A_of tp) (A_of bt) t
        in rgba d_r d_g d_b d_a)"

text \<open>The fields of the graphics mode that the conversions use.\<close>

record vbe_mode_info =
  bits_per_pixel :: u8
  red_field_position :: u8
  green_field_position :: u8
  blue_field_position :: u8
  linear_red_mask_size :: u8
  linear_red_field_position :: u8
  linear_green_mask_size :: u8
  linear_green_field_position :: u8
  linear_blue_mask_size :: u8
  linear_blue_field_position :: u8

definition mask_of :: "u8 \<Rightarrow> u32" where
  "mask_of n = push_bit (unat n) 1 - 1"

text \<open>\<^verbatim>\<open>convert_a\<close> is never set: \<open>junk\<close> is what its memory holds.\<close>

definition convert_argb :: "u8 \<Rightarrow> vbe_mode_info \<Rightarrow> u32 \<Rightarrow> u32" where
  "convert_argb junk m color =
     (let orig_r = drop_bit 16 color AND 0xFF; orig_g = drop_bit 8 color AND 0xFF; orig_b = color AND 0xFF;
          (r, g, b) =
            (if bits_per_pixel m = 8 then (0, 0, orig_b)
             else (drop_bit (unat (8 - linear_red_mask_size m)) orig_r AND mask_of (linear_red_mask_size m),
                   drop_bit (unat (8 - linear_green_mask_size m)) orig_g AND mask_of (linear_green_mask_size m),
                   drop_bit (unat (8 - linear_blue_mask_size m)) orig_b AND mask_of (linear_blue_mask_size m)));
          byte = (\<lambda>c. ucast (ucast c :: u8)) :: u32 \<Rightarrow> u32
      in push_bit 24 (ucast junk) OR push_bit (unat (linear_red_field_position m)) (byte r) OR
         push_bit (unat (linear_green_field_position m)) (byte g) OR push_bit (unat (linear_blue_field_position m)) (byte b))"

definition convert_bbp :: "vbe_mode_info \<Rightarrow> u32 \<Rightarrow> u32" where
  "convert_bbp m color =
     (let orig_r = drop_bit (unat (red_field_position m)) color AND 0xFF;
          orig_g = drop_bit (unat (green_field_position m)) color AND 0xFF;
          orig_b = drop_bit (unat (blue_field_position m)) color AND 0xFF
      in if bits_per_pixel m = 8 then rgb 0 0 (ucast orig_b)
         else rgb (ucast (push_bit (unat (8 - linear_red_mask_size m)) orig_r AND mask_of (linear_red_mask_size m)))
                  (ucast (push_bit (unat (8 - linear_green_mask_size m)) orig_g AND mask_of (linear_green_mask_size m)))
                  (ucast (push_bit (unat (8 - linear_blue_mask_size m)) orig_b AND mask_of (linear_blue_mask_size m))))"

section \<open>Memory\<close>

definition load32 :: "u32 \<Rightarrow> (u32 \<Rightarrow> u8) \<Rightarrow> u32" where
  "load32 a m = ucast (m a) OR push_bit 8 (ucast (m (a + 1))) OR push_bit 16 (ucast (m (a + 2))) OR push_bit 24 (ucast (m (a + 3)))"

definition store32 :: "u32 \<Rightarrow> u32 \<Rightarrow> (u32 \<Rightarrow> u8) \<Rightarrow> u32 \<Rightarrow> u8" where
  "store32 a v m = m(a := ucast v, a + 1 := ucast (drop_bit 8 v), a + 2 := ucast (drop_bit 16 v), a + 3 := ucast (drop_bit 24 v))"

definition copy_bytes :: "u32 \<Rightarrow> u32 \<Rightarrow> nat \<Rightarrow> (u32 \<Rightarrow> u8) \<Rightarrow> u32 \<Rightarrow> u8" where
  "copy_bytes dst src n m = (\<lambda>a. if unat (a - dst) < n then m (src + (a - dst)) else m a)"

section \<open>Contexts\<close>

record gfx_context =
  gmem :: "u32 \<Rightarrow> u8"
  gwidth :: u32
  gheight :: u32
  gdepth :: u32
  gsize :: u32
  buffer :: u32
  backbuffer :: u32
  stride :: u32
  clips :: "u8 list option"
  clips_size :: u32

definition GFX_addr :: "gfx_context \<Rightarrow> u32 \<Rightarrow> u32 \<Rightarrow> u32" where
  "GFX_addr ctx x y = backbuffer ctx + (stride ctx * y + x * (gdepth ctx div 8))"

definition GFX :: "gfx_context \<Rightarrow> u32 \<Rightarrow> u32 \<Rightarrow> u32" where
  "GFX ctx x y = load32 (GFX_addr ctx x y) (gmem ctx)"

definition set_GFX :: "u32 \<Rightarrow> u32 \<Rightarrow> u32 \<Rightarrow> gfx_context \<Rightarrow> gfx_context" where
  "set_GFX x y color ctx = ctx\<lparr>gmem := store32 (GFX_addr ctx x y) color (gmem ctx)\<rparr>"

definition draw_pixel :: "u16 \<Rightarrow> u16 \<Rightarrow> u32 \<Rightarrow> gfx_context \<Rightarrow> gfx_context" where
  "draw_pixel X Y color ctx = set_GFX (ucast X) (ucast Y) color ctx"

definition fetch_color :: "gfx_context \<Rightarrow> u32 \<Rightarrow> u32 \<Rightarrow> u32" where
  "fetch_color ctx X Y = GFX ctx X Y"

definition clear_buffer :: "gfx_context \<Rightarrow> gfx_context" where
  "clear_buffer ctx = ctx\<lparr>gmem := (\<lambda>a. if unat (a - backbuffer ctx) < unat (gsize ctx) then 0 else gmem ctx a)\<rparr>"

section \<open>Damaged rows\<close>

definition is_in_clip :: "gfx_context \<Rightarrow> u32 \<Rightarrow> bool" where
  "is_in_clip ctx y =
     (case clips ctx of None \<Rightarrow> True
      | Some cl \<Rightarrow> if y <s 0 \<or> clips_size ctx \<le>s y then True else cl ! unat y \<noteq> 0)"

definition smax :: "u32 \<Rightarrow> u32 \<Rightarrow> u32" where
  "smax a b = (if b <s a then a else b)"

definition smin :: "u32 \<Rightarrow> u32 \<Rightarrow> u32" where
  "smin a b = (if a <s b then a else b)"

text \<open>\<^verbatim>\<open>malloc\<close> is taken to succeed here; the loop runs from a number that is not negative.\<close>

definition gfx_add_clip :: "u32 \<Rightarrow> u32 \<Rightarrow> u32 \<Rightarrow> u32 \<Rightarrow> gfx_context \<Rightarrow> gfx_context" where
  "gfx_add_clip x y w h ctx =
     (let (cl, n) = (case clips ctx of None \<Rightarrow> (replicate (unat (gheight ctx)) 0, gheight ctx) | Some cl \<Rightarrow> (cl, clips_size ctx));
          lo = smax y 0; hi = smin (y + h) n;
          rows = (if lo <s hi then [unat lo..<unat hi] else [])
      in ctx\<lparr>clips := Some (fold (\<lambda>i cl. cl[i := 1]) rows cl), clips_size := n\<rparr>)"

definition gfx_clear_clip :: "gfx_context \<Rightarrow> gfx_context" where
  "gfx_clear_clip ctx = ctx\<lparr>clips := map_option (\<lambda>cl. replicate (unat (clips_size ctx)) 0) (clips ctx)\<rparr>"

definition gfx_free_clip :: "gfx_context \<Rightarrow> gfx_context" where
  "gfx_free_clip ctx = ctx\<lparr>clips := None\<rparr>"

definition copy_row :: "nat \<Rightarrow> gfx_context \<Rightarrow> gfx_context" where
  "copy_row i ctx = ctx\<lparr>gmem := copy_bytes (buffer ctx + of_nat i * stride ctx) (backbuffer ctx + of_nat i * stride ctx)
     (unat (4 * gwidth ctx)) (gmem ctx)\<rparr>"

definition flip :: "gfx_context \<Rightarrow> gfx_context" where
  "flip ctx =
     (if clips ctx \<noteq> None
      then fold (\<lambda>i ctx. if is_in_clip ctx (of_nat i) then copy_row i ctx else ctx) [0..<unat (gheight ctx)] ctx
      else ctx\<lparr>gmem := copy_bytes (buffer ctx) (backbuffer ctx) (unat (gsize ctx)) (gmem ctx)\<rparr>)"

section \<open>Sprites\<close>

record sprite =
  swidth :: u16
  sheight :: u16
  sbitmap :: "nat \<Rightarrow> u32"
  salpha :: u8

definition SPRITE :: "sprite \<Rightarrow> nat \<Rightarrow> nat \<Rightarrow> u32" where
  "SPRITE sp x y = sbitmap sp (unat (swidth sp) * y + x)"

text \<open>The right and lower bound are compared as unsigned numbers, because one side is.\<close>

definition umin :: "u32 \<Rightarrow> u32 \<Rightarrow> u32" where
  "umin a b = (if a < b then a else b)"

definition embedded_pixel ::
    "sprite \<Rightarrow> u32 \<Rightarrow> u32 \<Rightarrow> u32 \<Rightarrow> u32 \<Rightarrow> u32 \<Rightarrow> u32 \<Rightarrow> nat \<Rightarrow> nat \<Rightarrow> gfx_context \<Rightarrow> gfx_context" where
  "embedded_pixel sp x y left tp right bt r k ctx =
     (let px = x + of_nat k; py = y + of_nat r in
      if px <s left \<or> right <s px \<or> py <s tp \<or> bt <s py then ctx
      else set_GFX px py (alpha_blend_rgba (GFX ctx px py) (SPRITE sp k r)) ctx)"

primrec sprite_rows ::
    "(nat \<Rightarrow> gfx_context \<Rightarrow> gfx_context) \<Rightarrow> u32 \<Rightarrow> u32 \<Rightarrow> u32 \<Rightarrow> nat list \<Rightarrow> gfx_context \<Rightarrow> gfx_context" where
  "sprite_rows row y tp bt [] ctx = ctx"
| "sprite_rows row y tp bt (r # rs) ctx =
     (if y + of_nat r <s tp then sprite_rows row y tp bt rs ctx
      else if bt <s y + of_nat r then ctx
      else if \<not> is_in_clip ctx (y + of_nat r) then sprite_rows row y tp bt rs ctx
      else sprite_rows row y tp bt rs (row r ctx))"

text \<open>The columns of an opaque sprite: the loop ends at the first one that is right of the bound.\<close>

primrec opaque_cols :: "sprite \<Rightarrow> u32 \<Rightarrow> u32 \<Rightarrow> u32 \<Rightarrow> nat \<Rightarrow> nat list \<Rightarrow> gfx_context \<Rightarrow> gfx_context" where
  "opaque_cols sp x y right r [] ctx = ctx"
| "opaque_cols sp x y right r (k # ks) ctx =
     (if x + of_nat k \<le>s right
      then opaque_cols sp x y right r ks (set_GFX (x + of_nat k) (y + of_nat r) (SPRITE sp k r OR 0xFF000000) ctx)
      else ctx)"

definition draw_sprite :: "sprite \<Rightarrow> u32 \<Rightarrow> u32 \<Rightarrow> gfx_context \<Rightarrow> gfx_context" where
  "draw_sprite sp x y ctx =
     (let left = smax x 0; tp = smax y 0;
          right = umin (x + ucast (swidth sp)) (gwidth ctx - 1);
          bt = umin (y + ucast (sheight sp)) (gheight ctx - 1);
          rows = [0..<unat (sheight sp)]
      in if salpha sp = 2 then
           sprite_rows (\<lambda>r. fold (embedded_pixel sp x y left tp right bt r) [0..<unat (swidth sp)]) y tp bt rows ctx
         else if salpha sp = 0 then
           let first = (if x <s left then unat (ucast (left - x) :: u16) else 0) in
           sprite_rows (\<lambda>r. opaque_cols sp x y right r [first..<unat (swidth sp)]) y tp bt rows ctx
         else ctx)"

section \<open>Rectangles\<close>

text \<open>A loop over a 16-bit counter. It need not end: the bound may be a larger number.\<close>

partial_function (option) for_u16 :: "u16 \<Rightarrow> (u16 \<Rightarrow> bool) \<Rightarrow> (u16 \<Rightarrow> 's \<Rightarrow> 's option) \<Rightarrow> 's \<Rightarrow> 's option" where
  "for_u16 i c body s = (if c i then do { s \<leftarrow> body i s; for_u16 (i + 1) c body s } else Some s)"

definition draw_fill :: "u32 \<Rightarrow> gfx_context \<Rightarrow> gfx_context option" where
  "draw_fill color ctx =
     for_u16 0 (\<lambda>y. ucast y < gheight ctx)
       (\<lambda>y. for_u16 0 (\<lambda>x. ucast x < gwidth ctx) (\<lambda>x ctx. Some (set_GFX (ucast x) (ucast y) color ctx))) ctx"

record point =
  pX :: u32
  pY :: u32

definition fill_rect_solid :: "point \<Rightarrow> point \<Rightarrow> u32 \<Rightarrow> gfx_context \<Rightarrow> gfx_context option" where
  "fill_rect_solid top_left bottom_right color ctx =
     for_u16 (ucast (pY top_left)) (\<lambda>y. ucast y <s pY bottom_right)
       (\<lambda>y. for_u16 (ucast (pX top_left)) (\<lambda>x. ucast x <s pX bottom_right) (\<lambda>x ctx. Some (draw_pixel x y color ctx))) ctx"

record rect =
  rx :: u32
  ry :: u32
  rwidth :: u32
  rheight :: u32

definition draw_rect_solid :: "rect \<Rightarrow> u32 \<Rightarrow> gfx_context \<Rightarrow> gfx_context option" where
  "draw_rect_solid r color ctx =
     for_u16 (ucast (ry r)) (\<lambda>y. ucast y < ry r + rheight r)
       (\<lambda>y. for_u16 (ucast (rx r)) (\<lambda>x. ucast x < rx r + rwidth r) (\<lambda>x ctx. Some (set_GFX (ucast x) (ucast y) color ctx))) ctx"

definition clear_screen :: "u8 \<Rightarrow> vbe_mode_info \<Rightarrow> u32 \<Rightarrow> gfx_context \<Rightarrow> gfx_context" where
  "clear_screen junk m color ctx =
     (let set_color = convert_argb junk m color in
      fold (\<lambda>x. fold (\<lambda>y. set_GFX (of_nat x) (of_nat y) set_color) [0..<unat (gheight ctx)]) [0..<unat (gwidth ctx)] ctx)"

section \<open>Text\<close>

text \<open>\<open>font i\<close> is byte \<open>i\<close> of the built-in font, \<open>row\<close> the one shown; characters are signed.\<close>

definition font_row :: "u8 \<Rightarrow> vbe_mode_info \<Rightarrow> u16 \<Rightarrow> u16 \<Rightarrow> u32 \<Rightarrow> nat \<Rightarrow> u8 \<Rightarrow> gfx_context \<Rightarrow> gfx_context" where
  "font_row junk m x y color i part ctx =
     snd (fold (\<lambda>bit_idx (part, ctx).
        (signed_drop_bit 1 part,
         if part AND 0x01 \<noteq> 0 then draw_pixel (x + of_nat (7 - bit_idx)) (y + of_nat i) (convert_argb junk m color) ctx else ctx))
      [0..<8] (part, ctx))"

definition draw_2d_gfx_8bit_font ::
    "u8 \<Rightarrow> vbe_mode_info \<Rightarrow> u16 \<Rightarrow> u16 \<Rightarrow> u32 \<Rightarrow> (nat \<Rightarrow> u8) \<Rightarrow> gfx_context \<Rightarrow> gfx_context" where
  "draw_2d_gfx_8bit_font junk m x y color font ctx = fold (\<lambda>i. font_row junk m x y color i (font i)) [0..<16] ctx"

definition draw_2d_gfx_asc_char ::
    "(int \<Rightarrow> u8) \<Rightarrow> u8 \<Rightarrow> vbe_mode_info \<Rightarrow> u32 \<Rightarrow> u32 \<Rightarrow> u32 \<Rightarrow> u32 \<Rightarrow> u8 \<Rightarrow> gfx_context \<Rightarrow> (u32 \<times> gfx_context) option" where
  "draw_2d_gfx_asc_char font junk m font_size x y color c ctx =
     (if font_size = 8
      then Some (font_size, draw_2d_gfx_8bit_font junk m (ucast x) (ucast y) color (\<lambda>i. font (sint c * 16 + int i)) ctx)
      else None)"

primrec draw_chars ::
    "(int \<Rightarrow> u8) \<Rightarrow> u8 \<Rightarrow> vbe_mode_info \<Rightarrow> u32 \<Rightarrow> u32 \<Rightarrow> u32 \<Rightarrow> u32 \<Rightarrow> u32 \<Rightarrow> u32 \<Rightarrow> u8 list \<Rightarrow> gfx_context \<Rightarrow>
     (u32 \<times> gfx_context) option" where
  "draw_chars font junk m font_size x y color idx plen [] ctx = Some (plen, ctx)"
| "draw_chars font junk m font_size x y color idx plen (c # cs) ctx = do {
     (n, ctx) \<leftarrow> draw_2d_gfx_asc_char font junk m font_size (x + font_size * idx) y color c ctx;
     draw_chars font junk m font_size x y color (idx + 1) (plen + n) cs ctx
   }"

definition draw_2d_gfx_string ::
    "(int \<Rightarrow> u8) \<Rightarrow> u8 \<Rightarrow> vbe_mode_info \<Rightarrow> u32 \<Rightarrow> u32 \<Rightarrow> u32 \<Rightarrow> u32 \<Rightarrow> u8 list \<Rightarrow> gfx_context \<Rightarrow> (u32 \<times> gfx_context) option" where
  "draw_2d_gfx_string font junk m font_size x y color cs ctx = draw_chars font junk m font_size x y color 0 0 cs ctx"

definition draw_2d_gfx_label ::
    "(int \<Rightarrow> u8) \<Rightarrow> u8 \<Rightarrow> vbe_mode_info \<Rightarrow> u32 \<Rightarrow> u32 \<Rightarrow> u32 \<Rightarrow> u32 \<Rightarrow> u32 \<Rightarrow> u32 \<Rightarrow> u8 list \<Rightarrow> gfx_context \<Rightarrow> gfx_context option" where
  "draw_2d_gfx_label font junk m x y w plen bgcolor font_color label_name ctx = do {
     ctx \<leftarrow> fill_rect_solid \<lparr>pX = x, pY = y\<rparr> \<lparr>pX = x + w, pY = y + plen\<rparr> bgcolor ctx;
     (_, ctx) \<leftarrow> draw_2d_gfx_string font junk m 8 x y font_color label_name ctx;
     Some ctx
   }"

text \<open>Numbers are formatted into a local array first.\<close>

definition draw_2d_gfx_hex ::
    "(int \<Rightarrow> u8) \<Rightarrow> u8 \<Rightarrow> vbe_mode_info \<Rightarrow> u32 \<Rightarrow> u32 \<Rightarrow> u32 \<Rightarrow> u32 \<Rightarrow> u32 \<Rightarrow> gfx_context \<Rightarrow> (u32 \<times> gfx_context) option" where
  "draw_2d_gfx_hex font junk m font_size x y color num ctx = do {
     (plen, num_str) \<leftarrow> sprintf [0x25, 0x78] [VInt num];
     draw_2d_gfx_string font junk m font_size x y color (take (unat plen) num_str) ctx
   }"

definition draw_2d_gfx_dec ::
    "(int \<Rightarrow> u8) \<Rightarrow> u8 \<Rightarrow> vbe_mode_info \<Rightarrow> u32 \<Rightarrow> u32 \<Rightarrow> u32 \<Rightarrow> u32 \<Rightarrow> u32 \<Rightarrow> gfx_context \<Rightarrow> (u32 \<times> gfx_context) option" where
  "draw_2d_gfx_dec font junk m font_size x y color num ctx = do {
     (plen, num_str) \<leftarrow> sprintf [0x25, 0x64] [VInt num];
     draw_2d_gfx_string font junk m font_size x y color (take (unat plen) num_str) ctx
   }"

section \<open>Blending\<close>

text \<open>The multiplication by \<open>0x101\<close> and the shift divide by 255 and round to the nearest number.\<close>

lemma round_255:
  fixes n :: nat
  assumes "n \<le> 65025"
  shows "((n + 128) * 257) div 65536 = (2 * n + 255) div 510"
proof -
  define q where "q = (2 * n + 255) div 510"
  have "510 * q \<le> 2 * n + 255" "2 * n + 255 < 510 * q + 510" unfolding q_def by simp_all
  moreover have "q \<le> 255" using assms unfolding q_def by simp
  moreover have "255 * q \<le> n + 127" using calculation(1) by linarith
  moreover have "n \<le> 255 * q + 127" using calculation(2) by linarith
  ultimately have "65536 * q \<le> (n + 128) * 257 \<and> (n + 128) * 257 < 65536 * q + 65536" by (simp add: algebra_simps)
  then have "((n + 128) * 257) div 65536 = q" by (intro div_nat_eqI) simp_all
  then show ?thesis by (simp add: q_def)
qed

lemma blend_channel_round:
  assumes "unat tp \<le> 255" "unat bt \<le> 255" "unat t \<le> 255"
  shows "unat (blend_channel tp bt t) = (unat tp + (2 * (unat bt * unat t) + 255) div 510) mod 256"
proof -
  let ?n = "unat bt * unat t"
  have n: "?n \<le> 65025" using mult_le_mono [OF assms(2,3)] by simp
  have t: "unat (ucast t :: u32) = unat t" using assms(3) by (simp add: unsigned_ucast_eq take_bit_nat_eq_self)
  have "unat (bt * ucast t) = ?n" using t n by (subst unat_mult_less) simp_all
  then have "unat (bt * ucast t + 0x80) = ?n + 128" using n by (subst unat_add_less) simp_all
  then have "unat ((bt * ucast t + 0x80) * 0x101) = (?n + 128) * 257" using n by (subst unat_mult_less) simp_all
  moreover have "unat (drop_bit 16 w) = unat w div 65536" for w :: u32
    using unat_drop_bit_eq [of 16 w] by (simp only: drop_bit_eq_div) simp
  ultimately have "unat (drop_bit 16 ((bt * ucast t + 0x80) * 0x101)) = (?n + 128) * 257 div 65536" by simp
  then have d: "unat (drop_bit 16 ((bt * ucast t + 0x80) * 0x101)) = (2 * ?n + 255) div 510" using round_255 [OF n] by simp
  have "(2 * ?n + 255) div 510 \<le> 255" using n by simp
  then have "unat (tp + drop_bit 16 ((bt * ucast t + 0x80) * 0x101)) = unat tp + (2 * ?n + 255) div 510"
    using d assms(1) by (subst unat_add_less) simp_all
  then show ?thesis by (simp add: blend_channel_def unsigned_ucast_eq take_bit_eq_mod)
qed

lemma channels_of_rgba [simp]:
  "R_of (rgba r g b a) = ucast r" "G_of (rgba r g b a) = ucast g" "B_of (rgba r g b a) = ucast b" "A_of (rgba r g b a) = ucast a"
proof -
  have m: "(0x00FF0000 :: u32) = push_bit 16 (mask 8)" "(0x0000FF00 :: u32) = push_bit 8 (mask 8)" "(0x000000FF :: u32) = mask 8"
    "(0xFF000000 :: u32) = push_bit 24 (mask 8)" by (simp_all add: mask_eq_exp_minus_1)
  show "R_of (rgba r g b a) = ucast r" "G_of (rgba r g b a) = ucast g" "B_of (rgba r g b a) = ucast b" "A_of (rgba r g b a) = ucast a"
    unfolding R_of_def G_of_def B_of_def A_of_def rgba_def m by (rule bit_word_eqI; auto simp: bit_simps dest: bit_imp_le_length)+
qed

lemma channel_byte: "unat (R_of c) \<le> 255" "unat (G_of c) \<le> 255" "unat (B_of c) \<le> 255" "unat (A_of c) \<le> 255"
proof -
  have m: "(0x00FF0000 :: u32) = push_bit 16 (mask 8)" "(0x0000FF00 :: u32) = push_bit 8 (mask 8)" "(0x000000FF :: u32) = mask 8"
    "(0xFF000000 :: u32) = push_bit 24 (mask 8)" by (simp_all add: mask_eq_exp_minus_1)
  have "R_of c = take_bit 8 (drop_bit 16 c)" "G_of c = take_bit 8 (drop_bit 8 c)" "B_of c = take_bit 8 c" "A_of c = take_bit 8 (drop_bit 24 c)"
    unfolding R_of_def G_of_def B_of_def A_of_def m by (rule bit_word_eqI; auto simp: bit_simps)+
  moreover have "unat (take_bit 8 w) \<le> 255" for w :: u32
    using take_bit_nat_less_exp [of 8 "unat w"] by (simp add: unsigned_take_bit_eq)
  ultimately show "unat (R_of c) \<le> 255" "unat (G_of c) \<le> 255" "unat (B_of c) \<le> 255" "unat (A_of c) \<le> 255" by simp_all
qed

definition channels :: "(u32 \<Rightarrow> u32) list" where
  "channels = [R_of, G_of, B_of, A_of]"

definition premultiplied :: "u32 \<Rightarrow> bool" where
  "premultiplied c \<longleftrightarrow> R_of c \<le> A_of c \<and> G_of c \<le> A_of c \<and> B_of c \<le> A_of c"

lemma blend_channel_exact:
  assumes "unat tp \<le> unat a" "unat bt \<le> 255" "unat (a :: u32) \<le> 255"
  shows "unat (ucast (blend_channel tp bt (0xFF XOR ucast (ucast a :: u8))) :: u32) = unat tp + (2 * (unat bt * (255 - unat a)) + 255) div 510"
proof -
  have "unat (0xFF XOR ucast (ucast a :: u8) :: u16) = 255 - unat a"
  proof -
    have tb: "list_all (\<lambda>n. unat (0xFF XOR ucast (of_nat n :: u8) :: u16) = 255 - n) [0..<256]" by code_simp
    have "unat a \<in> set [0..<256]" unfolding set_upt atLeastLessThan_iff using assms(3) by simp
    then have "unat (0xFF XOR ucast (of_nat (unat a) :: u8) :: u16) = 255 - unat a" using tb unfolding list_all_iff by blast
    moreover have "(of_nat (unat a) :: u8) = ucast a" by simp
    ultimately show ?thesis by (simp only:)
  qed
  then have c: "unat (blend_channel tp bt (0xFF XOR ucast (ucast a :: u8))) =
      (unat tp + (2 * (unat bt * (255 - unat a)) + 255) div 510) mod 256"
    using blend_channel_round [of tp bt "0xFF XOR ucast (ucast a :: u8)"] assms by simp
  have dv: "(2 * (n * d) + 255) div 510 \<le> d" if "n \<le> 255" for n d :: nat
  proof -
    have "2 * (n * d) + 255 \<le> 510 * d + 255" using mult_le_mono1 [OF that, of d] by simp
    then have "(2 * (n * d) + 255) div 510 \<le> (510 * d + 255) div 510" by (rule div_le_mono)
    then show ?thesis by simp
  qed
  have "(2 * (unat bt * (255 - unat a)) + 255) div 510 \<le> 255 - unat a" using dv assms(2) by blast
  then have "unat tp + (2 * (unat bt * (255 - unat a)) + 255) div 510 < 256" using assms(1,3) by linarith
  then show ?thesis using c by (simp add: unsigned_ucast_eq take_bit_nat_eq_self)
qed

text \<open>C28. Blending. Over a pixel that is not fully transparent, a colour whose channels are multiplied by its alpha
  \<open>a\<close> gives in every channel, alpha included, its own value plus \<open>(255 - a) / 255\<close> of the one below, rounded to the
  nearest number and without overflow into the next channel.\<close>

theorem alpha_blend_exact:
  assumes "premultiplied tp" "A_of bt \<noteq> 0"
  shows "\<forall>C \<in> set channels. unat (C (alpha_blend_rgba bt tp)) =
    unat (C tp) + (2 * (unat (C bt) * (255 - unat (A_of tp))) + 255) div 510"
proof -
  have p: "unat (R_of tp) \<le> unat (A_of tp)" "unat (G_of tp) \<le> unat (A_of tp)" "unat (B_of tp) \<le> unat (A_of tp)"
    using assms(1) by (simp_all add: premultiplied_def word_le_nat_alt)
  have r: "(510 * n + 255) div 510 = (n :: nat)" for n by simp
  show ?thesis
  proof (cases "A_of tp = 255 \<or> A_of tp = 0")
    case True
    then show ?thesis
    proof
      assume "A_of tp = 255"
      then show ?thesis using assms(2) by (simp add: alpha_blend_rgba_def channels_def)
    next
      assume z: "A_of tp = 0"
      then have "alpha_blend_rgba bt tp = bt" using assms(2) by (simp add: alpha_blend_rgba_def)
      moreover have "2 * (n * (255 - unat (A_of tp))) + 255 = 510 * n + 255" for n using z by simp
      ultimately show ?thesis using p z r by (simp add: channels_def)
    qed
  next
    case False
    then show ?thesis
      using assms(2) p blend_channel_exact [OF _ channel_byte(1) channel_byte(4)] blend_channel_exact [OF _ channel_byte(2) channel_byte(4)]
        blend_channel_exact [OF _ channel_byte(3) channel_byte(4)] blend_channel_exact [OF order_refl channel_byte(4) channel_byte(4)]
      by (simp add: alpha_blend_rgba_def channels_def Let_def)
  qed
qed

theorem alpha_blend_exact_witness:
  "R_of (alpha_blend_rgba 0xFF640000 0x80400000) = 114 \<and> A_of (alpha_blend_rgba 0xFF640000 0x80400000) = 255"
proof -
  have "premultiplied 0x80400000" "A_of 0xFF640000 \<noteq> 0"
    by (simp_all add: premultiplied_def R_of_def G_of_def B_of_def A_of_def)
  from alpha_blend_exact [OF this] show ?thesis
    by (simp add: channels_def R_of_def A_of_def word_eq_unat32)
qed

section \<open>Stores of pixels\<close>

text \<open>What drawing relies on: a pixel inside reads as it was last written, and writing it changes no other.\<close>

locale pixel_store =
  fixes get :: "'p \<Rightarrow> 's \<Rightarrow> 'v" and put :: "'p \<Rightarrow> 'v \<Rightarrow> 's \<Rightarrow> 's" and inside :: "'s \<Rightarrow> 'p \<Rightarrow> bool"
  assumes inside_put: "inside s p \<Longrightarrow> inside (put p v s) = inside s"
    and get_same: "inside s p \<Longrightarrow> get p (put p v s) = v"
    and get_other: "inside s p \<Longrightarrow> inside s q \<Longrightarrow> p \<noteq> q \<Longrightarrow> get q (put p v s) = get q s"
begin

lemma paint_inside:
  "\<forall>p \<in> set ps. inside s p \<Longrightarrow> inside (fold (\<lambda>p s. put p (f p (get p s)) s) ps s) = inside s"
  by (induction ps arbitrary: s) (simp_all add: inside_put)

lemma paint:
  assumes "distinct ps" "\<forall>p \<in> set ps. inside s p" "inside s q"
  shows "get q (fold (\<lambda>p s. put p (f p (get p s)) s) ps s) = (if q \<in> set ps then f q (get q s) else get q s)"
  using assms
proof (induction ps arbitrary: s)
  case (Cons p ps)
  let ?s = "put p (f p (get p s)) s"
  have i: "inside ?s = inside s" using Cons.prems(2) inside_put by simp
  have "get q (fold (\<lambda>p s. put p (f p (get p s)) s) ps ?s) = (if q \<in> set ps then f q (get q ?s) else get q ?s)"
    using Cons.IH [of ?s] Cons.prems i by simp
  then show ?case
    using Cons.prems get_same [of s p] get_other [of s p q] by (cases "q = p") auto
qed simp

end

lemma unat_lin:
  fixes a b c :: u32
  assumes "unat a + unat b * unat c < 2 ^ 32"
  shows "unat (a + b * c) = unat a + unat b * unat c"
proof -
  have "unat (b * c) = unat b * unat c" using assms by (subst unat_mult_less) simp_all
  then show ?thesis using assms by (subst unat_add_less) simp_all
qed

text \<open>A context of 32-bit pixels whose buffer lies in the address space.\<close>

definition ctx_ok :: "gfx_context \<Rightarrow> bool" where
  "ctx_ok c \<longleftrightarrow> gdepth c = 32 \<and> 0 < unat (gwidth c) \<and> unat (gwidth c) < 2 ^ 15 \<and> 0 < unat (gheight c) \<and> unat (gheight c) < 2 ^ 15 \<and>
     4 * unat (gwidth c) \<le> unat (stride c) \<and> unat (backbuffer c) + unat (stride c) * unat (gheight c) < 2 ^ 32"

definition on_screen :: "gfx_context \<Rightarrow> nat \<times> nat \<Rightarrow> bool" where
  "on_screen c p \<longleftrightarrow> ctx_ok c \<and> fst p < unat (gwidth c) \<and> snd p < unat (gheight c)"

definition pixel :: "nat \<times> nat \<Rightarrow> gfx_context \<Rightarrow> u32" where
  "pixel p c = GFX c (of_nat (fst p)) (of_nat (snd p))"

definition set_pixel :: "nat \<times> nat \<Rightarrow> u32 \<Rightarrow> gfx_context \<Rightarrow> gfx_context" where
  "set_pixel p v c = set_GFX (of_nat (fst p)) (of_nat (snd p)) v c"

text \<open>Offset of a pixel in its buffer.\<close>

definition pix_off :: "gfx_context \<Rightarrow> nat \<times> nat \<Rightarrow> nat" where
  "pix_off c p = unat (stride c) * snd p + 4 * fst p"

lemma pix_off_bound:
  assumes "on_screen c p"
  shows "pix_off c p + 4 \<le> unat (stride c) * unat (gheight c)"
proof -
  have "4 * fst p + 4 \<le> unat (stride c)" using assms by (simp add: on_screen_def ctx_ok_def)
  moreover have "unat (stride c) * snd p + unat (stride c) \<le> unat (stride c) * unat (gheight c)"
    using mult_le_mono2 [of "Suc (snd p)" "unat (gheight c)" "unat (stride c)"] assms by (simp add: on_screen_def)
  ultimately show ?thesis by (simp add: pix_off_def)
qed

lemma pix_off_apart:
  assumes "on_screen c p" "on_screen c q" "p \<noteq> q"
  shows "pix_off c p + 4 \<le> pix_off c q \<or> pix_off c q + 4 \<le> pix_off c p"
proof -
  have rows: "pix_off c u + 4 \<le> pix_off c v" if "on_screen c u" "snd u < snd v" for u v
  proof -
    have "4 * fst u + 4 \<le> unat (stride c)" using that(1) by (simp add: on_screen_def ctx_ok_def)
    moreover have "unat (stride c) * snd u + unat (stride c) \<le> unat (stride c) * snd v"
      using mult_le_mono2 [of "Suc (snd u)" "snd v" "unat (stride c)"] that(2) by simp
    ultimately show ?thesis by (simp add: pix_off_def)
  qed
  show ?thesis
  proof (cases "snd p = snd q")
    case True
    then have "fst p < fst q \<or> fst q < fst p" using assms(3) by (metis linorder_neqE_nat prod_eqI)
    then show ?thesis using True by (auto simp: pix_off_def)
  next
    case False
    then show ?thesis using rows assms(1,2) by (metis linorder_neqE_nat)
  qed
qed

lemma GFX_addr_off:
  assumes "on_screen c p"
  shows "unat (GFX_addr c (of_nat (fst p)) (of_nat (snd p))) = unat (backbuffer c) + pix_off c p"
proof -
  have b: "pix_off c p + 4 \<le> unat (stride c) * unat (gheight c)" by (rule pix_off_bound [OF assms])
  note d = assms [unfolded on_screen_def ctx_ok_def]
  have u: "unat (of_nat (fst p) :: u32) = fst p" "unat (of_nat (snd p) :: u32) = snd p"
    using d by (auto intro!: unat_of_nat_32)
  have "unat (stride c * of_nat (snd p) + of_nat (fst p) * 4) = pix_off c p"
  proof -
    have "unat (stride c * of_nat (snd p)) = unat (stride c) * snd p"
      using b d u by (subst unat_mult_less) (simp_all add: pix_off_def)
    moreover have "unat (of_nat (fst p) * 4 :: u32) = 4 * fst p"
      using b d u by (subst unat_mult_less) (simp_all add: pix_off_def)
    ultimately show ?thesis using b d by (subst unat_add_less) (simp_all add: pix_off_def)
  qed
  then show ?thesis using b d unfolding GFX_addr_def by (subst unat_add_less) simp_all
qed

lemma unat_plus_small: "unat (a :: u32) + k < 2 ^ 32 \<Longrightarrow> unat (a + of_nat k) = unat a + k"
  by (subst unat_add_less) (simp_all add: unat_of_nat_32)

lemma load_store32:
  assumes "unat a + 4 \<le> 2 ^ 32" shows "load32 a (store32 a v m) = v"
proof -
  have u: "unat (a + 1) = unat a + 1" "unat (a + 2) = unat a + 2" "unat (a + 3) = unat a + 3"
    using unat_plus_small [of a 1] unat_plus_small [of a 2] unat_plus_small [of a 3] assms by simp_all
  have ne: "a \<noteq> a + 1" "a \<noteq> a + 2" "a \<noteq> a + 3" "a + 1 \<noteq> a + 2" "a + 1 \<noteq> a + 3" "a + 2 \<noteq> a + 3"
    using u by (auto simp: word_eq_unat32)
  have "load32 a (store32 a v m) = ucast (ucast v :: u8) OR push_bit 8 (ucast (ucast (drop_bit 8 v) :: u8)) OR
      push_bit 16 (ucast (ucast (drop_bit 16 v) :: u8)) OR push_bit 24 (ucast (ucast (drop_bit 24 v) :: u8))"
    using ne by (simp add: load32_def store32_def)
  also have "\<dots> = v"
  proof (rule bit_word_eqI)
    fix n assume "n < LENGTH(32)"
    consider "n < 8" | "8 \<le> n" "n < 16" | "16 \<le> n" "n < 24" | "24 \<le> n" by linarith
    then show "bit (ucast (ucast v :: u8) OR push_bit 8 (ucast (ucast (drop_bit 8 v) :: u8)) OR
      push_bit 16 (ucast (ucast (drop_bit 16 v) :: u8)) OR push_bit 24 (ucast (ucast (drop_bit 24 v) :: u8)) :: u32) n = bit v n"
      using \<open>n < LENGTH(32)\<close> by cases (auto simp: bit_simps)
  qed
  finally show ?thesis .
qed

lemma load_store32_other:
  assumes "unat a + 4 \<le> 2 ^ 32" "unat b + 4 \<le> 2 ^ 32" "unat a + 4 \<le> unat b \<or> unat b + 4 \<le> unat a"
  shows "load32 b (store32 a v m) = load32 b m"
proof -
  have ua: "unat (a + 1) = unat a + 1" "unat (a + 2) = unat a + 2" "unat (a + 3) = unat a + 3"
    using unat_plus_small [of a 1] unat_plus_small [of a 2] unat_plus_small [of a 3] assms(1) by simp_all
  have ub: "unat (b + 1) = unat b + 1" "unat (b + 2) = unat b + 2" "unat (b + 3) = unat b + 3"
    using unat_plus_small [of b 1] unat_plus_small [of b 2] unat_plus_small [of b 3] assms(2) by simp_all
  have "store32 a v m c = m c" if "unat c < unat a \<or> unat a + 4 \<le> unat c" for c
    using that ua by (auto simp: store32_def word_eq_unat32)
  moreover have "unat c < unat a \<or> unat a + 4 \<le> unat c" if "c \<in> {b, b + 1, b + 2, b + 3}" for c
    using that ub assms(3) by auto
  ultimately show ?thesis by (simp add: load32_def)
qed


lemma on_screen_set_GFX [simp]: "on_screen (set_GFX x y v c) = on_screen c"
  by (rule ext) (simp add: on_screen_def ctx_ok_def set_GFX_def)

lemma GFX_addr_set_GFX [simp]: "GFX_addr (set_GFX x y v c) = GFX_addr c"
  by (intro ext) (simp add: GFX_addr_def set_GFX_def)

lemma GFX_addr_room:
  assumes "on_screen c p"
  shows "unat (GFX_addr c (of_nat (fst p)) (of_nat (snd p))) + 4 \<le> 2 ^ 32"
  using GFX_addr_off [OF assms] pix_off_bound [OF assms] assms by (simp add: on_screen_def ctx_ok_def)

interpretation screen: pixel_store pixel set_pixel on_screen
proof unfold_locales
  fix c :: gfx_context and p q :: "nat \<times> nat" and v
  assume p: "on_screen c p"
  show "on_screen (set_pixel p v c) = on_screen c" by (simp add: set_pixel_def)
  show "pixel p (set_pixel p v c) = v"
    using load_store32 [OF GFX_addr_room [OF p]] by (simp add: pixel_def set_pixel_def GFX_def) (simp add: set_GFX_def)
  assume q: "on_screen c q" and "p \<noteq> q"
  then show "pixel q (set_pixel p v c) = pixel q c"
    using load_store32_other [OF GFX_addr_room [OF p] GFX_addr_room [OF q]] pix_off_apart [OF p q] GFX_addr_off [OF p] GFX_addr_off [OF q]
    by (simp add: pixel_def set_pixel_def GFX_def) (simp add: set_GFX_def)
qed

section \<open>Drawing as painting of points\<close>

text \<open>The bytes of the buffer that is drawn into.\<close>

definition in_buffer :: "gfx_context \<Rightarrow> u32 \<Rightarrow> bool" where
  "in_buffer c a \<longleftrightarrow> unat (backbuffer c) \<le> unat a \<and> unat a < unat (backbuffer c) + unat (stride c) * unat (gheight c)"

definition paints :: "(nat \<times> nat \<Rightarrow> u32 \<Rightarrow> u32) \<Rightarrow> (nat \<times> nat) list \<Rightarrow> gfx_context \<Rightarrow> gfx_context" where
  "paints f ps c = fold (\<lambda>p c. set_pixel p (f p (pixel p c)) c) ps c"

lemma paints_simps [simp]:
  "paints f [] c = c" "paints f (p # ps) c = paints f ps (set_pixel p (f p (pixel p c)) c)"
  "paints f (ps @ qs) c = paints f qs (paints f ps c)"
  by (simp_all add: paints_def)

lemma paints_fields [simp]:
  "gwidth (paints f ps c) = gwidth c" "gheight (paints f ps c) = gheight c" "gdepth (paints f ps c) = gdepth c"
  "stride (paints f ps c) = stride c" "backbuffer (paints f ps c) = backbuffer c" "buffer (paints f ps c) = buffer c"
  "clips (paints f ps c) = clips c" "clips_size (paints f ps c) = clips_size c" "gsize (paints f ps c) = gsize c"
  by (induction ps arbitrary: c) (simp_all add: set_pixel_def set_GFX_def)

lemma paints_clip [simp]: "is_in_clip (paints f ps c) = is_in_clip c"
  by (rule ext) (simp add: is_in_clip_def split: option.split)

lemma paints_screen: "\<forall>p \<in> set ps. on_screen c p \<Longrightarrow> on_screen (paints f ps c) = on_screen c"
  unfolding paints_def by (rule screen.paint_inside)

lemma paints_pixel:
  "distinct ps \<Longrightarrow> \<forall>p \<in> set ps. on_screen c p \<Longrightarrow> on_screen c q \<Longrightarrow>
    pixel q (paints f ps c) = (if q \<in> set ps then f q (pixel q c) else pixel q c)"
  unfolding paints_def by (rule screen.paint)

lemma set_pixel_frame:
  assumes "on_screen c p" "\<not> in_buffer c a"
  shows "gmem (set_pixel p v c) a = gmem c a"
proof -
  let ?b = "GFX_addr c (of_nat (fst p)) (of_nat (snd p))"
  have b: "unat (backbuffer c) \<le> unat ?b" "unat ?b + 4 \<le> unat (backbuffer c) + unat (stride c) * unat (gheight c)"
    using GFX_addr_off [OF assms(1)] pix_off_bound [OF assms(1)] by simp_all
  moreover have "unat (?b + 1) = unat ?b + 1" "unat (?b + 2) = unat ?b + 2" "unat (?b + 3) = unat ?b + 3"
    using unat_plus_small [of ?b 1] unat_plus_small [of ?b 2] unat_plus_small [of ?b 3] b(2) assms(1)
    by (simp_all add: on_screen_def ctx_ok_def)
  ultimately show ?thesis using assms(2) by (auto simp: set_pixel_def set_GFX_def store32_def in_buffer_def)
qed

lemma paints_frame:
  "\<forall>p \<in> set ps. on_screen c p \<Longrightarrow> \<not> in_buffer c a \<Longrightarrow> gmem (paints f ps c) a = gmem c a"
proof (induction ps arbitrary: c)
  case (Cons p ps)
  let ?c = "set_pixel p (f p (pixel p c)) c"
  have "gmem (paints f ps ?c) a = gmem ?c a"
    by (rule Cons.IH) (use Cons.prems in \<open>simp_all add: set_pixel_def in_buffer_def\<close>, simp add: set_GFX_def)
  then show ?case using set_pixel_frame Cons.prems by simp
qed simp

section \<open>Sprites paint what is visible of them\<close>

lemma sint_small_unat: "unat (w :: u32) < 0x80000000 \<Longrightarrow> sint w = int (unat w)"
proof -
  assume "unat w < 0x80000000"
  then have "int (unat w) < 0x80000000" by linarith
  then have u: "uint w < 0x80000000" by simp
  have "- 0x80000000 \<le> sint w" using sint_ge [of w] by simp
  then have "\<not> bit w 31" using sint_cases_32 [of w] u by (cases "bit w 31") simp_all
  then show ?thesis using sint_cases_32 [of w] by simp
qed

lemma sint_plus_small:
  assumes "\<bar>sint (x :: u32)\<bar> < 0x40000000" "k < 0x10000"
  shows "sint (x + of_nat k) = sint x + int k"
proof -
  have u: "unat (of_nat k :: u32) = k" using assms(2) by (intro unat_of_nat_32) simp
  have k: "sint (of_nat k :: u32) = int k" using sint_small_unat [of "of_nat k", unfolded u] assms(2) by simp
  have "- 0x80000000 \<le> sint x + int k \<and> sint x + int k < 0x80000000" using assms by linarith
  then have "signed_take_bit 31 (sint x + int k) = sint x + int k" by (intro signed_take_bit_int_eq_self) simp_all
  then show ?thesis using sint_word_ariths(1) [of x "of_nat k"] k by simp
qed

text \<open>The bound is the smaller of two numbers that are compared unsigned, so a sum below zero counts as large.\<close>

lemma clip_bound:
  assumes "\<bar>sint (x :: u32)\<bar> < 0x40000000" "0 < unat (g :: u32)" "unat g < 0x8000" "k < unat (w :: u16)"
  shows "(umin (x + ucast w) (g - 1) <s x + of_nat k) \<longleftrightarrow> int (unat g) \<le> sint x + int k"
proof -
  have w: "unat w < 0x10000" using unsigned_less [of w] by simp
  have "x + of_nat (unat w) = x + ucast w" by simp
  then have xw: "sint (x + ucast w) = sint x + int (unat w)" using sint_plus_small [OF assms(1) w] by metis
  have xk: "sint (x + of_nat k) = sint x + int k" using sint_plus_small [OF assms(1)] assms(4) w by simp
  have g: "unat (g - 1) = unat g - 1" using assms(2) by (simp add: unat_sub_word word_le_nat_alt)
  then have sg: "sint (g - 1) = int (unat g - 1)" using sint_small_unat [of "g - 1"] assms(3) by linarith
  show ?thesis
  proof (cases "x + ucast w < g - 1")
    case True
    then have l: "unat (x + ucast w) < unat g - 1" using g by (simp add: word_less_nat_alt)
    then have "sint x + int (unat w) = int (unat (x + ucast w))"
      using sint_small_unat [of "x + ucast w"] assms(3) unfolding xw by linarith
    then have "sint x + int (unat w) < int (unat g)" "int k < int (unat w)" using l assms(4) by linarith+
    then have "\<not> sint x + int (unat w) < sint x + int k" "\<not> int (unat g) \<le> sint x + int k" by linarith+
    then show ?thesis using True xw xk by (simp only: umin_def word_sless_alt if_True simp_thms)
  next
    case False
    have "int (unat g - 1) < sint x + int k \<longleftrightarrow> int (unat g) \<le> sint x + int k" using assms(2) by linarith
    then show ?thesis using False sg xk by (simp only: umin_def word_sless_alt if_False simp_thms)
  qed
qed

lemma smax_zero: "a <s smax a 0 \<longleftrightarrow> sint a < 0" "sint (smax a 0) = max (sint a) 0"
  by (auto simp: smax_def word_sless_alt)

text \<open>What a sprite makes of the pixel below its pixel \<open>(k, r)\<close>.\<close>

definition shade :: "sprite \<Rightarrow> nat \<Rightarrow> nat \<Rightarrow> u32 \<Rightarrow> u32" where
  "shade sp k r old = (if salpha sp = 2 then alpha_blend_rgba old (SPRITE sp k r) else SPRITE sp k r OR 0xFF000000)"

definition shade_at :: "sprite \<Rightarrow> u32 \<Rightarrow> u32 \<Rightarrow> nat \<times> nat \<Rightarrow> u32 \<Rightarrow> u32" where
  "shade_at sp x y p = shade sp (nat (int (fst p) - sint x)) (nat (int (snd p) - sint y))"

abbreviation seen :: "u32 \<Rightarrow> u32 \<Rightarrow> nat \<Rightarrow> bool" where
  "seen x g k \<equiv> 0 \<le> sint x + int k \<and> sint x + int k < int (unat g)"

definition place :: "u32 \<Rightarrow> u32 \<Rightarrow> nat \<Rightarrow> nat \<Rightarrow> nat \<times> nat" where
  "place x y r k = (nat (sint x + int k), nat (sint y + int r))"

definition row_points :: "sprite \<Rightarrow> u32 \<Rightarrow> u32 \<Rightarrow> u32 \<Rightarrow> nat \<Rightarrow> (nat \<times> nat) list" where
  "row_points sp x y g r = map (place x y r) (filter (seen x g) [0..<unat (swidth sp)])"

lemma word_place: "0 \<le> sint x + int k \<Longrightarrow> of_nat (nat (sint x + int k)) = x + (of_nat k :: u32)"
  by (simp add: of_nat_nat)

lemma shade_at_place:
  "0 \<le> sint x + int k \<Longrightarrow> 0 \<le> sint y + int r \<Longrightarrow> shade_at sp x y (place x y r k) = shade sp k r"
  by (rule ext) (simp add: shade_at_def place_def)

lemma put_place:
  assumes "0 \<le> sint x + int k" "0 \<le> sint y + int r"
  shows "set_pixel (place x y r k) v c = set_GFX (x + of_nat k) (y + of_nat r) v c"
    "pixel (place x y r k) c = GFX c (x + of_nat k) (y + of_nat r)"
  using assms by (simp_all add: set_pixel_def pixel_def place_def word_place)

lemma embedded_row:
  assumes "\<bar>sint x\<bar> < 0x40000000" "0 < unat g" "unat g < 0x8000" "salpha sp = 2"
    "\<not> (y + of_nat r <s tp)" "\<not> (bt <s y + of_nat r)" "0 \<le> sint y + int r" "\<forall>k \<in> set ks. k < unat (swidth sp)"
  shows "fold (embedded_pixel sp x y (smax x 0) tp (umin (x + ucast (swidth sp)) (g - 1)) bt r) ks c =
    paints (shade_at sp x y) (map (place x y r) (filter (seen x g) ks)) c"
  using assms(8)
proof (induction ks arbitrary: c)
  case (Cons k ks)
  have "unat (swidth sp) < 0x10000" using unsigned_less [of "swidth sp"] by simp
  then have k: "k < unat (swidth sp)" "k < 0x10000" using Cons.prems by auto
  have "sint (x + of_nat k) = sint x + int k" using sint_plus_small [OF assms(1) k(2)] .
  then have l: "(x + of_nat k <s smax x 0) \<longleftrightarrow> sint x + int k < 0"
    by (auto simp: word_sless_alt smax_def)
  show ?case
    using Cons l clip_bound [OF assms(1-3) k(1)] assms(4-7)
    by (auto simp: embedded_pixel_def put_place shade_at_place shade_def not_le Let_def)
qed simp

lemma opaque_row:
  assumes "salpha sp = 0" "0 \<le> sint y + int r" "\<forall>k \<in> set ks. 0 \<le> sint x + int k"
  shows "opaque_cols sp x y right r ks c =
    paints (shade_at sp x y) (map (place x y r) (takeWhile (\<lambda>k. x + of_nat k \<le>s right) ks)) c"
  using assms(3) by (induction ks arbitrary: c) (simp_all add: put_place shade_at_place shade_def assms(1,2))

lemma takeWhile_upt:
  "takeWhile (\<lambda>k. X + int k < g) [a..<w] = filter (\<lambda>k. X + int k < g) [a..<w]"
proof (rule takeWhile_eq_filter)
  have "sorted (dropWhile P xs)" if "sorted xs" for P and xs :: "nat list" using that by (rule sorted_dropWhile)
  then have sd: "sorted (dropWhile (\<lambda>k. X + int k < g) [a..<w])" by simp
  fix k assume k: "k \<in> set (dropWhile (\<lambda>k. X + int k < g) [a..<w])"
  then have ne: "dropWhile (\<lambda>k. X + int k < g) [a..<w] \<noteq> []"
    by (intro notI) (simp only: list.set empty_iff)
  then have "\<not> X + int (hd (dropWhile (\<lambda>k. X + int k < g) [a..<w])) < g" by (rule hd_dropWhile)
  moreover have "hd (dropWhile (\<lambda>k. X + int k < g) [a..<w]) \<le> k"
    using sd k ne by (cases "dropWhile (\<lambda>k. X + int k < g) [a..<w]") auto
  ultimately show "\<not> X + int k < g" by linarith
qed

lemma seen_upt:
  "filter (\<lambda>k. 0 \<le> X + int k \<and> X + int k < g) [0..<w] = filter (\<lambda>k. X + int k < g) [nat (- X)..<w]"
proof (cases "nat (- X) \<le> w")
  case True
  then have "[0..<w] = [0..<nat (- X)] @ [nat (- X)..<w]" using upt_add_eq_append [of 0 "nat (- X)" "w - nat (- X)"] by simp
  moreover have "filter (\<lambda>k. 0 \<le> X + int k \<and> X + int k < g) [0..<nat (- X)] = []" by (auto simp: filter_empty_conv)
  moreover have "filter (\<lambda>k. 0 \<le> X + int k \<and> X + int k < g) [nat (- X)..<w] = filter (\<lambda>k. X + int k < g) [nat (- X)..<w]"
    by (rule filter_cong) auto
  ultimately show ?thesis by (simp only: filter_append append_Nil)
next
  case False
  then show ?thesis by (auto simp: filter_empty_conv)
qed

text \<open>The first column of an opaque sprite fits 16 bits while the sprite starts less than 65536 pixels left of the screen.\<close>

lemma first_column:
  assumes "- 0x10000 < sint x" "sint x < 0x40000000"
  shows "(if x <s smax x 0 then unat (ucast (smax x 0 - x) :: u16) else 0) = nat (- sint x)"
proof (cases "sint x < 0")
  case True
  then have n: "x <s 0" by (simp add: word_sless_alt)
  then have u: "int (unat (- x)) = - sint x" using sint_negative by simp
  then have "unat (- x) < 0x10000" using assms(1) by linarith
  then have "unat (ucast (- x) :: u16) = unat (- x)" by (simp add: unsigned_ucast_eq take_bit_nat_eq_self)
  moreover have "smax x 0 = 0" using True by (simp add: smax_def word_sless_alt)
  moreover have "nat (- sint x) = unat (- x)" using u by linarith
  ultimately show ?thesis using n by (simp only: if_True diff_0)
next
  case False
  then show ?thesis by (simp add: smax_zero)
qed

lemma opaque_columns:
  assumes "salpha sp = 0" "0 \<le> sint y + int r" "- 0x10000 < sint x" "sint x < 0x40000000" "0 < unat g" "unat g < 0x8000"
  shows "opaque_cols sp x y (umin (x + ucast (swidth sp)) (g - 1)) r
      [(if x <s smax x 0 then unat (ucast (smax x 0 - x) :: u16) else 0)..<unat (swidth sp)] c =
    paints (shade_at sp x y) (row_points sp x y g r) c"
proof -
  let ?w = "unat (swidth sp)"
  have x: "\<bar>sint x\<bar> < 0x40000000" using assms(3,4) by linarith
  have "takeWhile (\<lambda>k. x + of_nat k \<le>s umin (x + ucast (swidth sp)) (g - 1)) [nat (- sint x)..<?w] =
      takeWhile (\<lambda>k. sint x + int k < int (unat g)) [nat (- sint x)..<?w]"
  proof (rule takeWhile_cong)
    fix k assume "k \<in> set [nat (- sint x)..<?w]"
    then have "k < ?w" by simp
    then show "(x + of_nat k \<le>s umin (x + ucast (swidth sp)) (g - 1)) = (sint x + int k < int (unat g))"
      using clip_bound [OF x assms(5,6), of k "swidth sp"] by (simp add: word_sle_eq word_sless_alt not_less [symmetric])
  qed simp
  then show ?thesis
    unfolding first_column [OF assms(3,4)] row_points_def seen_upt
    by (subst opaque_row [OF assms(1,2)]) (auto simp: takeWhile_upt)
qed

lemma sprite_rows_fold:
  assumes vis: "\<forall>r \<in> set rs. (y + of_nat r <s tp \<longleftrightarrow> sint y + int r < 0) \<and> (bt <s y + of_nat r \<longleftrightarrow> int n \<le> sint y + int r)"
    and row: "\<forall>r \<in> set rs. 0 \<le> sint y + int r \<and> sint y + int r < int n \<longrightarrow> (\<forall>c. row r c = paints f (pts r) c)"
    and "sorted rs"
  shows "sprite_rows row y tp bt rs c =
    paints f (concat (map pts (filter (\<lambda>r. 0 \<le> sint y + int r \<and> sint y + int r < int n \<and> is_in_clip c (y + of_nat r)) rs))) c"
  using assms
proof (induction rs arbitrary: c)
  case (Cons r rs)
  show ?case
  proof (cases "int n \<le> sint y + int r")
    case True
    then have "filter (\<lambda>r. 0 \<le> sint y + int r \<and> sint y + int r < int n \<and> is_in_clip c (y + of_nat r)) (r # rs) = []"
      using Cons.prems(3) by (auto simp: filter_empty_conv)
    then show ?thesis using True Cons.prems(1) by simp
  next
    case False
    then show ?thesis using Cons by (auto simp: not_le)
  qed
qed simp

definition sprite_points :: "sprite \<Rightarrow> u32 \<Rightarrow> u32 \<Rightarrow> gfx_context \<Rightarrow> (nat \<times> nat) list" where
  "sprite_points sp x y c = concat (map (row_points sp x y (gwidth c))
     (filter (\<lambda>r. seen y (gheight c) r \<and> is_in_clip c (y + of_nat r)) [0..<unat (sheight sp)]))"

lemma draw_sprite_paints:
  assumes "ctx_ok c" "- 0x10000 < sint x" "sint x < 0x40000000" "\<bar>sint y\<bar> < 0x40000000" "salpha sp \<in> {0, 2}"
  shows "draw_sprite sp x y c = paints (shade_at sp x y) (sprite_points sp x y c) c"
proof -
  let ?w = "unat (swidth sp)" and ?h = "unat (sheight sp)" and ?gw = "gwidth c" and ?gh = "gheight c"
  let ?bt = "umin (y + ucast (sheight sp)) (?gh - 1)" and ?right = "umin (x + ucast (swidth sp)) (?gw - 1)"
  have dims: "0 < unat ?gw" "unat ?gw < 0x8000" "0 < unat ?gh" "unat ?gh < 0x8000" using assms(1) by (simp_all add: ctx_ok_def)
  have x: "\<bar>sint x\<bar> < 0x40000000" using assms(2,3) by linarith
  have h: "?h < 0x10000" using unsigned_less [of "sheight sp"] by simp
  have tp: "(y + of_nat r <s smax y 0) \<longleftrightarrow> sint y + int r < 0" if "r < ?h" for r
    using sint_plus_small [OF assms(4), of r] that h by (auto simp: word_sless_alt smax_def)
  have bt: "(?bt <s y + of_nat r) \<longleftrightarrow> int (unat ?gh) \<le> sint y + int r" if "r < ?h" for r
    using clip_bound [OF assms(4) dims(3,4) that] .
  let ?row = "\<lambda>r. if salpha sp = 2 then fold (embedded_pixel sp x y (smax x 0) (smax y 0) ?right ?bt r) [0..<?w]
     else opaque_cols sp x y ?right r [(if x <s smax x 0 then unat (ucast (smax x 0 - x) :: u16) else 0)..<?w]"
  have "draw_sprite sp x y c = sprite_rows ?row y (smax y 0) ?bt [0..<?h] c"
    using assms(5) by (auto simp: draw_sprite_def Let_def)
  also have "\<dots> = paints (shade_at sp x y) (concat (map (row_points sp x y ?gw)
      (filter (\<lambda>r. 0 \<le> sint y + int r \<and> sint y + int r < int (unat ?gh) \<and> is_in_clip c (y + of_nat r)) [0..<?h]))) c"
  proof (rule sprite_rows_fold)
    show "\<forall>r \<in> set [0..<?h]. (y + of_nat r <s smax y 0 \<longleftrightarrow> sint y + int r < 0) \<and> (?bt <s y + of_nat r \<longleftrightarrow> int (unat ?gh) \<le> sint y + int r)"
      using tp bt by simp
    have "?row r c' = paints (shade_at sp x y) (row_points sp x y ?gw r) c'"
      if "r < ?h" "0 \<le> sint y + int r" "sint y + int r < int (unat ?gh)" for r c'
    proof (cases "salpha sp = 2")
      case True
      then show ?thesis using embedded_row [OF x dims(1,2) True, of y r "smax y 0" ?bt "[0..<?w]"] tp [OF that(1)] bt [OF that(1)] that(2,3)
        by (simp add: row_points_def)
    next
      case False
      then have o: "salpha sp = 0" using assms(5) by simp
      show ?thesis using opaque_columns [OF o that(2) assms(2,3) dims(1,2)] False by simp
    qed
    then show "\<forall>r \<in> set [0..<?h]. 0 \<le> sint y + int r \<and> sint y + int r < int (unat ?gh) \<longrightarrow>
      (\<forall>c. ?row r c = paints (shade_at sp x y) (row_points sp x y ?gw r) c)" by simp
  qed simp
  finally show ?thesis by (simp add: sprite_points_def)
qed

lemma row_points_row: "0 \<le> sint y + int r \<Longrightarrow> p \<in> set (row_points sp x y g r) \<Longrightarrow> int (snd p) = sint y + int r"
  by (auto simp: row_points_def place_def)

lemma distinct_rows:
  assumes "distinct rs" "\<forall>r \<in> set rs. 0 \<le> sint y + int r"
  shows "distinct (concat (map (row_points sp x y g) rs))"
  using assms
proof (induction rs)
  case (Cons r rs)
  have "distinct (row_points sp x y g r)"
    by (auto simp: row_points_def distinct_map inj_on_def place_def)
  moreover have "set (row_points sp x y g r) \<inter> set (concat (map (row_points sp x y g) rs)) = {}"
  proof -
    have False if "p \<in> set (row_points sp x y g r)" "r' \<in> set rs" "p \<in> set (row_points sp x y g r')" for p r'
    proof -
      have "sint y + int r = sint y + int r'"
        using row_points_row [OF _ that(1)] row_points_row [OF _ that(3)] Cons.prems(2) that(2) by simp
      then show False using that(2) Cons.prems(1) by simp
    qed
    then show ?thesis by auto
  qed
  ultimately show ?case using Cons by (simp add: distinct_append)
qed simp

text \<open>The pixels of the screen that a sprite at \<open>(x, y)\<close> lies over.\<close>

definition covers :: "sprite \<Rightarrow> u32 \<Rightarrow> u32 \<Rightarrow> nat \<times> nat \<Rightarrow> bool" where
  "covers sp x y p \<longleftrightarrow> sint x \<le> int (fst p) \<and> int (fst p) < sint x + int (unat (swidth sp)) \<and>
     sint y \<le> int (snd p) \<and> int (snd p) < sint y + int (unat (sheight sp))"

lemma sprite_points_on_screen: "ctx_ok c \<Longrightarrow> \<forall>p \<in> set (sprite_points sp x y c). on_screen c p"
  by (auto simp: sprite_points_def row_points_def place_def on_screen_def nat_less_iff simp del: of_nat_unat)

lemma sprite_points_iff:
  assumes "on_screen c p"
  shows "p \<in> set (sprite_points sp x y c) \<longleftrightarrow> covers sp x y p \<and> is_in_clip c (of_nat (snd p))"
proof
  assume "p \<in> set (sprite_points sp x y c)"
  then obtain k r where *: "p = place x y r k" "k < unat (swidth sp)" "r < unat (sheight sp)" "seen x (gwidth c) k"
    "seen y (gheight c) r" "is_in_clip c (y + of_nat r)"
    by (auto simp: sprite_points_def row_points_def)
  then show "covers sp x y p \<and> is_in_clip c (of_nat (snd p))"
    using word_place [of y r] by (simp add: covers_def place_def del: of_nat_unat)
next
  assume c: "covers sp x y p \<and> is_in_clip c (of_nat (snd p))"
  let ?k = "nat (int (fst p) - sint x)" and ?r = "nat (int (snd p) - sint y)"
  have k: "sint x + int ?k = int (fst p)" "sint y + int ?r = int (snd p)" using c by (simp_all add: covers_def)
  have "?k < unat (swidth sp)" "?r < unat (sheight sp)" using c by (simp_all add: covers_def nat_less_iff del: of_nat_unat)
  moreover have "place x y ?r ?k = p" using k by (simp add: place_def)
  moreover have "seen x (gwidth c) ?k" "seen y (gheight c) ?r" using assms unfolding k on_screen_def by linarith+
  moreover have "y + of_nat ?r = of_nat (snd p)" using word_place [of y ?r, unfolded k nat_int] by (metis of_nat_0_le_iff)
  ultimately show "p \<in> set (sprite_points sp x y c)"
    unfolding sprite_points_def row_points_def using c by force
qed

text \<open>C20. Sprites are clipped. A sprite that starts less than 65536 pixels left of the screen, less than
  \<open>2 ^ 30\<close> right of its origin and less than \<open>2 ^ 30\<close> rows from it, changes exactly the pixels of the screen that it lies over and whose rows are marked for drawing: an opaque one replaces them, one with an
  alpha channel is blended with them. No byte outside the buffer is written.\<close>

theorem draw_sprite_clipped:
  assumes "on_screen c p" "- 0x10000 < sint x" "sint x < 0x40000000" "\<bar>sint y\<bar> < 0x40000000" "salpha sp \<in> {0, 2}"
  shows "pixel p (draw_sprite sp x y c) =
      (if covers sp x y p \<and> is_in_clip c (of_nat (snd p))
       then shade sp (nat (int (fst p) - sint x)) (nat (int (snd p) - sint y)) (pixel p c) else pixel p c) \<and>
    (\<forall>a. \<not> in_buffer c a \<longrightarrow> gmem (draw_sprite sp x y c) a = gmem c a)"
proof (intro conjI allI impI)
  have ok: "ctx_ok c" using assms(1) by (simp add: on_screen_def)
  note paints = draw_sprite_paints [OF ok assms(2-5)] and screen = sprite_points_on_screen [OF ok, of sp x y]
  have "distinct (sprite_points sp x y c)" unfolding sprite_points_def by (rule distinct_rows) simp_all
  then show "pixel p (draw_sprite sp x y c) =
      (if covers sp x y p \<and> is_in_clip c (of_nat (snd p))
       then shade sp (nat (int (fst p) - sint x)) (nat (int (snd p) - sint y)) (pixel p c) else pixel p c)"
    unfolding paints using paints_pixel [OF _ screen assms(1)] by (simp add: sprite_points_iff [OF assms(1)] shade_at_def)
  show "gmem (draw_sprite sp x y c) a = gmem c a" if "\<not> in_buffer c a" for a
    unfolding paints by (rule paints_frame [OF screen that])
qed

text \<open>A screen of four by four pixels at address 64 and an opaque sprite that hangs over its upper left corner.\<close>

definition small_ctx :: gfx_context where
  "small_ctx = \<lparr>gmem = (\<lambda>_. 0), gwidth = 4, gheight = 4, gdepth = 32, gsize = 64, buffer = 64, backbuffer = 64, stride = 16,
     clips = None, clips_size = 0\<rparr>"

definition red_sprite :: sprite where
  "red_sprite = \<lparr>swidth = 3, sheight = 3, sbitmap = (\<lambda>_. 0xFF0000), salpha = 0\<rparr>"

theorem draw_sprite_clipped_witness:
  "pixel (1, 0) (draw_sprite red_sprite (-1) (-1) small_ctx) = 0xFFFF0000 \<and>
   pixel (2, 0) (draw_sprite red_sprite (-1) (-1) small_ctx) = 0 \<and>
   gmem (draw_sprite red_sprite (-1) (-1) small_ctx) 63 = 0"
proof -
  have s: "on_screen small_ctx (1, 0)" "on_screen small_ctx (2, 0)" by (simp_all add: on_screen_def ctx_ok_def small_ctx_def)
  have m: "sint (- 1 :: u32) = - 1" by simp
  have a: "- 0x10000 < sint (- 1 :: u32)" "sint (- 1 :: u32) < 0x40000000" "\<bar>sint (- 1 :: u32)\<bar> < 0x40000000"
    "salpha red_sprite \<in> {0, 2}" by (simp_all add: red_sprite_def)
  have "\<not> in_buffer small_ctx 63" by (simp add: in_buffer_def small_ctx_def)
  then have f: "gmem (draw_sprite red_sprite (-1) (-1) small_ctx) 63 = gmem small_ctx 63"
    using draw_sprite_clipped [OF s(1) a] by blast
  have z: "pixel (2, 0) small_ctx = 0"
    by (simp add: pixel_def GFX_def load32_def GFX_addr_def small_ctx_def)
  show ?thesis using draw_sprite_clipped [OF s(1) a, THEN conjunct1] draw_sprite_clipped [OF s(2) a, THEN conjunct1] f z
    by (simp add: covers_def red_sprite_def is_in_clip_def small_ctx_def shade_def SPRITE_def)
qed

section \<open>Rectangles\<close>

lemma for_u16_fold:
  assumes "n \<le> 65535" "\<forall>i. c i \<longleftrightarrow> unat i < n" "\<forall>k < n. \<forall>s. body (of_nat k) s = Some (f k s)"
  shows "for_u16 i c body s = Some (fold f [unat i..<n] s)"
proof (induction "n - unat i" arbitrary: i s)
  case 0
  then show ?case using assms(2) by (simp add: for_u16.simps)
next
  case (Suc d)
  then have i: "unat i < n" by linarith
  then have "unat (i + 1) = Suc (unat i)" using assms(1) by (simp add: unat_word_ariths(1))
  moreover from this have "for_u16 (i + 1) c body (f (unat i) s) = Some (fold f [unat (i + 1)..<n] (f (unat i) s))"
    using Suc(2) by (intro Suc(1)) linarith
  moreover have "body i s = Some (f (unat i) s)" using assms(3)[rule_format, OF i] by simp
  ultimately show ?case using assms(2) i by (simp add: for_u16.simps [of i] upt_conv_Cons)
qed

text \<open>A bound that no 16-bit number reaches: the loop does not end.\<close>

lemma for_u16_endless:
  assumes "\<forall>i. c i" shows "for_u16 i c body s = None"
proof -
  have "for_u16 i c body s = Some s' \<Longrightarrow> \<exists>j. \<not> c j" for s'
  proof (induction rule: for_u16.raw_induct [rotated 1, consumes 1])
    case 1
    then show ?case by (auto split: if_splits simp: bind_eq_Some_conv)
  qed
  then show ?thesis using assms by (cases "for_u16 i c body s") auto
qed

lemma fold_rows:
  "fold (\<lambda>y. fold (\<lambda>x. set_pixel (x, y) v) xs) ys c = paints (\<lambda>_ _. v) (map prod.swap (List.product ys xs)) c"
proof (induction ys arbitrary: c)
  case (Cons y ys)
  have "fold (\<lambda>x. set_pixel (x, y) v) xs c = paints (\<lambda>_ _. v) (map prod.swap (map (Pair y) xs)) c" for c
    by (induction xs arbitrary: c) simp_all
  then show ?case using Cons by simp
qed simp

lemma fill_loops:
  assumes "x1 \<le> 65535" "y1 \<le> 65535" "\<forall>i. cx i \<longleftrightarrow> unat i < x1" "\<forall>i. cy i \<longleftrightarrow> unat i < y1"
  shows "for_u16 y0 cy (\<lambda>y. for_u16 x0 cx (\<lambda>x c. Some (set_GFX (ucast x) (ucast y) v c))) c =
    Some (paints (\<lambda>_ _. v) (map prod.swap (List.product [unat y0..<y1] [unat x0..<x1])) c)"
proof -
  have w: "ucast (of_nat k :: u16) = (of_nat k :: u32)" if "k < 0x10000" for k
    by (simp add: word_eq_unat32 unsigned_ucast_eq unsigned_of_nat take_bit_nat_eq_self that)
  have "for_u16 y0 cy (\<lambda>y. for_u16 x0 cx (\<lambda>x c. Some (set_GFX (ucast x) (ucast y) v c))) c =
      Some (fold (\<lambda>y. fold (\<lambda>x. set_pixel (x, y) v) [unat x0..<x1]) [unat y0..<y1] c)"
  proof (rule for_u16_fold [OF assms(2,4)], intro allI impI)
    fix y s assume y: "y < y1"
    show "for_u16 x0 cx (\<lambda>x c. Some (set_GFX (ucast x) (ucast (of_nat y :: u16)) v c)) s =
        Some (fold (\<lambda>x. set_pixel (x, y) v) [unat x0..<x1] s)"
      by (rule for_u16_fold [OF assms(1,3)]) (use assms(1,2) y w in \<open>simp add: set_pixel_def\<close>)
  qed
  then show ?thesis by (simp only: fold_rows)
qed


text \<open>A corner of the rectangle, as a number that is not negative.\<close>

lemma unat_u16_of_u32: "unat (a :: u32) < 0x10000 \<Longrightarrow> unat (ucast a :: u16) = unat a"
  by (simp add: unsigned_ucast_eq take_bit_nat_eq_self)

lemma unat_u32_of_u16: "unat (i :: u16) < 0x10000" "unat (ucast i :: u32) = unat i"
proof -
  show i: "unat i < 0x10000" using unsigned_less [of i] by simp
  then show "unat (ucast i :: u32) = unat i" by (simp add: unsigned_ucast_eq take_bit_nat_eq_self)
qed

lemma sless_unat:
  assumes "unat (b :: u32) < 0x80000000" shows "ucast (i :: u16) <s b \<longleftrightarrow> unat i < unat b"
proof -
  have "sint (ucast i :: u32) = int (unat i)" using sint_small_unat [of "ucast i"] unat_u32_of_u16 [of i] by simp
  then show ?thesis using sint_small_unat [OF assms] by (simp add: word_sless_alt del: of_nat_unat)
qed

lemma fill_rect_solid_points:
  assumes "unat (pX p1) \<le> 65535" "unat (pY p1) \<le> 65535"
  shows "fill_rect_solid p0 p1 v c = Some (paints (\<lambda>_ _. v)
    (map prod.swap (List.product [unat (ucast (pY p0) :: u16)..<unat (pY p1)] [unat (ucast (pX p0) :: u16)..<unat (pX p1)])) c)"
  unfolding fill_rect_solid_def draw_pixel_def using assms by (intro fill_loops) (simp_all add: sless_unat)

lemma draw_rect_solid_points:
  assumes "unat (rx r) + unat (rwidth r) \<le> 65535" "unat (ry r) + unat (rheight r) \<le> 65535"
  shows "draw_rect_solid r v c = Some (paints (\<lambda>_ _. v)
    (map prod.swap (List.product [unat (ry r)..<unat (ry r) + unat (rheight r)] [unat (rx r)..<unat (rx r) + unat (rwidth r)])) c)"
proof -
  have b: "(ucast (i :: u16) < a + n) \<longleftrightarrow> unat i < unat a + unat n" if "unat a + unat n \<le> 65535" for i and a n :: u32
  proof -
    have "unat (a + n) = unat a + unat n" using that by (subst unat_add_less) simp_all
    then show ?thesis by (simp add: word_less_nat_alt unat_u32_of_u16)
  qed
  have "unat (ucast (rx r) :: u16) = unat (rx r)" "unat (ucast (ry r) :: u16) = unat (ry r)" using assms by (simp_all add: unat_u16_of_u32)
  then show ?thesis unfolding draw_rect_solid_def using fill_loops [OF assms] b [OF assms(1)] b [OF assms(2)] by metis
qed

lemma draw_fill_points:
  assumes "ctx_ok c"
  shows "draw_fill v c = Some (paints (\<lambda>_ _. v)
    (map prod.swap (List.product [0..<unat (gheight c)] [0..<unat (gwidth c)])) c)"
  unfolding draw_fill_def
  using fill_loops [of "unat (gwidth c)" "unat (gheight c)" _ _ 0 0 v c] assms by (simp add: ctx_ok_def word_less_nat_alt unat_u32_of_u16)

text \<open>With a lower bound above 65535 the rows never end.\<close>

lemma draw_rect_solid_endless:
  assumes "65535 < unat (ry r + rheight r)" shows "draw_rect_solid r v c = None"
proof -
  have "ucast i < ry r + rheight r" for i :: u16
    using assms unat_u32_of_u16 [of i] by (simp add: word_less_nat_alt)
  then show ?thesis unfolding draw_rect_solid_def by (intro for_u16_endless) simp
qed

text \<open>A corner left of or above the screen is truncated to a large number, and nothing is drawn.\<close>

lemma fill_rect_solid_negative:
  assumes "unat (pX p1) \<le> 0x8000" "unat (pY p1) \<le> 0x8000" "- 0x8000 \<le> sint (pY p0)" "sint (pY p0) < 0"
  shows "fill_rect_solid p0 p1 v c = Some c"
proof -
  let ?n = "unat (pY p0)"
  have "int ?n = sint (pY p0) + (if bit (pY p0) 31 then 0x100000000 else 0)" using sint_cases_32 [of "pY p0"] by simp
  then have "int ?n = sint (pY p0) + 0x100000000" using assms(4) of_nat_0_le_iff [of ?n]
    by (cases "bit (pY p0) 31") (simp_all del: of_nat_unat of_nat_0_le_iff)
  then have n: "0xFFFF8000 \<le> ?n" "?n < 0x100000000" using assms(3,4) by linarith+
  have "?n div 0x10000 = 0xFFFF" using n by simp
  then have "0x8000 \<le> ?n mod 0x10000" using n div_mult_mod_eq [of ?n "0x10000"] by linarith
  moreover have "unat (ucast (pY p0) :: u16) = ?n mod 0x10000" by (simp add: unsigned_ucast_eq take_bit_eq_mod)
  ultimately have "unat (pY p1) \<le> unat (ucast (pY p0) :: u16)" using assms(2) by linarith
  then show ?thesis using assms(1,2) by (simp add: fill_rect_solid_points)
qed

definition in_rect :: "rect \<Rightarrow> nat \<times> nat \<Rightarrow> bool" where
  "in_rect r p \<longleftrightarrow> unat (rx r) \<le> fst p \<and> fst p < unat (rx r) + unat (rwidth r) \<and>
     unat (ry r) \<le> snd p \<and> snd p < unat (ry r) + unat (rheight r)"

definition rect_points :: "rect \<Rightarrow> (nat \<times> nat) list" where
  "rect_points r = map prod.swap
     (List.product [unat (ry r)..<unat (ry r) + unat (rheight r)] [unat (rx r)..<unat (rx r) + unat (rwidth r)])"

lemma rect_points_set: "distinct (rect_points r)" "p \<in> set (rect_points r) \<longleftrightarrow> in_rect r p"
  by (cases p; auto simp: rect_points_def distinct_map distinct_product in_rect_def inj_on_def image_iff)+

text \<open>C29. Rectangles. Both routines that fill a rectangle return for one that lies on the screen: exactly its pixels get the
  colour, and no byte outside the buffer is written.\<close>

theorem rectangle_filled:
  assumes "ctx_ok c" "unat (rx r) + unat (rwidth r) \<le> unat (gwidth c)" "unat (ry r) + unat (rheight r) \<le> unat (gheight c)"
  shows "\<exists>c'. draw_rect_solid r v c = Some c' \<and>
    fill_rect_solid \<lparr>pX = rx r, pY = ry r\<rparr> \<lparr>pX = rx r + rwidth r, pY = ry r + rheight r\<rparr> v c = Some c' \<and>
    (\<forall>p. on_screen c p \<longrightarrow> pixel p c' = (if in_rect r p then v else pixel p c)) \<and>
    (\<forall>a. \<not> in_buffer c a \<longrightarrow> gmem c' a = gmem c a)"
proof -
  have dims: "unat (gwidth c) < 0x8000" "unat (gheight c) < 0x8000" using assms(1) by (simp_all add: ctx_ok_def)
  have b: "unat (rx r + rwidth r) = unat (rx r) + unat (rwidth r)" "unat (ry r + rheight r) = unat (ry r) + unat (rheight r)"
    "unat (ucast (rx r) :: u16) = unat (rx r)" "unat (ucast (ry r) :: u16) = unat (ry r)"
    using assms(2,3) dims by (simp_all add: unat_add_less unat_u16_of_u32)
  have on: "\<forall>p \<in> set (rect_points r). on_screen c p" using assms by (auto simp: rect_points_set(2) in_rect_def on_screen_def)
  have "draw_rect_solid r v c = Some (paints (\<lambda>_ _. v) (rect_points r) c)"
    using draw_rect_solid_points [of r v c] assms(2,3) dims by (simp add: rect_points_def)
  moreover have "fill_rect_solid \<lparr>pX = rx r, pY = ry r\<rparr> \<lparr>pX = rx r + rwidth r, pY = ry r + rheight r\<rparr> v c =
      Some (paints (\<lambda>_ _. v) (rect_points r) c)"
    using assms(2,3) dims by (subst fill_rect_solid_points) (simp_all add: b rect_points_def)
  ultimately show ?thesis
    using paints_pixel [OF rect_points_set(1) on] paints_frame [OF on] by (simp add: rect_points_set(2))
qed

theorem rectangle_filled_witness:
  "\<exists>c'. draw_rect_solid \<lparr>rx = 1, ry = 1, rwidth = 2, rheight = 2\<rparr> 7 small_ctx = Some c' \<and> pixel (2, 2) c' = 7 \<and> pixel (3, 2) c' = 0"
proof -
  let ?r = "\<lparr>rx = 1, ry = 1, rwidth = 2, rheight = 2\<rparr> :: rect"
  have s: "ctx_ok small_ctx" "unat (rx ?r) + unat (rwidth ?r) \<le> unat (gwidth small_ctx)"
    "unat (ry ?r) + unat (rheight ?r) \<le> unat (gheight small_ctx)" by (simp_all add: ctx_ok_def small_ctx_def)
  have o: "on_screen small_ctx (2, 2)" "on_screen small_ctx (3, 2)" by (simp_all add: on_screen_def ctx_ok_def small_ctx_def)
  have z: "pixel (3, 2) small_ctx = 0" by (simp add: pixel_def GFX_def load32_def GFX_addr_def small_ctx_def)
  show ?thesis using rectangle_filled [OF s, of 7] o z by (auto simp: in_rect_def)
qed

end
