(* ===== verification/Package.thy ===== *)
theory Package
  imports Device IOQueue
begin

text \<open>
  Pipes (\<^verbatim>\<open>core/fs/pipe.c\<close>) and the messages between a server and its clients (\<^verbatim>\<open>core/vfs/packagefs.c\<close>), both
  over blocking byte queues. A pipe is an entry of the file table whose inode field holds the address of a
  queue. A server and a client are objects at an address of the kernel; a message is sent as its size, its
  source and its data. The bytes that a caller passes or gets by pointer are lists.
\<close>

section \<open>Pipes\<close>

abbreviation PIPE_FLAG :: u32 where "PIPE_FLAG \<equiv> 0xffffff"

definition run_ks :: "(kstate \<Rightarrow> ('a \<times> kstate) option) \<Rightarrow> fsys \<Rightarrow> ('a \<times> fsys) option" where
  "run_ks f s = map_option (\<lambda>(r, k). (r, s\<lparr>ks := k\<rparr>)) (f (ks s))"

definition is_pipe :: "u32 \<Rightarrow> fsys \<Rightarrow> bool option" where
  "is_pipe fd s = do { g_fd \<leftarrow> fd_local2global fd s; Some (fd_flag (g_file_table s (unat g_fd)) = PIPE_FLAG) }"

text \<open>A full file table gives index -1, which is used all the same: a write in front of the table.\<close>

definition sys_pipe :: "(kstate \<Rightarrow> kstate option) \<Rightarrow> fsys \<Rightarrow> (u32 \<times> (u32 \<times> u32) option \<times> fsys) option" where
  "sys_pipe W s = do {
     let g_fd = occupy_file_table_slot s;
     (queue, s) \<leftarrow> run_ks (init_ioqueue W 4096) s;
     ASSERT (g_fd \<noteq> -1);
     let s = upd_file (unat g_fd) (\<lambda>f. f\<lparr>fd_inode := queue\<rparr>) s;
     if queue = 0 then Some (-1, None, s)
     else do {
       let s = upd_file (unat g_fd) (\<lambda>f. f\<lparr>fd_flag := PIPE_FLAG, fd_pos := 2\<rparr>) s;
       let (fd0, s) = install_thread_fd g_fd s;
       let (fd1, s) = install_thread_fd g_fd s;
       Some (0, Some (fd0, fd1), s)
     }
   }"

text \<open>The count is decreased in a copy of the entry, which is then forgotten.\<close>

definition destory_pipe :: "u32 \<Rightarrow> fsys \<Rightarrow> (u32 \<times> fsys) option" where
  "destory_pipe g_fd s =
     (let file = g_file_table s (unat g_fd); file = file\<lparr>fd_pos := fd_pos file - 1\<rparr> in
      if fd_pos file = 0 then do { s \<leftarrow> with_ks (destory_ioqueue (fd_inode file)) s; Some (0, s) } else Some (-1, s))"

definition open_pipe :: "u32 \<Rightarrow> fsys \<Rightarrow> (u32 \<times> fsys) option" where
  "open_pipe fd s = do { b \<leftarrow> is_pipe fd s; if b then do { _ \<leftarrow> fd_local2global fd s; Some (0, s) } else Some (-1, s) }"

definition close_pipe :: "u32 \<Rightarrow> fsys \<Rightarrow> fsys option" where
  "close_pipe fd s = do { g_fd \<leftarrow> fd_local2global fd s; (_, s) \<leftarrow> destory_pipe g_fd s; Some s }"

definition read_pipe :: "(kstate \<Rightarrow> kstate option) \<Rightarrow> u32 \<Rightarrow> u32 \<Rightarrow> fsys \<Rightarrow> (u8 list \<times> u32 \<times> fsys) option" where
  "read_pipe W fd count s = do {
     g_fd \<leftarrow> fd_local2global fd s;
     (buf, n, k) \<leftarrow> ioqueue_get_data W (fd_inode (g_file_table s (unat g_fd))) count (ks s);
     Some (buf, n, s\<lparr>ks := k\<rparr>)
   }"

definition write_pipe :: "(kstate \<Rightarrow> kstate option) \<Rightarrow> u32 \<Rightarrow> u8 list \<Rightarrow> u32 \<Rightarrow> fsys \<Rightarrow> (u32 \<times> fsys) option" where
  "write_pipe W fd buf count s = do {
     g_fd \<leftarrow> fd_local2global fd s;
     run_ks (ioqueue_put_data W (fd_inode (g_file_table s (unat g_fd))) buf count) s
   }"

definition pipe_check :: "u32 \<Rightarrow> fsys \<Rightarrow> u32 option" where
  "pipe_check fd s = do {
     g_fd \<leftarrow> fd_local2global fd s;
     Some (ioqueue_check (queues (ks s) (fd_inode (g_file_table s (unat g_fd)))))
   }"

section \<open>Servers and clients\<close>

text \<open>\<^verbatim>\<open>pkg_server_t\<close>: the name at offset 0, a list node at 4, the lock at 12, the queue, the head of the list of
  clients at 36. \<^verbatim>\<open>pkg_client_t\<close>: the server, a list node at 4, the queue.\<close>

record pkg_server =
  server_name :: "u8 list"
  server_msgs :: addr

record pkg_client =
  client_server :: addr
  client_msgs :: addr

definition server_lock :: "addr \<Rightarrow> addr" where
  "server_lock serv = serv + 12"

definition server_clients :: "addr \<Rightarrow> addr" where
  "server_clients serv = serv + 36"

definition client_target :: "addr \<Rightarrow> addr" where
  "client_target c = c + 4"

definition client_of_target :: "addr \<Rightarrow> addr" where
  "client_of_target node = node - 4"

record pkg_state =
  pfs :: fsys
  pservers :: "addr \<Rightarrow> pkg_server"
  pclients :: "addr \<Rightarrow> pkg_client"

definition on_fs :: "(fsys \<Rightarrow> ('a \<times> fsys) option) \<Rightarrow> pkg_state \<Rightarrow> ('a \<times> pkg_state) option" where
  "on_fs f s = map_option (\<lambda>(r, t). (r, s\<lparr>pfs := t\<rparr>)) (f (pfs s))"

text \<open>
  \<^verbatim>\<open>sys_malloc\<close> of the kernel, whose result is used without a test. The code sets the page directory of the thread to 0 around some of them, so that the kernel's
  heap is used; here every allocation is the next address of the list, and a null result, which the code
  would dereference, is a fault.
\<close>

definition pkg_malloc :: "pkg_state \<Rightarrow> (addr \<times> pkg_state) option" where
  "pkg_malloc s = (let (a, t) = fs_malloc (pfs s) in if a = 0 then None else Some (a, s\<lparr>pfs := t\<rparr>))"

text \<open>\<^verbatim>\<open>package_t\<close>: size, source, data.\<close>

record package =
  p_size :: u32
  p_source :: addr
  p_data :: "u8 list"

definition package_bytes :: "package \<Rightarrow> u8 list" where
  "package_bytes p = le_bytes 4 (p_size p) @ le_bytes 4 (p_source p) @ p_data p"

text \<open>The size comes first; the rest of the packet is read behind it.\<close>

definition receive_packet :: "(kstate \<Rightarrow> kstate option) \<Rightarrow> addr \<Rightarrow> pkg_state \<Rightarrow> (package \<times> u32 \<times> pkg_state) option" where
  "receive_packet W msg_list s = do {
     ((b, _), s) \<leftarrow> on_fs (run_ks (\<lambda>k. map_option (\<lambda>(b, n, k). ((b, n), k)) (ioqueue_get_data W msg_list 4 k))) s;
     let data_size = le_word b;
     (tmp, s) \<leftarrow> pkg_malloc s;
     ((b, res), s) \<leftarrow>
       on_fs (run_ks (\<lambda>k. map_option (\<lambda>(b, n, k). ((b, n), k)) (ioqueue_get_data W msg_list (data_size + 8 - 4) k))) s;
     Some (\<lparr>p_size = data_size, p_source = le_word (take 4 b), p_data = drop 4 b\<rparr>, res + 4, s)
   }"

text \<open>A list shorter than the given size stands for a read behind the buffer of the caller: undefined.\<close>

definition send_package ::
    "(kstate \<Rightarrow> kstate option) \<Rightarrow> addr \<Rightarrow> addr \<Rightarrow> u32 \<Rightarrow> u8 list \<Rightarrow> pkg_state \<Rightarrow> (u32 \<times> pkg_state) option" where
  "send_package W msg_list source sz data s = do {
     (pack, s) \<leftarrow> pkg_malloc s;
     ASSERT (unat sz \<le> length data);
     let p = \<lparr>p_size = sz, p_source = source, p_data = take (unat sz) data\<rparr>;
     on_fs (run_ks (ioqueue_put_data W msg_list (package_bytes p) (8 + sz))) s
   }"

definition send_to_server ::
    "(kstate \<Rightarrow> kstate option) \<Rightarrow> addr \<Rightarrow> addr \<Rightarrow> u32 \<Rightarrow> u8 list \<Rightarrow> pkg_state \<Rightarrow> (u32 \<times> pkg_state) option" where
  "send_to_server W serv c sz data s = send_package W (server_msgs (pservers s serv)) c sz data s"

definition send_to_client ::
    "(kstate \<Rightarrow> kstate option) \<Rightarrow> addr \<Rightarrow> addr \<Rightarrow> u32 \<Rightarrow> u8 list \<Rightarrow> pkg_state \<Rightarrow> (u32 \<times> pkg_state) option" where
  "send_to_client W serv c sz data s = send_package W (client_msgs (pclients s c)) 0 sz data s"

definition create_client :: "(kstate \<Rightarrow> kstate option) \<Rightarrow> addr \<Rightarrow> pkg_state \<Rightarrow> (addr \<times> pkg_state) option" where
  "create_client W server s = do {
     (client, s) \<leftarrow> pkg_malloc s;
     (msg_list, s) \<leftarrow> on_fs (run_ks (init_ioqueue W 4000)) s;
     let s = s\<lparr>pclients := (pclients s)(client := \<lparr>client_server = server, client_msgs = msg_list\<rparr>)\<rparr>;
     (_, s) \<leftarrow> on_fs (run_ks (\<lambda>k. Some ((), upd_lh (list_add_tail (client_target client) (server_clients server)) k))) s;
     Some (client, s)
   }"

text \<open>The name is copied with its terminator into a block of \<^verbatim>\<open>strlen\<close> bytes, one too few.\<close>

definition create_server :: "(kstate \<Rightarrow> kstate option) \<Rightarrow> u8 list \<Rightarrow> pkg_state \<Rightarrow> (addr \<times> pkg_state) option" where
  "create_server W name s = do {
     (server, s) \<leftarrow> pkg_malloc s;
     (msg_list, s) \<leftarrow> on_fs (run_ks (init_ioqueue W 4000)) s;
     (_, s) \<leftarrow> on_fs (run_ks (\<lambda>k. Some ((), upd_lh (INIT_LIST_HEAD (server_clients server)) k))) s;
     (_, s) \<leftarrow> pkg_malloc s;
     let s = s\<lparr>pservers := (pservers s)(server := \<lparr>server_name = name, server_msgs = msg_list\<rparr>)\<rparr>;
     (_, s) \<leftarrow> on_fs (run_ks (\<lambda>k. Some ((), lock_init (server_lock server) k))) s;
     Some (server, s)
   }"

abbreviation O_CREAT :: u32 where "O_CREAT \<equiv> 64"
abbreviation CLIENT_MARK :: u32 where "CLIENT_MARK \<equiv> 0xdeadbeef"

text \<open>\<open>junk\<close> is what the block of a client's inode holds: only four of its fields are set. A full table returns with
  the lock held.\<close>

definition open_pkg ::
    "inode \<Rightarrow> (kstate \<Rightarrow> kstate option) \<Rightarrow> addr \<Rightarrow> u8 list \<Rightarrow> u32 \<Rightarrow> u32 \<Rightarrow> pkg_state \<Rightarrow> (u32 \<times> pkg_state) option" where
  "open_pkg junk W parent_d name inode_nr flags s =
     (if flags AND O_CREAT = O_CREAT then do {
        (server, s) \<leftarrow> create_server W name s;
        (gidx, s) \<leftarrow> on_fs (packagefs_create W parent_d name server) s;
        on_fs (\<lambda>t. Some (install_thread_fd gidx t)) s
      } else do {
        (p, s) \<leftarrow> on_fs (inode_open inode_nr) s;
        (client, s) \<leftarrow> create_client W (hd (i_zones (inodes (pfs s) p))) s;
        (_, s) \<leftarrow> on_fs (\<lambda>t. map_option (Pair ()) (with_ks (lock_fetch W (g_ft_lock t)) t)) s;
        let gidx = occupy_file_table_slot (pfs s);
        if gidx = -1 then Some (-1, s)
        else do {
          (client_inode, s) \<leftarrow> pkg_malloc s;
          let t = upd_inode client_inode (\<lambda>_. junk\<lparr>i_zones := (i_zones junk)[0 := client], i_mode := 2048,
            i_count := i_count junk + 1, i_dev := DNOPKGFS\<rparr>) (pfs s);
          let t = upd_file (unat gidx) (\<lambda>f. f\<lparr>fd_inode := client_inode, fd_pos := CLIENT_MARK, fd_flag := flags\<rparr>) t;
          t \<leftarrow> with_ks (lock_release (g_ft_lock t)) t;
          let (fd, t) = install_thread_fd gidx t;
          Some (fd, s\<lparr>pfs := t\<rparr>)
        }
      })"

section \<open>Reading and writing\<close>

text \<open>The object behind an open file.\<close>

definition file_target :: "nat \<Rightarrow> pkg_state \<Rightarrow> addr" where
  "file_target f s = hd (i_zones (inodes (pfs s) (fd_inode (g_file_table (pfs s) f))))"

text \<open>A packet that does not fit is gone, and its block with it. The tests for an error compare unsigned numbers with 0.\<close>

definition read_server :: "(kstate \<Rightarrow> kstate option) \<Rightarrow> nat \<Rightarrow> u32 \<Rightarrow> pkg_state \<Rightarrow> (u32 \<times> u8 list \<times> pkg_state) option" where
  "read_server W f count s = do {
     (packet, _, s) \<leftarrow> receive_packet W (server_msgs (pservers s (file_target f s))) s;
     if p_size packet + 8 > count then Some (-1, [], s)
     else Some (p_size packet + 8, take (unat (p_size packet + 8)) (package_bytes packet), s)
   }"

definition read_client :: "(kstate \<Rightarrow> kstate option) \<Rightarrow> nat \<Rightarrow> u32 \<Rightarrow> pkg_state \<Rightarrow> (u32 \<times> u8 list \<times> pkg_state) option" where
  "read_client W f count s = do {
     (packet, _, s) \<leftarrow> receive_packet W (client_msgs (pclients s (file_target f s))) s;
     if p_size packet + 8 > count then Some (-1, [], s)
     else Some (p_size packet, take (unat (p_size packet)) (p_data packet), s)
   }"

definition write_client :: "(kstate \<Rightarrow> kstate option) \<Rightarrow> nat \<Rightarrow> u8 list \<Rightarrow> u32 \<Rightarrow> pkg_state \<Rightarrow> (u32 \<times> pkg_state) option" where
  "write_client W f buf count s =
     (let c = file_target f s in
      if count > 1024 then Some (-22, s)
      else do {
        (_, s) \<leftarrow> send_to_server W (client_server (pclients s c)) c count buf s;
        Some (count, s)
      })"

text \<open>The loop over the clients reads the next node after each message.\<close>

partial_function (option) send_to_all ::
    "(kstate \<Rightarrow> kstate option) \<Rightarrow> addr \<Rightarrow> addr \<Rightarrow> u32 \<Rightarrow> u8 list \<Rightarrow> pkg_state \<Rightarrow> pkg_state option" where
  "send_to_all W p node sz data s =
     (if node = server_clients p then Some s
      else do {
        (_, s) \<leftarrow> send_to_client W p (client_of_target node) sz data s;
        send_to_all W p (nxt (lh (ks (pfs s))) node) sz data s
      })"

definition write_server :: "(kstate \<Rightarrow> kstate option) \<Rightarrow> nat \<Rightarrow> u8 list \<Rightarrow> u32 \<Rightarrow> pkg_state \<Rightarrow> (u32 \<times> pkg_state) option" where
  "write_server W f buf count s =
     (let p = file_target f s; target = le_word (take 4 buf); data = drop 4 buf in
      if count - 4 > 1024 then Some (-1, s)
      else if target = 0 then do {
        (_, s) \<leftarrow> on_fs (\<lambda>t. map_option (Pair ()) (with_ks (lock_fetch W (server_lock p)) t)) s;
        s \<leftarrow> send_to_all W p (nxt (lh (ks (pfs s))) (server_clients p)) (count - 4) data s;
        (_, s) \<leftarrow> on_fs (\<lambda>t. map_option (Pair ()) (with_ks (lock_release (server_lock p)) t)) s;
        Some (count, s)
      } else if client_server (pclients s target) \<noteq> p then Some (-1, s)
      else do {
        (n, s) \<leftarrow> send_to_client W p target (count - 4) data s;
        Some (n + 4, s)
      })"

abbreviation IO_PACKAGEFS_QUEUE :: u32 where "IO_PACKAGEFS_QUEUE \<equiv> 0x9001"

definition ioctl_server :: "(kstate \<Rightarrow> kstate option) \<Rightarrow> nat \<Rightarrow> u32 \<Rightarrow> pkg_state \<Rightarrow> (u32 \<times> pkg_state) option" where
  "ioctl_server W f request s =
     (if request = IO_PACKAGEFS_QUEUE then on_fs (run_ks (ioqueue_size W (server_msgs (pservers s (file_target f s))))) s
      else Some (-22, s))"

definition ioctl_client :: "(kstate \<Rightarrow> kstate option) \<Rightarrow> nat \<Rightarrow> u32 \<Rightarrow> pkg_state \<Rightarrow> (u32 \<times> pkg_state) option" where
  "ioctl_client W f request s =
     (if request = IO_PACKAGEFS_QUEUE then on_fs (run_ks (ioqueue_size W (client_msgs (pclients s (file_target f s))))) s
      else Some (-22, s))"

text \<open>The monitor is a block with an empty list, mounted as \<^verbatim>\<open>/dev/pkg/monitor\<close>; the list is never used.\<close>

definition create_packetfs_monitor :: "pkg_state \<Rightarrow> (addr \<times> pkg_state) option" where
  "create_packetfs_monitor s = do {
     (monitor, s) \<leftarrow> pkg_malloc s;
     (_, s) \<leftarrow> on_fs (run_ks (\<lambda>k. Some ((), upd_lh (INIT_LIST_HEAD monitor) k))) s;
     Some (monitor, s)
   }"

definition packagefs_init :: "(u8 list \<Rightarrow> inode) \<Rightarrow> (kstate \<Rightarrow> kstate option) \<Rightarrow> pkg_state \<Rightarrow> pkg_state option" where
  "packagefs_init st W s = do {
     (m, s) \<leftarrow> create_packetfs_monitor s;
     (_, s) \<leftarrow> on_fs (sys_mount_device st W [0x2f, 0x64, 0x65, 0x76, 0x2f, 0x70, 0x6b, 0x67, 0x2f, 0x6d, 0x6f, 0x6e, 0x69, 0x74, 0x6f, 0x72] 6 m) s;
     Some s
   }"

section \<open>Queues without contention\<close>

lemma init_ioqueue_idle:
  assumes "init_ioqueue W sz s = Some (q, s')" "q \<noteq> 0" "running s' \<noteq> 0" "1 < unat sz" "unat sz < 2 ^ 31"
  shows "queue_idle q s' \<and> cq_holds (queues s' q) [] \<and> cq_cap (queues s' q) = unat sz - 1"
proof -
  obtain s1 where "s' = upd_lh (INIT_LIST_HEAD (producer_waiting_list q)) (upd_lh (INIT_LIST_HEAD (consumor_waiting_list q))
      (upd_queue q (\<lambda>r. r\<lparr>producer_p := 0, consumor_p := 0, qsize := sz\<rparr>) (lock_init (queue_lock q) s1)))"
    using assms(1,2) by (auto simp: init_ioqueue_def Let_def elim!: bind_SomeE split: if_splits)
  then show ?thesis
    using assms(3-5)
    by (auto simp: queue_idle_def lock_free_def lock_init_def semaphore_init_def set_sema_def upd_lock_def upd_lh_def upd_queue_def
        INIT_LIST_HEAD_def heap_upd list_is_empty_def queue_lock_def lock_semaphore_def waiting_queue_def
        producer_waiting_list_def consumor_waiting_list_def cq_holds_def ring_def cq_cap_def)
qed

lemma queue_idle_upd_tcb [simp]: "queue_idle q (upd_tcb t f s) = queue_idle q s"
  by (simp add: queue_idle_def lock_free_def upd_tcb_def)

lemma occupy_loop_bound: "idx \<le> 128 \<Longrightarrow> occupy_loop t idx \<le> 128"
  by (induction t idx rule: occupy_loop.induct) (subst occupy_loop.simps, auto)

lemma occupied_slot:
  assumes "occupy_file_table_slot s \<noteq> -1"
  shows "unat (occupy_file_table_slot s) < 128"
  using assms occupy_loop_bound [of 0 "g_file_table s"]
  by (auto simp: occupy_file_table_slot_def Let_def unat_of_nat_32)

text \<open>Descriptors lead to the entry that was installed.\<close>

lemma small_not_negative: "unat (g :: u32) < 128 \<Longrightarrow> \<not> g <s 0 \<and> g <s 128"
  using sless_small [of g 0] sless_small [of g 128] by simp

lemma free_fd_loop_bound: "idx \<le> 32 \<Longrightarrow> idx \<le> free_fd_loop t idx \<and> free_fd_loop t idx \<le> 32"
proof (induction t idx rule: free_fd_loop.induct)
  case (1 t idx)
  then show ?case by (subst (1 2) free_fd_loop.simps) auto
qed

lemma free_fd_loop_free: "free_fd_loop t idx < 32 \<Longrightarrow> t (free_fd_loop t idx) = -1"
proof (induction t idx rule: free_fd_loop.induct)
  case (1 t idx)
  then show ?case by (subst free_fd_loop.simps) (auto simp: free_fd_loop.simps [of t idx] split: if_splits)
qed

text \<open>What \<open>sys_pipe\<close> leaves: two descriptors of one entry, whose queue is empty and idle.\<close>

definition pipe_ends :: "u32 \<Rightarrow> u32 \<Rightarrow> u32 \<Rightarrow> fsys \<Rightarrow> bool" where
  "pipe_ends g r w s \<longleftrightarrow> r \<noteq> w \<and> fd_local2global r s = Some g \<and> fd_local2global w s = Some g \<and>
     fd_flag (g_file_table s (unat g)) = PIPE_FLAG \<and> fd_pos (g_file_table s (unat g)) = 2"

abbreviation pipe_queue :: "u32 \<Rightarrow> fsys \<Rightarrow> addr" where
  "pipe_queue g s \<equiv> fd_inode (g_file_table s (unat g))"

lemma install_twice:
  assumes "install_thread_fd g s = (r, s1)" "install_thread_fd g s1 = (w, s2)" "r \<noteq> -1" "w \<noteq> -1" "unat g < 128"
  shows "r \<noteq> w \<and> fd_local2global r s2 = Some g \<and> fd_local2global w s2 = Some g \<and>
    (\<exists>f1 f2. s2 = s\<lparr>ks := upd_tcb (running (ks s)) f2 (upd_tcb (running (ks s)) f1 (ks s))\<rparr>)"
proof -
  let ?p = "running (ks s)"
  let ?t = "fd_table (tcbs (ks s) ?p)"
  let ?i = "free_fd_loop ?t 3"
  let ?j = "free_fd_loop (?t(?i := g)) 3"
  have i: "?i < 32" "r = of_nat ?i" "s1 = s\<lparr>ks := upd_tcb ?p (\<lambda>t. t\<lparr>fd_table := (fd_table t)(?i := g)\<rparr>) (ks s)\<rparr>"
    using assms(1,3) free_fd_loop_bound [of 3 ?t] by (auto simp: install_thread_fd_def Let_def running_thread_def split: if_splits)
  then have t1: "fd_table (tcbs (ks s1) ?p) = ?t(?i := g)" "running (ks s1) = ?p" by (simp_all add: upd_tcb_def)
  have j: "?j < 32" "w = of_nat ?j" "s2 = s1\<lparr>ks := upd_tcb ?p (\<lambda>t. t\<lparr>fd_table := (fd_table t)(?j := g)\<rparr>) (ks s1)\<rparr>"
    using assms(2,4) free_fd_loop_bound [of 3 "?t(?i := g)"] t1
    by (auto simp: install_thread_fd_def Let_def running_thread_def split: if_splits)
  have g: "g \<noteq> -1" "\<not> g <s 0 \<and> g <s 128" using assms(5) small_not_negative unat_minus_one_32 by auto
  have ne: "?i \<noteq> ?j" using free_fd_loop_free [OF j(1)] g(1) by auto
  have u: "unat r = ?i" "unat w = ?j" using i(1,2) j(1,2) by (simp_all add: unat_of_nat_32)
  have "fd_table (tcbs (ks s2) ?p) = ?t(?i := g, ?j := g)" "running (ks s2) = ?p" using j(3) t1 by (simp_all add: upd_tcb_def)
  then have "fd_local2global r s2 = Some g" "fd_local2global w s2 = Some g"
    using u ne g(2) by (simp_all add: fd_local2global_def running_thread_def Let_def)
  moreover have "r \<noteq> w" using u ne by auto
  moreover have "s2 = s\<lparr>ks := upd_tcb ?p (\<lambda>t. t\<lparr>fd_table := (fd_table t)(?j := g)\<rparr>)
      (upd_tcb ?p (\<lambda>t. t\<lparr>fd_table := (fd_table t)(?i := g)\<rparr>) (ks s))\<rparr>" using i(3) j(3) by simp
  ultimately show ?thesis by blast
qed

definition pipe_holds :: "u32 \<Rightarrow> u32 \<Rightarrow> u32 \<Rightarrow> u8 list \<Rightarrow> fsys \<Rightarrow> bool" where
  "pipe_holds g r w xs s \<longleftrightarrow> pipe_ends g r w s \<and> queue_idle (pipe_queue g s) (ks s) \<and>
     cq_holds (queues (ks s) (pipe_queue g s)) xs \<and> cq_cap (queues (ks s) (pipe_queue g s)) = 4095"

abbreviation pipe_ring :: "u32 \<Rightarrow> fsys \<Rightarrow> cqueue" where
  "pipe_ring g s \<equiv> queues (ks s) (pipe_queue g s)"

lemma sys_pipe_ends:
  assumes "sys_pipe W s = Some (0, Some (r, w), s1)" "r \<noteq> -1" "w \<noteq> -1" "running (ks s1) \<noteq> 0"
  shows "\<exists>g. pipe_holds g r w [] s1 \<and> consumor_p (pipe_ring g s1) = 0"
proof -
  let ?g = "occupy_file_table_slot s"
  obtain q k a b where *: "init_ioqueue W 4096 (ks s) = Some (q, k)" "?g \<noteq> -1" "q \<noteq> 0"
    "install_thread_fd ?g (upd_file (unat ?g) (\<lambda>f. f\<lparr>fd_flag := PIPE_FLAG, fd_pos := 2\<rparr>)
      (upd_file (unat ?g) (\<lambda>f. f\<lparr>fd_inode := q\<rparr>) (s\<lparr>ks := k\<rparr>))) = (r, a)" "install_thread_fd ?g a = (w, s1)"
    using assms(1) by (auto simp: sys_pipe_def run_ks_def Let_def elim!: bind_SomeE split: if_splits prod.splits)
  let ?s = "upd_file (unat ?g) (\<lambda>f. f\<lparr>fd_flag := PIPE_FLAG, fd_pos := 2\<rparr>) (upd_file (unat ?g) (\<lambda>f. f\<lparr>fd_inode := q\<rparr>) (s\<lparr>ks := k\<rparr>))"
  from install_twice [OF *(4,5) assms(2,3) occupied_slot [OF *(2)]] obtain f1 f2 where
    i: "r \<noteq> w" "fd_local2global r s1 = Some ?g" "fd_local2global w s1 = Some ?g"
      "s1 = ?s\<lparr>ks := upd_tcb (running (ks ?s)) f2 (upd_tcb (running (ks ?s)) f1 (ks ?s))\<rparr>" by blast
  have k: "ks ?s = k" "running (ks s1) = running k" "queues (ks s1) = queues k"
    "g_file_table s1 (unat ?g) = \<lparr>fd_pos = 2, fd_flag = PIPE_FLAG, fd_inode = q\<rparr>"
    by (simp_all add: i(4) upd_file_def) (simp add: upd_tcb_def)
  have "queue_idle q (ks s1) = queue_idle q k" by (simp add: i(4) upd_file_def)
  moreover have "consumor_p (queues k q) = 0"
    using *(1,3) by (auto simp: init_ioqueue_def Let_def upd_queue_def elim!: bind_SomeE split: if_splits)
  ultimately show ?thesis
    using init_ioqueue_idle [OF *(1,3)] assms(4) i(1-3) k by (intro exI [of _ ?g]) (simp add: pipe_ends_def pipe_holds_def)
qed

lemma fd_local2global_queue [simp]: "fd_local2global fd (s\<lparr>ks := upd_queue q f k\<rparr>) = fd_local2global fd (s\<lparr>ks := k\<rparr>)"
  by (simp add: fd_local2global_def running_thread_def upd_queue_def)

lemma check_holds: "cq_holds q xs \<Longrightarrow> ioqueue_check q = (if xs = [] then -1 else 0)"
  using ring_counts(1) [of q xs] by (auto simp: ioqueue_check_def word_gt_0 word_eq_unat32)

lemma pipe_holds_upd:
  assumes "pipe_holds g r w xs s" "cq_holds rg ys" "cq_cap rg = 4095"
  shows "pipe_holds g r w ys (s\<lparr>ks := upd_queue (pipe_queue g s) (\<lambda>_. rg) (ks s)\<rparr>)"
  using assms by (simp add: pipe_holds_def pipe_ends_def)

lemma write_pipe_holds:
  assumes "pipe_holds g r w xs s" "length data = unat n" "length xs + unat n < 4095"
  shows "\<exists>s'. write_pipe V w data n s = Some (n, s') \<and> pipe_holds g r w (xs @ data) s' \<and>
    pipe_ring g s' = fold put_byte data (pipe_ring g s)"
proof -
  note d = assms(1) [unfolded pipe_holds_def]
  let ?q = "pipe_queue g s"
  let ?rg = "fold put_byte data (queues (ks s) ?q)"
  have p: "ioqueue_put_data V ?q data n (ks s) = Some (n, if n = 0 then ks s else upd_queue ?q (\<lambda>_. ?rg) (ks s))"
    using put_data_idle [of ?q "ks s" xs data n V] d assms(2,3) by simp
  have "cq_holds ?rg (xs @ data) \<and> cq_cap ?rg = 4095" using cq.enq_many [of "queues (ks s) ?q" xs data] d assms(2,3) by simp
  then show ?thesis
    using p d assms pipe_holds_upd [OF assms(1), of ?rg "xs @ data"]
    by (cases "n = 0") (auto simp: write_pipe_def run_ks_def pipe_ends_def)
qed

lemma read_pipe_holds:
  assumes "pipe_holds g r w (xs @ ys) s" "length xs = unat n"
  shows "\<exists>s'. read_pipe V r n s = Some (xs, n, s') \<and> pipe_holds g r w ys s' \<and>
    pipe_ring g s' = snd (cq.deq_many (length xs) (pipe_ring g s))"
proof -
  note d = assms(1) [unfolded pipe_holds_def]
  let ?q = "pipe_queue g s"
  let ?rg = "snd (cq.deq_many (length xs) (queues (ks s) ?q))"
  have p: "ioqueue_get_data V ?q n (ks s) = Some (xs, n, if n = 0 then ks s else upd_queue ?q (\<lambda>_. ?rg) (ks s))"
    using get_data_idle [of ?q "ks s" xs ys n V] d assms(2) by simp
  have "cq_holds ?rg ys \<and> cq_cap ?rg = 4095" using cq.deq_many_holds [of "queues (ks s) ?q" xs ys] d by simp
  then show ?thesis
    using p d assms pipe_holds_upd [OF assms(1), of ?rg ys]
    by (cases "n = 0") (auto simp: read_pipe_def pipe_ends_def)
qed

lemma pipe_size: "pipe_holds g r w xs s \<Longrightarrow> unat (qsize (pipe_ring g s)) = 4096"
  unfolding pipe_holds_def cq_cap_def by linarith

text \<open>Which bytes of the ring a transfer touches, as long as it does not wrap around.\<close>

lemma fold_put_frame:
  assumes "unat (producer_p q) + length bs < unat (qsize q)"
  shows "consumor_p (fold put_byte bs q) = consumor_p q"
    and "unat (producer_p q) + length bs \<le> unat i \<Longrightarrow> qbuf (fold put_byte bs q) i = qbuf q i"
proof -
  have "consumor_p (fold put_byte bs q) = consumor_p q \<and>
    (unat (producer_p q) + length bs \<le> unat i \<longrightarrow> qbuf (fold put_byte bs q) i = qbuf q i)"
    using assms
  proof (induction bs arbitrary: q)
    case (Cons b bs)
    have "unat (producer_p (put_byte b q)) = Suc (unat (producer_p q))"
      using Cons.prems unat_next [of "producer_p q" "unat (qsize q)" "qsize q"] unat_less_32 [of "qsize q"]
      by (simp add: put_byte_def next_index_def)
    moreover have "qsize (put_byte b q) = qsize q" by (simp add: put_byte_def)
    ultimately show ?case using Cons.IH [of "put_byte b q"] Cons.prems by (auto simp: put_byte_def)
  qed simp
  then show "consumor_p (fold put_byte bs q) = consumor_p q"
    "unat (producer_p q) + length bs \<le> unat i \<Longrightarrow> qbuf (fold put_byte bs q) i = qbuf q i" by blast+
qed

lemma deq_many_frame:
  assumes "unat (consumor_p q) + n < unat (qsize q)"
  shows "unat (consumor_p (snd (cq.deq_many n q))) = unat (consumor_p q) + n \<and> qbuf (snd (cq.deq_many n q)) = qbuf q"
  using assms
proof (induction n arbitrary: q)
  case (Suc n)
  have "unat (consumor_p (snd (get_byte q))) = Suc (unat (consumor_p q))"
    using Suc.prems unat_next [of "consumor_p q" "unat (qsize q)" "qsize q"] unat_less_32 [of "qsize q"]
    by (simp add: get_byte_def next_index_def)
  moreover have "qsize (snd (get_byte q)) = qsize q" "qbuf (snd (get_byte q)) = qbuf q" by (simp_all add: get_byte_def)
  ultimately show ?case using Suc.IH [of "snd (get_byte q)"] Suc.prems by (simp add: case_prod_unfold Let_def)
qed simp

text \<open>
  The ring of a pipe has 4096 bytes and begins 48 bytes behind the start of its only page, so its
  positions from 4048 on lie in the next page, which the pipe does not own. \<open>consumor_p\<close> is the number of
  bytes read so far until then.
\<close>

text \<open>C19. A pipe is a channel for the first 4048 bytes written to it, from the state in which \<open>sys_pipe\<close> leaves it, with
  nothing inside (lemma \<open>sys_pipe_ends\<close>): what is written to its second descriptor is read from its first, behind
  what was written before, and neither call blocks while there is enough to read. All bytes stored lie in the page of
  the pipe. The test for input tells whether anything is left.\<close>

theorem pipe_channel:
  assumes "pipe_holds g r w (xs @ ys) s" "length data = unat n" "length xs = unat m"
    and "unat (consumor_p (pipe_ring g s)) + length (xs @ ys) + unat n \<le> 4048"
  shows "\<exists>s1 s2. write_pipe V w data n s = Some (n, s1) \<and> read_pipe V r m s1 = Some (xs, m, s2) \<and>
    pipe_holds g r w (ys @ data) s2 \<and> pipe_check r s2 = Some (if ys @ data = [] then -1 else 0) \<and>
    unat (consumor_p (pipe_ring g s2)) = unat (consumor_p (pipe_ring g s)) + length xs \<and>
    (\<forall>i \<ge> 4048. qbuf (pipe_ring g s2) i = qbuf (pipe_ring g s) i)"
proof -
  have room: "length (xs @ ys) + unat n < 4095" using assms(4) by simp
  obtain s1 where w: "write_pipe V w data n s = Some (n, s1)" "pipe_holds g r w (xs @ ys @ data) s1"
    "pipe_ring g s1 = fold put_byte data (pipe_ring g s)"
    using write_pipe_holds [OF assms(1,2) room] by auto
  obtain s2 where r: "read_pipe V r m s1 = Some (xs, m, s2)" "pipe_holds g r w (ys @ data) s2"
    "pipe_ring g s2 = snd (cq.deq_many (length xs) (pipe_ring g s1))"
    using read_pipe_holds [OF w(2) assms(3)] by blast
  have "pipe_check r s2 = Some (if ys @ data = [] then -1 else 0)"
    using r(2) check_holds [of "queues (ks s2) (pipe_queue g s2)" "ys @ data"] by (simp add: pipe_check_def pipe_holds_def pipe_ends_def)
  moreover have "unat (producer_p (pipe_ring g s)) = unat (consumor_p (pipe_ring g s)) + length (xs @ ys)"
    using assms(1,4) pipe_size [OF assms(1)] by (simp add: pipe_holds_def cq_holds_def)
  then have p: "unat (producer_p (pipe_ring g s)) + length data \<le> 4048" using assms(2,4) by simp
  then have f: "consumor_p (pipe_ring g s1) = consumor_p (pipe_ring g s)"
    "\<And>i. 4048 \<le> unat i \<Longrightarrow> qbuf (pipe_ring g s1) i = qbuf (pipe_ring g s) i"
    using fold_put_frame [of "pipe_ring g s" data] pipe_size [OF assms(1)] unfolding w(3) by simp_all
  have "unat (consumor_p (pipe_ring g s1)) + length xs < unat (qsize (pipe_ring g s1))"
    using f(1) assms(4) pipe_size [OF w(2)] by simp
  note deq_many_frame [OF this, folded r(3)]
  ultimately show ?thesis using w(1) r(1,2) f by (auto simp: word_le_nat_alt)
qed

text \<open>A write that goes further stores the byte of position 4048 in the next page.\<close>

lemma pipe_write_leaves_page:
  assumes "pipe_holds g r w xs s" "length data = unat n" "length xs + unat n < 4095"
    and "k = 4048 - unat (consumor_p (pipe_ring g s)) - length xs"
    and "unat (consumor_p (pipe_ring g s)) + length xs \<le> 4048" "k < unat n"
    and "unat (producer_p (pipe_ring g s)) + unat n < 4096"
  shows "\<exists>s1. write_pipe V w data n s = Some (n, s1) \<and> qbuf (pipe_ring g s1) 4048 = data ! k"
proof -
  obtain s1 where w: "write_pipe V w data n s = Some (n, s1)" "pipe_holds g r w (xs @ data) s1"
    "pipe_ring g s1 = fold put_byte data (pipe_ring g s)"
    using write_pipe_holds [OF assms(1-3)] by auto
  let ?c = "unat (consumor_p (pipe_ring g s))"
  have c: "consumor_p (pipe_ring g s1) = consumor_p (pipe_ring g s)"
    unfolding w(3) by (rule fold_put_frame(1)) (use assms(2,7) pipe_size [OF assms(1)] in simp)
  have "ring (qbuf (pipe_ring g s1)) ?c 4096 (xs @ data)"
    using w(2) pipe_size [OF w(2)] c by (simp add: pipe_holds_def cq_holds_def)
  moreover have "length xs + k < length (xs @ data)" "?c + (length xs + k) = 4048" using assms(2,4-6) by simp_all
  ultimately have "qbuf (pipe_ring g s1) (of_nat (4048 mod 4096)) = (xs @ data) ! (length xs + k)"
    unfolding ring_def by metis
  then show ?thesis using w(1) by (intro exI [of _ s1]) simp
qed

definition sample_pipe :: fsys where
  "sample_pipe = upd_file 0 (\<lambda>_. \<lparr>fd_pos = 2, fd_flag = PIPE_FLAG, fd_inode = 0xc0300000\<rparr>)
     (sample_fs\<lparr>ks := upd_queue 0xc0300000 (\<lambda>r. r\<lparr>qsize := 4096\<rparr>) boot_kstate\<rparr>)"

text \<open>All descriptors of the sample's thread lead to entry 0.\<close>

theorem pipe_channel_witness:
  "\<exists>s1 s2. write_pipe (\<lambda>_. None) 4 [7, 8] 2 sample_pipe = Some (2, s1) \<and> pipe_holds 0 3 4 [7, 8] s2"
proof -
  have q: "ks sample_pipe = upd_queue 0xc0300000 (\<lambda>r. r\<lparr>qsize := 4096\<rparr>) boot_kstate"
    "g_file_table sample_pipe 0 = \<lparr>fd_pos = 2, fd_flag = PIPE_FLAG, fd_inode = 0xc0300000\<rparr>"
    by (simp_all add: sample_pipe_def upd_file_def)
  have i: "queue_idle 0xc0300000 boot_kstate"
    by (simp add: queue_idle_def lock_free_def list_is_empty_def) (simp add: boot_kstate_def)
  have "fd_local2global fd sample_pipe = Some 0" for fd
    by (simp add: fd_local2global_def q running_thread_def upd_queue_def) (simp add: boot_kstate_def zero_tcb_def word_sless_alt)
  moreover have c: "consumor_p (pipe_ring 0 sample_pipe) = 0"
    by (simp add: q upd_queue_def) (simp add: boot_kstate_def)
  ultimately have "pipe_holds 0 3 4 [] sample_pipe"
    using i by (simp add: pipe_holds_def pipe_ends_def q cq_holds_def cq_cap_def) (simp add: boot_kstate_def ring_def)
  then show ?thesis using pipe_channel [of 0 3 4 "[]" "[]" sample_pipe "[7, 8]" 2 0] c by auto
qed

text \<open>Closing an end only counts in a copy: the pipe stays, however often it is closed.\<close>

lemma pipe_never_released:
  assumes "pipe_ends g r w s" shows "close_pipe r s = Some s" "close_pipe w s = Some s"
  using assms by (simp_all add: close_pipe_def destory_pipe_def pipe_ends_def Let_def)

section \<open>Messages arrive whole and in order\<close>

definition packages :: "package list \<Rightarrow> u8 list" where
  "packages ps = concat (map package_bytes ps)"

definition package_ok :: "package \<Rightarrow> bool" where
  "package_ok p \<longleftrightarrow> length (p_data p) = unat (p_size p) \<and> unat (p_size p) \<le> 1024"

text \<open>A queue of messages that nobody else uses, and a kernel that has memory.\<close>

definition mailbox :: "addr \<Rightarrow> package list \<Rightarrow> pkg_state \<Rightarrow> bool" where
  "mailbox q ps s \<longleftrightarrow> queue_idle q (ks (pfs s)) \<and> cq_holds (queues (ks (pfs s)) q) (packages ps) \<and>
     cq_cap (queues (ks (pfs s)) q) = 3999 \<and> (\<forall>p \<in> set ps. package_ok p)"

definition has_memory :: "nat \<Rightarrow> pkg_state \<Rightarrow> bool" where
  "has_memory n s \<longleftrightarrow> n \<le> length (allocs (pfs s)) \<and> 0 \<notin> set (allocs (pfs s))"

text \<open>What a message does to the state: a block is taken, and one ring changes.\<close>

definition ring_step :: "addr \<Rightarrow> pkg_state \<Rightarrow> pkg_state \<Rightarrow> bool" where
  "ring_step q s s' \<longleftrightarrow> (\<exists>rg. s' = s\<lparr>pfs := (pfs s)\<lparr>allocs := tl (allocs (pfs s)), ks := upd_queue q (\<lambda>_. rg) (ks (pfs s))\<rparr>\<rparr>)"

lemma pkg_malloc_memory:
  "has_memory (Suc n) s \<Longrightarrow> \<exists>a. pkg_malloc s = Some (a, s\<lparr>pfs := (pfs s)\<lparr>allocs := tl (allocs (pfs s))\<rparr>\<rparr>) \<and> a \<noteq> 0"
  by (cases "allocs (pfs s)") (auto simp: has_memory_def pkg_malloc_def fs_malloc_def)

lemma has_memory_tl: "has_memory (Suc n) s \<Longrightarrow> has_memory n (s\<lparr>pfs := t\<rparr>)" if "allocs t = tl (allocs (pfs s))"
  using that by (cases "allocs (pfs s)") (auto simp: has_memory_def)

lemma package_length: "package_ok p \<Longrightarrow> length (package_bytes p) = unat (8 + p_size p)"
  by (simp add: package_ok_def package_bytes_def unat_add_less)

lemma send_package_ok:
  assumes "mailbox q ps s" "has_memory (Suc n) s" "length data = unat sz" "unat sz \<le> 1024"
    "length (packages ps) + 8 + unat sz < 3999"
  shows "\<exists>s'. send_package W q src sz data s = Some (8 + sz, s') \<and> mailbox q (ps @ [\<lparr>p_size = sz, p_source = src, p_data = data\<rparr>]) s' \<and>
    ring_step q s s' \<and> has_memory n s'"
proof -
  let ?p = "\<lparr>p_size = sz, p_source = src, p_data = data\<rparr>"
  let ?k = "ks (pfs s)"
  let ?rg = "fold put_byte (package_bytes ?p) (queues ?k q)"
  note m = assms(1) [unfolded mailbox_def]
  have ok: "package_ok ?p" using assms(3,4) by (simp add: package_ok_def)
  have len: "length (package_bytes ?p) = unat (8 + sz)" "unat (8 + sz) = 8 + unat sz"
    using package_length [OF ok] assms(4) by (simp_all add: unat_add_less)
  then have nz: "8 + sz \<noteq> 0" by auto
  obtain a where a: "pkg_malloc s = Some (a, s\<lparr>pfs := (pfs s)\<lparr>allocs := tl (allocs (pfs s))\<rparr>\<rparr>)"
    using pkg_malloc_memory [OF assms(2)] by blast
  have put: "ioqueue_put_data W q (package_bytes ?p) (8 + sz) ?k = Some (8 + sz, upd_queue q (\<lambda>_. ?rg) ?k)"
    using put_data_idle [of q ?k "packages ps" "package_bytes ?p" "8 + sz" W] m len assms(5) nz by simp
  let ?s' = "s\<lparr>pfs := (pfs s)\<lparr>allocs := tl (allocs (pfs s)), ks := upd_queue q (\<lambda>_. ?rg) ?k\<rparr>\<rparr>"
  have "send_package W q src sz data s = Some (8 + sz, ?s')"
    using a put assms(3) by (simp add: send_package_def on_fs_def run_ks_def Let_def)
  moreover have "cq_holds ?rg (packages ps @ package_bytes ?p) \<and> cq_cap ?rg = 3999"
    using cq.enq_many [of "queues ?k q" "packages ps" "package_bytes ?p"] m len assms(5) by simp
  then have "mailbox q (ps @ [?p]) ?s'" using m ok by (simp add: mailbox_def packages_def)
  moreover have "ring_step q s ?s'" unfolding ring_step_def by blast
  moreover have "has_memory n ?s'" by (rule has_memory_tl [OF _ assms(2)]) simp
  ultimately show ?thesis by blast
qed

lemma upd_queue_twice [simp]: "upd_queue q f (upd_queue q g k) = upd_queue q (\<lambda>r. f (g r)) k"
  by (simp add: upd_queue_def)

lemma packages_Cons: "packages (p # ps) = le_bytes 4 (p_size p) @ le_bytes 4 (p_source p) @ p_data p @ packages ps"
  by (simp add: packages_def package_bytes_def)

lemma receive_packet_ok:
  assumes "mailbox q (p # ps) s" "has_memory (Suc n) s"
  shows "\<exists>s'. receive_packet W q s = Some (p, p_size p + 8, s') \<and> mailbox q ps s' \<and> ring_step q s s' \<and> has_memory n s'"
proof -
  let ?k = "ks (pfs s)" and ?h = "le_bytes 4 (p_size p)" and ?t = "le_bytes 4 (p_source p) @ p_data p"
  note m = assms(1) [unfolded mailbox_def]
  have ok: "length (p_data p) = unat (p_size p)" "unat (p_size p) \<le> 1024" using m by (simp_all add: package_ok_def)
  have cnt: "unat (p_size p + 8 - 4) = unat (p_size p) + 4" "p_size p + 8 - 4 \<noteq> 0"
  proof -
    have e: "p_size p + 8 - 4 = p_size p + 4" by simp
    show "unat (p_size p + 8 - 4) = unat (p_size p) + 4" unfolding e using ok(2) by (subst unat_add_less) simp_all
    then show "p_size p + 8 - 4 \<noteq> 0" by (metis add_is_0 unat_0 zero_neq_numeral)
  qed
  let ?r1 = "snd (cq.deq_many (length ?h) (queues ?k q))"
  let ?r2 = "snd (cq.deq_many (length ?t) ?r1)"
  have h: "cq_holds (queues ?k q) (?h @ ?t @ packages ps)" using m by (simp add: packages_Cons)
  have g1: "ioqueue_get_data W q 4 ?k = Some (?h, 4, upd_queue q (\<lambda>_. ?r1) ?k)"
    using get_data_idle [OF _ h, of 4 W] m by simp
  have h1: "cq_holds ?r1 (?t @ packages ps) \<and> cq_cap ?r1 = 3999" using cq.deq_many_holds [OF h] m by simp
  have g2: "ioqueue_get_data W q (p_size p + 8 - 4) (upd_queue q (\<lambda>_. ?r1) ?k) =
      Some (?t, p_size p + 8 - 4, upd_queue q (\<lambda>_. ?r2) ?k)"
    using get_data_idle [of q "upd_queue q (\<lambda>_. ?r1) ?k" ?t "packages ps" "p_size p + 8 - 4" W] m h1 ok cnt by simp
  have h2: "cq_holds ?r2 (packages ps) \<and> cq_cap ?r2 = 3999" using cq.deq_many_holds [of ?r1 ?t "packages ps"] h1 by simp
  let ?s1 = "s\<lparr>pfs := (pfs s)\<lparr>ks := upd_queue q (\<lambda>_. ?r1) ?k\<rparr>\<rparr>"
  have "has_memory (Suc n) ?s1" using assms(2) by (simp add: has_memory_def)
  from pkg_malloc_memory [OF this] obtain a where
    a: "pkg_malloc ?s1 = Some (a, s\<lparr>pfs := (pfs s)\<lparr>ks := upd_queue q (\<lambda>_. ?r1) ?k, allocs := tl (allocs (pfs s))\<rparr>\<rparr>)" by auto
  let ?s' = "s\<lparr>pfs := (pfs s)\<lparr>allocs := tl (allocs (pfs s)), ks := upd_queue q (\<lambda>_. ?r2) ?k\<rparr>\<rparr>"
  have "receive_packet W q s = Some (p, p_size p + 8, ?s')"
    using g1 g2 a by (simp add: receive_packet_def on_fs_def run_ks_def Let_def)
  moreover have "mailbox q ps ?s'" using m h2 by (simp add: mailbox_def)
  moreover have "ring_step q s ?s'" unfolding ring_step_def by blast
  moreover have "has_memory n ?s'" by (rule has_memory_tl [OF _ assms(2)]) simp
  ultimately show ?thesis by blast
qed

lemma ring_step_keeps:
  assumes "ring_step q s s'"
  shows "file_target f s' = file_target f s" "pservers s' = pservers s" "pclients s' = pclients s"
    "lh (ks (pfs s')) = lh (ks (pfs s))" "q' \<noteq> q \<Longrightarrow> mailbox q' ps s' = mailbox q' ps s"
  using assms by (auto simp: ring_step_def file_target_def mailbox_def) (simp_all add: upd_queue_def)

text \<open>The address of the queue that is read and written through an open file of a server.\<close>

definition server_queue :: "nat \<Rightarrow> pkg_state \<Rightarrow> addr" where
  "server_queue f s = server_msgs (pservers s (file_target f s))"

text \<open>C17. Messages to a server. What a client writes is put behind the messages that wait, as one message with its size
  and its source; the server reads whole messages, the oldest first, and the others keep their order and their borders.\<close>

theorem messages_in_order:
  assumes "mailbox (server_queue fs s) ps s" "client_server (pclients s (file_target fc s)) = file_target fs s"
    "has_memory 2 s" "length data = unat n" "unat n \<le> 1024" "length (packages ps) + 8 + unat n < 3999"
    "\<forall>p \<in> set ps. unat (p_size p) + 8 \<le> unat count" "unat n + 8 \<le> unat count"
  defines "msg \<equiv> \<lparr>p_size = n, p_source = file_target fc s, p_data = data\<rparr>"
  shows "\<exists>s1 s2. write_client W fc data n s = Some (n, s1) \<and> mailbox (server_queue fs s) (ps @ [msg]) s1 \<and>
    read_server V fs count s1 = Some (p_size (hd (ps @ [msg])) + 8, package_bytes (hd (ps @ [msg])), s2) \<and>
    mailbox (server_queue fs s) (tl (ps @ [msg])) s2"
proof -
  let ?q = "server_queue fs s"
  obtain s1 where w: "send_package W ?q (file_target fc s) n data s = Some (8 + n, s1)" "mailbox ?q (ps @ [msg]) s1"
    "ring_step ?q s s1" "has_memory 1 s1"
    using send_package_ok [of ?q ps s 1 data n W "file_target fc s"] assms by (auto simp: numeral_2_eq_2)
  have "\<not> n > 1024" using assms(5) by (simp add: word_less_nat_alt)
  then have "write_client W fc data n s = Some (n, s1)"
    using w(1) assms(2) by (simp add: write_client_def send_to_server_def server_queue_def Let_def)
  moreover obtain p qs where pq: "ps @ [msg] = p # qs" by (cases "ps @ [msg]") auto
  moreover obtain s2 where r: "receive_packet V ?q s1 = Some (p, p_size p + 8, s2)" "mailbox ?q qs s2"
    using receive_packet_ok [of ?q p qs s1 0 V] w(2,4) pq by auto
  have "p \<in> set (ps @ [msg])" using pq by simp
  then have p: "package_ok p" "unat (p_size p) + 8 \<le> unat count"
    using w(2) assms(7,8) by (auto simp: mailbox_def msg_def)
  then have sz: "unat (p_size p + 8) = length (package_bytes p)" "unat (p_size p + 8) = unat (p_size p) + 8"
    using package_length [OF p(1)] p(1) by (simp_all add: package_ok_def unat_add_less add.commute [of 8 "p_size p"])
  then have "\<not> p_size p + 8 > count" using p(2) by (simp add: word_less_nat_alt)
  then have "read_server V fs count s1 = Some (p_size p + 8, package_bytes p, s2)"
    using r(1) ring_step_keeps(1,2) [OF w(3)] sz(1) by (simp add: read_server_def server_queue_def)
  ultimately show ?thesis using w(2) r(2) by auto
qed

text \<open>A message for which the buffer of the reader is too small is lost: the read fails and the message is gone.\<close>

lemma short_buffer_loses_message:
  assumes "mailbox (server_queue f s) (p # ps) s" "has_memory 1 s" "unat count < unat (p_size p) + 8"
  shows "\<exists>s'. read_server W f count s = Some (-1, [], s') \<and> mailbox (server_queue f s) ps s'"
proof -
  obtain s' where r: "receive_packet W (server_queue f s) s = Some (p, p_size p + 8, s')" "mailbox (server_queue f s) ps s'"
    using receive_packet_ok [of "server_queue f s" p ps s 0 W] assms(1,2) by auto
  have "unat (p_size p) \<le> 1024" using assms(1) by (simp add: mailbox_def package_ok_def)
  then have "p_size p + 8 > count" using assms(3) by (simp add: word_less_nat_alt unat_add_less)
  then show ?thesis using r by (simp add: read_server_def server_queue_def)
qed

section \<open>Answers\<close>

definition client_queue :: "addr \<Rightarrow> pkg_state \<Rightarrow> addr" where
  "client_queue c s = client_msgs (pclients s c)"

text \<open>The head of a message that a server writes is the client it is for.\<close>

lemma header_target: "le_word (take 4 (le_bytes 4 (c :: u32) @ data)) = c" "drop 4 (le_bytes 4 (c :: u32) @ data) = data"
  by (simp_all add: le_word_bytes)

lemma count_header: "unat n \<le> 1024 \<Longrightarrow> (n + 4) - 4 = (n :: u32) \<and> \<not> n > 1024"
  by (simp add: word_less_nat_alt)

text \<open>A client of another server is refused and nothing is sent.\<close>

lemma foreign_client_refused:
  assumes "unat n \<le> 1024" "c \<noteq> 0" "client_server (pclients s c) \<noteq> file_target f s"
  shows "write_server W f (le_bytes 4 c @ data) (n + 4) s = Some (-1, s)"
  using header_target [of c data] count_header [OF assms(1)] assms(2,3) by (simp add: write_server_def Let_def)

text \<open>What a server writes to one of its clients is put behind the messages that wait there. The result counts the head of the
  message in the queue too, so it is more than was asked for.\<close>

lemma answer_reaches_client:
  assumes "c \<noteq> 0" "length data = unat n" "unat n \<le> 1024" "client_server (pclients s c) = file_target f s"
    "mailbox (client_queue c s) ps s" "has_memory (Suc k) s" "length (packages ps) + 8 + unat n < 3999"
  shows "\<exists>s1. write_server W f (le_bytes 4 c @ data) (n + 4) s = Some (n + 12, s1) \<and>
    mailbox (client_queue c s) (ps @ [\<lparr>p_size = n, p_source = 0, p_data = data\<rparr>]) s1 \<and> has_memory k s1"
proof -
  obtain s1 where "send_package W (client_queue c s) 0 n data s = Some (8 + n, s1)"
    "mailbox (client_queue c s) (ps @ [\<lparr>p_size = n, p_source = 0, p_data = data\<rparr>]) s1" "has_memory k s1"
    using send_package_ok [OF assms(5,6,2,3,7), of W 0] by auto
  then show ?thesis
    using header_target [of c data] count_header [OF assms(3)] assms(1,4)
    by (simp add: write_server_def send_to_client_def client_queue_def Let_def)
qed

text \<open>A client reads the bare data of the oldest message. Its buffer must have room for the head of the message too, though the
  head is not copied.\<close>

lemma read_client_first:
  assumes "mailbox (client_queue (file_target f s) s) (p # ps) s" "has_memory 1 s" "unat (p_size p) + 8 \<le> unat count"
  shows "\<exists>s'. read_client W f count s = Some (p_size p, p_data p, s') \<and> mailbox (client_queue (file_target f s) s) ps s'"
proof -
  let ?q = "client_queue (file_target f s) s"
  obtain s' where r: "receive_packet W ?q s = Some (p, p_size p + 8, s')" "mailbox ?q ps s'"
    using receive_packet_ok [of ?q p ps s 0 W] assms(1,2) by auto
  have p: "length (p_data p) = unat (p_size p)" "unat (p_size p) \<le> 1024" using assms(1) by (simp_all add: mailbox_def package_ok_def)
  then have "\<not> p_size p + 8 > count" using assms(3) by (simp add: word_less_nat_alt unat_add_less)
  then show ?thesis using r p(1) by (simp add: read_client_def client_queue_def)
qed

text \<open>A step that changes rings and takes memory, and nothing else.\<close>

definition rings_step :: "pkg_state \<Rightarrow> pkg_state \<Rightarrow> bool" where
  "rings_step s s' \<longleftrightarrow> (\<exists>qs al. s' = s\<lparr>pfs := (pfs s)\<lparr>allocs := al, ks := (ks (pfs s))\<lparr>queues := qs\<rparr>\<rparr>\<rparr>)"

lemma rings_step_refl: "rings_step s s"
  unfolding rings_step_def by (intro exI [of _ "queues (ks (pfs s))"] exI [of _ "allocs (pfs s)"]) simp

lemma rings_step_trans: "ring_step q s s1 \<Longrightarrow> rings_step s1 s2 \<Longrightarrow> rings_step s s2"
  unfolding ring_step_def rings_step_def by (elim exE) (simp add: upd_queue_def, intro exI, rule refl)

text \<open>The nodes of the clients, linked up to the head of the list.\<close>

abbreviation client_nodes :: "addr \<Rightarrow> addr list \<Rightarrow> addr list" where
  "client_nodes p cs \<equiv> map client_target cs @ [server_clients p]"

lemma client_of_target [simp]: "client_of_target (client_target c) = c"
  by (simp add: client_of_target_def client_target_def)

lemma send_to_all_ok:
  assumes "linked (lh (ks (pfs s))) (client_nodes p cs)" "server_clients p \<notin> client_target ` set cs"
    "distinct (map (\<lambda>c. client_queue c s) cs)" "has_memory (length cs) s" "length data = unat n" "unat n \<le> 1024"
    "\<forall>c \<in> set cs. mailbox (client_queue c s) (ps c) s \<and> length (packages (ps c)) + 8 + unat n < 3999"
  shows "\<exists>s'. send_to_all W p (hd (client_nodes p cs)) n data s = Some s' \<and> rings_step s s' \<and>
    (\<forall>c \<in> set cs. mailbox (client_queue c s) (ps c @ [\<lparr>p_size = n, p_source = 0, p_data = data\<rparr>]) s') \<and>
    (\<forall>q qs. q \<notin> (\<lambda>c. client_queue c s) ` set cs \<longrightarrow> mailbox q qs s' = mailbox q qs s)"
  using assms
proof (induction cs arbitrary: s)
  case Nil
  then show ?case using rings_step_refl by (simp add: send_to_all.simps)
next
  case (Cons c cs)
  let ?msg = "\<lparr>p_size = n, p_source = 0, p_data = data\<rparr>"
  let ?q = "client_queue c s"
  obtain s1 where s1: "send_package W ?q 0 n data s = Some (8 + n, s1)" "mailbox ?q (ps c @ [?msg]) s1" "ring_step ?q s s1"
    "has_memory (length cs) s1"
    using send_package_ok [of ?q "ps c" s "length cs" data n W 0] Cons.prems(4-7) by auto
  note k = ring_step_keeps [OF s1(3)]
  have cq: "client_queue d s1 = client_queue d s" for d by (simp add: client_queue_def k)
  have other: "mailbox q qs s1 = mailbox q qs s" if "q \<noteq> ?q" for q qs by (rule k(5) [OF that])
  have "linked (lh (ks (pfs s1))) (client_nodes p cs)" "nxt (lh (ks (pfs s))) (client_target c) = hd (client_nodes p cs)"
    using Cons.prems(1) k(4) by (cases cs; simp)+
  moreover have "\<forall>d \<in> set cs. mailbox (client_queue d s1) (ps d) s1 \<and> length (packages (ps d)) + 8 + unat n < 3999"
  proof
    fix d assume d: "d \<in> set cs"
    then have "client_queue d s \<noteq> ?q" using Cons.prems(3) by (auto simp: image_iff)
    then show "mailbox (client_queue d s1) (ps d) s1 \<and> length (packages (ps d)) + 8 + unat n < 3999"
      using Cons.prems(7) d cq other by simp
  qed
  ultimately obtain s' where s': "send_to_all W p (hd (client_nodes p cs)) n data s1 = Some s'" "rings_step s1 s'"
    "\<forall>d \<in> set cs. mailbox (client_queue d s1) (ps d @ [?msg]) s'"
    "\<forall>q qs. q \<notin> (\<lambda>d. client_queue d s1) ` set cs \<longrightarrow> mailbox q qs s' = mailbox q qs s1"
    using Cons.IH [of s1] Cons.prems(2,3,5,6) s1(4) cq by auto
  have "send_to_all W p (client_target c) n data s = Some s'"
    using Cons.prems(2) s1(1) s'(1) k(4) \<open>nxt (lh (ks (pfs s))) (client_target c) = _\<close>
    by (subst send_to_all.simps) (simp add: send_to_client_def client_queue_def eq_commute [of "client_target c"])
  moreover have "mailbox ?q (ps c @ [?msg]) s'" using s'(4) s1(2) Cons.prems(3) cq by simp
  moreover have "mailbox q qs s' = mailbox q qs s" if "q \<notin> (\<lambda>c. client_queue c s) ` set (c # cs)" for q qs
    using that s'(4) other cq by simp
  ultimately show ?case using rings_step_trans [OF s1(3) s'(2)] s'(3) cq by auto
qed

lemma rings_step_keeps:
  assumes "rings_step s s'"
  shows "lock_free l (ks (pfs s')) = lock_free l (ks (pfs s))" "running (ks (pfs s')) = running (ks (pfs s))"
    "g_ft_lock (pfs s') = g_ft_lock (pfs s)"
  using assms by (auto simp: rings_step_def lock_free_def)

lemma mailbox_held:
  assumes "queue_lock q \<noteq> l" shows "mailbox q ps (s\<lparr>pfs := (pfs s)\<lparr>ks := lock_held l n k\<rparr>\<rparr>) = mailbox q ps (s\<lparr>pfs := (pfs s)\<lparr>ks := k\<rparr>\<rparr>)"
  using assms by (simp add: mailbox_def queue_idle_def lock_free_def lock_held_def lock_semaphore_def)

text \<open>C18. A message for everybody. A message that a server writes with no client named is put into the queue of each of its
  clients, behind the messages that wait there, and the lock of the server is free again.\<close>

theorem broadcast_reaches_all:
  assumes "linked (lh (ks (pfs s))) (server_clients p # client_nodes p cs)" "distinct (server_clients p # map client_target cs)"
    "distinct (map (\<lambda>c. client_queue c s) cs)" "file_target f s = p" "has_memory (length cs) s"
    "length data = unat n" "unat n \<le> 1024" "lock_free (server_lock p) (ks (pfs s))" "running (ks (pfs s)) \<noteq> 0"
    "\<forall>c \<in> set cs. mailbox (client_queue c s) (ps c) s \<and> length (packages (ps c)) + 8 + unat n < 3999 \<and>
      queue_lock (client_queue c s) \<noteq> server_lock p"
  shows "\<exists>s'. write_server W f (le_bytes 4 (0 :: u32) @ data) (n + 4) s = Some (n + 4, s') \<and>
    (\<forall>c \<in> set cs. mailbox (client_queue c s) (ps c @ [\<lparr>p_size = n, p_source = 0, p_data = data\<rparr>]) s') \<and>
    lock_free (server_lock p) (ks (pfs s'))"
proof -
  let ?l = "server_lock p" and ?k = "ks (pfs s)"
  let ?s1 = "s\<lparr>pfs := (pfs s)\<lparr>ks := lock_held ?l 1 ?k\<rparr>\<rparr>"
  have held: "mailbox (client_queue c s) qs ?s1 = mailbox (client_queue c s) qs s" if "c \<in> set cs" for c qs
    using mailbox_held [of "client_queue c s" ?l qs 1 ?k s] assms(10) that by simp
  have fetch: "lock_fetch W ?l ?k = Some (lock_held ?l 1 ?k)" by (rule lock_fetch_free [OF assms(8,9)])
  have cq: "client_queue c ?s1 = client_queue c s" for c by (simp add: client_queue_def)
  have nodes: "linked (lh ?k) (client_nodes p cs)" "nxt (lh ?k) (server_clients p) = hd (client_nodes p cs)"
    using assms(1) by (cases cs; simp)+
  have "\<exists>s2. send_to_all W p (hd (client_nodes p cs)) n data ?s1 = Some s2 \<and> rings_step ?s1 s2 \<and>
    (\<forall>c \<in> set cs. mailbox (client_queue c ?s1) (ps c @ [\<lparr>p_size = n, p_source = 0, p_data = data\<rparr>]) s2) \<and>
    (\<forall>q qs. q \<notin> (\<lambda>c. client_queue c ?s1) ` set cs \<longrightarrow> mailbox q qs s2 = mailbox q qs ?s1)"
    by (rule send_to_all_ok) (use assms nodes held cq in \<open>auto simp: has_memory_def\<close>)
  then obtain s2 where s2: "send_to_all W p (hd (client_nodes p cs)) n data ?s1 = Some s2" "rings_step ?s1 s2"
    "\<forall>c \<in> set cs. mailbox (client_queue c s) (ps c @ [\<lparr>p_size = n, p_source = 0, p_data = data\<rparr>]) s2"
    by (auto simp: cq)
  obtain qs al where e: "s2 = ?s1\<lparr>pfs := (pfs ?s1)\<lparr>allocs := al, ks := (ks (pfs ?s1))\<lparr>queues := qs\<rparr>\<rparr>\<rparr>"
    using s2(2) unfolding rings_step_def by blast
  let ?k2 = "?k\<lparr>queues := qs\<rparr>"
  let ?s3 = "s\<lparr>pfs := (pfs s)\<lparr>allocs := al, ks := ?k2\<rparr>\<rparr>"
  have k2: "ks (pfs s2) = lock_held ?l 1 ?k2" by (simp add: e lock_held_def)
  have free: "lock_free ?l ?k2" using assms(8) by (simp add: lock_free_def)
  have "lock_release ?l (ks (pfs s2)) = Some ?k2" unfolding k2 by (rule lock_release_last [OF free])
  then have "write_server W f (le_bytes 4 (0 :: u32) @ data) (n + 4) s = Some (n + 4, ?s3)"
    using header_target [of 0 data] count_header [OF assms(7)] assms(4) fetch s2(1) nodes(2)
    by (simp add: write_server_def on_fs_def with_ks_def Let_def e)
  moreover have "mailbox (client_queue c s) (ps c @ [\<lparr>p_size = n, p_source = 0, p_data = data\<rparr>]) ?s3" if "c \<in> set cs" for c
  proof -
    have e2: "s2 = s\<lparr>pfs := (pfs s)\<lparr>allocs := al, ks := lock_held ?l 1 ?k2\<rparr>\<rparr>" by (simp add: e lock_held_def)
    have "mailbox (client_queue c s) (ps c @ [\<lparr>p_size = n, p_source = 0, p_data = data\<rparr>]) s2" using s2(3) that by blast
    moreover have "queue_lock (client_queue c s) \<noteq> ?l" using assms(10) that by blast
    ultimately show ?thesis
      using mailbox_held [of "client_queue c s" ?l _ 1 ?k2 "s\<lparr>pfs := (pfs s)\<lparr>allocs := al\<rparr>\<rparr>"] unfolding e2 by simp
  qed
  moreover have "lock_free ?l (ks (pfs ?s3))" using free by simp
  ultimately show ?thesis by blast
qed

section \<open>A server with one client\<close>

definition sample_pkg :: pkg_state where
  "sample_pkg = \<lparr>pfs =
     upd_file 1 (\<lambda>_. \<lparr>fd_pos = 0, fd_flag = 0, fd_inode = 0xc0420000\<rparr>)
      (upd_file 2 (\<lambda>_. \<lparr>fd_pos = CLIENT_MARK, fd_flag = 0, fd_inode = 0xc0430000\<rparr>)
       (upd_inode 0xc0420000 (\<lambda>i. i\<lparr>i_zones := [0xc0400000]\<rparr>) (upd_inode 0xc0430000 (\<lambda>i. i\<lparr>i_zones := [0xc0410000]\<rparr>)
         (sample_fs\<lparr>ks := upd_queue 0xc0310000 (\<lambda>r. r\<lparr>qsize := 4000\<rparr>) (upd_queue 0xc0320000 (\<lambda>r. r\<lparr>qsize := 4000\<rparr>)
           (upd_lh (list_add_tail (client_target 0xc0410000) (server_clients 0xc0400000)) boot_kstate))\<rparr>)))),
     pservers = (\<lambda>_. \<lparr>server_name = [0x73], server_msgs = 0xc0310000\<rparr>),
     pclients = (\<lambda>_. \<lparr>client_server = 0xc0400000, client_msgs = 0xc0320000\<rparr>)\<rparr>"

lemma sample_pkg_fields:
  "file_target 1 sample_pkg = 0xc0400000" "file_target 2 sample_pkg = 0xc0410000"
  "allocs (pfs sample_pkg) = [0xc0110000, 0xc0111000, 0xc0112000, 0xc0113000]"
  "pservers sample_pkg = (\<lambda>_. \<lparr>server_name = [0x73], server_msgs = 0xc0310000\<rparr>)"
  "pclients sample_pkg = (\<lambda>_. \<lparr>client_server = 0xc0400000, client_msgs = 0xc0320000\<rparr>)"
  "ks (pfs sample_pkg) = upd_queue 0xc0310000 (\<lambda>r. r\<lparr>qsize := 4000\<rparr>) (upd_queue 0xc0320000 (\<lambda>r. r\<lparr>qsize := 4000\<rparr>)
     (upd_lh (list_add_tail (client_target 0xc0410000) (server_clients 0xc0400000)) boot_kstate))"
  by (simp_all add: sample_pkg_def file_target_def upd_file_def upd_inode_def) (simp_all add: sample_fs_def)

lemma sample_pkg_mailboxes: "mailbox 0xc0310000 [] sample_pkg" "mailbox 0xc0320000 [] sample_pkg"
  by (simp_all add: mailbox_def sample_pkg_fields packages_def queue_idle_def lock_free_def list_is_empty_def upd_lh_def
      list_add_tail_def heap_upd client_target_def server_clients_def waiting_queue_def lock_semaphore_def queue_lock_def
      producer_waiting_list_def consumor_waiting_list_def cq_cap_def)
    (simp_all add: cq_holds_def ring_def upd_queue_def boot_kstate_def)

theorem messages_in_order_witness:
  "\<exists>s1 s2. write_client (\<lambda>_. None) 2 [7, 8] 2 sample_pkg = Some (2, s1) \<and>
     read_server (\<lambda>_. None) 1 64 s1 = Some (10, [2, 0, 0, 0, 0, 0, 0x41, 0xc0, 7, 8], s2)"
proof -
  have "mailbox (server_queue 1 sample_pkg) [] sample_pkg"
    using sample_pkg_mailboxes by (simp add: server_queue_def sample_pkg_fields)
  moreover have "le_bytes 4 (2 :: u32) = [2, 0, 0, 0]" "le_bytes 4 (0xc0410000 :: u32) = [0, 0, 0x41, 0xc0]" by code_simp+
  ultimately show ?thesis
    using messages_in_order [of 1 sample_pkg "[]" 2 "[7, 8]" 2 64 "\<lambda>_. None" "\<lambda>_. None"]
    by (simp add: sample_pkg_fields [simplified] has_memory_def packages_def package_bytes_def) blast
qed

theorem broadcast_reaches_all_witness:
  "\<exists>s'. write_server (\<lambda>_. None) 1 [0, 0, 0, 0, 7, 8] 6 sample_pkg = Some (6, s') \<and>
     mailbox 0xc0320000 [\<lparr>p_size = 2, p_source = 0, p_data = [7, 8]\<rparr>] s'"
proof -
  have z: "le_bytes 4 (0 :: u32) = [0, 0, 0, 0]" by (simp add: numeral_eq_Suc)
  have l: "linked (lh (ks (pfs sample_pkg))) [server_clients 0xc0400000, client_target 0xc0410000, server_clients 0xc0400000]"
    by (simp add: sample_pkg_fields upd_lh_def list_add_tail_def heap_upd client_target_def server_clients_def)
      (simp add: boot_kstate_def)
  have f: "lock_free (server_lock 0xc0400000) (ks (pfs sample_pkg))" "running (ks (pfs sample_pkg)) \<noteq> 0"
    by (simp_all add: sample_pkg_fields lock_free_def list_is_empty_def upd_lh_def list_add_tail_def heap_upd client_target_def
        server_clients_def server_lock_def waiting_queue_def lock_semaphore_def) (simp_all add: boot_kstate_def)
  have q: "client_queue c sample_pkg = 0xc0320000" for c by (simp add: client_queue_def sample_pkg_fields)
  show ?thesis
    using broadcast_reaches_all [where s = sample_pkg and p = "0xc0400000" and cs = "[0xc0410000]" and f = 1 and data = "[7, 8]"
        and n = 2 and ps = "\<lambda>_. []" and W = "\<lambda>_. None"] l f sample_pkg_mailboxes
    by (simp add: z q sample_pkg_fields [simplified] has_memory_def packages_def client_target_def server_clients_def server_lock_def queue_lock_def)
      blast
qed

end
