(* ===== verification/Spec2Isabelle.thy ===== *)
theory Spec2Isabelle
  imports IOQueue HashMap Stdio Threads IPC FsSpec Format Clock Descriptor Device Input Graphics Package
begin

text \<open>
  Verification of the Frog kernel, a 32-bit x86 operating system in C (\<^verbatim>\<open>src/core\<close>).

  \<^bold>\<open>The program.\<close> The boot loader maps the first megabyte and starts the kernel, which sets up two
  pools of physical pages, threads, the timer, software interrupts, the file system and the window
  system. Threads are control blocks at the start of a 4096-byte page whose end is their kernel
  stack; the scheduler keeps the runnable ones on a doubly linked list. Locks, blocking byte queues
  and messages put threads to sleep and wake them. Memory is handed out in pages, found with bitmaps
  and mapped through page tables that the kernel reaches through the last directory entry, and in
  blocks of 16 to 1024 bytes cut from pages (arenas).

  \<^bold>\<open>Conventions.\<close> C integers are words of their width, so arithmetic wraps as in the code. Memory is
  flat; objects reached by address are maps from addresses (\<open>kstate\<close>), nodes of intrusive lists live
  in the link heap \<open>lh\<close>. Fallible or possibly endless code returns \<open>'a option\<close>: \<open>None\<close> stands for a
  failed assertion, a panic, a fault, or a loop that never ends (\<open>partial_function\<close>), so a theorem
  that says \<open>Some\<close> also says that the code returns. Code that may block takes a parameter \<open>W\<close>, the
  run of the other threads from the switch until the caller is resumed (\<open>None\<close> if it never is);
  theorems hold for every \<open>W\<close>. Loops bounded by their data are recursive functions with a
  termination proof; the third loop of \<open>find_block_bitmap\<close> counts down the rest of the map and needs
  no other fuel.

  \<^bold>\<open>Theories.\<close>
  \<^item> \<open>Prelude\<close>: assertions, word arithmetic, named collections.
  \<^item> \<open>Bitmap\<close> (\<^verbatim>\<open>lib/bitmap.c\<close>): the search equals first fit on the set of free runs; allocating
    and freeing a run is a round trip.
  \<^item> \<open>LinkedList\<close> (\<^verbatim>\<open>lib/list.c\<close>, \<^verbatim>\<open>include/list.h\<close>): the pointer operations implement lists; the
    traversals return. Its interface is a locale of queues with two interpretations: well-linked
    lists, and lists whose inner back links are stale, which the kernel produces.
  \<^item> \<open>KState\<close>: the structures and globals of the kernel (\<^verbatim>\<open>sys/threads.h\<close>, \<^verbatim>\<open>sys/memory.h\<close>,
    \<^verbatim>\<open>sys/semaphore.h\<close>), the interrupt flag (\<^verbatim>\<open>interrupt/int.c\<close>), a concrete boot state.
  \<^item> \<open>Paging\<close> (page tables in \<^verbatim>\<open>mm/memory.c\<close>): the self-map window reads the tables; \<open>put_page\<close> maps
    exactly one page, \<open>remove_page\<close> unmaps exactly one.
  \<^item> \<open>Sched\<close> (\<^verbatim>\<open>thread/threads.c\<close>, \<^verbatim>\<open>thread/sched.c\<close>): invariant of the ready queue under every
    sequence of scheduling steps but three, each shown to break it (yielding with an empty ready list, waking the
    running thread or one linked elsewhere); round-robin order, blocking and unblocking.
  \<^item> \<open>Semaphore\<close> (\<^verbatim>\<open>thread/semaphore.c\<close>): mutual exclusion and no lost wake-up for any number of
    threads under every interleaving of the lock sections, each taken as one step; nesting.
  \<^item> \<open>Memory\<close> and \<open>Alloc\<close> (\<^verbatim>\<open>mm/memory.c\<close>): page and block allocation, the pools; allocation and
    release of pages as a round trip, disjointness of the blocks of an arena.
  \<^item> \<open>Strings\<close> (\<^verbatim>\<open>libc/string.c\<close>) and \<open>Stdio\<close> (\<^verbatim>\<open>lib/oslib.c\<close>, \<^verbatim>\<open>libc/stdio.c\<close>): the string functions
    against lists of bytes, number conversion, and the output of \<open>printf\<close> against numerals and pieces of text
    defined without its code.
  \<^item> \<open>HashMap\<close> (\<^verbatim>\<open>lib/hashmap.c\<close>): buckets as lists of pairs.
  \<^item> \<open>Ring\<close> and \<open>IOQueue\<close> (\<^verbatim>\<open>lib/fifo.c\<close>, \<^verbatim>\<open>lib/ioqueue.c\<close>): both rings interpret one locale of
    bounded byte queues; blocking put and get.
  \<^item> \<open>Timer\<close> (\<^verbatim>\<open>frog/timer.c\<close>, \<^verbatim>\<open>interrupt/softirq.c\<close>, the clock in \<^verbatim>\<open>thread/sched.c\<close>): slots and clock
    of the timer wheel, software interrupts.
  \<^item> \<open>Threads\<close> (\<^verbatim>\<open>thread/threads.c\<close>, \<^verbatim>\<open>thread/process.c\<close>): process identifiers, creation and end of
    threads and processes.
  \<^item> \<open>IPC\<close> (\<^verbatim>\<open>ipc/ipc.c\<close>, \<^verbatim>\<open>usr/syscall-init.c\<close>, \<^verbatim>\<open>usr/systask.c\<close>): messages; the graph of waiting
    senders stays without a cycle.
  \<^item> \<open>Disk\<close> and \<open>Inode\<close> (\<^verbatim>\<open>device/ide.c\<close> as sectors, \<^verbatim>\<open>fs/inode.c\<close>): the structures on disk as codecs,
    the inode table, the list of open inodes, the two bitmaps in memory and on disk.
  \<^item> \<open>File\<close> and \<open>FileData\<close> (\<^verbatim>\<open>fs/file.c\<close>): descriptors, open files, reading and writing; the content
    of a file after an append and the bytes a read returns at every position, in the direct zones.
  \<^item> \<open>Dir\<close> and \<open>DirSpec\<close> (\<^verbatim>\<open>fs/dir.c\<close>): entries are stored and found again; what goes wrong when a
    directory is full (zones no inode refers to) and when an entry is deleted (a slot of the boot sector).
  \<^item> \<open>Path\<close>, \<open>Fs\<close>, \<open>FsSpec\<close> and \<open>Format\<close> (\<^verbatim>\<open>fs/fs.c\<close>): path names, the calls on files and
    directories, formatting and mounting.
  \<^item> \<open>Device\<close> (\<^verbatim>\<open>sys_mount_device\<close> in \<^verbatim>\<open>fs/fs.c\<close>, the nodes of \<^verbatim>\<open>device\<close>, \<^verbatim>\<open>video\<close> and \<^verbatim>\<open>vfs\<close>): a node
    that is created is found by name and opens as the device it stands for.
  \<^item> \<open>Input\<close> (\<^verbatim>\<open>device/pc_kbd.c\<close>, \<^verbatim>\<open>device/pc_mouse.c\<close>, \<^verbatim>\<open>device/ps2hid.c\<close>): scan codes and mouse bytes become
    characters and packets, in order; the rings, as a third instance of the interface of \<open>Ring\<close>; their types
    under every sequence of events.
  \<^item> \<open>Clock\<close> (\<^verbatim>\<open>device/cmos.c\<close>): the clock chip, in its four formats and changing once while it is read, against a
    reference calendar; the time of day from ticks.
  \<^item> \<open>Descriptor\<close> (\<^verbatim>\<open>destab\<close>, \<^verbatim>\<open>protect.c\<close>, \<^verbatim>\<open>pic/pic.c\<close>, \<^verbatim>\<open>frog/pit8253.c\<close>): segment and gate descriptors as
    the processor reads them, the tables after start-up, the programming of the chips.
  \<^item> \<open>Package\<close> (\<^verbatim>\<open>fs/pipe.c\<close>, \<^verbatim>\<open>vfs/packagefs.c\<close>): pipes as channels of bytes, up to the page they
    own; messages between a server and its
    clients over the queues of \<open>IOQueue\<close>, whole, in order, to one client or to all.
  \<^item> \<open>Graphics\<close> (\<^verbatim>\<open>lib/2d_graphics.c\<close>): blending of colours in exact arithmetic; sprites and rectangles as the set
    of pixels they paint, over an interface of stores of pixels that the frame buffer interprets.

  \<^bold>\<open>Not modelled.\<close> The dispatch of \<^verbatim>\<open>sys_open\<close>, \<^verbatim>\<open>sys_close\<close>, \<^verbatim>\<open>sys_read\<close> and \<^verbatim>\<open>sys_write\<close> over
  devices and \<^verbatim>\<open>fs/select.c\<close>; \<^verbatim>\<open>fork\<close>, \<^verbatim>\<open>exec\<close>, \<^verbatim>\<open>exit\<close> and \<^verbatim>\<open>wait\<close>, which copy and tear down what \<open>Memory\<close>
  and \<open>Threads\<close> model; the registers of the disk controller (\<^verbatim>\<open>device/ide.c\<close>), below the sectors of \<open>Disk\<close>;
  the text console (\<^verbatim>\<open>device/console.c\<close>) and the queries of the frame buffer driver (\<^verbatim>\<open>video/lfbvideo.c\<close>),
  apart from their device nodes; the older drawing library, the packet wrappers (\<^verbatim>\<open>lib/packetx.c\<close>) and
  the programs of the window system. The
  boot loader and the context switch are assembly, and the bodies of demo programs are not part of
  the kernel's logic. Caches other than the reload of \<open>cr3\<close>, several processors and preemption inside
  code that runs with interrupts on (outside the lock sections of \<open>Semaphore\<close>) are outside the model:
  there an operation is one step.
\<close>

end
